(* ===== verification/Prelude.thy ===== *)
theory Prelude
  imports Complex_Main "HOL-Library.AList" "HOL-Library.Char_ord" "HOL-Library.List_Lexorder"
begin

text \<open>
  What every component of the development shares: Python strings and their blank test, the
  exception classes of \<^verbatim>\<open>cord_runtime\<close>, programs that may raise and that change a state
  (a raise keeps the changes already made, as in Python), Python dicts as association lists in
  insertion order, and the content of one JSON store file under \<^verbatim>\<open>.cordboard/\<close>.

  A point in time or a duration is a rational number of seconds: the floating point rounding of the
  source is not modelled, every comparison and sum it makes is.
  A string is a list of code points below 256.
\<close>

type_synonym seconds = rat

named_theorems prog_simps "unfolding programs that raise and change state"
named_theorems store_simps "what a store holds after an operation"

section \<open>Strings\<close>

text \<open>The code points below 256 that \<^verbatim>\<open>str.strip\<close> removes.\<close>

definition py_space :: "char \<Rightarrow> bool" where
  "py_space c = (let n = of_char c :: nat in
     (9 \<le> n \<and> n \<le> 13) \<or> (28 \<le> n \<and> n \<le> 32) \<or> n = 133 \<or> n = 160)"

text \<open>\<^verbatim>\<open>not value.strip()\<close>\<close>

definition blank :: "string \<Rightarrow> bool" where
  "blank s = list_all py_space s"

text \<open>\<^verbatim>\<open>'...'\<close> around an interpolated name.\<close>

definition quoted :: "string \<Rightarrow> string" where
  "quoted s = CHR 39 # s @ [CHR 39]"

text \<open>\<^verbatim>\<open>str(n)\<close>\<close>

fun show_nat :: "nat \<Rightarrow> string" where
  "show_nat n = (if n < 10 then [char_of (48 + n)] else show_nat (n div 10) @ [char_of (48 + n mod 10)])"

declare show_nat.simps [simp del]

definition show_int :: "int \<Rightarrow> string" where
  "show_int i = (if i < 0 then CHR ''-'' # show_nat (nat (- i)) else show_nat (nat i))"

lemma blank_Nil [simp]: "blank []"
  by (simp add: blank_def)

lemma not_blank_not_Nil: "\<not> blank s \<Longrightarrow> s \<noteq> []"
  by auto

section \<open>Exceptions\<close>

datatype exc_class =
    PyValueError | PyRuntimeError | PyKeyError | PyTypeError | PyIndexError | PyAttributeError | PyOSError
  | InvalidSignal | MappingError | InvalidConnection | InvalidRule
  | ConcurrencyError | SignalDedupeError | PendingCompletionError | ResponseDedupeError
  | ApprovalExpiryError | UnknownWaitingApproval | RunContinuityError | UnknownThread
  | DeploymentLifecycleError | ApprovalInboxError | ArchiveError | TopologySnapshotError
  | ReadError | PendingRead

text \<open>An exception object: its class and its message (\<^verbatim>\<open>str(exc)\<close>).\<close>

datatype exn = Exn (exn_class: exc_class) (exn_msg: string)

text \<open>
  What \<^verbatim>\<open>except ValueError\<close> catches: every exception class of the repository derives from
  \<^verbatim>\<open>ValueError\<close>, but the two by which \<^verbatim>\<open>langfuse_query.py\<close> talks to itself.
\<close>

fun is_value_error :: "exc_class \<Rightarrow> bool" where
  "is_value_error PyRuntimeError = False"
| "is_value_error PyKeyError = False"
| "is_value_error PyTypeError = False"
| "is_value_error PyIndexError = False"
| "is_value_error PyAttributeError = False"
| "is_value_error PyOSError = False"
| "is_value_error ReadError = False"
| "is_value_error PendingRead = False"
| "is_value_error _ = True"

section \<open>Programs\<close>

type_synonym ('s, 'a) prog = "'s \<Rightarrow> (exn + 'a) \<times> 's"

definition ret :: "'a \<Rightarrow> ('s, 'a) prog" where
  "ret x = (\<lambda>s. (Inr x, s))"

definition throw :: "exc_class \<Rightarrow> string \<Rightarrow> ('s, 'a) prog" where
  "throw c m = (\<lambda>s. (Inl (Exn c m), s))"

definition andthen :: "('s, 'a) prog \<Rightarrow> ('a \<Rightarrow> ('s, 'b) prog) \<Rightarrow> ('s, 'b) prog" where
  "andthen m f = (\<lambda>s. case m s of (Inl e, s') \<Rightarrow> (Inl e, s') | (Inr x, s') \<Rightarrow> f x s')"

text \<open>\<^verbatim>\<open>try: m except <classes accepted by p> as e: h e\<close>\<close>

definition catching ::
  "(exc_class \<Rightarrow> bool) \<Rightarrow> ('s, 'a) prog \<Rightarrow> (exn \<Rightarrow> ('s, 'a) prog) \<Rightarrow> ('s, 'a) prog" where
  "catching p m h = (\<lambda>s. case m s of
     (Inl e, s') \<Rightarrow> if p (exn_class e) then h e s' else (Inl e, s')
   | (Inr x, s') \<Rightarrow> (Inr x, s'))"

text \<open>\<^verbatim>\<open>try: m finally: fin\<close>; an exception of the block \<^verbatim>\<open>finally\<close> replaces the outcome.\<close>

definition ensuring :: "('s, 'a) prog \<Rightarrow> ('s, unit) prog \<Rightarrow> ('s, 'a) prog" where
  "ensuring m fin = (\<lambda>s. case m s of (r, s') \<Rightarrow>
     (case fin s' of (Inl e, s'') \<Rightarrow> (Inl e, s'') | (Inr _, s'') \<Rightarrow> (r, s'')))"

definition getting :: "('s \<Rightarrow> 'a) \<Rightarrow> ('s, 'a) prog" where
  "getting g = (\<lambda>s. (Inr (g s), s))"

definition changing :: "('s \<Rightarrow> 's) \<Rightarrow> ('s, unit) prog" where
  "changing h = (\<lambda>s. (Inr (), h s))"

text \<open>A pure computation that may raise.\<close>

definition attempt :: "exn + 'a \<Rightarrow> ('s, 'a) prog" where
  "attempt r = (\<lambda>s. (r, s))"

text \<open>Runs a component's program on its part of a larger state.\<close>

definition zoom :: "('w \<Rightarrow> 's) \<Rightarrow> ('s \<Rightarrow> 'w \<Rightarrow> 'w) \<Rightarrow> ('s, 'a) prog \<Rightarrow> ('w, 'a) prog" where
  "zoom g p m = (\<lambda>w. case m (g w) of (r, s) \<Rightarrow> (r, p s w))"

definition only_if :: "bool \<Rightarrow> ('s, unit) prog \<Rightarrow> ('s, unit) prog" where
  "only_if b m = (if b then m else ret ())"

text \<open>\<^verbatim>\<open>for x in xs: f(x)\<close>, an exception ends the loop.\<close>

fun for_each :: "'a list \<Rightarrow> ('a \<Rightarrow> ('s, unit) prog) \<Rightarrow> ('s, unit) prog" where
  "for_each [] f = ret ()"
| "for_each (x # xs) f = andthen (f x) (\<lambda>_. for_each xs f)"

text \<open>\<^verbatim>\<open>for x in xs: out.extend(f(x))\<close>\<close>

fun for_collect :: "'a list \<Rightarrow> ('a \<Rightarrow> ('s, 'b list) prog) \<Rightarrow> ('s, 'b list) prog" where
  "for_collect [] f = ret []"
| "for_collect (x # xs) f =
     andthen (f x) (\<lambda>ys. andthen (for_collect xs f) (\<lambda>zs. ret (ys @ zs)))"

lemmas prog_defs = ret_def throw_def andthen_def catching_def ensuring_def getting_def
  changing_def attempt_def zoom_def only_if_def

lemma ret_app [simp, prog_simps]: "ret x s = (Inr x, s)"
  by (simp add: ret_def)

lemma throw_app [simp, prog_simps]: "throw c m s = (Inl (Exn c m), s)"
  by (simp add: throw_def)

lemma getting_app [simp, prog_simps]: "getting g s = (Inr (g s), s)"
  by (simp add: getting_def)

lemma changing_app [simp, prog_simps]: "changing h s = (Inr (), h s)"
  by (simp add: changing_def)

lemma attempt_app [simp, prog_simps]: "attempt r s = (r, s)"
  by (simp add: attempt_def)

lemma andthen_assoc: "andthen (andthen m f) g = andthen m (\<lambda>x. andthen (f x) g)"
  by (auto simp: andthen_def fun_eq_iff split: prod.splits sum.splits)

lemma andthen_ret [simp, prog_simps]: "andthen (ret x) f = f x"
  by (simp add: andthen_def ret_def)

lemma andthen_throw [simp, prog_simps]: "andthen (throw c m) f = throw c m"
  by (simp add: andthen_def throw_def)

lemma andthen_getting [simp, prog_simps]: "andthen (getting g) f s = f (g s) s"
  by (simp add: andthen_def)

lemma andthen_changing [simp, prog_simps]: "andthen (changing h) f s = f () (h s)"
  by (simp add: andthen_def)

lemma andthen_attempt [simp, prog_simps]:
  "andthen (attempt r) f s = (case r of Inl e \<Rightarrow> (Inl e, s) | Inr x \<Rightarrow> f x s)"
  by (auto simp: andthen_def split: sum.splits)

lemma andthen_Inr: "m s = (Inr x, s') \<Longrightarrow> andthen m f s = f x s'"
  by (simp add: andthen_def)

lemma andthen_Inl: "m s = (Inl e, s') \<Longrightarrow> andthen m f s = (Inl e, s')"
  by (simp add: andthen_def)

lemma andthen_InrE:
  assumes "andthen m f s = (Inr y, t)"
  obtains x s' where "m s = (Inr x, s')" and "f x s' = (Inr y, t)"
  using assms by (auto simp: andthen_def split: prod.splits sum.splits)

text \<open>The outcome and the state of a run that does not raise.\<close>

lemma succeeded_pair: "\<not> isl (fst p) \<Longrightarrow> p = (Inr (projr (fst p)), snd p)"
  by (cases p) auto

section \<open>Dicts\<close>

text \<open>
  A Python dict in insertion order; \<^const>\<open>map_of\<close> is \<^verbatim>\<open>d.get(k)\<close>, \<^const>\<open>AList.update\<close> is
  \<^verbatim>\<open>d[k] = v\<close> (in place, or appended) and \<^const>\<open>AList.delete\<close> is \<^verbatim>\<open>del d[k]\<close>.
\<close>

type_synonym 'v dict = "(string \<times> 'v) list"

definition dict_ok :: "'v dict \<Rightarrow> bool" where
  "dict_ok d = distinct (map fst d)"

text \<open>The order in which \<^verbatim>\<open>json.dump(..., sort_keys=True)\<close> writes, and a later load reads.\<close>

definition sorted_keys :: "'v dict \<Rightarrow> 'v dict" where
  "sorted_keys d = sort_key fst d"

lemma map_of_insort_key:
  "map_of (insort_key fst (k, v) d) = (map_of d)(k \<mapsto> v)"
  by (induction d) (auto simp: fun_eq_iff)

lemma map_of_sorted_keys [simp, store_simps]: "map_of (sorted_keys d) = map_of d"
  by (induction d) (auto simp: sorted_keys_def map_of_insort_key)

lemma set_sorted_keys [simp]: "set (sorted_keys d) = set d"
  by (simp add: sorted_keys_def)

lemma dict_ok_sorted_keys [simp]: "dict_ok (sorted_keys d) = dict_ok d"
  by (simp add: dict_ok_def sorted_keys_def distinct_map)

lemma sorted_sorted_keys [simp]: "sorted (map fst (sorted_keys d))"
  by (simp add: sorted_keys_def)

lemma sorted_keys_sorted: "sorted (map fst d) \<Longrightarrow> sorted_keys d = d"
  by (simp add: sorted_keys_def sort_key_id_if_sorted)

lemma dict_ok_Nil [simp]: "dict_ok []"
  by (simp add: dict_ok_def)

lemma dict_ok_update [simp, intro]: "dict_ok d \<Longrightarrow> dict_ok (AList.update k v d)"
  by (simp add: dict_ok_def distinct_update)

lemma dict_ok_delete [simp, intro]: "dict_ok d \<Longrightarrow> dict_ok (AList.delete k d)"
  by (simp add: dict_ok_def distinct_delete)

lemma dict_ok_filter [simp, intro]: "dict_ok d \<Longrightarrow> dict_ok (filter P d)"
  by (simp add: dict_ok_def distinct_map_filter)

lemma map_of_filter_dict:
  "dict_ok d \<Longrightarrow>
   map_of (filter (\<lambda>(k, v). P k v) d) k =
     (case map_of d k of None \<Rightarrow> None | Some v \<Rightarrow> if P k v then Some v else None)"
proof (induction d)
  case (Cons a d)
  obtain k' v' where a: "a = (k', v')" by (cases a)
  have "k' \<notin> fst ` set d" using Cons.prems by (simp add: dict_ok_def a)
  then have none: "map_of d k' = None" by (simp add: map_of_eq_None_iff)
  have "dict_ok d" using Cons.prems by (simp add: dict_ok_def)
  then show ?case using Cons.IH none by (auto simp: a)
qed simp

declare update_conv' [store_simps] delete_conv' [store_simps]

section \<open>Store files\<close>

text \<open>
  The content of one JSON file: absent, not valid JSON (or unreadable), valid JSON of another shape,
  or the data the component wrote.
\<close>

datatype 'a store_file = Absent | Unreadable | WrongShape | Holds 'a

definition load_file ::
  "exc_class \<Rightarrow> string \<Rightarrow> string \<Rightarrow> 'v list store_file \<Rightarrow> exn + 'v list" where
  "load_file c what shape f = (case f of
     Absent \<Rightarrow> Inr []
   | Unreadable \<Rightarrow> Inl (Exn c (what @ '' is not valid JSON''))
   | WrongShape \<Rightarrow> Inl (Exn c (what @ '' must be '' @ shape))
   | Holds d \<Rightarrow> Inr d)"

text \<open>A file the component can read, and the data it then loads.\<close>

definition readable :: "'a store_file \<Rightarrow> bool" where
  "readable f = (case f of Absent \<Rightarrow> True | Holds _ \<Rightarrow> True | _ \<Rightarrow> False)"

definition content :: "'v list store_file \<Rightarrow> 'v list" where
  "content f = (case f of Holds d \<Rightarrow> d | _ \<Rightarrow> [])"

text \<open>The data of a readable file of the component has every key once.\<close>

definition file_ok :: "'v dict store_file \<Rightarrow> bool" where
  "file_ok f = (readable f \<and> dict_ok (content f))"

lemma content_simps [simp, store_simps]:
  "content Absent = []" "content (Holds d) = d"
  by (simp_all add: content_def)

lemma readable_simps [simp, store_simps]:
  "readable Absent" "readable (Holds d)" "\<not> readable Unreadable" "\<not> readable WrongShape"
  by (simp_all add: readable_def)

lemma file_ok_simps [simp]: "file_ok Absent" "file_ok (Holds d) = dict_ok d"
  by (simp_all add: file_ok_def)

lemma file_ok_readable [dest]: "file_ok f \<Longrightarrow> readable f"
  by (simp add: file_ok_def)

lemma file_ok_content [dest]: "file_ok f \<Longrightarrow> dict_ok (content f)"
  by (simp add: file_ok_def)

lemma load_file_readable [simp, store_simps]:
  "readable f \<Longrightarrow> load_file c what shape f = Inr (content f)"
  by (cases f) (simp_all add: load_file_def)

lemma load_file_unreadable:
  "\<not> readable f \<Longrightarrow> \<exists>m. load_file c what shape f = Inl (Exn c m)"
  by (cases f) (simp_all add: load_file_def)

lemma load_file_Inr: "load_file c what shape f = Inr d \<Longrightarrow> readable f \<and> d = content f"
  by (cases f) (auto simp: load_file_def)

text \<open>
  The write every store makes (\<^verbatim>\<open>_write_atomic\<close>: a temporary file that replaces the old one, so a
  reader sees the whole old or the whole new content): the file holds the data, keys sorted.
\<close>

definition write_atomic :: "'v dict \<Rightarrow> ('v dict store_file, unit) prog" where
  "write_atomic data = changing (\<lambda>_. Holds (sorted_keys data))"

lemma write_atomic_app [simp, prog_simps]: "write_atomic d f = (Inr (), Holds (sorted_keys d))"
  by (simp add: write_atomic_def)

text \<open>\<^verbatim>\<open>data = load_...(board_dir)\<close>\<close>

definition reading :: "('f \<Rightarrow> exn + 'a) \<Rightarrow> ('f, 'a) prog" where
  "reading load = (\<lambda>f. (load f, f))"

lemma andthen_write_atomic [simp, prog_simps]:
  "andthen (write_atomic d) m f = m () (Holds (sorted_keys d))"
  by (simp add: andthen_def)

lemma andthen_reading [simp, prog_simps]:
  "andthen (reading load) m f = (case load f of Inl e \<Rightarrow> (Inl e, f) | Inr d \<Rightarrow> m d f)"
  by (auto simp: andthen_def reading_def split: sum.splits)

section \<open>Nested store files\<close>

text \<open>\<^verbatim>\<open>data[outer][inner]\<close>; None is the KeyError.\<close>

definition lookup2 :: "'v dict dict \<Rightarrow> string \<Rightarrow> string \<Rightarrow> 'v option" where
  "lookup2 d i j = (case map_of d i of None \<Rightarrow> None | Some e \<Rightarrow> map_of e j)"

text \<open>\<^verbatim>\<open>data.setdefault(outer, {})[inner] = v\<close>\<close>

definition update2 :: "string \<Rightarrow> string \<Rightarrow> 'v \<Rightarrow> 'v dict dict \<Rightarrow> 'v dict dict" where
  "update2 i j v d =
     AList.update i (AList.update j v (case map_of d i of None \<Rightarrow> [] | Some e \<Rightarrow> e)) d"

text \<open>\<^verbatim>\<open>sort_keys=True\<close> sorts every level.\<close>

definition write_atomic2 :: "'v dict dict \<Rightarrow> ('v dict dict store_file, unit) prog" where
  "write_atomic2 data = write_atomic (map (\<lambda>(k, e). (k, sorted_keys e)) data)"

definition nested_ok :: "'v dict dict store_file \<Rightarrow> bool" where
  "nested_ok f = (file_ok f \<and> (\<forall>(k, e) \<in> set (content f). dict_ok e))"

lemma map_of_sorted_inner: "map_of (map (\<lambda>(k, e). (k, sorted_keys e)) d) i = map_option sorted_keys (map_of d i)"
  by (induction d) auto

lemma lookup2_sorted [simp, store_simps]:
  "lookup2 (sorted_keys (map (\<lambda>(k, e). (k, sorted_keys e)) d)) i j = lookup2 d i j"
  by (simp add: lookup2_def map_of_sorted_inner split: option.splits)

lemma lookup2_update2 [simp, store_simps]:
  "lookup2 (update2 i j v d) i' j' = (if i' = i \<and> j' = j then Some v else lookup2 d i' j')"
  by (auto simp: lookup2_def update2_def update_conv' split: option.splits)

lemma lookup2_Nil [simp]: "lookup2 [] i j = None"
  by (simp add: lookup2_def)

lemma write_atomic2_app [simp, prog_simps]:
  "write_atomic2 d f = (Inr (), Holds (sorted_keys (map (\<lambda>(k, e). (k, sorted_keys e)) d)))"
  by (simp add: write_atomic2_def)

lemma andthen_write_atomic2 [simp, prog_simps]:
  "andthen (write_atomic2 d) m f = m () (Holds (sorted_keys (map (\<lambda>(k, e). (k, sorted_keys e)) d)))"
  by (simp add: andthen_def)

lemma nested_ok_Absent [simp]: "nested_ok Absent"
  by (simp add: nested_ok_def)

lemma nested_ok_readable [dest]: "nested_ok f \<Longrightarrow> readable f"
  by (auto simp: nested_ok_def)

lemma dict_ok_map_values [simp]: "dict_ok (map (\<lambda>(k, e). (k, h e)) d) = dict_ok d"
  by (simp add: dict_ok_def comp_def split_def)

lemma set_update_subset: "set (AList.update k v d) \<subseteq> insert (k, v) (set d)"
  by (induction d) auto

lemma nested_ok_write:
  assumes "nested_ok f"
  shows "nested_ok (Holds (sorted_keys (map (\<lambda>(k, e). (k, sorted_keys e)) (update2 i j v (content f)))))"
proof -
  have ok: "dict_ok (content f)" "\<And>k e. (k, e) \<in> set (content f) \<Longrightarrow> dict_ok e"
    using assms by (auto simp: nested_ok_def)
  let ?inner = "AList.update j v (case map_of (content f) i of None \<Rightarrow> [] | Some e \<Rightarrow> e)"
  have "dict_ok ?inner"
    using ok(2) by (auto simp: dict_ok_def [of "[(j, v)]"] split: option.splits dest: map_of_SomeD)
  moreover have "set (AList.update i ?inner (content f)) \<subseteq> insert (i, ?inner) (set (content f))"
    by (rule set_update_subset)
  ultimately show ?thesis
    using ok by (auto simp: nested_ok_def update2_def dest!: subsetD)
qed

end
