(* ===== verification/Wp.thy ===== *)
theory Wp
  imports Prelude
begin

text \<open>
  Weakest preconditions of the programs of \<^theory_text>\<open>Prelude\<close>: \<open>wp m Q s\<close> says that \<open>Q\<close> holds of the
  outcome of \<open>m\<close> from \<open>s\<close>, an exception included, and of the state it leaves. The equations unfold a
  program into the operations of the stores, whose own lemmas finish a proof.
\<close>

definition wp :: "('s, 'a) prog \<Rightarrow> (exn + 'a \<Rightarrow> 's \<Rightarrow> bool) \<Rightarrow> 's \<Rightarrow> bool" where
  "wp m Q s = (case m s of (r, s') \<Rightarrow> Q r s')"

named_theorems wp_simps "weakest preconditions of the program constructs"

lemma wpD: "wp m Q s \<Longrightarrow> m s = (r, s') \<Longrightarrow> Q r s'"
  by (simp add: wp_def)

lemma wpI: "(\<And>r s'. m s = (r, s') \<Longrightarrow> Q r s') \<Longrightarrow> wp m Q s"
  by (auto simp: wp_def split: prod.splits)

lemma wp_fst_snd: "wp m Q s = Q (fst (m s)) (snd (m s))"
  by (simp add: wp_def split_beta)

lemma wp_same: "m s = m' s' \<Longrightarrow> wp m Q s = wp m' Q s'"
  by (simp add: wp_def)

lemma wp_mono: "wp m Q s \<Longrightarrow> (\<And>r s'. Q r s' \<Longrightarrow> R r s') \<Longrightarrow> wp m R s"
  by (auto simp: wp_def)

lemma wp_conj: "wp m Q s \<Longrightarrow> wp m R s \<Longrightarrow> wp m (\<lambda>r s'. Q r s' \<and> R r s') s"
  by (auto simp: wp_def)

lemma wp_True [simp]: "wp m (\<lambda>r s. True) s"
  by (simp add: wp_def split: prod.splits)

lemma wp_ret [simp, wp_simps]: "wp (ret x) Q s = Q (Inr x) s"
  by (simp add: wp_def)

lemma wp_throw [simp, wp_simps]: "wp (throw c m) Q s = Q (Inl (Exn c m)) s"
  by (simp add: wp_def)

lemma wp_attempt [simp, wp_simps]: "wp (attempt r) Q s = Q r s"
  by (simp add: wp_def)

lemma wp_getting [simp, wp_simps]: "wp (getting g) Q s = Q (Inr (g s)) s"
  by (simp add: wp_def)

lemma wp_changing [simp, wp_simps]: "wp (changing h) Q s = Q (Inr ()) (h s)"
  by (simp add: wp_def)

lemma wp_reading [simp, wp_simps]: "wp (reading load) Q s = Q (load s) s"
  by (simp add: wp_def reading_def)

lemma wp_zoom [simp, wp_simps]: "wp (zoom g p m) Q w = wp m (\<lambda>r s. Q r (p s w)) (g w)"
  by (simp add: wp_def zoom_def split: prod.splits)

lemma wp_andthen [simp, wp_simps]:
  "wp (andthen m f) Q s =
     wp m (\<lambda>r s'. (\<forall>e. r = Inl e \<longrightarrow> Q (Inl e) s') \<and> (\<forall>x. r = Inr x \<longrightarrow> wp (f x) Q s')) s"
  by (auto simp: wp_def andthen_def split: prod.splits sum.splits)

lemma wp_catching [simp, wp_simps]:
  "wp (catching p m h) Q s =
     wp m (\<lambda>r s'. (\<forall>e. r = Inl e \<longrightarrow> (if p (exn_class e) then wp (h e) Q s' else Q (Inl e) s')) \<and>
                  (\<forall>x. r = Inr x \<longrightarrow> Q (Inr x) s')) s"
  by (cases "m s"; cases "fst (m s)") (auto simp: wp_def catching_def)

lemma wp_ensuring [simp, wp_simps]:
  "wp (ensuring m fin) Q s =
     wp m (\<lambda>r s'. wp fin (\<lambda>rf s''. (\<forall>e. rf = Inl e \<longrightarrow> Q (Inl e) s'') \<and> (\<forall>x. rf = Inr x \<longrightarrow> Q r s'')) s') s"
  by (auto simp: wp_def ensuring_def split: prod.splits sum.splits)

text \<open>
  \<^verbatim>\<open>try: m except <classes> as e: ... else: ...\<close>: an exception of one of the classes is a value, what
  follows is outside the protection.
\<close>

definition tried :: "(exc_class \<Rightarrow> bool) \<Rightarrow> ('s, 'a) prog \<Rightarrow> ('s, exn + 'a) prog" where
  "tried p m = catching p (andthen m (\<lambda>x. ret (Inr x))) (\<lambda>e. ret (Inl e))"

lemma wp_tried [simp, wp_simps]:
  "wp (tried p m) Q s =
     wp m (\<lambda>r s'. (\<forall>e. r = Inl e \<longrightarrow> (if p (exn_class e) then Q (Inr (Inl e)) s' else Q (Inl e) s')) \<and>
                  (\<forall>x. r = Inr x \<longrightarrow> Q (Inr (Inr x)) s')) s"
  by (auto simp: wp_def tried_def catching_def andthen_def split: prod.splits sum.splits)

definition discard :: "('s, 'a) prog \<Rightarrow> ('s, unit) prog" where
  "discard m = andthen m (\<lambda>_. ret ())"

lemma wp_discard [simp, wp_simps]:
  "wp (discard m) Q s =
     wp m (\<lambda>r s'. (\<forall>e. r = Inl e \<longrightarrow> Q (Inl e) s') \<and> (\<forall>x. r = Inr x \<longrightarrow> Q (Inr ()) s')) s"
  by (simp add: discard_def)

lemma wp_only_if [simp, wp_simps]: "wp (only_if b m) Q s = (if b then wp m Q s else Q (Inr ()) s)"
  by (simp add: only_if_def)

lemma andthen_attempt_Inr: "andthen (attempt (Inr x)) f = f x"
  by (simp add: fun_eq_iff)

lemma map_sum_Inr [simp]: "map_sum id f r = Inr y \<longleftrightarrow> (\<exists>x. r = Inr x \<and> y = f x)"
  by (cases r) auto

lemma map_sum_Inl [simp]: "map_sum id f r = Inl y \<longleftrightarrow> r = Inl y"
  by (cases r) auto

lemma wp_for_collect:
  assumes "\<And>x s. x \<in> set xs \<Longrightarrow> I s \<Longrightarrow> wp (f x) (\<lambda>r s'. I s') s" and "I s"
  shows "wp (for_collect xs f) (\<lambda>r s'. I s') s"
  using assms
proof (induction xs arbitrary: s)
  case (Cons x xs)
  have "wp (f x) (\<lambda>r s'. I s') s" using Cons.prems by simp
  moreover have "wp (for_collect xs f) (\<lambda>r s'. I s') s'" if "I s'" for s'
    using Cons.IH Cons.prems(1) that by simp
  ultimately show ?case
    by (auto elim!: wp_mono intro: wp_mono)
qed simp

end
