(* ===== verification/Json.thy ===== *)
theory Json
  imports Prelude
begin

text \<open>
  JSON values as \<^verbatim>\<open>json.loads\<close> gives them to the code, Python's \<^verbatim>\<open>==\<close> and truth value on
  them, the router's dot-path lookup, and the encoding \<^verbatim>\<open>json.dumps([...])\<close> of a list of strings
  that the claim stores use as their key, with its decoder and the round trip between the two.
\<close>

datatype json =
    JNull | JBool bool | JInt int | JFloat rat | JStr string
  | JArr "json list" | JObj "(string \<times> json) list"

section \<open>Equality and truth value\<close>

text \<open>\<^verbatim>\<open>bool\<close> is a subclass of \<^verbatim>\<open>int\<close>, and \<^verbatim>\<open>1 == 1.0 == True\<close>.\<close>

fun numeric :: "json \<Rightarrow> rat option" where
  "numeric (JBool b) = Some (if b then 1 else 0)"
| "numeric (JInt i) = Some (of_int i)"
| "numeric (JFloat r) = Some r"
| "numeric _ = None"

fun py_eq :: "json \<Rightarrow> json \<Rightarrow> bool"
and py_eq_list :: "json list \<Rightarrow> json list \<Rightarrow> bool"
and py_eq_dict :: "(string \<times> json) list \<Rightarrow> (string \<times> json) list \<Rightarrow> bool" where
  "py_eq JNull b = (b = JNull)"
| "py_eq (JStr s) b = (b = JStr s)"
| "py_eq (JArr xs) b = (case b of JArr ys \<Rightarrow> py_eq_list xs ys | _ \<Rightarrow> False)"
| "py_eq (JObj d) b = (case b of JObj e \<Rightarrow> length d = length e \<and> py_eq_dict d e | _ \<Rightarrow> False)"
| "py_eq a b = (case numeric b of None \<Rightarrow> False | Some r \<Rightarrow> numeric a = Some r)"
| "py_eq_list [] ys = (ys = [])"
| "py_eq_list (x # xs) ys = (case ys of [] \<Rightarrow> False | y # ys' \<Rightarrow> py_eq x y \<and> py_eq_list xs ys')"
| "py_eq_dict [] e = True"
| "py_eq_dict ((k, v) # d) e =
     ((case map_of e k of None \<Rightarrow> False | Some w \<Rightarrow> py_eq v w) \<and> py_eq_dict d e)"

fun truthy :: "json \<Rightarrow> bool" where
  "truthy JNull = False"
| "truthy (JBool b) = b"
| "truthy (JInt i) = (i \<noteq> 0)"
| "truthy (JFloat r) = (r \<noteq> 0)"
| "truthy (JStr s) = (s \<noteq> [])"
| "truthy (JArr xs) = (xs \<noteq> [])"
| "truthy (JObj d) = (d \<noteq> [])"

text \<open>\<^verbatim>\<open>isinstance(v, str) and v.strip()\<close>, as an optional string.\<close>

fun nonblank_str :: "json option \<Rightarrow> string option" where
  "nonblank_str (Some (JStr s)) = (if blank s then None else Some s)"
| "nonblank_str _ = None"

lemma nonblank_str_Some: "nonblank_str j = Some s \<longleftrightarrow> j = Some (JStr s) \<and> \<not> blank s"
  by (cases j rule: nonblank_str.cases) auto

lemma py_eq_list_self: "(\<And>x. x \<in> set xs \<Longrightarrow> py_eq x x) \<Longrightarrow> py_eq_list xs xs"
  by (induction xs) auto

lemma py_eq_dict_self:
  assumes "dict_ok e" and "set d \<subseteq> set e" and "\<And>k v. (k, v) \<in> set d \<Longrightarrow> py_eq v v"
  shows "py_eq_dict d e"
  using assms
proof (induction d)
  case (Cons kv d)
  obtain k v where kv: "kv = (k, v)" by (cases kv)
  have "map_of e k = Some v" using Cons.prems(1,2) by (simp add: kv dict_ok_def)
  moreover have "py_eq v v" using Cons.prems(3) [of k v] by (simp add: kv)
  moreover have "py_eq_dict d e" using Cons by (meson list.set_intros(2) subset_code(1))
  ultimately show ?case by (simp add: kv)
qed simp

text \<open>Every key of every object occurs once, as in a Python dict.\<close>

fun json_ok :: "json \<Rightarrow> bool" where
  "json_ok (JArr xs) = list_all json_ok xs"
| "json_ok (JObj d) = (dict_ok d \<and> list_all (\<lambda>kv. json_ok (snd kv)) d)"
| "json_ok _ = True"

lemma py_eq_refl: "json_ok j \<Longrightarrow> py_eq j j"
proof (induction j)
  case (JArr xs)
  then show ?case by (auto simp: list_all_iff intro: py_eq_list_self)
next
  case (JObj d)
  have "py_eq v v" if "(k, v) \<in> set d" for k v
    using JObj that by (fastforce simp: list_all_iff)
  with JObj show ?case by (auto intro: py_eq_dict_self)
qed auto

section \<open>Dot paths\<close>

text \<open>\<^verbatim>\<open>path.split('.')\<close>\<close>

fun split_on :: "char \<Rightarrow> string \<Rightarrow> string list" where
  "split_on c [] = [[]]"
| "split_on c (x # xs) =
     (if x = c then [] # split_on c xs
      else (case split_on c xs of [] \<Rightarrow> [[x]] | p # ps \<Rightarrow> (x # p) # ps))"

fun join_with :: "string \<Rightarrow> string list \<Rightarrow> string" where
  "join_with sep [] = []"
| "join_with sep [p] = p"
| "join_with sep (p # q # ps) = p @ sep @ join_with sep (q # ps)"

lemma split_on_not_Nil [simp]: "split_on c s \<noteq> []"
  by (induction s) (auto split: list.splits)

lemma join_split_on: "join_with [c] (split_on c s) = s"
proof (induction s)
  case (Cons x xs)
  then show ?case by (cases "split_on c xs") (auto, (cases "tl (split_on c xs)"; simp)+)
qed simp

lemma split_on_no_sep: "c \<notin> set s \<Longrightarrow> split_on c s = [s]"
  by (induction s) auto

lemma split_on_append: "c \<notin> set s \<Longrightarrow> split_on c (s @ c # t) = s # split_on c t"
  by (induction s) auto

fun lookup_parts :: "json \<Rightarrow> string list \<Rightarrow> json option" where
  "lookup_parts node [] = Some node"
| "lookup_parts node (part # parts) =
     (case node of
        JObj d \<Rightarrow> (case map_of d part of None \<Rightarrow> None | Some node' \<Rightarrow> lookup_parts node' parts)
      | _ \<Rightarrow> None)"

lemma lookup_parts_append:
  "lookup_parts node (ps @ qs) =
     (case lookup_parts node ps of None \<Rightarrow> None | Some node' \<Rightarrow> lookup_parts node' qs)"
  by (induction ps arbitrary: node) (auto split: json.splits option.splits)

section \<open>Key encoding\<close>

text \<open>
  \<^verbatim>\<open>json.dumps\<close> of a string, with the default \<^verbatim>\<open>ensure_ascii\<close>: a quote, a backslash and five
  control characters have a short escape, any other character outside the printable ASCII range is
  written with four hexadecimal digits.
\<close>

definition hex_digit :: "nat \<Rightarrow> char" where
  "hex_digit n = char_of (if n < 10 then 48 + n else 87 + n)"

definition hex_value :: "char \<Rightarrow> nat option" where
  "hex_value c = (let n = of_char c :: nat in
     if 48 \<le> n \<and> n \<le> 57 then Some (n - 48)
     else if 97 \<le> n \<and> n \<le> 102 then Some (n - 87)
     else if 65 \<le> n \<and> n \<le> 70 then Some (n - 55) else None)"

definition escape_char :: "char \<Rightarrow> string" where
  "escape_char c =
     (if c = CHR 34 then [CHR 92, CHR 34] else if c = CHR 92 then [CHR 92, CHR 92]
      else if c = CHR 10 then [CHR 92, CHR ''n''] else if c = CHR 13 then [CHR 92, CHR ''r'']
      else if c = CHR 9 then [CHR 92, CHR ''t''] else if c = CHR 12 then [CHR 92, CHR ''f'']
      else if c = CHR 8 then [CHR 92, CHR ''b'']
      else let n = of_char c :: nat in
        if 32 \<le> n \<and> n \<le> 126 then [c]
        else [CHR 92, CHR ''u'', CHR ''0'', CHR ''0'', hex_digit (n div 16), hex_digit (n mod 16)])"

definition dumps_str :: "string \<Rightarrow> string" where
  "dumps_str s = CHR 34 # concat (map escape_char s) @ [CHR 34]"

text \<open>\<^verbatim>\<open>json.dumps([s1, s2, ...])\<close>\<close>

definition dumps_strs :: "string list \<Rightarrow> string" where
  "dumps_strs ss = ''['' @ join_with '', '' (map dumps_str ss) @ '']''"

text \<open>
  The part of \<^verbatim>\<open>json.loads\<close> that reads such a text back: \<open>loads_chars\<close> reads string content up to
  the closing quote and returns it with the rest of the text.
\<close>

definition short_escape :: "char \<Rightarrow> char option" where
  "short_escape e = (if e = CHR 34 then Some (CHR 34) else if e = CHR 92 then Some (CHR 92)
     else if e = CHR ''/'' then Some (CHR ''/'') else if e = CHR ''n'' then Some (CHR 10)
     else if e = CHR ''r'' then Some (CHR 13) else if e = CHR ''t'' then Some (CHR 9)
     else if e = CHR ''f'' then Some (CHR 12) else if e = CHR ''b'' then Some (CHR 8) else None)"

definition hex_escape :: "char \<Rightarrow> char \<Rightarrow> char \<Rightarrow> char \<Rightarrow> char option" where
  "hex_escape a b c d =
     (case (hex_value a, hex_value b, hex_value c, hex_value d) of
        (Some 0, Some 0, Some h, Some l) \<Rightarrow> Some (char_of (16 * h + l))
      | _ \<Rightarrow> None)"

fun loads_chars :: "string \<Rightarrow> (string \<times> string) option" where
  "loads_chars [] = None"
| "loads_chars (c # cs) =
     (if c = CHR 34 then Some ([], cs)
      else if c = CHR 92 then
        (case cs of [] \<Rightarrow> None
         | e # es \<Rightarrow>
           if e = CHR ''u'' then
             (case es of h1 # h2 # h3 # h4 # rest \<Rightarrow>
                (case hex_escape h1 h2 h3 h4 of None \<Rightarrow> None
                 | Some x \<Rightarrow> map_option (apfst (Cons x)) (loads_chars rest))
              | _ \<Rightarrow> None)
           else (case short_escape e of None \<Rightarrow> None
                 | Some x \<Rightarrow> map_option (apfst (Cons x)) (loads_chars es)))
      else if (of_char c :: nat) < 32 then None
      else map_option (apfst (Cons c)) (loads_chars cs))"

fun loads_items :: "nat \<Rightarrow> string \<Rightarrow> string list option" where
  "loads_items 0 cs = None"
| "loads_items (Suc n) cs =
     (case cs of q # cs' \<Rightarrow>
        if q = CHR 34 then
          (case loads_chars cs' of None \<Rightarrow> None
           | Some (s, rest) \<Rightarrow>
             if rest = '']'' then Some [s]
             else (case rest of c # sp # rest' \<Rightarrow>
                     if c = CHR '','' \<and> sp = CHR '' '' then map_option (Cons s) (loads_items n rest')
                     else None
                   | _ \<Rightarrow> None))
        else None
      | [] \<Rightarrow> None)"

definition loads_strs :: "string \<Rightarrow> string list option" where
  "loads_strs cs = (case cs of [] \<Rightarrow> None
     | c # cs' \<Rightarrow> if c = CHR ''['' then (if cs' = '']'' then Some [] else loads_items (length cs') cs')
                 else None)"

lemma hex_value_digit: "n < 16 \<Longrightarrow> hex_value (hex_digit n) = Some n"
proof -
  assume "n < 16"
  then have "of_char (hex_digit n) = (if n < 10 then 48 + n else 87 + n)"
    by (simp add: hex_digit_def of_char_of)
  with \<open>n < 16\<close> show ?thesis by (auto simp: hex_value_def)
qed

lemma hex_escape_digits:
  "hex_escape (CHR ''0'') (CHR ''0'') (hex_digit (of_char c div 16)) (hex_digit (of_char c mod 16)) = Some c"
proof -
  have "of_char c < (256 :: nat)" by (rule nat_of_char_less_256)
  then have "of_char c div 16 < (16 :: nat)" by arith
  moreover have "of_char c mod 16 < (16 :: nat)" by simp
  moreover have "hex_value (CHR ''0'') = Some 0" by (simp add: hex_value_def)
  ultimately show ?thesis
    by (simp add: hex_escape_def hex_value_digit)
qed

lemma loads_escape_char:
  "loads_chars (escape_char c @ rest) = map_option (apfst (Cons c)) (loads_chars rest)"
  by (auto simp: escape_char_def Let_def short_escape_def hex_escape_digits)

lemma loads_escaped:
  "loads_chars (concat (map escape_char s) @ CHR 34 # rest) = Some (s, rest)"
  by (induction s) (simp_all add: loads_escape_char)

lemma loads_items_join:
  assumes "ss \<noteq> []" and "length ss \<le> n"
  shows "loads_items n (join_with '', '' (map dumps_str ss) @ '']'') = Some ss"
  using assms
proof (induction ss arbitrary: n)
  case (Cons s ss)
  obtain m where n: "n = Suc m" using Cons.prems(2) by (cases n) auto
  show ?case
  proof (cases ss)
    case Nil
    then show ?thesis by (simp add: n dumps_str_def loads_escaped)
  next
    case (Cons t ts)
    with Cons.IH [of m] Cons.prems n show ?thesis
      by (simp add: dumps_str_def loads_escaped)
  qed
qed simp

lemma length_join_dumps: "length ss \<le> length (join_with '', '' (map dumps_str ss))"
proof (induction ss)
  case (Cons s ss)
  then show ?case by (cases ss) (simp_all add: dumps_str_def)
qed simp

theorem loads_dumps_strs: "loads_strs (dumps_strs ss) = Some ss"
proof (cases ss)
  case Nil
  then show ?thesis by (simp add: loads_strs_def dumps_strs_def)
next
  case (Cons s ts)
  have "loads_items (length (join_with '', '' (map dumps_str ss) @ '']''))
          (join_with '', '' (map dumps_str ss) @ '']'') = Some ss"
    using length_join_dumps [of ss] by (intro loads_items_join) (simp_all add: Cons)
  moreover have "join_with '', '' (map dumps_str ss) @ '']'' \<noteq> '']''"
    by (cases ts) (simp_all add: Cons dumps_str_def)
  ultimately show ?thesis by (simp add: loads_strs_def dumps_strs_def)
qed

lemma dumps_strs_inject [simp]: "dumps_strs ss = dumps_strs ts \<longleftrightarrow> ss = ts"
  by (metis loads_dumps_strs option.inject)

section \<open>Reading a JSON value\<close>

text \<open>\<^verbatim>\<open>j[key]\<close> for a string key.\<close>

definition field :: "json \<Rightarrow> string \<Rightarrow> exn + json" where
  "field j key = (case j of
     JObj d \<Rightarrow> (case map_of d key of None \<Rightarrow> Inl (Exn PyKeyError (quoted key)) | Some v \<Rightarrow> Inr v)
   | _ \<Rightarrow> Inl (Exn PyTypeError ''indices must be integers''))"

text \<open>
  A field the code uses as a string: an identity of the public API, which its documentation gives as a string.
  Python checks no types here; for a body with any other type the model stops with a TypeError, where the code
  would pass the value on.
\<close>

definition str_field :: "json \<Rightarrow> string \<Rightarrow> exn + string" where
  "str_field j key = (case field j key of
     Inl e \<Rightarrow> Inl e
   | Inr (JStr s) \<Rightarrow> Inr s
   | Inr _ \<Rightarrow> Inl (Exn PyTypeError ''string expected''))"

text \<open>\<^verbatim>\<open>j.get(key)\<close>, with the AttributeError of a value that is no dict.\<close>

definition get_attr :: "json \<Rightarrow> string \<Rightarrow> exn + json option" where
  "get_attr j key = (case j of JObj d \<Rightarrow> Inr (map_of d key)
                     | _ \<Rightarrow> Inl (Exn PyAttributeError ''object has no attribute get''))"

text \<open>\<^verbatim>\<open>j or d\<close> after a \<^verbatim>\<open>get\<close>.\<close>

definition or_default :: "json option \<Rightarrow> json \<Rightarrow> json" where
  "or_default j d = (case j of None \<Rightarrow> d | Some v \<Rightarrow> if truthy v then v else d)"

text \<open>What \<^verbatim>\<open>for x in j\<close> runs over: list items, dict keys, characters.\<close>

definition iter_json :: "json \<Rightarrow> exn + json list" where
  "iter_json j =
     (case j of
        JArr xs \<Rightarrow> Inr xs
      | JObj d \<Rightarrow> Inr (map (\<lambda>kv. JStr (fst kv)) d)
      | JStr s \<Rightarrow> Inr (map (\<lambda>c. JStr [c]) s)
      | _ \<Rightarrow> Inl (Exn PyTypeError ''object is not iterable''))"

fun collect_all :: "('a \<Rightarrow> exn + 'b list) \<Rightarrow> 'a list \<Rightarrow> exn + 'b list" where
  "collect_all f [] = Inr []"
| "collect_all f (x # xs) =
     (case f x of
        Inl e \<Rightarrow> Inl e
      | Inr ys \<Rightarrow> (case collect_all f xs of Inl e \<Rightarrow> Inl e | Inr zs \<Rightarrow> Inr (ys @ zs)))"

text \<open>\<^verbatim>\<open>v = m\<close> followed by the rest; an exception ends it.\<close>

definition follow :: "exn + 'a \<Rightarrow> ('a \<Rightarrow> exn + 'b) \<Rightarrow> exn + 'b" where
  "follow m f = (case m of Inl x \<Rightarrow> Inl x | Inr v \<Rightarrow> f v)"

text \<open>\<^verbatim>\<open>for x in j[key]\<close>\<close>

definition items_of :: "json \<Rightarrow> string \<Rightarrow> exn + json list" where
  "items_of j key = follow (field j key) iter_json"

lemma follow_simps [simp]: "follow (Inr v) f = f v" "follow (Inl x) f = Inl x"
  by (simp_all add: follow_def)

lemma follow_Inr: "follow m f = Inr r \<longleftrightarrow> (\<exists>v. m = Inr v \<and> f v = Inr r)"
  by (cases m) simp_all

lemma follow_Inl: "follow m f = Inl x \<longleftrightarrow> m = Inl x \<or> (\<exists>v. m = Inr v \<and> f v = Inl x)"
  by (cases m) simp_all

text \<open>A loop that maps each item, or keeps some of them, and ends at the first exception.\<close>

fun map_all :: "('a \<Rightarrow> exn + 'b) \<Rightarrow> 'a list \<Rightarrow> exn + 'b list" where
  "map_all f [] = Inr []"
| "map_all f (x # xs) = follow (f x) (\<lambda>y. follow (map_all f xs) (\<lambda>ys. Inr (y # ys)))"

lemma collect_all_Inr: "collect_all f xs = Inr ys \<longleftrightarrow> (\<forall>x \<in> set xs. \<exists>zs. f x = Inr zs) \<and>
    ys = concat (map (\<lambda>x. case f x of Inr zs \<Rightarrow> zs | Inl _ \<Rightarrow> []) xs)"
proof (induction xs arbitrary: ys)
  case (Cons x xs)
  show ?case
  proof (cases "f x")
    case (Inr zs)
    then show ?thesis using Cons by (cases "collect_all f xs") auto
  qed simp
qed auto

lemma collect_all_item: "collect_all f xs = Inr ys \<Longrightarrow> x \<in> set xs \<Longrightarrow> \<exists>zs. f x = Inr zs"
  by (simp add: collect_all_Inr)

lemma collect_all_mem:
  "collect_all f xs = Inr ys \<Longrightarrow> y \<in> set ys \<longleftrightarrow> (\<exists>x \<in> set xs. \<exists>zs. f x = Inr zs \<and> y \<in> set zs)"
proof (induction xs arbitrary: ys)
  case (Cons x xs)
  then obtain zs ys' where "f x = Inr zs" "collect_all f xs = Inr ys'" "ys = zs @ ys'"
    by (auto split: sum.splits)
  then show ?case using Cons.IH by auto
qed simp

lemma map_all_Inr: "map_all f xs = Inr ys \<longleftrightarrow> list_all2 (\<lambda>x y. f x = Inr y) xs ys"
  by (induction xs arbitrary: ys) (auto simp: follow_Inr list_all2_Cons1)

end
