(* ===== verification/Signals.thy ===== *)
theory Signals
  imports Json
begin

text \<open>
  \<^verbatim>\<open>signals.py\<close>: construction of the four kinds of Signal. What the code takes from elsewhere is an
  argument: the ISO text of a time, the bytes a file read gives, \<^verbatim>\<open>json.loads\<close> and SHA-256.
\<close>

definition SIGNAL_TYPES :: "string list" where
  "SIGNAL_TYPES = [''manual'', ''file'', ''schedule'', ''run.finished'']"

record signal =
  sig_type :: string
  sig_id :: string
  payload :: "json dict"

definition manual_signal :: "json \<Rightarrow> string option \<Rightarrow> string \<Rightarrow> exn + signal" where
  "manual_signal p signal_id now_iso =
     (case p of
        JObj d \<Rightarrow>
          (case signal_id of
             None \<Rightarrow> Inr \<lparr>sig_type = ''manual'', sig_id = ''manual:'' @ now_iso, payload = d\<rparr>
           | Some i \<Rightarrow>
               if blank i then Inl (Exn InvalidSignal ''manual signal id must be a non-empty string'')
               else Inr \<lparr>sig_type = ''manual'', sig_id = i, payload = d\<rparr>)
      | _ \<Rightarrow> Inl (Exn InvalidSignal ''manual signal payload must be a JSON object''))"

text \<open>What \<^verbatim>\<open>path.read_text(encoding='utf-8')\<close> gives.\<close>

datatype read_result = ReadText string | ReadOSError string | ReadDecodeError string

definition file_signal ::
  "(string \<Rightarrow> json option) \<Rightarrow> (string \<Rightarrow> string) \<Rightarrow> string \<Rightarrow> read_result \<Rightarrow> exn + signal" where
  "file_signal loads sha256_hex path r =
     (case r of
        ReadOSError strerror \<Rightarrow>
          Inl (Exn InvalidSignal (''cannot read file signal '' @ quoted path @ '': '' @ strerror))
      | ReadDecodeError m \<Rightarrow> Inl (Exn PyValueError m)
      | ReadText txt \<Rightarrow>
          (case loads txt of
             None \<Rightarrow> Inl (Exn InvalidSignal (''file signal '' @ quoted path @ '' is not valid JSON''))
           | Some (JObj d) \<Rightarrow>
               Inr \<lparr>sig_type = ''file'',
                    sig_id = ''file:'' @ path @ '':'' @ take 16 (sha256_hex txt), payload = d\<rparr>
           | Some _ \<Rightarrow>
               Inl (Exn InvalidSignal (''file signal '' @ quoted path @ '' must contain a JSON object''))))"

text \<open>\<^verbatim>\<open>{**base, **extra}\<close>\<close>

definition dict_merge :: "'v dict \<Rightarrow> 'v dict \<Rightarrow> 'v dict" where
  "dict_merge base extra = fold (\<lambda>(k, v) d. AList.update k v d) extra base"

definition schedule_signal :: "string \<Rightarrow> string \<Rightarrow> json option \<Rightarrow> exn + signal" where
  "schedule_signal name at_iso p =
     (if blank name then Inl (Exn InvalidSignal ''schedule signal name must be a non-empty string'')
      else
        (let build = (\<lambda>extra. Inr \<lparr>sig_type = ''schedule'',
               sig_id = ''schedule:'' @ name @ '':'' @ at_iso,
               payload = dict_merge [(''schedule'', JStr name), (''at'', JStr at_iso)] extra\<rparr>)
         in case p of
              None \<Rightarrow> build []
            | Some (JObj d) \<Rightarrow> build d
            | Some _ \<Rightarrow> Inl (Exn InvalidSignal ''schedule signal payload must be a JSON object'')))"

text \<open>The first field that is not a non-empty string, by its label.\<close>

definition first_blank :: "(string \<times> string) list \<Rightarrow> string option" where
  "first_blank fvs = map_option fst (List.find (\<lambda>(_, v). blank v) fvs)"

definition run_finished_payload ::
  "string \<Rightarrow> string \<Rightarrow> string \<Rightarrow> string \<Rightarrow> string \<Rightarrow> int \<Rightarrow> json dict" where
  "run_finished_payload run_id subject connection assistant status cascade_depth =
     [(''run_id'', JStr run_id), (''subject'', JStr subject), (''connection'', JStr connection),
      (''assistant'', JStr assistant), (''status'', JStr status),
      (''cascade_depth'', JInt cascade_depth)]"

definition run_finished_id :: "string \<Rightarrow> string" where
  "run_finished_id run_id = ''run.finished:'' @ run_id"

definition run_finished_signal ::
  "string \<Rightarrow> string \<Rightarrow> string \<Rightarrow> string \<Rightarrow> string \<Rightarrow> int \<Rightarrow> exn + signal" where
  "run_finished_signal run_id subject connection assistant status cascade_depth =
     (case first_blank [(''run_id'', run_id), (''subject'', subject), (''connection'', connection),
                        (''assistant'', assistant), (''status'', status)] of
        Some label \<Rightarrow>
          Inl (Exn InvalidSignal (''run.finished signal '' @ quoted label @ '' must be a non-empty string''))
      | None \<Rightarrow>
          if cascade_depth < 0
          then Inl (Exn InvalidSignal
                 (''run.finished signal '' @ quoted ''cascade_depth'' @ '' must be a non-negative integer''))
          else Inr \<lparr>sig_type = ''run.finished'', sig_id = run_finished_id run_id,
                    payload = run_finished_payload run_id subject connection assistant status cascade_depth\<rparr>)"

lemma first_blank_None: "first_blank fvs = None \<longleftrightarrow> (\<forall>(l, v) \<in> set fvs. \<not> blank v)"
  by (auto simp: first_blank_def find_None_iff)

lemma map_of_dict_merge: "map_of (dict_merge base extra) = map_of base ++ map_of (rev extra)"
  by (induction extra arbitrary: base)
    (auto simp: dict_merge_def update_conv' fun_eq_iff map_add_def split: option.splits)

lemma run_finished_signal_Inr:
  "run_finished_signal r s c a st n = Inr sg \<longleftrightarrow>
     \<not> blank r \<and> \<not> blank s \<and> \<not> blank c \<and> \<not> blank a \<and> \<not> blank st \<and> 0 \<le> n \<and>
     sg = \<lparr>sig_type = ''run.finished'', sig_id = run_finished_id r,
           payload = run_finished_payload r s c a st n\<rparr>"
  by (auto simp: run_finished_signal_def first_blank_def split: if_splits)

lemma run_finished_id_inject [simp]: "run_finished_id r = run_finished_id r' \<longleftrightarrow> r = r'"
  by (simp add: run_finished_id_def)

lemma run_finished_signal_error_class:
  "run_finished_signal r s c a st n = Inl e \<Longrightarrow> exn_class e = InvalidSignal"
  by (auto simp: run_finished_signal_def split: option.splits if_splits)

lemma run_finished_payload_lookup [simp]:
  "map_of (run_finished_payload r s c a st n) ''run_id'' = Some (JStr r)"
  "map_of (run_finished_payload r s c a st n) ''subject'' = Some (JStr s)"
  "map_of (run_finished_payload r s c a st n) ''connection'' = Some (JStr c)"
  "map_of (run_finished_payload r s c a st n) ''assistant'' = Some (JStr a)"
  "map_of (run_finished_payload r s c a st n) ''status'' = Some (JStr st)"
  "map_of (run_finished_payload r s c a st n) ''cascade_depth'' = Some (JInt n)"
  by (simp_all add: run_finished_payload_def)

end
