(* ===== verification/Rules.thy ===== *)
theory Rules
  imports Signals
begin

text \<open>
  \<^verbatim>\<open>rules.py\<close>: validation and storage of the Signal \<open>\<rightarrow>\<close> Assistant routing rules,
  \<^verbatim>\<open>.cordboard/rules.json\<close>. A rule of the type \<open>run.finished\<close> has \<open>when_cond\<close>, any other has
  \<open>match_cond\<close>.
\<close>

record rule =
  rule_name :: string
  rule_signal_type :: string
  match_cond :: "json dict option"
  when_cond :: "json dict option"
  rule_connection :: string
  rule_assistant :: string
  rule_subject :: string
  input_map :: "string dict"

type_synonym rules_file = "rule list store_file"

definition load_rules :: "rules_file \<Rightarrow> exn + rule list" where
  "load_rules f = load_file InvalidRule ''rules file'' ''a JSON array of rule objects'' f"

fun as_str_values :: "json dict \<Rightarrow> string dict option" where
  "as_str_values [] = Some []"
| "as_str_values ((k, v) # d) =
     (case v of
        JStr s \<Rightarrow> (case as_str_values d of None \<Rightarrow> None | Some e \<Rightarrow> Some ((k, s) # e))
      | _ \<Rightarrow> None)"

definition validate_input_mapping :: "json dict \<Rightarrow> exn + string dict" where
  "validate_input_mapping r =
     (let bad = Inl (Exn InvalidRule (''rule '' @ quoted ''input'' @
                     '' must be an object of destination key -> dot-path string''))
      in case map_of r ''input'' of
           None \<Rightarrow> Inr []
         | Some (JObj d) \<Rightarrow> (case as_str_values d of None \<Rightarrow> bad | Some m \<Rightarrow> Inr m)
         | Some _ \<Rightarrow> bad)"

text \<open>\<^verbatim>\<open>rule.get(key)\<close> is present and true.\<close>

definition declares :: "json dict \<Rightarrow> string \<Rightarrow> bool" where
  "declares r key = (case map_of r key of None \<Rightarrow> False | Some j \<Rightarrow> truthy j)"

definition self_loop :: "json dict \<Rightarrow> string \<Rightarrow> string \<Rightarrow> bool" where
  "self_loop w connection assistant =
     ((case map_of w ''connection'' of None \<Rightarrow> True | Some j \<Rightarrow> py_eq j (JStr connection)) \<and>
      (case map_of w ''assistant'' of None \<Rightarrow> False | Some j \<Rightarrow> py_eq j (JStr assistant)))"

definition invalid_rule :: "string \<Rightarrow> exn + 'a" where
  "invalid_rule m = Inl (Exn InvalidRule m)"

text \<open>The message with the tuple \<^const>\<open>SIGNAL_TYPES\<close> as Python prints it.\<close>

definition signal_type_message :: string where
  "signal_type_message = ''rule '' @ quoted ''signal_type'' @ '' must be one of ('' @
     join_with '', '' (map quoted SIGNAL_TYPES) @ '')''"

definition validate_finished_rule ::
  "json dict \<Rightarrow> string \<Rightarrow> string \<Rightarrow> string \<Rightarrow> exn + rule" where
  "validate_finished_rule r name connection assistant =
     (if declares r ''match''
      then invalid_rule (''run.finished rule declares '' @ quoted ''when'' @ '', not '' @ quoted ''match'')
      else
        case (case map_of r ''when'' of None \<Rightarrow> JObj [] | Some j \<Rightarrow> j) of
          JObj w \<Rightarrow>
            if w = [] then invalid_rule (''run.finished rule requires a non-empty '' @ quoted ''when'' @ '' condition'')
            else if self_loop w connection assistant
            then invalid_rule (''rule '' @ quoted name @ '' would create a self-loop: '' @ quoted ''when'' @
                   '' targets the same connection/assistant it routes to'')
            else
              (case nonblank_str (Some (case map_of r ''subject'' of None \<Rightarrow> JStr ''subject'' | Some j \<Rightarrow> j)) of
                 None \<Rightarrow> invalid_rule (''rule '' @ quoted ''subject'' @ '' must be a non-empty dot-path string'')
               | Some subject \<Rightarrow>
                   (case validate_input_mapping r of
                      Inl e \<Rightarrow> Inl e
                    | Inr m \<Rightarrow>
                        Inr \<lparr>rule_name = name, rule_signal_type = ''run.finished'', match_cond = None,
                             when_cond = Some w, rule_connection = connection,
                             rule_assistant = assistant, rule_subject = subject, input_map = m\<rparr>))
        | _ \<Rightarrow> invalid_rule (''run.finished rule requires a non-empty '' @ quoted ''when'' @ '' condition''))"

definition validate_plain_rule ::
  "json dict \<Rightarrow> string \<Rightarrow> string \<Rightarrow> string \<Rightarrow> string \<Rightarrow> exn + rule" where
  "validate_plain_rule r name signal_type connection assistant =
     (if declares r ''when''
      then invalid_rule (quoted ''when'' @ '' is only valid for a run.finished rule; use '' @ quoted ''match'')
      else
        case nonblank_str (map_of r ''subject'') of
          None \<Rightarrow> invalid_rule (''rule '' @ quoted ''subject'' @ '' must be a non-empty dot-path string'')
        | Some subject \<Rightarrow>
            (case (case map_of r ''match'' of None \<Rightarrow> JObj [] | Some j \<Rightarrow> j) of
               JObj m \<Rightarrow>
                 (case validate_input_mapping r of
                    Inl e \<Rightarrow> Inl e
                  | Inr i \<Rightarrow>
                      Inr \<lparr>rule_name = name, rule_signal_type = signal_type, match_cond = Some m,
                           when_cond = None, rule_connection = connection,
                           rule_assistant = assistant, rule_subject = subject, input_map = i\<rparr>)
             | _ \<Rightarrow> invalid_rule (''rule '' @ quoted ''match'' @ '' must be an object of dot-path -> literal value'')))"

definition validate_rule :: "json dict \<Rightarrow> exn + rule" where
  "validate_rule r =
     (case nonblank_str (map_of r ''name'') of
        None \<Rightarrow> invalid_rule (''rule '' @ quoted ''name'' @ '' must be a non-empty string'')
      | Some name \<Rightarrow>
     (case map_of r ''signal_type'' of
        Some (JStr t) \<Rightarrow>
          if t \<notin> set SIGNAL_TYPES
          then invalid_rule (signal_type_message)
          else
     (case nonblank_str (map_of r ''connection'') of
        None \<Rightarrow> invalid_rule (''rule '' @ quoted ''connection'' @ '' must name a registered connection alias'')
      | Some connection \<Rightarrow>
     (case nonblank_str (map_of r ''assistant'') of
        None \<Rightarrow> invalid_rule (''rule '' @ quoted ''assistant'' @ '' must be a non-empty string'')
      | Some assistant \<Rightarrow>
          if t = ''run.finished'' then validate_finished_rule r name connection assistant
          else validate_plain_rule r name t connection assistant))
      | _ \<Rightarrow> invalid_rule (signal_type_message)))"

text \<open>\<^verbatim>\<open>next((i for i, r in enumerate(rules) if r.get('name') == name), None)\<close>\<close>

fun index_of_rule :: "string \<Rightarrow> rule list \<Rightarrow> nat option" where
  "index_of_rule n [] = None"
| "index_of_rule n (r # rs) =
     (if rule_name r = n then Some 0 else map_option Suc (index_of_rule n rs))"

definition add_rule :: "json dict \<Rightarrow> bool \<Rightarrow> (rules_file, unit) prog" where
  "add_rule r replace =
     andthen (attempt (validate_rule r)) (\<lambda>validated.
     andthen (reading load_rules) (\<lambda>rules.
       case index_of_rule (rule_name validated) rules of
         Some i \<Rightarrow>
           if \<not> replace
           then throw InvalidRule (''rule '' @ quoted (rule_name validated) @ '' already exists'')
           else changing (\<lambda>_. Holds (rules[i := validated]))
       | None \<Rightarrow> changing (\<lambda>_. Holds (rules @ [validated]))))"

section \<open>Lemmas\<close>

lemma index_of_rule_Some:
  "index_of_rule n rs = Some i \<Longrightarrow> i < length rs \<and> rule_name (rs ! i) = n \<and> (\<forall>j < i. rule_name (rs ! j) \<noteq> n)"
proof (induction rs arbitrary: i)
  case (Cons r rs)
  then show ?case
    by (cases i) (auto simp: less_Suc_eq_0_disj split: if_splits)
qed simp

lemma index_of_rule_None: "index_of_rule n rs = None \<longleftrightarrow> n \<notin> rule_name ` set rs"
  by (induction rs) auto

text \<open>What \<^const>\<open>validate_rule\<close> promises of the rule it returns.\<close>

definition rule_ok :: "rule \<Rightarrow> bool" where
  "rule_ok r =
     (\<not> blank (rule_name r) \<and> rule_signal_type r \<in> set SIGNAL_TYPES \<and>
      \<not> blank (rule_connection r) \<and> \<not> blank (rule_assistant r) \<and> \<not> blank (rule_subject r) \<and>
      (if rule_signal_type r = ''run.finished''
       then match_cond r = None \<and>
            (\<exists>w. when_cond r = Some w \<and> w \<noteq> [] \<and> \<not> self_loop w (rule_connection r) (rule_assistant r))
       else when_cond r = None \<and> match_cond r \<noteq> None))"

lemma validate_finished_rule_ok:
  "validate_finished_rule r n c a = Inr v \<Longrightarrow> \<not> blank n \<Longrightarrow> \<not> blank c \<Longrightarrow> \<not> blank a \<Longrightarrow> rule_ok v"
  by (auto simp: validate_finished_rule_def invalid_rule_def rule_ok_def SIGNAL_TYPES_def nonblank_str_Some
      split: if_splits json.splits option.splits sum.splits)

lemma validate_plain_rule_ok:
  "validate_plain_rule r n t c a = Inr v \<Longrightarrow> t \<in> set SIGNAL_TYPES \<Longrightarrow> t \<noteq> ''run.finished'' \<Longrightarrow>
   \<not> blank n \<Longrightarrow> \<not> blank c \<Longrightarrow> \<not> blank a \<Longrightarrow> rule_ok v"
  by (auto simp: validate_plain_rule_def invalid_rule_def rule_ok_def nonblank_str_Some
      split: if_splits json.splits option.splits sum.splits)

lemma validate_rule_ok: "validate_rule r = Inr v \<Longrightarrow> rule_ok v"
  unfolding validate_rule_def invalid_rule_def
  by (auto simp: nonblank_str_Some
      split: if_splits json.splits option.splits
      intro: validate_finished_rule_ok validate_plain_rule_ok)

text \<open>The rules of a file are well formed and their names differ.\<close>

definition rules_ok :: "rule list \<Rightarrow> bool" where
  "rules_ok rs = (distinct (map rule_name rs) \<and> list_all rule_ok rs)"

lemma add_rule_Inr:
  assumes "add_rule r rep f = (Inr (), f')"
  obtains v where "validate_rule r = Inr v" "readable f"
    "(index_of_rule (rule_name v) (content f) = None \<and> f' = Holds (content f @ [v])) \<or>
     (\<exists>i. index_of_rule (rule_name v) (content f) = Some i \<and> rep \<and> f' = Holds ((content f)[i := v]))"
  using assms
  by (auto simp: add_rule_def load_rules_def andthen_attempt andthen_reading dest: load_file_Inr
      split: sum.splits option.splits if_splits)

lemma rules_ok_append:
  "rules_ok rs \<Longrightarrow> rule_ok v \<Longrightarrow> index_of_rule (rule_name v) rs = None \<Longrightarrow> rules_ok (rs @ [v])"
  by (auto simp: rules_ok_def index_of_rule_None)

lemma rules_ok_update:
  assumes "rules_ok rs" "rule_ok v" "index_of_rule (rule_name v) rs = Some i"
  shows "rules_ok (rs[i := v])"
proof -
  have "map rule_name (rs[i := v]) = map rule_name rs"
    using index_of_rule_Some [OF assms(3)] by (simp add: map_update list_update_same_conv)
  moreover have "list_all rule_ok (rs[i := v])"
    using assms set_update_subset_insert [of rs i v] by (auto simp: rules_ok_def list_all_iff)
  ultimately show ?thesis using assms(1) by (simp add: rules_ok_def)
qed

section \<open>Properties\<close>

text \<open>
  The rule store stays well formed: whatever rule objects are added or replaced, from a new
  board, every stored rule has the fields routing relies on (a known Signal type, non-blank connection,
  Assistant and Subject path, a non-empty self-loop-free condition for \<open>run.finished\<close>), and no two rules
  share a name.
\<close>

theorem rule_store_well_formed:
  "readable (fold (\<lambda>(r, rep) f. snd (add_rule r rep f)) adds Absent) \<and>
   rules_ok (content (fold (\<lambda>(r, rep) f. snd (add_rule r rep f)) adds Absent))"
proof -
  have step: "readable (snd (add_rule r rep f)) \<and> rules_ok (content (snd (add_rule r rep f)))"
    if f: "readable f" "rules_ok (content f)" for r rep f
  proof (cases "add_rule r rep f")
    case (Pair res f')
    show ?thesis
    proof (cases res)
      case (Inl e)
      then have "f' = f"
        using Pair by (auto simp: add_rule_def split: sum.splits option.splits if_splits)
      with Pair f show ?thesis by simp
    next
      case (Inr u)
      with Pair have "add_rule r rep f = (Inr (), f')" by simp
      then show ?thesis
        using Pair f rules_ok_append rules_ok_update validate_rule_ok by (auto elim!: add_rule_Inr)
    qed
  qed
  have "readable f \<and> rules_ok (content f) \<Longrightarrow>
      readable (fold (\<lambda>(r, rep) f. snd (add_rule r rep f)) adds f) \<and>
      rules_ok (content (fold (\<lambda>(r, rep) f. snd (add_rule r rep f)) adds f))" for f
  proof (induction adds arbitrary: f)
    case (Cons a adds)
    then show ?case using step by (cases a) simp
  qed simp
  then show ?thesis by (simp add: rules_ok_def)
qed

end
