(* ===== verification/Connections.thy ===== *)
theory Connections
  imports Json
begin

text \<open>
  \<^verbatim>\<open>connections.py\<close>: the board's connection records, \<^verbatim>\<open>.cordboard/connections.json\<close>.
  \<^verbatim>\<open>urllib.parse.urlsplit\<close> is an argument: it gives the parts of a URL, or None when it raises
  ValueError.
\<close>

record connection =
  endpoint :: string
  launch :: "string list option"
  idle_after :: "seconds option"
  auth_endpoint :: "string option"
  graph_map :: "string dict option"

record url_parts =
  scheme :: string
  hostname :: "string option"
  username :: "string option"
  password :: "string option"

type_synonym conn_file = "connection dict store_file"

definition DEFAULT_IDLE_AFTER :: seconds where
  "DEFAULT_IDLE_AFTER = 600"

text \<open>\<^verbatim>\<open>bool(connection.get('launch'))\<close>: an absent command and an empty one are both false.\<close>

definition is_managed :: "connection \<Rightarrow> bool" where
  "is_managed c = (case launch c of None \<Rightarrow> False | Some cmd \<Rightarrow> cmd \<noteq> [])"

definition load_connections :: "conn_file \<Rightarrow> exn + connection dict" where
  "load_connections f =
     load_file InvalidConnection ''connections file'' ''a JSON object of alias -> record'' f"

definition get_connection :: "string \<Rightarrow> conn_file \<Rightarrow> exn + connection" where
  "get_connection alias f =
     (case load_connections f of
        Inl e \<Rightarrow> Inl e
      | Inr data \<Rightarrow>
          (case map_of data alias of
             None \<Rightarrow> Inl (Exn InvalidConnection (''unknown alias '' @ quoted alias))
           | Some c \<Rightarrow> Inr c))"

text \<open>\<^verbatim>\<open>endpoint.rstrip('/')\<close>\<close>

definition rstrip_slash :: "string \<Rightarrow> string" where
  "rstrip_slash s = rev (dropWhile (\<lambda>c. c = CHR ''/'') (rev s))"

definition validate_endpoint :: "(string \<Rightarrow> url_parts option) \<Rightarrow> string \<Rightarrow> exn + string" where
  "validate_endpoint urlsplit e =
     (if blank e then Inl (Exn InvalidConnection ''endpoint must be a non-empty string'')
      else case urlsplit e of
        None \<Rightarrow> Inl (Exn PyValueError ''invalid URL'')
      | Some p \<Rightarrow>
          if scheme p \<notin> {''http'', ''https''}
          then Inl (Exn InvalidConnection ''endpoint must be an http or https URL'')
          else if hostname p = None \<or> hostname p = Some []
          then Inl (Exn InvalidConnection ''endpoint must include a host'')
          else if username p \<noteq> None \<or> password p \<noteq> None
          then Inl (Exn InvalidConnection
                 ''endpoint must not carry userinfo; Cordboard stores no credentials'')
          else Inr (rstrip_slash e))"

definition validate_alias :: "string \<Rightarrow> exn + string" where
  "validate_alias alias =
     (if blank alias then Inl (Exn InvalidConnection ''alias must be a non-empty string'') else Inr alias)"

definition validate_launch :: "string list option \<Rightarrow> exn + string list option" where
  "validate_launch l =
     (case l of
        None \<Rightarrow> Inr None
      | Some parts \<Rightarrow>
          if parts = [] \<or> (\<exists>p \<in> set parts. blank p)
          then Inl (Exn InvalidConnection ''launch must be a non-empty list of non-empty strings'')
          else Inr (Some parts))"

definition validate_idle_after :: "seconds option \<Rightarrow> exn + seconds" where
  "validate_idle_after i =
     (case i of
        None \<Rightarrow> Inr DEFAULT_IDLE_AFTER
      | Some s \<Rightarrow>
          if s \<le> 0 then Inl (Exn InvalidConnection ''idle_after must be a positive number of seconds'')
          else Inr s)"

definition validate_optional_endpoint ::
  "(string \<Rightarrow> url_parts option) \<Rightarrow> string option \<Rightarrow> exn + string option" where
  "validate_optional_endpoint urlsplit a =
     (case a of None \<Rightarrow> Inr None | Some e \<Rightarrow> map_sum id Some (validate_endpoint urlsplit e))"

definition add_connection ::
  "(string \<Rightarrow> url_parts option) \<Rightarrow> string \<Rightarrow> string \<Rightarrow> string list option \<Rightarrow> seconds option \<Rightarrow>
   string option \<Rightarrow> bool \<Rightarrow> (conn_file, unit) prog" where
  "add_connection urlsplit alias0 endpoint0 launch0 idle auth0 replace =
     andthen (attempt (validate_alias alias0)) (\<lambda>alias.
     andthen (attempt (validate_endpoint urlsplit endpoint0)) (\<lambda>ep.
     andthen (attempt (validate_launch launch0)) (\<lambda>cmd.
     andthen (attempt (validate_optional_endpoint urlsplit auth0)) (\<lambda>auth.
     andthen (reading load_connections) (\<lambda>data.
       if map_of data alias \<noteq> None \<and> \<not> replace
       then throw InvalidConnection
              (''alias '' @ quoted alias @ '' already exists; pass --replace to overwrite it'')
       else
         andthen (attempt (case cmd of None \<Rightarrow> Inr None
                           | Some _ \<Rightarrow> map_sum id Some (validate_idle_after idle))) (\<lambda>idle'.
         write_atomic (AList.update alias
           \<lparr>endpoint = ep, launch = cmd, idle_after = idle', auth_endpoint = auth, graph_map = None\<rparr>
           data)))))))"

definition set_auth_endpoint ::
  "(string \<Rightarrow> url_parts option) \<Rightarrow> string \<Rightarrow> string \<Rightarrow> (conn_file, unit) prog" where
  "set_auth_endpoint urlsplit alias auth0 =
     andthen (attempt (validate_endpoint urlsplit auth0)) (\<lambda>auth.
     andthen (reading load_connections) (\<lambda>data.
       case map_of data alias of
         None \<Rightarrow> throw InvalidConnection (''unknown alias '' @ quoted alias)
       | Some rec \<Rightarrow> write_atomic (AList.update alias (rec\<lparr>auth_endpoint := Some auth\<rparr>) data)))"

definition validate_graph_id :: "string \<Rightarrow> string \<Rightarrow> exn + string" where
  "validate_graph_id v label =
     (if blank v then Inl (Exn InvalidConnection (label @ '' must be a non-empty string'')) else Inr v)"

definition set_graph_map :: "string \<Rightarrow> string \<Rightarrow> string \<Rightarrow> (conn_file, unit) prog" where
  "set_graph_map alias document_graph_id0 graph_id0 =
     andthen (attempt (validate_graph_id document_graph_id0 ''document graph id'')) (\<lambda>doc.
     andthen (attempt (validate_graph_id graph_id0 ''graph id'')) (\<lambda>gid.
     andthen (reading load_connections) (\<lambda>data.
       case map_of data alias of
         None \<Rightarrow> throw InvalidConnection (''unknown alias '' @ quoted alias)
       | Some rec \<Rightarrow>
           write_atomic (AList.update alias
             (rec\<lparr>graph_map := Some (AList.update doc gid (case graph_map rec of None \<Rightarrow> [] | Some g \<Rightarrow> g))\<rparr>)
             data))))"

section \<open>Lemmas\<close>

lemma get_connection_content [store_simps]:
  "readable f \<Longrightarrow> get_connection alias f =
     (case map_of (content f) alias of
        None \<Rightarrow> Inl (Exn InvalidConnection (''unknown alias '' @ quoted alias))
      | Some c \<Rightarrow> Inr c)"
  by (simp add: get_connection_def load_connections_def split: option.splits)

lemma get_connection_InrD:
  "get_connection alias f = Inr c \<Longrightarrow> readable f \<and> map_of (content f) alias = Some c"
  by (auto simp: get_connection_def load_connections_def dest: load_file_Inr
      split: sum.splits option.splits)

text \<open>What \<^const>\<open>validate_endpoint\<close> accepts: an http(s) URL with a host and no userinfo.\<close>

definition credential_free :: "(string \<Rightarrow> url_parts option) \<Rightarrow> string \<Rightarrow> bool" where
  "credential_free urlsplit e = (\<exists>p. urlsplit e = Some p \<and> scheme p \<in> {''http'', ''https''} \<and>
     hostname p \<noteq> None \<and> username p = None \<and> password p = None)"

lemma validate_endpoint_Inr:
  "validate_endpoint urlsplit e = Inr e' \<Longrightarrow> credential_free urlsplit e \<and> e' = rstrip_slash e"
  by (auto simp: validate_endpoint_def credential_free_def split: if_splits option.splits)

text \<open>What a successful \<^const>\<open>add_connection\<close> has checked and written.\<close>

lemma add_connection_Inr:
  assumes "add_connection urlsplit alias ep l i a rep f = (Inr (), f')"
  obtains rec where "\<not> blank alias" "readable f" "rep \<or> map_of (content f) alias = None"
    "f' = Holds (sorted_keys (AList.update alias rec (content f)))"
    "credential_free urlsplit ep" "endpoint rec = rstrip_slash ep" "launch rec = l"
    "graph_map rec = None" "l \<noteq> Some []"
    "(idle_after rec = None) = (l = None)"
    "\<And>s. idle_after rec = Some s \<Longrightarrow> 0 < s"
    "(a = None) = (auth_endpoint rec = None)"
    "\<And>e. a = Some e \<Longrightarrow> credential_free urlsplit e \<and> auth_endpoint rec = Some (rstrip_slash e)"
proof -
  obtain alias' ep' cmd auth data idle' where
    v: "validate_alias alias = Inr alias'" "validate_endpoint urlsplit ep = Inr ep'"
      "validate_launch l = Inr cmd" "validate_optional_endpoint urlsplit a = Inr auth"
      "load_connections f = Inr data"
    and guard: "\<not> (map_of data alias' \<noteq> None \<and> \<not> rep)"
    and idle: "(case cmd of None \<Rightarrow> Inr None | Some _ \<Rightarrow> map_sum id Some (validate_idle_after i)) = Inr idle'"
    and f': "f' = Holds (sorted_keys (AList.update alias'
           \<lparr>endpoint = ep', launch = cmd, idle_after = idle', auth_endpoint = auth, graph_map = None\<rparr> data))"
    using assms
    by (auto simp: add_connection_def andthen_def reading_def split: prod.splits sum.splits if_splits)
  let ?rec = "\<lparr>endpoint = ep', launch = cmd, idle_after = idle', auth_endpoint = auth, graph_map = None\<rparr>"
  have "\<not> blank alias" "alias' = alias" using v(1) by (auto simp: validate_alias_def split: if_splits)
  moreover have "readable f" "data = content f"
    using v(5) load_file_Inr unfolding load_connections_def by blast+
  moreover have "cmd = l" "l \<noteq> Some []"
    using v(3) by (auto simp: validate_launch_def split: option.splits if_splits)
  moreover have "(idle' = None) = (l = None)" "\<And>s. idle' = Some s \<Longrightarrow> 0 < s"
    using idle \<open>cmd = l\<close>
    by (auto simp: validate_idle_after_def DEFAULT_IDLE_AFTER_def map_sum_def
        split: option.splits if_splits sum.splits)
  moreover have "(a = None) = (auth = None)"
    "\<And>e. a = Some e \<Longrightarrow> credential_free urlsplit e \<and> auth = Some (rstrip_slash e)"
    using v(4) validate_endpoint_Inr
    by (auto simp: validate_optional_endpoint_def map_sum_def split: option.splits sum.splits)
  ultimately show thesis
    using that [of ?rec] guard f' validate_endpoint_Inr [OF v(2)] by auto
qed

section \<open>Properties\<close>

text \<open>
  A registered alias is found with what was registered: after a successful \<^verbatim>\<open>add_connection\<close> the
  lookup returns a record with the URL (trailing slashes removed), the launch command and the
  authority given, an idle time exactly when it is managed, and every other alias is as before.
\<close>

theorem added_connection_found:
  assumes "add_connection urlsplit alias ep l i a rep f = (Inr (), f')"
  shows "\<exists>c. get_connection alias f' = Inr c \<and> endpoint c = rstrip_slash ep \<and> launch c = l \<and>
    is_managed c = (l \<noteq> None) \<and> (idle_after c \<noteq> None) = is_managed c \<and>
    auth_endpoint c = map_option rstrip_slash a \<and> graph_map c = None \<and>
    (\<forall>x. x \<noteq> alias \<longrightarrow> get_connection x f' = get_connection x f)"
proof -
  from add_connection_Inr [OF assms] obtain c where c: "readable f"
    "f' = Holds (sorted_keys (AList.update alias c (content f)))" "endpoint c = rstrip_slash ep" "launch c = l"
    "graph_map c = None" "l \<noteq> Some []" "(idle_after c = None) = (l = None)"
    "(a = None) = (auth_endpoint c = None)" "\<And>e. a = Some e \<Longrightarrow> auth_endpoint c = Some (rstrip_slash e)"
    by metis
  then have "is_managed c = (l \<noteq> None)" by (auto simp: is_managed_def split: option.splits)
  moreover have "auth_endpoint c = map_option rstrip_slash a" using c by (cases a) auto
  ultimately show ?thesis
    using c by (auto simp: get_connection_content update_conv')
qed

definition plain_http :: "string \<Rightarrow> url_parts option" where
  "plain_http s = Some \<lparr>scheme = ''http'', hostname = Some ''h'', username = None, password = None\<rparr>"

theorem added_connection_found_witness:
  "\<exists>c. get_connection ''a'' (snd (add_connection plain_http ''a'' ''http://h/'' (Some [''run'']) None None False Absent)) =
      Inr c \<and> endpoint c = ''http://h'' \<and> is_managed c"
proof -
  have "add_connection plain_http ''a'' ''http://h/'' (Some [''run'']) None None False Absent =
      (Inr (), snd (add_connection plain_http ''a'' ''http://h/'' (Some [''run'']) None None False Absent))"
    by (simp add: add_connection_def validate_alias_def validate_endpoint_def validate_launch_def plain_http_def
        validate_optional_endpoint_def validate_idle_after_def load_connections_def load_file_def blank_def
        py_space_def Let_def)
  from added_connection_found [OF this] show ?thesis by (auto simp: rstrip_slash_def)
qed

text \<open>The three operations that write the store, in any order.\<close>

datatype conn_op =
    Op_Add string string "string list option" "seconds option" "string option" bool
  | Op_Auth string string
  | Op_Graph string string string

fun run_conn_op :: "(string \<Rightarrow> url_parts option) \<Rightarrow> conn_op \<Rightarrow> conn_file \<Rightarrow> conn_file" where
  "run_conn_op us (Op_Add x ep l i a rep) f = snd (add_connection us x ep l i a rep f)"
| "run_conn_op us (Op_Auth x a) f = snd (set_auth_endpoint us x a f)"
| "run_conn_op us (Op_Graph x d g) f = snd (set_graph_map x d g f)"

text \<open>A stored URL is one that passed validation, without its trailing slashes.\<close>

definition validated_url :: "(string \<Rightarrow> url_parts option) \<Rightarrow> string \<Rightarrow> bool" where
  "validated_url us s = (\<exists>e. credential_free us e \<and> s = rstrip_slash e)"

definition conn_ok :: "(string \<Rightarrow> url_parts option) \<Rightarrow> connection \<Rightarrow> bool" where
  "conn_ok us c =
     (validated_url us (endpoint c) \<and> (\<forall>a. auth_endpoint c = Some a \<longrightarrow> validated_url us a) \<and>
      launch c \<noteq> Some [] \<and> (idle_after c = None) = (launch c = None) \<and>
      (\<forall>s. idle_after c = Some s \<longrightarrow> 0 < s))"

definition conns_ok :: "(string \<Rightarrow> url_parts option) \<Rightarrow> conn_file \<Rightarrow> bool" where
  "conns_ok us f = (file_ok f \<and> (\<forall>x c. map_of (content f) x = Some c \<longrightarrow> \<not> blank x \<and> conn_ok us c))"

lemma conns_ok_write:
  "conns_ok us f \<Longrightarrow> conn_ok us c \<Longrightarrow> \<not> blank x \<Longrightarrow> conns_ok us (Holds (sorted_keys (AList.update x c (content f))))"
  by (auto simp: conns_ok_def file_ok_def update_conv')

lemma add_connection_ok:
  assumes "conns_ok us f"
  shows "conns_ok us (snd (add_connection us x ep l i a rep f))"
proof (cases "add_connection us x ep l i a rep f")
  case (Pair r f')
  show ?thesis
  proof (cases r)
    case (Inl e)
    then have "f' = f"
      using Pair by (auto simp: add_connection_def andthen_def reading_def split: sum.splits if_splits option.splits prod.splits)
    with Pair assms show ?thesis by simp
  next
    case (Inr u)
    with Pair have "add_connection us x ep l i a rep f = (Inr (), f')" by simp
    from add_connection_Inr [OF this] obtain c where c: "\<not> blank x"
      "f' = Holds (sorted_keys (AList.update x c (content f)))" "credential_free us ep" "endpoint c = rstrip_slash ep"
      "launch c = l" "l \<noteq> Some []" "(idle_after c = None) = (l = None)" "\<And>s. idle_after c = Some s \<Longrightarrow> 0 < s"
      "(a = None) = (auth_endpoint c = None)"
      "\<And>e. a = Some e \<Longrightarrow> credential_free us e \<and> auth_endpoint c = Some (rstrip_slash e)"
      by metis
    then have "conn_ok us c"
      by (cases a) (auto simp: conn_ok_def validated_url_def)
    with conns_ok_write [OF assms _ c(1)] Pair c(2) show ?thesis by simp
  qed
qed

lemma set_auth_endpoint_ok:
  assumes "conns_ok us f"
  shows "conns_ok us (snd (set_auth_endpoint us x a f))"
proof -
  have rd: "load_connections f = Inr (content f)"
    using assms by (auto simp: conns_ok_def load_connections_def)
  show ?thesis
  proof (cases "validate_endpoint us a")
    case (Inl e)
    then show ?thesis using assms by (simp add: set_auth_endpoint_def)
  next
    case (Inr a')
    show ?thesis
    proof (cases "map_of (content f) x")
      case None
      then show ?thesis using assms Inr rd by (simp add: set_auth_endpoint_def)
    next
      case (Some c)
      then have "\<not> blank x" "conn_ok us (c\<lparr>auth_endpoint := Some a'\<rparr>)"
        using assms validate_endpoint_Inr [OF Inr] by (auto simp: conns_ok_def conn_ok_def validated_url_def)
      then show ?thesis
        using conns_ok_write [OF assms] Inr rd Some by (simp add: set_auth_endpoint_def)
    qed
  qed
qed

lemma set_graph_map_ok:
  assumes "conns_ok us f"
  shows "conns_ok us (snd (set_graph_map x d g f))"
proof -
  have rd: "load_connections f = Inr (content f)"
    using assms by (auto simp: conns_ok_def load_connections_def)
  show ?thesis
  proof (cases "map_of (content f) x")
    case None
    then show ?thesis using assms rd
      by (auto simp: set_graph_map_def validate_graph_id_def)
  next
    case (Some c)
    then have "\<not> blank x" "\<And>m. conn_ok us (c\<lparr>graph_map := m\<rparr>)"
      using assms by (auto simp: conns_ok_def conn_ok_def)
    then show ?thesis
      using assms conns_ok_write [OF assms] rd Some
      by (auto simp: set_graph_map_def validate_graph_id_def)
  qed
qed

text \<open>
  No credential is ever stored: whatever sequence of registrations, authority changes and graph
  mappings is run on a new board, successful or not, every stored endpoint and authority is an http(s)
  URL with a host and without userinfo, and every managed record has a positive idle time.
\<close>

theorem no_credential_stored:
  "conns_ok us (fold (run_conn_op us) ops Absent)"
proof -
  have step: "conns_ok us (run_conn_op us op f)" if "conns_ok us f" for op f
    using that by (cases op) (simp_all only: run_conn_op.simps add_connection_ok set_auth_endpoint_ok set_graph_map_ok)
  have all: "conns_ok us f \<Longrightarrow> conns_ok us (fold (run_conn_op us) ops f)" for f
    by (induction ops arbitrary: f) (simp_all only: fold.simps o_apply id_apply step)
  show ?thesis by (rule all) (simp add: conns_ok_def)
qed

text \<open>
  A graph mapping changes one entry of one record: the document's graph id maps to the given
  execution id, every other mapping, every other field and every other alias is as before.
\<close>

theorem graph_map_changes_one_entry:
  assumes "readable f" and "map_of (content f) x = Some c" and "\<not> blank d" and "\<not> blank g"
  shows "\<exists>f' m. set_graph_map x d g f = (Inr (), f') \<and>
    map_of (content f') = (map_of (content f))(x \<mapsto> c\<lparr>graph_map := Some m\<rparr>) \<and>
    map_of m = (map_of (case graph_map c of None \<Rightarrow> [] | Some m0 \<Rightarrow> m0))(d \<mapsto> g)"
  using assms by (auto simp: set_graph_map_def validate_graph_id_def load_connections_def update_conv')

definition mapped_conn :: connection where
  "mapped_conn = \<lparr>endpoint = ''e'', launch = None, idle_after = None, auth_endpoint = None,
     graph_map = Some [(''other'', ''h'')]\<rparr>"

theorem graph_map_changes_one_entry_witness:
  "\<exists>f' m. set_graph_map ''a'' ''doc'' ''g'' (Holds [(''a'', mapped_conn)]) = (Inr (), f') \<and>
     map_of m ''doc'' = Some ''g'' \<and> map_of m ''other'' = Some ''h''"
proof -
  from graph_map_changes_one_entry [of "Holds [(''a'', mapped_conn)]" "''a''" mapped_conn "''doc''" "''g''"]
  obtain f' m where "set_graph_map ''a'' ''doc'' ''g'' (Holds [(''a'', mapped_conn)]) = (Inr (), f')"
    "map_of m = (map_of [(''other'', ''h'')])(''doc'' \<mapsto> ''g'')"
    by (auto simp: mapped_conn_def blank_def py_space_def Let_def)
  then show ?thesis by (intro exI [of _ f'] exI [of _ m]) simp
qed

end
