(* ===== verification/Claims.thy ===== *)
theory Claims
  imports Json
begin

text \<open>
  The contract that the three claim stores (\<^verbatim>\<open>concurrency\<close>, \<^verbatim>\<open>signal_dedupe\<close>,
  \<^verbatim>\<open>response_dedupe\<close>) share, as a locale: a claim of a live key fails and changes no key, a claim of
  a free key succeeds and makes exactly that key live. What follows for a burst of arrivals is
  proved once. A second locale is the contract of the two first-writer-wins records
  (\<^verbatim>\<open>response_dedupe.record_outcome\<close>, \<^verbatim>\<open>approval_expiry._dispose\<close>).
\<close>

record claim = claimed_at :: seconds

text \<open>Claims taken one after the other; the verdict of each.\<close>

fun burst :: "('k \<Rightarrow> ('s, bool) prog) \<Rightarrow> 'k list \<Rightarrow> 's \<Rightarrow> (exn + bool) list" where
  "burst claim [] s = []"
| "burst claim (k # ks) s = (case claim k s of (r, s') \<Rightarrow> r # burst claim ks s')"

locale claim_store =
  fixes good :: "'s \<Rightarrow> bool"
    and valid :: "'k \<Rightarrow> bool"
    and live :: "'s \<Rightarrow> 'k \<Rightarrow> bool"
    and take_claim :: "'k \<Rightarrow> ('s, bool) prog"
  assumes claim_live: "good s \<Longrightarrow> valid k \<Longrightarrow> live s k \<Longrightarrow>
      \<exists>s'. take_claim k s = (Inr False, s') \<and> good s' \<and> (\<forall>k'. valid k' \<longrightarrow> live s' k' = live s k')"
    and claim_free: "good s \<Longrightarrow> valid k \<Longrightarrow> \<not> live s k \<Longrightarrow>
      \<exists>s'. take_claim k s = (Inr True, s') \<and> good s' \<and>
           (\<forall>k'. valid k' \<longrightarrow> live s' k' = (k' = k \<or> live s k'))"
begin

lemma claim_total:
  assumes "good s" and "valid k"
  obtains s' where "take_claim k s = (Inr (\<not> live s k), s')" "good s'"
    "\<And>k'. valid k' \<Longrightarrow> live s' k' = (k' = k \<or> live s k')"
proof (cases "live s k")
  case True
  with claim_live [OF assms] that show thesis by auto
next
  case False
  with claim_free [OF assms] that show thesis by auto
qed

lemma claimed_stays_claimed:
  assumes "good s" "valid k" "take_claim k s = (Inr b, s')"
  shows "live s' k \<and> good s'" and "fst (take_claim k s') = Inr False"
proof -
  show *: "live s' k \<and> good s'"
    using claim_total [OF assms(1,2)] assms by (metis Pair_inject)
  show "fst (take_claim k s') = Inr False"
    using claim_live [of s' k] * assms(2) by auto
qed

text \<open>
  In a burst, a claim succeeds exactly when its key was free before the burst and none of the
  earlier arrivals was for the same key.
\<close>

lemma burst_verdicts:
  assumes "good s" and "\<forall>k \<in> set ks. valid k"
  shows "burst take_claim ks s =
    map (\<lambda>i. Inr (\<not> live s (ks ! i) \<and> ks ! i \<notin> set (take i ks))) [0..<length ks]"
  using assms
proof (induction ks arbitrary: s)
  case (Cons k ks)
  have v: "valid k" using Cons.prems by simp
  from claim_total [OF Cons.prems(1) v] obtain s' where
    s': "take_claim k s = (Inr (\<not> live s k), s')" "good s'"
    and live': "\<And>k'. valid k' \<Longrightarrow> live s' k' = (k' = k \<or> live s k')" by blast
  have IH: "burst take_claim ks s' =
      map (\<lambda>i. Inr (\<not> live s' (ks ! i) \<and> ks ! i \<notin> set (take i ks))) [0..<length ks]"
    using Cons s' by simp
  have "burst take_claim (k # ks) s = Inr (\<not> live s k) #
      map (\<lambda>i. Inr (\<not> live s' (ks ! i) \<and> ks ! i \<notin> set (take i ks))) [0..<length ks]"
    by (simp add: s' IH)
  also have "\<dots> = map (\<lambda>i. Inr (\<not> live s ((k # ks) ! i) \<and> (k # ks) ! i \<notin> set (take i (k # ks))))
      [0..<Suc (length ks)]"
    using Cons.prems(2) live'
    by (auto simp add: upt_conv_Cons map_Suc_upt [symmetric] simp del: upt_Suc)
  finally show ?case by simp
qed simp

lemma burst_same_key:
  assumes "good s" and "valid k"
  shows "burst take_claim (replicate n k) s =
    (if live s k \<or> n = 0 then replicate n (Inr False) else Inr True # replicate (n - 1) (Inr False))"
proof -
  have "burst take_claim (replicate n k) s =
      map (\<lambda>i. Inr (\<not> live s k \<and> k \<notin> set (take i (replicate n k)))) [0..<n]"
    using burst_verdicts [of s "replicate n k"] assms by (simp cong: map_cong)
  also have "\<dots> = map (\<lambda>i. Inr (\<not> live s k \<and> i = 0)) [0..<n]"
    by (auto simp: set_replicate_conv_if)
  also have "\<dots> = (if live s k \<or> n = 0 then replicate n (Inr False) else Inr True # replicate (n - 1) (Inr False))"
    by (cases n) (auto simp: upt_conv_Cons map_replicate_const simp del: upt_Suc intro!: replicate_eqI)
  finally show ?thesis .
qed

end

text \<open>A record whose outcome is written once.\<close>

locale first_writer =
  fixes good :: "'s \<Rightarrow> bool"
    and admissible :: "'o \<Rightarrow> bool"
    and outcome_of :: "'s \<Rightarrow> 'k \<Rightarrow> 'o option option"
    and put :: "'k \<Rightarrow> 'o \<Rightarrow> ('s, 'r) prog"
    and reported :: "'r \<Rightarrow> 'o option"
  assumes put_known: "good s \<Longrightarrow> admissible v \<Longrightarrow> outcome_of s k = Some old \<Longrightarrow>
      \<exists>r s'. put k v s = (Inr r, s') \<and> good s' \<and>
        reported r = Some (case old of None \<Rightarrow> v | Some w \<Rightarrow> w) \<and>
        outcome_of s' = (outcome_of s)(k \<mapsto> Some (case old of None \<Rightarrow> v | Some w \<Rightarrow> w))"
    and put_refused: "good s \<Longrightarrow> \<not> admissible v \<or> outcome_of s k = None \<Longrightarrow> \<exists>e. put k v s = (Inl e, s)"
begin

text \<open>After any sequence of writes, a decided record is what the first write made it.\<close>

fun puts :: "('k \<times> 'o) list \<Rightarrow> 's \<Rightarrow> 's" where
  "puts [] s = s"
| "puts ((k, v) # kvs) s = puts kvs (snd (put k v s))"

lemma put_decided:
  assumes "good s" "outcome_of s k = Some (Some w)"
  shows "good (snd (put k' v s)) \<and> outcome_of (snd (put k' v s)) k = Some (Some w)"
proof (cases "admissible v \<and> outcome_of s k' \<noteq> None")
  case False
  with put_refused [of s v k'] assms show ?thesis by auto
next
  case True
  then obtain old where old: "outcome_of s k' = Some old" "admissible v" by blast
  from put_known [OF assms(1) old(2,1)] obtain r s' where
    "put k' v s = (Inr r, s')" "good s'"
    "outcome_of s' = (outcome_of s)(k' \<mapsto> Some (case old of None \<Rightarrow> v | Some w \<Rightarrow> w))" by blast
  then show ?thesis using assms old by auto
qed

lemma puts_decided:
  "good s \<Longrightarrow> outcome_of s k = Some (Some w) \<Longrightarrow>
   good (puts kvs s) \<and> outcome_of (puts kvs s) k = Some (Some w)"
proof (induction kvs arbitrary: s)
  case (Cons kv kvs)
  obtain k' v where kv: "kv = (k', v)" by (cases kv)
  with Cons.IH put_decided [OF Cons.prems, of k' v] show ?case by simp
qed simp

lemma first_put_wins:
  assumes "good s" "admissible v" "outcome_of s k = Some None"
  shows "outcome_of (puts ((k, v) # kvs) s) k = Some (Some v)"
proof -
  from put_known [OF assms] obtain r s' where
    "put k v s = (Inr r, s')" "good s'" "outcome_of s' k = Some (Some v)" by auto
  with puts_decided show ?thesis by simp
qed

lemma later_put_reports_first:
  assumes "good s" "outcome_of s k = Some (Some w)" "admissible v"
  shows "\<exists>r. fst (put k v (puts kvs s)) = Inr r \<and> reported r = Some w"
  using put_known [of "puts kvs s" v k "Some w"] puts_decided [OF assms(1,2), of kvs] assms(3) by auto

end

end
