(* ===== verification/Concurrency.thy ===== *)
theory Concurrency
  imports Claims
begin

text \<open>
  \<^verbatim>\<open>concurrency.py\<close>: the durable claim of an (Assistant, Subject) pair,
  \<^verbatim>\<open>.cordboard/concurrency.json\<close>. Each operation runs under an exclusive \<^verbatim>\<open>flock\<close>
  (\<^verbatim>\<open>_locked\<close>), so an operation is one step of the interleaving of processes at the end of
  the theory.
\<close>

type_synonym claim_file = "claim dict store_file"

definition load_concurrency :: "claim_file \<Rightarrow> exn + claim dict" where
  "load_concurrency f = load_file ConcurrencyError ''concurrency file'' ''a JSON object'' f"

definition concurrency_key :: "string \<Rightarrow> string \<Rightarrow> exn + string" where
  "concurrency_key assistant subject =
     (if blank assistant then Inl (Exn ConcurrencyError ''assistant must be a non-empty string'')
      else if blank subject then Inl (Exn ConcurrencyError ''subject must be a non-empty string'')
      else Inr (dumps_strs [assistant, subject]))"

definition try_claim :: "string \<Rightarrow> string \<Rightarrow> seconds \<Rightarrow> seconds \<Rightarrow> (claim_file, bool) prog" where
  "try_claim assistant subject now stale_after =
     andthen (attempt (concurrency_key assistant subject)) (\<lambda>key.
     andthen (reading load_concurrency) (\<lambda>data.
       if (case map_of data key of None \<Rightarrow> False | Some existing \<Rightarrow> now - claimed_at existing < stale_after)
       then ret False
       else andthen (write_atomic (AList.update key \<lparr>claimed_at = now\<rparr> data)) (\<lambda>_. ret True)))"

definition release_concurrency :: "string \<Rightarrow> string \<Rightarrow> (claim_file, unit) prog" where
  "release_concurrency assistant subject =
     andthen (attempt (concurrency_key assistant subject)) (\<lambda>key.
     andthen (reading load_concurrency) (\<lambda>data.
       if map_of data key \<noteq> None then write_atomic (AList.delete key data) else ret ()))"

definition renew_concurrency :: "string \<Rightarrow> string \<Rightarrow> seconds \<Rightarrow> (claim_file, unit) prog" where
  "renew_concurrency assistant subject now =
     andthen (attempt (concurrency_key assistant subject)) (\<lambda>key.
     andthen (reading load_concurrency) (\<lambda>data.
       case map_of data key of
         None \<Rightarrow> ret ()
       | Some c \<Rightarrow> write_atomic (AList.update key (c\<lparr>claimed_at := now\<rparr>) data)))"

section \<open>What the operations do\<close>

text \<open>An (Assistant, Subject) pair.\<close>

datatype claim_pair = Claim_Pair (pair_assistant: string) (pair_subject: string)

text \<open>The pair's record, and whether it is a live claim at the time \<open>now\<close>.\<close>

definition pair_claim :: "claim_file \<Rightarrow> claim_pair \<Rightarrow> claim option" where
  "pair_claim f p = map_of (content f) (dumps_strs [pair_assistant p, pair_subject p])"

definition pair_valid :: "claim_pair \<Rightarrow> bool" where
  "pair_valid p = (\<not> blank (pair_assistant p) \<and> \<not> blank (pair_subject p))"

definition pair_live :: "seconds \<Rightarrow> seconds \<Rightarrow> claim_file \<Rightarrow> claim_pair \<Rightarrow> bool" where
  "pair_live now stale_after f p =
     (case pair_claim f p of None \<Rightarrow> False | Some c \<Rightarrow> now - claimed_at c < stale_after)"

lemma concurrency_key_valid [simp]:
  "pair_valid (Claim_Pair a s) \<Longrightarrow> concurrency_key a s = Inr (dumps_strs [a, s])"
  by (simp add: concurrency_key_def pair_valid_def)

lemma concurrency_key_invalid:
  "\<not> pair_valid (Claim_Pair a s) \<Longrightarrow> \<exists>m. concurrency_key a s = Inl (Exn ConcurrencyError m)"
  by (auto simp: concurrency_key_def pair_valid_def)

lemma load_concurrency_readable [simp]: "readable f \<Longrightarrow> load_concurrency f = Inr (content f)"
  by (simp add: load_concurrency_def)

lemma try_claim_live:
  "readable f \<Longrightarrow> pair_valid (Claim_Pair a s) \<Longrightarrow> pair_live now stale f (Claim_Pair a s) \<Longrightarrow>
   try_claim a s now stale f = (Inr False, f)"
  by (auto simp: try_claim_def pair_live_def pair_claim_def
      split: option.splits)

lemma try_claim_free:
  "readable f \<Longrightarrow> pair_valid (Claim_Pair a s) \<Longrightarrow> \<not> pair_live now stale f (Claim_Pair a s) \<Longrightarrow>
   try_claim a s now stale f =
     (Inr True, Holds (sorted_keys (AList.update (dumps_strs [a, s]) \<lparr>claimed_at = now\<rparr> (content f))))"
  by (auto simp: try_claim_def pair_live_def pair_claim_def
      split: option.splits)

lemma release_concurrency_eq:
  "readable f \<Longrightarrow> pair_valid (Claim_Pair a s) \<Longrightarrow>
   \<exists>f'. release_concurrency a s f = (Inr (), f') \<and> readable f' \<and>
        pair_claim f' = (pair_claim f)(Claim_Pair a s := None) \<and> (dict_ok (content f) \<longrightarrow> dict_ok (content f'))"
  by (auto simp: release_concurrency_def pair_claim_def delete_conv' fun_eq_iff claim_pair.expand)

lemma renew_concurrency_eq:
  "readable f \<Longrightarrow> pair_valid (Claim_Pair a s) \<Longrightarrow>
   \<exists>f'. renew_concurrency a s now f = (Inr (), f') \<and> readable f' \<and>
        pair_claim f' = (case pair_claim f (Claim_Pair a s) of None \<Rightarrow> pair_claim f
                         | Some c \<Rightarrow> (pair_claim f)(Claim_Pair a s \<mapsto> \<lparr>claimed_at = now\<rparr>)) \<and>
        (dict_ok (content f) \<longrightarrow> dict_ok (content f'))"
  by (auto simp: renew_concurrency_def pair_claim_def update_conv' fun_eq_iff claim_pair.expand
      split: option.splits)

lemma pair_claim_write [simp]:
  "pair_claim (Holds (sorted_keys (AList.update (dumps_strs [a, s]) c d))) =
     (pair_claim (Holds d))(Claim_Pair a s \<mapsto> c)"
  by (auto simp: pair_claim_def update_conv' fun_eq_iff claim_pair.expand)

lemma pair_claim_content [simp]: "pair_claim (Holds (content f)) = pair_claim f"
  by (simp add: pair_claim_def fun_eq_iff)

interpretation conc: claim_store "\<lambda>f. file_ok f \<and> 0 < stale_after" pair_valid
    "pair_live now stale_after" "\<lambda>p. try_claim (pair_assistant p) (pair_subject p) now stale_after" for now stale_after
proof (unfold_locales, goal_cases)
  case (1 f k)
  then show ?case by (cases k) (auto simp: try_claim_live file_ok_def)
next
  case (2 f k)
  then show ?case
    by (cases k) (auto simp: try_claim_free file_ok_def pair_live_def split: option.splits if_splits)
qed

section \<open>Processes that race for pairs\<close>

text \<open>
  Each \<^verbatim>\<open>cord\<close> invocation is a process: it arrives for a pair, and when it got the claim it holds
  the pair until it finishes (and releases) or dies (and does not). \<open>held\<close> maps a process to its
  pair and the time it claimed it. With \<open>timely\<close>, time passes only while every holder stays within
  \<open>stale_after\<close>, which is what the callers of the module choose \<open>stale_after\<close> for.
\<close>

record race =
  store :: claim_file
  held :: "nat \<Rightarrow> (claim_pair \<times> seconds) option"
  clock :: seconds

definition race_init :: race where
  "race_init = \<lparr>store = Absent, held = (\<lambda>_. None), clock = 0\<rparr>"

inductive race_step :: "bool \<Rightarrow> seconds \<Rightarrow> race \<Rightarrow> race \<Rightarrow> bool" for timely stale_after where
  arrive_won: "held r p = None \<Longrightarrow> pair_valid k \<Longrightarrow>
     try_claim (pair_assistant k) (pair_subject k) (clock r) stale_after (store r) = (Inr True, f') \<Longrightarrow>
     race_step timely stale_after r (r\<lparr>store := f', held := (held r)(p \<mapsto> (k, clock r))\<rparr>)"
| arrive_skipped: "held r p = None \<Longrightarrow> pair_valid k \<Longrightarrow>
     try_claim (pair_assistant k) (pair_subject k) (clock r) stale_after (store r) = (Inr False, f') \<Longrightarrow>
     race_step timely stale_after r (r\<lparr>store := f'\<rparr>)"
| finish: "held r p = Some (k, t) \<Longrightarrow> release_concurrency (pair_assistant k) (pair_subject k) (store r) = (Inr (), f') \<Longrightarrow>
     race_step timely stale_after r (r\<lparr>store := f', held := (held r)(p := None)\<rparr>)"
| renewal: "held r p = Some (k, t) \<Longrightarrow> renew_concurrency (pair_assistant k) (pair_subject k) (clock r) (store r) = (Inr (), f') \<Longrightarrow>
     race_step timely stale_after r (r\<lparr>store := f', held := (held r)(p \<mapsto> (k, clock r))\<rparr>)"
| crash: "held r p = Some kt \<Longrightarrow> race_step timely stale_after r (r\<lparr>held := (held r)(p := None)\<rparr>)"
| elapse: "0 \<le> d \<Longrightarrow> (timely \<Longrightarrow> \<forall>p k t. held r p = Some (k, t) \<longrightarrow> clock r + d - t < stale_after) \<Longrightarrow>
     race_step timely stale_after r (r\<lparr>clock := clock r + d\<rparr>)"

inductive race_reachable :: "bool \<Rightarrow> seconds \<Rightarrow> race \<Rightarrow> bool" for timely stale_after where
  race_start: "race_reachable timely stale_after race_init"
| race_next: "race_reachable timely stale_after r \<Longrightarrow> race_step timely stale_after r r' \<Longrightarrow>
     race_reachable timely stale_after r'"

text \<open>
  What every step keeps: each holder's pair is recorded in the file with the time the holder claimed
  it, that claim is not stale, and no two processes hold one pair.
\<close>

definition race_inv :: "seconds \<Rightarrow> race \<Rightarrow> bool" where
  "race_inv stale_after r =
     (readable (store r) \<and>
      (\<forall>p k t. held r p = Some (k, t) \<longrightarrow>
         pair_valid k \<and> pair_claim (store r) k = Some \<lparr>claimed_at = t\<rparr> \<and>
         t \<le> clock r \<and> clock r - t < stale_after) \<and>
      (\<forall>p q k t u. held r p = Some (k, t) \<longrightarrow> held r q = Some (k, u) \<longrightarrow> p = q))"

lemma race_inv_held:
  assumes "race_inv st r" "held r p = Some (k, t)"
  shows "pair_valid k" "pair_claim (store r) k = Some \<lparr>claimed_at = t\<rparr>" "pair_live (clock r) st (store r) k"
  using assms by (auto simp: race_inv_def pair_live_def)

lemma try_claim_InrE:
  assumes "readable f" "pair_valid k" "try_claim (pair_assistant k) (pair_subject k) now stale f = (Inr b, f')"
  shows "b = (\<not> pair_live now stale f k)" "readable f'"
    "pair_claim f' = (if b then (pair_claim f)(k \<mapsto> \<lparr>claimed_at = now\<rparr>) else pair_claim f)"
proof -
  obtain a s where k: "k = Claim_Pair a s" by (cases k)
  have "b = (\<not> pair_live now stale f k) \<and> readable f' \<and>
    pair_claim f' = (if b then (pair_claim f)(k \<mapsto> \<lparr>claimed_at = now\<rparr>) else pair_claim f)"
  proof (cases "pair_live now stale f (Claim_Pair a s)")
    case True
    with assms try_claim_live [of f a s now stale] show ?thesis by (simp add: k)
  next
    case False
    with assms try_claim_free [of f a s now stale] show ?thesis by (auto simp: k)
  qed
  then show "b = (\<not> pair_live now stale f k)" "readable f'"
    "pair_claim f' = (if b then (pair_claim f)(k \<mapsto> \<lparr>claimed_at = now\<rparr>) else pair_claim f)"
    by blast+
qed

lemma race_step_inv:
  assumes "race_step True stale_after r r'" "race_inv stale_after r" "0 < stale_after"
  shows "race_inv stale_after r'"
  using assms
proof (induction rule: race_step.induct)
  case (arrive_won r p k f')
  have rd: "readable (store r)" using arrive_won.prems(1) by (simp add: race_inv_def)
  note w = try_claim_InrE [OF rd arrive_won(2,3)]
  have free: "held r q \<noteq> Some (k, t)" for q t
    using race_inv_held(3) [OF arrive_won.prems(1)] w(1) by auto
  then have other: "k' \<noteq> k" if "held r q = Some (k', t)" for q k' t
    using that by blast
  show ?case
    using arrive_won.prems arrive_won(2) w free
    by (auto simp: race_inv_def dest: other)
next
  case (arrive_skipped r p k f')
  have rd: "readable (store r)" using arrive_skipped.prems(1) by (simp add: race_inv_def)
  note w = try_claim_InrE [OF rd arrive_skipped(2,3)]
  then show ?case using arrive_skipped.prems by (auto simp: race_inv_def)
next
  case (finish r p k t f')
  obtain a s where k: "k = Claim_Pair a s" by (cases k)
  have rd: "readable (store r)" using finish.prems(1) by (simp add: race_inv_def)
  have v: "pair_valid (Claim_Pair a s)" using race_inv_held(1) [OF finish.prems(1) finish(1)] by (simp add: k)
  from release_concurrency_eq [OF rd v] finish(2) have
    f': "readable f'" "pair_claim f' = (pair_claim (store r))(k := None)" by (auto simp: k)
  have other: "k' \<noteq> k" if "held r q = Some (k', u)" "q \<noteq> p" for q k' u
    using finish.prems(1) finish(1) that unfolding race_inv_def by blast
  show ?case
    using finish.prems(1) f' unfolding race_inv_def
    by (auto simp: other split: if_splits) 
next
  case (renewal r p k t f')
  obtain a s where k: "k = Claim_Pair a s" by (cases k)
  have rd: "readable (store r)" using renewal.prems(1) by (simp add: race_inv_def)
  note h = race_inv_held [OF renewal.prems(1) renewal(1)]
  from renew_concurrency_eq [OF rd h(1) [unfolded k], of "clock r"] renewal(2) h(2) have
    f': "readable f'" "pair_claim f' = (pair_claim (store r))(k \<mapsto> \<lparr>claimed_at = clock r\<rparr>)"
    by (auto simp: k)
  have other: "k' \<noteq> k" if "held r q = Some (k', u)" "q \<noteq> p" for q k' u
    using renewal.prems(1) renewal(1) that unfolding race_inv_def by blast
  show ?case
    using renewal.prems f' h(1) unfolding race_inv_def
    by (auto dest: other split: if_splits)
next
  case (crash r p kt)
  then show ?case unfolding race_inv_def by (auto split: if_splits)
next
  case (elapse d r)
  then show ?case unfolding race_inv_def by fastforce
qed

lemma race_reachable_inv:
  assumes "race_reachable True stale_after r" "0 < stale_after"
  shows "race_inv stale_after r"
  using assms(1)
proof (induction rule: race_reachable.induct)
  case race_start
  show ?case by (simp add: race_inv_def race_init_def)
next
  case (race_next r r')
  then show ?case using race_step_inv assms(2) by blast
qed

section \<open>Properties\<close>

text \<open>
  C1. While no holder outlives the staleness window, the claim file keeps the holders of one
  (Assistant, Subject) pair apart: in every reachable interleaving of arrivals, finishes, renewals,
  crashes and passing time, at most one process holds a pair.
\<close>

theorem claim_mutual_exclusion:
  assumes "race_reachable True stale_after r" and "0 < stale_after"
  shows "Uniq (\<lambda>p. \<exists>t. held r p = Some (k, t))"
proof
  fix p q
  assume "\<exists>t. held r p = Some (k, t)" and "\<exists>t. held r q = Some (k, t)"
  then show "p = q" using race_reachable_inv [OF assms] unfolding race_inv_def by blast
qed

text \<open>A race in which process 0 has claimed a pair at time 0.\<close>

definition demo_pair :: claim_pair where
  "demo_pair = Claim_Pair ''a'' ''s''"

definition demo_file :: "seconds \<Rightarrow> claim_file" where
  "demo_file t = Holds [(dumps_strs [''a'', ''s''], \<lparr>claimed_at = t\<rparr>)]"

lemma demo_pair_valid: "pair_valid demo_pair"
  by (simp add: pair_valid_def demo_pair_def blank_def py_space_def Let_def)

lemma demo_claim:
  assumes "f = Absent \<or> (\<exists>u. f = demo_file u \<and> stale \<le> t - u)"
  shows "try_claim ''a'' ''s'' t stale f = (Inr True, demo_file t)"
proof -
  have v: "pair_valid (Claim_Pair ''a'' ''s'')" using demo_pair_valid by (simp add: demo_pair_def)
  show ?thesis
    using assms v
    by (auto simp: try_claim_def load_concurrency_def load_file_def demo_file_def sorted_keys_def)
qed

lemma demo_arrival:
  "race_step b 10 (race_init) (race_init\<lparr>store := demo_file 0, held := (\<lambda>_. None)(0 \<mapsto> (demo_pair, 0))\<rparr>)"
proof -
  have "try_claim (pair_assistant demo_pair) (pair_subject demo_pair) (clock race_init) 10 (store race_init) =
      (Inr True, demo_file 0)"
    by (simp add: demo_pair_def race_init_def demo_claim)
  from arrive_won [OF _ demo_pair_valid this, of 0 b] show ?thesis by (simp add: race_init_def)
qed

theorem claim_mutual_exclusion_witness:
  "held (race_init\<lparr>store := demo_file 0, held := (\<lambda>_. None)(0 \<mapsto> (demo_pair, 0))\<rparr>) 0 = Some (demo_pair, 0) \<and>
   Uniq (\<lambda>p. \<exists>t. held (race_init\<lparr>store := demo_file 0, held := (\<lambda>_. None)(0 \<mapsto> (demo_pair, 0))\<rparr>) p =
     Some (demo_pair, t))"
  using claim_mutual_exclusion [OF race_next [OF race_start demo_arrival], of demo_pair] by simp

text \<open>
  \<^verbatim>\<open>release\<close> deletes the pair's claim without asking whose it is. Once a holder outlives
  the window, exclusion is lost for later holders too: the late holder's release removes the claim of
  the process that reclaimed the pair, and two processes hold it with fresh claims.
\<close>

theorem late_release_breaks_exclusion:
  "\<exists>r p q t u. race_reachable False 10 r \<and> p \<noteq> q \<and>
     held r p = Some (demo_pair, t) \<and> held r q = Some (demo_pair, u) \<and>
     clock r - t < 10 \<and> clock r - u < 10"
proof -
  let ?r1 = "race_init\<lparr>store := demo_file 0, held := (\<lambda>_. None)(0 \<mapsto> (demo_pair, 0))\<rparr>"
  let ?r2 = "?r1\<lparr>clock := 10\<rparr>"
  let ?r3 = "?r2\<lparr>store := demo_file 10, held := (\<lambda>_. None)(0 \<mapsto> (demo_pair, 0), 1 \<mapsto> (demo_pair, 10))\<rparr>"
  let ?r4 = "?r3\<lparr>store := Holds [], held := (\<lambda>_. None)(1 \<mapsto> (demo_pair, 10))\<rparr>"
  let ?r5 = "?r4\<lparr>store := demo_file 10, held := (\<lambda>_. None)(1 \<mapsto> (demo_pair, 10), 2 \<mapsto> (demo_pair, 10))\<rparr>"
  have p: "pair_assistant demo_pair = ''a''" "pair_subject demo_pair = ''s''" by (simp_all add: demo_pair_def)
  have s2: "race_step False 10 ?r1 ?r2"
    using elapse [of 10 False ?r1 10] by (simp add: race_init_def)
  have c3: "try_claim ''a'' ''s'' 10 10 (demo_file 0) = (Inr True, demo_file 10)"
    by (rule demo_claim) auto
  have s3: "race_step False 10 ?r2 ?r3"
    using arrive_won [OF _ demo_pair_valid, of ?r2 1 10 "demo_file 10" False] c3 by (simp add: p race_init_def)
  have "release_concurrency ''a'' ''s'' (demo_file 10) = (Inr (), Holds [])"
    using demo_pair_valid
    by (simp add: release_concurrency_def demo_pair_def load_concurrency_def load_file_def demo_file_def sorted_keys_def)
  then have s4: "race_step False 10 ?r3 ?r4"
    using finish [of ?r3 0 demo_pair 0 "Holds []" False 10]
    by (simp add: p fun_upd_twist)
  have "try_claim ''a'' ''s'' 10 10 (Holds []) = (Inr True, demo_file 10)"
    using demo_pair_valid
    by (simp add: try_claim_def demo_pair_def load_concurrency_def load_file_def demo_file_def sorted_keys_def)
  then have s5: "race_step False 10 ?r4 ?r5"
    using arrive_won [OF _ demo_pair_valid, of ?r4 2 10 "demo_file 10" False] by (simp add: p race_init_def)
  have reach: "race_reachable False 10 ?r5"
    by (intro race_next [OF race_next [OF race_next [OF race_next [OF race_next [OF race_start demo_arrival] s2] s3] s4] s5])
  show ?thesis
    by (rule exI [of _ ?r5], rule exI [of _ 1], rule exI [of _ 2], rule exI [of _ 10], rule exI [of _ 10])
      (use reach in \<open>simp add: race_init_def\<close>)
qed

text \<open>
  A burst of arrivals for one free pair: exactly the first gets the claim, every later one is
  skipped.
\<close>

theorem burst_has_one_winner:
  assumes "file_ok f" and "0 < stale_after" and "\<not> blank a" and "\<not> blank s"
    and "\<not> pair_live now stale_after f (Claim_Pair a s)"
  shows "burst (\<lambda>p. try_claim (pair_assistant p) (pair_subject p) now stale_after)
      (replicate (Suc n) (Claim_Pair a s)) f = Inr True # replicate n (Inr False)"
  using conc.burst_same_key [of f stale_after "Claim_Pair a s" now "Suc n"] assms by (simp add: pair_valid_def)

theorem burst_has_one_winner_witness:
  "burst (\<lambda>p. try_claim (pair_assistant p) (pair_subject p) 0 10) (replicate 3 (Claim_Pair ''a'' ''s'')) Absent =
     [Inr True, Inr False, Inr False]"
  using burst_has_one_winner [of Absent 10 "''a''" "''s''" 0 2]
  by (simp add: pair_live_def pair_claim_def blank_def py_space_def Let_def eval_nat_numeral)

end
