(* ===== verification/Signal_Dedupe.thy ===== *)
theory Signal_Dedupe
  imports Claims
begin

text \<open>
  \<^verbatim>\<open>signal_dedupe.py\<close>: the claim of a Signal ID before its submission,
  \<^verbatim>\<open>.cordboard/signal_dedupe.json\<close>. A claim lives for the retention window and is pruned by the
  next write after it.
\<close>

type_synonym dedupe_file = "claim dict store_file"

definition DEFAULT_RETENTION_SECONDS :: seconds where
  "DEFAULT_RETENTION_SECONDS = 24 * 60 * 60"

definition load_signal_dedupe :: "dedupe_file \<Rightarrow> exn + claim dict" where
  "load_signal_dedupe f = load_file SignalDedupeError ''signal dedupe file'' ''a JSON object'' f"

definition prune_claims :: "seconds \<Rightarrow> seconds \<Rightarrow> claim dict \<Rightarrow> claim dict" where
  "prune_claims now retention data = filter (\<lambda>(sid, c). now - claimed_at c < retention) data"

definition is_duplicate :: "string \<Rightarrow> seconds \<Rightarrow> seconds \<Rightarrow> (dedupe_file, bool) prog" where
  "is_duplicate signal_id now retention =
     (if blank signal_id then throw SignalDedupeError ''signal id must be a non-empty string''
      else andthen (reading load_signal_dedupe) (\<lambda>loaded.
        ret (map_of (prune_claims now retention loaded) signal_id \<noteq> None)))"

text \<open>One call after another: the source takes no lock around the read and the write of the file.\<close>

definition claim_signal :: "string \<Rightarrow> seconds \<Rightarrow> seconds \<Rightarrow> (dedupe_file, bool) prog" where
  "claim_signal signal_id now retention =
     (if blank signal_id then throw SignalDedupeError ''signal id must be a non-empty string''
      else andthen (reading load_signal_dedupe) (\<lambda>loaded.
        let data = prune_claims now retention loaded in
        if map_of data signal_id \<noteq> None
        then andthen (write_atomic data) (\<lambda>_. ret False)
        else andthen (write_atomic (AList.update signal_id \<lparr>claimed_at = now\<rparr> data)) (\<lambda>_. ret True)))"

section \<open>What the operations do\<close>

definition signal_live :: "seconds \<Rightarrow> seconds \<Rightarrow> dedupe_file \<Rightarrow> string \<Rightarrow> bool" where
  "signal_live now retention f i =
     (case map_of (content f) i of None \<Rightarrow> False | Some c \<Rightarrow> now - claimed_at c < retention)"

lemma load_signal_dedupe_readable [simp]: "readable f \<Longrightarrow> load_signal_dedupe f = Inr (content f)"
  by (simp add: load_signal_dedupe_def)

lemma prune_claims_ok [simp]: "dict_ok d \<Longrightarrow> dict_ok (prune_claims now r d)"
  by (simp add: prune_claims_def)

lemma map_of_prune_claims:
  "dict_ok d \<Longrightarrow> map_of (prune_claims now r d) i =
     (case map_of d i of None \<Rightarrow> None | Some c \<Rightarrow> if now - claimed_at c < r then Some c else None)"
  unfolding prune_claims_def by (rule map_of_filter_dict)

lemma is_duplicate_eq:
  "file_ok f \<Longrightarrow> \<not> blank i \<Longrightarrow> is_duplicate i now r f = (Inr (signal_live now r f i), f)"
  by (auto simp: is_duplicate_def signal_live_def map_of_prune_claims file_ok_def split: option.splits)

lemma claim_signal_eq:
  assumes "file_ok f" "\<not> blank i"
  shows "claim_signal i now r f =
    (Inr (\<not> signal_live now r f i),
     Holds (sorted_keys (if signal_live now r f i then prune_claims now r (content f)
       else AList.update i \<lparr>claimed_at = now\<rparr> (prune_claims now r (content f)))))"
  using assms
  by (auto simp: claim_signal_def signal_live_def map_of_prune_claims file_ok_def Let_def
      split: option.splits)

lemma claim_signal_ok:
  "file_ok f \<Longrightarrow> claim_signal i now r f = (res, f') \<Longrightarrow> file_ok f'"
proof (cases "blank i")
  case True
  then show "file_ok f \<Longrightarrow> claim_signal i now r f = (res, f') \<Longrightarrow> file_ok f'"
    by (simp add: claim_signal_def)
next
  case False
  then show "file_ok f \<Longrightarrow> claim_signal i now r f = (res, f') \<Longrightarrow> file_ok f'"
    by (auto simp: claim_signal_eq)
qed

text \<open>A claim leaves every other unexpired claim as it is, and keeps the time of an unexpired one.\<close>

lemma claim_signal_record:
  assumes "file_ok f" "map_of (content f) i = Some c" "now - claimed_at c < r"
  shows "map_of (content (snd (claim_signal j now r f))) i = Some c"
proof (cases "blank j")
  case True
  with assms show ?thesis by (simp add: claim_signal_def)
next
  case False
  moreover have "signal_live now r f i" using assms by (simp add: signal_live_def)
  ultimately show ?thesis
    using assms
    by (cases "i = j") (auto simp: claim_signal_eq map_of_prune_claims update_conv' file_ok_def)
qed

interpretation sig: claim_store "\<lambda>f. file_ok f \<and> 0 < retention" "\<lambda>i. \<not> blank i"
    "signal_live now retention" "\<lambda>i. claim_signal i now retention" for now retention
proof (unfold_locales, goal_cases)
  case (1 f k)
  then show ?case
    by (auto simp: claim_signal_eq signal_live_def map_of_prune_claims file_ok_def split: option.splits)
next
  case (2 f k)
  then show ?case
    by (auto simp: claim_signal_eq signal_live_def map_of_prune_claims file_ok_def update_conv'
        split: option.splits if_splits)
qed

text \<open>Deliveries of Signals at their times, one after the other.\<close>

fun deliver_all :: "seconds \<Rightarrow> (string \<times> seconds) list \<Rightarrow> dedupe_file \<Rightarrow> dedupe_file" where
  "deliver_all retention [] f = f"
| "deliver_all retention ((i, now) # ds) f =
     deliver_all retention ds (snd (claim_signal i now retention f))"

lemma deliver_all_ok: "file_ok f \<Longrightarrow> file_ok (deliver_all r ds f)"
proof (induction r ds f rule: deliver_all.induct)
  case (2 r i now ds f)
  then show ?case by (metis claim_signal_ok deliver_all.simps(2) prod.collapse)
qed simp

lemma deliver_all_record:
  "file_ok f \<Longrightarrow> map_of (content f) i = Some c \<Longrightarrow> \<forall>(j, now) \<in> set ds. now - claimed_at c < r \<Longrightarrow>
   map_of (content (deliver_all r ds f)) i = Some c"
proof (induction r ds f rule: deliver_all.induct)
  case (2 r j now ds f)
  have "file_ok (snd (claim_signal j now r f))"
    using 2(2) claim_signal_ok by (metis prod.collapse)
  with 2 claim_signal_record [of f i c now r j] show ?case by auto
qed simp

section \<open>Properties\<close>

text \<open>
  A claimed Signal ID stays claimed for the whole retention window: after any deliveries at times
  inside the window, whatever their IDs, a redelivery inside the window is a duplicate and is refused.
\<close>

theorem claimed_signal_refused:
  assumes "file_ok f" and "\<not> blank i" and "fst (claim_signal i t0 retention f) = Inr True"
    and "\<forall>now \<in> snd ` set ds. now - t0 < retention" and "t - t0 < retention"
  shows "fst (claim_signal i t retention (deliver_all retention ds (snd (claim_signal i t0 retention f)))) = Inr False"
proof -
  let ?f1 = "snd (claim_signal i t0 retention f)"
  let ?f2 = "deliver_all retention ds ?f1"
  have ok: "file_ok ?f1" using claim_signal_ok [OF assms(1)] by (metis prod.collapse)
  have "map_of (content ?f1) i = Some \<lparr>claimed_at = t0\<rparr>"
    using assms(1-3) by (auto simp: claim_signal_eq update_conv')
  then have "map_of (content ?f2) i = Some \<lparr>claimed_at = t0\<rparr>"
    using deliver_all_record [OF ok] assms(4) by force
  then have "signal_live t retention ?f2 i" using assms(5) by (simp add: signal_live_def)
  then show ?thesis using claim_signal_eq [OF deliver_all_ok [OF ok] assms(2)] by simp
qed

theorem claimed_signal_refused_witness:
  "fst (claim_signal ''i'' 5 10 (deliver_all 10 [(''j'', 1), (''i'', 2)] (snd (claim_signal ''i'' 0 10 Absent)))) =
     Inr False"
  using claimed_signal_refused [of Absent "''i''" 0 10 "[(''j'', 1), (''i'', 2)]" 5]
  by (simp add: claim_signal_eq signal_live_def blank_def py_space_def Let_def)

text \<open>
  The store does not grow without bound: after a claim at time \<open>now\<close> it holds only claims
  younger than the retention window, and the claim of every other unexpired ID is unchanged.
\<close>

theorem claim_prunes_expired:
  assumes "file_ok f" and "\<not> blank i" and "0 < retention"
  shows "map_of (content (snd (claim_signal i now retention f))) j =
    (if j = i \<and> \<not> signal_live now retention f i then Some \<lparr>claimed_at = now\<rparr>
     else if signal_live now retention f j then map_of (content f) j else None)"
  using assms
  by (auto simp: claim_signal_eq map_of_prune_claims signal_live_def update_conv' file_ok_def split: option.splits)

theorem claim_prunes_expired_witness:
  "map_of (content (snd (claim_signal ''i'' 20 10 (Holds [(''old'', \<lparr>claimed_at = 0\<rparr>)])))) ''old'' = None"
  using claim_prunes_expired [of "Holds [(''old'', \<lparr>claimed_at = 0\<rparr>)]" "''i''" 10 20 "''old''"]
  by (simp add: signal_live_def blank_def py_space_def Let_def dict_ok_def)

end
