(* ===== verification/Response_Dedupe.thy ===== *)
theory Response_Dedupe
  imports Claims
begin

text \<open>
  \<^verbatim>\<open>response_dedupe.py\<close>: the claim of one interrupt's response and its one durable outcome,
  \<^verbatim>\<open>.cordboard/response_dedupe.json\<close>. Every operation runs under the store's file lock.
\<close>

record response_claim =
  resp_claimed_at :: seconds
  outcome :: "string option"
  resp_resolved_at :: "seconds option"

type_synonym response_file = "response_claim dict store_file"

definition RESUMED :: string where "RESUMED = ''resumed''"

definition REJECTED :: string where "REJECTED = ''rejected''"

definition UNKNOWN :: string where "UNKNOWN = ''unknown''"

definition OUTCOMES :: "string list" where
  "OUTCOMES = [REJECTED, RESUMED, UNKNOWN]"

definition load_response_dedupe :: "response_file \<Rightarrow> exn + response_claim dict" where
  "load_response_dedupe f = load_file ResponseDedupeError ''response dedupe file'' ''a JSON object'' f"

definition response_key :: "string \<Rightarrow> string \<Rightarrow> string \<Rightarrow> exn + string" where
  "response_key deployment thread_id interrupt_id =
     (if blank deployment then Inl (Exn ResponseDedupeError ''deployment alias must be a non-empty string'')
      else if blank thread_id then Inl (Exn ResponseDedupeError ''thread ID must be a non-empty string'')
      else if blank interrupt_id
      then Inl (Exn ResponseDedupeError ''interrupt ID must be a non-empty string'')
      else Inr (dumps_strs [deployment, thread_id, interrupt_id]))"

definition claim_response :: "string \<Rightarrow> string \<Rightarrow> string \<Rightarrow> seconds \<Rightarrow> (response_file, bool) prog" where
  "claim_response deployment thread_id interrupt_id now =
     andthen (attempt (response_key deployment thread_id interrupt_id)) (\<lambda>key.
     andthen (reading load_response_dedupe) (\<lambda>data.
       if map_of data key \<noteq> None then ret False
       else andthen (write_atomic (AList.update key
              \<lparr>resp_claimed_at = now, outcome = None, resp_resolved_at = None\<rparr> data)) (\<lambda>_. ret True)))"

definition record_outcome ::
  "string \<Rightarrow> string \<Rightarrow> string \<Rightarrow> string \<Rightarrow> seconds \<Rightarrow> (response_file, response_claim) prog" where
  "record_outcome deployment thread_id interrupt_id out now =
     (if out \<notin> set OUTCOMES
      then throw ResponseDedupeError
             (''outcome must be one of ['' @ join_with '', '' (map quoted OUTCOMES) @ '']'')
      else
     andthen (attempt (response_key deployment thread_id interrupt_id)) (\<lambda>key.
     andthen (reading load_response_dedupe) (\<lambda>data.
       case map_of data key of
         None \<Rightarrow> throw ResponseDedupeError
           (''no claimed response for '' @ deployment @ ''/'' @ thread_id @ ''/'' @ interrupt_id)
       | Some rec \<Rightarrow>
           if outcome rec = None
           then let rec' = rec\<lparr>outcome := Some out, resp_resolved_at := Some now\<rparr>
                in andthen (write_atomic (AList.update key rec' data)) (\<lambda>_. ret rec')
           else ret rec)))"

definition get_claim ::
  "string \<Rightarrow> string \<Rightarrow> string \<Rightarrow> (response_file, response_claim option) prog" where
  "get_claim deployment thread_id interrupt_id =
     andthen (attempt (response_key deployment thread_id interrupt_id)) (\<lambda>key.
     andthen (reading load_response_dedupe) (\<lambda>data. ret (map_of data key)))"

section \<open>What the operations do\<close>

text \<open>One runtime interrupt: Deployment, Thread and interrupt id.\<close>

datatype interrupt_key = Interrupt_Key string string string

fun key_text :: "interrupt_key \<Rightarrow> string" where
  "key_text (Interrupt_Key d t i) = dumps_strs [d, t, i]"

fun key_valid :: "interrupt_key \<Rightarrow> bool" where
  "key_valid (Interrupt_Key d t i) = (\<not> blank d \<and> \<not> blank t \<and> \<not> blank i)"

fun claim_key :: "interrupt_key \<Rightarrow> seconds \<Rightarrow> (response_file, bool) prog" where
  "claim_key (Interrupt_Key d t i) now = claim_response d t i now"

fun outcome_key :: "interrupt_key \<Rightarrow> string \<Rightarrow> seconds \<Rightarrow> (response_file, response_claim) prog" where
  "outcome_key (Interrupt_Key d t i) out now = record_outcome d t i out now"

definition response_claimed :: "response_file \<Rightarrow> interrupt_key \<Rightarrow> bool" where
  "response_claimed f k = (map_of (content f) (key_text k) \<noteq> None)"

lemma key_text_inject [simp]: "key_text k = key_text k' \<longleftrightarrow> k = k'"
  by (cases k; cases k') simp

lemma response_key_valid [simp]:
  "key_valid (Interrupt_Key d t i) \<Longrightarrow> response_key d t i = Inr (dumps_strs [d, t, i])"
  by (simp add: response_key_def)

lemma response_key_Inr: "response_key d t i = Inr k \<longleftrightarrow> key_valid (Interrupt_Key d t i) \<and> k = dumps_strs [d, t, i]"
  by (auto simp: response_key_def)

lemma load_response_dedupe_readable [simp]: "readable f \<Longrightarrow> load_response_dedupe f = Inr (content f)"
  by (simp add: load_response_dedupe_def)

lemma claim_key_eq:
  "readable f \<Longrightarrow> key_valid k \<Longrightarrow>
   claim_key k now f =
     (if response_claimed f k then (Inr False, f)
      else (Inr True, Holds (sorted_keys (AList.update (key_text k)
              \<lparr>resp_claimed_at = now, outcome = None, resp_resolved_at = None\<rparr> (content f)))))"
  by (cases k) (auto simp: claim_response_def response_claimed_def)

interpretation resp: claim_store file_ok key_valid response_claimed "\<lambda>k. claim_key k now" for now
proof (unfold_locales, goal_cases)
  case (1 f k)
  then show ?case by (auto simp: claim_key_eq file_ok_def)
next
  case (2 f k)
  then show ?case by (auto simp: claim_key_eq file_ok_def response_claimed_def update_conv')
qed

text \<open>The outcome of a claimed interrupt: None when unclaimed, Some None while undecided.\<close>

definition outcome_of :: "response_file \<Rightarrow> interrupt_key \<Rightarrow> string option option" where
  "outcome_of f k = (if key_valid k then map_option outcome (map_of (content f) (key_text k)) else None)"

lemma outcome_key_eq:
  assumes "readable f" "key_valid k" "out \<in> set OUTCOMES"
  shows "outcome_key k out now f =
    (case map_of (content f) (key_text k) of
       None \<Rightarrow> outcome_key k out now f
     | Some rec \<Rightarrow>
         if outcome rec = None
         then (Inr (rec\<lparr>outcome := Some out, resp_resolved_at := Some now\<rparr>),
               Holds (sorted_keys (AList.update (key_text k)
                 (rec\<lparr>outcome := Some out, resp_resolved_at := Some now\<rparr>) (content f))))
         else (Inr rec, f))"
  using assms by (cases k) (auto simp: record_outcome_def Let_def split: option.splits)

lemma outcome_key_unclaimed:
  assumes "readable f" "outcome_of f k = None"
  shows "\<exists>m. outcome_key k out now f = (Inl (Exn ResponseDedupeError m), f)"
proof (cases "out \<in> set OUTCOMES \<and> key_valid k")
  case True
  with assms have "map_of (content f) (key_text k) = None" by (simp add: outcome_of_def)
  with True assms(1) show ?thesis by (cases k) (simp add: record_outcome_def)
next
  case False
  then show ?thesis by (cases k) (auto simp: record_outcome_def response_key_def)
qed

interpretation resp_out: first_writer file_ok "\<lambda>v. v \<in> set OUTCOMES" outcome_of
    "\<lambda>k v. outcome_key k v now" outcome for now
proof (unfold_locales, goal_cases)
  case (1 f v k old)
  then obtain rec where rec: "map_of (content f) (key_text k) = Some rec" "outcome rec = old"
    and v: "key_valid k" by (auto simp: outcome_of_def split: if_splits)
  show ?case
    using 1 rec v outcome_key_eq [of f k v now]
    by (auto simp: file_ok_def outcome_of_def update_conv' fun_eq_iff split: option.splits)
next
  case (2 f v k)
  then show ?case
    using outcome_key_unclaimed [of f k v now]
    by (cases k) (auto simp: record_outcome_def file_ok_def)
qed

section \<open>Properties\<close>

text \<open>
  A claimed interrupt gets one durable outcome: the first valid one recorded stays, whatever
  outcomes are recorded for it or for other interrupts afterwards, and a later record of it reports
  the first outcome.
\<close>

theorem first_outcome_stays:
  assumes "file_ok f" and "outcome_of f k = Some None" and "v \<in> set OUTCOMES" and "v' \<in> set OUTCOMES"
  shows "outcome_of (resp_out.puts now ((k, v) # kvs) f) k = Some (Some v) \<and>
    (\<exists>rec. fst (outcome_key k v' now (resp_out.puts now ((k, v) # kvs) f)) = Inr rec \<and> outcome rec = Some v)"
proof -
  have first: "outcome_of (snd (outcome_key k v now f)) k = Some (Some v)" "file_ok (snd (outcome_key k v now f))"
    using resp_out.put_known [OF assms(1,3,2), of now] by auto
  from resp_out.later_put_reports_first [OF first(2,1) assms(4), where now = now and kvs = kvs] resp_out.first_put_wins [OF assms(1,3,2)]
  show ?thesis by simp
qed

definition demo_responses :: response_file where
  "demo_responses = snd (claim_response ''d'' ''t'' ''i'' 0 Absent)"

theorem first_outcome_stays_witness:
  "outcome_of (resp_out.puts 1 [(Interrupt_Key ''d'' ''t'' ''i'', RESUMED), (Interrupt_Key ''d'' ''t'' ''i'', REJECTED)]
     demo_responses) (Interrupt_Key ''d'' ''t'' ''i'') = Some (Some RESUMED)"
proof -
  have "file_ok demo_responses" "outcome_of demo_responses (Interrupt_Key ''d'' ''t'' ''i'') = Some None"
    by (simp_all add: demo_responses_def claim_response_def response_key_def blank_def py_space_def Let_def
        load_response_dedupe_def load_file_def sorted_keys_def outcome_of_def dict_ok_def)
  from first_outcome_stays [OF this, of RESUMED UNKNOWN 1 "[(Interrupt_Key ''d'' ''t'' ''i'', REJECTED)]"]
  show ?thesis by (simp add: OUTCOMES_def)
qed

text \<open>
  Responses to different interrupts never interfere: in a burst, a response is accepted exactly
  when its interrupt was unclaimed before the burst and no earlier response in the burst was for it.
\<close>

theorem response_burst:
  assumes "file_ok f" and "\<forall>k \<in> set ks. key_valid k"
  shows "burst (\<lambda>k. claim_key k now) ks f =
    map (\<lambda>i. Inr (\<not> response_claimed f (ks ! i) \<and> ks ! i \<notin> set (take i ks))) [0..<length ks]"
  using assms by (rule resp.burst_verdicts)

theorem response_burst_witness:
  "burst (\<lambda>k. claim_key k 0)
     [Interrupt_Key ''d'' ''t'' ''i'', Interrupt_Key ''d'' ''t'' ''j'', Interrupt_Key ''d'' ''t'' ''i''] Absent =
     [Inr True, Inr True, Inr False]"
  using response_burst [of Absent "[Interrupt_Key ''d'' ''t'' ''i'', Interrupt_Key ''d'' ''t'' ''j'', Interrupt_Key ''d'' ''t'' ''i'']" 0]
  by (simp add: response_claimed_def blank_def py_space_def Let_def upt_rec [of 0] upt_rec [of 1] upt_rec [of "Suc 0"] upt_rec [of 2] upt_rec [of 3])

end
