(* ===== verification/Run_Continuity.thy ===== *)
theory Run_Continuity
  imports Prelude
begin

text \<open>
  \<^verbatim>\<open>run_continuity.py\<close>: which logical Run the API Run IDs of one (Deployment, Thread) belong to,
  \<^verbatim>\<open>.cordboard/run_continuity.json\<close>.
\<close>

record continuity =
  logical_id :: string
  api_run_ids :: "string list"

type_synonym continuity_file = "continuity dict dict store_file"

definition load_run_continuity :: "continuity_file \<Rightarrow> exn + continuity dict dict" where
  "load_run_continuity f = load_file RunContinuityError ''run continuity file'' ''a JSON object'' f"

definition validate_submission :: "string \<Rightarrow> string \<Rightarrow> string \<Rightarrow> exn + unit" where
  "validate_submission deployment thread_id api_run_id =
     (if blank deployment then Inl (Exn RunContinuityError ''deployment alias must be a non-empty string'')
      else if blank thread_id then Inl (Exn RunContinuityError ''thread ID must be a non-empty string'')
      else if blank api_run_id then Inl (Exn RunContinuityError ''API Run ID must be a non-empty string'')
      else Inr ())"

definition record_submission :: "string \<Rightarrow> string \<Rightarrow> string \<Rightarrow> (continuity_file, string) prog" where
  "record_submission deployment thread_id api_run_id =
     andthen (attempt (validate_submission deployment thread_id api_run_id)) (\<lambda>_.
     andthen (reading load_run_continuity) (\<lambda>data.
       case lookup2 data deployment thread_id of
         None \<Rightarrow>
           andthen (write_atomic2 (update2 deployment thread_id
             \<lparr>logical_id = api_run_id, api_run_ids = [api_run_id]\<rparr> data)) (\<lambda>_. ret api_run_id)
       | Some rec \<Rightarrow>
           if api_run_id \<notin> set (api_run_ids rec)
           then andthen (write_atomic2 (update2 deployment thread_id
                  (rec\<lparr>api_run_ids := api_run_ids rec @ [api_run_id]\<rparr>) data)) (\<lambda>_. ret (logical_id rec))
           else ret (logical_id rec)))"

definition logical_run :: "string \<Rightarrow> string \<Rightarrow> (continuity_file, continuity) prog" where
  "logical_run deployment thread_id =
     andthen (reading load_run_continuity) (\<lambda>data.
       case lookup2 data deployment thread_id of
         None \<Rightarrow> throw UnknownThread (''no recorded submission for '' @ deployment @ ''/'' @ thread_id)
       | Some rec \<Rightarrow> ret rec)"

definition thread_for_run :: "string \<Rightarrow> string \<Rightarrow> (continuity_file, string option) prog" where
  "thread_for_run deployment run_id =
     andthen (reading load_run_continuity) (\<lambda>data.
       ret (map_option fst (List.find (\<lambda>(t, rec). logical_id rec = run_id)
              (case map_of data deployment of None \<Rightarrow> [] | Some threads \<Rightarrow> threads))))"

section \<open>What the operations do\<close>

text \<open>The record of a Thread.\<close>

definition thread_record :: "continuity_file \<Rightarrow> string \<Rightarrow> string \<Rightarrow> continuity option" where
  "thread_record f d t = lookup2 (content f) d t"

text \<open>
  Every record starts with its logical Run and lists an API Run ID once.
\<close>

definition continuity_ok :: "continuity \<Rightarrow> bool" where
  "continuity_ok rec = (api_run_ids rec \<noteq> [] \<and> hd (api_run_ids rec) = logical_id rec \<and>
     distinct (api_run_ids rec) \<and> \<not> blank (logical_id rec))"

definition continuity_inv :: "continuity_file \<Rightarrow> bool" where
  "continuity_inv f = (nested_ok f \<and> (\<forall>d t rec. thread_record f d t = Some rec \<longrightarrow> continuity_ok rec))"

lemma continuity_inv_Absent: "continuity_inv Absent"
  by (simp add: continuity_inv_def thread_record_def)

lemma load_run_continuity_readable [simp]: "readable f \<Longrightarrow> load_run_continuity f = Inr (content f)"
  by (simp add: load_run_continuity_def)

lemma validate_submission_Inr [simp]:
  "validate_submission d t a = Inr u \<longleftrightarrow> \<not> blank d \<and> \<not> blank t \<and> \<not> blank a"
  by (auto simp: validate_submission_def)

lemma validate_submission_ok: "\<not> blank d \<Longrightarrow> \<not> blank t \<Longrightarrow> \<not> blank a \<Longrightarrow> validate_submission d t a = Inr ()"
  by simp

text \<open>The record a submission leaves for its Thread.\<close>

definition extended :: "continuity option \<Rightarrow> string \<Rightarrow> continuity" where
  "extended old a = (case old of
     None \<Rightarrow> \<lparr>logical_id = a, api_run_ids = [a]\<rparr>
   | Some rec \<Rightarrow> if a \<in> set (api_run_ids rec) then rec else rec\<lparr>api_run_ids := api_run_ids rec @ [a]\<rparr>)"

lemma record_submission_eq:
  assumes "continuity_inv f" "\<not> blank d" "\<not> blank t" "\<not> blank a"
  obtains f' where "record_submission d t a f = (Inr (logical_id (extended (thread_record f d t) a)), f')"
    "continuity_inv f'"
    "\<And>d' t'. thread_record f' d' t' =
       (if d' = d \<and> t' = t then Some (extended (thread_record f d t) a) else thread_record f d' t')"
proof -
  have rd: "readable f" "nested_ok f" using assms(1) by (auto simp: continuity_inv_def)
  let ?new = "extended (thread_record f d t) a"
  have new_ok: "continuity_ok ?new"
    using assms by (auto simp: extended_def continuity_ok_def continuity_inv_def hd_append split: option.splits)
  let ?f' = "Holds (sorted_keys (map (\<lambda>(k, e). (k, sorted_keys e)) (update2 d t ?new (content f))))"
  have inv': "continuity_inv ?f'"
    using assms(1) nested_ok_write [OF rd(2)] new_ok
    by (auto simp: continuity_inv_def thread_record_def split: if_splits)
  show thesis
  proof (cases "\<exists>rec. thread_record f d t = Some rec \<and> a \<in> set (api_run_ids rec)")
    case True
    then show thesis
      using assms rd by (intro that [of f])
        (auto simp: record_submission_def thread_record_def extended_def validate_submission_ok)
  next
    case False
    then show thesis
      using assms rd inv' by (intro that [of ?f'])
        (auto simp: record_submission_def thread_record_def extended_def validate_submission_ok
          split: option.splits)
  qed
qed

lemma record_submission_invalid:
  "blank d \<or> blank t \<or> blank a \<Longrightarrow> \<exists>m. record_submission d t a f = (Inl (Exn RunContinuityError m), f)"
  by (auto simp: record_submission_def validate_submission_def)

lemma logical_run_eq:
  "readable f \<Longrightarrow> logical_run d t f =
     (case thread_record f d t of
        None \<Rightarrow> (Inl (Exn UnknownThread (''no recorded submission for '' @ d @ ''/'' @ t)), f)
      | Some rec \<Rightarrow> (Inr rec, f))"
  by (simp add: logical_run_def thread_record_def split: option.splits)

lemma logical_run_state [simp]: "snd (logical_run d t f) = f"
  by (auto simp: logical_run_def split: sum.splits option.splits)

text \<open>Submissions on one Thread, one after the other.\<close>

fun submit_all :: "string \<Rightarrow> string \<Rightarrow> string list \<Rightarrow> continuity_file \<Rightarrow> continuity_file" where
  "submit_all d t [] f = f"
| "submit_all d t (a # as) f = submit_all d t as (snd (record_submission d t a f))"

lemma record_submission_inv:
  assumes "continuity_inv f"
  shows "continuity_inv (snd (record_submission d t a f))"
proof (cases "\<not> blank d \<and> \<not> blank t \<and> \<not> blank a")
  case True
  with record_submission_eq [OF assms] show ?thesis by (metis snd_conv)
next
  case False
  with record_submission_invalid [of d t a f] assms show ?thesis by auto
qed

lemma submit_all_record:
  assumes "continuity_inv f" "thread_record f d t = Some rec" "\<not> blank d" "\<not> blank t"
    "\<forall>a \<in> set as. \<not> blank a"
  shows "\<exists>rec'. thread_record (submit_all d t as f) d t = Some rec' \<and> logical_id rec' = logical_id rec \<and>
     set (api_run_ids rec') = set (api_run_ids rec) \<union> set as \<and> continuity_inv (submit_all d t as f)"
  using assms
proof (induction as arbitrary: f rec)
  case (Cons a as)
  have "\<not> blank a" using Cons.prems(5) by simp
  from record_submission_eq [OF Cons.prems(1,3,4) this] obtain f' where
    f': "record_submission d t a f = (Inr (logical_id (extended (thread_record f d t) a)), f')"
    "continuity_inv f'" "thread_record f' d t = Some (extended (thread_record f d t) a)" by metis
  have ext: "logical_id (extended (thread_record f d t) a) = logical_id rec"
    "set (api_run_ids (extended (thread_record f d t) a)) = insert a (set (api_run_ids rec))"
    by (auto simp: extended_def Cons.prems(2))
  from Cons.IH [OF f'(2,3) Cons.prems(3,4)] Cons.prems(5) f'(1) ext show ?case by simp
qed simp

section \<open>Properties\<close>

text \<open>
  C28. The logical Run of a Thread is its first submission for ever: after the first submission and any
  further ones on the Thread, the lookup returns the first API Run ID as the logical Run, and the
  Thread lists each submitted ID once, the first one first.
\<close>

theorem logical_run_is_first_submission:
  assumes "continuity_inv f" and "thread_record f d t = None"
    and "\<not> blank d" and "\<not> blank t" and "\<not> blank a" and "\<forall>x \<in> set as. \<not> blank x"
  shows "\<exists>rec. fst (logical_run d t (submit_all d t (a # as) f)) = Inr rec \<and> logical_id rec = a \<and>
    hd (api_run_ids rec) = a \<and> distinct (api_run_ids rec) \<and> set (api_run_ids rec) = insert a (set as)"
proof -
  from record_submission_eq [OF assms(1,3,4,5)] obtain f1 where
    f1: "record_submission d t a f = (Inr (logical_id (extended (thread_record f d t) a)), f1)"
    "continuity_inv f1" "thread_record f1 d t = Some (extended (thread_record f d t) a)" by metis
  have new: "extended (thread_record f d t) a = \<lparr>logical_id = a, api_run_ids = [a]\<rparr>"
    using assms(2) by (simp add: extended_def)
  from submit_all_record [OF f1(2) f1(3) assms(3,4,6)] obtain rec where
    rec: "thread_record (submit_all d t as f1) d t = Some rec" "logical_id rec = a"
    "set (api_run_ids rec) = {a} \<union> set as" "continuity_inv (submit_all d t as f1)"
    using new by auto
  then have "continuity_ok rec" "readable (submit_all d t as f1)"
    by (auto simp: continuity_inv_def)
  with rec show ?thesis
    using f1(1) by (simp add: logical_run_eq continuity_ok_def)
qed

theorem logical_run_is_first_submission_witness:
  "\<exists>rec. fst (logical_run ''d'' ''t'' (submit_all ''d'' ''t'' [''r1'', ''r2'', ''r1''] Absent)) = Inr rec \<and>
     logical_id rec = ''r1'' \<and> set (api_run_ids rec) = {''r1'', ''r2''}"
  using logical_run_is_first_submission [OF continuity_inv_Absent, of "''d''" "''t''" "''r1''" "[''r2'', ''r1'']"]
  by (force simp: thread_record_def blank_def py_space_def Let_def)

end
