(* ===== verification/Approval_Expiry.thy ===== *)
theory Approval_Expiry
  imports Claims
begin

text \<open>
  \<^verbatim>\<open>approval_expiry.py\<close>: the reminder and timeout clock of a waiting approval and its one durable
  disposition, \<^verbatim>\<open>.cordboard/approval_expiry.json\<close>. The store has no file lock; the callable
  \<^verbatim>\<open>halt\<close> of \<^verbatim>\<open>resolve_timed_out\<close> is a program on the same store and on an outside state, so
  that what another process writes while the halt runs is covered.
\<close>

record approval =
  ap_run_id :: string
  waiting_since :: seconds
  reminder_at :: seconds
  timeout_at :: seconds
  reminded :: bool
  reminded_at :: "seconds option"
  disposition :: "string option"
  ap_resolved_at :: "seconds option"

type_synonym expiry_file = "approval dict dict store_file"

datatype expiry_status = WAITING | REMINDER_DUE | TIMEOUT_DUE | RESOLVED

definition AP_RESUMED :: string where "AP_RESUMED = ''resumed''"

definition AP_HALTED :: string where "AP_HALTED = ''halted''"

definition load_approval_expiry :: "expiry_file \<Rightarrow> exn + approval dict dict" where
  "load_approval_expiry f = load_file ApprovalExpiryError ''approval expiry file'' ''a JSON object'' f"

definition validate_approval :: "string \<Rightarrow> string \<Rightarrow> string \<Rightarrow> exn + unit" where
  "validate_approval deployment thread_id run_id =
     (if blank deployment then Inl (Exn ApprovalExpiryError ''deployment alias must be a non-empty string'')
      else if blank thread_id then Inl (Exn ApprovalExpiryError ''thread ID must be a non-empty string'')
      else if blank run_id then Inl (Exn ApprovalExpiryError ''run ID must be a non-empty string'')
      else Inr ())"

definition unknown_approval :: "string \<Rightarrow> string \<Rightarrow> ('s, 'a) prog" where
  "unknown_approval d t = throw UnknownWaitingApproval (''no waiting approval recorded for '' @ d @ ''/'' @ t)"

definition require_approval :: "string \<Rightarrow> string \<Rightarrow> (expiry_file, approval) prog" where
  "require_approval deployment thread_id =
     andthen (reading load_approval_expiry) (\<lambda>data.
       case lookup2 data deployment thread_id of
         None \<Rightarrow> unknown_approval deployment thread_id
       | Some rec \<Rightarrow> ret rec)"

definition record_waiting ::
  "string \<Rightarrow> string \<Rightarrow> string \<Rightarrow> seconds \<Rightarrow> seconds \<Rightarrow> seconds \<Rightarrow> (expiry_file, approval) prog" where
  "record_waiting deployment thread_id run_id now reminder_after timeout_after =
     andthen (attempt (validate_approval deployment thread_id run_id)) (\<lambda>_.
       if timeout_after < reminder_after
       then throw ApprovalExpiryError ''timeout_after must not be shorter than reminder_after''
       else andthen (reading load_approval_expiry) (\<lambda>data.
         case lookup2 data deployment thread_id of
           Some rec \<Rightarrow> ret rec
         | None \<Rightarrow>
             let rec = \<lparr>ap_run_id = run_id, waiting_since = now, reminder_at = now + reminder_after,
                        timeout_at = now + timeout_after, reminded = False, reminded_at = None,
                        disposition = None, ap_resolved_at = None\<rparr>
             in andthen (write_atomic2 (update2 deployment thread_id rec data)) (\<lambda>_. ret rec)))"

definition evaluate :: "string \<Rightarrow> string \<Rightarrow> seconds \<Rightarrow> (expiry_file, expiry_status) prog" where
  "evaluate deployment thread_id now =
     andthen (require_approval deployment thread_id) (\<lambda>rec.
       ret (if disposition rec \<noteq> None then RESOLVED
            else if timeout_at rec \<le> now then TIMEOUT_DUE
            else if reminder_at rec \<le> now then REMINDER_DUE
            else WAITING))"

definition mark_reminded :: "string \<Rightarrow> string \<Rightarrow> seconds \<Rightarrow> (expiry_file, approval) prog" where
  "mark_reminded deployment thread_id now =
     andthen (reading load_approval_expiry) (\<lambda>data.
       case lookup2 data deployment thread_id of
         None \<Rightarrow> unknown_approval deployment thread_id
       | Some rec \<Rightarrow>
           if \<not> reminded rec \<and> disposition rec = None
           then let rec' = rec\<lparr>reminded := True, reminded_at := Some now\<rparr>
                in andthen (write_atomic2 (update2 deployment thread_id rec' data)) (\<lambda>_. ret rec')
           else ret rec)"

definition dispose :: "string \<Rightarrow> string \<Rightarrow> string \<Rightarrow> seconds \<Rightarrow> (expiry_file, approval) prog" where
  "dispose deployment thread_id disp now =
     andthen (reading load_approval_expiry) (\<lambda>data.
       case lookup2 data deployment thread_id of
         None \<Rightarrow> unknown_approval deployment thread_id
       | Some rec \<Rightarrow>
           if disposition rec = None
           then let rec' = rec\<lparr>disposition := Some disp, ap_resolved_at := Some now\<rparr>
                in andthen (write_atomic2 (update2 deployment thread_id rec' data)) (\<lambda>_. ret rec')
           else ret rec)"

definition resolve_approved :: "string \<Rightarrow> string \<Rightarrow> seconds \<Rightarrow> (expiry_file, approval) prog" where
  "resolve_approved deployment thread_id now = dispose deployment thread_id AP_RESUMED now"

definition on_expiry :: "(expiry_file, 'a) prog \<Rightarrow> (expiry_file \<times> 'w, 'a) prog" where
  "on_expiry m = zoom fst (\<lambda>f w. (f, snd w)) m"

definition resolve_timed_out ::
  "string \<Rightarrow> string \<Rightarrow> seconds \<Rightarrow> (expiry_file \<times> 'w, unit) prog \<Rightarrow> (expiry_file \<times> 'w, approval) prog" where
  "resolve_timed_out deployment thread_id now halt =
     andthen (on_expiry (require_approval deployment thread_id)) (\<lambda>rec.
       if disposition rec \<noteq> None then ret rec
       else andthen halt (\<lambda>_. on_expiry (dispose deployment thread_id AP_HALTED now)))"

section \<open>What the operations do\<close>

definition approval_record :: "expiry_file \<Rightarrow> string \<times> string \<Rightarrow> approval option" where
  "approval_record f k = lookup2 (content f) (fst k) (snd k)"

definition disposition_of :: "expiry_file \<Rightarrow> string \<times> string \<Rightarrow> string option option" where
  "disposition_of f k = map_option disposition (approval_record f k)"

lemma load_approval_expiry_readable [simp]: "readable f \<Longrightarrow> load_approval_expiry f = Inr (content f)"
  by (simp add: load_approval_expiry_def)

lemma unknown_approval_app [simp]:
  "unknown_approval d t s = (Inl (Exn UnknownWaitingApproval (''no waiting approval recorded for '' @ d @ ''/'' @ t)), s)"
  by (simp add: unknown_approval_def)

lemma require_approval_eq:
  "readable f \<Longrightarrow> require_approval d t f =
     (case approval_record f (d, t) of None \<Rightarrow> unknown_approval d t f | Some rec \<Rightarrow> (Inr rec, f))"
  by (simp add: require_approval_def approval_record_def split: option.splits)

lemma evaluate_eq:
  "readable f \<Longrightarrow> evaluate d t now f =
     (case approval_record f (d, t) of
        None \<Rightarrow> (Inl (Exn UnknownWaitingApproval (''no waiting approval recorded for '' @ d @ ''/'' @ t)), f)
      | Some rec \<Rightarrow>
          (Inr (if disposition rec \<noteq> None then RESOLVED else if timeout_at rec \<le> now then TIMEOUT_DUE
                else if reminder_at rec \<le> now then REMINDER_DUE else WAITING), f))"
  by (simp add: evaluate_def andthen_def require_approval_eq split: option.splits)

lemma approval_record_write [simp]:
  "approval_record (Holds (sorted_keys (map (\<lambda>(k, e). (k, sorted_keys e)) (update2 d t v data)))) =
     (approval_record (Holds data))((d, t) \<mapsto> v)"
  by (auto simp: approval_record_def fun_eq_iff)

lemma approval_record_content [simp]: "approval_record (Holds (content f)) = approval_record f"
  by (simp add: approval_record_def fun_eq_iff)

lemma dispose_eq:
  assumes "nested_ok f" "approval_record f (d, t) = Some rec"
  obtains f' where
    "dispose d t v now f = (Inr (if disposition rec = None
        then rec\<lparr>disposition := Some v, ap_resolved_at := Some now\<rparr> else rec), f')"
    "nested_ok f'"
    "approval_record f' = (approval_record f)((d, t) \<mapsto>
       (if disposition rec = None then rec\<lparr>disposition := Some v, ap_resolved_at := Some now\<rparr> else rec))"
proof (cases "disposition rec = None")
  case True
  let ?rec = "rec\<lparr>disposition := Some v, ap_resolved_at := Some now\<rparr>"
  show thesis
    using assms True nested_ok_write [OF assms(1), of d t ?rec]
    by (intro that [of "Holds (sorted_keys (map (\<lambda>(k, e). (k, sorted_keys e)) (update2 d t ?rec (content f))))"])
      (auto simp: dispose_def approval_record_def [of f] Let_def)
next
  case False
  then show thesis
    using assms
    by (intro that [of f]) (auto simp: dispose_def approval_record_def fun_eq_iff)
qed

lemma dispose_unknown:
  "readable f \<Longrightarrow> approval_record f (d, t) = None \<Longrightarrow> dispose d t v now f = unknown_approval d t f"
  by (simp add: dispose_def approval_record_def)

interpretation disp: first_writer nested_ok "\<lambda>_. True" disposition_of
    "\<lambda>k v. dispose (fst k) (snd k) v now" disposition for now
proof (unfold_locales, goal_cases)
  case (1 f v k old)
  obtain d t where k: "k = (d, t)" by (cases k)
  from 1 obtain rec where rec: "approval_record f (d, t) = Some rec" "disposition rec = old"
    by (auto simp: disposition_of_def k)
  from dispose_eq [OF 1(1) rec(1), of v now] obtain f' where
    "dispose d t v now f = (Inr (if disposition rec = None
        then rec\<lparr>disposition := Some v, ap_resolved_at := Some now\<rparr> else rec), f')" "nested_ok f'"
    "approval_record f' = (approval_record f)((d, t) \<mapsto>
       (if disposition rec = None then rec\<lparr>disposition := Some v, ap_resolved_at := Some now\<rparr> else rec))" .
  then show ?case using rec
    by (auto simp: k disposition_of_def fun_eq_iff split: option.splits)
next
  case (2 f v k)
  then show ?case
    using dispose_unknown [of f "fst k" "snd k" v now] by (auto simp: disposition_of_def)
qed

section \<open>Properties\<close>

text \<open>
  The clock of a waiting approval starts once. The first observation fixes its reminder and timeout;
  a later observation, at any time and with any intervals, returns the same record and changes nothing.
\<close>

theorem waiting_clock_starts_once:
  assumes "nested_ok f" and "approval_record f (d, t) = None"
    and "\<not> blank d" and "\<not> blank t" and "\<not> blank r" and "\<not> blank r'" and "ra \<le> ta" and "ra' \<le> ta'"
  shows "\<exists>f1. record_waiting d t r now ra ta f =
      (Inr \<lparr>ap_run_id = r, waiting_since = now, reminder_at = now + ra, timeout_at = now + ta,
            reminded = False, reminded_at = None, disposition = None, ap_resolved_at = None\<rparr>, f1) \<and>
    record_waiting d t r' now' ra' ta' f1 =
      (Inr \<lparr>ap_run_id = r, waiting_since = now, reminder_at = now + ra, timeout_at = now + ta,
            reminded = False, reminded_at = None, disposition = None, ap_resolved_at = None\<rparr>, f1)"
  using assms
  by (auto simp: record_waiting_def validate_approval_def approval_record_def Let_def)

theorem waiting_clock_starts_once_witness:
  "\<exists>f1. record_waiting ''d'' ''t'' ''r'' 0 5 9 Absent =
      (Inr \<lparr>ap_run_id = ''r'', waiting_since = 0, reminder_at = 5, timeout_at = 9,
            reminded = False, reminded_at = None, disposition = None, ap_resolved_at = None\<rparr>, f1) \<and>
    fst (record_waiting ''d'' ''t'' ''s'' 7 1 1 f1) =
      Inr \<lparr>ap_run_id = ''r'', waiting_since = 0, reminder_at = 5, timeout_at = 9,
            reminded = False, reminded_at = None, disposition = None, ap_resolved_at = None\<rparr>"
  using waiting_clock_starts_once [of Absent "''d''" "''t''" "''r''" "''s''" 5 9 1 1 0 7]
  by (auto simp: approval_record_def blank_def py_space_def Let_def)

text \<open>
  An undecided approval goes through its schedule in order: waiting before its reminder time,
  reminder due until its timeout, timeout due from then on; a decided one is resolved at every time.
\<close>

theorem approval_schedule:
  assumes "nested_ok f" and "approval_record f (d, t) = Some rec"
  shows "\<exists>st. evaluate d t now f = (Inr st, f) \<and>
    (st = RESOLVED \<longleftrightarrow> disposition rec \<noteq> None) \<and>
    (disposition rec = None \<longrightarrow>
       (st = TIMEOUT_DUE \<longleftrightarrow> timeout_at rec \<le> now) \<and>
       (reminder_at rec \<le> timeout_at rec \<longrightarrow> (st = WAITING \<longleftrightarrow> now < reminder_at rec)))"
  using assms evaluate_eq [of f d t now] by auto

theorem approval_schedule_witness:
  "\<exists>f1. fst (evaluate ''d'' ''t'' 6 f1) = Inr REMINDER_DUE"
proof -
  let ?rec = "\<lparr>ap_run_id = ''r'', waiting_since = 0, reminder_at = 5, timeout_at = 9,
            reminded = False, reminded_at = None, disposition = None, ap_resolved_at = None\<rparr>"
  let ?f = "Holds [(''d'', [(''t'', ?rec)])]"
  have "nested_ok ?f" "approval_record ?f (''d'', ''t'') = Some ?rec"
    by (simp_all add: nested_ok_def file_ok_def dict_ok_def approval_record_def lookup2_def)
  from approval_schedule [OF this, of 6] obtain st where
    "evaluate ''d'' ''t'' 6 ?f = (Inr st, ?f)" "st \<noteq> RESOLVED" "st \<noteq> TIMEOUT_DUE" "st \<noteq> WAITING" by auto
  then show ?thesis by (intro exI [of _ ?f]) (cases st; simp)
qed

text \<open>
  C38. A timeout never halts a resolved approval (the halt callable is not run and nothing changes), and
  it never overwrites a disposition another process recorded while the halt was running: what the
  store holds when the halt returns wins, and only an undecided record becomes \<open>halted\<close>.
\<close>

theorem timeout_respects_disposition:
  assumes "nested_ok f" and "approval_record f (d, t) = Some rec"
    and "halt (f, w) = (Inr (), (f', w'))" and "nested_ok f'" and "approval_record f' (d, t) = Some rec'"
  shows "if disposition rec \<noteq> None then resolve_timed_out d t now halt (f, w) = (Inr rec, (f, w))
    else \<exists>out f''. resolve_timed_out d t now halt (f, w) = (Inr out, (f'', w')) \<and>
      disposition_of f'' (d, t) = Some (Some (case disposition rec' of None \<Rightarrow> AP_HALTED | Some v \<Rightarrow> v))"
proof -
  have req: "require_approval d t f = (Inr rec, f)"
    using assms(1,2) by (auto simp: require_approval_eq)
  have step: "resolve_timed_out d t now halt (f, w) =
      (if disposition rec \<noteq> None then (Inr rec, (f, w))
       else (case dispose d t AP_HALTED now f' of (r, f'') \<Rightarrow> (r, (f'', w'))))"
    by (simp add: resolve_timed_out_def on_expiry_def andthen_def zoom_def req assms(3))
  from dispose_eq [OF assms(4,5), of AP_HALTED now] obtain f'' out where
    d: "dispose d t AP_HALTED now f' = (Inr out, f'')"
    and r: "approval_record f'' = (approval_record f')((d, t) \<mapsto>
       (if disposition rec' = None then rec'\<lparr>disposition := Some AP_HALTED, ap_resolved_at := Some now\<rparr> else rec'))"
    by metis
  have "disposition_of f'' (d, t) = Some (Some (case disposition rec' of None \<Rightarrow> AP_HALTED | Some v \<Rightarrow> v))"
    by (auto simp: disposition_of_def r split: option.splits)
  with step d show ?thesis by auto
qed

definition demo_approval :: approval where
  "demo_approval = \<lparr>ap_run_id = ''r'', waiting_since = 0, reminder_at = 5, timeout_at = 9,
     reminded = False, reminded_at = None, disposition = None, ap_resolved_at = None\<rparr>"

definition demo_expiry :: "string option \<Rightarrow> expiry_file" where
  "demo_expiry out = Holds [(''d'', [(''t'', demo_approval\<lparr>disposition := out\<rparr>)])]"

theorem timeout_respects_disposition_witness:
  "\<exists>out f''. resolve_timed_out ''d'' ''t'' 10 (\<lambda>(f, w :: nat). (Inr (), (demo_expiry (Some AP_RESUMED), w)))
      (demo_expiry None, 0) = (Inr out, (f'', 0)) \<and> disposition_of f'' (''d'', ''t'') = Some (Some AP_RESUMED)"
proof -
  have ok: "nested_ok (demo_expiry out)" for out
    by (simp add: demo_expiry_def nested_ok_def file_ok_def dict_ok_def)
  have rec: "approval_record (demo_expiry out) (''d'', ''t'') = Some (demo_approval\<lparr>disposition := out\<rparr>)" for out
    by (simp add: demo_expiry_def approval_record_def lookup2_def)
  show ?thesis
    using timeout_respects_disposition [OF ok rec [of None] _ ok rec [of "Some AP_RESUMED"],
        of "\<lambda>(f, w :: nat). (Inr (), (demo_expiry (Some AP_RESUMED), w))" 0 0 10]
    by simp
qed

end
