(* ===== verification/Pending_Completions.thy ===== *)
theory Pending_Completions
  imports Json
begin

text \<open>
  \<^verbatim>\<open>pending_completions.py\<close>: the outstanding invocation of a (Deployment, Thread) whose completion
  outlives the call that submitted it, \<^verbatim>\<open>.cordboard/pending_completions.json\<close>.
\<close>

record pending =
  p_deployment :: string
  p_thread_id :: string
  p_invocation_id :: string
  p_assistant :: string
  p_subject :: string
  p_cascade_depth :: int
  p_concurrency_held :: bool
  p_deployment_held :: bool
  p_recorded_at :: seconds

type_synonym pending_file = "pending dict store_file"

definition load_pending :: "pending_file \<Rightarrow> exn + pending dict" where
  "load_pending f = load_file PendingCompletionError ''pending completions file'' ''a JSON object'' f"

definition pending_key :: "string \<Rightarrow> string \<Rightarrow> exn + string" where
  "pending_key deployment thread_id =
     (if blank deployment then Inl (Exn PendingCompletionError ''deployment alias must be a non-empty string'')
      else if blank thread_id then Inl (Exn PendingCompletionError ''thread ID must be a non-empty string'')
      else Inr (dumps_strs [deployment, thread_id]))"

definition record_pending ::
  "string \<Rightarrow> string \<Rightarrow> string \<Rightarrow> string \<Rightarrow> string \<Rightarrow> int \<Rightarrow> bool \<Rightarrow> bool \<Rightarrow> seconds \<Rightarrow> (pending_file, unit) prog" where
  "record_pending deployment thread_id invocation_id assistant subject cascade_depth
       concurrency_held deployment_held now =
     (if blank deployment then throw PendingCompletionError ''deployment alias must be a non-empty string''
      else if blank thread_id then throw PendingCompletionError ''thread ID must be a non-empty string''
      else if blank invocation_id then throw PendingCompletionError ''invocation ID must be a non-empty string''
      else if blank assistant then throw PendingCompletionError ''assistant must be a non-empty string''
      else if blank subject then throw PendingCompletionError ''subject must be a non-empty string''
      else if cascade_depth < 0 then throw PendingCompletionError ''cascade_depth must be a non-negative integer''
      else andthen (reading load_pending) (\<lambda>data.
           andthen (attempt (pending_key deployment thread_id)) (\<lambda>key.
             write_atomic (AList.update key
               \<lparr>p_deployment = deployment, p_thread_id = thread_id, p_invocation_id = invocation_id,
                p_assistant = assistant, p_subject = subject, p_cascade_depth = cascade_depth,
                p_concurrency_held = concurrency_held, p_deployment_held = deployment_held,
                p_recorded_at = now\<rparr> data))))"

definition update_pending ::
  "string \<Rightarrow> string \<Rightarrow> string option \<Rightarrow> bool option \<Rightarrow> bool option \<Rightarrow> seconds \<Rightarrow> (pending_file, pending option) prog" where
  "update_pending deployment thread_id invocation_id concurrency_held deployment_held now =
     andthen (reading load_pending) (\<lambda>data.
     andthen (attempt (pending_key deployment thread_id)) (\<lambda>key.
       case map_of data key of
         None \<Rightarrow> ret None
       | Some rec \<Rightarrow>
           let rec1 = (case invocation_id of None \<Rightarrow> rec | Some i \<Rightarrow> rec\<lparr>p_invocation_id := i\<rparr>);
               rec2 = (case concurrency_held of None \<Rightarrow> rec1 | Some b \<Rightarrow> rec1\<lparr>p_concurrency_held := b\<rparr>);
               rec3 = (case deployment_held of None \<Rightarrow> rec2 | Some b \<Rightarrow> rec2\<lparr>p_deployment_held := b\<rparr>);
               rec4 = rec3\<lparr>p_recorded_at := now\<rparr>
           in andthen (write_atomic (AList.update key rec4 data)) (\<lambda>_. ret (Some rec4))))"

definition get_pending :: "string \<Rightarrow> string \<Rightarrow> (pending_file, pending option) prog" where
  "get_pending deployment thread_id =
     andthen (reading load_pending) (\<lambda>data.
     andthen (attempt (pending_key deployment thread_id)) (\<lambda>key. ret (map_of data key)))"

definition resolve_pending :: "string \<Rightarrow> string \<Rightarrow> (pending_file, pending option) prog" where
  "resolve_pending deployment thread_id =
     andthen (reading load_pending) (\<lambda>data.
     andthen (attempt (pending_key deployment thread_id)) (\<lambda>key.
       case map_of data key of
         None \<Rightarrow> ret None
       | Some rec \<Rightarrow> andthen (write_atomic (AList.delete key data)) (\<lambda>_. ret (Some rec))))"

section \<open>What the operations do\<close>

definition pending_entry :: "pending_file \<Rightarrow> string \<Rightarrow> string \<Rightarrow> pending option" where
  "pending_entry f d t = map_of (content f) (dumps_strs [d, t])"

text \<open>Every entry stands under the key of its own (Deployment, Thread) and its fields are usable.\<close>

definition pending_rec_ok :: "pending \<Rightarrow> bool" where
  "pending_rec_ok rec =
     (\<not> blank (p_deployment rec) \<and> \<not> blank (p_thread_id rec) \<and> \<not> blank (p_invocation_id rec) \<and>
      \<not> blank (p_assistant rec) \<and> \<not> blank (p_subject rec) \<and> 0 \<le> p_cascade_depth rec)"

definition pending_inv :: "pending_file \<Rightarrow> bool" where
  "pending_inv f = (file_ok f \<and> (\<forall>k rec. map_of (content f) k = Some rec \<longrightarrow>
     k = dumps_strs [p_deployment rec, p_thread_id rec] \<and> pending_rec_ok rec))"

lemma load_pending_readable [simp]: "readable f \<Longrightarrow> load_pending f = Inr (content f)"
  by (simp add: load_pending_def)

lemma pending_key_ok [simp]: "\<not> blank d \<Longrightarrow> \<not> blank t \<Longrightarrow> pending_key d t = Inr (dumps_strs [d, t])"
  by (simp add: pending_key_def)

lemma pending_key_Inr: "pending_key d t = Inr k \<longleftrightarrow> \<not> blank d \<and> \<not> blank t \<and> k = dumps_strs [d, t]"
  by (auto simp: pending_key_def)

lemma pending_inv_Absent: "pending_inv Absent"
  by (simp add: pending_inv_def)

lemma pending_inv_update:
  assumes "pending_inv f" "pending_rec_ok rec" "k = dumps_strs [p_deployment rec, p_thread_id rec]"
  shows "pending_inv (Holds (sorted_keys (AList.update k rec (content f))))"
  using assms by (auto simp: pending_inv_def file_ok_def update_conv')

lemma pending_inv_delete:
  "pending_inv f \<Longrightarrow> pending_inv (Holds (sorted_keys (AList.delete k (content f))))"
  by (auto simp: pending_inv_def file_ok_def delete_conv')

lemma record_pending_Inr:
  "readable f \<Longrightarrow> fst (record_pending d t i a s n ch dh now f) = Inr () \<longleftrightarrow>
     \<not> blank d \<and> \<not> blank t \<and> \<not> blank i \<and> \<not> blank a \<and> \<not> blank s \<and> 0 \<le> n"
  by (auto simp: record_pending_def)

lemma record_pending_eq:
  assumes "readable f" "\<not> blank d" "\<not> blank t" "\<not> blank i" "\<not> blank a" "\<not> blank s" "0 \<le> n"
  shows "record_pending d t i a s n ch dh now f =
    (Inr (), Holds (sorted_keys (AList.update (dumps_strs [d, t])
       \<lparr>p_deployment = d, p_thread_id = t, p_invocation_id = i, p_assistant = a, p_subject = s,
        p_cascade_depth = n, p_concurrency_held = ch, p_deployment_held = dh, p_recorded_at = now\<rparr>
       (content f))))"
  using assms by (simp add: record_pending_def)

lemma record_pending_inv: "pending_inv f \<Longrightarrow> pending_inv (snd (record_pending d t i a s n ch dh now f))"
proof (cases "fst (record_pending d t i a s n ch dh now f) = Inr ()")
  case True
  assume inv: "pending_inv f"
  then have rd: "readable f" by (auto simp: pending_inv_def)
  from True record_pending_Inr [OF rd] have
    v: "\<not> blank d" "\<not> blank t" "\<not> blank i" "\<not> blank a" "\<not> blank s" "0 \<le> n" by auto
  show ?thesis
    unfolding record_pending_eq [OF rd v]
    using inv v by (auto intro!: pending_inv_update simp: pending_rec_ok_def)
next
  case False
  assume inv: "pending_inv f"
  then have rd: "readable f" by (auto simp: pending_inv_def)
  with False have "snd (record_pending d t i a s n ch dh now f) = f"
    by (auto simp: record_pending_def split: if_splits)
  with inv show ?thesis by simp
qed

lemma resolve_pending_eq:
  "readable f \<Longrightarrow> \<not> blank d \<Longrightarrow> \<not> blank t \<Longrightarrow>
   resolve_pending d t f =
     (Inr (pending_entry f d t),
      if pending_entry f d t = None then f
      else Holds (sorted_keys (AList.delete (dumps_strs [d, t]) (content f))))"
  by (auto simp: resolve_pending_def pending_entry_def split: option.splits)

lemma get_pending_eq:
  "readable f \<Longrightarrow> \<not> blank d \<Longrightarrow> \<not> blank t \<Longrightarrow> get_pending d t f = (Inr (pending_entry f d t), f)"
  by (simp add: get_pending_def pending_entry_def)

lemma resolve_pending_inv: "pending_inv f \<Longrightarrow> pending_inv (snd (resolve_pending d t f))"
proof -
  assume inv: "pending_inv f"
  then have rd: "readable f" by (auto simp: pending_inv_def)
  show ?thesis
    using inv rd pending_inv_delete [OF inv]
    by (cases "pending_key d t") (auto simp: resolve_pending_def split: option.splits)
qed

lemma update_pending_inv:
  assumes inv: "pending_inv f" and i: "\<And>j. i = Some j \<Longrightarrow> \<not> blank j"
  shows "pending_inv (snd (update_pending d t i ch dh now f))"
proof (cases "pending_key d t")
  case (Inl e)
  have rd: "readable f" using inv by (auto simp: pending_inv_def)
  then show ?thesis using Inl inv by (simp add: update_pending_def)
next
  case (Inr k)
  have rd: "readable f" using inv by (auto simp: pending_inv_def)
  show ?thesis
  proof (cases "map_of (content f) k")
    case None
    then show ?thesis using Inr rd inv by (simp add: update_pending_def)
  next
    case (Some rec)
    have ok: "k = dumps_strs [p_deployment rec, p_thread_id rec]" "pending_rec_ok rec"
      using inv Some by (auto simp: pending_inv_def)
    show ?thesis
      using ok i Inr rd Some inv
      by (auto simp: update_pending_def Let_def pending_rec_ok_def split: option.splits
          intro!: pending_inv_update)
  qed
qed

section \<open>Properties\<close>

text \<open>
  A tracked invocation is found again: what \<^verbatim>\<open>record_pending\<close> stored for a (Deployment,
  Thread) is what \<^verbatim>\<open>get_pending\<close> returns, every other entry is as before, and the key of every
  entry decodes to the Deployment and Thread of its record, as \<^verbatim>\<open>sweep_pending\<close> reads it.
\<close>

theorem pending_found_again:
  assumes "pending_inv f" and "\<not> blank d" and "\<not> blank t" and "\<not> blank i" and "\<not> blank a" and "\<not> blank s"
    and "0 \<le> n"
  shows "\<exists>f1. record_pending d t i a s n ch dh now f = (Inr (), f1) \<and>
    get_pending d t f1 = (Inr (Some \<lparr>p_deployment = d, p_thread_id = t, p_invocation_id = i,
      p_assistant = a, p_subject = s, p_cascade_depth = n, p_concurrency_held = ch,
      p_deployment_held = dh, p_recorded_at = now\<rparr>), f1) \<and>
    (\<forall>d' t'. (d', t') \<noteq> (d, t) \<longrightarrow> pending_entry f1 d' t' = pending_entry f d' t') \<and>
    (\<forall>k rec. map_of (content f1) k = Some rec \<longrightarrow> loads_strs k = Some [p_deployment rec, p_thread_id rec])"
proof -
  have rd: "readable f" using assms(1) by (auto simp: pending_inv_def)
  have inv: "pending_inv (snd (record_pending d t i a s n ch dh now f))"
    by (rule record_pending_inv [OF assms(1)])
  have keys: "loads_strs k = Some [p_deployment rec, p_thread_id rec]"
    if "map_of (content (snd (record_pending d t i a s n ch dh now f))) k = Some rec" for k rec
  proof -
    have "k = dumps_strs [p_deployment rec, p_thread_id rec]"
      using inv that unfolding pending_inv_def by blast
    then show ?thesis by (simp only: loads_dumps_strs)
  qed
  let ?f1 = "snd (record_pending d t i a s n ch dh now f)"
  have "readable ?f1" using inv by (auto simp: pending_inv_def)
  then have "record_pending d t i a s n ch dh now f = (Inr (), ?f1) \<and>
      get_pending d t ?f1 = (Inr (pending_entry ?f1 d t), ?f1)"
    using record_pending_eq [OF rd assms(2-7), of ch dh now] assms(2,3) by (simp add: get_pending_eq)
  moreover have "pending_entry ?f1 d t = Some \<lparr>p_deployment = d, p_thread_id = t, p_invocation_id = i,
      p_assistant = a, p_subject = s, p_cascade_depth = n, p_concurrency_held = ch,
      p_deployment_held = dh, p_recorded_at = now\<rparr> \<and>
    (\<forall>d' t'. (d', t') \<noteq> (d, t) \<longrightarrow> pending_entry ?f1 d' t' = pending_entry f d' t')"
    using record_pending_eq [OF rd assms(2-7), of ch dh now] by (auto simp: pending_entry_def update_conv')
  ultimately show ?thesis using keys by (intro exI [of _ ?f1]) simp
qed

theorem pending_found_again_witness:
  "\<exists>f1. record_pending ''d'' ''t'' ''i'' ''a'' ''s'' 2 True True 7 Absent = (Inr (), f1) \<and>
    map_option p_cascade_depth (pending_entry f1 ''d'' ''t'') = Some 2"
proof -
  from pending_found_again [OF pending_inv_Absent, of "''d''" "''t''" "''i''" "''a''" "''s''" 2 True True 7]
  obtain f1 where f1: "record_pending ''d'' ''t'' ''i'' ''a'' ''s'' 2 True True 7 Absent = (Inr (), f1)"
    "fst (get_pending ''d'' ''t'' f1) = Inr (Some \<lparr>p_deployment = ''d'', p_thread_id = ''t'', p_invocation_id = ''i'',
      p_assistant = ''a'', p_subject = ''s'', p_cascade_depth = 2, p_concurrency_held = True,
      p_deployment_held = True, p_recorded_at = 7\<rparr>)"
    by (auto simp: blank_def py_space_def Let_def)
  have "pending_inv f1" using record_pending_inv [OF pending_inv_Absent] f1(1) by (metis snd_conv)
  then have "readable f1" by (auto simp: pending_inv_def)
  with f1 show ?thesis by (simp add: get_pending_eq blank_def py_space_def Let_def)
qed

text \<open>
  A resolved invocation is gone and nothing else is: resolving returns the entry once, a second
  resolution and a lookup find nothing, and the invariant of the store survives.
\<close>

theorem pending_resolved_once:
  assumes "pending_inv f" and "\<not> blank d" and "\<not> blank t"
  shows "\<exists>f1. resolve_pending d t f = (Inr (pending_entry f d t), f1) \<and> pending_inv f1 \<and>
    resolve_pending d t f1 = (Inr None, f1) \<and> get_pending d t f1 = (Inr None, f1) \<and>
    (\<forall>d' t'. (d', t') \<noteq> (d, t) \<longrightarrow> pending_entry f1 d' t' = pending_entry f d' t')"
proof -
  have rd: "readable f" using assms(1) by (auto simp: pending_inv_def)
  let ?f1 = "snd (resolve_pending d t f)"
  have inv: "pending_inv ?f1" by (rule resolve_pending_inv [OF assms(1)])
  then have rd1: "readable ?f1" by (auto simp: pending_inv_def)
  have "pending_entry ?f1 d t = None \<and> (\<forall>d' t'. (d', t') \<noteq> (d, t) \<longrightarrow> pending_entry ?f1 d' t' = pending_entry f d' t')"
    using resolve_pending_eq [OF rd assms(2,3)] by (auto simp: pending_entry_def delete_conv')
  with inv rd1 show ?thesis
    using resolve_pending_eq [OF rd assms(2,3)] resolve_pending_eq [OF rd1 assms(2,3)] get_pending_eq [OF rd1 assms(2,3)]
    by auto
qed

theorem pending_resolved_once_witness:
  "\<exists>f1. resolve_pending ''d'' ''t'' (snd (record_pending ''d'' ''t'' ''i'' ''a'' ''s'' 2 True True 7 Absent)) =
      (Inr (Some \<lparr>p_deployment = ''d'', p_thread_id = ''t'', p_invocation_id = ''i'', p_assistant = ''a'',
        p_subject = ''s'', p_cascade_depth = 2, p_concurrency_held = True, p_deployment_held = True,
        p_recorded_at = 7\<rparr>), f1) \<and> fst (resolve_pending ''d'' ''t'' f1) = Inr None"
  using pending_resolved_once [OF record_pending_inv [OF pending_inv_Absent], of "''d''" "''t''" "''d''" "''t''" "''i''"
      "''a''" "''s''" 2 True True 7]
  by (auto simp: record_pending_def load_pending_def load_file_def pending_entry_def blank_def py_space_def Let_def
      sorted_keys_def)

end
