(* ===== verification/Outside.thy ===== *)
theory Outside
  imports Connections
begin

text \<open>
  What the code reaches outside the board: HTTP servers, child processes and the monotonic clock.
  Their answers are the fields of \<open>env\<close>, arbitrary functions of everything that has happened before;
  what the code did to them is the trace of \<open>outside\<close>, latest first.

  The clock follows the documentation of \<^verbatim>\<open>time.monotonic\<close> (it never goes backwards: a reading adds a
  non-negative amount of the environment's choice) and of \<^verbatim>\<open>time.sleep\<close> (it lasts at least as long
  as asked).
\<close>

datatype request = Request (req_method: string) (req_url: string) (req_body: "json option")

text \<open>
  A \<^verbatim>\<open>requests.Timeout\<close>, another \<^verbatim>\<open>requests.RequestException\<close>, or a response with its status and
  its body when that is JSON.
\<close>

datatype reply = TimedOut | Refused | Reply int "json option"

datatype event =
    Http request
  | Launch string "string list"
  | Terminate string int

record env =
  server :: "event list \<Rightarrow> request \<Rightarrow> reply"
  start_process :: "event list \<Rightarrow> string \<Rightarrow> string list \<Rightarrow> string + int"
  clock_drift :: "nat \<Rightarrow> seconds"
  format_number :: "seconds \<Rightarrow> string"

record outside =
  trace :: "event list"
  mono_now :: seconds
  clock_reads :: nat

definition http :: "env \<Rightarrow> request \<Rightarrow> outside \<Rightarrow> reply \<times> outside" where
  "http e r u = (server e (trace u) r, u\<lparr>trace := Http r # trace u\<rparr>)"

definition monotonic :: "env \<Rightarrow> outside \<Rightarrow> seconds \<times> outside" where
  "monotonic e u =
     (let t = mono_now u + max 0 (clock_drift e (clock_reads u))
      in (t, u\<lparr>mono_now := t, clock_reads := Suc (clock_reads u)\<rparr>))"

definition sleep :: "seconds \<Rightarrow> outside \<Rightarrow> outside" where
  "sleep d u = u\<lparr>mono_now := mono_now u + max 0 d\<rparr>"

lemma http_mono_now [simp]: "mono_now (snd (http e r u)) = mono_now u"
  by (simp add: http_def)

lemma http_trace [simp]: "trace (snd (http e r u)) = Http r # trace u"
  by (simp add: http_def)

lemma monotonic_trace [simp]: "trace (snd (monotonic e u)) = trace u"
  by (simp add: monotonic_def Let_def)

lemma monotonic_ge: "mono_now u \<le> fst (monotonic e u)"
  by (simp add: monotonic_def Let_def)

lemma monotonic_now [simp]: "mono_now (snd (monotonic e u)) = fst (monotonic e u)"
  by (simp add: monotonic_def Let_def)

lemma sleep_trace [simp]: "trace (sleep d u) = trace u"
  by (simp add: sleep_def)

lemma sleep_now [simp]: "mono_now (sleep d u) = mono_now u + max 0 d"
  by (simp add: sleep_def)

text \<open>
  A polling loop that sleeps at least \<open>step\<close> between two looks at the clock runs out of its time
  budget: the measure of the loops of \<^verbatim>\<open>aegra_client\<close>, \<^verbatim>\<open>backends.aegra\<close> and
  \<^verbatim>\<open>deployment_lifecycle\<close>.
\<close>

definition rounds_left :: "seconds \<Rightarrow> seconds \<Rightarrow> outside \<Rightarrow> nat" where
  "rounds_left step deadline u = nat \<lceil>(deadline - mono_now u) / step\<rceil>"

lemma rounds_left_decreases:
  assumes "0 < step" "mono_now u \<le> t" "t < deadline" "t + step \<le> mono_now u'"
  shows "rounds_left step deadline u' < rounds_left step deadline u"
proof -
  have "deadline - mono_now u' \<le> (deadline - mono_now u) - step"
    using assms by simp
  then have "(deadline - mono_now u') / step \<le> ((deadline - mono_now u) - step) / step"
    using assms(1) by (simp add: divide_right_mono)
  then have "(deadline - mono_now u') / step \<le> (deadline - mono_now u) / step - 1"
    using assms(1) by (simp add: diff_divide_distrib)
  then have "\<lceil>(deadline - mono_now u') / step\<rceil> \<le> \<lceil>(deadline - mono_now u) / step\<rceil> - 1"
    by (metis ceiling_diff_one ceiling_mono)
  moreover have "0 < \<lceil>(deadline - mono_now u) / step\<rceil>"
    using assms by (simp add: zero_less_divide_iff)
  ultimately show ?thesis by (simp add: rounds_left_def)
qed

lemma poll_round_decreases:
  assumes "0 < step" "mono_now u1 = mono_now u" "monotonic e u1 = (t, u2)" "\<not> deadline \<le> t"
  shows "rounds_left step deadline (sleep step u2) < rounds_left step deadline u"
proof (rule rounds_left_decreases [OF assms(1), of _ t])
  show "mono_now u \<le> t" using monotonic_ge [of u1 e] assms(2,3) by simp
  show "t < deadline" using assms(4) by simp
  show "t + step \<le> mono_now (sleep step u2)"
    using monotonic_now [of e u1] assms(1,3) by simp
qed

text \<open>The requests of a trace, in the order they were made.\<close>

definition requests :: "outside \<Rightarrow> request list" where
  "requests u = rev (List.map_filter (\<lambda>e. case e of Http r \<Rightarrow> Some r | _ \<Rightarrow> None) (trace u))"

section \<open>Submissions\<close>

text \<open>A POST to \<^verbatim>\<open>.../runs\<close> is what can create an execution.\<close>

definition ends_with :: "string \<Rightarrow> string \<Rightarrow> bool" where
  "ends_with suf s = (drop (length s - length suf) s = suf)"

fun is_submission :: "event \<Rightarrow> bool" where
  "is_submission (Http r) = (req_method r = ''POST'' \<and> ends_with ''/runs'' (req_url r))"
| "is_submission _ = False"

definition submissions :: "outside \<Rightarrow> event list" where
  "submissions u = filter is_submission (trace u)"

lemma ends_with_append [simp]: "ends_with suf (pre @ suf)"
  by (simp add: ends_with_def)

lemma GET_no_submission [simp]: "\<not> is_submission (Http (Request ''GET'' url b))"
  by simp

lemma ends_with_same_length:
  "length suf = length suf' \<Longrightarrow> ends_with suf' (pre @ suf) \<longleftrightarrow> suf = suf'"
  by (simp add: ends_with_def)

lemma submissions_monotonic [simp]: "submissions (snd (monotonic e u)) = submissions u"
  by (simp add: submissions_def)

lemma submissions_sleep [simp]: "submissions (sleep d u) = submissions u"
  by (simp add: submissions_def)

end
