(* ===== verification/Aegra_Client.thy ===== *)
theory Aegra_Client
  imports Outside
begin

text \<open>
  \<^verbatim>\<open>aegra_client.py\<close>: one execution through the public HTTP API of a Deployment. The server is the
  environment's; a submission is a POST to \<^verbatim>\<open>/threads/<id>/runs\<close>, and none is ever repeated.
\<close>

definition api_failed :: string where
  "api_failed = ''Aegra API request failed; check service readiness and input contract''"

definition session_request ::
  "env \<Rightarrow> string \<Rightarrow> string \<Rightarrow> string \<Rightarrow> json option \<Rightarrow> (outside, json) prog" where
  "session_request e ep method path body u =
     (case http e (Request method (rstrip_slash ep @ path) body) u of
        (Reply status (Some j), u') \<Rightarrow>
          if 200 \<le> status \<and> status < 300 then (Inr j, u') else (Inl (Exn PyRuntimeError api_failed), u')
      | (_, u') \<Rightarrow> (Inl (Exn PyRuntimeError api_failed), u'))"

datatype wait_reason = Interrupted | Deadline

datatype exec_status = Success json | Waiting wait_reason

record exec_result =
  er_run_id :: string
  er_thread_id :: string
  er_status :: exec_status

definition runs_path :: "string \<Rightarrow> string" where
  "runs_path thread_id = ''/threads/'' @ thread_id @ ''/runs''"

definition run_path :: "string \<Rightarrow> string \<Rightarrow> string" where
  "run_path thread_id run_id = ''/threads/'' @ thread_id @ ''/runs/'' @ run_id"

definition state_path :: "string \<Rightarrow> string" where
  "state_path thread_id = ''/threads/'' @ thread_id @ ''/state''"

lemma session_request_mono_now [simp]:
  "mono_now (snd (session_request e ep m p b u)) = mono_now u"
  by (auto simp: session_request_def http_def split: reply.splits option.splits prod.splits)

lemma session_request_trace [simp]:
  "trace (snd (session_request e ep m p b u)) = Http (Request m (rstrip_slash ep @ p) b) # trace u"
  by (auto simp: session_request_def http_def split: reply.splits option.splits prod.splits)

lemma session_request_now: "session_request e ep m p b u = (r, u1) \<Longrightarrow> mono_now u1 = mono_now u"
  by (metis session_request_mono_now snd_conv)

lemma session_request_Inl:
  "session_request e ep m p b u = (Inl x, u') \<Longrightarrow> x = Exn PyRuntimeError api_failed"
  by (auto simp: session_request_def http_def split: reply.splits option.splits prod.splits if_splits)

text \<open>
  The loop of \<^verbatim>\<open>_poll_until_settled\<close>, from the deadline the first look at the clock fixed. It ends
  because the clock advances at least a tenth of a second a round.
\<close>

function poll_loop ::
  "env \<Rightarrow> string \<Rightarrow> string \<Rightarrow> string \<Rightarrow> seconds \<Rightarrow> (outside, exec_result) prog" where
  "poll_loop e ep run_id thread_id deadline u =
     (case session_request e ep ''GET'' (run_path thread_id run_id) None u of
        (Inl x, u1) \<Rightarrow> (Inl x, u1)
      | (Inr current, u1) \<Rightarrow>
     (case field current ''status'' of
        Inl x \<Rightarrow> (Inl x, u1)
      | Inr status \<Rightarrow>
          if status = JStr ''success'' then
            (case session_request e ep ''GET'' (state_path thread_id) None u1 of
               (Inl x, u2) \<Rightarrow> (Inl x, u2)
             | (Inr st, u2) \<Rightarrow>
                 (case field st ''values'' of
                    Inl x \<Rightarrow> (Inl x, u2)
                  | Inr values \<Rightarrow>
                      (Inr \<lparr>er_run_id = run_id, er_thread_id = thread_id, er_status = Success values\<rparr>, u2)))
          else if status = JStr ''interrupted'' then
            (Inr \<lparr>er_run_id = run_id, er_thread_id = thread_id, er_status = Waiting Interrupted\<rparr>, u1)
          else if status \<notin> {JStr ''pending'', JStr ''running''} then
            (Inl (Exn PyRuntimeError ''Aegra execution did not succeed; inspect metadata and archive''), u1)
          else
            (let (t, u2) = monotonic e u1 in
             if deadline \<le> t then
               (Inr \<lparr>er_run_id = run_id, er_thread_id = thread_id, er_status = Waiting Deadline\<rparr>, u2)
             else poll_loop e ep run_id thread_id deadline (sleep (1 / 10) u2))))"
  by pat_completeness auto
termination
proof (relation "measure (\<lambda>(e, ep, r, t, deadline, u). rounds_left (1 / 10) deadline u)", goal_cases)
  case (2 e ep run_id thread_id deadline u x u1 current status mt t u2)
  have now: "mono_now u1 = mono_now u"
    by (rule session_request_now [OF 2(1) [symmetric]])
  have mt: "monotonic e u1 = (t, u2)" using 2 by simp
  show ?case
    unfolding in_measure prod.case
    by (rule poll_round_decreases [OF _ now mt]) (use 2 in simp_all)
qed simp

declare poll_loop.simps [simp del]

definition poll_until_settled ::
  "env \<Rightarrow> string \<Rightarrow> string \<Rightarrow> string \<Rightarrow> seconds \<Rightarrow> (outside, exec_result) prog" where
  "poll_until_settled e ep run_id thread_id timeout u =
     (let (t, u1) = monotonic e u in poll_loop e ep run_id thread_id (t + timeout) u1)"

definition execute_configurable :: "string \<Rightarrow> int \<Rightarrow> string option \<Rightarrow> json dict" where
  "execute_configurable subject cascade_depth caused_by =
     [(''cord_subject'', JStr subject), (''cord_cascade_depth'', JInt cascade_depth)] @
     (case caused_by of None \<Rightarrow> [] | Some r \<Rightarrow> [(''cord_caused_by_run_id'', JStr r)])"

definition run_body :: "string \<Rightarrow> json \<Rightarrow> json dict \<Rightarrow> json option \<Rightarrow> json" where
  "run_body assistant graph_input configurable context =
     JObj ([(''assistant_id'', JStr assistant), (''input'', graph_input),
            (''config'', JObj [(''configurable'', JObj configurable)]),
            (''stream_mode'', JArr [JStr ''values''])] @
           (case context of None \<Rightarrow> [] | Some c \<Rightarrow> [(''context'', c)]))"

definition resume_body :: "string \<Rightarrow> json \<Rightarrow> json" where
  "resume_body assistant resume_value =
     JObj [(''assistant_id'', JStr assistant), (''command'', JObj [(''resume'', resume_value)]),
           (''stream_mode'', JArr [JStr ''values''])]"

definition execute ::
  "env \<Rightarrow> string \<Rightarrow> string \<Rightarrow> string \<Rightarrow> json \<Rightarrow> json option \<Rightarrow> seconds \<Rightarrow> string option \<Rightarrow> int \<Rightarrow>
   (outside, exec_result) prog" where
  "execute e ep assistant subject graph_input context timeout caused_by cascade_depth =
     (if blank subject then throw PyValueError ''Subject must be a non-empty string''
      else
      andthen (session_request e ep ''POST'' ''/threads'' (Some (JObj []))) (\<lambda>thread.
      andthen (attempt (str_field thread ''thread_id'')) (\<lambda>thread_id.
      andthen (session_request e ep ''POST'' (runs_path thread_id)
                 (Some (run_body assistant graph_input
                          (execute_configurable subject cascade_depth caused_by) context))) (\<lambda>run.
      andthen (attempt (str_field run ''run_id'')) (\<lambda>run_id.
      poll_until_settled e ep run_id thread_id timeout)))))"

definition resume ::
  "env \<Rightarrow> string \<Rightarrow> string \<Rightarrow> string \<Rightarrow> json \<Rightarrow> seconds \<Rightarrow> (outside, exec_result) prog" where
  "resume e ep thread_id assistant resume_value timeout =
     (if blank thread_id then throw PyValueError ''Thread ID must be a non-empty string''
      else if blank assistant then throw PyValueError ''Assistant must be a non-empty string''
      else
      andthen (session_request e ep ''POST'' (runs_path thread_id)
                 (Some (resume_body assistant resume_value))) (\<lambda>run.
      andthen (attempt (str_field run ''run_id'')) (\<lambda>run_id.
      poll_until_settled e ep run_id thread_id timeout)))"

text \<open>The Run and Thread whose cancellation was requested; the source's status is always \<^verbatim>\<open>halted\<close>.\<close>

definition cancel :: "env \<Rightarrow> string \<Rightarrow> string \<Rightarrow> string \<Rightarrow> (outside, string \<times> string) prog" where
  "cancel e ep thread_id run_id =
     (if blank thread_id then throw PyValueError ''Thread ID must be a non-empty string''
      else if blank run_id then throw PyValueError ''Run ID must be a non-empty string''
      else andthen (session_request e ep ''POST'' (run_path thread_id run_id @ ''/cancel'') None) (\<lambda>_.
        ret (run_id, thread_id)))"

record run_info =
  ri_assistant_id :: string
  ri_status :: json
  ri_subject :: "string option"

text \<open>\<^verbatim>\<open>(run.get('config') or {}).get('configurable', {}).get('cord_subject')\<close>\<close>

definition transported_subject :: "json \<Rightarrow> exn + string option" where
  "transported_subject run =
     (case get_attr run ''config'' of
        Inl x \<Rightarrow> Inl x
      | Inr c \<Rightarrow>
     (case get_attr (case c of None \<Rightarrow> JObj [] | Some j \<Rightarrow> if truthy j then j else JObj []) ''configurable'' of
        Inl x \<Rightarrow> Inl x
      | Inr cf \<Rightarrow>
     (case get_attr (case cf of None \<Rightarrow> JObj [] | Some j \<Rightarrow> j) ''cord_subject'' of
        Inl x \<Rightarrow> Inl x
      | Inr (Some (JStr s)) \<Rightarrow> Inr (Some s)
      | Inr None \<Rightarrow> Inr None
      | Inr (Some JNull) \<Rightarrow> Inr None
      | Inr (Some _) \<Rightarrow> Inl (Exn PyTypeError ''string expected''))))"

definition describe_run :: "env \<Rightarrow> string \<Rightarrow> string \<Rightarrow> string \<Rightarrow> (outside, run_info) prog" where
  "describe_run e ep thread_id run_id =
     (if blank thread_id then throw PyValueError ''Thread ID must be a non-empty string''
      else if blank run_id then throw PyValueError ''Run ID must be a non-empty string''
      else
      andthen (session_request e ep ''GET'' (run_path thread_id run_id) None) (\<lambda>run.
      andthen (attempt (transported_subject run)) (\<lambda>subject.
      andthen (attempt (str_field run ''assistant_id'')) (\<lambda>a.
      andthen (attempt (field run ''status'')) (\<lambda>st.
      ret \<lparr>ri_assistant_id = a, ri_status = st, ri_subject = subject\<rparr>)))))"

definition describe_assistant :: "env \<Rightarrow> string \<Rightarrow> string \<Rightarrow> (outside, json) prog" where
  "describe_assistant e ep assistant_id =
     (if blank assistant_id then throw PyValueError ''Assistant ID must be a non-empty string''
      else
      andthen (session_request e ep ''GET'' (''/assistants/'' @ assistant_id) None) (\<lambda>a.
      attempt (field a ''graph_id'')))"

section \<open>What a call submits\<close>

lemma create_thread_no_submission [simp]:
  "\<not> is_submission (Http (Request ''POST'' (ep @ ''/threads'') b))"
  by (simp add: ends_with_def)

lemma runs_post_submission [simp]:
  "is_submission (Http (Request ''POST'' (ep @ runs_path t) b))"
proof -
  have "ep @ runs_path t = (ep @ ''/threads/'' @ t) @ ''/runs''" by (simp add: runs_path_def)
  then show ?thesis using ends_with_append [of "''/runs''" "ep @ ''/threads/'' @ t"]
    by (simp del: append_assoc)
qed

lemma submissions_request:
  "submissions (snd (session_request e ep m p b u)) =
     (if is_submission (Http (Request m (rstrip_slash ep @ p) b))
      then Http (Request m (rstrip_slash ep @ p) b) # submissions u else submissions u)"
  by (simp add: submissions_def)

lemma submissions_get [simp]:
  "submissions (snd (session_request e ep ''GET'' p b u)) = submissions u"
  by (simp add: submissions_request)

lemma poll_loop_submissions: "submissions (snd (poll_loop e ep r t d u)) = submissions u"
proof (induction e ep r t d u rule: poll_loop.induct)
  case (1 e ep r t d u)
  obtain res u1 where q: "session_request e ep ''GET'' (run_path t r) None u = (res, u1)"
    by (cases "session_request e ep ''GET'' (run_path t r) None u") 
  have u1: "submissions u1 = submissions u"
    using submissions_get [of e ep "run_path t r" None u] q by simp
  show ?case
  proof (cases res)
    case (Inl x)
    then show ?thesis using q u1 by (simp add: poll_loop.simps [of e ep r t d u])
  next
    case (Inr current)
    obtain t2 u2 where m: "monotonic e u1 = (t2, u2)" by (cases "monotonic e u1")
    have u2: "submissions u2 = submissions u1" using submissions_monotonic [of e u1] m by simp
    obtain res3 u3 where v: "session_request e ep ''GET'' (state_path t) None u1 = (res3, u3)"
      by (cases "session_request e ep ''GET'' (state_path t) None u1")
    have u3: "submissions u3 = submissions u1"
      using submissions_get [of e ep "state_path t" None u1] v by simp
    show ?thesis
      using 1 q Inr u1 m u2 v u3
      by (simp add: poll_loop.simps [of e ep r t d u] Let_def split: sum.splits)
  qed
qed

lemma poll_until_settled_submissions [simp]:
  "submissions (snd (poll_until_settled e ep r t timeout u)) = submissions u"
  using submissions_monotonic [of e u]
  by (cases "monotonic e u") (simp add: poll_until_settled_def poll_loop_submissions)

text \<open>
  An execution submits at most once, and exactly once when it returns: the POST carries the
  Assistant, the input and the Subject with the cascade identity.
\<close>

definition execute_request :: "string \<Rightarrow> string \<Rightarrow> string \<Rightarrow> string \<Rightarrow> json \<Rightarrow> json option \<Rightarrow> string option \<Rightarrow> int \<Rightarrow> request" where
  "execute_request ep thread_id a sub inp ctx cb n =
     Request ''POST'' (rstrip_slash ep @ runs_path thread_id)
       (Some (run_body a inp (execute_configurable sub n cb) ctx))"

lemma execute_cases:
  obtains (not_sent) x u' where "execute e ep a sub inp ctx timeout cb n u = (Inl x, u')"
      "submissions u' = submissions u" "is_value_error (exn_class x) \<Longrightarrow> blank sub"
  | (sent) t res u' where "execute e ep a sub inp ctx timeout cb n u = (res, u')" "\<not> blank sub"
      "submissions u' = Http (execute_request ep t a sub inp ctx cb n) # submissions u"
proof (cases "blank sub")
  case True
  then show thesis by (intro not_sent) (simp_all add: execute_def)
next
  case False
  obtain r1 u1 where q1: "session_request e ep ''POST'' ''/threads'' (Some (JObj [])) u = (r1, u1)"
    by (cases "session_request e ep ''POST'' ''/threads'' (Some (JObj [])) u")
  have s1: "submissions u1 = submissions u"
    using submissions_request [of e ep "''POST''" "''/threads''" "Some (JObj [])" u] q1
      create_thread_no_submission [of "rstrip_slash ep" "Some (JObj [])"] by simp
  show thesis
  proof (cases r1)
    case (Inl x)
    with q1 have "x = Exn PyRuntimeError api_failed" using session_request_Inl by blast
    with Inl q1 s1 False show thesis
      by (intro not_sent [of x u1]) (auto simp: execute_def andthen_def)
  next
    case (Inr thread)
    show thesis
    proof (cases "str_field thread ''thread_id''")
      case (Inl x)
      then have "\<not> is_value_error (exn_class x)"
        by (auto simp: str_field_def field_def split: sum.splits json.splits option.splits)
      with Inl Inr q1 s1 False show thesis
        by (intro not_sent [of x u1]) (auto simp: execute_def andthen_Inr)
    next
      case t: (Inr t)
      let ?b = "Some (run_body a inp (execute_configurable sub n cb) ctx)"
      obtain r2 u2 where q2: "session_request e ep ''POST'' (runs_path t) ?b u1 = (r2, u2)"
        by (cases "session_request e ep ''POST'' (runs_path t) ?b u1")
      have s2: "submissions u2 = Http (execute_request ep t a sub inp ctx cb n) # submissions u"
        using submissions_request [of e ep "''POST''" "runs_path t" ?b u1] q2 s1
          runs_post_submission [of "rstrip_slash ep" t ?b]
        by (simp add: execute_request_def del: is_submission.simps)
      show thesis
      proof (cases r2)
        case (Inl x)
        with q1 q2 Inr t s2 False show thesis
          by (intro sent [of "Inl x" u2 t]) (auto simp: execute_def andthen_Inr andthen_Inl)
      next
        case run: (Inr run)
        show thesis
        proof (cases "str_field run ''run_id''")
          case (Inl x)
          with q1 q2 Inr t run s2 False show thesis
            by (intro sent [of "Inl x" u2 t]) (auto simp: execute_def andthen_Inr)
        next
          case (Inr rid)
          obtain res u3 where "poll_until_settled e ep rid t timeout u2 = (res, u3)"
            by (cases "poll_until_settled e ep rid t timeout u2")
          with q1 q2 \<open>r1 = Inr thread\<close> t run Inr s2 False poll_until_settled_submissions [of e ep rid t timeout u2]
          show thesis
            by (intro sent [of res u3 t]) (auto simp: execute_def andthen_Inr)
        qed
      qed
    qed
  qed
qed

section \<open>Properties\<close>

text \<open>
  One execution never submits twice: whatever the server answers, a call leaves the submissions
  as they were (and then raises), or adds exactly one POST, which carries the Assistant, the input, the
  Subject and the cascade identity.
\<close>

theorem execute_submits_at_most_once:
  "(\<exists>x. fst (execute e ep a sub inp ctx timeout cb n u) = Inl x) \<and>
     submissions (snd (execute e ep a sub inp ctx timeout cb n u)) = submissions u \<or>
   (\<exists>t. submissions (snd (execute e ep a sub inp ctx timeout cb n u)) =
      Http (execute_request ep t a sub inp ctx cb n) # submissions u)"
  by (cases rule: execute_cases [of e ep a sub inp ctx timeout cb n u]) auto

lemma poll_loop_deadline:
  "poll_loop e ep r t d u = (Inr res, u') \<Longrightarrow> er_status res = Waiting Deadline \<Longrightarrow> d \<le> mono_now u'"
proof (induction e ep r t d u rule: poll_loop.induct)
  case (1 e ep r t d u)
  obtain q u1 where s: "session_request e ep ''GET'' (run_path t r) None u = (q, u1)"
    by (cases "session_request e ep ''GET'' (run_path t r) None u")
  obtain t2 u2 where m: "monotonic e u1 = (t2, u2)" by (cases "monotonic e u1")
  have t2: "mono_now u2 = t2" using monotonic_now [of e u1] m by simp
  obtain current where q: "q = Inr current"
    using 1(2) s by (cases q) (auto simp: poll_loop.simps [of e ep r t d u])
  obtain status where st: "field current ''status'' = Inr status"
    using 1(2) s q by (cases "field current ''status''") (auto simp: poll_loop.simps [of e ep r t d u])
  consider (settled) "status \<notin> {JStr ''pending'', JStr ''running''}"
    | (due) "status \<in> {JStr ''pending'', JStr ''running''}" "d \<le> t2"
    | (again) "status \<in> {JStr ''pending'', JStr ''running''}" "\<not> d \<le> t2" by blast
  then show ?case
  proof cases
    case settled
    with 1(2,3) s q st show ?thesis
      by (auto simp: poll_loop.simps [of e ep r t d u] split: if_splits prod.splits sum.splits)
  next
    case due
    with 1(2,3) s q st m t2 show ?thesis
      by (auto simp: poll_loop.simps [of e ep r t d u])
  next
    case again
    with 1(2) s q st m have "poll_loop e ep r t d (sleep (1 / 10) u2) = (Inr res, u')"
      by (auto simp: poll_loop.simps [of e ep r t d u])
    with 1(1) s q st m again 1(3) show ?thesis by auto
  qed
qed

text \<open>
  Waiting ends, and ends for a reason: the poll is a total function of the server's behaviour (its
  loop terminates because the clock advances), and it reports a client deadline only once the whole
  timeout has passed on the monotonic clock since the call began.
\<close>

theorem deadline_only_after_timeout:
  assumes "poll_until_settled e ep r t timeout u = (Inr res, u')" and "er_status res = Waiting Deadline"
  shows "mono_now u + timeout \<le> mono_now u'"
proof -
  obtain now u1 where m: "monotonic e u = (now, u1)" by (cases "monotonic e u")
  have "now + timeout \<le> mono_now u'"
    using poll_loop_deadline assms m by (simp add: poll_until_settled_def)
  then show ?thesis using monotonic_ge [of u e] m by simp
qed

text \<open>A server on which every Run stays \<^verbatim>\<open>running\<close>, and a steady clock.\<close>

definition busy_env :: env where
  "busy_env = \<lparr>server = (\<lambda>_ _. Reply 200 (Some (JObj [(''status'', JStr ''running'')]))),
     start_process = (\<lambda>_ _ _. Inr 1), clock_drift = (\<lambda>_. 1), format_number = (\<lambda>_. [])\<rparr>"

definition at_zero :: outside where
  "at_zero = \<lparr>trace = [], mono_now = 0, clock_reads = 0\<rparr>"

lemma busy_poll:
  "\<exists>u'. poll_until_settled busy_env ''e'' ''r'' ''t'' 1 at_zero =
     (Inr \<lparr>er_run_id = ''r'', er_thread_id = ''t'', er_status = Waiting Deadline\<rparr>, u')"
  by (simp add: poll_until_settled_def monotonic_def busy_env_def at_zero_def Let_def poll_loop.simps
      session_request_def http_def field_def)

theorem deadline_only_after_timeout_witness:
  "1 \<le> mono_now (snd (poll_until_settled busy_env ''e'' ''r'' ''t'' 1 at_zero))"
proof -
  from busy_poll obtain u' where
    "poll_until_settled busy_env ''e'' ''r'' ''t'' 1 at_zero =
     (Inr \<lparr>er_run_id = ''r'', er_thread_id = ''t'', er_status = Waiting Deadline\<rparr>, u')" by blast
  with deadline_only_after_timeout [OF this] show ?thesis by (simp add: at_zero_def)
qed

end
