(* ===== verification/Aegra_Backend.thy ===== *)
theory Aegra_Backend
  imports Aegra_Client Run_Continuity
begin

text \<open>
  \<^verbatim>\<open>backends/aegra.py\<close> and the vocabulary of \<^verbatim>\<open>backends/base.py\<close>: the Aegra adapter behind the
  ExecutionBackend boundary. The state is the board's \<^verbatim>\<open>run_continuity.json\<close> with the outside
  world; \<open>board\<close> is the deployment alias when the backend was built with a board and a deployment.
\<close>

datatype runtime_status =
  RT_QUEUED | RT_RUNNING | RT_INTERRUPTED | RT_SUCCEEDED | RT_FAILED | RT_CANCELLED | RT_UNKNOWN

datatype wait_outcome = WO_COMPLETED | WO_DEADLINE_REACHED | WO_TRANSPORT_ERROR

record execution_result =
  xr_logical_run_id :: "string option"
  xr_invocation_id :: string
  xr_thread_id :: string
  xr_assistant_id :: string
  xr_status :: runtime_status
  xr_wait_outcome :: wait_outcome

definition RAW_STATUS :: "(string \<times> runtime_status) list" where
  "RAW_STATUS = [(''pending'', RT_QUEUED), (''running'', RT_RUNNING), (''interrupted'', RT_INTERRUPTED),
     (''success'', RT_SUCCEEDED), (''error'', RT_FAILED), (''cancelled'', RT_CANCELLED)]"

text \<open>\<^verbatim>\<open>_RAW_STATUS.get(raw, RuntimeStatus.UNKNOWN)\<close>, a list or dict is not hashable.\<close>

definition runtime_status_of :: "json \<Rightarrow> exn + runtime_status" where
  "runtime_status_of raw =
     (case raw of
        JStr s \<Rightarrow> Inr (case map_of RAW_STATUS s of None \<Rightarrow> RT_UNKNOWN | Some st \<Rightarrow> st)
      | JArr _ \<Rightarrow> Inl (Exn PyTypeError ''unhashable type'')
      | JObj _ \<Rightarrow> Inl (Exn PyTypeError ''unhashable type'')
      | _ \<Rightarrow> Inr RT_UNKNOWN)"

definition WAITING_RAW_STATUSES :: "json set" where
  "WAITING_RAW_STATUSES = {JStr ''pending'', JStr ''running''}"

definition create_thread :: "env \<Rightarrow> string \<Rightarrow> (outside, string) prog" where
  "create_thread e ep =
     andthen (session_request e ep ''POST'' ''/threads'' (Some (JObj []))) (\<lambda>j.
     attempt (str_field j ''thread_id''))"

definition submit_run ::
  "env \<Rightarrow> string \<Rightarrow> string \<Rightarrow> string \<Rightarrow> json \<Rightarrow> json dict \<Rightarrow> json option \<Rightarrow> (outside, string) prog" where
  "submit_run e ep thread_id assistant graph_input configurable context =
     andthen (session_request e ep ''POST'' (runs_path thread_id)
                (Some (run_body assistant graph_input configurable context))) (\<lambda>j.
     attempt (str_field j ''run_id''))"

definition submit_resume :: "env \<Rightarrow> string \<Rightarrow> string \<Rightarrow> string \<Rightarrow> json \<Rightarrow> (outside, string) prog" where
  "submit_resume e ep thread_id assistant resume_value =
     andthen (session_request e ep ''POST'' (runs_path thread_id)
                (Some (resume_body assistant resume_value))) (\<lambda>j.
     attempt (str_field j ''run_id''))"

definition get_run :: "env \<Rightarrow> string \<Rightarrow> string \<Rightarrow> string \<Rightarrow> (outside, run_info) prog" where
  "get_run e ep thread_id invocation_id = describe_run e ep thread_id invocation_id"

definition get_state :: "env \<Rightarrow> string \<Rightarrow> string \<Rightarrow> (outside, json) prog" where
  "get_state e ep thread_id = session_request e ep ''GET'' (state_path thread_id) None"

lemma describe_run_frame:
  "mono_now (snd (describe_run e ep t r u)) = mono_now u \<and>
   submissions (snd (describe_run e ep t r u)) = submissions u"
proof -
  obtain q u1 where s: "session_request e ep ''GET'' (run_path t r) None u = (q, u1)"
    by (cases "session_request e ep ''GET'' (run_path t r) None u")
  have "mono_now u1 = mono_now u" "submissions u1 = submissions u"
    using session_request_now [OF s] submissions_get [of e ep "run_path t r" None u] s by simp_all
  then show ?thesis
    by (cases q) (auto simp: describe_run_def andthen_def s split: sum.splits)
qed

lemma get_run_now: "get_run e ep t r u = (q, u1) \<Longrightarrow> mono_now u1 = mono_now u"
  by (metis describe_run_frame get_run_def snd_conv)

lemma get_run_submissions [simp]: "submissions (snd (get_run e ep t r u)) = submissions u"
  by (simp add: describe_run_frame get_run_def)

datatype waited = Waited (waited_status: runtime_status) (waited_why: wait_outcome)

text \<open>The loop of \<^verbatim>\<open>wait_for_run\<close>, from the deadline the first look at the clock fixed.\<close>

function wait_loop :: "env \<Rightarrow> string \<Rightarrow> string \<Rightarrow> string \<Rightarrow> seconds \<Rightarrow> (outside, waited) prog" where
  "wait_loop e ep thread_id invocation_id deadline u =
     (case get_run e ep thread_id invocation_id u of
        (Inl x, u1) \<Rightarrow>
          if exn_class x = PyRuntimeError then (Inr (Waited RT_UNKNOWN WO_TRANSPORT_ERROR), u1)
          else (Inl x, u1)
      | (Inr info, u1) \<Rightarrow>
          if ri_status info \<in> WAITING_RAW_STATUSES then
            (let (t, u2) = monotonic e u1 in
             if deadline \<le> t then
               (case runtime_status_of (ri_status info) of
                  Inl x \<Rightarrow> (Inl x, u2)
                | Inr st \<Rightarrow> (Inr (Waited st WO_DEADLINE_REACHED), u2))
             else wait_loop e ep thread_id invocation_id deadline (sleep (1 / 10) u2))
          else
            (case runtime_status_of (ri_status info) of
               Inl x \<Rightarrow> (Inl x, u1)
             | Inr st \<Rightarrow> (Inr (Waited st WO_COMPLETED), u1)))"
  by pat_completeness auto
termination
proof (relation "measure (\<lambda>(e, ep, t, r, deadline, u). rounds_left (1 / 10) deadline u)", goal_cases)
  case (2 e ep thread_id invocation_id deadline u x u1 info mt t u2)
  have now: "mono_now u1 = mono_now u"
    by (rule get_run_now [OF 2(1) [symmetric]])
  have mt: "monotonic e u1 = (t, u2)" using 2 by simp
  show ?case
    unfolding in_measure prod.case
    by (rule poll_round_decreases [OF _ now mt]) (use 2 in simp_all)
qed simp

declare wait_loop.simps [simp del]

definition wait_for_run :: "env \<Rightarrow> string \<Rightarrow> string \<Rightarrow> string \<Rightarrow> seconds \<Rightarrow> (outside, waited) prog" where
  "wait_for_run e ep thread_id invocation_id timeout u =
     (let (t, u1) = monotonic e u in wait_loop e ep thread_id invocation_id (t + timeout) u1)"

definition run_status :: "env \<Rightarrow> string \<Rightarrow> string \<Rightarrow> string \<Rightarrow> (outside, runtime_status) prog" where
  "run_status e ep thread_id invocation_id =
     andthen (get_run e ep thread_id invocation_id) (\<lambda>info. attempt (runtime_status_of (ri_status info)))"

definition list_assistants :: "env \<Rightarrow> string \<Rightarrow> (outside, json) prog" where
  "list_assistants e ep =
     andthen (session_request e ep ''GET'' ''/assistants'' None) (\<lambda>j.
     attempt (case get_attr j ''assistants'' of
        Inl x \<Rightarrow> Inl x | Inr None \<Rightarrow> Inr (JArr []) | Inr (Some a) \<Rightarrow> Inr a))"

text \<open>A backend's world: the continuity store and the outside.\<close>

type_synonym backend_world = "continuity_file \<times> outside"

definition on_cont :: "(continuity_file, 'a) prog \<Rightarrow> (backend_world, 'a) prog" where
  "on_cont m = zoom fst (\<lambda>c w. (c, snd w)) m"

definition on_net :: "(outside, 'a) prog \<Rightarrow> (backend_world, 'a) prog" where
  "on_net m = zoom snd (\<lambda>u w. (fst w, u)) m"

definition logical_run_id_for_execute ::
  "string option \<Rightarrow> string \<Rightarrow> string \<Rightarrow> (backend_world, string option) prog" where
  "logical_run_id_for_execute board thread_id invocation_id =
     (case board of
        Some deployment \<Rightarrow>
          andthen (on_cont (record_submission deployment thread_id invocation_id)) (\<lambda>l. ret (Some l))
      | None \<Rightarrow> ret (Some invocation_id))"

definition logical_run_id_for_resume ::
  "string option \<Rightarrow> string \<Rightarrow> string \<Rightarrow> (backend_world, string option) prog" where
  "logical_run_id_for_resume board thread_id invocation_id =
     (case board of
        Some deployment \<Rightarrow>
          andthen (on_cont (record_submission deployment thread_id invocation_id)) (\<lambda>l. ret (Some l))
      | None \<Rightarrow> ret None)"

definition backend_execute ::
  "env \<Rightarrow> string option \<Rightarrow> string \<Rightarrow> string \<Rightarrow> string \<Rightarrow> json \<Rightarrow> json option \<Rightarrow> seconds \<Rightarrow> string option \<Rightarrow> int \<Rightarrow>
   (backend_world, execution_result) prog" where
  "backend_execute e board ep assistant subject graph_input context timeout caused_by cascade_depth =
     (if blank subject then throw PyValueError ''Subject must be a non-empty string''
      else
      andthen (on_net (create_thread e ep)) (\<lambda>thread_id.
      andthen (on_net (submit_run e ep thread_id assistant graph_input
                 (execute_configurable subject cascade_depth caused_by) context)) (\<lambda>invocation_id.
      andthen (on_net (wait_for_run e ep thread_id invocation_id timeout)) (\<lambda>w.
      andthen (logical_run_id_for_execute board thread_id invocation_id) (\<lambda>l.
      ret \<lparr>xr_logical_run_id = l, xr_invocation_id = invocation_id, xr_thread_id = thread_id,
           xr_assistant_id = assistant, xr_status = waited_status w, xr_wait_outcome = waited_why w\<rparr>)))))"

definition backend_resume ::
  "env \<Rightarrow> string option \<Rightarrow> string \<Rightarrow> string \<Rightarrow> string \<Rightarrow> json \<Rightarrow> seconds \<Rightarrow>
   (backend_world, execution_result) prog" where
  "backend_resume e board ep thread_id assistant resume_value timeout =
     (if blank thread_id then throw PyValueError ''Thread ID must be a non-empty string''
      else if blank assistant then throw PyValueError ''Assistant must be a non-empty string''
      else
      andthen (on_net (submit_resume e ep thread_id assistant resume_value)) (\<lambda>invocation_id.
      andthen (on_net (wait_for_run e ep thread_id invocation_id timeout)) (\<lambda>w.
      andthen (logical_run_id_for_resume board thread_id invocation_id) (\<lambda>l.
      ret \<lparr>xr_logical_run_id = l, xr_invocation_id = invocation_id, xr_thread_id = thread_id,
           xr_assistant_id = assistant, xr_status = waited_status w, xr_wait_outcome = waited_why w\<rparr>))))"

definition backend_cancel :: "env \<Rightarrow> string \<Rightarrow> string \<Rightarrow> string \<Rightarrow> (outside, runtime_status) prog" where
  "backend_cancel e ep thread_id invocation_id =
     andthen (cancel e ep thread_id invocation_id) (\<lambda>_. ret RT_CANCELLED)"

section \<open>What the operations do\<close>

lemma on_net_app: "on_net m w = (case m (snd w) of (r, u) \<Rightarrow> (r, (fst w, u)))"
  by (simp add: on_net_def zoom_def)

lemma on_cont_app: "on_cont m w = (case m (fst w) of (r, c) \<Rightarrow> (r, (c, snd w)))"
  by (simp add: on_cont_def zoom_def)

lemma get_state_submissions [simp]: "submissions (snd (get_state e ep t u)) = submissions u"
  by (simp add: get_state_def)

lemma run_status_submissions [simp]: "submissions (snd (run_status e ep t r u)) = submissions u"
  using get_run_submissions [of e ep t r u]
  by (cases "get_run e ep t r u") (auto simp: run_status_def andthen_def split: sum.splits)

lemma wait_loop_submissions: "submissions (snd (wait_loop e ep t r d u)) = submissions u"
proof (induction e ep t r d u rule: wait_loop.induct)
  case (1 e ep t r d u)
  obtain res u1 where q: "get_run e ep t r u = (res, u1)" by (cases "get_run e ep t r u")
  have u1: "submissions u1 = submissions u"
    using get_run_submissions [of e ep t r u] q by simp
  obtain t2 u2 where m: "monotonic e u1 = (t2, u2)" by (cases "monotonic e u1")
  have u2: "submissions u2 = submissions u1" using submissions_monotonic [of e u1] m by simp
  show ?case
    using 1 q u1 m u2
    by (cases res) (simp_all add: wait_loop.simps [of e ep t r d u] Let_def split: sum.splits)
qed

lemma wait_for_run_submissions [simp]: "submissions (snd (wait_for_run e ep t r timeout u)) = submissions u"
  using submissions_monotonic [of e u]
  by (cases "monotonic e u") (simp add: wait_for_run_def wait_loop_submissions)

lemma runtime_status_waiting:
  "raw \<in> WAITING_RAW_STATUSES \<Longrightarrow>
   runtime_status_of raw = Inr (if raw = JStr ''pending'' then RT_QUEUED else RT_RUNNING)"
  by (auto simp: WAITING_RAW_STATUSES_def runtime_status_of_def RAW_STATUS_def)

lemma runtime_status_settled:
  "raw \<notin> WAITING_RAW_STATUSES \<Longrightarrow> runtime_status_of raw = Inr st \<Longrightarrow> st \<noteq> RT_QUEUED \<and> st \<noteq> RT_RUNNING"
  by (auto simp: WAITING_RAW_STATUSES_def runtime_status_of_def RAW_STATUS_def
      split: json.splits option.splits if_splits)

text \<open>
  Why a wait returned agrees with what the Run was doing: a deadline is reported only at or after the
  deadline and only for a queued or running Run, a transport error only with an unknown status, and
  every other result is settled.
\<close>

definition wait_consistent :: "seconds \<Rightarrow> seconds \<Rightarrow> waited \<Rightarrow> bool" where
  "wait_consistent deadline now w =
     (case waited_why w of
        WO_DEADLINE_REACHED \<Rightarrow> waited_status w \<in> {RT_QUEUED, RT_RUNNING} \<and> deadline \<le> now
      | WO_TRANSPORT_ERROR \<Rightarrow> waited_status w = RT_UNKNOWN
      | WO_COMPLETED \<Rightarrow> waited_status w \<notin> {RT_QUEUED, RT_RUNNING})"

lemma wait_loop_consistent:
  "wait_loop e ep t r d u = (Inr w, u') \<Longrightarrow> wait_consistent d (mono_now u') w"
proof (induction e ep t r d u rule: wait_loop.induct)
  case (1 e ep t r d u)
  obtain res u1 where q: "get_run e ep t r u = (res, u1)" by (cases "get_run e ep t r u")
  obtain t2 u2 where m: "monotonic e u1 = (t2, u2)" by (cases "monotonic e u1")
  have t2: "mono_now u2 = t2" using monotonic_now [of e u1] m by simp
  show ?case
  proof (cases res)
    case (Inl x)
    then show ?thesis using 1(2) q
      by (auto simp: wait_loop.simps [of e ep t r d u] wait_consistent_def split: if_splits)
  next
    case (Inr info)
    show ?thesis
    proof (cases "ri_status info \<in> WAITING_RAW_STATUSES")
      case True
      show ?thesis
      proof (cases "d \<le> t2")
        case le: True
        with 1(2) q Inr True m t2 show ?thesis
          by (auto simp: wait_loop.simps [of e ep t r d u] runtime_status_waiting wait_consistent_def)
      next
        case False
        with 1(2) q Inr True m have "wait_loop e ep t r d (sleep (1 / 10) u2) = (Inr w, u')"
          by (simp add: wait_loop.simps [of e ep t r d u])
        with 1(1) q Inr True m False show ?thesis by simp
      qed
    next
      case False
      with 1(2) q Inr runtime_status_settled [OF False] show ?thesis
        by (auto simp: wait_loop.simps [of e ep t r d u] wait_consistent_def split: sum.splits)
    qed
  qed
qed

section \<open>Properties\<close>

text \<open>
  A client deadline is never mistaken for an interrupt, a cancellation or a failure: a wait that
  reports a deadline reports a queued or running Run and the timeout has passed; a transport error comes
  with the status unknown; any other wait reports a Run that is neither queued nor running.
\<close>

theorem wait_outcome_consistent:
  assumes "wait_for_run e ep t i timeout u = (Inr w, u')"
  shows "case waited_why w of
      WO_DEADLINE_REACHED \<Rightarrow> waited_status w \<in> {RT_QUEUED, RT_RUNNING} \<and> mono_now u + timeout \<le> mono_now u'
    | WO_TRANSPORT_ERROR \<Rightarrow> waited_status w = RT_UNKNOWN
    | WO_COMPLETED \<Rightarrow> waited_status w \<notin> {RT_QUEUED, RT_RUNNING}"
proof -
  obtain now u1 where m: "monotonic e u = (now, u1)" by (cases "monotonic e u")
  have "mono_now u \<le> now" using monotonic_ge [of u e] m by simp
  moreover have "wait_consistent (now + timeout) (mono_now u') w"
    using wait_loop_consistent assms m by (simp add: wait_for_run_def)
  ultimately show ?thesis by (auto simp: wait_consistent_def split: wait_outcome.splits)
qed

definition busy_run_env :: env where
  "busy_run_env = busy_env\<lparr>server := (\<lambda>_ _. Reply 200 (Some (JObj
     [(''status'', JStr ''running''), (''assistant_id'', JStr ''a'')])))\<rparr>"

theorem wait_outcome_consistent_witness:
  "\<exists>u'. wait_for_run busy_run_env ''e'' ''t'' ''r'' 1 at_zero = (Inr (Waited RT_RUNNING WO_DEADLINE_REACHED), u') \<and>
     1 \<le> mono_now u'"
proof -
  obtain u' where w: "wait_for_run busy_run_env ''e'' ''t'' ''r'' 1 at_zero = (Inr (Waited RT_RUNNING WO_DEADLINE_REACHED), u')"
    by (simp add: wait_for_run_def monotonic_def busy_run_env_def busy_env_def at_zero_def Let_def wait_loop.simps
        get_run_def describe_run_def blank_def py_space_def andthen_def transported_subject_def get_attr_def
        session_request_def http_def field_def str_field_def WAITING_RAW_STATUSES_def runtime_status_of_def RAW_STATUS_def)
  with wait_outcome_consistent [OF w] show ?thesis by (simp add: at_zero_def)
qed

end
