(* ===== verification/Deployment_Lifecycle.thy ===== *)
theory Deployment_Lifecycle
  imports Outside
begin

text \<open>
  \<^verbatim>\<open>deployment_lifecycle.py\<close>: startup and idle shutdown of managed Deployments,
  \<^verbatim>\<open>.cordboard/deployment_lifecycle.json\<close>, with the module's default \<^verbatim>\<open>launch\<close>,
  \<^verbatim>\<open>health_check\<close>, \<^verbatim>\<open>is_alive\<close> and \<^verbatim>\<open>stop\<close>. The state is the store file together with the
  outside world.
\<close>

datatype life_status = EXTERNAL | RUNNING | STOPPED | START_FAILED

record life =
  life_status :: life_status
  life_pid :: "int option"
  active_runs :: int
  started_at :: "seconds option"
  last_active :: seconds
  last_error :: "string option"

type_synonym life_file = "life dict store_file"

type_synonym host = "life_file \<times> outside"

definition HEALTH_POLL_INTERVAL :: seconds where "HEALTH_POLL_INTERVAL = 2 / 10"

definition load_lifecycle :: "life_file \<Rightarrow> exn + life dict" where
  "load_lifecycle f = load_file DeploymentLifecycleError ''deployment lifecycle file'' ''a JSON object'' f"

definition on_file :: "(life_file, 'a) prog \<Rightarrow> (host, 'a) prog" where
  "on_file m = zoom fst (\<lambda>f h. (f, snd h)) m"

definition on_outside :: "(outside, 'a) prog \<Rightarrow> (host, 'a) prog" where
  "on_outside m = zoom snd (\<lambda>u h. (fst h, u)) m"

text \<open>\<^verbatim>\<open>subprocess.Popen\<close> starts the command or raises OSError.\<close>

definition default_launch :: "env \<Rightarrow> string \<Rightarrow> string list \<Rightarrow> (outside, int) prog" where
  "default_launch e alias cmd u =
     (let u' = u\<lparr>trace := Launch alias cmd # trace u\<rparr> in
      case start_process e (trace u) alias cmd of
        Inl m \<Rightarrow> (Inl (Exn PyOSError m), u')
      | Inr pid \<Rightarrow> (Inr pid, u'))"

definition answers_200 :: "reply \<Rightarrow> bool" where
  "answers_200 r = (case r of Reply status _ \<Rightarrow> status = 200 | _ \<Rightarrow> False)"

definition health_request :: "string \<Rightarrow> request" where
  "health_request ep = Request ''GET'' (ep @ ''/health'') None"

function health_loop :: "env \<Rightarrow> string \<Rightarrow> seconds \<Rightarrow> outside \<Rightarrow> bool \<times> outside" where
  "health_loop e ep deadline u =
     (let (r, u1) = http e (health_request ep) u in
      if answers_200 r then (True, u1)
      else
        (let (t, u2) = monotonic e u1 in
         if deadline \<le> t then (False, u2)
         else health_loop e ep deadline (sleep HEALTH_POLL_INTERVAL u2)))"
  by pat_completeness auto
termination
proof (relation "measure (\<lambda>(e, ep, deadline, u). rounds_left HEALTH_POLL_INTERVAL deadline u)", goal_cases)
  case (2 e ep deadline u ru r u1 tu t u2)
  have now: "mono_now u1 = mono_now u"
    using http_mono_now [of e "health_request ep" u] 2 by (metis snd_conv)
  have mt: "monotonic e u1 = (t, u2)" using 2 by simp
  show ?case
    unfolding in_measure prod.case
    by (rule poll_round_decreases [OF _ now mt]) (use 2 in \<open>simp_all add: HEALTH_POLL_INTERVAL_def\<close>)
qed simp

declare health_loop.simps [simp del]

definition default_health_check :: "env \<Rightarrow> string \<Rightarrow> seconds \<Rightarrow> outside \<Rightarrow> bool \<times> outside" where
  "default_health_check e ep health_timeout u =
     (let (t, u1) = monotonic e u in health_loop e ep (t + health_timeout) u1)"

definition default_is_alive :: "env \<Rightarrow> string \<Rightarrow> outside \<Rightarrow> bool \<times> outside" where
  "default_is_alive e ep u = (let (r, u1) = http e (health_request ep) u in (answers_200 r, u1))"

definition default_stop :: "string \<Rightarrow> life \<Rightarrow> outside \<Rightarrow> outside" where
  "default_stop alias rec u =
     (case life_pid rec of None \<Rightarrow> u | Some pid \<Rightarrow> u\<lparr>trace := Terminate alias pid # trace u\<rparr>)"

datatype started = Started_External | Started_Running "int option" | Start_Failed string

definition unhealthy_message :: "env \<Rightarrow> string \<Rightarrow> seconds \<Rightarrow> string" where
  "unhealthy_message e alias health_timeout =
     ''Deployment '' @ quoted alias @ '' did not become healthy within '' @
     format_number e health_timeout @ ''s of launch''"

definition store_life :: "string \<Rightarrow> life \<Rightarrow> life dict \<Rightarrow> (host, unit) prog" where
  "store_life alias rec data = on_file (write_atomic (AList.update alias rec data))"

definition launch_and_check ::
  "env \<Rightarrow> string \<Rightarrow> string list \<Rightarrow> string \<Rightarrow> seconds \<Rightarrow> seconds \<Rightarrow> life dict \<Rightarrow> (host, started) prog" where
  "launch_and_check e alias cmd ep now health_timeout data h =
     (case default_launch e alias cmd (snd h) of
        (Inl x, u1) \<Rightarrow>
          andthen (store_life alias
             \<lparr>life_status = START_FAILED, life_pid = None, active_runs = 0, started_at = None,
              last_active = now, last_error = Some (exn_msg x)\<rparr> data)
            (\<lambda>_. ret (Start_Failed (exn_msg x))) (fst h, u1)
      | (Inr pid, u1) \<Rightarrow>
          (case default_health_check e ep health_timeout u1 of
             (False, u2) \<Rightarrow>
               andthen (store_life alias
                  \<lparr>life_status = START_FAILED, life_pid = Some pid, active_runs = 0, started_at = None,
                   last_active = now, last_error = Some (unhealthy_message e alias health_timeout)\<rparr> data)
                 (\<lambda>_. ret (Start_Failed (unhealthy_message e alias health_timeout))) (fst h, u2)
           | (True, u2) \<Rightarrow>
               andthen (store_life alias
                  \<lparr>life_status = RUNNING, life_pid = Some pid, active_runs = 1, started_at = Some now,
                   last_active = now, last_error = None\<rparr> data)
                 (\<lambda>_. ret (Started_Running (Some pid))) (fst h, u2)))"

definition ensure_started ::
  "env \<Rightarrow> string \<Rightarrow> connection \<Rightarrow> seconds \<Rightarrow> seconds \<Rightarrow> (host, started) prog" where
  "ensure_started e alias conn now health_timeout =
     (if \<not> is_managed conn then ret Started_External
      else
      andthen (on_file (reading load_lifecycle)) (\<lambda>data h.
        case map_of data alias of
          None \<Rightarrow>
            launch_and_check e alias (the (launch conn)) (endpoint conn) now health_timeout data h
        | Some rec \<Rightarrow>
            if life_status rec = RUNNING then
              (case default_is_alive e (endpoint conn) (snd h) of
                 (True, u1) \<Rightarrow>
                   andthen (store_life alias
                      (rec\<lparr>active_runs := active_runs rec + 1, last_active := now\<rparr>) data)
                     (\<lambda>_. ret (Started_Running (life_pid rec))) (fst h, u1)
               | (False, u1) \<Rightarrow>
                   launch_and_check e alias (the (launch conn)) (endpoint conn) now health_timeout data
                     (fst h, u1))
            else launch_and_check e alias (the (launch conn)) (endpoint conn) now health_timeout data h))"

definition release_active :: "string \<Rightarrow> connection \<Rightarrow> seconds \<Rightarrow> (life_file, unit) prog" where
  "release_active alias conn now =
     (if \<not> is_managed conn then ret ()
      else
      andthen (reading load_lifecycle) (\<lambda>data.
        case map_of data alias of
          None \<Rightarrow> ret ()
        | Some rec \<Rightarrow>
            if life_status rec \<noteq> RUNNING then ret ()
            else write_atomic (AList.update alias
                   (rec\<lparr>active_runs := max 0 (active_runs rec - 1), last_active := now\<rparr>) data)))"

text \<open>Whether the loop of \<^verbatim>\<open>stop_idle\<close> stops an alias: it passes none of its three \<^verbatim>\<open>continue\<close>s.\<close>

definition stoppable :: "connection dict \<Rightarrow> seconds \<Rightarrow> string \<Rightarrow> life \<Rightarrow> bool" where
  "stoppable conns now alias rec =
     (case map_of conns alias of
        None \<Rightarrow> False
      | Some conn \<Rightarrow>
          is_managed conn \<and> \<not> (life_status rec \<noteq> RUNNING \<or> 0 < active_runs rec) \<and>
          \<not> (now - last_active rec <
               (case idle_after conn of None \<Rightarrow> DEFAULT_IDLE_AFTER | Some s \<Rightarrow> s)))"

fun stop_loop ::
  "connection dict \<Rightarrow> seconds \<Rightarrow> life dict \<Rightarrow> outside \<Rightarrow> (life dict \<times> string list) \<times> outside" where
  "stop_loop conns now [] u = (([], []), u)"
| "stop_loop conns now ((alias, rec) # rest) u =
     (if stoppable conns now alias rec then
        (case stop_loop conns now rest (default_stop alias rec u) of
           ((data, stopped), u') \<Rightarrow>
             (((alias, rec\<lparr>life_status := STOPPED, life_pid := None\<rparr>) # data, alias # stopped), u'))
      else
        (case stop_loop conns now rest u of
           ((data, stopped), u') \<Rightarrow> (((alias, rec) # data, stopped), u')))"

definition stop_idle :: "connection dict \<Rightarrow> seconds \<Rightarrow> (host, string list) prog" where
  "stop_idle conns now =
     andthen (on_file (reading load_lifecycle)) (\<lambda>data h.
       case stop_loop conns now data (snd h) of
         ((data', stopped), u') \<Rightarrow>
           andthen (if stopped \<noteq> [] then on_file (write_atomic data') else ret ())
             (\<lambda>_. ret stopped) (fst h, u'))"

section \<open>What the operations do\<close>

definition life_rec :: "host \<Rightarrow> string \<Rightarrow> life option" where
  "life_rec h alias = map_of (content (fst h)) alias"

lemma load_lifecycle_readable [simp]: "readable f \<Longrightarrow> load_lifecycle f = Inr (content f)"
  by (simp add: load_lifecycle_def)

lemma on_file_app: "on_file m h = (case m (fst h) of (r, f) \<Rightarrow> (r, (f, snd h)))"
  by (simp add: on_file_def zoom_def)

lemma andthen_on_reading [simp]:
  "andthen (on_file (reading load)) f h = (case load (fst h) of Inl x \<Rightarrow> (Inl x, h) | Inr d \<Rightarrow> f d h)"
  by (cases h) (auto simp: andthen_def on_file_app reading_def split: sum.splits)

lemma store_life_app:
  "andthen (store_life alias rec data) f h = f () (Holds (sorted_keys (AList.update alias rec data)), snd h)"
  by (simp add: store_life_def andthen_def on_file_app)

lemma andthen_on_write [simp]:
  "andthen (on_file (write_atomic d)) f h = f () (Holds (sorted_keys d), snd h)"
  by (simp add: andthen_def on_file_app)

lemma submissions_health [simp]: "submissions (snd (http e (health_request ep) u)) = submissions u"
  by (simp add: submissions_def health_request_def)

lemma health_loop_submissions: "submissions (snd (health_loop e ep d u)) = submissions u"
proof (induction e ep d u rule: health_loop.induct)
  case (1 e ep d u)
  obtain r u1 where q: "http e (health_request ep) u = (r, u1)" by (cases "http e (health_request ep) u")
  obtain t u2 where m: "monotonic e u1 = (t, u2)" by (cases "monotonic e u1")
  have "submissions u1 = submissions u" "submissions u2 = submissions u1"
    using submissions_health [of e ep u] submissions_monotonic [of e u1] q m by simp_all
  with 1 q m show ?case by (simp add: health_loop.simps [of e ep d u])
qed

lemma default_health_check_submissions:
  "default_health_check e ep ht u = (b, u') \<Longrightarrow> submissions u' = submissions u"
  using health_loop_submissions [of e ep "fst (monotonic e u) + ht" "snd (monotonic e u)"]
  by (simp add: default_health_check_def case_prod_beta Let_def)

lemma default_is_alive_submissions:
  "default_is_alive e ep u = (b, u') \<Longrightarrow> submissions u' = submissions u"
  using submissions_health [of e ep u]
  by (cases "http e (health_request ep) u") (auto simp: default_is_alive_def)

lemma default_launch_submissions:
  "default_launch e alias cmd u = (r, u') \<Longrightarrow> submissions u' = submissions u"
  by (auto simp: default_launch_def Let_def submissions_def split: sum.splits)

text \<open>How a start ends for its alias; every other alias keeps its record.\<close>

definition start_report :: "string \<Rightarrow> life option \<Rightarrow> seconds \<Rightarrow> started \<Rightarrow> life option \<Rightarrow> bool" where
  "start_report alias old now st new =
     (case st of
        Started_External \<Rightarrow> new = old
      | Started_Running pid \<Rightarrow>
          (\<exists>rec. new = Some rec \<and> life_status rec = RUNNING \<and> life_pid rec = pid \<and> last_active rec = now \<and>
             (active_runs rec = 1 \<or>
              (\<exists>o'. old = Some o' \<and> life_status o' = RUNNING \<and> active_runs rec = active_runs o' + 1)))
      | Start_Failed m \<Rightarrow>
          (\<exists>rec. new = Some rec \<and> life_status rec = START_FAILED \<and> active_runs rec = 0 \<and>
             last_error rec = Some m))"

text \<open>The whole effect of a start that began in \<open>h\<close>: the report, and the frame.\<close>

definition start_effect :: "string \<Rightarrow> seconds \<Rightarrow> host \<Rightarrow> started \<Rightarrow> host \<Rightarrow> bool" where
  "start_effect alias now h st h' =
     (readable (fst h') \<and> submissions (snd h') = submissions (snd h) \<and>
      start_report alias (life_rec h alias) now st (life_rec h' alias) \<and>
      (\<forall>x. x \<noteq> alias \<longrightarrow> life_rec h' x = life_rec h x) \<and>
      (dict_ok (content (fst h)) \<longrightarrow> dict_ok (content (fst h'))))"

lemma start_effect_store:
  assumes "submissions u = submissions (snd h)"
    and "start_report alias (life_rec h alias) now st (Some rec)"
  shows "start_effect alias now h st (Holds (sorted_keys (AList.update alias rec (content (fst h)))), u)"
  using assms by (auto simp: start_effect_def life_rec_def update_conv')

lemma launch_and_check_effect:
  assumes u: "submissions u = submissions (snd h)"
  shows "\<exists>st h'. launch_and_check e alias cmd ep now ht (content (fst h)) (f0, u) = (Inr st, h') \<and>
    st \<noteq> Started_External \<and> start_effect alias now h st h'"
proof -
  obtain r u1 where l: "default_launch e alias cmd u = (r, u1)" by (cases "default_launch e alias cmd u")
  note s1 = default_launch_submissions [OF l]
  show ?thesis
  proof (cases r)
    case (Inl x)
    with l s1 u show ?thesis
      by (auto simp: launch_and_check_def store_life_app start_report_def intro!: start_effect_store)
  next
    case (Inr pid)
    obtain b u2 where c: "default_health_check e ep ht u1 = (b, u2)" by (cases "default_health_check e ep ht u1")
    note s2 = default_health_check_submissions [OF c]
    show ?thesis
      using l s1 u Inr c s2
      by (cases b) (auto simp: launch_and_check_def store_life_app start_report_def intro!: start_effect_store)
  qed
qed

lemma ensure_started_effect:
  assumes rd: "readable (fst h)"
  shows "\<exists>st h'. ensure_started e alias conn now ht h = (Inr st, h') \<and>
    (st = Started_External) = (\<not> is_managed conn) \<and> start_effect alias now h st h' \<and>
    (st = Started_External \<longrightarrow> h' = h)"
proof (cases "is_managed conn")
  case False
  with rd show ?thesis
    by (auto simp: ensure_started_def start_report_def start_effect_def)
next
  case m: True
  obtain b u1 where a: "default_is_alive e (endpoint conn) (snd h) = (b, u1)"
    by (cases "default_is_alive e (endpoint conn) (snd h)")
  note sub = default_is_alive_submissions [OF a]
  note start = launch_and_check_effect [of _ h e "alias" "the (launch conn)" "endpoint conn" now ht]
  show ?thesis
  proof (cases "\<exists>rec. life_rec h alias = Some rec \<and> life_status rec = RUNNING \<and> b")
    case True
    then obtain rec where r: "life_rec h alias = Some rec" "life_status rec = RUNNING" b by blast
    then show ?thesis
      using m rd a sub
      by (auto simp: ensure_started_def life_rec_def store_life_app start_report_def
          intro!: start_effect_store)
  next
    case False
    then obtain f0 u where "submissions u = submissions (snd h)"
      "ensure_started e alias conn now ht h =
       launch_and_check e alias (the (launch conn)) (endpoint conn) now ht (content (fst h)) (f0, u)"
      using m rd a sub by (cases "life_rec h alias"; cases h)
        (force simp: ensure_started_def life_rec_def split: if_splits)+
    then show ?thesis using start [of u f0] m by auto
  qed
qed

section \<open>Idle shutdown\<close>

definition stopped_life :: "life \<Rightarrow> life" where
  "stopped_life rec = rec\<lparr>life_status := STOPPED, life_pid := None\<rparr>"

lemma stop_loop_eq:
  "fst (stop_loop conns now data u) =
     (map (\<lambda>(a, r). (a, if stoppable conns now a r then stopped_life r else r)) data,
      map fst (filter (\<lambda>(a, r). stoppable conns now a r) data))"
proof (induction data arbitrary: u)
  case (Cons p data)
  obtain a r where p: "p = (a, r)" by (cases p)
  have split: "stop_loop conns now rest u' = ((fst (fst x), snd (fst x)), snd x)"
    if "x = stop_loop conns now rest u'" for rest u' x using that by simp
  show ?case
    using Cons [of u] Cons [of "default_stop a r u"]
    by (simp add: p stopped_life_def split_beta del: split_paired_All)
qed simp

text \<open>The processes asked to terminate, latest first.\<close>

lemma stop_loop_trace:
  "trace (snd (stop_loop conns now data u)) =
     rev (List.map_filter (\<lambda>(a, r). if stoppable conns now a r then map_option (Terminate a) (life_pid r) else None) data)
       @ trace u"
proof (induction data arbitrary: u)
  case (Cons p data)
  obtain a r where p: "p = (a, r)" by (cases p)
  show ?case
    using Cons [of u] Cons [of "default_stop a r u"]
    by (auto simp: p default_stop_def List.map_filter_def split: prod.splits option.splits)
qed (simp add: List.map_filter_def)

lemma stoppable_idle:
  "stoppable conns now a r \<Longrightarrow>
     life_status r = RUNNING \<and> active_runs r \<le> 0 \<and>
     (\<exists>conn. map_of conns a = Some conn \<and> is_managed conn)"
  by (auto simp: stoppable_def split: option.splits)

lemma stoppable_iff:
  "stoppable conns now a r \<longleftrightarrow>
     (\<exists>conn. map_of conns a = Some conn \<and> launch conn \<notin> {None, Some []} \<and> life_status r = RUNNING \<and> active_runs r \<le> 0 \<and>
        last_active r + (case idle_after conn of None \<Rightarrow> DEFAULT_IDLE_AFTER | Some t \<Rightarrow> t) \<le> now)"
proof (cases "map_of conns a")
  case (Some conn)
  then show ?thesis
    by (cases "launch conn"; cases "idle_after conn") (auto simp: stoppable_def is_managed_def)
qed (simp add: stoppable_def)

lemma map_of_map_dict: "map_of (map (\<lambda>(a, r). (a, f a r)) d) x = map_option (f x) (map_of d x)"
  by (induction d) auto

lemma stop_idle_eq:
  assumes rd: "readable (fst h)"
  shows "\<exists>h'. stop_idle conns now h =
      (Inr (map fst (filter (\<lambda>(a, r). stoppable conns now a r) (content (fst h)))), h') \<and>
    (\<forall>x. life_rec h' x =
      map_option (\<lambda>r. if stoppable conns now x r then stopped_life r else r) (life_rec h x)) \<and>
    trace (snd h') = rev (List.map_filter
      (\<lambda>(a, r). if stoppable conns now a r then map_option (Terminate a) (life_pid r) else None)
      (content (fst h))) @ trace (snd h)"
proof -
  obtain data stopped u where l: "stop_loop conns now (content (fst h)) (snd h) = ((data, stopped), u)"
    by (metis prod.collapse)
  have data: "data = map (\<lambda>(a, r). (a, if stoppable conns now a r then stopped_life r else r)) (content (fst h))"
    and stopped: "stopped = map fst (filter (\<lambda>(a, r). stoppable conns now a r) (content (fst h)))"
    using stop_loop_eq [of conns now "content (fst h)" "snd h"] l by simp_all
  have new: "map_of data x =
      map_option (\<lambda>r. if stoppable conns now x r then stopped_life r else r) (life_rec h x)" for x
    by (simp add: data life_rec_def map_of_map_dict)
  have same: "life_rec h x = map_of data x" if "stopped = []" for x
  proof -
    have "\<forall>(a, r) \<in> set (content (fst h)). \<not> stoppable conns now a r"
      using that by (auto simp: stopped filter_empty_conv)
    then have "data = content (fst h)"
      unfolding data by (intro map_idI) auto
    then show ?thesis by (simp add: life_rec_def)
  qed
  have tr: "trace u = rev (List.map_filter
      (\<lambda>(a, r). if stoppable conns now a r then map_option (Terminate a) (life_pid r) else None)
      (content (fst h))) @ trace (snd h)"
    using stop_loop_trace [of conns now "content (fst h)" "snd h"] l by simp
  show ?thesis
  proof (cases "stopped = []")
    case True
    then have "stop_idle conns now h = (Inr stopped, (fst h, u))"
      using rd l by (simp add: stop_idle_def)
    then show ?thesis using same [OF True] new tr stopped by (auto simp: life_rec_def)
  next
    case False
    then have "stop_idle conns now h = (Inr stopped, (Holds (sorted_keys data), u))"
      using rd l by (simp add: stop_idle_def)
    then show ?thesis using new tr stopped by (auto simp: life_rec_def)
  qed
qed

lemma release_active_eq:
  assumes rd: "readable f" and m: "is_managed conn"
  shows "\<exists>f'. release_active alias conn now f = (Inr (), f') \<and>
    map_of (content f') = (case map_of (content f) alias of
        Some rec \<Rightarrow> (if life_status rec = RUNNING then
            (map_of (content f))(alias \<mapsto> rec\<lparr>active_runs := max 0 (active_runs rec - 1), last_active := now\<rparr>)
          else map_of (content f))
      | None \<Rightarrow> map_of (content f))"
  using assms by (auto simp: release_active_def update_conv' split: option.splits)

section \<open>Properties\<close>

text \<open>
  Starting a Deployment reports what it recorded, raises nothing, submits nothing and touches no
  other alias: an external Deployment leaves the store and the outside alone; a reported start left a
  RUNNING record, activity counted; a reported failure left a START_FAILED record with the error and
  no activity.
\<close>

theorem start_reports_what_it_records:
  assumes "readable (fst h)"
  shows "\<exists>st h'. ensure_started e alias conn now ht h = (Inr st, h') \<and>
    submissions (snd h') = submissions (snd h) \<and>
    (\<forall>x. x \<noteq> alias \<longrightarrow> life_rec h' x = life_rec h x) \<and>
    (case st of
       Started_External \<Rightarrow> \<not> is_managed conn \<and> h' = h
     | Started_Running pid \<Rightarrow> is_managed conn \<and>
         (\<exists>rec. life_rec h' alias = Some rec \<and> life_status rec = RUNNING \<and> life_pid rec = pid \<and>
            last_active rec = now \<and>
            (active_runs rec = 1 \<or> (\<exists>old. life_rec h alias = Some old \<and> active_runs rec = active_runs old + 1)))
     | Start_Failed m \<Rightarrow> is_managed conn \<and>
         (\<exists>rec. life_rec h' alias = Some rec \<and> life_status rec = START_FAILED \<and> active_runs rec = 0 \<and>
            last_error rec = Some m))"
proof -
  from ensure_started_effect [OF assms, of e "alias" conn now ht] obtain st h' where
    r: "ensure_started e alias conn now ht h = (Inr st, h')" "(st = Started_External) = (\<not> is_managed conn)"
    "start_effect alias now h st h'" "st = Started_External \<longrightarrow> h' = h" by blast
  show ?thesis
    by (rule exI [of _ st], rule exI [of _ h'])
      (use r in \<open>cases st; auto simp: start_effect_def start_report_def\<close>)
qed

definition up_env :: env where
  "up_env = \<lparr>server = (\<lambda>tr _. if length tr \<le> 1 then TimedOut else Reply 200 None),
     start_process = (\<lambda>_ _ _. Inr 7), clock_drift = (\<lambda>_. 1), format_number = (\<lambda>_. [])\<rparr>"

definition managed_conn :: connection where
  "managed_conn = \<lparr>endpoint = ''http://h'', launch = Some [''run''], idle_after = Some 5,
     auth_endpoint = None, graph_map = None\<rparr>"

definition quiet_host :: "life dict \<Rightarrow> host" where
  "quiet_host d = (Holds d, \<lparr>trace = [], mono_now = 0, clock_reads = 0\<rparr>)"

theorem start_reports_what_it_records_witness:
  "\<exists>st h'. ensure_started up_env ''x'' managed_conn 3 30 (quiet_host []) = (Inr st, h') \<and>
     life_rec h' ''other'' = None \<and> st \<noteq> Started_External"
proof -
  have "readable (fst (quiet_host []))" by (simp add: quiet_host_def)
  from start_reports_what_it_records [OF this, of up_env "''x''" managed_conn 3 30] obtain st h' where
    "ensure_started up_env ''x'' managed_conn 3 30 (quiet_host []) = (Inr st, h')"
    "life_rec h' ''other'' = life_rec (quiet_host []) ''other''" "st = Started_External \<longrightarrow> \<not> is_managed managed_conn"
    by (elim exE conjE) (rule_tac that, assumption, simp, simp split: started.splits)
  then show ?thesis
    by (intro exI [of _ st] exI [of _ h']) (auto simp: quiet_host_def life_rec_def managed_conn_def is_managed_def)
qed

text \<open>
  C39. Idle shutdown stops exactly the idle ones. An alias is returned precisely when it is registered with a launch
  command, recorded RUNNING, no Run is active on it and its own idle time (or the default, when it declares none) has
  passed since its last activity. Such an alias is recorded STOPPED without a process, every other record stays as it
  is, and all that happens outside is that the processes recorded for the returned aliases are asked to terminate.
\<close>

theorem stop_idle_stops_exactly_idle:
  assumes "file_ok (fst h)"
  shows "\<exists>stopped h'. stop_idle conns now h = (Inr stopped, h') \<and> distinct stopped \<and>
    (\<forall>x. x \<in> set stopped \<longleftrightarrow>
      (\<exists>r conn. life_rec h x = Some r \<and> map_of conns x = Some conn \<and> launch conn \<notin> {None, Some []} \<and>
         life_status r = RUNNING \<and> active_runs r \<le> 0 \<and>
         last_active r + (case idle_after conn of None \<Rightarrow> DEFAULT_IDLE_AFTER | Some t \<Rightarrow> t) \<le> now)) \<and>
    (\<forall>x. life_rec h' x =
      (if x \<in> set stopped then map_option (\<lambda>r. r\<lparr>life_status := STOPPED, life_pid := None\<rparr>) (life_rec h x) else life_rec h x)) \<and>
    trace (snd h') =
      rev (List.map_filter (\<lambda>x. map_option (Terminate x) (Option.bind (life_rec h x) life_pid)) stopped) @ trace (snd h)"
proof -
  let ?idle = "\<lambda>(a, r). stoppable conns now a r"
  let ?stopped = "map fst (filter ?idle (content (fst h)))"
  have d: "distinct (map fst (content (fst h)))" and rd: "readable (fst h)"
    using assms by (simp_all add: file_ok_def dict_ok_def)
  have mem: "(a, r) \<in> set (content (fst h)) \<longleftrightarrow> life_rec h a = Some r" for a r
    using d by (auto simp: life_rec_def)
  have stopped: "x \<in> set ?stopped \<longleftrightarrow> (\<exists>r. life_rec h x = Some r \<and> stoppable conns now x r)" for x
    by (force simp: mem)
  have trace: "List.map_filter (\<lambda>(a, r). if stoppable conns now a r then map_option (Terminate a) (life_pid r) else None) d =
      List.map_filter (\<lambda>x. map_option (Terminate x) (Option.bind (life_rec h x) life_pid)) (map fst (filter ?idle d))"
    if "set d \<subseteq> set (content (fst h))" for d
    using that by (induction d) (auto simp: List.map_filter_def mem)
  from stop_idle_eq [OF rd, of conns now] obtain h' where h':
      "stop_idle conns now h = (Inr ?stopped, h')"
      "\<forall>x. life_rec h' x = map_option (\<lambda>r. if stoppable conns now x r then stopped_life r else r) (life_rec h x)"
      "trace (snd h') = rev (List.map_filter
        (\<lambda>(a, r). if stoppable conns now a r then map_option (Terminate a) (life_pid r) else None) (content (fst h))) @ trace (snd h)"
    by blast
  show ?thesis
  proof (intro exI conjI)
    show "stop_idle conns now h = (Inr ?stopped, h')" by (fact h'(1))
    show "distinct ?stopped" using d by (simp add: distinct_map_filter)
    show "\<forall>x. x \<in> set ?stopped \<longleftrightarrow>
      (\<exists>r conn. life_rec h x = Some r \<and> map_of conns x = Some conn \<and> launch conn \<notin> {None, Some []} \<and>
         life_status r = RUNNING \<and> active_runs r \<le> 0 \<and>
         last_active r + (case idle_after conn of None \<Rightarrow> DEFAULT_IDLE_AFTER | Some t \<Rightarrow> t) \<le> now)"
      unfolding stopped unfolding stoppable_iff by blast
    show "\<forall>x. life_rec h' x = (if x \<in> set ?stopped
        then map_option (\<lambda>r. r\<lparr>life_status := STOPPED, life_pid := None\<rparr>) (life_rec h x) else life_rec h x)"
    proof
      fix x
      show "life_rec h' x = (if x \<in> set ?stopped
        then map_option (\<lambda>r. r\<lparr>life_status := STOPPED, life_pid := None\<rparr>) (life_rec h x) else life_rec h x)"
        unfolding stopped using h'(2) by (cases "life_rec h x") (auto simp: stopped_life_def)
    qed
    show "trace (snd h') =
      rev (List.map_filter (\<lambda>x. map_option (Terminate x) (Option.bind (life_rec h x) life_pid)) ?stopped) @ trace (snd h)"
      using h'(3) trace [OF order_refl] by simp
  qed
qed

theorem stop_idle_stops_exactly_idle_witness:
  "\<exists>stopped h'. stop_idle [(''x'', managed_conn), (''y'', managed_conn), (''z'', managed_conn)] 10 (quiet_host
      [(''x'', \<lparr>life_status = RUNNING, life_pid = Some 7, active_runs = 0, started_at = None, last_active = 5, last_error = None\<rparr>),
       (''y'', \<lparr>life_status = RUNNING, life_pid = Some 8, active_runs = 1, started_at = None, last_active = 5, last_error = None\<rparr>),
       (''z'', \<lparr>life_status = RUNNING, life_pid = Some 9, active_runs = 0, started_at = None, last_active = 6, last_error = None\<rparr>)]) =
      (Inr stopped, h') \<and> set stopped = {''x''}"
proof -
  let ?h = "quiet_host
      [(''x'', \<lparr>life_status = RUNNING, life_pid = Some 7, active_runs = 0, started_at = None, last_active = 5, last_error = None\<rparr>),
       (''y'', \<lparr>life_status = RUNNING, life_pid = Some 8, active_runs = 1, started_at = None, last_active = 5, last_error = None\<rparr>),
       (''z'', \<lparr>life_status = RUNNING, life_pid = Some 9, active_runs = 0, started_at = None, last_active = 6, last_error = None\<rparr>)]"
  have "file_ok (fst ?h)" by (simp add: quiet_host_def file_ok_def dict_ok_def)
  from stop_idle_stops_exactly_idle [OF this, of "[(''x'', managed_conn), (''y'', managed_conn), (''z'', managed_conn)]" 10]
  obtain stopped h' where
    r: "stop_idle [(''x'', managed_conn), (''y'', managed_conn), (''z'', managed_conn)] 10 ?h = (Inr stopped, h')" and
    s: "\<forall>x. x \<in> set stopped \<longleftrightarrow>
      (\<exists>r conn. life_rec ?h x = Some r \<and>
         map_of [(''x'', managed_conn), (''y'', managed_conn), (''z'', managed_conn)] x = Some conn \<and> launch conn \<notin> {None, Some []} \<and>
         life_status r = RUNNING \<and> active_runs r \<le> 0 \<and>
         last_active r + (case idle_after conn of None \<Rightarrow> DEFAULT_IDLE_AFTER | Some t \<Rightarrow> t) \<le> 10)"
    by blast
  have "set stopped = {''x''}"
    using s by (auto simp: life_rec_def quiet_host_def managed_conn_def split: if_splits)
  with r show ?thesis by blast
qed

text \<open>
  A relaunch forgets the claims that are still held: when a Deployment with several active Runs
  fails one health probe and is started again, its count is set to one, so the release of that one
  claim makes it idle while other Runs still count on it, and idle shutdown stops it.
\<close>

theorem relaunch_forgets_active_runs:
  "\<exists>e h h1 h2. life_rec h ''x'' = Some \<lparr>life_status = RUNNING, life_pid = Some 3, active_runs = 2,
        started_at = None, last_active = 0, last_error = None\<rparr> \<and>
     (\<exists>pid. ensure_started e ''x'' managed_conn 1 30 h = (Inr (Started_Running pid), h1)) \<and>
     release_active ''x'' managed_conn 2 (fst h1) = (Inr (), fst h2) \<and>
     fst (stop_idle [(''x'', managed_conn)] 10 h2) = Inr [''x'']"
proof -
  let ?h = "quiet_host [(''x'', \<lparr>life_status = RUNNING, life_pid = Some 3, active_runs = 2,
        started_at = None, last_active = 0, last_error = None\<rparr>)]"
  let ?rec = "\<lambda>n t. \<lparr>life_status = RUNNING, life_pid = Some 7, active_runs = n, started_at = Some 1,
        last_active = t, last_error = None\<rparr>"
  obtain u where s: "ensure_started up_env ''x'' managed_conn 1 30 ?h =
      (Inr (Started_Running (Some 7)), (Holds [(''x'', ?rec 1 1)], u))"
    by (simp add: ensure_started_def managed_conn_def is_managed_def quiet_host_def default_is_alive_def http_def
        up_env_def health_request_def answers_200_def launch_and_check_def default_launch_def Let_def
        default_health_check_def monotonic_def health_loop.simps store_life_app sorted_keys_def)
  have r: "release_active ''x'' managed_conn 2 (Holds [(''x'', ?rec 1 1)]) = (Inr (), Holds [(''x'', ?rec 0 2)])"
    by (simp add: release_active_def managed_conn_def is_managed_def sorted_keys_def)
  have t: "fst (stop_idle [(''x'', managed_conn)] 10 (Holds [(''x'', ?rec 0 2)], u)) = Inr [''x'']"
    by (simp add: stop_idle_def stoppable_def managed_conn_def is_managed_def)
  show ?thesis
    by (rule exI [of _ up_env], rule exI [of _ ?h], rule exI [of _ "(Holds [(''x'', ?rec 1 1)], u)"],
        rule exI [of _ "(Holds [(''x'', ?rec 0 2)], u)"])
      (use s r t in \<open>auto simp: life_rec_def quiet_host_def\<close>)
qed

end
