(* ===== verification/World.thy ===== *)
theory World
  imports Wp Rules Connections Concurrency Signal_Dedupe Response_Dedupe Run_Continuity Approval_Expiry
    Pending_Completions Aegra_Backend Deployment_Lifecycle
begin

text \<open>
  The board directory as one state: every store file under \<^verbatim>\<open>.cordboard/\<close> and the outside world, and
  the programs of the components run on their part of it.
\<close>

record unmatched_entry =
  u_signal_type :: string
  u_signal_id :: string
  u_reason :: string

record world =
  w_rules :: rules_file
  w_conns :: conn_file
  w_claims :: claim_file
  w_signals :: dedupe_file
  w_pending :: pending_file
  w_cont :: continuity_file
  w_life :: life_file
  w_responses :: response_file
  w_expiry :: expiry_file
  w_unmatched :: "unmatched_entry list store_file"
  w_out :: outside

definition on_rules :: "(rules_file, 'a) prog \<Rightarrow> (world, 'a) prog" where
  "on_rules m = zoom w_rules (\<lambda>f w. w\<lparr>w_rules := f\<rparr>) m"

definition on_conns :: "(conn_file, 'a) prog \<Rightarrow> (world, 'a) prog" where
  "on_conns m = zoom w_conns (\<lambda>f w. w\<lparr>w_conns := f\<rparr>) m"

definition on_claims :: "(claim_file, 'a) prog \<Rightarrow> (world, 'a) prog" where
  "on_claims m = zoom w_claims (\<lambda>f w. w\<lparr>w_claims := f\<rparr>) m"

definition on_signals :: "(dedupe_file, 'a) prog \<Rightarrow> (world, 'a) prog" where
  "on_signals m = zoom w_signals (\<lambda>f w. w\<lparr>w_signals := f\<rparr>) m"

definition on_pending :: "(pending_file, 'a) prog \<Rightarrow> (world, 'a) prog" where
  "on_pending m = zoom w_pending (\<lambda>f w. w\<lparr>w_pending := f\<rparr>) m"

definition on_continuity :: "(continuity_file, 'a) prog \<Rightarrow> (world, 'a) prog" where
  "on_continuity m = zoom w_cont (\<lambda>f w. w\<lparr>w_cont := f\<rparr>) m"

definition on_life :: "(life_file, 'a) prog \<Rightarrow> (world, 'a) prog" where
  "on_life m = zoom w_life (\<lambda>f w. w\<lparr>w_life := f\<rparr>) m"

definition on_responses :: "(response_file, 'a) prog \<Rightarrow> (world, 'a) prog" where
  "on_responses m = zoom w_responses (\<lambda>f w. w\<lparr>w_responses := f\<rparr>) m"

definition on_approvals :: "(expiry_file, 'a) prog \<Rightarrow> (world, 'a) prog" where
  "on_approvals m = zoom w_expiry (\<lambda>f w. w\<lparr>w_expiry := f\<rparr>) m"

definition on_unmatched :: "(unmatched_entry list store_file, 'a) prog \<Rightarrow> (world, 'a) prog" where
  "on_unmatched m = zoom w_unmatched (\<lambda>f w. w\<lparr>w_unmatched := f\<rparr>) m"

definition on_out :: "(outside, 'a) prog \<Rightarrow> (world, 'a) prog" where
  "on_out m = zoom w_out (\<lambda>u w. w\<lparr>w_out := u\<rparr>) m"

definition on_host :: "(host, 'a) prog \<Rightarrow> (world, 'a) prog" where
  "on_host m = zoom (\<lambda>w. (w_life w, w_out w)) (\<lambda>h w. w\<lparr>w_life := fst h, w_out := snd h\<rparr>) m"

definition on_backend :: "(backend_world, 'a) prog \<Rightarrow> (world, 'a) prog" where
  "on_backend m = zoom (\<lambda>w. (w_cont w, w_out w)) (\<lambda>b w. w\<lparr>w_cont := fst b, w_out := snd b\<rparr>) m"

lemmas on_world_defs = on_rules_def on_conns_def on_claims_def on_signals_def on_pending_def
  on_continuity_def on_life_def on_responses_def on_approvals_def on_unmatched_def on_out_def
  on_host_def on_backend_def

text \<open>Every store holds what its component writes.\<close>

definition world_ok :: "world \<Rightarrow> bool" where
  "world_ok w =
     (readable (w_rules w) \<and> rules_ok (content (w_rules w)) \<and> file_ok (w_conns w) \<and>
      file_ok (w_claims w) \<and> file_ok (w_signals w) \<and> pending_inv (w_pending w) \<and>
      continuity_inv (w_cont w) \<and> file_ok (w_life w) \<and> file_ok (w_responses w) \<and>
      nested_ok (w_expiry w) \<and> readable (w_unmatched w))"

definition new_board :: "outside \<Rightarrow> world" where
  "new_board u = \<lparr>w_rules = Absent, w_conns = Absent, w_claims = Absent, w_signals = Absent,
     w_pending = Absent, w_cont = Absent, w_life = Absent, w_responses = Absent, w_expiry = Absent,
     w_unmatched = Absent, w_out = u\<rparr>"

lemma world_ok_new_board: "world_ok (new_board u)"
  by (simp add: world_ok_def new_board_def rules_ok_def pending_inv_Absent continuity_inv_Absent)

section \<open>Specifications of the operations, for any store content\<close>

text \<open>Each says what an operation leaves of the invariant of its store, and what its answer means.\<close>

lemma try_claim_wp:
  assumes "file_ok f"
  shows "wp (try_claim a s now stale) (\<lambda>r f'. file_ok f' \<and>
    (case r of
       Inl e \<Rightarrow> f' = f
     | Inr b \<Rightarrow> pair_valid (Claim_Pair a s) \<and> b = (\<not> pair_live now stale f (Claim_Pair a s)) \<and>
         pair_claim f' = (if b then (pair_claim f)(Claim_Pair a s \<mapsto> \<lparr>claimed_at = now\<rparr>) else pair_claim f))) f"
proof (cases "pair_valid (Claim_Pair a s)")
  case True
  have rd: "readable f" using assms by auto
  show ?thesis
    using assms True try_claim_live [OF rd True] try_claim_free [OF rd True]
    by (cases "pair_live now stale f (Claim_Pair a s)") (auto simp: wp_def file_ok_def)
next
  case False
  with concurrency_key_invalid [OF False] assms show ?thesis
    by (auto simp: try_claim_def wp_def)
qed

lemma release_concurrency_wp:
  assumes "file_ok f" "pair_valid (Claim_Pair a s)"
  shows "wp (release_concurrency a s) (\<lambda>r f'. file_ok f' \<and> r = Inr () \<and>
    pair_claim f' = (pair_claim f)(Claim_Pair a s := None)) f"
  using assms release_concurrency_eq [of f a s] by (auto simp: wp_def file_ok_def)

lemma renew_concurrency_wp:
  assumes "file_ok f"
  shows "wp (renew_concurrency a s now) (\<lambda>r f'. file_ok f' \<and> (\<forall>p. (pair_claim f' p = None) = (pair_claim f p = None))) f"
proof (cases "pair_valid (Claim_Pair a s)")
  case True
  with assms renew_concurrency_eq [of f a s now] show ?thesis
    by (auto simp: wp_def file_ok_def split: option.splits if_splits)
next
  case False
  with concurrency_key_invalid [OF False] assms show ?thesis
    by (auto simp: renew_concurrency_def wp_def)
qed

lemma claim_signal_wp:
  assumes "file_ok f"
  shows "wp (claim_signal i now retention) (\<lambda>r f'. file_ok f' \<and>
    (\<forall>j c. map_of (content f) j = Some c \<and> now - claimed_at c < retention \<longrightarrow>
       map_of (content f') j = Some c) \<and>
    (case r of
       Inl e \<Rightarrow> f' = f
     | Inr b \<Rightarrow> b = (\<not> signal_live now retention f i) \<and>
         (b \<longrightarrow> map_of (content f') i = Some \<lparr>claimed_at = now\<rparr>))) f"
proof -
  obtain r f' where c: "claim_signal i now retention f = (r, f')" by (cases "claim_signal i now retention f")
  have "map_of (content f') j = Some c" if "map_of (content f) j = Some c" "now - claimed_at c < retention" for j c
    using claim_signal_record [OF assms that, of i] \<open>claim_signal i now retention f = (r, f')\<close> by simp
  moreover have "file_ok f'" by (rule claim_signal_ok [OF assms c])
  moreover have "case r of
       Inl e \<Rightarrow> f' = f
     | Inr b \<Rightarrow> b = (\<not> signal_live now retention f i) \<and>
         (b \<longrightarrow> map_of (content f') i = Some \<lparr>claimed_at = now\<rparr>)"
  proof (cases "blank i")
    case True
    with c show ?thesis by (auto simp: claim_signal_def)
  next
    case False
    with c assms show ?thesis by (auto simp: claim_signal_eq update_conv')
  qed
  ultimately show ?thesis using c by (simp add: wp_def)
qed

lemma record_submission_wp:
  assumes "continuity_inv f"
  shows "wp (record_submission d t a) (\<lambda>r f'. continuity_inv f' \<and>
    (case r of Inl e \<Rightarrow> f' = f
     | Inr l \<Rightarrow> thread_record f' d t = Some (extended (thread_record f d t) a) \<and>
         l = logical_id (extended (thread_record f d t) a))) f"
proof (cases "\<not> blank d \<and> \<not> blank t \<and> \<not> blank a")
  case True
  from record_submission_eq [OF assms] True obtain f' where
    "record_submission d t a f = (Inr (logical_id (extended (thread_record f d t) a)), f')"
    "continuity_inv f'" "thread_record f' d t = Some (extended (thread_record f d t) a)" by metis
  then show ?thesis by (simp add: wp_def)
next
  case False
  with record_submission_invalid [of d t a f] assms show ?thesis by (auto simp: wp_def)
qed

lemma record_pending_wp:
  assumes "pending_inv f"
  shows "wp (record_pending d t i a s n ch dh now) (\<lambda>r f'. pending_inv f' \<and>
    (case r of Inl e \<Rightarrow> f' = f
     | Inr _ \<Rightarrow> pending_entry f' d t =
         Some \<lparr>p_deployment = d, p_thread_id = t, p_invocation_id = i, p_assistant = a, p_subject = s,
               p_cascade_depth = n, p_concurrency_held = ch, p_deployment_held = dh, p_recorded_at = now\<rparr>)) f"
proof (cases "\<not> blank d \<and> \<not> blank t \<and> \<not> blank i \<and> \<not> blank a \<and> \<not> blank s \<and> 0 \<le> n")
  case True
  have rd: "readable f" using assms by (auto simp: pending_inv_def)
  show ?thesis
    using True record_pending_eq [OF rd, of d t i a s n ch dh now] record_pending_inv [OF assms, of d t i a s n ch dh now]
    by (auto simp: wp_def pending_entry_def update_conv')
next
  case False
  then show ?thesis
    using assms by (auto simp: wp_def record_pending_def)
qed

lemma ensure_started_wp:
  assumes "file_ok (fst h)"
  shows "wp (ensure_started e alias conn now ht) (\<lambda>r h'. file_ok (fst h') \<and>
    submissions (snd h') = submissions (snd h) \<and> (\<exists>st. r = Inr st)) h"
  using ensure_started_effect [of h e "alias" conn now ht] assms
  by (auto simp: wp_def file_ok_def start_effect_def)

lemma release_active_wp:
  assumes "file_ok f"
  shows "wp (release_active alias conn now) (\<lambda>r f'. file_ok f' \<and> r = Inr ()) f"
  using assms by (auto simp: wp_def release_active_def file_ok_def split: option.splits)

lemma execute_wp:
  "wp (execute e ep a sub inp ctx timeout cb n) (\<lambda>r u'.
     submissions u' = submissions u \<and> (\<exists>x. r = Inl x) \<or>
     \<not> blank sub \<and> (\<exists>t. submissions u' = Http (execute_request ep t a sub inp ctx cb n) # submissions u)) u"
  by (cases rule: execute_cases [of e ep a sub inp ctx timeout cb n u]) (auto simp: wp_def)

end
