(* ===== verification/Router.thy ===== *)
theory Router
  imports World
begin

text \<open>
  \<^verbatim>\<open>router.py\<close>: the one path from a Signal through its first matching Rule to an execution, the
  \<open>run.finished\<close> cascade, and the sweep that finishes observing Runs that outlived their call.
  The variables \<^verbatim>\<open>retain_deployment_claim\<close> and \<^verbatim>\<open>retain_concurrency_claim\<close> that the
  \<^verbatim>\<open>finally\<close> reads are part of the state of the protected block.
\<close>

definition MAX_CASCADE_DEPTH :: int where "MAX_CASCADE_DEPTH = 5"

definition STALE_CLAIM_BUFFER :: seconds where "STALE_CLAIM_BUFFER = 30"

definition HEALTH_TIMEOUT :: seconds where "HEALTH_TIMEOUT = 30"

section \<open>Matching\<close>

definition lookup_path :: "json dict \<Rightarrow> string \<Rightarrow> exn + json" where
  "lookup_path p path =
     (case lookup_parts (JObj p) (split_on (CHR ''.'') path) of
        None \<Rightarrow> Inl (Exn MappingError (''path '' @ quoted path @ '' not found in signal payload''))
      | Some j \<Rightarrow> Inr j)"

definition holds_cond :: "json dict \<Rightarrow> string \<times> json \<Rightarrow> bool" where
  "holds_cond p c = (case lookup_path p (fst c) of Inl _ \<Rightarrow> False | Inr j \<Rightarrow> py_eq j (snd c))"

definition matches :: "rule \<Rightarrow> signal \<Rightarrow> exn + bool" where
  "matches r sg =
     (if rule_signal_type r \<noteq> sig_type sg then Inr False
      else if rule_signal_type r = ''run.finished''
      then (case when_cond r of
              None \<Rightarrow> Inl (Exn PyKeyError (quoted ''when''))
            | Some w \<Rightarrow> Inr (list_all (holds_cond (payload sg)) w))
      else Inr (list_all (holds_cond (payload sg)) (case match_cond r of None \<Rightarrow> [] | Some m \<Rightarrow> m)))"

fun matching_rules :: "rule list \<Rightarrow> signal \<Rightarrow> exn + rule list" where
  "matching_rules [] sg = Inr []"
| "matching_rules (r # rs) sg =
     (case matches r sg of
        Inl x \<Rightarrow> Inl x
      | Inr b \<Rightarrow>
          (case matching_rules rs sg of
             Inl x \<Rightarrow> Inl x
           | Inr ms \<Rightarrow> Inr (if b then r # ms else ms)))"

fun map_input :: "json dict \<Rightarrow> string dict \<Rightarrow> exn + json dict" where
  "map_input p [] = Inr []"
| "map_input p ((key, path) # rest) =
     (case lookup_path p path of
        Inl x \<Rightarrow> Inl x
      | Inr j \<Rightarrow> (case map_input p rest of Inl x \<Rightarrow> Inl x | Inr d \<Rightarrow> Inr ((key, j) # d)))"

datatype applied = Applied (ap_input: "json dict") (ap_subject: string)

definition apply_rule :: "rule \<Rightarrow> signal \<Rightarrow> exn + applied" where
  "apply_rule r sg =
     (case map_input (payload sg) (input_map r) of
        Inl x \<Rightarrow> Inl x
      | Inr graph_input \<Rightarrow>
     (case lookup_path (payload sg) (rule_subject r) of
        Inl x \<Rightarrow> Inl x
      | Inr j \<Rightarrow>
          (case nonblank_str (Some j) of
             None \<Rightarrow> Inl (Exn MappingError (''Subject path '' @ quoted (rule_subject r) @
                       '' did not resolve to a non-empty string''))
           | Some subject \<Rightarrow> Inr (Applied graph_input subject))))"

text \<open>
  The sanitized diagnostics of a Signal that went nowhere. A file that is not JSON is started anew;
  JSON that is no list has no \<^verbatim>\<open>append\<close>.
\<close>

definition record_unmatched :: "signal \<Rightarrow> string \<Rightarrow> (unmatched_entry list store_file, unit) prog" where
  "record_unmatched sg why f =
     (let entry = \<lparr>u_signal_type = sig_type sg, u_signal_id = sig_id sg, u_reason = why\<rparr> in
      case f of
        WrongShape \<Rightarrow> (Inl (Exn PyAttributeError ''object has no attribute append''), f)
      | _ \<Rightarrow> (Inr (), Holds (content f @ [entry])))"

section \<open>Routing one Signal\<close>

text \<open>What \<^verbatim>\<open>route_signal\<close> returns; a routed Signal may carry the outcome of its cascade.\<close>

datatype route_response =
    Routed string string exec_result "route_response option"
  | Unmatched string
  | Invalid_Mapping string string
  | Concurrency_Skipped string string
  | Deployment_Unavailable string string string
  | Duplicate string string
  | Cascade_Depth_Exceeded string int
  | Execution_Failed string string string

text \<open>\<^verbatim>\<open>payload.get('cascade_depth', 0)\<close>, which a \<open>run.finished\<close> Signal carries as an int.\<close>

definition payload_depth :: "signal \<Rightarrow> exn + int" where
  "payload_depth sg =
     (case map_of (payload sg) ''cascade_depth'' of
        None \<Rightarrow> Inr 0
      | Some (JInt n) \<Rightarrow> Inr n
      | Some _ \<Rightarrow> Inl (Exn PyTypeError ''cascade depth is no int''))"

definition is_finished :: "signal \<Rightarrow> bool" where
  "is_finished sg = (sig_type sg = ''run.finished'')"

definition caused_by_of :: "signal \<Rightarrow> exn + string option" where
  "caused_by_of sg =
     (if is_finished sg then map_sum id Some (str_field (JObj (payload sg)) ''run_id'') else Inr None)"

definition child_depth_of :: "signal \<Rightarrow> exn + int" where
  "child_depth_of sg = (if is_finished sg then map_sum id (\<lambda>n. n + 1) (payload_depth sg) else Inr 0)"

definition over_depth :: "signal \<Rightarrow> exn + int option" where
  "over_depth sg =
     (if is_finished sg
      then map_sum id (\<lambda>n. if MAX_CASCADE_DEPTH \<le> n then Some n else None) (payload_depth sg)
      else Inr None)"

definition depth_reason :: "int \<Rightarrow> string" where
  "depth_reason n = ''cascade depth '' @ show_int n @ '' is at the maximum of '' @ show_int MAX_CASCADE_DEPTH"

text \<open>The state inside \<^verbatim>\<open>try ... finally\<close>.\<close>

record routing =
  r_world :: world
  r_retain_deployment :: bool
  r_retain_concurrency :: bool

definition in_world :: "(world, 'a) prog \<Rightarrow> (routing, 'a) prog" where
  "in_world m = zoom r_world (\<lambda>w r. r\<lparr>r_world := w\<rparr>) m"

text \<open>What the call works on once a Rule has matched and its mapping has resolved.\<close>

record target =
  t_signal_id :: string
  t_rule_name :: string
  t_alias :: string
  t_conn :: connection
  t_assistant :: string
  t_subject :: string
  t_input :: "json dict"
  t_caused_by :: "string option"
  t_depth :: int

definition has_ids :: "exec_result \<Rightarrow> bool" where
  "has_ids res = (er_thread_id res \<noteq> [] \<and> er_run_id res \<noteq> [])"

text \<open>After an execution: anchor its Thread, and remember a Run that is still waiting.\<close>

definition record_result :: "target \<Rightarrow> seconds \<Rightarrow> exec_result \<Rightarrow> (routing, unit) prog" where
  "record_result t now res =
     andthen (only_if (has_ids res)
       (in_world (on_continuity (discard
          (record_submission (t_alias t) (er_thread_id res) (er_run_id res)))))) (\<lambda>_.
     case er_status res of
       Success _ \<Rightarrow> ret ()
     | Waiting why \<Rightarrow>
         only_if (has_ids res)
           (let still_running = (why \<noteq> Interrupted) in
            andthen (changing (\<lambda>r. r\<lparr>r_retain_deployment := still_running,
                                     r_retain_concurrency := still_running\<rparr>)) (\<lambda>_.
            in_world (on_pending
              (record_pending (t_alias t) (er_thread_id res) (er_run_id res) (t_assistant t)
                 (t_subject t) (t_depth t) still_running still_running now)))))"

definition submission_failure :: "exc_class \<Rightarrow> bool" where
  "submission_failure c = (is_value_error c \<or> c = PyRuntimeError)"

definition submit_claimed :: "env \<Rightarrow> seconds \<Rightarrow> seconds \<Rightarrow> target \<Rightarrow> (routing, route_response) prog" where
  "submit_claimed e timeout now t =
     andthen (tried submission_failure (in_world (on_out
       (execute e (endpoint (t_conn t)) (t_assistant t) (t_subject t) (JObj (t_input t)) None
          timeout (t_caused_by t) (t_depth t))))) (\<lambda>outcome.
     case outcome of
       Inl x \<Rightarrow> ret (Execution_Failed (t_signal_id t) (t_rule_name t) (exn_msg x))
     | Inr res \<Rightarrow>
         andthen (record_result t now res) (\<lambda>_.
         ret (Routed (t_signal_id t) (t_rule_name t) res None)))"

definition claim_and_submit :: "env \<Rightarrow> seconds \<Rightarrow> seconds \<Rightarrow> target \<Rightarrow> (routing, route_response) prog" where
  "claim_and_submit e timeout now t =
     andthen (in_world (on_signals
       (claim_signal (t_signal_id t) now DEFAULT_RETENTION_SECONDS))) (\<lambda>fresh.
     if \<not> fresh then ret (Duplicate (t_signal_id t) (t_rule_name t))
     else submit_claimed e timeout now t)"

definition route_body :: "env \<Rightarrow> seconds \<Rightarrow> seconds \<Rightarrow> target \<Rightarrow> (routing, route_response) prog" where
  "route_body e timeout now t =
     andthen (in_world (on_host (ensure_started e (t_alias t) (t_conn t) now HEALTH_TIMEOUT))) (\<lambda>started.
       case started of
         Start_Failed m \<Rightarrow> ret (Deployment_Unavailable (t_signal_id t) (t_rule_name t) m)
       | _ \<Rightarrow> claim_and_submit e timeout now t)"

definition release_claims :: "seconds \<Rightarrow> target \<Rightarrow> (routing, unit) prog" where
  "release_claims now t r =
     andthen (only_if (\<not> r_retain_deployment r)
       (in_world (on_life (release_active (t_alias t) (t_conn t) now)))) (\<lambda>_.
     only_if (\<not> r_retain_concurrency r)
       (in_world (on_claims (release_concurrency (t_assistant t) (t_subject t))))) r"

definition guarded_body :: "env \<Rightarrow> seconds \<Rightarrow> seconds \<Rightarrow> target \<Rightarrow> (world, route_response) prog" where
  "guarded_body e timeout now t w =
     (case ensuring (route_body e timeout now t) (release_claims now t)
             \<lparr>r_world = w, r_retain_deployment = False, r_retain_concurrency = False\<rparr> of
        (resp, r) \<Rightarrow> (resp, r_world r))"

text \<open>A finished call, or one that goes on to route its Run's own \<open>run.finished\<close> Signal.\<close>

datatype route_step = Answer route_response | Chain route_response signal

definition follow_up :: "target \<Rightarrow> route_response \<Rightarrow> exn + route_step" where
  "follow_up t resp =
     (case resp of
        Routed sid rn res c \<Rightarrow>
          (case er_status res of
             Success _ \<Rightarrow>
               if er_run_id res \<noteq> []
               then map_sum id (Chain resp)
                      (run_finished_signal (er_run_id res) (t_subject t) (t_alias t) (t_assistant t)
                         ''success'' (t_depth t))
               else Inr (Answer resp)
           | _ \<Rightarrow> Inr (Answer resp))
      | _ \<Rightarrow> Inr (Answer resp))"

definition mapping_failure :: "exc_class \<Rightarrow> bool" where
  "mapping_failure c = (c = MappingError \<or> c = InvalidConnection)"

datatype resolved = Resolved applied connection

definition resolve_target :: "rule \<Rightarrow> signal \<Rightarrow> (world, resolved) prog" where
  "resolve_target rule sg =
     andthen (attempt (apply_rule rule sg)) (\<lambda>ap.
     andthen (on_conns (reading (get_connection (rule_connection rule)))) (\<lambda>conn.
     ret (Resolved ap conn)))"

definition claim_stale_after :: "seconds \<Rightarrow> seconds" where
  "claim_stale_after timeout = timeout + HEALTH_TIMEOUT + STALE_CLAIM_BUFFER"

definition route_matched ::
  "env \<Rightarrow> seconds \<Rightarrow> seconds \<Rightarrow> signal \<Rightarrow> rule \<Rightarrow> (world, route_step) prog" where
  "route_matched e timeout now sg rule =
     andthen (tried mapping_failure (resolve_target rule sg)) (\<lambda>r.
       case r of
         Inl x \<Rightarrow>
           andthen (on_unmatched (record_unmatched sg (exn_msg x)))
             (\<lambda>_. ret (Answer (Invalid_Mapping (sig_id sg) (rule_name rule))))
       | Inr (Resolved ap conn) \<Rightarrow>
           andthen (attempt (caused_by_of sg)) (\<lambda>caused_by.
           andthen (attempt (child_depth_of sg)) (\<lambda>depth.
           andthen (on_claims (try_claim (rule_assistant rule) (ap_subject ap) now (claim_stale_after timeout)))
             (\<lambda>got.
             if \<not> got then ret (Answer (Concurrency_Skipped (sig_id sg) (rule_name rule)))
             else
               let t = \<lparr>t_signal_id = sig_id sg, t_rule_name = rule_name rule,
                        t_alias = rule_connection rule, t_conn = conn, t_assistant = rule_assistant rule,
                        t_subject = ap_subject ap, t_input = ap_input ap, t_caused_by = caused_by,
                        t_depth = depth\<rparr>
               in andthen (guarded_body e timeout now t) (\<lambda>resp. attempt (follow_up t resp))))))"

definition route_once :: "env \<Rightarrow> seconds \<Rightarrow> seconds \<Rightarrow> signal \<Rightarrow> (world, route_step) prog" where
  "route_once e timeout now sg =
     andthen (attempt (over_depth sg)) (\<lambda>over.
       case over of
         Some depth \<Rightarrow>
           andthen (on_unmatched (record_unmatched sg (depth_reason depth)))
             (\<lambda>_. ret (Answer (Cascade_Depth_Exceeded (sig_id sg) depth)))
       | None \<Rightarrow>
           andthen (on_rules (reading load_rules)) (\<lambda>rules.
           andthen (attempt (matching_rules rules sg)) (\<lambda>matching.
             case matching of
               [] \<Rightarrow>
                 andthen (on_unmatched (record_unmatched sg ''no rule declared for this signal''))
                   (\<lambda>_. ret (Answer (Unmatched (sig_id sg))))
             | rule # _ \<Rightarrow> route_matched e timeout now sg rule)))"

definition with_cascade :: "route_response \<Rightarrow> route_response \<Rightarrow> route_response" where
  "with_cascade resp c = (case resp of Routed sid rn res _ \<Rightarrow> Routed sid rn res (Some c) | _ \<Rightarrow> resp)"

text \<open>How many calls may still follow: the measure of the cascade.\<close>

definition cascade_left :: "signal \<Rightarrow> nat" where
  "cascade_left sg =
     (if is_finished sg then (case payload_depth sg of Inl _ \<Rightarrow> 0 | Inr n \<Rightarrow> nat (MAX_CASCADE_DEPTH - n))
      else Suc (nat MAX_CASCADE_DEPTH))"

lemma follow_up_chain:
  "follow_up t resp = Inr (Chain resp' fin) \<Longrightarrow>
   resp' = resp \<and> is_finished fin \<and> payload_depth fin = Inr (t_depth t) \<and> 0 \<le> t_depth t \<and>
   (\<exists>i rn res c. resp = Routed i rn res c \<and> sig_id fin = run_finished_id (er_run_id res))"
  by (auto simp: follow_up_def run_finished_signal_Inr is_finished_def payload_depth_def
      split: route_response.splits exec_status.splits if_splits sum.splits)

lemma route_matched_chain:
  "wp (route_matched e timeout now sg rule) (\<lambda>r w'. \<forall>resp fin. r = Inr (Chain resp fin) \<longrightarrow>
     (\<exists>n. child_depth_of sg = Inr n \<and> 0 \<le> n \<and> is_finished fin \<and> payload_depth fin = Inr n) \<and>
     (\<exists>i rn res c. resp = Routed i rn res c \<and> sig_id fin = run_finished_id (er_run_id res))) w"
  unfolding route_matched_def
  by (auto simp: Let_def on_unmatched_def on_claims_def dest!: follow_up_chain split: sum.splits resolved.splits
      intro!: wpI)

lemma over_depth_None:
  "over_depth sg = Inr None \<Longrightarrow> is_finished sg \<Longrightarrow> \<exists>n. payload_depth sg = Inr n \<and> n < MAX_CASCADE_DEPTH"
  by (auto simp: over_depth_def split: if_splits)

lemma route_once_chain:
  "wp (route_once e timeout now sg) (\<lambda>r w'. \<forall>resp fin. r = Inr (Chain resp fin) \<longrightarrow>
     over_depth sg = Inr None \<and>
     (\<exists>n. child_depth_of sg = Inr n \<and> 0 \<le> n \<and> is_finished fin \<and> payload_depth fin = Inr n) \<and>
     (\<exists>i rn res c. resp = Routed i rn res c \<and> sig_id fin = run_finished_id (er_run_id res))) w"
  unfolding route_once_def
  by (auto simp: on_unmatched_def on_rules_def split: option.splits list.splits
      intro!: wp_mono [OF route_matched_chain])

lemma route_once_decreases:
  assumes "route_once e timeout now sg w = (Inr (Chain resp fin), w')"
  shows "cascade_left fin < cascade_left sg"
proof -
  from wpD [OF route_once_chain assms] obtain n where
    o: "over_depth sg = Inr None" "child_depth_of sg = Inr n" "0 \<le> n" "is_finished fin" "payload_depth fin = Inr n"
    by auto
  show ?thesis
  proof (cases "is_finished sg")
    case True
    with over_depth_None [OF o(1) True] o show ?thesis
      by (auto simp: cascade_left_def child_depth_of_def)
  next
    case False
    with o show ?thesis by (auto simp: cascade_left_def child_depth_of_def)
  qed
qed

function route_signal :: "env \<Rightarrow> seconds \<Rightarrow> seconds \<Rightarrow> signal \<Rightarrow> (world, route_response) prog" where
  "route_signal e timeout now sg w =
     (case route_once e timeout now sg w of
        (Inl x, w1) \<Rightarrow> (Inl x, w1)
      | (Inr (Answer resp), w1) \<Rightarrow> (Inr resp, w1)
      | (Inr (Chain resp finished), w1) \<Rightarrow>
          (case route_signal e timeout now finished w1 of
             (Inl x, w2) \<Rightarrow> (Inl x, w2)
           | (Inr c, w2) \<Rightarrow> (Inr (with_cascade resp c), w2)))"
  by pat_completeness auto
termination
  by (relation "measure (\<lambda>(e, timeout, now, sg, w). cascade_left sg)")
    (auto intro: route_once_decreases [OF sym])

declare route_signal.simps [simp del]

section \<open>The sweep\<close>

text \<open>\<^verbatim>\<open>_default_status_check\<close>\<close>

definition default_status_check :: "env \<Rightarrow> string \<Rightarrow> string \<Rightarrow> string \<Rightarrow> (outside, json) prog" where
  "default_status_check e ep thread_id invocation_id =
     andthen (describe_run e ep thread_id invocation_id) (\<lambda>info. ret (ri_status info))"

datatype swept = Swept string string json "route_response option"

definition release_held :: "connection \<Rightarrow> string \<Rightarrow> seconds \<Rightarrow> pending \<Rightarrow> (world, unit) prog" where
  "release_held conn deployment now entry =
     andthen (only_if (p_deployment_held entry) (on_life (release_active deployment conn now))) (\<lambda>_.
     only_if (p_concurrency_held entry)
       (on_claims (release_concurrency (p_assistant entry) (p_subject entry))))"

definition is_unknown_thread :: "exc_class \<Rightarrow> bool" where
  "is_unknown_thread c = (c = UnknownThread)"

text \<open>The Run's own completion Signal, routed as an immediate success would have been.\<close>

definition sweep_cascade ::
  "env \<Rightarrow> seconds \<Rightarrow> seconds \<Rightarrow> string \<Rightarrow> string \<Rightarrow> pending \<Rightarrow> (world, route_response) prog" where
  "sweep_cascade e timeout now deployment thread_id entry =
     andthen (tried is_unknown_thread (on_continuity (logical_run deployment thread_id))) (\<lambda>known.
     let run_id = (case known of Inl _ \<Rightarrow> p_invocation_id entry | Inr rec \<Rightarrow> logical_id rec) in
     andthen (attempt (run_finished_signal run_id (p_subject entry) deployment (p_assistant entry)
                ''success'' (p_cascade_depth entry))) (\<lambda>finished.
     route_signal e timeout now finished))"

definition is_transport_failure :: "exc_class \<Rightarrow> bool" where
  "is_transport_failure c = (c = PyRuntimeError)"

definition sweep_entry ::
  "env \<Rightarrow> (string \<Rightarrow> string \<Rightarrow> string \<Rightarrow> (outside, json) prog) \<Rightarrow> seconds \<Rightarrow> seconds \<Rightarrow> connection dict \<Rightarrow>
   string \<Rightarrow> pending \<Rightarrow> (world, swept list) prog" where
  "sweep_entry e status_check timeout now conns key entry =
     (case loads_strs key of
        Some [deployment, thread_id] \<Rightarrow>
          (case map_of conns deployment of
             None \<Rightarrow> ret []
           | Some conn \<Rightarrow>
               andthen (tried is_transport_failure
                 (on_out (status_check (endpoint conn) thread_id (p_invocation_id entry)))) (\<lambda>answer.
               case answer of
                 Inl _ \<Rightarrow> ret []
               | Inr raw \<Rightarrow>
                   if raw \<in> WAITING_RAW_STATUSES then
                     andthen (only_if (p_concurrency_held entry)
                       (on_claims (renew_concurrency (p_assistant entry) (p_subject entry) now)))
                       (\<lambda>_. ret [])
                   else if raw = JStr ''interrupted'' then
                     andthen (release_held conn deployment now entry) (\<lambda>_.
                     andthen (on_pending (update_pending deployment thread_id None (Some False) (Some False) now))
                       (\<lambda>_. ret [Swept deployment thread_id raw None]))
                   else
                     andthen (release_held conn deployment now entry) (\<lambda>_.
                     andthen (on_pending (resolve_pending deployment thread_id)) (\<lambda>_.
                     if raw = JStr ''success'' then
                       andthen (sweep_cascade e timeout now deployment thread_id entry)
                         (\<lambda>c. ret [Swept deployment thread_id raw (Some c)])
                     else ret [Swept deployment thread_id raw None]))))
      | _ \<Rightarrow> throw PyValueError ''not enough values to unpack'')"

definition sweep_pending ::
  "env \<Rightarrow> (string \<Rightarrow> string \<Rightarrow> string \<Rightarrow> (outside, json) prog) \<Rightarrow> seconds \<Rightarrow> seconds \<Rightarrow> (world, swept list) prog" where
  "sweep_pending e status_check timeout now =
     andthen (on_conns (reading load_connections)) (\<lambda>conns.
     andthen (on_pending (reading load_pending)) (\<lambda>entries.
     for_collect entries (\<lambda>kv. sweep_entry e status_check timeout now conns (fst kv) (snd kv))))"

end
