(* ===== verification/Topology.thy ===== *)
theory Topology
  imports Outside
begin

text \<open>
  \<^verbatim>\<open>topology.py\<close>: the optional published topology document of a Deployment, its fan-out interrupt
  warnings, and the snapshots the board keeps of it. \<^verbatim>\<open>agent_topology.spec.validate_document\<close> is
  third-party code: an argument that gives the list of errors of a document. Node and Graph addresses are
  strings, as its schema has them; any other type is a TypeError here.
\<close>

definition WELL_KNOWN_PATH :: string where
  "WELL_KNOWN_PATH = ''/.well-known/agent-topology.manifest.json''"

definition RECOGNIZED_INTERPRETATION_VERSIONS :: "string list" where
  "RECOGNIZED_INTERPRETATION_VERSIONS = [''1'', ''2'']"

text \<open>The vocabulary of a fetch and of a freshness check.\<close>

datatype topology_status = ABSENT | UNREACHABLE | INVALID | VALID | NO_SNAPSHOT | UNCHANGED | CHANGED

record topology_reading =
  tr_status :: topology_status
  tr_document :: "json option"
  tr_errors :: "string list"
  tr_reason :: "string option"

definition reading_of :: "topology_status \<Rightarrow> topology_reading" where
  "reading_of s = \<lparr>tr_status = s, tr_document = None, tr_errors = [], tr_reason = None\<rparr>"

definition unreachable_because :: "string \<Rightarrow> topology_reading" where
  "unreachable_because why = (reading_of UNREACHABLE)\<lparr>tr_reason := Some why\<rparr>"

definition invalid_because :: "string list \<Rightarrow> topology_reading" where
  "invalid_because errors = (reading_of INVALID)\<lparr>tr_errors := errors\<rparr>"

section \<open>Fetching\<close>

definition classify_reply :: "(json \<Rightarrow> string list) \<Rightarrow> reply \<Rightarrow> topology_reading" where
  "classify_reply validate_document r =
     (case r of
        TimedOut \<Rightarrow> unreachable_because ''timeout''
      | Refused \<Rightarrow> unreachable_because ''connection_error''
      | Reply code body \<Rightarrow>
          if code = 404 then reading_of ABSENT
          else if code \<noteq> 200 then unreachable_because (''http_'' @ show_int code)
          else
            (case body of
               None \<Rightarrow> invalid_because [''response body is not valid JSON'']
             | Some raw \<Rightarrow>
                 (let errors = validate_document raw in
                  if errors \<noteq> [] then invalid_because errors
                  else (reading_of VALID)\<lparr>tr_document := Some raw\<rparr>)))"

definition fetch_topology ::
  "(string \<Rightarrow> url_parts option) \<Rightarrow> (json \<Rightarrow> string list) \<Rightarrow> env \<Rightarrow> string \<Rightarrow> (outside, topology_reading) prog" where
  "fetch_topology urlsplit validate_document e ep =
     andthen (attempt (validate_endpoint urlsplit ep)) (\<lambda>url u.
       case http e (Request ''GET'' (url @ WELL_KNOWN_PATH) None) u of
         (r, u') \<Rightarrow> (Inr (classify_reply validate_document r), u'))"

section \<open>Fan-out interrupts\<close>

definition graphs :: "json \<Rightarrow> exn + json list" where
  "graphs document = items_of document ''graphs''"

fun find_graph :: "string \<Rightarrow> json list \<Rightarrow> exn + json option" where
  "find_graph graph_id [] = Inr None"
| "find_graph graph_id (g # gs) =
     follow (field g ''id'') (\<lambda>i. if i = JStr graph_id then Inr (Some g) else find_graph graph_id gs)"

definition graph_by_id :: "json \<Rightarrow> string \<Rightarrow> exn + json option" where
  "graph_by_id document graph_id = follow (graphs document) (find_graph graph_id)"

record interrupt_warning =
  iw_graph :: string
  iw_source :: string
  iw_targets :: "string list"
  iw_interrupted :: "string list"
  iw_confirmed :: bool

text \<open>One entry of the extension's \<^verbatim>\<open>nodes\<close>; what is no dict, or not known, is passed over.\<close>

definition branch_entry :: "json \<Rightarrow> json dict \<Rightarrow> json dict" where
  "branch_entry node result =
     (case node of
        JObj n \<Rightarrow>
          (case (map_of n ''branch'', map_of n ''nodeId'') of
             (Some (JObj branch), Some (JStr node_id)) \<Rightarrow>
               if map_of branch ''status'' = Some (JStr ''known'')
               then AList.update node_id (case map_of branch ''value'' of None \<Rightarrow> JNull | Some v \<Rightarrow> v) result
               else result
           | _ \<Rightarrow> result)
      | _ \<Rightarrow> result)"

definition branch_interpretation :: "json \<Rightarrow> exn + json dict" where
  "branch_interpretation graph =
     follow (get_attr graph ''x-topology-interpretation'') (\<lambda>extension.
       case extension of
         Some (JObj ext) \<Rightarrow>
           if map_of ext ''version'' \<in> (Some \<circ> JStr) ` set RECOGNIZED_INTERPRETATION_VERSIONS
           then follow (iter_json (or_default (map_of ext ''nodes'') (JArr []))) (\<lambda>nodes.
                  Inr (fold branch_entry nodes []))
           else Inr []
       | _ \<Rightarrow> Inr [])"

text \<open>\<^verbatim>\<open>{node["id"] for node in structure["nodes"] if node.get("interrupts")}\<close>\<close>

definition interrupted_node :: "json \<Rightarrow> exn + string list" where
  "interrupted_node node =
     follow (get_attr node ''interrupts'') (\<lambda>i.
       if (case i of None \<Rightarrow> False | Some v \<Rightarrow> truthy v)
       then follow (str_field node ''id'') (\<lambda>n. Inr [n]) else Inr [])"

text \<open>The target a direct edge adds to its source's fan-out.\<close>

definition direct_edge :: "json \<Rightarrow> exn + (string \<times> string) list" where
  "direct_edge edge =
     follow (field edge ''kind'') (\<lambda>kind.
       if kind = JStr ''direct''
       then follow (str_field edge ''source'') (\<lambda>s. follow (str_field edge ''target'') (\<lambda>t. Inr [(s, t)]))
       else Inr [])"

text \<open>\<^verbatim>\<open>fanout.setdefault(source, []).append(target)\<close>\<close>

definition add_target :: "string \<times> string \<Rightarrow> string list dict \<Rightarrow> string list dict" where
  "add_target e fanout =
     AList.update (fst e) ((case map_of fanout (fst e) of None \<Rightarrow> [] | Some ts \<Rightarrow> ts) @ [snd e]) fanout"

definition fanout_warning ::
  "json \<Rightarrow> string list \<Rightarrow> json dict \<Rightarrow> string \<times> string list \<Rightarrow> exn + interrupt_warning list" where
  "fanout_warning graph interrupted interpretation st =
     (case st of (source, targets) \<Rightarrow>
        let hit = filter (\<lambda>t. t \<in> set interrupted) targets in
        if length targets < 2 \<or> hit = [] then Inr []
        else follow (str_field graph ''id'') (\<lambda>gid.
          Inr [\<lparr>iw_graph = gid, iw_source = source, iw_targets = sort targets, iw_interrupted = sort hit,
                iw_confirmed = (map_of interpretation source = Some (JStr ''all-declared''))\<rparr>]))"

definition graph_warnings :: "json \<Rightarrow> exn + interrupt_warning list" where
  "graph_warnings graph =
     follow (field graph ''structure'') (\<lambda>structure.
     follow (follow (items_of structure ''nodes'') (collect_all interrupted_node)) (\<lambda>interrupted.
       if interrupted = [] then Inr []
       else
         follow (follow (items_of structure ''edges'') (collect_all direct_edge)) (\<lambda>edges.
         follow (branch_interpretation graph) (\<lambda>interpretation.
           collect_all (fanout_warning graph interrupted interpretation) (fold add_target edges [])))))"

definition parallel_interrupt_warnings :: "json \<Rightarrow> exn + interrupt_warning list" where
  "parallel_interrupt_warnings document = follow (graphs document) (collect_all graph_warnings)"

section \<open>Snapshots\<close>

record snapshot =
  fetched_at :: string
  structure_hash :: json
  snap_document :: json

type_synonym snapshot_file = "snapshot dict store_file"

record topology_world =
  snapshots :: snapshot_file
  tw_outside :: outside

definition load_snapshots :: "snapshot_file \<Rightarrow> exn + snapshot dict" where
  "load_snapshots f =
     load_file TopologySnapshotError ''snapshots file'' ''a JSON object of endpoint -> snapshot'' f"

definition get_snapshot :: "(string \<Rightarrow> url_parts option) \<Rightarrow> string \<Rightarrow> snapshot_file \<Rightarrow> exn + snapshot option" where
  "get_snapshot urlsplit ep f =
     follow (load_snapshots f) (\<lambda>data. follow (validate_endpoint urlsplit ep) (\<lambda>k. Inr (map_of data k)))"

text \<open>What \<^verbatim>\<open>json.dump(..., sort_keys=True)\<close> makes of a stored document.\<close>

fun sort_json :: "json \<Rightarrow> json" where
  "sort_json (JArr xs) = JArr (map sort_json xs)"
| "sort_json (JObj d) = JObj (sorted_keys (map (\<lambda>kv. (fst kv, sort_json (snd kv))) d))"
| "sort_json j = j"

definition at_outside :: "(outside, 'a) prog \<Rightarrow> (topology_world, 'a) prog" where
  "at_outside = zoom tw_outside (\<lambda>u w. w\<lparr>tw_outside := u\<rparr>)"

definition at_snapshots :: "(snapshot_file, 'a) prog \<Rightarrow> (topology_world, 'a) prog" where
  "at_snapshots = zoom snapshots (\<lambda>f w. w\<lparr>snapshots := f\<rparr>)"

definition document_of :: "topology_reading \<Rightarrow> json" where
  "document_of r = (case tr_document r of None \<Rightarrow> JNull | Some d \<Rightarrow> d)"

definition refresh_snapshot ::
  "(string \<Rightarrow> url_parts option) \<Rightarrow> (json \<Rightarrow> string list) \<Rightarrow> env \<Rightarrow> string \<Rightarrow> string \<Rightarrow>
   (topology_world, topology_reading) prog" where
  "refresh_snapshot urlsplit validate_document e now ep0 =
     andthen (attempt (validate_endpoint urlsplit ep0)) (\<lambda>ep.
     andthen (at_outside (fetch_topology urlsplit validate_document e ep)) (\<lambda>r.
       if tr_status r = VALID then
         andthen (at_snapshots (reading load_snapshots)) (\<lambda>data.
         andthen (attempt (field (document_of r) ''structureHash'')) (\<lambda>h.
         andthen (at_snapshots (write_atomic (AList.update ep
             \<lparr>fetched_at = now, structure_hash = sort_json h, snap_document = sort_json (document_of r)\<rparr> data)))
           (\<lambda>_. ret r)))
       else ret r))"

record freshness_check =
  fc_status :: topology_status
  fc_reading :: topology_reading

definition check_freshness ::
  "(string \<Rightarrow> url_parts option) \<Rightarrow> (json \<Rightarrow> string list) \<Rightarrow> env \<Rightarrow> string \<Rightarrow>
   (topology_world, freshness_check) prog" where
  "check_freshness urlsplit validate_document e ep0 =
     andthen (attempt (validate_endpoint urlsplit ep0)) (\<lambda>ep.
     andthen (at_outside (fetch_topology urlsplit validate_document e ep)) (\<lambda>r.
       if tr_status r \<noteq> VALID then ret \<lparr>fc_status = tr_status r, fc_reading = r\<rparr>
       else
         andthen (at_snapshots (reading (get_snapshot urlsplit ep))) (\<lambda>stored.
           case stored of
             None \<Rightarrow> ret \<lparr>fc_status = NO_SNAPSHOT, fc_reading = r\<rparr>
           | Some s \<Rightarrow>
               andthen (attempt (field (document_of r) ''structureHash'')) (\<lambda>h.
               ret \<lparr>fc_status = (if py_eq (structure_hash s) h then UNCHANGED else CHANGED), fc_reading = r\<rparr>))))"

section \<open>What a warning says\<close>

text \<open>
  The facts of a published Graph that the warnings rest on, read off the document alone: its items under
  a key of its structure, the Nodes that declare interrupts, the targets of the direct edges out of a
  Node.
\<close>

definition at_key :: "json \<Rightarrow> string \<Rightarrow> json option" where
  "at_key j k = (case j of JObj d \<Rightarrow> map_of d k | _ \<Rightarrow> None)"

definition structure_items :: "json \<Rightarrow> string \<Rightarrow> json list" where
  "structure_items graph k =
     (case at_key graph ''structure'' of None \<Rightarrow> []
      | Some st \<Rightarrow> (case at_key st k of Some (JArr xs) \<Rightarrow> xs | _ \<Rightarrow> []))"

definition interrupts_at :: "json \<Rightarrow> string \<Rightarrow> bool" where
  "interrupts_at graph n = (\<exists>node \<in> set (structure_items graph ''nodes'').
     at_key node ''id'' = Some (JStr n) \<and> (case at_key node ''interrupts'' of None \<Rightarrow> False | Some v \<Rightarrow> truthy v))"

definition edge_target :: "string \<Rightarrow> json \<Rightarrow> string list" where
  "edge_target s edge =
     (if at_key edge ''kind'' = Some (JStr ''direct'') \<and> at_key edge ''source'' = Some (JStr s)
      then (case at_key edge ''target'' of Some (JStr t) \<Rightarrow> [t] | _ \<Rightarrow> []) else [])"

definition fan_out :: "json \<Rightarrow> string \<Rightarrow> string list" where
  "fan_out graph s = concat (map (edge_target s) (structure_items graph ''edges''))"

definition declared_all :: "json \<Rightarrow> string \<Rightarrow> bool" where
  "declared_all graph s =
     (\<exists>m. branch_interpretation graph = Inr m \<and> map_of m s = Some (JStr ''all-declared''))"

lemma field_Inr: "field j k = Inr v \<longleftrightarrow> at_key j k = Some v"
  by (cases j) (auto simp: field_def at_key_def split: option.splits)

lemma get_attr_Inr: "get_attr j k = Inr v \<Longrightarrow> v = at_key j k"
  by (cases j) (auto simp: get_attr_def at_key_def)

lemma str_field_Inr: "str_field j k = Inr s \<longleftrightarrow> at_key j k = Some (JStr s)"
proof (cases "field j k")
  case (Inl x)
  then have "at_key j k = None" by (metis Inl_Inr_False field_Inr not_None_eq)
  then show ?thesis using Inl by (simp add: str_field_def)
next
  case (Inr v)
  have at: "at_key j k = Some v" using Inr by (simp add: field_Inr)
  show ?thesis by (cases v) (simp_all add: str_field_def Inr at)
qed

lemmas access_Inr = field_Inr str_field_Inr follow_Inr

text \<open>What is no list has no items, or its first item raises.\<close>

lemma items_collected:
  assumes "follow (items_of st k) (collect_all f) = Inr ys" "\<And>s. \<exists>x. f (JStr s) = Inl x"
  shows "collect_all f (case at_key st k of Some (JArr xs) \<Rightarrow> xs | _ \<Rightarrow> []) = Inr ys"
proof -
  obtain j xs where j: "at_key st k = Some j" "iter_json j = Inr xs" "collect_all f xs = Inr ys"
    using assms(1) by (auto simp: items_of_def access_Inr)
  have none: "xs = []" if strs: "\<And>x. x \<in> set xs \<Longrightarrow> \<exists>s. x = JStr s"
  proof (cases xs)
    case (Cons x xs')
    then obtain s where "x = JStr s" using strs by auto
    moreover obtain e where "f (JStr s) = Inl e" using assms(2) by blast
    ultimately show ?thesis using j(3) Cons by simp
  qed simp
  show ?thesis
  proof (cases j)
    case (JStr s)
    then have "xs = []" using j(2) by (intro none) (auto simp: iter_json_def)
    then show ?thesis using j JStr by simp
  next
    case (JObj d)
    then have "xs = []" using j(2) by (intro none) (auto simp: iter_json_def)
    then show ?thesis using j JObj by simp
  qed (use j in \<open>auto simp: iter_json_def\<close>)
qed

lemma interrupted_node_Inr:
  "interrupted_node node = Inr ns \<Longrightarrow>
   n \<in> set ns \<longleftrightarrow> at_key node ''id'' = Some (JStr n) \<and>
     (case at_key node ''interrupts'' of None \<Rightarrow> False | Some v \<Rightarrow> truthy v)"
  unfolding interrupted_node_def
  by (auto simp: follow_Inr str_field_Inr dest!: get_attr_Inr split: if_splits option.splits)

lemma direct_edge_Inr:
  "direct_edge edge = Inr es \<Longrightarrow> map snd (filter (\<lambda>e. fst e = s) es) = edge_target s edge"
  unfolding direct_edge_def
  by (auto simp: access_Inr edge_target_def split: if_splits)

lemma map_of_add_target:
  "map_of (fold add_target es f) s =
     (let ts = map snd (filter (\<lambda>e. fst e = s) es) in
      if ts = [] then map_of f s else Some ((case map_of f s of None \<Rightarrow> [] | Some us \<Rightarrow> us) @ ts))"
proof (induction es arbitrary: f)
  case (Cons e es)
  then show ?case by (auto simp: add_target_def update_conv' Let_def split: option.splits)
qed simp

lemma dict_ok_add_target: "dict_ok f \<Longrightarrow> dict_ok (fold add_target es f)"
  by (induction es arbitrary: f) (simp_all add: add_target_def)

lemma interrupted_nodes_are:
  assumes "at_key graph ''structure'' = Some st"
    "follow (items_of st ''nodes'') (collect_all interrupted_node) = Inr ns"
  shows "n \<in> set ns \<longleftrightarrow> interrupts_at graph n"
proof -
  have all: "collect_all interrupted_node (structure_items graph ''nodes'') = Inr ns"
    unfolding structure_items_def assms(1) option.case
    by (rule items_collected [OF assms(2)]) (simp add: interrupted_node_def get_attr_def)
  show ?thesis
  proof
    assume "n \<in> set ns"
    then obtain node xs where "node \<in> set (structure_items graph ''nodes'')" "interrupted_node node = Inr xs" "n \<in> set xs"
      using collect_all_mem [OF all] by blast
    then show "interrupts_at graph n" unfolding interrupts_at_def by (meson interrupted_node_Inr)
  next
    assume "interrupts_at graph n"
    then obtain node where node: "node \<in> set (structure_items graph ''nodes'')"
      and at: "at_key node ''id'' = Some (JStr n)" "case at_key node ''interrupts'' of None \<Rightarrow> False | Some v \<Rightarrow> truthy v"
      unfolding interrupts_at_def by blast
    obtain xs where "interrupted_node node = Inr xs" using collect_all_item [OF all node] by blast
    then show "n \<in> set ns" using node at interrupted_node_Inr collect_all_mem [OF all] by meson
  qed
qed

lemma direct_edges_are:
  assumes "at_key graph ''structure'' = Some st"
    "follow (items_of st ''edges'') (collect_all direct_edge) = Inr es"
  shows "map snd (filter (\<lambda>e. fst e = s) es) = fan_out graph s"
proof -
  have all: "collect_all direct_edge (structure_items graph ''edges'') = Inr es"
    unfolding structure_items_def assms(1) option.case
    by (rule items_collected [OF assms(2)]) (simp add: direct_edge_def field_def)
  have "collect_all direct_edge edges = Inr es \<Longrightarrow>
      map snd (filter (\<lambda>e. fst e = s) es) = concat (map (edge_target s) edges)" for edges
  proof (induction edges arbitrary: es)
    case (Cons edge edges)
    then show ?case using direct_edge_Inr [of edge] by (auto split: sum.splits)
  qed simp
  then show ?thesis using all by (simp add: fan_out_def)
qed

lemma fanouts_are:
  assumes "\<And>s. map snd (filter (\<lambda>e. fst e = s) es) = fan_out graph s"
  shows "(s, ts) \<in> set (fold add_target es []) \<longleftrightarrow> ts = fan_out graph s \<and> ts \<noteq> []"
proof -
  have "(s, ts) \<in> set (fold add_target es []) \<longleftrightarrow> map_of (fold add_target es []) s = Some ts"
    using dict_ok_add_target [of "[]" es] by (simp add: dict_ok_def)
  then show ?thesis by (auto simp: map_of_add_target assms Let_def)
qed

definition warning_of :: "json \<Rightarrow> string \<Rightarrow> string \<Rightarrow> interrupt_warning" where
  "warning_of graph gid s =
     \<lparr>iw_graph = gid, iw_source = s, iw_targets = sort (fan_out graph s),
      iw_interrupted = sort (filter (interrupts_at graph) (fan_out graph s)), iw_confirmed = declared_all graph s\<rparr>"

definition warns :: "json \<Rightarrow> string \<Rightarrow> string \<Rightarrow> bool" where
  "warns graph gid s \<longleftrightarrow> at_key graph ''id'' = Some (JStr gid) \<and> 2 \<le> length (fan_out graph s) \<and>
     (\<exists>t \<in> set (fan_out graph s). interrupts_at graph t)"

lemma fanout_warning_is:
  assumes "\<And>n. n \<in> set ns \<longleftrightarrow> interrupts_at graph n" "branch_interpretation graph = Inr m"
    "fanout_warning graph ns m (s, fan_out graph s) = Inr ws"
  shows "w \<in> set ws \<longleftrightarrow> (\<exists>gid. warns graph gid s \<and> w = warning_of graph gid s)"
proof -
  have hit: "filter (\<lambda>t. t \<in> set ns) (fan_out graph s) = filter (interrupts_at graph) (fan_out graph s)"
    using assms(1) by simp
  have declared: "(map_of m s = Some (JStr ''all-declared'')) = declared_all graph s"
    using assms(2) by (simp add: declared_all_def)
  have fw: "fanout_warning graph ns m (s, fan_out graph s) =
     (if length (fan_out graph s) < 2 \<or> filter (interrupts_at graph) (fan_out graph s) = [] then Inr []
      else follow (str_field graph ''id'') (\<lambda>gid. Inr [warning_of graph gid s]))"
    by (simp only: fanout_warning_def prod.case Let_def hit declared warning_of_def)
  show ?thesis
  proof (cases "length (fan_out graph s) < 2 \<or> filter (interrupts_at graph) (fan_out graph s) = []")
    case True
    then show ?thesis using assms(3)
      by (auto simp: fw warns_def filter_empty_conv)
  next
    case False
    then obtain gid where "at_key graph ''id'' = Some (JStr gid)" "ws = [warning_of graph gid s]"
      using assms(3) by (auto simp: fw access_Inr)
    then show ?thesis using False by (auto simp: warns_def filter_empty_conv)
  qed
qed

lemma graph_warnings_are:
  assumes "graph_warnings graph = Inr ws"
  shows "w \<in> set ws \<longleftrightarrow> (\<exists>gid s. warns graph gid s \<and> w = warning_of graph gid s)"
proof -
  obtain st ns where st: "at_key graph ''structure'' = Some st"
    and ns: "follow (items_of st ''nodes'') (collect_all interrupted_node) = Inr ns"
    and rest: "(if ns = [] then Inr []
       else follow (follow (items_of st ''edges'') (collect_all direct_edge)) (\<lambda>edges.
            follow (branch_interpretation graph) (\<lambda>interpretation.
            collect_all (fanout_warning graph ns interpretation) (fold add_target edges [])))) = Inr ws"
    using assms unfolding graph_warnings_def follow_Inr [of "field _ _"] follow_Inr [of "follow (items_of _ ''nodes'') _"]
    by (auto simp: field_Inr)
  note nodes = interrupted_nodes_are [OF st ns]
  show ?thesis
  proof (cases "ns = []")
    case True
    then show ?thesis using rest nodes by (auto simp: warns_def)
  next
    case False
    then obtain es m where es: "follow (items_of st ''edges'') (collect_all direct_edge) = Inr es"
      and m: "branch_interpretation graph = Inr m"
      and all: "collect_all (fanout_warning graph ns m) (fold add_target es []) = Inr ws"
      using rest unfolding follow_Inr [of "follow (items_of _ ''edges'') _"] by (auto simp: follow_Inr)
    note fans = fanouts_are [OF direct_edges_are [OF st es]]
    have one: "\<exists>vs. fanout_warning graph ns m (s, fan_out graph s) = Inr vs" if "fan_out graph s \<noteq> []" for s
      using all fans that unfolding collect_all_Inr by blast
    have "w \<in> set ws \<longleftrightarrow> (\<exists>s vs. fan_out graph s \<noteq> [] \<and> fanout_warning graph ns m (s, fan_out graph s) = Inr vs \<and> w \<in> set vs)"
      unfolding collect_all_mem [OF all] using fans by auto
    also have "\<dots> \<longleftrightarrow> (\<exists>s. fan_out graph s \<noteq> [] \<and> (\<exists>gid. warns graph gid s \<and> w = warning_of graph gid s))"
      using one fanout_warning_is [OF nodes m] by metis
    also have "\<dots> \<longleftrightarrow> (\<exists>gid s. warns graph gid s \<and> w = warning_of graph gid s)"
    proof -
      have "warns graph gid s \<Longrightarrow> fan_out graph s \<noteq> []" for gid s by (auto simp: warns_def)
      then show ?thesis by blast
    qed
    finally show ?thesis .
  qed
qed

text \<open>
  A confirmed warning rests on a recognized revision that marks the source \<^verbatim>\<open>known\<close> and
  \<^verbatim>\<open>all-declared\<close>.
\<close>

lemma branch_entries_known:
  assumes "map_of (fold branch_entry nodes m) s = Some v" "v \<noteq> JNull"
  shows "map_of m s = Some v \<or> (\<exists>node \<in> set nodes. \<exists>branch. at_key node ''nodeId'' = Some (JStr s) \<and>
     at_key node ''branch'' = Some branch \<and> at_key branch ''status'' = Some (JStr ''known'') \<and> at_key branch ''value'' = Some v)"
  using assms
proof (induction nodes arbitrary: m)
  case (Cons node nodes)
  have one: "map_of m s = Some v \<or> (\<exists>branch. at_key node ''nodeId'' = Some (JStr s) \<and>
     at_key node ''branch'' = Some branch \<and> at_key branch ''status'' = Some (JStr ''known'') \<and> at_key branch ''value'' = Some v)"
    if now: "map_of (branch_entry node m) s = Some v"
  proof (rule ccontr)
    assume no: "\<not> ?thesis"
    obtain n where n: "node = JObj n" using now no by (cases node) (simp_all add: branch_entry_def)
    obtain b where b: "map_of n ''branch'' = Some (JObj b)"
      using now no n by (auto simp: branch_entry_def at_key_def split: option.splits json.splits)
    obtain i where i: "map_of n ''nodeId'' = Some (JStr i)"
      using now no n by (auto simp: branch_entry_def at_key_def split: option.splits json.splits)
    show False
      using now no n b i Cons.prems(2)
      by (auto simp: branch_entry_def at_key_def update_conv' split: option.splits if_splits)
  qed
  show ?case using Cons.IH [of "branch_entry node m"] Cons.prems one by auto
qed simp

lemma confirmed_rests_on_declaration:
  assumes "declared_all graph s"
  shows "\<exists>ext v nodes. at_key graph ''x-topology-interpretation'' = Some (JObj ext) \<and>
     map_of ext ''version'' = Some (JStr v) \<and> v \<in> set RECOGNIZED_INTERPRETATION_VERSIONS \<and>
     map_of ext ''nodes'' = Some nodes \<and> (\<exists>xs. iter_json nodes = Inr xs \<and> (\<exists>node \<in> set xs. \<exists>branch.
       at_key node ''nodeId'' = Some (JStr s) \<and> at_key node ''branch'' = Some branch \<and>
       at_key branch ''status'' = Some (JStr ''known'') \<and> at_key branch ''value'' = Some (JStr ''all-declared'')))"
proof -
  obtain m where m: "branch_interpretation graph = Inr m" "map_of m s = Some (JStr ''all-declared'')"
    using assms by (auto simp: declared_all_def)
  from m(1) obtain x where x: "get_attr graph ''x-topology-interpretation'' = Inr x"
    unfolding branch_interpretation_def follow_Inr by blast
  then have at: "at_key graph ''x-topology-interpretation'' = x" by (rule get_attr_Inr [symmetric])
  obtain ext where ext: "x = Some (JObj ext)"
    using m by (cases x rule: option.exhaust; cases "the x") (simp_all add: branch_interpretation_def x)
  have version: "map_of ext ''version'' \<in> (Some \<circ> JStr) ` set RECOGNIZED_INTERPRETATION_VERSIONS"
    and xs: "\<exists>xs. iter_json (or_default (map_of ext ''nodes'') (JArr [])) = Inr xs \<and> m = fold branch_entry xs []"
    using m by (auto simp: branch_interpretation_def x ext follow_Inr split: if_splits)
  then obtain xs where xs: "iter_json (or_default (map_of ext ''nodes'') (JArr [])) = Inr xs" "m = fold branch_entry xs []"
    by blast
  then have node: "\<exists>node \<in> set xs. \<exists>branch. at_key node ''nodeId'' = Some (JStr s) \<and>
     at_key node ''branch'' = Some branch \<and> at_key branch ''status'' = Some (JStr ''known'') \<and>
     at_key branch ''value'' = Some (JStr ''all-declared'')"
    using branch_entries_known [of xs "[]" s] m(2) by auto
  then have "xs \<noteq> []" by auto
  then obtain nodes where "map_of ext ''nodes'' = Some nodes" "iter_json nodes = Inr xs"
    using xs(1) by (auto simp: or_default_def iter_json_def split: option.splits if_splits)
  moreover obtain v where "map_of ext ''version'' = Some (JStr v)" "v \<in> set RECOGNIZED_INTERPRETATION_VERSIONS"
    using version by auto
  ultimately show ?thesis unfolding at ext using node by blast
qed

section \<open>What snapshots hold\<close>

lemma rstrip_slash_idem [simp]: "rstrip_slash (rstrip_slash s) = rstrip_slash s"
  by (simp add: rstrip_slash_def dropWhile_idem)

lemma validate_endpoint_rstrip: "validate_endpoint urlsplit e = Inr k \<Longrightarrow> k = rstrip_slash e"
  using validate_endpoint_Inr by blast

lemma fetch_topology_Inr:
  assumes "fetch_topology urlsplit vd e ep u = (Inr r, u')"
  shows "\<exists>k. validate_endpoint urlsplit ep = Inr k"
  using assms by (auto simp: fetch_topology_def split: sum.splits)

lemma at_snapshots_keep [simp]: "snapshots (w\<lparr>tw_outside := u\<rparr>) = snapshots w"
  by simp

lemma andthen_at_outside:
  "andthen (at_outside m) f w =
     (case m (tw_outside w) of (Inl x, u) \<Rightarrow> (Inl x, w\<lparr>tw_outside := u\<rparr>) | (Inr v, u) \<Rightarrow> f v (w\<lparr>tw_outside := u\<rparr>))"
  by (auto simp: at_outside_def zoom_def andthen_def split: prod.split sum.split)

lemma andthen_at_snapshots:
  "andthen (at_snapshots m) f w =
     (case m (snapshots w) of (Inl x, s) \<Rightarrow> (Inl x, w\<lparr>snapshots := s\<rparr>) | (Inr v, s) \<Rightarrow> f v (w\<lparr>snapshots := s\<rparr>))"
  by (auto simp: at_snapshots_def zoom_def andthen_def split: prod.split sum.split)

lemmas topology_steps = andthen_at_outside andthen_at_snapshots reading_def

lemma refresh_snapshot_cases:
  assumes "refresh_snapshot urlsplit vd e now ep0 w = (res, w1)"
  shows "snapshots w1 = snapshots w \<and> (\<forall>r. res = Inr r \<longrightarrow> tr_status r \<noteq> VALID) \<or>
    (\<exists>r h data. res = Inr r \<and> tr_status r = VALID \<and> field (document_of r) ''structureHash'' = Inr h \<and>
       load_snapshots (snapshots w) = Inr data \<and>
       snapshots w1 = Holds (sorted_keys (AList.update (rstrip_slash ep0)
         \<lparr>fetched_at = now, structure_hash = sort_json h, snap_document = sort_json (document_of r)\<rparr> data)))"
proof (cases "validate_endpoint urlsplit ep0")
  case (Inl x)
  then show ?thesis using assms by (auto simp: refresh_snapshot_def)
next
  case (Inr ep)
  then have ep: "ep = rstrip_slash ep0" by (rule validate_endpoint_rstrip)
  obtain fr u where f: "fetch_topology urlsplit vd e ep (tw_outside w) = (fr, u)" by fastforce
  show ?thesis
  proof (cases fr)
    case (Inl x)
    then show ?thesis using assms Inr f by (auto simp: refresh_snapshot_def topology_steps)
  next
    case r: (Inr r)
    show ?thesis
    proof (cases "tr_status r = VALID")
      case False
      then show ?thesis using assms Inr f r by (auto simp: refresh_snapshot_def topology_steps)
    next
      case True
      then show ?thesis
        using assms Inr f r ep
        by (auto simp: refresh_snapshot_def topology_steps split: sum.splits)
    qed
  qed
qed

lemma check_freshness_keeps: "snapshots (snd (check_freshness urlsplit vd e ep0 w)) = snapshots w"
  by (auto simp: check_freshness_def andthen_def attempt_def at_outside_def at_snapshots_def zoom_def reading_def
      ret_def split: prod.splits sum.splits option.splits)

lemma check_freshness_valid:
  assumes "check_freshness urlsplit vd e ep0 w = (Inr c, w2)" "tr_status (fc_reading c) = VALID"
    "readable (snapshots w)"
  shows "(case map_of (content (snapshots w)) (rstrip_slash ep0) of
      None \<Rightarrow> fc_status c = NO_SNAPSHOT
    | Some s \<Rightarrow> (\<exists>h. field (document_of (fc_reading c)) ''structureHash'' = Inr h \<and>
        fc_status c = (if py_eq (structure_hash s) h then UNCHANGED else CHANGED)))"
proof -
  obtain ep where ep: "validate_endpoint urlsplit ep0 = Inr ep"
    using assms(1) by (cases "validate_endpoint urlsplit ep0") (simp_all add: check_freshness_def)
  then have k: "ep = rstrip_slash ep0" by (rule validate_endpoint_rstrip)
  obtain fr u where f: "fetch_topology urlsplit vd e ep (tw_outside w) = (fr, u)" by fastforce
  obtain r where r: "fr = Inr r"
    using assms(1) ep f by (cases fr) (simp_all add: check_freshness_def topology_steps)
  obtain ep' where ep': "validate_endpoint urlsplit ep = Inr ep'" using fetch_topology_Inr f r by blast
  have same: "ep' = rstrip_slash ep0" using validate_endpoint_rstrip [OF ep'] k by simp
  have valid: "tr_status r = VALID"
    using assms(1,2) ep f r by (auto simp: check_freshness_def topology_steps split: if_splits)
  have get: "get_snapshot urlsplit ep (snapshots w) = Inr (map_of (content (snapshots w)) (rstrip_slash ep0))"
    using assms(3) ep' same by (simp add: get_snapshot_def load_snapshots_def)
  show ?thesis
    using assms(1) ep f r valid get
    by (auto simp: check_freshness_def topology_steps split: option.splits sum.splits)
qed

section \<open>Documents\<close>

definition demo_node :: "string \<Rightarrow> json list \<Rightarrow> json" where
  "demo_node n interrupts = JObj [(''id'', JStr n), (''interrupts'', JArr interrupts)]"

definition demo_edge :: "string \<Rightarrow> string \<Rightarrow> json" where
  "demo_edge s t = JObj [(''kind'', JStr ''direct''), (''source'', JStr s), (''target'', JStr t)]"

definition demo_graph :: json where
  "demo_graph = JObj [(''id'', JStr ''main''),
     (''structure'', JObj [(''nodes'', JArr [demo_node ''draft'' [], demo_node ''b'' [JStr ''before''], demo_node ''a'' []]),
        (''edges'', JArr [demo_edge ''start'' ''draft'', demo_edge ''draft'' ''b'', demo_edge ''draft'' ''a''])]),
     (''x-topology-interpretation'', JObj [(''version'', JStr ''2''), (''nodes'', JArr [JObj [(''nodeId'', JStr ''draft''),
        (''branch'', JObj [(''status'', JStr ''known''), (''value'', JStr ''all-declared'')])]])])]"

definition demo_document :: json where
  "demo_document = JObj [(''graphs'', JArr [demo_graph]), (''structureHash'', JStr ''h1'')]"

definition demo_url :: "string \<Rightarrow> url_parts option" where
  "demo_url s = Some \<lparr>scheme = ''http'', hostname = Some ''h'', username = None, password = None\<rparr>"

definition demo_publisher :: "json option \<Rightarrow> env" where
  "demo_publisher body = \<lparr>server = (\<lambda>_ _. Reply 200 body), start_process = (\<lambda>_ _ _. Inr 1),
     clock_drift = (\<lambda>_. 0), format_number = (\<lambda>_. [])\<rparr>"

definition demo_topology_world :: topology_world where
  "demo_topology_world = \<lparr>snapshots = Absent, tw_outside = \<lparr>trace = [], mono_now = 0, clock_reads = 0\<rparr>\<rparr>"

lemma demo_warnings:
  "parallel_interrupt_warnings demo_document = Inr [\<lparr>iw_graph = ''main'', iw_source = ''draft'',
     iw_targets = [''a'', ''b''], iw_interrupted = [''b''], iw_confirmed = True\<rparr>]"
  by code_simp

section \<open>Properties\<close>

text \<open>
  Every fan-out interrupt of a document is reported, and nothing else is: there is a warning for a
  source Node of a Graph exactly when at least two direct edges leave it and one of their targets
  declares interrupts; it carries all targets and the interrupted ones, sorted, and it is confirmed only
  where a recognized interpretation revision declares the branch.
\<close>

theorem fanout_interrupts_reported:
  assumes "parallel_interrupt_warnings document = Inr ws" "graphs document = Inr gs"
  shows "set ws = {warning_of graph gid s |graph gid s. graph \<in> set gs \<and> warns graph gid s}"
proof -
  have all: "collect_all graph_warnings gs = Inr ws"
    using assms by (simp add: parallel_interrupt_warnings_def)
  have "w \<in> set ws \<longleftrightarrow> (\<exists>graph \<in> set gs. \<exists>gid s. warns graph gid s \<and> w = warning_of graph gid s)" for w
    unfolding collect_all_mem [OF all] using collect_all_item [OF all] graph_warnings_are by metis
  then show ?thesis by blast
qed

theorem fanout_interrupts_reported_witness:
  "warning_of demo_graph ''main'' ''draft'' \<in> {\<lparr>iw_graph = ''main'', iw_source = ''draft'',
     iw_targets = [''a'', ''b''], iw_interrupted = [''b''], iw_confirmed = True\<rparr>}"
proof -
  have "graphs demo_document = Inr [demo_graph]" by code_simp
  note all = fanout_interrupts_reported [OF demo_warnings this]
  have "at_key demo_graph ''id'' = Some (JStr ''main'')" "2 \<le> length (fan_out demo_graph ''draft'')"
    "\<exists>t \<in> set (fan_out demo_graph ''draft''). interrupts_at demo_graph t" by code_simp+
  then have "warns demo_graph ''main'' ''draft''" by (simp add: warns_def)
  then show ?thesis using all by auto
qed

text \<open>
  A stored snapshot changes only by a refresh that fetched a valid document: a refresh that raises or
  reads an absent, unreachable or invalid one leaves every snapshot as it was, a valid one replaces the
  entry of its endpoint alone, and a freshness check replaces nothing.
\<close>

theorem only_valid_refresh_stores:
  assumes "refresh_snapshot urlsplit vd e now ep w = (res, w1)"
  shows "(case res of Inl x \<Rightarrow> snapshots w1 = snapshots w
     | Inr r \<Rightarrow> if tr_status r = VALID
         then readable (snapshots w) \<and>
           (\<forall>k. k \<noteq> rstrip_slash ep \<longrightarrow> map_of (content (snapshots w1)) k = map_of (content (snapshots w)) k) \<and>
           (\<exists>s. map_of (content (snapshots w1)) (rstrip_slash ep) = Some s \<and> fetched_at s = now \<and>
              snap_document s = sort_json (document_of r))
         else snapshots w1 = snapshots w) \<and>
     snapshots (snd (check_freshness urlsplit vd e ep w)) = snapshots w"
  using refresh_snapshot_cases [OF assms]
proof (elim disjE exE conjE)
  fix r h data
  assume r: "res = Inr r" "tr_status r = VALID" and data: "load_snapshots (snapshots w) = Inr data"
    and w1: "snapshots w1 = Holds (sorted_keys (AList.update (rstrip_slash ep)
         \<lparr>fetched_at = now, structure_hash = sort_json h, snap_document = sort_json (document_of r)\<rparr> data))"
  have "readable (snapshots w)" "data = content (snapshots w)"
    using data load_file_Inr unfolding load_snapshots_def by blast+
  then show ?thesis using r w1 by (simp add: update_conv' check_freshness_keeps)
qed (auto simp: check_freshness_keeps split: sum.split)

theorem only_valid_refresh_stores_witness:
  "snapshots (snd (refresh_snapshot demo_url (\<lambda>_. []) (demo_publisher None) ''now'' ''http://h/'' demo_topology_world)) = Absent"
proof -
  obtain w1 where w1: "refresh_snapshot demo_url (\<lambda>_. []) (demo_publisher None) ''now'' ''http://h/'' demo_topology_world =
      (Inr (invalid_because [''response body is not valid JSON'']), w1)"
    by (simp add: refresh_snapshot_def fetch_topology_def topology_steps validate_endpoint_def demo_url_def
        blank_def py_space_def rstrip_slash_def http_def demo_publisher_def demo_topology_world_def
        classify_reply_def invalid_because_def reading_of_def)
  show ?thesis unfolding w1 using only_valid_refresh_stores [OF w1]
    by (simp add: invalid_because_def reading_of_def demo_topology_world_def)
qed

text \<open>
  Drift is told exactly: after a refresh stored a document with hash \<open>h\<close>, a later check of the
  same endpoint that fetches a valid document says unchanged if that document's hash is \<open>h\<close> and changed
  otherwise.
\<close>

theorem drift_is_the_hash:
  assumes "refresh_snapshot urlsplit vd e now ep w = (Inr r, w1)" "tr_status r = VALID"
    "field (document_of r) ''structureHash'' = Inr (JStr h)"
    "check_freshness urlsplit' vd' e' ep' w2 = (Inr c, w3)" "rstrip_slash ep' = rstrip_slash ep" "snapshots w2 = snapshots w1"
    "tr_status (fc_reading c) = VALID" "field (document_of (fc_reading c)) ''structureHash'' = Inr (JStr h')"
  shows "fc_status c = (if h = h' then UNCHANGED else CHANGED)"
proof -
  obtain data where w1: "snapshots w1 = Holds (sorted_keys (AList.update (rstrip_slash ep)
         \<lparr>fetched_at = now, structure_hash = JStr h, snap_document = sort_json (document_of r)\<rparr> data))"
    using refresh_snapshot_cases [OF assms(1)] assms(2,3) by auto
  show ?thesis
    using check_freshness_valid [OF assms(4,7)] assms(5,6,8) w1 by (auto simp: update_conv')
qed

theorem drift_is_the_hash_witness:
  "fc_status (projr (fst (check_freshness demo_url (\<lambda>_. []) (demo_publisher (Some demo_document)) ''http://h''
     (snd (refresh_snapshot demo_url (\<lambda>_. []) (demo_publisher (Some demo_document)) ''now'' ''http://h/''
        demo_topology_world))))) = UNCHANGED"
proof -
  let ?R = "refresh_snapshot demo_url (\<lambda>_. []) (demo_publisher (Some demo_document)) ''now'' ''http://h/'' demo_topology_world"
  let ?C = "check_freshness demo_url (\<lambda>_. []) (demo_publisher (Some demo_document)) ''http://h'' (snd ?R)"
  have R: "isl (fst ?R) = False" "tr_status (projr (fst ?R)) = VALID"
    "field (document_of (projr (fst ?R))) ''structureHash'' = Inr (JStr ''h1'')" by code_simp+
  have C: "isl (fst ?C) = False" "tr_status (fc_reading (projr (fst ?C))) = VALID"
    "field (document_of (fc_reading (projr (fst ?C)))) ''structureHash'' = Inr (JStr ''h1'')" by code_simp+
  have r: "?R = (Inr (projr (fst ?R)), snd ?R)" by (rule succeeded_pair) (simp add: R(1))
  have c: "?C = (Inr (projr (fst ?C)), snd ?C)" by (rule succeeded_pair) (simp add: C(1))
  have "rstrip_slash ''http://h'' = rstrip_slash ''http://h/''" by code_simp
  from drift_is_the_hash [OF r R(2,3) c this refl C(2,3)] show ?thesis by simp
qed

end
