(* ===== verification/Viewer_Topology.thy ===== *)
theory Viewer_Topology
  imports Topology
begin

text \<open>
  The topology half of \<^verbatim>\<open>viewer.py\<close>: the warnings of a document, the explicit association of a
  multi-graph document, the child structures a Graph refers to, and what a freshness check lets the viewer
  show and correlate. Texts interpolated into a warning are strings.
\<close>

datatype shown_status = Shown topology_status | STALE | CURRENT | NO_CONNECTION | NOT_CHECKED | AMBIGUOUS

section \<open>Warnings\<close>

definition fanout_text :: "interrupt_warning \<Rightarrow> string" where
  "fanout_text w =
     ''fan-out interrupt ['' @
     (if iw_confirmed w then ''confirmed'' else ''unconfirmed (branch semantics not verifiable)'') @
     ''] in graph '' @ quoted (iw_graph w) @ '': '' @ quoted (iw_source w) @
     '' fans out into interrupted node(s) '' @ join_with '', '' (iw_interrupted w)"

definition gap_text :: "json \<Rightarrow> exn + string" where
  "gap_text gap =
     follow (field gap ''element'') (\<lambda>element.
     follow (str_field gap ''code'') (\<lambda>code.
     follow (str_field element ''kind'') (\<lambda>kind.
     follow (str_field element ''id'') (\<lambda>i.
     follow (str_field gap ''message'') (\<lambda>message.
       Inr (''gap ['' @ code @ ''] '' @ kind @ '' '' @ quoted i @ '': '' @ message))))))"

definition limitation_text :: "json \<Rightarrow> exn + string" where
  "limitation_text limitation =
     follow (str_field limitation ''code'') (\<lambda>code.
     follow (str_field limitation ''message'') (\<lambda>message.
       Inr (''producer limitation ['' @ code @ '']: '' @ message)))"

text \<open>\<^verbatim>\<open>j.get(key, default)\<close>\<close>

definition get_default :: "json \<Rightarrow> string \<Rightarrow> json \<Rightarrow> exn + json" where
  "get_default j key d = follow (get_attr j key) (\<lambda>v. Inr (case v of None \<Rightarrow> d | Some w \<Rightarrow> w))"

definition document_warnings :: "json \<Rightarrow> exn + string list" where
  "document_warnings document =
     follow (parallel_interrupt_warnings document) (\<lambda>ws.
     follow (get_default document ''completeness'' (JObj [])) (\<lambda>completeness.
     follow (get_default completeness ''gaps'' (JArr [])) (\<lambda>gaps.
     follow (follow (iter_json gaps) (map_all gap_text)) (\<lambda>gap_texts.
     follow (get_default document ''producerLimitations'' (JArr [])) (\<lambda>limitations.
     follow (follow (iter_json limitations) (map_all limitation_text)) (\<lambda>limitation_texts.
       Inr (map fanout_text ws @ gap_texts @ limitation_texts)))))))"

section \<open>Choosing a Graph\<close>

text \<open>\<^verbatim>\<open>{g["id"]: value(g) for g in document_graphs}\<close>\<close>

fun index_graphs :: "(json \<Rightarrow> exn + json) \<Rightarrow> json list \<Rightarrow> json dict \<Rightarrow> exn + json dict" where
  "index_graphs value [] by_id = Inr by_id"
| "index_graphs value (g # gs) by_id =
     follow (str_field g ''id'') (\<lambda>i. follow (value g) (\<lambda>v. index_graphs value gs (AList.update i v by_id)))"

definition associated :: "json dict \<Rightarrow> string \<Rightarrow> string dict \<Rightarrow> string list" where
  "associated by_id graph_id associations =
     map fst (filter (\<lambda>(doc_id, mapped). mapped = graph_id \<and> map_of by_id doc_id \<noteq> None) associations)"

definition resolve_multi_graph :: "json list \<Rightarrow> string option \<Rightarrow> string dict option \<Rightarrow> exn + json option" where
  "resolve_multi_graph document_graphs graph_id associations =
     (case (graph_id, associations) of
        (Some gid, Some gm) \<Rightarrow>
          if gid = [] \<or> gm = [] then Inr None
          else follow (index_graphs Inr document_graphs []) (\<lambda>by_id.
            Inr (case associated by_id gid gm of [d] \<Rightarrow> map_of by_id d | _ \<Rightarrow> None))
      | _ \<Rightarrow> Inr None)"

section \<open>Referenced structures\<close>

text \<open>The address a Node refers to, when the document has it; an unhashable one is a TypeError.\<close>

definition node_address :: "json dict \<Rightarrow> json \<Rightarrow> exn + string option" where
  "node_address by_id node =
     follow (get_attr node ''subgraphId'') (\<lambda>a.
       case a of
         Some (JStr i) \<Rightarrow> Inr (if map_of by_id i = None then None else Some i)
       | Some (JArr _) \<Rightarrow> Inl (Exn PyTypeError ''unhashable type'')
       | Some (JObj _) \<Rightarrow> Inl (Exn PyTypeError ''unhashable type'')
       | _ \<Rightarrow> Inr None)"

text \<open>The Nodes of one popped structure; the last structure pushed is the head of the list.\<close>

fun visit_nodes :: "json dict \<Rightarrow> json list \<Rightarrow> json dict \<Rightarrow> json list \<Rightarrow> exn + json dict \<times> json list" where
  "visit_nodes by_id [] found pending = Inr (found, pending)"
| "visit_nodes by_id (node # nodes) found pending =
     follow (node_address by_id node) (\<lambda>a.
       case a of
         None \<Rightarrow> visit_nodes by_id nodes found pending
       | Some i \<Rightarrow>
           if map_of found i \<noteq> None then visit_nodes by_id nodes found pending
           else (case map_of by_id i of
                   None \<Rightarrow> visit_nodes by_id nodes found pending
                 | Some s \<Rightarrow> visit_nodes by_id nodes (found @ [(i, s)]) (s # pending)))"

definition unfound :: "json dict \<Rightarrow> json dict \<Rightarrow> nat" where
  "unfound by_id found = card (fst ` set by_id - fst ` set found)"

lemma visit_nodes_less:
  "visit_nodes by_id nodes found pending = Inr (found', pending') \<Longrightarrow>
   unfound by_id found' + length pending' = unfound by_id found + length pending"
proof (induction by_id nodes found pending rule: visit_nodes.induct)
  case (2 by_id node nodes found pending)
  then obtain a where a: "node_address by_id node = Inr a"
    by (cases "node_address by_id node") simp_all
  show ?case
  proof (cases a)
    case None
    then show ?thesis using 2 a by simp
  next
    case (Some i)
    show ?thesis
    proof (cases "map_of found i \<noteq> None \<or> map_of by_id i = None")
      case True
      then show ?thesis using 2 a Some by (auto split: option.splits if_splits)
    next
      case False
      then obtain s where s: "map_of by_id i = Some s" by blast
      then have rest: "visit_nodes by_id nodes (found @ [(i, s)]) (s # pending) = Inr (found', pending')"
        using "2.prems" a Some False by simp
      have "i \<in> fst ` set by_id" using s by (metis fst_conv image_eqI map_of_SomeD)
      then have "i \<in> fst ` set by_id - fst ` set found" using False by (simp add: map_of_eq_None_iff)
      moreover have "fst ` set by_id - fst ` set (found @ [(i, s)]) = (fst ` set by_id - fst ` set found) - {i}" by auto
      ultimately have "unfound by_id found = Suc (unfound by_id (found @ [(i, s)]))"
        unfolding unfound_def by (metis card_Suc_Diff1 finite_Diff finite_imageI finite_set)
      then show ?thesis using "2.IH"(4) [OF _ s rest] False by simp
    qed
  qed
qed simp

function reference_loop :: "json dict \<Rightarrow> json dict \<Rightarrow> json list \<Rightarrow> exn + json dict" where
  "reference_loop by_id found [] = Inr found"
| "reference_loop by_id found (s # pending) =
     (case follow (items_of s ''nodes'') (\<lambda>nodes. visit_nodes by_id nodes found pending) of
        Inl x \<Rightarrow> Inl x
      | Inr (found', pending') \<Rightarrow> reference_loop by_id found' pending')"
  by pat_completeness auto
termination
  by (relation "measure (\<lambda>(by_id, found, pending). unfound by_id found + length pending)")
    (auto simp: follow_Inr dest!: visit_nodes_less)

definition referenced_subgraphs :: "json list \<Rightarrow> json \<Rightarrow> exn + json dict" where
  "referenced_subgraphs document_graphs structure =
     follow (index_graphs (\<lambda>g. field g ''structure'') document_graphs []) (\<lambda>by_id.
       reference_loop by_id [] [structure])"

section \<open>Correlation\<close>

record correlation =
  co_status :: shown_status
  co_node_ids :: "string list"
  co_warnings :: "string list"
  co_correlated :: bool
  co_structure :: "json option"
  co_subgraphs :: "json dict"

definition uncorrelated :: "shown_status \<Rightarrow> string list \<Rightarrow> correlation" where
  "uncorrelated status warnings = \<lparr>co_status = status, co_node_ids = [], co_warnings = warnings, co_correlated = False,
     co_structure = None, co_subgraphs = []\<rparr>"

definition stale_text :: string where
  "stale_text = ''published topology changed since the last explicit sync; not used to correlate recorded execution until refreshed''"

definition withheld_text :: string where
  "withheld_text = ''document publishes more than one graph; no explicit Deployment/Graph association names one for this graph, so Node structure is withheld''"

definition correlate_topology ::
  "freshness_check option \<Rightarrow> string option \<Rightarrow> string dict option \<Rightarrow> exn + correlation" where
  "correlate_topology freshness graph_id associations =
     (case freshness of
        None \<Rightarrow> Inr (uncorrelated NOT_CHECKED [])
      | Some f \<Rightarrow>
          if fc_status f \<in> {ABSENT, UNREACHABLE, INVALID} then Inr (uncorrelated (Shown (fc_status f)) [])
          else if fc_status f = CHANGED then Inr (uncorrelated STALE [stale_text])
          else
            (let document = document_of (fc_reading f) in
             follow (graphs document) (\<lambda>document_graphs.
             follow (document_warnings document) (\<lambda>warnings.
             follow (case document_graphs of [g] \<Rightarrow> Inr (Some g)
                     | _ \<Rightarrow> resolve_multi_graph document_graphs graph_id associations) (\<lambda>resolved.
               case resolved of
                 None \<Rightarrow> Inr (uncorrelated CURRENT (warnings @ [withheld_text]))
               | Some g \<Rightarrow>
                   follow (field g ''structure'') (\<lambda>structure.
                   follow (follow (items_of structure ''nodes'') (map_all (\<lambda>node. str_field node ''id''))) (\<lambda>node_ids.
                   follow (referenced_subgraphs document_graphs structure) (\<lambda>subgraphs.
                     Inr \<lparr>co_status = CURRENT, co_node_ids = sort node_ids, co_warnings = warnings,
                           co_correlated = True, co_structure = Some structure, co_subgraphs = subgraphs\<rparr>))))))))"

section \<open>What the loop finds\<close>

text \<open>
  The references of a structure, read off its Nodes, and what is reachable through them in the document.
\<close>

definition refers :: "json dict \<Rightarrow> json \<Rightarrow> string \<Rightarrow> bool" where
  "refers by_id s i \<longleftrightarrow> map_of by_id i \<noteq> None \<and>
     (\<exists>nodes. items_of s ''nodes'' = Inr nodes \<and> (\<exists>node \<in> set nodes. at_key node ''subgraphId'' = Some (JStr i)))"

inductive reachable_from :: "json dict \<Rightarrow> json \<Rightarrow> string \<Rightarrow> bool" for by_id s where
  direct: "refers by_id s i \<Longrightarrow> reachable_from by_id s i"
| onward: "reachable_from by_id s i \<Longrightarrow> map_of by_id i = Some t \<Longrightarrow> refers by_id t j \<Longrightarrow> reachable_from by_id s j"

lemma node_address_Inr:
  "node_address by_id node = Inr a \<Longrightarrow>
   a = Some i \<longleftrightarrow> at_key node ''subgraphId'' = Some (JStr i) \<and> map_of by_id i \<noteq> None"
proof -
  assume n: "node_address by_id node = Inr a"
  then obtain v where v: "get_attr node ''subgraphId'' = Inr v" by (auto simp: node_address_def follow_Inr)
  then have at: "v = at_key node ''subgraphId''" by (rule get_attr_Inr)
  show ?thesis
  proof (cases v)
    case (Some j)
    then show ?thesis using n v at by (cases j) (auto simp: node_address_def split: if_splits)
  qed (use n v at in \<open>auto simp: node_address_def\<close>)
qed

text \<open>One structure adds exactly its references that are new, each with its structure, and pushes them.\<close>

definition addresses :: "json dict \<Rightarrow> json list \<Rightarrow> string set" where
  "addresses by_id nodes = {i. map_of by_id i \<noteq> None \<and> (\<exists>node \<in> set nodes. at_key node ''subgraphId'' = Some (JStr i))}"

lemma addresses_Cons:
  "node_address by_id node = Inr a \<Longrightarrow> addresses by_id (node # nodes) = set_option a \<union> addresses by_id nodes"
  using node_address_Inr [of by_id node a] by (auto simp: addresses_def)

definition from_index :: "json dict \<Rightarrow> json dict \<Rightarrow> bool" where
  "from_index by_id found \<longleftrightarrow> dict_ok found \<and> (\<forall>(i, s) \<in> set found. map_of by_id i = Some s)"

lemma visit_nodes_adds:
  "visit_nodes by_id nodes found pending = Inr (found', pending') \<Longrightarrow> from_index by_id found \<Longrightarrow>
   from_index by_id found' \<and> fst ` set found' = fst ` set found \<union> addresses by_id nodes \<and>
   set pending' = set pending \<union> {s. \<exists>i \<in> addresses by_id nodes - fst ` set found. map_of by_id i = Some s}"
proof (induction by_id nodes found pending rule: visit_nodes.induct)
  case (1 by_id found pending)
  then show ?case by (simp add: addresses_def)
next
  case (2 by_id node nodes found pending)
  then obtain a where a: "node_address by_id node = Inr a"
    by (cases "node_address by_id node") simp_all
  show ?case
  proof (cases "\<exists>i. a = Some i \<and> map_of found i = None")
    case False
    have rest: "visit_nodes by_id nodes found pending = Inr (found', pending')"
    proof (cases a)
      case (Some i)
      then show ?thesis using "2.prems"(1) a False by auto
    qed (use "2.prems"(1) a in simp)
    have sub: "set_option a \<subseteq> fst ` set found" using False by (cases a) (auto simp: map_of_eq_None_iff)
    then have "fst ` set found \<union> (set_option a \<union> A) = fst ` set found \<union> A" "set_option a \<union> A - fst ` set found = A - fst ` set found" for A
      by blast+
    then show ?thesis unfolding addresses_Cons [OF a] by (simp only: "2.IH"(1) [OF rest "2.prems"(2)])
  next
    case True
    then obtain i where i: "a = Some i" "map_of found i = None" by blast
    then obtain s where s: "map_of by_id i = Some s" using node_address_Inr [OF a] by auto
    then have rest: "visit_nodes by_id nodes (found @ [(i, s)]) (s # pending) = Inr (found', pending')"
      using "2.prems"(1) a i by simp
    have "from_index by_id (found @ [(i, s)])"
      using "2.prems"(2) i(2) s by (auto simp: from_index_def dict_ok_def map_of_eq_None_iff)
    from "2.IH"(4) [OF _ s rest this] i
    have out: "from_index by_id found'" "fst ` set found' = insert i (fst ` set found) \<union> addresses by_id nodes"
      "set pending' = insert s (set pending) \<union> {t. \<exists>j \<in> addresses by_id nodes - insert i (fst ` set found). map_of by_id j = Some t}"
      by auto
    have "i \<notin> fst ` set found" using i(2) by (simp add: map_of_eq_None_iff)
    then show ?thesis unfolding addresses_Cons [OF a] i(1) out(2,3) using out(1) s by auto
  qed
qed

lemma addresses_refer: "items_of s ''nodes'' = Inr nodes \<Longrightarrow> addresses by_id nodes = {i. refers by_id s i}"
  by (auto simp: addresses_def refers_def)

text \<open>
  The invariant of the loop: what is found is reachable, and what is reachable is found or lies beyond a
  structure still pending.
\<close>

definition search_ok :: "json dict \<Rightarrow> json \<Rightarrow> json dict \<Rightarrow> json list \<Rightarrow> bool" where
  "search_ok by_id s0 found pending \<longleftrightarrow> from_index by_id found \<and>
     (\<forall>i \<in> fst ` set found. reachable_from by_id s0 i) \<and>
     (\<forall>t \<in> set pending. t = s0 \<or> (\<exists>i \<in> fst ` set found. map_of by_id i = Some t)) \<and>
     (\<forall>t. t = s0 \<or> (\<exists>i \<in> fst ` set found. map_of by_id i = Some t) \<longrightarrow>
        t \<in> set pending \<or> (\<forall>j. refers by_id t j \<longrightarrow> j \<in> fst ` set found))"

lemma reference_loop_finds:
  "reference_loop by_id found pending = Inr r \<Longrightarrow> search_ok by_id s0 found pending \<Longrightarrow> search_ok by_id s0 r []"
proof (induction by_id found pending rule: reference_loop.induct)
  case (2 by_id found s pending)
  obtain nodes found' pending' where n: "items_of s ''nodes'' = Inr nodes"
    and v: "visit_nodes by_id nodes found pending = Inr (found', pending')"
    and r: "reference_loop by_id found' pending' = Inr r"
    using "2.prems"(1) by (auto simp: follow_Inr split: sum.splits)
  have inv: "from_index by_id found" "\<forall>i \<in> fst ` set found. reachable_from by_id s0 i"
    "\<forall>t \<in> set (s # pending). t = s0 \<or> (\<exists>i \<in> fst ` set found. map_of by_id i = Some t)"
    "\<forall>t. t = s0 \<or> (\<exists>i \<in> fst ` set found. map_of by_id i = Some t) \<longrightarrow>
        t \<in> set (s # pending) \<or> (\<forall>j. refers by_id t j \<longrightarrow> j \<in> fst ` set found)"
    using "2.prems"(2) unfolding search_ok_def by blast+
  note adds = visit_nodes_adds [OF v inv(1), unfolded addresses_refer [OF n]]
  then have adds: "from_index by_id found'" "fst ` set found' = fst ` set found \<union> {i. refers by_id s i}"
    "set pending' = set pending \<union> {t. \<exists>i \<in> {i. refers by_id s i} - fst ` set found. map_of by_id i = Some t}"
    by blast+
  have "reachable_from by_id s0 i" if "refers by_id s i" for i
    using inv(2,3) that reachable_from.intros by (metis list.set_intros(1))
  then have A: "\<forall>i \<in> fst ` set found'. reachable_from by_id s0 i" using inv(2) unfolding adds(2) by blast
  have B: "t = s0 \<or> (\<exists>i \<in> fst ` set found'. map_of by_id i = Some t)" if "t \<in> set pending'" for t
    using that inv(3) unfolding adds(2,3) by auto
  have C: "t \<in> set pending' \<or> (\<forall>j. refers by_id t j \<longrightarrow> j \<in> fst ` set found')"
    if "t = s0 \<or> (\<exists>i \<in> fst ` set found'. map_of by_id i = Some t)" for t
  proof (cases "t = s0 \<or> (\<exists>i \<in> fst ` set found. map_of by_id i = Some t)")
    case True
    with inv(4) have "t \<in> set (s # pending) \<or> (\<forall>j. refers by_id t j \<longrightarrow> j \<in> fst ` set found)" by (elim allE impE)
    then show ?thesis unfolding adds(2,3) by auto
  next
    case False
    then have "t \<in> set pending'" using that unfolding adds(2,3) by auto
    then show ?thesis ..
  qed
  have "search_ok by_id s0 found' pending'" unfolding search_ok_def using adds(1) A B C by blast
  then show ?case using "2.IH" n v r by (simp add: search_ok_def)
qed simp

text \<open>
  The child structures shown with a Graph are exactly those it refers to, directly or through others:
  an address is a key if and only if it is reachable through \<^verbatim>\<open>subgraphId\<close> references within the document,
  and its value is the structure published under it; cycles of references do no harm.
\<close>

theorem subgraphs_are_the_reachable:
  assumes "index_graphs (\<lambda>g. field g ''structure'') document_graphs [] = Inr by_id"
    "referenced_subgraphs document_graphs structure = Inr found"
  shows "dict_ok found \<and> (\<forall>i. map_of found i = (if reachable_from by_id structure i then map_of by_id i else None))"
proof -
  have "reference_loop by_id [] [structure] = Inr found"
    using assms by (simp add: referenced_subgraphs_def)
  moreover have "search_ok by_id structure [] [structure]" by (simp add: search_ok_def from_index_def)
  ultimately have inv: "search_ok by_id structure found []" by (rule reference_loop_finds)
  then have ok: "from_index by_id found" and sound: "\<forall>i \<in> fst ` set found. reachable_from by_id structure i"
    and closed: "\<And>t j. t = structure \<or> (\<exists>i \<in> fst ` set found. map_of by_id i = Some t) \<Longrightarrow> refers by_id t j \<Longrightarrow> j \<in> fst ` set found"
    unfolding search_ok_def by auto
  have complete: "i \<in> fst ` set found" if "reachable_from by_id structure i" for i
    using that by induction (use closed in blast)+
  have d: "dict_ok found" using ok by (simp add: from_index_def)
  have "map_of found i = (if reachable_from by_id structure i then map_of by_id i else None)" for i
  proof (cases "i \<in> fst ` set found")
    case True
    then obtain s where "(i, s) \<in> set found" by auto
    then have "map_of found i = Some s" "map_of by_id i = Some s" using d ok by (auto simp: dict_ok_def from_index_def)
    moreover have "reachable_from by_id structure i" using sound True by blast
    ultimately show ?thesis by simp
  next
    case False
    then show ?thesis using complete by (auto simp: map_of_eq_None_iff)
  qed
  then show ?thesis using d by blast
qed

definition child_graph :: "string \<Rightarrow> string \<Rightarrow> json" where
  "child_graph i j = JObj [(''id'', JStr i), (''structure'', JObj [(''nodes'', JArr [JObj [(''id'', JStr ''n''), (''subgraphId'', JStr j)]]),
     (''edges'', JArr [])])]"

definition child_structure :: "string \<Rightarrow> json" where
  "child_structure j = JObj [(''nodes'', JArr [JObj [(''id'', JStr ''n''), (''subgraphId'', JStr j)]]), (''edges'', JArr [])]"

theorem subgraphs_are_the_reachable_witness:
  "reachable_from [(''a'', child_structure ''b''), (''b'', child_structure ''a'')] (child_structure ''b'') ''a''"
proof -
  have "index_graphs (\<lambda>g. field g ''structure'') [child_graph ''a'' ''b'', child_graph ''b'' ''a''] [] =
      Inr [(''a'', child_structure ''b''), (''b'', child_structure ''a'')]"
    "referenced_subgraphs [child_graph ''a'' ''b'', child_graph ''b'' ''a''] (child_structure ''b'') =
      Inr [(''b'', child_structure ''a''), (''a'', child_structure ''b'')]"
    by code_simp+
  from subgraphs_are_the_reachable [OF this, THEN conjunct2, rule_format, of "''a''"] show ?thesis
    by (simp split: if_splits)
qed

section \<open>What is correlated\<close>

lemma index_graphs_mem:
  "index_graphs Inr gs by_id = Inr r \<Longrightarrow> map_of r d = Some g \<Longrightarrow>
   map_of by_id d = Some g \<or> g \<in> set gs \<and> at_key g ''id'' = Some (JStr d)"
proof (induction gs arbitrary: by_id)
  case (Cons h gs)
  then obtain i where i: "at_key h ''id'' = Some (JStr i)" "index_graphs Inr gs (AList.update i h by_id) = Inr r"
    by (auto simp: access_Inr)
  show ?case using Cons.IH [OF i(2) Cons.prems(2)] i(1) by (auto simp: update_conv' split: if_splits)
qed simp

lemma resolve_multi_graph_Some:
  assumes "resolve_multi_graph gs graph_id gm = Inr (Some g)"
  shows "\<exists>gid m by_id d. graph_id = Some gid \<and> gm = Some m \<and> index_graphs Inr gs [] = Inr by_id \<and>
    associated by_id gid m = [d] \<and> (d, gid) \<in> set m \<and> g \<in> set gs \<and> at_key g ''id'' = Some (JStr d)"
proof -
  obtain gid m where gm: "graph_id = Some gid" "gm = Some m" "gid \<noteq> []" "m \<noteq> []"
    using assms by (cases graph_id; cases gm) (auto simp: resolve_multi_graph_def split: if_splits)
  then obtain by_id where by_id: "index_graphs Inr gs [] = Inr by_id"
    and one: "(case associated by_id gid m of [d] \<Rightarrow> map_of by_id d | _ \<Rightarrow> None) = Some g"
    using assms by (auto simp: resolve_multi_graph_def follow_Inr)
  then obtain d where d: "associated by_id gid m = [d]" "map_of by_id d = Some g"
    by (auto split: list.splits)
  then have "d \<in> set (associated by_id gid m)" by simp
  then have "(d, gid) \<in> set m" by (auto simp: associated_def)
  then show ?thesis using gm by_id d(1) index_graphs_mem [OF by_id d(2)] by auto
qed

text \<open>
  C20. Nothing is correlated by guessing: a freshness check yields a structure only when its document is
  current, and then it is that of the document's only Graph or of the single Graph that an explicit
  association names for this Graph id; every other result, a changed document included, withholds Nodes,
  structure and child structures.
\<close>

theorem correlated_only_when_certain:
  assumes "correlate_topology freshness graph_id gm = Inr c"
  shows "if co_correlated c
    then \<exists>f gs g. freshness = Some f \<and> fc_status f \<notin> {ABSENT, UNREACHABLE, INVALID, CHANGED} \<and> co_status c = CURRENT \<and>
      graphs (document_of (fc_reading f)) = Inr gs \<and> g \<in> set gs \<and> co_structure c = at_key g ''structure'' \<and>
      (gs = [g] \<or> (\<exists>gid m by_id d. graph_id = Some gid \<and> gm = Some m \<and> index_graphs Inr gs [] = Inr by_id \<and>
         associated by_id gid m = [d] \<and> (d, gid) \<in> set m \<and> at_key g ''id'' = Some (JStr d)))
    else co_node_ids c = [] \<and> co_structure c = None \<and> co_subgraphs c = []"
proof (cases "co_correlated c")
  case False
  then show ?thesis using assms
    by (auto simp: correlate_topology_def uncorrelated_def Let_def follow_Inr split: option.splits if_splits)
next
  case True
  then obtain f where f: "freshness = Some f" "fc_status f \<notin> {ABSENT, UNREACHABLE, INVALID, CHANGED}"
    using assms by (cases freshness) (auto simp: correlate_topology_def uncorrelated_def split: if_splits)
  let ?body = "\<lambda>gs warnings resolved. (case resolved of None \<Rightarrow> Inr (uncorrelated CURRENT (warnings @ [withheld_text]))
       | Some g \<Rightarrow> follow (field g ''structure'') (\<lambda>structure.
           follow (follow (items_of structure ''nodes'') (map_all (\<lambda>node. str_field node ''id''))) (\<lambda>node_ids.
           follow (referenced_subgraphs gs structure) (\<lambda>subgraphs.
             Inr \<lparr>co_status = CURRENT, co_node_ids = sort node_ids, co_warnings = warnings,
                   co_correlated = True, co_structure = Some structure, co_subgraphs = subgraphs\<rparr>))))"
  have "\<exists>gs warnings. graphs (document_of (fc_reading f)) = Inr gs \<and>
      follow (case gs of [g] \<Rightarrow> Inr (Some g) | _ \<Rightarrow> resolve_multi_graph gs graph_id gm) (?body gs warnings) = Inr c"
    using assms f by (auto simp: correlate_topology_def Let_def follow_Inr [of "graphs _"] follow_Inr [of "document_warnings _"])
  then obtain gs warnings where gs: "graphs (document_of (fc_reading f)) = Inr gs"
    and picked: "follow (case gs of [g] \<Rightarrow> Inr (Some g) | _ \<Rightarrow> resolve_multi_graph gs graph_id gm) (?body gs warnings) = Inr c"
    by blast
  then obtain resolved where resolved: "(case gs of [g] \<Rightarrow> Inr (Some g) | _ \<Rightarrow> resolve_multi_graph gs graph_id gm) = Inr resolved"
    and rest: "?body gs warnings resolved = Inr c"
    using iffD1 [OF follow_Inr, OF picked] by blast
  obtain g where g: "resolved = Some g" using rest True by (cases resolved) (auto simp: uncorrelated_def)
  then have c: "co_status c = CURRENT" "co_structure c = at_key g ''structure''"
    using rest by (auto simp: follow_Inr field_Inr)
  have "gs = [g] \<or> resolve_multi_graph gs graph_id gm = Inr (Some g)"
    using resolved g by (auto split: list.splits)
  then have "g \<in> set gs \<and> (gs = [g] \<or> (\<exists>gid m by_id d. graph_id = Some gid \<and> gm = Some m \<and> index_graphs Inr gs [] = Inr by_id \<and>
         associated by_id gid m = [d] \<and> (d, gid) \<in> set m \<and> at_key g ''id'' = Some (JStr d)))"
    using resolve_multi_graph_Some by (metis list.set_intros(1))
  then show ?thesis using True f gs c by auto
qed

theorem correlated_only_when_certain_witness:
  "\<exists>c. correlate_topology (Some \<lparr>fc_status = UNCHANGED, fc_reading = (reading_of VALID)\<lparr>tr_document := Some demo_document\<rparr>\<rparr>)
     None None = Inr c \<and> co_structure c = at_key demo_graph ''structure''"
proof -
  let ?f = "\<lparr>fc_status = UNCHANGED, fc_reading = (reading_of VALID)\<lparr>tr_document := Some demo_document\<rparr>\<rparr>"
  have "map_sum id co_correlated (correlate_topology (Some ?f) None None) = Inr True" by code_simp
  then obtain c where c: "correlate_topology (Some ?f) None None = Inr c" "co_correlated c"
    by (cases "correlate_topology (Some ?f) None None") auto
  have "graphs (document_of (fc_reading ?f)) = Inr [demo_graph]" by code_simp
  then show ?thesis using correlated_only_when_certain [OF c(1)] c by auto
qed

end
