(* ===== verification/Py_Text.thy ===== *)
theory Py_Text
  imports Prelude
begin

text \<open>
  The operations of Python's \<^verbatim>\<open>str\<close> and \<^verbatim>\<open>int\<close> the components share: \<^verbatim>\<open>strip\<close>, \<^verbatim>\<open>rsplit(sep, 1)\<close>,
  \<^verbatim>\<open>int(s, base)\<close> and the zero-padded hexadecimal format of OpenTelemetry ids with its round trip.
\<close>

section \<open>Parts of a string\<close>

definition strip :: "string \<Rightarrow> string" where
  "strip s = rev (dropWhile py_space (rev (dropWhile py_space s)))"

definition starts_with :: "string \<Rightarrow> string \<Rightarrow> bool" where
  "starts_with pre s = (take (length pre) s = pre)"

text \<open>\<^verbatim>\<open>s.rsplit(sep, 1)\<close>: the parts around the last occurrence, if there is one.\<close>

fun rsplit1 :: "string \<Rightarrow> string \<Rightarrow> (string \<times> string) option" where
  "rsplit1 sep [] = None"
| "rsplit1 sep (c # cs) =
     (case rsplit1 sep cs of
        Some (a, b) \<Rightarrow> Some (c # a, b)
      | None \<Rightarrow> if starts_with sep (c # cs) then Some ([], drop (length sep) (c # cs)) else None)"

text \<open>\<^verbatim>\<open>s.rsplit(sep, 1)[-1]\<close>\<close>

definition rsplit_last :: "string \<Rightarrow> string \<Rightarrow> string" where
  "rsplit_last sep s = (case rsplit1 sep s of None \<Rightarrow> s | Some (a, b) \<Rightarrow> b)"

lemma starts_with_append [simp]: "starts_with pre (pre @ s)"
  by (simp add: starts_with_def)

lemma starts_with_set: "starts_with pre s \<Longrightarrow> set pre \<subseteq> set s"
  unfolding starts_with_def by (metis set_take_subset)

lemma rsplit1_Some: "rsplit1 sep s = Some (a, b) \<Longrightarrow> s = a @ sep @ b"
  by (induction s arbitrary: a) (auto simp: starts_with_def split: option.splits if_splits, metis append_take_drop_id)

lemma rsplit1_append:
  assumes "sep \<noteq> []" "rsplit1 sep b = None" "\<And>c cs. sep = c # cs \<Longrightarrow> c \<notin> set cs \<and> c \<notin> set b"
  shows "rsplit1 sep (a @ sep @ b) = Some (a, b)"
proof -
  obtain c cs where sep: "sep = c # cs" using assms(1) by (cases sep) auto
  have none: "c \<notin> set s \<Longrightarrow> rsplit1 sep s = None" for s
    by (induction s) (auto simp: sep starts_with_def)
  have "rsplit1 sep (sep @ b) = Some ([], b)"
  proof -
    have "rsplit1 sep (cs @ b) = None" using assms(3) [OF sep] by (intro none) simp
    then show ?thesis using sep by (simp add: starts_with_def)
  qed
  then show ?thesis by (induction a) simp_all
qed

section \<open>Integers\<close>

text \<open>
  \<^verbatim>\<open>int(s, base)\<close>: white space around, an optional sign, for base 16 an optional prefix, and digits
  with single underscores between them. The flag tells whether an underscore may come next.
\<close>

definition digit_value :: "nat \<Rightarrow> char \<Rightarrow> nat option" where
  "digit_value base c =
     (let n = of_char c :: nat;
          d = (if 48 \<le> n \<and> n \<le> 57 then n - 48
               else if 97 \<le> n \<and> n \<le> 122 then n - 87
               else if 65 \<le> n \<and> n \<le> 90 then n - 55 else base)
      in if d < base then Some d else None)"

fun digits_value :: "nat \<Rightarrow> string \<Rightarrow> bool \<Rightarrow> nat \<Rightarrow> nat option" where
  "digits_value base [] after_digit acc = (if after_digit then Some acc else None)"
| "digits_value base (c # cs) after_digit acc =
     (case digit_value base c of
        Some d \<Rightarrow> digits_value base cs True (base * acc + d)
      | None \<Rightarrow> if c = CHR ''_'' \<and> after_digit \<and> cs \<noteq> [] then digits_value base cs False acc else None)"

definition unsigned_value :: "nat \<Rightarrow> string \<Rightarrow> nat option" where
  "unsigned_value base s =
     (if base = 16 \<and> (starts_with ''0x'' s \<or> starts_with ''0X'' s)
      then digits_value base (drop (if starts_with ''_'' (drop 2 s) then 3 else 2) s) False 0
      else digits_value base s False 0)"

definition int_of_str :: "nat \<Rightarrow> string \<Rightarrow> int option" where
  "int_of_str base s =
     (case strip s of
        [] \<Rightarrow> None
      | c # cs \<Rightarrow>
          if c = CHR ''-'' then map_option (\<lambda>n. - int n) (unsigned_value base cs)
          else if c = CHR ''+'' then map_option int (unsigned_value base cs)
          else map_option int (unsigned_value base (c # cs)))"

section \<open>Fixed-width hexadecimal\<close>

definition hex_char :: "nat \<Rightarrow> char" where
  "hex_char d = char_of (if d < 10 then 48 + d else 87 + d)"

text \<open>\<^verbatim>\<open>format(n, "0<w>x")\<close>: at least \<open>w\<close> lower-case digits.\<close>

fun show_hex :: "nat \<Rightarrow> string" where
  "show_hex n = (if n < 16 then [hex_char n] else show_hex (n div 16) @ [hex_char (n mod 16)])"

declare show_hex.simps [simp del]

definition format_hex :: "nat \<Rightarrow> nat \<Rightarrow> string" where
  "format_hex w n = (let s = show_hex n in replicate (w - length s) (CHR ''0'') @ s)"

lemma digit_value_hex [simp]:
  assumes "d < 16"
  shows "digit_value 16 (hex_char d) = Some d"
proof -
  have "(of_char (char_of m :: char) :: nat) = m" if "m < 256" for m :: nat
    using that by (simp add: take_bit_eq_mod)
  then show ?thesis using assms by (simp add: digit_value_def hex_char_def Let_def)
qed

lemma digits_value_append:
  "list_all (\<lambda>c. digit_value b c \<noteq> None) xs \<Longrightarrow>
   digits_value b (xs @ ys) f acc = digits_value b ys (f \<or> xs \<noteq> []) (foldl (\<lambda>a c. b * a + the (digit_value b c)) acc xs)"
  by (induction xs arbitrary: f acc) auto

lemma show_hex_digits: "list_all (\<lambda>c. digit_value 16 c \<noteq> None) (show_hex n)"
  by (induction n rule: show_hex.induct) (subst show_hex.simps, simp)

lemma show_hex_value: "foldl (\<lambda>a c. 16 * a + the (digit_value 16 c)) 0 (show_hex n) = n"
proof (induction n rule: show_hex.induct)
  case (1 n)
  then show ?case by (subst show_hex.simps) simp
qed

lemma show_hex_not_Nil [simp]: "show_hex n \<noteq> []"
  by (subst show_hex.simps) simp

lemma digit_value_zero [simp]: "digit_value 16 (CHR ''0'') = Some 0"
  by (simp add: digit_value_def)

lemma foldl_zeros: "foldl (\<lambda>a c. 16 * a + the (digit_value 16 c)) 0 (replicate k (CHR ''0'')) = 0"
  by (induction k) simp_all

lemma format_hex_digits: "list_all (\<lambda>c. digit_value 16 c \<noteq> None) (format_hex w n)"
  using show_hex_digits [of n] by (auto simp: format_hex_def Let_def list_all_iff)

lemma format_hex_not_Nil [simp]: "format_hex w n \<noteq> []"
  by (simp add: format_hex_def Let_def)

lemma digits_format_hex: "digits_value 16 (format_hex w n) False 0 = Some n"
proof -
  have "foldl (\<lambda>a c. 16 * a + the (digit_value 16 c)) 0 (format_hex w n) = n"
    by (simp add: format_hex_def Let_def foldl_zeros show_hex_value)
  then show ?thesis using digits_value_append [OF format_hex_digits, of w n "[]" False 0] by simp
qed

lemma dropWhile_none: "(\<And>c. c \<in> set s \<Longrightarrow> \<not> P c) \<Longrightarrow> dropWhile P s = s"
  by (cases s) simp_all

lemma strip_same: "(\<And>c. c \<in> set s \<Longrightarrow> \<not> py_space c) \<Longrightarrow> strip s = s"
  using dropWhile_none [of s py_space] dropWhile_none [of "rev s" py_space] by (simp add: strip_def)

lemma hex_digit_no_space: "digit_value 16 c \<noteq> None \<Longrightarrow> \<not> py_space c \<and> c \<noteq> CHR ''-'' \<and> c \<noteq> CHR ''+'' \<and> c \<noteq> CHR ''x'' \<and> c \<noteq> CHR ''X''"
  by (auto simp: digit_value_def py_space_def Let_def split: if_splits)

theorem int_of_format_hex: "int_of_str 16 (format_hex w n) = Some (int n)"
proof -
  have digits: "digit_value 16 c \<noteq> None" if "c \<in> set (format_hex w n)" for c
    using format_hex_digits [of w n] that by (simp add: list_all_iff)
  have strip: "strip (format_hex w n) = format_hex w n"
    by (rule strip_same) (use digits hex_digit_no_space in blast)
  have plain: "\<not> starts_with ''0x'' (format_hex w n)" "\<not> starts_with ''0X'' (format_hex w n)"
    using digits [THEN hex_digit_no_space] starts_with_set [of "''0x''" "format_hex w n"]
      starts_with_set [of "''0X''" "format_hex w n"] by auto
  obtain c cs where s: "format_hex w n = c # cs" by (cases "format_hex w n") simp_all
  have "c \<noteq> CHR ''-''" "c \<noteq> CHR ''+''" using digits [THEN hex_digit_no_space, of c] s by simp_all
  moreover have "unsigned_value 16 (format_hex w n) = Some n"
    using digits_format_hex [of w n] plain by (simp add: unsigned_value_def)
  ultimately show ?thesis using strip by (simp add: int_of_str_def s)
qed

end
