(* ===== verification/Archive_Query.thy ===== *)
theory Archive_Query
  imports Json Py_Text
begin

text \<open>
  \<^verbatim>\<open>archive_query.py\<close>: the strict reader of raw OTLP JSONL archives and the query that counts explicitly
  escalated Attempts. A span is the JSON object the archive holds; a normalized one has its ids in lower
  case, its attributes as one object and its timestamps as integers. Files are what a directory listing and
  \<^verbatim>\<open>json.loads\<close> of each line give, a parameter. Attribute keys are strings, as OTLP has them.
\<close>

definition CURRENT_SEMCONV :: string where "CURRENT_SEMCONV = ''0.4.0''"

definition STEP_OUTCOMES :: "string list" where
  "STEP_OUTCOMES = [''passed'', ''repaired'', ''failed'', ''awaiting_approval'', ''halted'']"

definition ATTEMPT_OUTCOMES :: "string list" where
  "ATTEMPT_OUTCOMES = [''passed'', ''failed'', ''escalated'']"

definition WINDOW_NS :: int where "WINDOW_NS = 56 * 86400 * 1000000000"

definition IDENTITY :: "string list" where
  "IDENTITY = [''cord.graph.id'', ''cord.run.id'', ''cord.subject.id'', ''cord.subject.type'']"

definition SUPPORTED_RUN_VERSIONS :: "string list" where
  "SUPPORTED_RUN_VERSIONS = [''0.2.0'', ''0.3.0'', CURRENT_SEMCONV]"

type_synonym span = "json dict"

text \<open>\<^verbatim>\<open>require\<close>, with what follows it.\<close>

definition archive_error :: "string \<Rightarrow> exn + 'a" where
  "archive_error reason = Inl (Exn ArchiveError reason)"

definition require_that :: "bool \<Rightarrow> string \<Rightarrow> exn + 'a \<Rightarrow> exn + 'a" where
  "require_that condition reason rest = (if condition then rest else archive_error reason)"

section \<open>Normalizing one span\<close>

text \<open>\<^verbatim>\<open>type(v) is int or (isinstance(v, str) and v.isdecimal())\<close>, then \<^verbatim>\<open>int(v)\<close>.\<close>

definition decimal_value :: "json \<Rightarrow> int option" where
  "decimal_value v =
     (case v of
        JInt i \<Rightarrow> Some i
      | JStr s \<Rightarrow> if s \<noteq> [] \<and> list_all (\<lambda>c. digit_value 10 c \<noteq> None) s
                 then Some (int (foldl (\<lambda>a c. 10 * a + the (digit_value 10 c)) 0 s)) else None
      | _ \<Rightarrow> None)"

definition attribute_item :: "string \<Rightarrow> json \<Rightarrow> exn + json" where
  "attribute_item kind item =
     (if kind = ''intValue'' then
        (case decimal_value item of None \<Rightarrow> archive_error ''invalid integer attribute'' | Some i \<Rightarrow> Inr (JInt i))
      else if kind = ''stringValue'' then
        (case item of JStr _ \<Rightarrow> Inr item | _ \<Rightarrow> archive_error ''invalid string attribute'')
      else if kind = ''boolValue'' then
        (case item of JBool _ \<Rightarrow> Inr item | _ \<Rightarrow> archive_error ''invalid boolean attribute'')
      else Inr item)"

definition malformed_attribute :: string where
  "malformed_attribute = ''duplicate or malformed attribute''"

text \<open>\<^verbatim>\<open>len(value) == 1\<close> and \<^verbatim>\<open>next(iter(value.items()))\<close>\<close>

definition attribute_value :: "json \<Rightarrow> exn + json" where
  "attribute_value v =
     (case v of
        JObj [(kind, item)] \<Rightarrow> attribute_item kind item
      | JObj _ \<Rightarrow> archive_error malformed_attribute
      | JArr xs \<Rightarrow> if length xs = 1 then Inl (Exn PyAttributeError ''object has no attribute items'')
                  else archive_error malformed_attribute
      | JStr s \<Rightarrow> if length s = 1 then Inl (Exn PyAttributeError ''object has no attribute items'')
                 else archive_error malformed_attribute
      | _ \<Rightarrow> Inl (Exn PyTypeError ''object has no len''))"

fun attributes_from :: "json list \<Rightarrow> json dict \<Rightarrow> exn + json dict" where
  "attributes_from [] result = Inr result"
| "attributes_from (attr # rest) result =
     follow (str_field attr ''key'') (\<lambda>key.
     follow (field attr ''value'') (\<lambda>v.
     require_that (map_of result key = None) malformed_attribute (
     follow (attribute_value v) (\<lambda>item.
       attributes_from rest (result @ [(key, item)])))))"

definition attributes :: "span \<Rightarrow> exn + json dict" where
  "attributes s =
     follow (iter_json (case map_of s ''attributes'' of None \<Rightarrow> JArr [] | Some j \<Rightarrow> j)) (\<lambda>attrs.
       attributes_from attrs [])"

text \<open>\<^verbatim>\<open>re.fullmatch('[0-9a-fA-F]{n}', v) and int(v, 16) != 0\<close>, then \<^verbatim>\<open>lower\<close>.\<close>

definition lower_char :: "char \<Rightarrow> char" where
  "lower_char c = (let n = of_char c :: nat in if 65 \<le> n \<and> n \<le> 90 then char_of (n + 32) else c)"

definition identifier_of :: "json \<Rightarrow> nat \<Rightarrow> exn + string" where
  "identifier_of v n =
     (case v of
        JStr s \<Rightarrow>
          if length s = n \<and> list_all (\<lambda>c. digit_value 16 c \<noteq> None) s \<and> list_ex (\<lambda>c. digit_value 16 c \<noteq> Some 0) s
          then Inr (map lower_char s) else archive_error ''invalid OTLP trace/span identifier''
      | _ \<Rightarrow> archive_error ''invalid OTLP trace/span identifier'')"

definition timestamp :: "json \<Rightarrow> exn + int" where
  "timestamp v =
     (case decimal_value v of
        None \<Rightarrow> archive_error ''invalid span timestamp''
      | Some t \<Rightarrow> require_that (0 < t \<and> t < 2 ^ 64) ''invalid span timestamp'' (Inr t))"

text \<open>The body of \<^verbatim>\<open>read_spans\<close> for one span: its id and its normalized form.\<close>

definition normalize_parent :: "span \<Rightarrow> exn + span" where
  "normalize_parent s =
     (case map_of s ''parentSpanId'' of
        None \<Rightarrow> Inr s
      | Some p \<Rightarrow>
          if truthy p then follow (identifier_of p 16) (\<lambda>pid. Inr (AList.update ''parentSpanId'' (JStr pid) s))
          else Inr s)"

definition normalize_body :: "span \<Rightarrow> exn + span" where
  "normalize_body s =
     follow (attributes s) (\<lambda>attrs.
     follow (follow (field (JObj s) ''startTimeUnixNano'') timestamp) (\<lambda>start.
     follow (follow (field (JObj s) ''endTimeUnixNano'') timestamp) (\<lambda>stop.
     require_that (start \<le> stop) ''span ends before it starts''
       (Inr (AList.update ''endTimeUnixNano'' (JInt stop)
          (AList.update ''startTimeUnixNano'' (JInt start)
             (AList.update ''attributes'' (JObj attrs) s)))))))"

definition with_ids :: "string \<Rightarrow> string \<Rightarrow> json \<Rightarrow> exn + span" where
  "with_ids sid tid j =
     (case j of
        JObj s \<Rightarrow> Inr (AList.update ''traceId'' (JStr tid) (AList.update ''spanId'' (JStr sid) s))
      | _ \<Rightarrow> Inl (Exn PyTypeError ''object does not support item assignment''))"

definition normalize_span :: "json \<Rightarrow> exn + string \<times> span" where
  "normalize_span j =
     follow (follow (field j ''spanId'') (\<lambda>v. identifier_of v 16)) (\<lambda>sid.
     follow (follow (field j ''traceId'') (\<lambda>v. identifier_of v 32)) (\<lambda>tid.
     follow (with_ids sid tid j) (\<lambda>s1.
     follow (normalize_parent s1) (\<lambda>s2.
     follow (normalize_body s2) (\<lambda>s3. Inr (sid, s3))))))"

section \<open>Reading an archive\<close>

text \<open>The spans by id, each with where it was first seen.\<close>

type_synonym span_index = "(span \<times> string) dict"

definition index_span :: "string \<Rightarrow> json \<Rightarrow> span_index \<Rightarrow> exn + span_index" where
  "index_span location j indexed =
     follow (normalize_span j) (\<lambda>(sid, s).
       case map_of indexed sid of
         Some (s', _) \<Rightarrow> require_that (py_eq (JObj s') (JObj s)) ''conflicting duplicate span_id'' (Inr indexed)
       | None \<Rightarrow> Inr (indexed @ [(sid, (s, location))]))"

fun index_spans :: "string \<Rightarrow> json list \<Rightarrow> span_index \<Rightarrow> exn + span_index" where
  "index_spans location [] indexed = Inr indexed"
| "index_spans location (j # js) indexed =
     follow (index_span location j indexed) (index_spans location js)"

fun index_scopes :: "string \<Rightarrow> json list \<Rightarrow> span_index \<Rightarrow> exn + span_index" where
  "index_scopes location [] indexed = Inr indexed"
| "index_scopes location (scope # scopes) indexed =
     follow (items_of scope ''spans'') (\<lambda>spans.
     follow (index_spans location spans indexed) (index_scopes location scopes))"

fun index_resources :: "string \<Rightarrow> json list \<Rightarrow> span_index \<Rightarrow> exn + span_index" where
  "index_resources location [] indexed = Inr indexed"
| "index_resources location (resource # resources) indexed =
     follow (items_of resource ''scopeSpans'') (\<lambda>scopes.
     follow (index_scopes location scopes indexed) (index_resources location resources))"

definition index_record :: "string \<Rightarrow> json \<Rightarrow> span_index \<Rightarrow> exn + span_index" where
  "index_record location rec indexed =
     follow (field rec ''resourceSpans'') (\<lambda>rs.
       case rs of JArr resources \<Rightarrow> index_resources location resources indexed
       | _ \<Rightarrow> archive_error ''invalid OTLP envelope'')"

definition location_of :: "nat \<Rightarrow> nat \<Rightarrow> string" where
  "location_of file_number line_number = ''file '' @ show_nat file_number @ '', line '' @ show_nat line_number"

text \<open>What every exception of the loop becomes: only the archive's own reasons are quoted.\<close>

definition located :: "nat \<Rightarrow> nat \<Rightarrow> exn + 'a \<Rightarrow> exn + 'a" where
  "located file_number line_number r =
     (case r of
        Inl x \<Rightarrow> archive_error (location_of file_number line_number @ '': '' @
                   (if exn_class x = ArchiveError then exn_msg x else ''invalid or unreadable OTLP JSONL''))
      | Inr v \<Rightarrow> Inr v)"

text \<open>
  A file's lines, \<open>None\<close> for one that is no JSON, and whether reading fails after them (a file that cannot
  be opened has no lines and fails).
\<close>

record archive_file =
  af_lines :: "json option list"
  af_fails :: bool

fun read_lines :: "nat \<Rightarrow> nat \<Rightarrow> json option list \<Rightarrow> span_index \<Rightarrow> exn + span_index" where
  "read_lines file_number line_number [] indexed = Inr indexed"
| "read_lines file_number line_number (line # rest) indexed =
     follow (located file_number (Suc line_number)
       (case line of
          None \<Rightarrow> Inl (Exn PyValueError ''not JSON'')
        | Some rec \<Rightarrow> index_record (location_of file_number (Suc line_number)) rec indexed))
       (read_lines file_number (Suc line_number) rest)"

definition read_file :: "nat \<Rightarrow> archive_file \<Rightarrow> span_index \<Rightarrow> exn + span_index" where
  "read_file file_number f indexed =
     follow (read_lines file_number 0 (af_lines f) indexed) (\<lambda>indexed'.
     located file_number (length (af_lines f))
       (if af_fails f then Inl (Exn PyOSError ''unreadable'')
        else require_that (af_lines f \<noteq> []) ''empty archive file'' (Inr indexed')))"

fun read_files :: "nat \<Rightarrow> archive_file list \<Rightarrow> span_index \<Rightarrow> exn + span_index" where
  "read_files file_number [] indexed = Inr indexed"
| "read_files file_number (f # fs) indexed =
     follow (read_file file_number f indexed) (read_files (Suc file_number) fs)"

text \<open>A path: a file, or a directory with its plain and its compressed partitions, each sorted by name.\<close>

datatype archive_path = File_Path archive_file | Directory "archive_file list" "archive_file list"

fun scan :: "archive_path list \<Rightarrow> exn + archive_file list" where
  "scan [] = Inr []"
| "scan (p # ps) =
     (let entries = (case p of File_Path f \<Rightarrow> [f] | Directory plain packed \<Rightarrow> plain @ packed) in
      require_that (entries \<noteq> []) ''archive directory has no input files''
        (follow (scan ps) (\<lambda>fs. Inr (entries @ fs))))"

definition read_spans :: "archive_path list \<Rightarrow> exn + span_index" where
  "read_spans paths =
     follow (scan paths) (\<lambda>files.
     follow (read_files 1 files []) (\<lambda>indexed.
     require_that (indexed \<noteq> []) ''archive contains no spans'' (Inr indexed)))"

section \<open>What a read archive holds\<close>

lemma require_that_Inr: "require_that c reason m = Inr r \<longleftrightarrow> c \<and> m = Inr r"
  by (simp add: require_that_def archive_error_def)

lemma located_Inr: "located a b m = Inr r \<longleftrightarrow> m = Inr r"
  by (cases m) (simp_all add: located_def archive_error_def)

lemmas archive_Inr = follow_Inr require_that_Inr located_Inr

definition hex_id :: "nat \<Rightarrow> string \<Rightarrow> bool" where
  "hex_id n i = (length i = n \<and> list_all (\<lambda>c. digit_value 16 c \<noteq> None \<and> lower_char c = c) i)"

definition normal_span :: "string \<Rightarrow> span \<Rightarrow> bool" where
  "normal_span sid s \<longleftrightarrow> map_of s ''spanId'' = Some (JStr sid) \<and> hex_id 16 sid \<and>
     (\<exists>tid. map_of s ''traceId'' = Some (JStr tid) \<and> hex_id 32 tid) \<and>
     (\<exists>a. map_of s ''attributes'' = Some (JObj a) \<and> dict_ok a) \<and>
     (\<exists>b e. map_of s ''startTimeUnixNano'' = Some (JInt b) \<and> map_of s ''endTimeUnixNano'' = Some (JInt e) \<and>
        0 < b \<and> b \<le> e \<and> e < 2 ^ 64)"

definition index_ok :: "span_index \<Rightarrow> bool" where
  "index_ok spans \<longleftrightarrow> dict_ok spans \<and> (\<forall>i s l. (i, (s, l)) \<in> set spans \<longrightarrow> normal_span i s)"

lemma lower_hex: "digit_value 16 c \<noteq> None \<Longrightarrow> digit_value 16 (lower_char c) \<noteq> None \<and> lower_char (lower_char c) = lower_char c"
proof -
  assume c: "digit_value 16 c \<noteq> None"
  show ?thesis
  proof (cases "65 \<le> (of_char c :: nat) \<and> (of_char c :: nat) \<le> 90")
    case True
    then have "(of_char (lower_char c) :: nat) = of_char c + 32"
      by (simp add: lower_char_def Let_def take_bit_eq_mod)
    then show ?thesis using c True by (simp add: digit_value_def Let_def lower_char_def [of "lower_char c"] split: if_splits)
  next
    case False
    then have "lower_char c = c" by (auto simp: lower_char_def Let_def)
    then show ?thesis using c by simp
  qed
qed

lemma identifier_hex: "identifier_of v n = Inr i \<Longrightarrow> hex_id n i"
  using lower_hex by (auto simp: identifier_of_def hex_id_def list_all_iff archive_error_def split: json.splits if_splits)

lemma attributes_from_ok: "attributes_from js d = Inr a \<Longrightarrow> dict_ok d \<Longrightarrow> dict_ok a"
proof (induction js d rule: attributes_from.induct)
  case (2 at1 rest d)
  from 2(2) obtain key v item where "str_field at1 ''key'' = Inr key" "field at1 ''value'' = Inr v" "map_of d key = None"
    "attribute_value v = Inr item" and a: "attributes_from rest (d @ [(key, item)]) = Inr a"
    by (auto simp: archive_Inr)
  moreover from this have "dict_ok (d @ [(key, item)])" using 2(3) by (simp add: dict_ok_def map_of_eq_None_iff)
  ultimately show ?case using 2(1) by blast
qed simp

lemma timestamp_bounds: "timestamp v = Inr t \<Longrightarrow> 0 < t \<and> t < 2 ^ 64"
  by (auto simp: timestamp_def require_that_def archive_error_def split: option.splits if_splits)

lemma normalize_parent_keeps:
  "normalize_parent s = Inr s' \<Longrightarrow> k \<noteq> ''parentSpanId'' \<Longrightarrow> map_of s' k = map_of s k"
  by (auto simp: normalize_parent_def archive_Inr update_conv' split: option.splits if_splits)

lemma normalize_body_normal:
  assumes "normalize_body s = Inr s'"
  shows "map_of s' ''spanId'' = map_of s ''spanId'' \<and> map_of s' ''traceId'' = map_of s ''traceId'' \<and>
    (\<exists>a. map_of s' ''attributes'' = Some (JObj a) \<and> dict_ok a) \<and>
    (\<exists>b e. map_of s' ''startTimeUnixNano'' = Some (JInt b) \<and> map_of s' ''endTimeUnixNano'' = Some (JInt e) \<and>
       0 < b \<and> b \<le> e \<and> e < 2 ^ 64)"
proof -
  obtain attrs b e where attrs: "attributes s = Inr attrs" and b: "follow (field (JObj s) ''startTimeUnixNano'') timestamp = Inr b"
    and e: "follow (field (JObj s) ''endTimeUnixNano'') timestamp = Inr e" and le: "b \<le> e"
    and s': "s' = AList.update ''endTimeUnixNano'' (JInt e) (AList.update ''startTimeUnixNano'' (JInt b)
        (AList.update ''attributes'' (JObj attrs) s))"
    using assms unfolding normalize_body_def follow_Inr [of "attributes _"] follow_Inr [of "follow _ _"] require_that_Inr
    by auto
  have "dict_ok attrs" using attrs attributes_from_ok by (auto simp: attributes_def archive_Inr dict_ok_def)
  moreover have "0 < b" "e < 2 ^ 64" using b e timestamp_bounds unfolding follow_Inr by blast+
  ultimately show ?thesis using le by (simp add: s' update_conv')
qed

lemma normalize_span_normal:
  assumes "normalize_span j = Inr (sid, s)"
  shows "normal_span sid s"
proof -
  obtain tid s1 s2 where ids: "hex_id 16 sid" "hex_id 32 tid" and s1: "with_ids sid tid j = Inr s1"
    and s2: "normalize_parent s1 = Inr s2" and s: "normalize_body s2 = Inr s"
    using assms unfolding normalize_span_def by (auto simp: archive_Inr dest: identifier_hex)
  have "map_of s1 ''spanId'' = Some (JStr sid)" "map_of s1 ''traceId'' = Some (JStr tid)"
    using s1 by (cases j; auto simp: with_ids_def update_conv')+
  then have "map_of s2 ''spanId'' = Some (JStr sid)" "map_of s2 ''traceId'' = Some (JStr tid)"
    using normalize_parent_keeps [OF s2] by simp_all
  then show ?thesis using ids normalize_body_normal [OF s] by (simp add: normal_span_def)
qed

lemma index_span_ok:
  assumes "index_span l j d = Inr d'" "index_ok d"
  shows "index_ok d'"
proof -
  from assms(1) obtain sid s where n: "normalize_span j = Inr (sid, s)"
    and rest: "(case map_of d sid of
         Some (s', _) \<Rightarrow> require_that (py_eq (JObj s') (JObj s)) ''conflicting duplicate span_id'' (Inr d)
       | None \<Rightarrow> Inr (d @ [(sid, (s, l))])) = Inr d'"
    by (auto simp: index_span_def archive_Inr)
  show ?thesis
  proof (cases "map_of d sid")
    case None
    then have "d' = d @ [(sid, (s, l))]" using rest by simp
    then show ?thesis using assms(2) None normalize_span_normal [OF n]
      by (auto simp: index_ok_def dict_ok_def map_of_eq_None_iff)
  next
    case (Some sl)
    then show ?thesis using rest assms(2) by (auto simp: archive_Inr split: prod.splits)
  qed
qed

lemma index_spans_ok: "index_spans l js d = Inr d' \<Longrightarrow> index_ok d \<Longrightarrow> index_ok d'"
  by (induction l js d rule: index_spans.induct) (auto simp: archive_Inr dest: index_span_ok)

lemma index_scopes_ok: "index_scopes l js d = Inr d' \<Longrightarrow> index_ok d \<Longrightarrow> index_ok d'"
  by (induction l js d rule: index_scopes.induct) (auto simp: archive_Inr dest: index_spans_ok)

lemma index_resources_ok: "index_resources l js d = Inr d' \<Longrightarrow> index_ok d \<Longrightarrow> index_ok d'"
  by (induction l js d rule: index_resources.induct) (auto simp: archive_Inr dest: index_scopes_ok)

lemma index_record_ok: "index_record l j d = Inr d' \<Longrightarrow> index_ok d \<Longrightarrow> index_ok d'"
proof -
  assume r: "index_record l j d = Inr d'" and d: "index_ok d"
  from r obtain rs where rs: "(case rs of JArr resources \<Rightarrow> index_resources l resources d
       | _ \<Rightarrow> archive_error ''invalid OTLP envelope'') = Inr d'"
    by (auto simp: index_record_def archive_Inr)
  then show "index_ok d'" using d by (cases rs) (auto simp: archive_error_def dest: index_resources_ok)
qed

lemma read_lines_ok: "read_lines a b ls d = Inr d' \<Longrightarrow> index_ok d \<Longrightarrow> index_ok d'"
  by (induction a b ls d rule: read_lines.induct) (auto simp: archive_Inr dest: index_record_ok split: option.splits)

lemma read_files_ok: "read_files a fs d = Inr d' \<Longrightarrow> index_ok d \<Longrightarrow> index_ok d'"
  by (induction a fs d rule: read_files.induct)
    (auto simp: read_file_def archive_Inr dest: read_lines_ok split: if_splits)

lemma read_spans_ok: "read_spans paths = Inr spans \<Longrightarrow> index_ok spans"
  by (auto simp: read_spans_def archive_Inr index_ok_def [of "[]"] dict_ok_def dest: read_files_ok)

section \<open>Properties\<close>

text \<open>
  C30. What a read archive holds is well formed: the spans are indexed by distinct ids, each under its own
  span id, ids are lower-case hexadecimal of their full width, attribute keys are distinct, and start and
  end are 64-bit timestamps in order.
\<close>

theorem read_archive_well_formed:
  assumes "read_spans paths = Inr spans"
  shows "spans \<noteq> [] \<and> dict_ok spans \<and> (\<forall>i s l. (i, (s, l)) \<in> set spans \<longrightarrow> normal_span i s)"
  using assms read_spans_ok [OF assms] by (auto simp: read_spans_def archive_Inr index_ok_def)

definition one_span_file :: archive_file where
  "one_span_file = \<lparr>af_lines = [Some (JObj [(''resourceSpans'', JArr [JObj [(''scopeSpans'', JArr [JObj [(''spans'', JArr
     [JObj [(''spanId'', JStr ''00000000000000AB''), (''traceId'', JStr ''000000000000000000000000000000AB''),
       (''startTimeUnixNano'', JStr ''5''), (''endTimeUnixNano'', JInt 9)]])]])]])])], af_fails = False\<rparr>"

definition one_span :: span where
  "one_span = [(''spanId'', JStr ''00000000000000ab''), (''traceId'', JStr ''000000000000000000000000000000ab''),
       (''startTimeUnixNano'', JInt 5), (''endTimeUnixNano'', JInt 9), (''attributes'', JObj [])]"

lemma one_span_read:
  "read_spans [File_Path one_span_file] = Inr [(''00000000000000ab'', (one_span, ''file 1, line 1''))]"
  by code_simp

theorem read_archive_well_formed_witness: "normal_span ''00000000000000ab'' one_span"
  using read_archive_well_formed [OF one_span_read] by simp

end
