(* ===== verification/Archive_Escalations.thy ===== *)
theory Archive_Escalations
  imports Archive_Query "HOL-Library.Multiset" "HOL-Library.Product_Lexorder" "HOL-Library.List_Lexorder" "HOL-Library.Char_ord"
begin

text \<open>
  The query half of \<^verbatim>\<open>archive_query.py\<close>: the classification of a normalized span, its parent and its Run
  root, the contract every span of a complete archive meets, and the count of escalated Attempts.
\<close>

section \<open>Classifying spans\<close>

definition attrs_of :: "span \<Rightarrow> json dict" where
  "attrs_of s = (case map_of s ''attributes'' of Some (JObj a) \<Rightarrow> a | _ \<Rightarrow> [])"

definition attr :: "span \<Rightarrow> string \<Rightarrow> json option" where
  "attr s k = map_of (attrs_of s) k"

datatype span_role = Run_Role | Step_Role | Attempt_Role

fun role_name :: "span_role \<Rightarrow> string" where
  "role_name Run_Role = ''run''"
| "role_name Step_Role = ''step''"
| "role_name Attempt_Role = ''attempt''"

definition role :: "span \<Rightarrow> exn + span_role option" where
  "role s =
     (case (case map_of s ''name'' of None \<Rightarrow> JStr [] | Some j \<Rightarrow> j) of
        JStr name \<Rightarrow>
          if name = ''attempt'' \<or> attr s ''cord.step.attempt'' \<noteq> None then Inr (Some Attempt_Role)
          else if starts_with ''step:'' name \<or> attr s ''cord.node.name'' \<noteq> None then Inr (Some Step_Role)
          else if name = ''run'' \<or> attr s ''cord.semconv.version'' \<noteq> None then Inr (Some Run_Role)
          else require_that (attr s ''cord.outcome'' = None) ''unclassified Cordboard outcome span'' (Inr None)
      | _ \<Rightarrow> archive_error ''invalid span name'')"

section \<open>Parents and roots\<close>

text \<open>\<^verbatim>\<open>spans.get(span.get('parentSpanId'))\<close>\<close>

definition parent_entry :: "span_index \<Rightarrow> span \<Rightarrow> exn + span option" where
  "parent_entry spans s =
     (case map_of s ''parentSpanId'' of
        Some (JStr p) \<Rightarrow> Inr (map_option fst (map_of spans p))
      | Some (JArr _) \<Rightarrow> Inl (Exn PyTypeError ''unhashable type'')
      | Some (JObj _) \<Rightarrow> Inl (Exn PyTypeError ''unhashable type'')
      | _ \<Rightarrow> Inr None)"

definition same_attr :: "span \<Rightarrow> span \<Rightarrow> string \<Rightarrow> bool" where
  "same_attr s t k = (case (attr s k, attr t k) of
     (None, None) \<Rightarrow> True | (Some a, Some b) \<Rightarrow> py_eq a b | (Some a, None) \<Rightarrow> a = JNull | (None, Some b) \<Rightarrow> b = JNull)"

definition parent_span :: "span_index \<Rightarrow> span \<Rightarrow> span_role \<Rightarrow> exn + span" where
  "parent_span spans s expected =
     follow (parent_entry spans s) (\<lambda>entry.
       case entry of
         None \<Rightarrow> archive_error (role_name expected @ '' parent is missing; supply complete Run trees'')
       | Some p \<Rightarrow>
           follow (role p) (\<lambda>r.
           require_that (r = Some expected \<and> map_of p ''traceId'' = map_of s ''traceId'')
             (''invalid '' @ role_name expected @ '' parent hierarchy'') (
           require_that (list_all (same_attr s p) IDENTITY) ''parent identity mismatch'' (Inr p))))"

definition span_id_of :: "span \<Rightarrow> string" where
  "span_id_of s = (case map_of s ''spanId'' of Some (JStr i) \<Rightarrow> i | _ \<Rightarrow> [])"

text \<open>
  \<^verbatim>\<open>run_root\<close>: up the parent chain to the Run, with the set of ids seen on the way. A chain visits every
  span of the archive at most once, so the walk ends.
\<close>

definition ids_ahead :: "span_index \<Rightarrow> string list \<Rightarrow> span \<Rightarrow> string set" where
  "ids_ahead spans seen current = ((span_id_of \<circ> fst \<circ> snd) ` set spans \<union> {span_id_of current}) - set seen"

lemma parent_entry_mem: "parent_entry spans s = Inr (Some p) \<Longrightarrow> \<exists>i l. (i, (p, l)) \<in> set spans"
  by (auto simp: parent_entry_def split: option.splits json.splits dest: map_of_SomeD)

function root_walk :: "span_index \<Rightarrow> string list \<Rightarrow> span \<Rightarrow> exn + span" where
  "root_walk spans seen current =
     (case role current of
        Inl x \<Rightarrow> Inl x
      | Inr r \<Rightarrow>
          if r = Some Run_Role then Inr current
          else if span_id_of current \<in> set seen then archive_error ''cyclical span parentage''
          else
            (case parent_entry spans current of
               Inl x \<Rightarrow> Inl x
             | Inr None \<Rightarrow> archive_error ''run ancestor is missing; supply complete Run trees''
             | Inr (Some p) \<Rightarrow>
                 (case role p of
                    Inl x \<Rightarrow> Inl x
                  | Inr r' \<Rightarrow>
                      if r' = Some Run_Role \<or> r' = Some Step_Role
                      then root_walk spans (span_id_of current # seen) p
                      else archive_error ''invalid step parent hierarchy'')))"
  by pat_completeness auto

termination
proof (relation "measure (\<lambda>(spans, seen, current). card (ids_ahead spans seen current))", goal_cases)
  case (2 spans seen current r entry p r')
  then obtain i l where "(i, (p, l)) \<in> set spans" using parent_entry_mem by metis
  then have "span_id_of p \<in> (span_id_of \<circ> fst \<circ> snd) ` set spans" by force
  then have "ids_ahead spans (span_id_of current # seen) p \<subset> ids_ahead spans seen current"
    using 2(3) by (auto simp: ids_ahead_def)
  then show ?case by (simp add: psubset_card_mono ids_ahead_def)
qed simp

declare root_walk.simps [simp del]

definition run_root :: "span_index \<Rightarrow> span \<Rightarrow> exn + span" where
  "run_root spans s = root_walk spans [] s"

section \<open>The contract of one span\<close>

definition nonblank_attr :: "span \<Rightarrow> string \<Rightarrow> bool" where
  "nonblank_attr s k = (nonblank_str (attr s k) \<noteq> None)"

definition outcome_in :: "span \<Rightarrow> string list \<Rightarrow> bool" where
  "outcome_in s outs = (attr s ''cord.outcome'' \<in> (Some \<circ> JStr) ` set outs)"

definition check_run :: "span \<Rightarrow> exn + unit" where
  "check_run s =
     require_that (case map_of s ''parentSpanId'' of None \<Rightarrow> True | Some p \<Rightarrow> \<not> truthy p) ''Run must be a root span'' (
     require_that (attr s ''cord.semconv.version'' \<in> (Some \<circ> JStr) ` set SUPPORTED_RUN_VERSIONS)
       ''unsupported semantic convention version; re-emit with current instrumentation'' (Inr ()))"

definition check_step :: "span_index \<Rightarrow> span \<Rightarrow> exn + unit" where
  "check_step spans s =
     require_that (outcome_in s STEP_OUTCOMES) ''invalid Step outcome'' (
     follow (parent_entry spans s) (\<lambda>entry.
       case entry of
         None \<Rightarrow> archive_error ''step parent is missing; supply complete Run trees''
       | Some p \<Rightarrow>
           follow (role p) (\<lambda>r.
             case r of
               Some Run_Role \<Rightarrow> follow (parent_span spans s Run_Role) (\<lambda>_. Inr ())
             | Some Step_Role \<Rightarrow>
                 follow (parent_span spans s Step_Role) (\<lambda>q.
                 follow (run_root spans q) (\<lambda>root.
                 require_that (attr root ''cord.semconv.version'' = Some (JStr CURRENT_SEMCONV))
                   ''nested Step under Step requires current cord.semconv.version'' (Inr ())))
             | _ \<Rightarrow> archive_error ''invalid step parent hierarchy'')))"

definition positive_number :: "json option \<Rightarrow> bool" where
  "positive_number j = (case j of Some (JInt n) \<Rightarrow> 0 < n | _ \<Rightarrow> False)"

definition check_attempt :: "span_index \<Rightarrow> span \<Rightarrow> exn + unit" where
  "check_attempt spans s =
     require_that (positive_number (attr s ''cord.step.attempt'')) ''Attempt requires a positive attempt number'' (
     require_that (outcome_in s ATTEMPT_OUTCOMES) ''invalid Attempt outcome'' (
     follow (parent_span spans s Step_Role) (\<lambda>step.
     follow (run_root spans step) (\<lambda>root.
     require_that (\<not> (attr root ''cord.semconv.version'' = Some (JStr ''0.2.0'') \<or> attr s ''cord.tier'' \<noteq> None)
         \<or> nonblank_attr s ''cord.tier'') ''missing or invalid Attempt Tier'' (
     require_that (attr s ''cord.node.name'' = attr step ''cord.node.name'') ''parent Node identity mismatch''
       (Inr ()))))))"

definition span_end :: "span \<Rightarrow> int" where
  "span_end s = (case map_of s ''endTimeUnixNano'' of Some (JInt t) \<Rightarrow> t | _ \<Rightarrow> 0)"

definition text_attr :: "span \<Rightarrow> string \<Rightarrow> string" where
  "text_attr s k = (case attr s k of Some (JStr v) \<Rightarrow> v | _ \<Rightarrow> [])"

definition counts_as_escalated :: "int \<Rightarrow> span \<Rightarrow> bool" where
  "counts_as_escalated reference s =
     (attr s ''cord.outcome'' = Some (JStr ''escalated'') \<and>
      reference - WINDOW_NS < span_end s \<and> span_end s \<le> reference)"

text \<open>The body of the loop of \<^verbatim>\<open>query_spans\<close>: what the span adds to the counter.\<close>

definition check_span :: "span_index \<Rightarrow> int \<Rightarrow> span \<Rightarrow> exn + (string \<times> string) list" where
  "check_span spans reference s =
     follow (role s) (\<lambda>kind.
       case kind of
         None \<Rightarrow> Inr []
       | Some k \<Rightarrow>
           require_that (list_all (nonblank_attr s) IDENTITY)
             ''missing explicit Graph/Run/Subject identity; legacy archives require re-emission'' (
           if k = Run_Role then follow (check_run s) (\<lambda>_. Inr [])
           else
             require_that (nonblank_attr s ''cord.node.name'') ''missing Node identity'' (
             if k = Step_Role then follow (check_step spans s) (\<lambda>_. Inr [])
             else
               follow (check_attempt spans s) (\<lambda>_.
                 Inr (if counts_as_escalated reference s
                      then [(text_attr s ''cord.graph.id'', text_attr s ''cord.node.name'')] else [])))))"

section \<open>The query\<close>

definition at_location :: "string \<Rightarrow> exn + 'a \<Rightarrow> exn + 'a" where
  "at_location location r =
     (case r of
        Inl x \<Rightarrow> if exn_class x = ArchiveError then archive_error (location @ '': '' @ exn_msg x) else Inl x
      | Inr v \<Rightarrow> Inr v)"

definition escalations :: "span_index \<Rightarrow> int \<Rightarrow> exn + (string \<times> string) list" where
  "escalations spans reference =
     collect_all (\<lambda>(i, (s, location)). at_location location (check_span spans reference s)) spans"

record row =
  row_graph :: string
  row_node :: string
  row_count :: nat

definition ranked :: "(string \<times> string) list \<Rightarrow> (string \<times> string) list" where
  "ranked keys = sort_key (\<lambda>(g, n). (- int (count_list keys (g, n)), g, n)) (remdups keys)"

definition query_spans :: "span_index \<Rightarrow> int \<Rightarrow> int \<Rightarrow> exn + row list" where
  "query_spans spans reference limit =
     require_that (0 < limit) ''top must be a positive integer'' (
     follow (escalations spans reference) (\<lambda>keys.
       Inr (take (nat limit) (map (\<lambda>(g, n). \<lparr>row_graph = g, row_node = n, row_count = count_list keys (g, n)\<rparr>)
         (ranked keys)))))"

definition archive_query :: "archive_path list \<Rightarrow> int \<Rightarrow> int \<Rightarrow> exn + row list" where
  "archive_query paths reference limit =
     require_that (0 < limit) ''top must be a positive integer'' (
     follow (read_spans paths) (\<lambda>spans. query_spans spans reference limit))"

section \<open>The walk to the Run\<close>

definition parent_edge :: "span_index \<Rightarrow> span \<Rightarrow> span \<Rightarrow> bool" where
  "parent_edge spans s p \<longleftrightarrow> parent_entry spans s = Inr (Some p) \<and> (\<exists>r. role s = Inr r \<and> r \<noteq> Some Run_Role) \<and>
     (role p = Inr (Some Run_Role) \<or> role p = Inr (Some Step_Role))"

lemma parent_edge_det: "parent_edge spans s p \<Longrightarrow> parent_edge spans s q \<Longrightarrow> p = q"
  by (simp add: parent_edge_def)

lemma run_has_no_edge: "role r = Inr (Some Run_Role) \<Longrightarrow> \<not> parent_edge spans r p"
  by (simp add: parent_edge_def)

lemma root_walk_reaches:
  "root_walk spans seen s = Inr r \<Longrightarrow> role r = Inr (Some Run_Role) \<and> (parent_edge spans)\<^sup>*\<^sup>* s r"
proof (induction spans seen s rule: root_walk.induct)
  case (1 spans seen s)
  from 1(2) obtain k where k: "role s = Inr k" by (subst (asm) root_walk.simps) (auto split: sum.splits)
  show ?case
  proof (cases "k = Some Run_Role")
    case True
    then have "r = s" using 1(2) k by (subst (asm) root_walk.simps) simp
    then show ?thesis using k True by simp
  next
    case False
    then obtain p k' where p: "parent_entry spans s = Inr (Some p)" and k': "role p = Inr k'"
      "k' = Some Run_Role \<or> k' = Some Step_Role" and seen: "span_id_of s \<notin> set seen"
      and rest: "root_walk spans (span_id_of s # seen) p = Inr r"
      using 1(2) k by (subst (asm) root_walk.simps) (auto simp: archive_error_def split: if_splits sum.splits option.splits)
    have "role r = Inr (Some Run_Role) \<and> (parent_edge spans)\<^sup>*\<^sup>* p r"
      by (rule 1(1) [OF k False seen p refl k'(1) k'(2) rest])
    moreover have "parent_edge spans s p" using p k k' False by (auto simp: parent_edge_def)
    ultimately show ?thesis by (meson converse_rtranclp_into_rtranclp)
  qed
qed

lemma path_length_unique:
  assumes "role r = Inr (Some Run_Role)" "(parent_edge spans ^^ a) x r" "(parent_edge spans ^^ b) x r"
  shows "a = b"
  using assms(2,3)
proof (induction a arbitrary: x b)
  case 0
  show ?case
  proof (cases b)
    case (Suc c)
    then obtain y where "parent_edge spans x y" using relpowp_Suc_D2 0(2) by metis
    then show ?thesis using 0(1) run_has_no_edge [OF assms(1)] by auto
  qed simp
next
  case (Suc a)
  from relpowp_Suc_D2 [OF Suc.prems(1)] obtain y where y: "parent_edge spans x y" "(parent_edge spans ^^ a) y r" by blast
  then obtain c where b: "b = Suc c"
    using Suc.prems(2) run_has_no_edge [OF assms(1)] y(1) by (cases b) auto
  from relpowp_Suc_D2 [OF Suc.prems(2) [unfolded b]] obtain z where z: "parent_edge spans x z" "(parent_edge spans ^^ c) z r" by blast
  then show ?case using Suc.IH [OF y(2), of c] parent_edge_det [OF y(1) z(1)] b by simp
qed

lemma normal_span_id: "normal_span i s \<Longrightarrow> span_id_of s = i"
  by (simp add: normal_span_def span_id_of_def)

lemma index_same_id:
  assumes "index_ok spans" "(i, (s, l)) \<in> set spans" "(j, (t, m)) \<in> set spans" "span_id_of s = span_id_of t"
  shows "s = t"
proof -
  have "normal_span i s" "normal_span j t" using assms(1-3) unfolding index_ok_def by blast+
  then have "i = j" using assms(4) by (simp add: normal_span_id)
  then show ?thesis using assms(1-3) by (auto simp: index_ok_def dict_ok_def dest: eq_key_imp_eq_value)
qed

definition indexed :: "span_index \<Rightarrow> span \<Rightarrow> bool" where
  "indexed spans s \<longleftrightarrow> (\<exists>i l. (i, (s, l)) \<in> set spans)"

lemma path_indexed: "(parent_edge spans ^^ m) s t \<Longrightarrow> indexed spans s \<Longrightarrow> indexed spans t"
  by (induction m arbitrary: t) (auto simp: indexed_def parent_edge_def dest!: parent_entry_mem)

lemma root_walk_complete:
  assumes ok: "index_ok spans" and run: "role r = Inr (Some Run_Role)"
  shows "(parent_edge spans ^^ n) s r \<Longrightarrow> indexed spans s \<Longrightarrow>
    (\<And>m t. (parent_edge spans ^^ m) s t \<Longrightarrow> role t \<noteq> Inr (Some Run_Role) \<Longrightarrow> span_id_of t \<notin> set seen) \<Longrightarrow>
    root_walk spans seen s = Inr r"
proof (induction n arbitrary: s seen)
  case 0
  then show ?case using run by (subst root_walk.simps) simp
next
  case (Suc n)
  from relpowp_Suc_D2 [OF Suc.prems(1)] obtain p where p: "parent_edge spans s p" "(parent_edge spans ^^ n) p r" by blast
  then obtain k where e: "parent_entry spans s = Inr (Some p)" "role s = Inr k" "k \<noteq> Some Run_Role"
    "role p = Inr (Some Run_Role) \<or> role p = Inr (Some Step_Role)" by (auto simp: parent_edge_def)
  have new: "span_id_of s \<notin> set seen" using Suc.prems(3) [of 0 s] e by simp
  have "root_walk spans (span_id_of s # seen) p = Inr r"
  proof (rule Suc.IH [OF p(2)])
    show "indexed spans p" using p(1) parent_entry_mem unfolding indexed_def parent_edge_def by blast
  next
    fix m t assume t: "(parent_edge spans ^^ m) p t" "role t \<noteq> Inr (Some Run_Role)"
    then have st: "(parent_edge spans ^^ Suc m) s t" using p(1) by (meson relpowp_Suc_I2)
    have "span_id_of t \<noteq> span_id_of s"
    proof
      assume same: "span_id_of t = span_id_of s"
      have "indexed spans t" by (rule path_indexed [OF st Suc.prems(2)])
      then have "t = s" using index_same_id [OF ok _ _ same] Suc.prems(2) by (auto simp: indexed_def)
      then have "(parent_edge spans ^^ (Suc m + Suc n)) s r"
        using st Suc.prems(1) by (simp only: relpowp_add) blast
      then show False using path_length_unique [OF run _ Suc.prems(1)] by fastforce
    qed
    then show "span_id_of t \<notin> set (span_id_of s # seen)" using Suc.prems(3) [OF st t(2)] by simp
  qed
  then show ?case using e new by (subst root_walk.simps) auto
qed

section \<open>Lookups only\<close>

text \<open>The checks look spans up by id, so they do not depend on the order the archive was read in.\<close>

lemma root_walk_lookup:
  assumes "map_of spans = map_of spans'"
  shows "root_walk spans seen s = root_walk spans' seen s"
proof (induction spans seen s rule: root_walk.induct [of "\<lambda>sp seen s. sp = spans \<longrightarrow> root_walk sp seen s = root_walk spans' seen s", rule_format])
  case (1 sp seen s)
  have e: "parent_entry spans' t = parent_entry spans t" for t
    using assms by (simp add: parent_entry_def split: option.split json.split)
  show ?case using 1 by (subst (1 2) root_walk.simps) (auto simp: e split: sum.split option.split)
qed simp

lemma check_span_lookup:
  assumes "map_of spans = map_of spans'"
  shows "check_span spans reference s = check_span spans' reference s"
proof -
  have e: "parent_entry spans' = parent_entry spans"
    using assms by (simp add: parent_entry_def fun_eq_iff split: option.split json.split)
  then have p: "parent_span spans' = parent_span spans" by (simp add: parent_span_def fun_eq_iff)
  have r: "run_root spans' = run_root spans" using root_walk_lookup [OF assms] by (simp add: run_root_def fun_eq_iff)
  have c1: "check_step spans' = check_step spans" by (rule ext, unfold check_step_def e p r, rule refl)
  have c2: "check_attempt spans' = check_attempt spans" by (rule ext, unfold check_attempt_def e p r, rule refl)
  show ?thesis by (unfold check_span_def c1 c2, rule refl)
qed

lemma at_location_Inr [simp]: "at_location l r = Inr v \<longleftrightarrow> r = Inr v"
  by (cases r) (auto simp: at_location_def archive_error_def)

definition span_keys :: "span_index \<Rightarrow> int \<Rightarrow> span \<Rightarrow> (string \<times> string) list" where
  "span_keys spans reference s = (case check_span spans reference s of Inr ks \<Rightarrow> ks | Inl _ \<Rightarrow> [])"

lemma escalations_Inr:
  "escalations spans reference = Inr keys \<longleftrightarrow>
     (\<forall>(i, (s, l)) \<in> set spans. \<exists>ks. check_span spans reference s = Inr ks) \<and>
     keys = concat (map (\<lambda>(i, (s, l)). span_keys spans reference s) spans)"
proof -
  have "(case at_location l (check_span spans reference s) of Inr ks \<Rightarrow> ks | Inl _ \<Rightarrow> []) = span_keys spans reference s" for l s
    by (cases "check_span spans reference s") (auto simp: span_keys_def at_location_def archive_error_def)
  then have keys: "map (\<lambda>x. case (case x of (i, s, l) \<Rightarrow> at_location l (check_span spans reference s)) of Inr zs \<Rightarrow> zs | Inl _ \<Rightarrow> []) spans =
      map (\<lambda>(i, s, l). span_keys spans reference s) spans" by auto
  show ?thesis unfolding escalations_def collect_all_Inr keys by auto
qed

section \<open>What a successful query says\<close>

definition escalated_attempt :: "int \<Rightarrow> span \<Rightarrow> bool" where
  "escalated_attempt reference s \<longleftrightarrow> role s = Inr (Some Attempt_Role) \<and> counts_as_escalated reference s"

definition key_of :: "span \<Rightarrow> string \<times> string" where
  "key_of s = (text_attr s ''cord.graph.id'', text_attr s ''cord.node.name'')"

lemma check_span_keys:
  assumes "check_span spans reference s = Inr ks"
  shows "ks = (if escalated_attempt reference s then [key_of s] else [])"
proof -
  obtain k where k: "role s = Inr k" using assms by (auto simp: check_span_def follow_Inr)
  show ?thesis
  proof (cases k)
    case None
    then show ?thesis using assms k by (simp add: check_span_def escalated_attempt_def)
  next
    case (Some r)
    then show ?thesis using assms k
      by (cases r) (auto simp: check_span_def archive_Inr escalated_attempt_def key_of_def)
  qed
qed

lemma check_span_attempt:
  assumes "check_span spans reference s = Inr ks" "role s = Inr (Some Attempt_Role)"
  shows "\<exists>step root. parent_span spans s Step_Role = Inr step \<and> run_root spans step = Inr root \<and>
    list_all (nonblank_attr s) IDENTITY \<and> attr s ''cord.node.name'' = attr step ''cord.node.name''"
  using assms by (auto simp: check_span_def check_attempt_def archive_Inr)

lemma check_span_run:
  assumes "check_span spans reference s = Inr ks" "role s = Inr (Some Run_Role)"
  shows "attr s ''cord.semconv.version'' \<in> (Some \<circ> JStr) ` set SUPPORTED_RUN_VERSIONS"
  using assms by (simp add: check_span_def check_run_def archive_Inr)

definition escalated_count :: "span_index \<Rightarrow> int \<Rightarrow> string \<times> string \<Rightarrow> nat" where
  "escalated_count spans reference k =
     length (filter (\<lambda>(i, s, l). escalated_attempt reference s \<and> key_of s = k) spans)"

lemma escalations_count:
  assumes "escalations spans reference = Inr keys"
  shows "count_list keys k = escalated_count spans reference k"
proof -
  have keys: "keys = concat (map (\<lambda>(i, s, l). span_keys spans reference s) spans)"
    and ok: "\<forall>(i, (s, l)) \<in> set spans. \<exists>ks. check_span spans reference s = Inr ks"
    using assms by (simp_all add: escalations_Inr)
  have "map (\<lambda>(i, s, l). span_keys spans reference s) spans =
      map (\<lambda>(i, s, l). if escalated_attempt reference s then [key_of s] else []) spans"
    using ok check_span_keys by (fastforce simp: span_keys_def)
  moreover have "count_list (concat (map (\<lambda>(i, s, l). if escalated_attempt reference s then [key_of s] else []) xs)) k =
      length (filter (\<lambda>(i, s, l). escalated_attempt reference s \<and> key_of s = k) xs)" for xs :: span_index
    by (induction xs) (auto split: if_splits)
  ultimately show ?thesis by (simp only: keys escalated_count_def)
qed

lemma ranked_simps [simp]: "set (ranked keys) = set keys" "distinct (ranked keys)"
  by (simp_all add: ranked_def)

lemma ranked_sorted: "sorted_wrt (\<lambda>j k. count_list keys k \<le> count_list keys j) (ranked keys)"
proof -
  have "sorted (map (\<lambda>(g, n). (- int (count_list keys (g, n)), g, n)) (ranked keys))"
    unfolding ranked_def by (rule sorted_sort_key)
  then show ?thesis
    unfolding sorted_map by (rule sorted_wrt_mono_rel [rotated]) (auto simp: less_eq_prod_def less_le)
qed

lemma sort_key_unique:
  fixes f :: "'a \<Rightarrow> 'b::linorder"
  assumes "inj_on f (set xs)" "distinct xs" "distinct ys" "set xs = set ys"
  shows "sort_key f xs = sort_key f ys"
proof (rule map_inj_on)
  have "sorted (map f (sort_key f xs))" "sorted (map f (sort_key f ys))" by (rule sorted_sort_key)+
  moreover have "distinct (map f (sort_key f xs))" "distinct (map f (sort_key f ys))"
    using assms by (simp_all add: distinct_map)
  ultimately show "map f (sort_key f xs) = map f (sort_key f ys)"
    using assms(4) by (intro sorted_distinct_set_unique) simp_all
  show "inj_on f (set (sort_key f xs) \<union> set (sort_key f ys))" using assms by simp
qed

lemma ranked_cong:
  assumes "\<And>k. count_list keys k = count_list keys' k"
  shows "ranked keys = ranked keys'"
proof -
  have same: "set keys = set keys'" using assms by (metis count_list_0_iff equalityI subsetI)
  have key: "(\<lambda>(g, n). (- int (count_list keys (g, n)), g, n)) = (\<lambda>(g, n). (- int (count_list keys' (g, n)), g, n))"
    by (simp add: assms fun_eq_iff)
  show ?thesis unfolding ranked_def key by (rule sort_key_unique) (auto simp: inj_on_def same)
qed

lemma query_spans_Inr:
  "query_spans spans reference n = Inr rows \<longleftrightarrow> 0 < n \<and> (\<exists>keys. escalations spans reference = Inr keys \<and>
     rows = take (nat n) (map (\<lambda>k. \<lparr>row_graph = fst k, row_node = snd k, row_count = escalated_count spans reference k\<rparr>)
       (ranked keys)))"
  by (auto simp: query_spans_def archive_Inr escalations_count case_prod_unfold)

section \<open>An archive\<close>

definition demo_text :: "string \<Rightarrow> string \<Rightarrow> json" where
  "demo_text k v = JObj [(''key'', JStr k), (''value'', JObj [(''stringValue'', JStr v)])]"

definition demo_identity :: "json list" where
  "demo_identity = [demo_text ''cord.graph.id'' ''g'', demo_text ''cord.run.id'' ''r'', demo_text ''cord.subject.id'' ''s'',
     demo_text ''cord.subject.type'' ''t'']"

definition demo_span :: "string \<Rightarrow> json \<Rightarrow> string \<Rightarrow> json list \<Rightarrow> json" where
  "demo_span i parent name attrs = JObj [(''spanId'', JStr i), (''traceId'', JStr ''000000000000000000000000000000AB''),
     (''parentSpanId'', parent), (''name'', JStr name), (''attributes'', JArr (demo_identity @ attrs)),
     (''startTimeUnixNano'', JStr ''5''), (''endTimeUnixNano'', JInt 9)]"

definition demo_archive :: archive_path where
  "demo_archive = File_Path \<lparr>af_lines = [Some (JObj [(''resourceSpans'', JArr [JObj [(''scopeSpans'', JArr [JObj [(''spans'', JArr
     [demo_span ''0000000000000003'' (JStr ''0000000000000002'') ''attempt''
        [demo_text ''cord.node.name'' ''n'', JObj [(''key'', JStr ''cord.step.attempt''), (''value'', JObj [(''intValue'', JStr ''1'')])],
         demo_text ''cord.outcome'' ''escalated''],
      demo_span ''0000000000000002'' (JStr ''0000000000000001'') ''step:n''
        [demo_text ''cord.node.name'' ''n'', demo_text ''cord.outcome'' ''failed''],
      demo_span ''0000000000000001'' (JStr []) ''run'' [demo_text ''cord.semconv.version'' ''0.4.0'']])]])]])])], af_fails = False\<rparr>"

definition demo_normal :: "string \<Rightarrow> json \<Rightarrow> string \<Rightarrow> json dict \<Rightarrow> string \<times> (span \<times> string)" where
  "demo_normal i parent name attrs = (i, ([(''spanId'', JStr i), (''traceId'', JStr ''000000000000000000000000000000ab''),
     (''parentSpanId'', parent), (''name'', JStr name), (''attributes'', JObj ([(''cord.graph.id'', JStr ''g''),
        (''cord.run.id'', JStr ''r''), (''cord.subject.id'', JStr ''s''), (''cord.subject.type'', JStr ''t'')] @ attrs)),
     (''startTimeUnixNano'', JInt 5), (''endTimeUnixNano'', JInt 9)], ''file 1, line 1''))"

definition demo_spans :: span_index where
  "demo_spans =
    [demo_normal ''0000000000000003'' (JStr ''0000000000000002'') ''attempt''
       [(''cord.node.name'', JStr ''n''), (''cord.step.attempt'', JInt 1), (''cord.outcome'', JStr ''escalated'')],
     demo_normal ''0000000000000002'' (JStr ''0000000000000001'') ''step:n''
       [(''cord.node.name'', JStr ''n''), (''cord.outcome'', JStr ''failed'')],
     demo_normal ''0000000000000001'' (JStr []) ''run'' [(''cord.semconv.version'', JStr ''0.4.0'')]]"

lemma demo_read: "read_spans [demo_archive] = Inr demo_spans"
  by code_simp

lemma demo_escalations: "escalations demo_spans 20 = Inr [(''g'', ''n'')]"
  by code_simp

lemma demo_query: "query_spans demo_spans 20 10 = Inr [\<lparr>row_graph = ''g'', row_node = ''n'', row_count = 1\<rparr>]"
  by (simp add: query_spans_def require_that_def demo_escalations ranked_def)

section \<open>Properties\<close>

text \<open>
  The walk to a Run finds exactly the Run above a span: on a read archive, \<open>run_root\<close> returns a span
  if and only if that span is a Run and is reached from the start through parent links that pass only
  Steps; a chain that loops, breaks or passes anything else is refused.
\<close>

theorem run_root_is_the_run_above:
  assumes "read_spans paths = Inr spans" "(i, (s, l)) \<in> set spans"
  shows "run_root spans s = Inr r \<longleftrightarrow> role r = Inr (Some Run_Role) \<and> (parent_edge spans)\<^sup>*\<^sup>* s r"
proof
  assume "run_root spans s = Inr r"
  then show "role r = Inr (Some Run_Role) \<and> (parent_edge spans)\<^sup>*\<^sup>* s r"
    unfolding run_root_def by (rule root_walk_reaches)
next
  assume r: "role r = Inr (Some Run_Role) \<and> (parent_edge spans)\<^sup>*\<^sup>* s r"
  then obtain n where "(parent_edge spans ^^ n) s r" using rtranclp_imp_relpowp by fast
  then show "run_root spans s = Inr r"
    unfolding run_root_def
    by (intro root_walk_complete [OF read_spans_ok [OF assms(1)]]) (use r assms(2) in \<open>auto simp: indexed_def\<close>)
qed

theorem run_root_is_the_run_above_witness:
  "(parent_edge demo_spans)\<^sup>*\<^sup>* (fst (snd (demo_spans ! 1))) (fst (snd (demo_spans ! 2)))"
proof -
  have mem: "(''0000000000000002'', (fst (snd (demo_spans ! 1)), ''file 1, line 1'')) \<in> set demo_spans"
    by (simp add: demo_spans_def demo_normal_def)
  have "run_root demo_spans (fst (snd (demo_spans ! 1))) = Inr (fst (snd (demo_spans ! 2)))" by code_simp
  then show ?thesis using run_root_is_the_run_above [OF demo_read mem] by blast
qed

text \<open>
  C7. An archive the query accepts holds complete Run trees: every Attempt names its Graph, Run and
  Subject, its parent is a Step of the same trace, identity and Node, and above that Step is a Run of the
  archive with a supported version.
\<close>

theorem accepted_attempts_have_runs:
  assumes "query_spans spans reference n = Inr rows" "(i, (s, l)) \<in> set spans" "role s = Inr (Some Attempt_Role)"
  shows "\<exists>step root. parent_entry spans s = Inr (Some step) \<and> role step = Inr (Some Step_Role) \<and>
    map_of step ''traceId'' = map_of s ''traceId'' \<and> list_all (nonblank_attr s) IDENTITY \<and>
    list_all (same_attr s step) IDENTITY \<and> attr s ''cord.node.name'' = attr step ''cord.node.name'' \<and>
    (parent_edge spans)\<^sup>*\<^sup>* step root \<and> role root = Inr (Some Run_Role) \<and>
    attr root ''cord.semconv.version'' \<in> (Some \<circ> JStr) ` set SUPPORTED_RUN_VERSIONS"
proof -
  have ok: "\<exists>ks. check_span spans reference t = Inr ks" if "indexed spans t" for t
    using assms(1) that by (fastforce simp: query_spans_Inr escalations_Inr indexed_def)
  have "indexed spans s" using assms(2) by (auto simp: indexed_def)
  then obtain step root where step: "parent_span spans s Step_Role = Inr step" and root: "run_root spans step = Inr root"
    and ids: "list_all (nonblank_attr s) IDENTITY" "attr s ''cord.node.name'' = attr step ''cord.node.name''"
    using ok check_span_attempt [OF _ assms(3)] by blast
  then have p: "parent_entry spans s = Inr (Some step)" "role step = Inr (Some Step_Role)"
    "map_of step ''traceId'' = map_of s ''traceId''" "list_all (same_attr s step) IDENTITY"
    by (auto simp: parent_span_def archive_Inr archive_error_def split: option.splits)
  have up: "role root = Inr (Some Run_Role) \<and> (parent_edge spans)\<^sup>*\<^sup>* step root"
    using root unfolding run_root_def by (rule root_walk_reaches)
  then obtain m where m: "(parent_edge spans ^^ m) step root" using rtranclp_imp_relpowp by fast
  have "indexed spans step" using p(1) by (auto simp: indexed_def dest: parent_entry_mem)
  then have "indexed spans root" by (rule path_indexed [OF m])
  then show ?thesis using ok check_span_run up p ids by blast
qed

theorem accepted_attempts_have_runs_witness:
  "\<exists>step. parent_entry demo_spans (fst (snd (demo_spans ! 0))) = Inr (Some step) \<and> role step = Inr (Some Step_Role)"
proof -
  have mem: "(''0000000000000003'', (fst (snd (demo_spans ! 0)), ''file 1, line 1'')) \<in> set demo_spans"
    by (simp add: demo_spans_def demo_normal_def)
  have "role (fst (snd (demo_spans ! 0))) = Inr (Some Attempt_Role)" by code_simp
  then show ?thesis using accepted_attempts_have_runs [OF demo_query mem] by blast
qed

text \<open>
  The rows are the true counts: each row counts the Attempts that carry the outcome escalated and ended
  inside the window before the reference time, for its Graph and Node; rows come in falling order; and a
  pair with such Attempts is missing only when the list is full of pairs that have at least as many.
\<close>

theorem rows_are_true_counts:
  assumes "query_spans spans reference n = Inr rows"
  shows "(\<forall>r \<in> set rows. row_count r = escalated_count spans reference (row_graph r, row_node r) \<and> 0 < row_count r) \<and>
    sorted_wrt (\<lambda>a b. row_count b \<le> row_count a) rows \<and> length rows \<le> nat n \<and>
    (\<forall>k. 0 < escalated_count spans reference k \<longrightarrow> k \<in> (\<lambda>r. (row_graph r, row_node r)) ` set rows \<or>
       length rows = nat n \<and> (\<forall>r \<in> set rows. escalated_count spans reference k \<le> row_count r))"
proof -
  define mk where "mk = (\<lambda>k :: string \<times> string. \<lparr>row_graph = fst k, row_node = snd k, row_count = escalated_count spans reference k\<rparr>)"
  obtain keys where keys: "escalations spans reference = Inr keys" and rows: "rows = map mk (take (nat n) (ranked keys))"
    using assms by (auto simp: query_spans_Inr mk_def take_map)
  have cnt: "count_list keys k = escalated_count spans reference k" for k by (rule escalations_count [OF keys])
  have pos: "k \<in> set keys \<longleftrightarrow> 0 < escalated_count spans reference k" for k
    using count_list_0_iff [of keys k] by (auto simp: cnt)
  let ?shown = "take (nat n) (ranked keys)" and ?rest = "drop (nat n) (ranked keys)"
  have sorted: "sorted_wrt (\<lambda>j k. escalated_count spans reference k \<le> escalated_count spans reference j) (?shown @ ?rest)"
    using ranked_sorted [of keys] by (simp add: cnt)
  have missing: "length rows = nat n \<and> (\<forall>r \<in> set rows. escalated_count spans reference k \<le> row_count r)"
    if "k \<in> set ?rest" for k
  proof -
    have "nat n < length (ranked keys)" using that by (metis drop_all emptyE list.set(1) not_less)
    moreover have "\<forall>j \<in> set ?shown. escalated_count spans reference k \<le> escalated_count spans reference j"
      using sorted that by (simp only: sorted_wrt_append) blast
    ultimately show ?thesis by (auto simp: rows mk_def)
  qed
  have "k \<in> (\<lambda>r. (row_graph r, row_node r)) ` set rows \<or> length rows = nat n \<and>
      (\<forall>r \<in> set rows. escalated_count spans reference k \<le> row_count r)" if "0 < escalated_count spans reference k" for k
  proof -
    have "k \<in> set ?shown \<union> set ?rest" using that pos set_append [of ?shown ?rest] by simp
    then show ?thesis using missing [of k] by (auto simp: rows mk_def image_image)
  qed
  moreover have "sorted_wrt (\<lambda>a b. row_count b \<le> row_count a) rows"
    using sorted by (simp add: rows sorted_wrt_map sorted_wrt_append mk_def)
  moreover have "\<forall>r \<in> set rows. row_count r = escalated_count spans reference (row_graph r, row_node r) \<and> 0 < row_count r"
    by (auto simp: rows mk_def pos [symmetric] dest: in_set_takeD)
  moreover have "length rows \<le> nat n" by (simp add: rows)
  ultimately show ?thesis by blast
qed

theorem rows_are_true_counts_witness: "escalated_count demo_spans 20 (''g'', ''n'') = 1"
  using rows_are_true_counts [OF demo_query] by simp

text \<open>
  The order in which exporters wrote the archive does not matter: two archives with the same spans in
  any order are accepted alike and give the same rows.
\<close>

theorem archive_order_is_irrelevant:
  assumes "dict_ok spans" "mset spans' = mset spans"
  shows "query_spans spans reference n = Inr rows \<longleftrightarrow> query_spans spans' reference n = Inr rows"
proof -
  have "mset (map fst spans') = mset (map fst spans)" using assms(2) by (simp add: mset_map)
  then have "dict_ok spans'" using assms(1) mset_eq_imp_distinct_iff unfolding dict_ok_def by blast
  moreover have set: "set spans' = set spans" using assms(2) by (rule mset_eq_setD)
  ultimately have lookup: "map_of spans' = map_of spans"
    using assms(1) by (simp add: dict_ok_def map_of_inject_set)
  have same_count: "escalated_count spans' reference k = escalated_count spans reference k" for k
  proof -
    have "mset (filter (\<lambda>(i, s, l). escalated_attempt reference s \<and> key_of s = k) spans') =
        mset (filter (\<lambda>(i, s, l). escalated_attempt reference s \<and> key_of s = k) spans)" using assms(2) by simp
    then show ?thesis unfolding escalated_count_def by (rule mset_eq_length)
  qed
  have accepted: "(\<exists>keys. escalations spans reference = Inr keys) \<longleftrightarrow> (\<exists>keys. escalations spans' reference = Inr keys)"
    unfolding escalations_Inr set check_span_lookup [OF lookup] by blast
  have rank: "ranked keys = ranked keys'"
    if "escalations spans reference = Inr keys" "escalations spans' reference = Inr keys'" for keys keys'
    by (rule ranked_cong) (simp add: escalations_count [OF that(1)] escalations_count [OF that(2)] same_count)
  show ?thesis
  proof (cases "escalations spans reference")
    case (Inl x)
    then show ?thesis using accepted by (cases "escalations spans' reference") (simp_all add: query_spans_Inr)
  next
    case (Inr keys)
    then obtain keys' where keys': "escalations spans' reference = Inr keys'" using accepted by blast
    show ?thesis unfolding query_spans_Inr same_count Inr keys' using rank [OF Inr keys'] by simp
  qed
qed

theorem archive_order_is_irrelevant_witness:
  "query_spans (rev demo_spans) 20 10 = Inr [\<lparr>row_graph = ''g'', row_node = ''n'', row_count = 1\<rparr>]"
proof -
  have "dict_ok demo_spans" by (simp add: dict_ok_def demo_spans_def demo_normal_def)
  then show ?thesis
    by (intro iffD1 [OF archive_order_is_irrelevant demo_query]) simp_all
qed

end
