(* ===== verification/Execution_Tree.thy ===== *)
theory Execution_Tree
  imports Archive_Escalations
begin

text \<open>
  \<^verbatim>\<open>viewer.build_execution_tree\<close>: the Runs of an archive with their Steps, nested to any depth, and
  their Attempts. The records the source shares by reference are a store keyed by span id: a Run and a
  Step hold the ids of the Steps attached to them, so every later change of a record is seen wherever it is
  attached. \<^verbatim>\<open>cord.resumed_from\<close> is a string, as the instrumentation writes it; any other type is a
  TypeError here.
\<close>

record attempt_rec =
  ar_number :: json
  ar_tier :: "json option"
  ar_outcome :: json
  ar_start :: int
  ar_end :: int

record step_rec =
  sr_span_id :: string
  sr_node :: json
  sr_outcome :: json
  sr_start :: int
  sr_end :: int
  sr_resumed_from :: "string option"
  sr_repeated :: bool
  sr_attempts :: "attempt_rec list"
  sr_children :: "string list"
  sr_wait :: "int option"
  sr_awaiting :: bool

record run_rec =
  rr_graph_id :: json
  rr_run_id :: json
  rr_subject_type :: json
  rr_subject_id :: json
  rr_start :: int
  rr_end :: int
  rr_steps :: "string list"
  rr_wait :: int
  rr_execution :: int
  rr_incomplete :: bool

record tree =
  tr_runs :: "run_rec dict"
  tr_steps :: "step_rec dict"

definition span_start :: "span \<Rightarrow> int" where
  "span_start s = (case map_of s ''startTimeUnixNano'' of Some (JInt t) \<Rightarrow> t | _ \<Rightarrow> 0)"

text \<open>\<^verbatim>\<open>attrs[key]\<close>\<close>

definition need_attr :: "span \<Rightarrow> string \<Rightarrow> exn + json" where
  "need_attr s k = field (JObj (attrs_of s)) k"

section \<open>Placing the spans\<close>

definition run_record :: "span \<Rightarrow> exn + run_rec" where
  "run_record s =
     follow (need_attr s ''cord.graph.id'') (\<lambda>g.
     follow (need_attr s ''cord.run.id'') (\<lambda>r.
     follow (need_attr s ''cord.subject.type'') (\<lambda>t.
     follow (need_attr s ''cord.subject.id'') (\<lambda>i.
       Inr \<lparr>rr_graph_id = g, rr_run_id = r, rr_subject_type = t, rr_subject_id = i, rr_start = span_start s,
             rr_end = span_end s, rr_steps = [], rr_wait = 0, rr_execution = 0, rr_incomplete = False\<rparr>))))"

definition ensure_tree_run :: "span \<Rightarrow> tree \<Rightarrow> exn + tree" where
  "ensure_tree_run s t =
     (if map_of (tr_runs t) (span_id_of s) \<noteq> None then Inr t
      else follow (run_record s) (\<lambda>r. Inr (t\<lparr>tr_runs := tr_runs t @ [(span_id_of s, r)]\<rparr>)))"

definition resumed_of :: "span \<Rightarrow> exn + string option" where
  "resumed_of s =
     (case attr s ''cord.resumed_from'' of
        None \<Rightarrow> Inr None
      | Some JNull \<Rightarrow> Inr None
      | Some (JStr r) \<Rightarrow> Inr (Some r)
      | _ \<Rightarrow> Inl (Exn PyTypeError ''string expected''))"

definition step_record :: "span \<Rightarrow> exn + step_rec" where
  "step_record s =
     follow (need_attr s ''cord.node.name'') (\<lambda>n.
     follow (need_attr s ''cord.outcome'') (\<lambda>out.
     follow (resumed_of s) (\<lambda>r.
       Inr \<lparr>sr_span_id = span_id_of s, sr_node = n, sr_outcome = out, sr_start = span_start s, sr_end = span_end s,
             sr_resumed_from = r, sr_repeated = False, sr_attempts = [], sr_children = [], sr_wait = None,
             sr_awaiting = False\<rparr>)))"

text \<open>\<^verbatim>\<open>spans[step_span["parentSpanId"]][0]\<close>\<close>

definition parent_of_step :: "span_index \<Rightarrow> span \<Rightarrow> exn + span" where
  "parent_of_step spans s =
     follow (field (JObj s) ''parentSpanId'') (\<lambda>p.
       case p of
         JStr i \<Rightarrow> (case map_of spans i of None \<Rightarrow> Inl (Exn PyKeyError (quoted i)) | Some (q, _) \<Rightarrow> Inr q)
       | JArr _ \<Rightarrow> Inl (Exn PyTypeError ''unhashable type'')
       | JObj _ \<Rightarrow> Inl (Exn PyTypeError ''unhashable type'')
       | _ \<Rightarrow> Inl (Exn PyKeyError ''None''))"

text \<open>\<^verbatim>\<open>runs[i]["steps"].append(...)\<close>, \<^verbatim>\<open>steps[i]["child_steps"].append(...)\<close>, \<^verbatim>\<open>steps[i]["attempts"].append(...)\<close>\<close>

definition change_key :: "string \<Rightarrow> ('v \<Rightarrow> 'v) \<Rightarrow> 'v dict \<Rightarrow> 'v dict" where
  "change_key i f = map (\<lambda>kv. if fst kv = i then (i, f (snd kv)) else kv)"

definition add_run_step :: "string \<Rightarrow> string \<Rightarrow> tree \<Rightarrow> tree" where
  "add_run_step i k t = t\<lparr>tr_runs := change_key i (\<lambda>r. r\<lparr>rr_steps := rr_steps r @ [k]\<rparr>) (tr_runs t)\<rparr>"

definition add_child :: "string \<Rightarrow> string \<Rightarrow> tree \<Rightarrow> tree" where
  "add_child i k t = t\<lparr>tr_steps := change_key i (\<lambda>s. s\<lparr>sr_children := sr_children s @ [k]\<rparr>) (tr_steps t)\<rparr>"

definition add_attempt :: "string \<Rightarrow> attempt_rec \<Rightarrow> tree \<Rightarrow> tree" where
  "add_attempt i a t = t\<lparr>tr_steps := change_key i (\<lambda>s. s\<lparr>sr_attempts := sr_attempts s @ [a]\<rparr>) (tr_steps t)\<rparr>"

text \<open>
  \<^verbatim>\<open>ensure_step\<close>: the record is stored before its parent is looked for, so the walk up visits every
  span at most once.
\<close>

lemma follow_fundef_cong [fundef_cong]:
  "m = m' \<Longrightarrow> (\<And>v. m' = Inr v \<Longrightarrow> f v = g v) \<Longrightarrow> follow m f = follow m' g"
  by (cases m') simp_all

definition steps_ahead :: "span_index \<Rightarrow> span \<Rightarrow> tree \<Rightarrow> string set" where
  "steps_ahead spans s t = ((span_id_of \<circ> fst \<circ> snd) ` set spans \<union> {span_id_of s}) - fst ` set (tr_steps t)"

lemma parent_of_step_Inr:
  "parent_of_step spans s = Inr p \<longleftrightarrow>
     (\<exists>i l. map_of s ''parentSpanId'' = Some (JStr i) \<and> map_of spans i = Some (p, l))"
proof (cases "map_of s ''parentSpanId''")
  case (Some j)
  then show ?thesis by (cases j) (auto simp: parent_of_step_def field_def split: option.splits)
qed (simp add: parent_of_step_def field_def)

lemma parent_of_step_mem: "parent_of_step spans s = Inr p \<Longrightarrow> \<exists>i l. (i, (p, l)) \<in> set spans"
  by (auto simp: parent_of_step_Inr dest: map_of_SomeD)

function ensure_step :: "span_index \<Rightarrow> span \<Rightarrow> tree \<Rightarrow> exn + tree" where
  "ensure_step spans s t =
     (if map_of (tr_steps t) (span_id_of s) \<noteq> None then Inr t
      else
        follow (step_record s) (\<lambda>rec.
        follow (parent_of_step spans s) (\<lambda>p.
        follow (role p) (\<lambda>r.
          if r = Some Run_Role
          then follow (ensure_tree_run p (t\<lparr>tr_steps := tr_steps t @ [(span_id_of s, rec)]\<rparr>)) (\<lambda>t'.
                 Inr (add_run_step (span_id_of p) (span_id_of s) t'))
          else follow (ensure_step spans p (t\<lparr>tr_steps := tr_steps t @ [(span_id_of s, rec)]\<rparr>)) (\<lambda>t'.
                 Inr (add_child (span_id_of p) (span_id_of s) t'))))))"
  by pat_completeness auto

termination
proof (relation "measure (\<lambda>(spans, s, t). card (steps_ahead spans s t))", goal_cases)
  case (2 spans s t rec p r)
  then obtain i l where "(i, (p, l)) \<in> set spans" using parent_of_step_mem by metis
  then have "span_id_of p \<in> (span_id_of \<circ> fst \<circ> snd) ` set spans" by force
  then have "steps_ahead spans p (t\<lparr>tr_steps := tr_steps t @ [(span_id_of s, rec)]\<rparr>) \<subset> steps_ahead spans s t"
    using 2(1) by (auto simp: steps_ahead_def map_of_eq_None_iff)
  then show ?case by (simp add: psubset_card_mono steps_ahead_def)
qed simp

declare ensure_step.simps [simp del]

definition attempt_record :: "span \<Rightarrow> exn + attempt_rec" where
  "attempt_record s =
     follow (need_attr s ''cord.step.attempt'') (\<lambda>n.
     follow (need_attr s ''cord.outcome'') (\<lambda>out.
       Inr \<lparr>ar_number = n, ar_tier = attr s ''cord.tier'', ar_outcome = out, ar_start = span_start s, ar_end = span_end s\<rparr>))"

definition place_span :: "span_index \<Rightarrow> span \<Rightarrow> tree \<Rightarrow> exn + tree" where
  "place_span spans s t =
     follow (role s) (\<lambda>kind.
       case kind of
         Some Run_Role \<Rightarrow> ensure_tree_run s t
       | Some Step_Role \<Rightarrow> ensure_step spans s t
       | Some Attempt_Role \<Rightarrow>
           follow (parent_span spans s Step_Role) (\<lambda>step.
           follow (ensure_step spans step t) (\<lambda>t'.
           follow (attempt_record s) (\<lambda>a. Inr (add_attempt (span_id_of step) a t'))))
       | None \<Rightarrow> Inr t)"

fun place_all :: "span_index \<Rightarrow> span_index \<Rightarrow> tree \<Rightarrow> exn + tree" where
  "place_all spans [] t = Inr t"
| "place_all spans ((i, (s, location)) # rest) t =
     follow (at_location location (place_span spans s t)) (place_all spans rest)"

section \<open>Finishing the records\<close>

text \<open>Every list by start time; Python's sort is stable.\<close>

definition start_of :: "step_rec dict \<Rightarrow> string \<Rightarrow> int" where
  "start_of steps k = (case map_of steps k of None \<Rightarrow> 0 | Some s \<Rightarrow> sr_start s)"

definition sort_step :: "step_rec dict \<Rightarrow> step_rec \<Rightarrow> step_rec" where
  "sort_step steps s = s\<lparr>sr_attempts := sort_key ar_start (sr_attempts s),
     sr_children := sort_key (start_of steps) (sr_children s)\<rparr>"

definition sort_tree :: "tree \<Rightarrow> tree" where
  "sort_tree t =
     \<lparr>tr_runs = map (\<lambda>(i, r). (i, r\<lparr>rr_steps := sort_key (start_of (tr_steps t)) (rr_steps r)\<rparr>)) (tr_runs t),
      tr_steps = map (\<lambda>(i, s). (i, sort_step (tr_steps t) s)) (tr_steps t)\<rparr>"

text \<open>The Steps that resume a given one, the earliest first.\<close>

definition resumed_group :: "step_rec dict \<Rightarrow> string \<Rightarrow> step_rec dict" where
  "resumed_group steps r = sort_key (sr_start \<circ> snd) (filter (\<lambda>(k, s). sr_resumed_from s = Some r) steps)"

definition repeated :: "step_rec dict \<Rightarrow> string \<Rightarrow> step_rec \<Rightarrow> bool" where
  "repeated steps k s =
     (case sr_resumed_from s of None \<Rightarrow> False | Some r \<Rightarrow> k \<in> fst ` set (tl (resumed_group steps r)))"

definition approval_wait :: "step_rec dict \<Rightarrow> step_rec \<Rightarrow> int option" where
  "approval_wait steps s =
     (case sr_resumed_from s of
        None \<Rightarrow> None
      | Some r \<Rightarrow> (case map_of steps r of None \<Rightarrow> None | Some original \<Rightarrow> Some (max 0 (sr_start s - sr_end original))))"

definition awaiting_resume :: "step_rec dict \<Rightarrow> step_rec \<Rightarrow> bool" where
  "awaiting_resume steps s \<longleftrightarrow>
     sr_outcome s = JStr ''awaiting_approval'' \<and> Some (sr_span_id s) \<notin> (sr_resumed_from \<circ> snd) ` set steps"

definition finish_step :: "step_rec dict \<Rightarrow> string \<times> step_rec \<Rightarrow> string \<times> step_rec" where
  "finish_step steps = (\<lambda>(k, s). (k, s\<lparr>sr_repeated := repeated steps k s, sr_wait := approval_wait steps s,
     sr_awaiting := awaiting_resume steps s\<rparr>))"

text \<open>
  \<^verbatim>\<open>_flatten\<close>: the Steps below some, depth first. The number of Steps bounds how deep they nest, since a
  Step is attached once.
\<close>

definition children_of :: "step_rec dict \<Rightarrow> string \<Rightarrow> string list" where
  "children_of steps k = (case map_of steps k of None \<Rightarrow> [] | Some s \<Rightarrow> sr_children s)"

primrec flatten :: "nat \<Rightarrow> step_rec dict \<Rightarrow> string list \<Rightarrow> string list" where
  "flatten 0 steps ks = []"
| "flatten (Suc n) steps ks = concat (map (\<lambda>k. k # flatten n steps (children_of steps k)) ks)"

definition steps_below :: "step_rec dict \<Rightarrow> run_rec \<Rightarrow> step_rec list" where
  "steps_below steps r = List.map_filter (map_of steps) (flatten (length steps) steps (rr_steps r))"

definition known_waits :: "step_rec list \<Rightarrow> int list" where
  "known_waits all = List.map_filter sr_wait all"

definition finish_run :: "step_rec dict \<Rightarrow> string \<times> run_rec \<Rightarrow> string \<times> run_rec" where
  "finish_run steps = (\<lambda>(i, r).
     let all = steps_below steps r;
         stop = Max (set (rr_end r # map sr_end all @ concat (map (\<lambda>s. map ar_end (sr_attempts s)) all)));
         waited = sum_list (known_waits all)
     in (i, r\<lparr>rr_end := stop, rr_wait := waited, rr_execution := max 0 (stop - rr_start r - waited),
          rr_incomplete := list_ex (\<lambda>s. sr_resumed_from s \<noteq> None \<and> sr_wait s = None \<or> sr_awaiting s) all\<rparr>))"

definition finish_tree :: "tree \<Rightarrow> tree" where
  "finish_tree t =
     (let t1 = sort_tree t; steps = map (finish_step (tr_steps t1)) (tr_steps t1) in
      \<lparr>tr_runs = sort_key (rr_start \<circ> snd) (map (finish_run steps) (tr_runs t1)), tr_steps = steps\<rparr>)"

definition empty_tree :: tree where
  "empty_tree = \<lparr>tr_runs = [], tr_steps = []\<rparr>"

definition build_execution_tree :: "span_index \<Rightarrow> exn + tree" where
  "build_execution_tree spans =
     follow (if spans \<noteq> [] then query_spans spans 0 1 else Inr []) (\<lambda>_.
     follow (place_all spans spans empty_tree) (\<lambda>t. Inr (finish_tree t)))"

lemma demo_tree:
  "map_sum id (\<lambda>t. (map (\<lambda>(i, r). (rr_steps r, rr_end r)) (tr_runs t), map (\<lambda>(i, s). (i, length (sr_attempts s))) (tr_steps t)))
     (build_execution_tree demo_spans) = Inr ([([''0000000000000002''], 9)], [(''0000000000000002'', 1)])"
  by code_simp

end
