(* ===== verification/Tree_Placing.thy ===== *)
theory Tree_Placing
  imports Execution_Tree
begin

text \<open>
  Placing the spans of an accepted archive: the stores of \<^theory_text>\<open>Execution_Tree\<close> keep, after every span, the records
  of exactly the Runs and Steps seen, every Step attached once, to the record of its parent, and every
  Attempt in its Step.
\<close>

section \<open>What placing keeps\<close>

text \<open>
  An accepted archive, the parent of a span id, and the invariant of the stores while spans are placed:
  the records are those of the archive's Runs and Steps, and apart from the Steps of \<open>X\<close>, whose parents are
  still being looked for, every Step is attached exactly once, to the record of its parent.
\<close>

definition accepted :: "span_index \<Rightarrow> bool" where
  "accepted spans \<longleftrightarrow> index_ok spans \<and> (\<forall>s. indexed spans s \<longrightarrow> (\<exists>ks. check_span spans 0 s = Inr ks))"

definition span_at :: "span_index \<Rightarrow> string \<Rightarrow> span \<Rightarrow> span_role \<Rightarrow> bool" where
  "span_at spans i s r \<longleftrightarrow> (\<exists>l. map_of spans i = Some (s, l)) \<and> role s = Inr (Some r)"

definition up :: "span_index \<Rightarrow> string \<Rightarrow> string option" where
  "up spans k = (case map_of spans k of None \<Rightarrow> None
     | Some (s, _) \<Rightarrow> (case map_of s ''parentSpanId'' of Some (JStr p) \<Rightarrow> Some p | _ \<Rightarrow> None))"

abbreviation run_ids :: "tree \<Rightarrow> string set" where "run_ids t \<equiv> fst ` set (tr_runs t)"
abbreviation step_ids :: "tree \<Rightarrow> string set" where "step_ids t \<equiv> fst ` set (tr_steps t)"

definition children_ok :: "span_index \<Rightarrow> string set \<Rightarrow> tree \<Rightarrow> string \<Rightarrow> string list \<Rightarrow> bool" where
  "children_ok spans X t i ks \<longleftrightarrow> distinct ks \<and> set ks = {k \<in> step_ids t - X. up spans k = Some i}"

definition run_of :: "span_index \<Rightarrow> string \<Rightarrow> run_rec \<Rightarrow> bool" where
  "run_of spans i r \<longleftrightarrow> (\<exists>s. span_at spans i s Run_Role \<and> rr_start r = span_start s \<and> rr_end r = span_end s \<and>
     attr s ''cord.run.id'' = Some (rr_run_id r) \<and> attr s ''cord.graph.id'' = Some (rr_graph_id r) \<and>
     attr s ''cord.subject.type'' = Some (rr_subject_type r) \<and> attr s ''cord.subject.id'' = Some (rr_subject_id r))"

definition step_of :: "span_index \<Rightarrow> string \<Rightarrow> step_rec \<Rightarrow> bool" where
  "step_of spans k c \<longleftrightarrow> (\<exists>s. span_at spans k s Step_Role \<and> sr_span_id c = k \<and> sr_start c = span_start s \<and>
     sr_end c = span_end s \<and> resumed_of s = Inr (sr_resumed_from c) \<and> attr s ''cord.outcome'' = Some (sr_outcome c) \<and>
     attr s ''cord.node.name'' = Some (sr_node c))"

definition placed :: "span_index \<Rightarrow> string set \<Rightarrow> tree \<Rightarrow> bool" where
  "placed spans X t \<longleftrightarrow> dict_ok (tr_runs t) \<and> dict_ok (tr_steps t) \<and> X \<subseteq> step_ids t \<and>
     (\<forall>i r. (i, r) \<in> set (tr_runs t) \<longrightarrow> run_of spans i r \<and> children_ok spans X t i (rr_steps r)) \<and>
     (\<forall>k s. (k, s) \<in> set (tr_steps t) \<longrightarrow> step_of spans k s \<and> children_ok spans X t k (sr_children s)) \<and>
     (\<forall>k \<in> step_ids t - X. \<exists>p \<in> run_ids t \<union> step_ids t. up spans k = Some p)"

lemma span_at_unique: "span_at spans i s r \<Longrightarrow> span_at spans i s' r' \<Longrightarrow> s = s' \<and> r = r'"
  by (auto simp: span_at_def)

lemma span_at_id: "index_ok spans \<Longrightarrow> span_at spans i s r \<Longrightarrow> span_id_of s = i"
proof -
  assume ok: "index_ok spans" and at: "span_at spans i s r"
  obtain l where "(i, (s, l)) \<in> set spans" using at by (auto simp: span_at_def dest: map_of_SomeD)
  then have "normal_span i s" using ok unfolding index_ok_def by blast
  then show "span_id_of s = i" by (rule normal_span_id)
qed

lemma span_at_indexed: "span_at spans i s r \<Longrightarrow> indexed spans s"
  by (auto simp: span_at_def indexed_def dest: map_of_SomeD)

lemma attr_need: "need_attr s k = Inr v \<longleftrightarrow> attr s k = Some v"
  by (auto simp: need_attr_def field_def attr_def split: option.split)

lemma run_record_Inr:
  "run_record s = Inr r \<Longrightarrow> rr_start r = span_start s \<and> rr_end r = span_end s \<and> rr_steps r = [] \<and>
     attr s ''cord.run.id'' = Some (rr_run_id r) \<and> attr s ''cord.graph.id'' = Some (rr_graph_id r) \<and>
     attr s ''cord.subject.type'' = Some (rr_subject_type r) \<and> attr s ''cord.subject.id'' = Some (rr_subject_id r)"
  by (auto simp: run_record_def follow_Inr attr_need)

lemma step_record_Inr:
  "step_record s = Inr c \<Longrightarrow> sr_span_id c = span_id_of s \<and> sr_start c = span_start s \<and> sr_end c = span_end s \<and>
     sr_children c = [] \<and> sr_attempts c = [] \<and> resumed_of s = Inr (sr_resumed_from c) \<and>
     attr s ''cord.outcome'' = Some (sr_outcome c) \<and> attr s ''cord.node.name'' = Some (sr_node c)"
  by (auto simp: step_record_def follow_Inr attr_need)

lemma change_key_simps [simp]:
  "fst ` set (change_key i f d) = fst ` set d" "dict_ok (change_key i f d) = dict_ok d" "length (change_key i f d) = length d"
proof -
  have "map fst (change_key i f d) = map fst d" by (auto simp: change_key_def)
  then show "fst ` set (change_key i f d) = fst ` set d" "dict_ok (change_key i f d) = dict_ok d"
    by (metis set_map, simp add: dict_ok_def)
qed (simp add: change_key_def)

lemma set_change_key:
  "(k, v) \<in> set (change_key i f d) \<longleftrightarrow> (if k = i then \<exists>w. (k, w) \<in> set d \<and> v = f w else (k, v) \<in> set d)"
  by (force simp: change_key_def)

lemma accepted_step:
  assumes "accepted spans" "span_at spans k s Step_Role"
  shows "\<exists>p i r. up spans k = Some i \<and> span_at spans i p r \<and> r \<noteq> Attempt_Role \<and> parent_of_step spans s = Inr p \<and>
    parent_edge spans s p"
proof -
  have role: "role s = Inr (Some Step_Role)" and at: "\<exists>l. map_of spans k = Some (s, l)" using assms(2) by (auto simp: span_at_def)
  obtain ks where "check_span spans 0 s = Inr ks"
    using assms span_at_indexed unfolding accepted_def by blast
  then have check: "check_step spans s = Inr ()" using role by (auto simp: check_span_def archive_Inr)
  obtain e where e: "parent_entry spans s = Inr e"
    using check by (auto simp: check_step_def archive_Inr)
  obtain p where p: "parent_entry spans s = Inr (Some p)"
    using check e by (cases e) (simp_all add: check_step_def archive_Inr archive_error_def)
  obtain q where q: "role p = Inr q"
    using check p by (cases "role p") (simp_all add: check_step_def archive_Inr)
  obtain r where r: "q = Some r" "r \<noteq> Attempt_Role"
    using check p q by (cases q; cases "the q") (simp_all add: check_step_def archive_Inr archive_error_def)
  obtain i l where i: "map_of s ''parentSpanId'' = Some (JStr i)" "map_of spans i = Some (p, l)"
  proof (cases "map_of s ''parentSpanId''")
    case (Some j)
    then show thesis using p that by (cases j) (auto simp: parent_entry_def)
  qed (use p in \<open>simp add: parent_entry_def\<close>)
  have "up spans k = Some i" using at i(1) by (auto simp: up_def)
  moreover have "parent_of_step spans s = Inr p" using i by (auto simp: parent_of_step_Inr)
  moreover have "parent_edge spans s p" using p q r role by (cases r) (auto simp: parent_edge_def)
  moreover have "span_at spans i p r" using q r(1) i(2) by (auto simp: span_at_def)
  ultimately show ?thesis using r(2) by blast
qed

lemma placed_runs: "placed spans X t \<Longrightarrow> i \<in> run_ids t \<Longrightarrow> \<exists>s. span_at spans i s Run_Role"
  by (force simp: placed_def run_of_def)

lemma placed_steps: "placed spans X t \<Longrightarrow> k \<in> step_ids t \<Longrightarrow> \<exists>s. span_at spans k s Step_Role"
  by (force simp: placed_def step_of_def)

lemma placed_disjoint: "placed spans X t \<Longrightarrow> run_ids t \<inter> step_ids t = {}"
proof (rule ccontr)
  assume p: "placed spans X t" and "run_ids t \<inter> step_ids t \<noteq> {}"
  then obtain i where i: "i \<in> run_ids t" "i \<in> step_ids t" by (meson disjoint_iff)
  from placed_runs [OF p i(1)] placed_steps [OF p i(2)] show False
    using span_at_unique by (metis span_role.distinct(1))
qed

text \<open>No placed Step waits below a record that is not there yet.\<close>

lemma placed_none_below:
  "placed spans X t \<Longrightarrow> i \<notin> run_ids t \<union> step_ids t \<Longrightarrow> {k \<in> step_ids t - X. up spans k = Some i} = {}"
  (is "_ \<Longrightarrow> _ \<Longrightarrow> ?thesis")
proof -
  assume p: "placed spans X t" and i: "i \<notin> run_ids t \<union> step_ids t"
  have closed: "\<forall>k \<in> step_ids t - X. \<exists>p \<in> run_ids t \<union> step_ids t. up spans k = Some p"
    using p unfolding placed_def by (elim conjE)
  show ?thesis
  proof (rule ccontr)
    assume "{k \<in> step_ids t - X. up spans k = Some i} \<noteq> {}"
    then obtain k where "k \<in> step_ids t - X" "up spans k = Some i" by blast
    then show False using closed i by (metis option.inject)
  qed
qed

lemma ensure_tree_run_placed:
  assumes "index_ok spans" "placed spans X t" "span_at spans i s Run_Role" "ensure_tree_run s t = Inr t'"
  shows "placed spans X t' \<and> i \<in> run_ids t' \<and> tr_steps t' = tr_steps t \<and> run_ids t \<subseteq> run_ids t'"
proof -
  have id: "span_id_of s = i" by (rule span_at_id [OF assms(1,3)])
  show ?thesis
  proof (cases "i \<in> run_ids t")
    case True
    then have "t' = t" using assms(4) id by (auto simp: ensure_tree_run_def map_of_eq_None_iff split: if_splits)
    then show ?thesis using True assms(2) by simp
  next
    case False
    then obtain r where r: "run_record s = Inr r" "t' = t\<lparr>tr_runs := tr_runs t @ [(i, r)]\<rparr>"
      using assms(4) id by (auto simp: ensure_tree_run_def map_of_eq_None_iff [THEN iffD2] follow_Inr)
    have "i \<notin> step_ids t" using placed_steps [OF assms(2)] assms(3) span_at_unique by blast
    then have none: "{k \<in> step_ids t - X. up spans k = Some i} = {}" using placed_none_below [OF assms(2)] False by blast
    have "run_of spans i r" using run_record_Inr [OF r(1)] assms(3) by (auto simp: run_of_def)
    then show ?thesis
      using assms(2) False none run_record_Inr [OF r(1)]
      by (auto simp: r(2) placed_def children_ok_def dict_ok_def)
  qed
qed

text \<open>A new Step waits for its parent; then it is attached there.\<close>

lemma new_step_placed:
  assumes "index_ok spans" "placed spans X t" "span_at spans k s Step_Role" "k \<notin> step_ids t" "step_record s = Inr c"
  shows "placed spans (insert k X) (t\<lparr>tr_steps := tr_steps t @ [(k, c)]\<rparr>)"
proof -
  let ?t = "t\<lparr>tr_steps := tr_steps t @ [(k, c)]\<rparr>"
  have "k \<notin> run_ids t"
    using placed_runs [OF assms(2)] assms(3) span_at_unique by (metis span_role.distinct(1))
  then have none: "{j \<in> step_ids t - X. up spans j = Some k} = {}"
    using placed_none_below [OF assms(2)] assms(4) by blast
  have same: "step_ids ?t - insert k X = step_ids t - X" using assms(4) by auto
  have "step_of spans k c" using step_record_Inr [OF assms(5)] assms(3) span_at_id [OF assms(1,3)] by (auto simp: step_of_def)
  moreover have "children_ok spans (insert k X) ?t k (sr_children c)"
    unfolding children_ok_def same using none step_record_Inr [OF assms(5)] by simp
  moreover have "children_ok spans (insert k X) ?t i ks \<longleftrightarrow> children_ok spans X t i ks" for i ks
    unfolding children_ok_def same by simp
  ultimately show ?thesis
    using assms(2,4) unfolding placed_def same by (auto simp: dict_ok_def)
qed

lemma attach_set:
  assumes "k \<in> step_ids t" "k \<notin> X" "up spans k = Some i"
  shows "{j \<in> step_ids t - X. up spans j = Some n} =
    (if n = i then insert k {j \<in> step_ids t - insert k X. up spans j = Some n} else {j \<in> step_ids t - insert k X. up spans j = Some n})"
  using assms by auto

lemma attach_children:
  assumes "k \<in> step_ids t" "k \<notin> X" "up spans k = Some i" "children_ok spans (insert k X) t n ks"
    "step_ids t' = step_ids t"
  shows "children_ok spans X t' n (if n = i then ks @ [k] else ks)"
  using assms(4) unfolding children_ok_def assms(5) attach_set [OF assms(1-3)] by auto

lemma attached_placed:
  assumes p: "placed spans (insert k X) t" and k: "k \<notin> X" "up spans k = Some i"
    and t': "i \<in> run_ids t \<and> t' = add_run_step i k t \<or> i \<in> step_ids t \<and> t' = add_child i k t"
  shows "placed spans X t' \<and> run_ids t' = run_ids t \<and> step_ids t' = step_ids t"
proof -
  have ids: "run_ids t' = run_ids t" "step_ids t' = step_ids t" "dict_ok (tr_runs t') = dict_ok (tr_runs t)"
    "dict_ok (tr_steps t') = dict_ok (tr_steps t)"
    using t' by (elim disjE conjE; simp add: add_run_step_def add_child_def)+
  have i: "i \<in> run_ids t \<union> step_ids t" using t' by blast
  have mem: "k \<in> step_ids t" and closed: "\<forall>j \<in> step_ids t - insert k X. \<exists>p \<in> run_ids t \<union> step_ids t. up spans j = Some p"
    using p unfolding placed_def by blast+
  note attach = attach_children [OF mem k _ ids(2)]
  have disjoint: "run_ids t \<inter> step_ids t = {}" by (rule placed_disjoint [OF p])
  have runs: "run_of spans j r \<and> children_ok spans X t' j (rr_steps r)" if "(j, r) \<in> set (tr_runs t')" for j r
  proof -
    have "\<exists>r'. (j, r') \<in> set (tr_runs t) \<and> run_of spans j r = run_of spans j r' \<and>
        rr_steps r = (if j = i then rr_steps r' @ [k] else rr_steps r')"
      using t'
    proof
      assume "i \<in> run_ids t \<and> t' = add_run_step i k t"
      then show ?thesis using that by (auto simp: add_run_step_def set_change_key run_of_def split: if_splits)
    next
      assume c: "i \<in> step_ids t \<and> t' = add_child i k t"
      then have "j \<noteq> i" using that disjoint by (force simp: add_child_def)
      then show ?thesis using that c by (auto simp: add_child_def)
    qed
    then show ?thesis using p attach [of j] unfolding placed_def by metis
  qed
  have steps: "step_of spans j c \<and> children_ok spans X t' j (sr_children c)" if "(j, c) \<in> set (tr_steps t')" for j c
  proof -
    have "\<exists>c'. (j, c') \<in> set (tr_steps t) \<and> step_of spans j c = step_of spans j c' \<and>
        sr_children c = (if j = i then sr_children c' @ [k] else sr_children c')"
      using t'
    proof
      assume "i \<in> step_ids t \<and> t' = add_child i k t"
      then show ?thesis using that by (auto simp: add_child_def set_change_key step_of_def split: if_splits)
    next
      assume c: "i \<in> run_ids t \<and> t' = add_run_step i k t"
      then have "j \<noteq> i" using that disjoint by (force simp: add_run_step_def)
      then show ?thesis using that c by (auto simp: add_run_step_def)
    qed
    then show ?thesis using p attach [of j] unfolding placed_def by metis
  qed
  have "X \<subseteq> step_ids t" "dict_ok (tr_runs t)" "dict_ok (tr_steps t)" using p by (auto simp: placed_def)
  moreover have "\<forall>j \<in> step_ids t - X. \<exists>p \<in> run_ids t \<union> step_ids t. up spans j = Some p"
    using closed i k by blast
  ultimately show ?thesis using runs steps unfolding placed_def ids by blast
qed

lemma ensure_step_placed:
  "ensure_step spans s t = Inr t' \<Longrightarrow> accepted spans \<Longrightarrow> placed spans X t \<Longrightarrow> span_at spans k s Step_Role \<Longrightarrow>
   placed spans X t' \<and> k \<in> step_ids t' \<and> run_ids t \<subseteq> run_ids t' \<and> step_ids t \<subseteq> step_ids t'"
proof (induction spans s t arbitrary: t' X k rule: ensure_step.induct)
  case (1 spans s t)
  have ok: "index_ok spans" using 1(3) by (simp add: accepted_def)
  have id: "span_id_of s = k" by (rule span_at_id [OF ok 1(5)])
  show ?case
  proof (cases "k \<in> step_ids t")
    case True
    then have "t' = t" using 1(2) id by (subst (asm) ensure_step.simps) (auto simp: map_of_eq_None_iff split: if_splits)
    then show ?thesis using True 1(4) by simp
  next
    case False
    then have none: "map_of (tr_steps t) (span_id_of s) = None" by (simp add: id map_of_eq_None_iff)
    obtain c where c: "step_record s = Inr c"
      using 1(2) none by (subst (asm) ensure_step.simps) (auto simp: follow_Inr)
    obtain p i r where p: "up spans k = Some i" "span_at spans i p r" "r \<noteq> Attempt_Role" "parent_of_step spans s = Inr p"
      using accepted_step [OF 1(3,5)] by blast
    have pid: "span_id_of p = i" by (rule span_at_id [OF ok p(2)])
    have role: "role p = Inr (Some r)" using p(2) by (simp add: span_at_def)
    let ?t1 = "t\<lparr>tr_steps := tr_steps t @ [(k, c)]\<rparr>"
    have t1: "placed spans (insert k X) ?t1" by (rule new_step_placed [OF ok 1(4,5) False c])
    have k: "k \<notin> X" using 1(4) False unfolding placed_def by blast
    show ?thesis
    proof (cases "r = Run_Role")
      case True
      then obtain t2 where t2: "ensure_tree_run p ?t1 = Inr t2" "t' = add_run_step i k t2"
        using 1(2) none c p(4) role pid id by (subst (asm) ensure_step.simps) (auto simp: follow_Inr)
      have "placed spans (insert k X) t2 \<and> i \<in> run_ids t2 \<and> tr_steps t2 = tr_steps ?t1 \<and> run_ids ?t1 \<subseteq> run_ids t2"
        using ensure_tree_run_placed [OF ok t1 _ t2(1)] p(2) True by blast
      then show ?thesis using attached_placed [of spans k X t2 i t'] k p(1) t2(2) by auto
    next
      case step: False
      then obtain t2 where t2: "ensure_step spans p ?t1 = Inr t2" "t' = add_child i k t2"
        using 1(2) none c p(4) role pid id by (subst (asm) ensure_step.simps) (auto simp: follow_Inr)
      have "span_at spans i p Step_Role" using p(2,3) step by (cases r) simp_all
      moreover have "ensure_step spans p (t\<lparr>tr_steps := tr_steps t @ [(span_id_of s, c)]\<rparr>) = Inr t2"
        using t2(1) by (simp add: id)
      ultimately have "placed spans (insert k X) t2 \<and> i \<in> step_ids t2 \<and> run_ids ?t1 \<subseteq> run_ids t2 \<and> step_ids ?t1 \<subseteq> step_ids t2"
        using 1(1) [OF _ c p(4) role _ _ 1(3), of t2 "insert k X" i] none step t1 by (simp add: id)
      then show ?thesis using attached_placed [of spans k X t2 i t'] k p(1) t2(2) by auto
    qed
  qed
qed

text \<open>The Attempts of a Step, in archive order.\<close>

definition attempts_at :: "span_index \<Rightarrow> span_index \<Rightarrow> string \<Rightarrow> attempt_rec list" where
  "attempts_at spans seen k = map (\<lambda>(i, s, l). projr (attempt_record s))
     (filter (\<lambda>(i, s, l). role s = Inr (Some Attempt_Role) \<and> up spans i = Some k) seen)"

definition attempts_ok :: "span_index \<Rightarrow> span_index \<Rightarrow> tree \<Rightarrow> bool" where
  "attempts_ok spans seen t \<longleftrightarrow> (\<forall>k c. (k, c) \<in> set (tr_steps t) \<longrightarrow> sr_attempts c = attempts_at spans seen k) \<and>
     (\<forall>i s l. (i, (s, l)) \<in> set seen \<and> role s = Inr (Some Attempt_Role) \<longrightarrow> (\<exists>k \<in> step_ids t. up spans i = Some k))"

lemma ensure_tree_run_steps: "ensure_tree_run s t = Inr t' \<Longrightarrow> tr_steps t' = tr_steps t"
  by (auto simp: ensure_tree_run_def follow_Inr split: if_splits)

lemma ensure_step_attempts:
  "ensure_step spans s t = Inr t' \<Longrightarrow> (k, c) \<in> set (tr_steps t') \<Longrightarrow>
   (\<exists>c0. (k, c0) \<in> set (tr_steps t) \<and> sr_attempts c = sr_attempts c0) \<or> k \<notin> step_ids t \<and> sr_attempts c = []"
proof (induction spans s t arbitrary: t' c rule: ensure_step.induct)
  case (1 spans s t)
  show ?case
  proof (cases "map_of (tr_steps t) (span_id_of s)")
    case (Some c')
    then have "t' = t" using 1(2) by (subst (asm) ensure_step.simps) simp
    then show ?thesis using 1(3) by blast
  next
    case None
    then obtain c1 p r where c: "step_record s = Inr c1" and p: "parent_of_step spans s = Inr p" and r: "role p = Inr r"
      using 1(2) by (subst (asm) ensure_step.simps) (auto simp: follow_Inr)
    let ?t1 = "t\<lparr>tr_steps := tr_steps t @ [(span_id_of s, c1)]\<rparr>"
    have new: "span_id_of s \<notin> step_ids t" using None by (simp add: map_of_eq_None_iff)
    have base: "(\<exists>c0. (k, c0) \<in> set (tr_steps t) \<and> sr_attempts c = sr_attempts c0) \<or> k \<notin> step_ids t \<and> sr_attempts c = []"
      if "(\<exists>c0. (k, c0) \<in> set (tr_steps ?t1) \<and> sr_attempts c = sr_attempts c0) \<or> k \<notin> step_ids ?t1 \<and> sr_attempts c = []" for c
      using that new step_record_Inr [OF c] by auto
    show ?thesis
    proof (cases "r = Some Run_Role")
      case True
      then obtain t2 where t2: "ensure_tree_run p ?t1 = Inr t2" "t' = add_run_step (span_id_of p) (span_id_of s) t2"
        using 1(2) None c p r by (subst (asm) ensure_step.simps) (auto simp: follow_Inr)
      then have "(k, c) \<in> set (tr_steps ?t1)" using 1(3) ensure_tree_run_steps [OF t2(1)] by (simp add: add_run_step_def)
      then show ?thesis by (intro base) blast
    next
      case False
      then obtain t2 where t2: "ensure_step spans p ?t1 = Inr t2" "t' = add_child (span_id_of p) (span_id_of s) t2"
        using 1(2) None c p r by (subst (asm) ensure_step.simps) (auto simp: follow_Inr)
      then obtain c2 where "(k, c2) \<in> set (tr_steps t2)" "sr_attempts c = sr_attempts c2"
        using 1(3) by (auto simp: add_child_def set_change_key split: if_splits)
      moreover from this 1(1) [OF _ c p r False t2(1)] None
      have "(\<exists>c0. (k, c0) \<in> set (tr_steps ?t1) \<and> sr_attempts c2 = sr_attempts c0) \<or> k \<notin> step_ids ?t1 \<and> sr_attempts c2 = []"
        by simp
      ultimately show ?thesis using base [of c] by simp
    qed
  qed
qed

lemma ensure_step_attempts_ok:
  assumes "ensure_step spans s t = Inr t'" "attempts_ok spans seen t" "step_ids t \<subseteq> step_ids t'"
  shows "attempts_ok spans seen t'"
proof -
  have old: "\<forall>k c. (k, c) \<in> set (tr_steps t) \<longrightarrow> sr_attempts c = attempts_at spans seen k"
    and homes: "\<forall>i s l. (i, (s, l)) \<in> set seen \<and> role s = Inr (Some Attempt_Role) \<longrightarrow> (\<exists>k \<in> step_ids t. up spans i = Some k)"
    using assms(2) unfolding attempts_ok_def by blast+
  have "sr_attempts c = attempts_at spans seen k" if "(k, c) \<in> set (tr_steps t')" for k c
    using ensure_step_attempts [OF assms(1) that]
  proof (elim disjE exE conjE)
    assume k: "k \<notin> step_ids t" and "sr_attempts c = []"
    have "\<not> (role s = Inr (Some Attempt_Role) \<and> up spans i = Some k)" if "(i, (s, l)) \<in> set seen" for i s l
      using homes that k by (metis option.inject)
    then have "filter (\<lambda>(i, s, l). role s = Inr (Some Attempt_Role) \<and> up spans i = Some k) seen = []"
      by (auto simp: filter_empty_conv)
    then show ?thesis using \<open>sr_attempts c = []\<close> by (simp add: attempts_at_def)
  qed (use old in simp)
  moreover have "\<exists>k \<in> step_ids t'. up spans i = Some k" if "(i, (s, l)) \<in> set seen \<and> role s = Inr (Some Attempt_Role)" for i s l
  proof -
    from homes that have "\<exists>k \<in> step_ids t. up spans i = Some k" by (elim allE impE)
    then show ?thesis using assms(3) by (elim bexE) (rule bexI, assumption, rule subsetD)
  qed
  ultimately show ?thesis unfolding attempts_ok_def by simp
qed

lemma attempt_home:
  assumes "index_ok spans" "map_of spans i = Some (s, l)" "parent_span spans s Step_Role = Inr p"
  shows "up spans i = Some (span_id_of p) \<and> span_at spans (span_id_of p) p Step_Role"
proof -
  obtain j where p: "parent_entry spans s = Inr (Some p)" "role p = Inr (Some Step_Role)"
    using assms(3) by (auto simp: parent_span_def archive_Inr archive_error_def split: option.splits)
  obtain j l' where j: "map_of s ''parentSpanId'' = Some (JStr j)" "map_of spans j = Some (p, l')"
  proof (cases "map_of s ''parentSpanId''")
    case (Some v)
    then show thesis using p that by (cases v) (auto simp: parent_entry_def)
  qed (use p in \<open>simp add: parent_entry_def\<close>)
  have at: "span_at spans j p Step_Role" using j p by (auto simp: span_at_def)
  then show ?thesis using span_at_id [OF assms(1) at] j assms(2) by (simp add: up_def)
qed

lemma add_attempt_placed: "placed spans X (add_attempt k a t) = placed spans X t"
proof -
  have ids: "step_ids (add_attempt k a t) = step_ids t" "tr_runs (add_attempt k a t) = tr_runs t"
    "dict_ok (tr_steps (add_attempt k a t)) = dict_ok (tr_steps t)"
    by (simp_all add: add_attempt_def)
  let ?f = "\<lambda>c. c\<lparr>sr_attempts := sr_attempts c @ [a]\<rparr>"
  let ?P = "\<lambda>j c. step_of spans j c \<and> children_ok spans X t j (sr_children c)"
  have same: "?P j (?f c) = ?P j c" for j c by (simp add: step_of_def)
  have mem: "(j, c) \<in> set (tr_steps (add_attempt k a t)) \<longleftrightarrow>
      (if j = k then \<exists>w. (k, w) \<in> set (tr_steps t) \<and> c = ?f w else (j, c) \<in> set (tr_steps t))" for j c
    by (simp add: add_attempt_def set_change_key)
  have all: "(\<forall>j c. (j, c) \<in> set (tr_steps (add_attempt k a t)) \<longrightarrow> ?P j c) \<longleftrightarrow>
      (\<forall>j c. (j, c) \<in> set (tr_steps t) \<longrightarrow> ?P j c)"
    (is "?L \<longleftrightarrow> ?R")
  proof
    assume L: ?L
    show ?R
    proof (intro allI impI)
      fix j c assume c: "(j, c) \<in> set (tr_steps t)"
      then have "(j, if j = k then ?f c else c) \<in> set (tr_steps (add_attempt k a t))" by (auto simp: mem)
      then have "?P j (if j = k then ?f c else c)" using L by blast
      then show "?P j c" using same by (cases "j = k") simp_all
    qed
  next
    assume R: ?R
    show ?L
    proof (intro allI impI)
      fix j c assume "(j, c) \<in> set (tr_steps (add_attempt k a t))"
      then obtain w where "(j, w) \<in> set (tr_steps t)" "c = w \<or> c = ?f w" by (auto simp: mem split: if_splits)
      then show "?P j c" using R same by metis
    qed
  qed
  show ?thesis unfolding placed_def ids children_ok_def all [unfolded children_ok_def] by (rule refl)
qed

lemma attempts_at_snoc:
  "attempts_at spans (seen @ [(i, (s, l))]) k = attempts_at spans seen k @
     (if role s = Inr (Some Attempt_Role) \<and> up spans i = Some k then [projr (attempt_record s)] else [])"
  by (simp add: attempts_at_def)

lemma attempts_ok_other:
  "role s \<noteq> Inr (Some Attempt_Role) \<Longrightarrow> attempts_ok spans (seen @ [(i, (s, l))]) t = attempts_ok spans seen t"
proof -
  assume r: "role s \<noteq> Inr (Some Attempt_Role)"
  have "(i', (s', l')) \<in> set (seen @ [(i, (s, l))]) \<and> role s' = Inr (Some Attempt_Role) \<longleftrightarrow>
      (i', (s', l')) \<in> set seen \<and> role s' = Inr (Some Attempt_Role)" for i' s' l'
    using r by auto
  then show ?thesis using r unfolding attempts_ok_def attempts_at_snoc by simp
qed

lemma attempts_okD:
  "attempts_ok spans seen t \<Longrightarrow> (i, (s, l)) \<in> set seen \<Longrightarrow> role s = Inr (Some Attempt_Role) \<Longrightarrow>
   \<exists>k \<in> step_ids t. up spans i = Some k"
  unfolding attempts_ok_def by (elim conjE) (erule allE, erule allE, erule allE, erule impE, rule conjI)

lemma attempts_ok_add:
  assumes "attempts_ok spans seen t" "role s = Inr (Some Attempt_Role)" "up spans i = Some k" "k \<in> step_ids t"
    "attempt_record s = Inr a"
  shows "attempts_ok spans (seen @ [(i, (s, l))]) (add_attempt k a t)"
proof -
  have "sr_attempts c = attempts_at spans (seen @ [(i, (s, l))]) j" if c: "(j, c) \<in> set (tr_steps (add_attempt k a t))" for j c
  proof -
    obtain c0 where "(j, c0) \<in> set (tr_steps t)" "sr_attempts c = sr_attempts c0 @ (if j = k then [a] else [])"
      using c by (auto simp: add_attempt_def set_change_key split: if_splits)
    then show ?thesis using assms(1,2,3,5) by (simp add: attempts_at_snoc attempts_ok_def)
  qed
  moreover have "\<exists>j \<in> step_ids (add_attempt k a t). up spans i' = Some j"
    if "(i', (s', l')) \<in> set (seen @ [(i, (s, l))]) \<and> role s' = Inr (Some Attempt_Role)" for i' s' l'
  proof (cases "(i', (s', l')) = (i, (s, l))")
    case True
    then show ?thesis using assms(3,4) by (auto simp: add_attempt_def)
  next
    case False
    then have "(i', (s', l')) \<in> set seen" "role s' = Inr (Some Attempt_Role)" using that by auto
    from attempts_okD [OF assms(1) this] show ?thesis by (simp add: add_attempt_def)
  qed
  ultimately show ?thesis unfolding attempts_ok_def by simp
qed

definition holds :: "span_index \<Rightarrow> span_index \<Rightarrow> tree \<Rightarrow> bool" where
  "holds spans seen t \<longleftrightarrow> placed spans {} t \<and> attempts_ok spans seen t \<and>
     (\<forall>i s l. (i, (s, l)) \<in> set seen \<longrightarrow> (role s = Inr (Some Run_Role) \<longrightarrow> i \<in> run_ids t) \<and>
        (role s = Inr (Some Step_Role) \<longrightarrow> i \<in> step_ids t))"

lemma holds_more:
  assumes "holds spans seen t" "placed spans {} t'" "attempts_ok spans (seen @ [(i, (s, l))]) t'"
    "run_ids t \<subseteq> run_ids t'" "step_ids t \<subseteq> step_ids t'"
    "role s = Inr (Some Run_Role) \<longrightarrow> i \<in> run_ids t'" "role s = Inr (Some Step_Role) \<longrightarrow> i \<in> step_ids t'"
  shows "holds spans (seen @ [(i, (s, l))]) t'"
proof -
  have "(role s' = Inr (Some Run_Role) \<longrightarrow> i' \<in> run_ids t') \<and> (role s' = Inr (Some Step_Role) \<longrightarrow> i' \<in> step_ids t')"
    if "(i', (s', l')) \<in> set (seen @ [(i, (s, l))])" for i' s' l'
  proof (cases "(i', (s', l')) = (i, (s, l))")
    case True
    then show ?thesis using assms(6,7) by simp
  next
    case False
    then have "(i', (s', l')) \<in> set seen" using that by auto
    moreover have "\<forall>i s l. (i, (s, l)) \<in> set seen \<longrightarrow> (role s = Inr (Some Run_Role) \<longrightarrow> i \<in> run_ids t) \<and>
        (role s = Inr (Some Step_Role) \<longrightarrow> i \<in> step_ids t)"
      using assms(1) unfolding holds_def by (elim conjE)
    ultimately show ?thesis using assms(4,5) by (meson subsetD)
  qed
  then show ?thesis unfolding holds_def using assms(2,3) by blast
qed

lemma place_span_holds:
  assumes "accepted spans" "map_of spans i = Some (s, l)" "holds spans seen t" "place_span spans s t = Inr t'"
  shows "holds spans (seen @ [(i, (s, l))]) t'"
proof -
  have ok: "index_ok spans" using assms(1) by (simp add: accepted_def)
  have t: "placed spans {} t" "attempts_ok spans seen t" using assms(3) by (simp_all add: holds_def)
  obtain q where q: "role s = Inr q" using assms(4) by (auto simp: place_span_def follow_Inr)
  show ?thesis
  proof (cases q)
    case None
    then have "t' = t" using assms(4) q by (simp add: place_span_def)
    then show ?thesis using holds_more [OF assms(3) t(1)] t(2) q None by (simp add: attempts_ok_other)
  next
    case (Some r)
    then have at: "span_at spans i s r" using q assms(2) by (simp add: span_at_def)
    show ?thesis
    proof (cases r)
      case Run_Role
      then have "ensure_tree_run s t = Inr t'" using assms(4) q Some by (simp add: place_span_def)
      note p = ensure_tree_run_placed [OF ok t(1) at [unfolded Run_Role] this]
      have "attempts_ok spans seen t'" using t(2) p unfolding attempts_ok_def by simp
      then show ?thesis using holds_more [OF assms(3)] p q Some Run_Role by (simp add: attempts_ok_other)
    next
      case Step_Role
      then have e: "ensure_step spans s t = Inr t'" using assms(4) q Some by (simp add: place_span_def)
      note p = ensure_step_placed [OF e assms(1) t(1) at [unfolded Step_Role]]
      have "attempts_ok spans seen t'" using ensure_step_attempts_ok [OF e t(2)] p by blast
      then show ?thesis using holds_more [OF assms(3)] p q Some Step_Role by (simp add: attempts_ok_other)
    next
      case Attempt_Role
      then obtain step t1 a where p: "parent_span spans s Step_Role = Inr step" "ensure_step spans step t = Inr t1"
        "attempt_record s = Inr a" "t' = add_attempt (span_id_of step) a t1"
        using assms(4) q Some by (auto simp: place_span_def follow_Inr)
      have home: "up spans i = Some (span_id_of step)" "span_at spans (span_id_of step) step Step_Role"
        using attempt_home [OF ok assms(2) p(1)] by simp_all
      note e = ensure_step_placed [OF p(2) assms(1) t(1) home(2)]
      have t1: "attempts_ok spans seen t1" using ensure_step_attempts_ok [OF p(2) t(2)] e by blast
      have at1: "role s = Inr (Some Attempt_Role)" using q Some Attempt_Role by simp
      have "attempts_ok spans (seen @ [(i, (s, l))]) t'"
        unfolding p(4) by (rule attempts_ok_add [OF t1 at1 home(1) _ p(3)]) (use e in blast)
      moreover have "placed spans {} t'" using e by (simp add: p(4) add_attempt_placed)
      moreover have "run_ids t' = run_ids t1" "step_ids t' = step_ids t1" by (simp_all add: p(4) add_attempt_def)
      ultimately show ?thesis using holds_more [OF assms(3)] e at1 by simp
    qed
  qed
qed

lemma place_all_holds:
  assumes "accepted spans"
  shows "place_all spans rest t = Inr t' \<Longrightarrow> holds spans seen t \<Longrightarrow> set rest \<subseteq> set spans \<Longrightarrow> holds spans (seen @ rest) t'"
proof (induction rest arbitrary: t seen)
  case (Cons x rest)
  obtain i s l where x: "x = (i, (s, l))" by (cases x) auto
  obtain t1 where t1: "place_span spans s t = Inr t1" "place_all spans rest t1 = Inr t'"
    using Cons.prems(1) by (auto simp: x follow_Inr)
  have "dict_ok spans" using assms by (simp add: accepted_def index_ok_def)
  then have "map_of spans i = Some (s, l)" using Cons.prems(3) x by (simp add: dict_ok_def)
  from place_span_holds [OF assms this Cons.prems(2) t1(1)]
  show ?case using Cons.IH [OF t1(2), of "seen @ [x]"] Cons.prems(3) x by simp
qed simp

lemma holds_empty: "holds spans [] empty_tree"
  by (simp add: holds_def placed_def attempts_ok_def empty_tree_def dict_ok_def)

lemma query_accepts:
  assumes "index_ok spans" "query_spans spans 0 n = Inr rows"
  shows "accepted spans"
  using assms by (fastforce simp: accepted_def query_spans_Inr escalations_Inr indexed_def)

text \<open>What the stores hold when every span of an accepted archive is placed.\<close>

lemma placed_tree:
  assumes "index_ok spans" "build_execution_tree spans = Inr t"
  shows "\<exists>t0. accepted spans \<and> placed spans {} t0 \<and> attempts_ok spans spans t0 \<and> t = finish_tree t0 \<and>
    run_ids t0 = {i. \<exists>s. span_at spans i s Run_Role} \<and> step_ids t0 = {i. \<exists>s. span_at spans i s Step_Role}"
proof -
  obtain t0 where t0: "place_all spans spans empty_tree = Inr t0" "t = finish_tree t0"
    using assms(2) by (auto simp: build_execution_tree_def follow_Inr)
  have ok: "accepted spans"
  proof (cases "spans = []")
    case True
    then show ?thesis using assms(1) by (simp add: accepted_def indexed_def)
  next
    case False
    then show ?thesis using assms query_accepts by (auto simp: build_execution_tree_def follow_Inr)
  qed
  have h: "holds spans spans t0" using place_all_holds [OF ok t0(1) holds_empty] by simp
  then have p: "placed spans {} t0" "attempts_ok spans spans t0" by (simp_all add: holds_def)
  have "i \<in> run_ids t0" if "span_at spans i s Run_Role" for i s
    using h that unfolding holds_def span_at_def by (meson map_of_SomeD)
  moreover have "i \<in> step_ids t0" if "span_at spans i s Step_Role" for i s
    using h that unfolding holds_def span_at_def by (meson map_of_SomeD)
  ultimately have "run_ids t0 = {i. \<exists>s. span_at spans i s Run_Role}" "step_ids t0 = {i. \<exists>s. span_at spans i s Step_Role}"
    using placed_runs [OF p(1)] placed_steps [OF p(1)] by blast+
  then show ?thesis using ok p t0(2) by blast
qed

end
