(* ===== verification/Tree_Facts.thy ===== *)
theory Tree_Facts
  imports Tree_Placing
begin

text \<open>
  What the viewer's tree says of an archive: flattening reaches each Step below its own Run once, one of
  several resumes counts as the original, and a Run's timeline ends with the latest thing recorded for it.
\<close>

section \<open>Flattening\<close>

text \<open>The Steps \<open>S\<close> with their parents: below a record that is no Step, each is reached on one path.\<close>

definition below :: "(string \<Rightarrow> string option) \<Rightarrow> string set \<Rightarrow> (string \<times> string) set" where
  "below parent S = {(x, y). x \<in> S \<and> y \<in> S \<and> parent x = Some y}"

definition nested :: "(string \<Rightarrow> string option) \<Rightarrow> step_rec dict \<Rightarrow> bool" where
  "nested parent steps \<longleftrightarrow> dict_ok steps \<and> (\<forall>k \<in> fst ` set steps. distinct (children_of steps k) \<and>
     set (children_of steps k) = {j \<in> fst ` set steps. parent j = Some k})"

lemma below_Suc: "(x, k) \<in> below parent S ^^ Suc m \<longleftrightarrow> (\<exists>j \<in> S. (x, j) \<in> below parent S ^^ m \<and> k \<in> S \<and> parent j = Some k)"
  by (auto simp: below_def)

lemma set_flatten:
  assumes "nested parent steps"
  shows "set ks \<subseteq> fst ` set steps \<Longrightarrow>
    set (flatten n steps ks) = {x. \<exists>m < n. \<exists>k \<in> set ks. (x, k) \<in> below parent (fst ` set steps) ^^ m}"
proof (induction n arbitrary: ks)
  case (Suc n)
  let ?R = "below parent (fst ` set steps)"
  have kids: "set (children_of steps k) = {j \<in> fst ` set steps. parent j = Some k}" if "k \<in> set ks" for k
    using assms Suc.prems that unfolding nested_def by blast
  have "set (flatten n steps (children_of steps k)) = {x. \<exists>m < n. \<exists>j \<in> set (children_of steps k). (x, j) \<in> ?R ^^ m}"
    if "k \<in> set ks" for k by (rule Suc.IH) (use kids [OF that] in blast)
  then have "set (flatten (Suc n) steps ks) =
      (\<Union>k \<in> set ks. insert k {x. \<exists>m < n. \<exists>j \<in> set (children_of steps k). (x, j) \<in> ?R ^^ m})"
    by simp
  also have "\<dots> = {x. \<exists>m < Suc n. \<exists>k \<in> set ks. (x, k) \<in> ?R ^^ m}"
  proof -
    have "insert k {x. \<exists>m < n. \<exists>j \<in> set (children_of steps k). (x, j) \<in> ?R ^^ m} = {x. \<exists>m < Suc n. (x, k) \<in> ?R ^^ m}"
      if k: "k \<in> set ks" for k
    proof -
      have "k \<in> fst ` set steps" using k Suc.prems by blast
      then have "(\<exists>m < n. (x, k) \<in> ?R ^^ Suc m) \<longleftrightarrow> (\<exists>m < n. \<exists>j \<in> set (children_of steps k). (x, j) \<in> ?R ^^ m)" for x
        unfolding below_Suc kids [OF k] by blast
      moreover have "(\<exists>m < Suc n. (x, k) \<in> ?R ^^ m) \<longleftrightarrow> x = k \<or> (\<exists>m < n. (x, k) \<in> ?R ^^ Suc m)" for x
        by (auto simp: less_Suc_eq_0_disj simp del: relpow.simps(2))
      ultimately show ?thesis by auto
    qed
    then show ?thesis by blast
  qed
  finally show ?case .
qed simp

lemma below_unique:
  assumes "i \<notin> S"
  shows "(x, k) \<in> below parent S ^^ m \<Longrightarrow> parent k = Some i \<Longrightarrow> (x, k') \<in> below parent S ^^ m' \<Longrightarrow> parent k' = Some i \<Longrightarrow> m = m' \<and> k = k'"
proof (induction m arbitrary: x m')
  case 0
  then have out: "(x, y) \<notin> below parent S" for y using assms by (auto simp: below_def)
  show ?case
  proof (cases m')
    case (Suc n)
    then show ?thesis using 0 out relpow_Suc_D2 by metis
  qed (use 0 in simp)
next
  case (Suc m)
  obtain y where y: "(x, y) \<in> below parent S" "(y, k) \<in> below parent S ^^ m"
    using relpow_Suc_D2 [OF Suc.prems(1)] by blast
  then obtain n where n: "m' = Suc n" using Suc.prems(3,4) assms by (cases m') (auto simp: below_def)
  obtain z where z: "(x, z) \<in> below parent S" "(z, k') \<in> below parent S ^^ n"
    using relpow_Suc_D2 [OF Suc.prems(3) [unfolded n]] by blast
  have "z = y" using y(1) z(1) by (simp add: below_def)
  then show ?case using Suc.IH [OF y(2) Suc.prems(2) _ Suc.prems(4)] z(2) n by blast
qed

lemma below_single:
  "(x, y) \<in> below parent S ^^ m \<Longrightarrow> (x, z) \<in> below parent S ^^ m \<Longrightarrow> y = z"
proof (induction m arbitrary: x)
  case (Suc m)
  obtain a where a: "(x, a) \<in> below parent S" "(a, y) \<in> below parent S ^^ m" using relpow_Suc_D2 [OF Suc.prems(1)] by blast
  obtain b where b: "(x, b) \<in> below parent S" "(b, z) \<in> below parent S ^^ m" using relpow_Suc_D2 [OF Suc.prems(2)] by blast
  have "a = b" using a(1) b(1) by (simp add: below_def)
  then show ?case using Suc.IH a(2) b(2) by blast
qed simp

lemma distinct_concat_map:
  "distinct ks \<Longrightarrow> (\<And>k. k \<in> set ks \<Longrightarrow> distinct (f k)) \<Longrightarrow>
   (\<And>k j. k \<in> set ks \<Longrightarrow> j \<in> set ks \<Longrightarrow> k \<noteq> j \<Longrightarrow> set (f k) \<inter> set (f j) = {}) \<Longrightarrow> distinct (concat (map f ks))"
  by (induction ks) (auto simp: disjoint_iff)

lemma distinct_flatten:
  assumes "nested parent steps" "i \<notin> fst ` set steps"
  shows "distinct ks \<Longrightarrow> set ks \<subseteq> fst ` set steps \<Longrightarrow>
    (\<And>k. k \<in> set ks \<Longrightarrow> \<exists>top. (k, top) \<in> below parent (fst ` set steps) ^^ d \<and> parent top = Some i) \<Longrightarrow>
    distinct (flatten n steps ks)"
proof (induction n arbitrary: ks d)
  case (Suc n)
  let ?R = "below parent (fst ` set steps)"
  have kids: "distinct (children_of steps k)" "set (children_of steps k) = {j \<in> fst ` set steps. parent j = Some k}"
    if "k \<in> set ks" for k using assms(1) Suc.prems(2) that unfolding nested_def by blast+
  have deeper: "\<exists>top. (j, top) \<in> ?R ^^ Suc d \<and> parent top = Some i" if kj: "k \<in> set ks" "j \<in> set (children_of steps k)" for k j
  proof -
    obtain top where "(k, top) \<in> ?R ^^ d" "parent top = Some i" using Suc.prems(3) [OF kj(1)] by blast
    moreover have "(j, k) \<in> ?R" using kj kids(2) [OF kj(1)] Suc.prems(2) by (auto simp: below_def)
    ultimately show ?thesis by (meson relpow_Suc_I2)
  qed
  have sub: "set (children_of steps k) \<subseteq> fst ` set steps" if "k \<in> set ks" for k using kids(2) [OF that] by blast
  have elems: "\<exists>m. (x, k) \<in> ?R ^^ m" if kx: "k \<in> set ks" "x \<in> set (k # flatten n steps (children_of steps k))" for k x
  proof (cases "x = k")
    case False
    then obtain m j where j: "j \<in> set (children_of steps k)" "(x, j) \<in> ?R ^^ m"
      using kx(2) set_flatten [OF assms(1) sub [OF kx(1)], of n] by auto
    then have "(j, k) \<in> ?R" using kx(1) kids(2) [OF kx(1)] Suc.prems(2) by (auto simp: below_def)
    then show ?thesis using j(2) by (meson relpow_Suc_I)
  qed (auto intro: exI [of _ 0])
  show ?case unfolding flatten.simps
  proof (rule distinct_concat_map [OF Suc.prems(1)])
    fix k assume k: "k \<in> set ks"
    have "distinct (flatten n steps (children_of steps k))"
      by (rule Suc.IH [OF kids(1) [OF k] sub [OF k] deeper [OF k]])
    moreover have "k \<notin> set (flatten n steps (children_of steps k))"
    proof
      assume "k \<in> set (flatten n steps (children_of steps k))"
      then obtain m j where j: "j \<in> set (children_of steps k)" "(k, j) \<in> ?R ^^ m"
        using set_flatten [OF assms(1) sub [OF k], of n] by auto
      obtain top where top: "(j, top) \<in> ?R ^^ Suc d" "parent top = Some i" using deeper [OF k j(1)] by blast
      have far: "(k, top) \<in> ?R ^^ (m + Suc d)" using j(2) top(1) unfolding relpow_add by blast
      obtain top' where top': "(k, top') \<in> ?R ^^ d" "parent top' = Some i" using Suc.prems(3) [OF k] by blast
      from below_unique [OF assms(2) far top(2) top'] show False by simp
    qed
    ultimately show "distinct (k # flatten n steps (children_of steps k))" by simp
  next
    fix k j assume k: "k \<in> set ks" and j: "j \<in> set ks" and ne: "k \<noteq> j"
    show "set (k # flatten n steps (children_of steps k)) \<inter> set (j # flatten n steps (children_of steps j)) = {}"
    proof (rule ccontr)
      assume "\<not> ?thesis"
      then obtain x a b where x: "(x, k) \<in> ?R ^^ a" "(x, j) \<in> ?R ^^ b" using elems [OF k] elems [OF j] by (meson disjoint_iff)
      obtain p q where p: "(k, p) \<in> ?R ^^ d" "parent p = Some i" and q: "(j, q) \<in> ?R ^^ d" "parent q = Some i"
        using Suc.prems(3) k j by meson
      have "(x, p) \<in> ?R ^^ (a + d)" "(x, q) \<in> ?R ^^ (b + d)" using x p(1) q(1) unfolding relpow_add by blast+
      then have "a = b" using below_unique [OF assms(2)] p(2) q(2) by (metis add_right_cancel)
      then show False using below_single x ne by metis
    qed
  qed
qed simp

lemma flatten_enough:
  assumes "nested parent steps" "i \<notin> fst ` set steps" "k \<in> fst ` set steps" "parent k = Some i"
    "(x, k) \<in> below parent (fst ` set steps) ^^ m"
  shows "m < length steps"
proof -
  let ?S = "fst ` set steps" let ?R = "below parent ?S"
  have fin: "finite ?R" by (rule finite_subset [of _ "?S \<times> ?S"]) (auto simp: below_def)
  have "?R \<subseteq> (\<lambda>y. (y, the (parent y))) ` (?S - {k})"
  proof
    fix e assume "e \<in> ?R"
    then obtain y z where e: "e = (y, z)" "y \<in> ?S" "z \<in> ?S" "parent y = Some z" unfolding below_def by blast
    then have "y \<noteq> k" using assms(2,4) by (metis option.inject)
    then show "e \<in> (\<lambda>y. (y, the (parent y))) ` (?S - {k})" using e by (intro image_eqI [of _ _ y]) simp_all
  qed
  then have "card ?R \<le> card (?S - {k})"
    by (meson card_image_le card_mono finite_Diff finite_imageI finite_set le_trans)
  then have less: "card ?R < card ?S" using assms(3) by (metis card_Diff1_less finite_imageI finite_set le_less_trans)
  obtain n where n: "n \<le> card ?R" "(x, k) \<in> ?R ^^ n" using relpow_finite_bounded [OF fin, of m] assms(5) by auto
  have "m = n" using below_unique [OF assms(2) assms(5,4) n(2) assms(4)] by blast
  moreover have "card ?S = length steps"
    using assms(1) by (simp add: nested_def dict_ok_def distinct_card flip: set_map)
  ultimately show ?thesis using n(1) less by simp
qed

lemma flatten_below:
  assumes "nested parent steps" "i \<notin> fst ` set steps" "distinct ks" "set ks = {k \<in> fst ` set steps. parent k = Some i}"
  shows "distinct (flatten (length steps) steps ks) \<and> set (flatten (length steps) steps ks) =
    {x. \<exists>m k. k \<in> fst ` set steps \<and> parent k = Some i \<and> (x, k) \<in> below parent (fst ` set steps) ^^ m}"
proof
  show "distinct (flatten (length steps) steps ks)"
    using distinct_flatten [OF assms(1,2,3), of 0] assms(4) by auto
  have "set ks \<subseteq> fst ` set steps" using assms(4) by blast
  note all = set_flatten [OF assms(1) this, of "length steps"]
  show "set (flatten (length steps) steps ks) =
    {x. \<exists>m k. k \<in> fst ` set steps \<and> parent k = Some i \<and> (x, k) \<in> below parent (fst ` set steps) ^^ m}"
    (is "_ = ?X")
  proof
    show "set (flatten (length steps) steps ks) \<subseteq> ?X" unfolding all assms(4) by blast
    show "?X \<subseteq> set (flatten (length steps) steps ks)"
    proof
      fix x assume "x \<in> ?X"
      then obtain m k where k: "k \<in> fst ` set steps" "parent k = Some i" "(x, k) \<in> below parent (fst ` set steps) ^^ m"
        by (elim CollectE exE conjE)
      then have "m < length steps" by (rule flatten_enough [OF assms(1,2)])
      then show "x \<in> set (flatten (length steps) steps ks)" unfolding all assms(4) using k by blast
    qed
  qed
qed

section \<open>The finished tree\<close>

lemma finish_tree_steps:
  "tr_steps (finish_tree t) = map (\<lambda>kv. finish_step (tr_steps (sort_tree t)) kv) (tr_steps (sort_tree t))"
  by (simp add: finish_tree_def Let_def)

lemma sort_tree_step_ids [simp]: "step_ids (sort_tree t) = step_ids t" "map fst (tr_steps (sort_tree t)) = map fst (tr_steps t)"
  by (force simp: sort_tree_def) (simp add: sort_tree_def comp_def split_def)

lemma finish_step_fst [simp]: "fst (finish_step steps kv) = fst kv"
  by (simp add: finish_step_def split_def)

lemma finish_tree_step_ids [simp]: "step_ids (finish_tree t) = step_ids t" "map fst (tr_steps (finish_tree t)) = map fst (tr_steps t)"
proof -
  show "map fst (tr_steps (finish_tree t)) = map fst (tr_steps t)"
    by (simp add: finish_tree_steps comp_def)
  then show "step_ids (finish_tree t) = step_ids t" by (metis set_map)
qed

lemma finish_tree_step:
  assumes "(k, c) \<in> set (tr_steps (finish_tree t))"
  shows "\<exists>c0. (k, c0) \<in> set (tr_steps t) \<and> set (sr_children c) = set (sr_children c0) \<and>
    distinct (sr_children c) = distinct (sr_children c0) \<and> mset (sr_attempts c) = mset (sr_attempts c0) \<and>
    sr_start c = sr_start c0 \<and> sr_end c = sr_end c0 \<and> sr_outcome c = sr_outcome c0 \<and> sr_node c = sr_node c0 \<and>
    sr_resumed_from c = sr_resumed_from c0"
  using assms unfolding finish_tree_steps sort_tree_def
  by (auto simp: finish_step_def sort_step_def)

lemma finish_tree_run:
  assumes "(i, r) \<in> set (tr_runs (finish_tree t))"
  shows "\<exists>r0. (i, r0) \<in> set (tr_runs t) \<and> set (rr_steps r) = set (rr_steps r0) \<and>
    distinct (rr_steps r) = distinct (rr_steps r0) \<and> rr_start r = rr_start r0 \<and> rr_run_id r = rr_run_id r0 \<and> rr_graph_id r = rr_graph_id r0 \<and>
    rr_subject_type r = rr_subject_type r0 \<and> rr_subject_id r = rr_subject_id r0 \<and>
    (i, r) = finish_run (tr_steps (finish_tree t)) (i, r0\<lparr>rr_steps := rr_steps r\<rparr>)"
  using assms unfolding finish_tree_def sort_tree_def
  by (auto simp: finish_run_def Let_def)

lemma finish_tree_run_ids [simp]: "run_ids (finish_tree t) = run_ids t"
proof -
  have "map fst (map (finish_run s) rs) = map fst rs" for s rs
    by (simp add: finish_run_def comp_def split_def Let_def)
  then have "fst ` set (map (finish_run s) rs) = fst ` set rs" for s rs by (metis set_map)
  moreover have "run_ids (sort_tree t) = run_ids t" by (force simp: sort_tree_def)
  ultimately show ?thesis by (simp add: finish_tree_def Let_def)
qed

lemma children_of_mem: "dict_ok steps \<Longrightarrow> (k, c) \<in> set steps \<Longrightarrow> children_of steps k = sr_children c"
  by (simp add: children_of_def dict_ok_def)

lemma finished_nested:
  assumes "placed spans {} t0"
  shows "nested (up spans) (tr_steps (finish_tree t0))"
  unfolding nested_def
proof
  have "dict_ok (tr_steps t0)" using assms by (simp add: placed_def)
  then show d: "dict_ok (tr_steps (finish_tree t0))" by (simp add: dict_ok_def)
  show "\<forall>k \<in> step_ids (finish_tree t0). distinct (children_of (tr_steps (finish_tree t0)) k) \<and>
     set (children_of (tr_steps (finish_tree t0)) k) = {j \<in> step_ids (finish_tree t0). up spans j = Some k}"
  proof
    fix k assume "k \<in> step_ids (finish_tree t0)"
    then obtain c where c: "(k, c) \<in> set (tr_steps (finish_tree t0))" by (auto simp del: finish_tree_step_ids)
    from finish_tree_step [OF c] obtain c0 where "(k, c0) \<in> set (tr_steps t0)" "set (sr_children c) = set (sr_children c0)"
      "distinct (sr_children c) = distinct (sr_children c0)" by blast
    moreover from this(1) have "children_ok spans {} t0 k (sr_children c0)" using assms unfolding placed_def by blast
    ultimately show "distinct (children_of (tr_steps (finish_tree t0)) k) \<and>
      set (children_of (tr_steps (finish_tree t0)) k) = {j \<in> step_ids (finish_tree t0). up spans j = Some k}"
      unfolding children_of_mem [OF d c] children_ok_def by simp
  qed
qed

text \<open>The Run above a Step, by parent ids and by the archive's own walk.\<close>

lemma edges_below:
  assumes ok: "accepted spans" and S: "S = {i. \<exists>s. span_at spans i s Step_Role}"
  shows "(parent_edge spans)\<^sup>*\<^sup>* s r \<Longrightarrow> role r = Inr (Some Run_Role) \<Longrightarrow> span_at spans x s Step_Role \<Longrightarrow>
    \<exists>m k. k \<in> S \<and> up spans k = Some (span_id_of r) \<and> (x, k) \<in> below (up spans) S ^^ m"
proof (induction arbitrary: x rule: converse_rtranclp_induct)
  case base
  then show ?case by (simp add: span_at_def)
next
  case (step s p)
  have idx: "index_ok spans" using ok by (simp add: accepted_def)
  obtain q i k where q: "up spans x = Some i" "span_at spans i q k" "k \<noteq> Attempt_Role" "parent_edge spans s q"
    using accepted_step [OF ok step.prems(2)] by blast
  have qp: "q = p" by (rule parent_edge_det [OF q(4) step(1)])
  have x: "x \<in> S" using step.prems(2) S by blast
  show ?case
  proof (cases "k = Run_Role")
    case True
    then have "role p = Inr (Some Run_Role)" using q(2) qp by (simp add: span_at_def)
    then have "p = r" using step(2) run_has_no_edge by (metis converse_rtranclpE)
    then have "up spans x = Some (span_id_of r)" using q(1) span_at_id [OF idx q(2)] qp by simp
    moreover have "(x, x) \<in> below (up spans) S ^^ 0" by simp
    ultimately show ?thesis using x by blast
  next
    case False
    then have at: "span_at spans i p Step_Role" using q(2,3) qp by (cases k) simp_all
    then have "(x, i) \<in> below (up spans) S" using x q(1) S by (auto simp: below_def)
    then show ?thesis using step.IH [OF step.prems(1) at] by (meson relpow_Suc_I2)
  qed
qed

lemma below_edges:
  assumes ok: "accepted spans" and S: "S = {i. \<exists>s. span_at spans i s Step_Role}" and run: "span_at spans i r Run_Role"
  shows "(x, k) \<in> below (up spans) S ^^ m \<Longrightarrow> up spans k = Some i \<Longrightarrow> k \<in> S \<Longrightarrow> span_at spans x s Step_Role \<Longrightarrow>
    (parent_edge spans)\<^sup>*\<^sup>* s r"
proof (induction m arbitrary: x s)
  case 0
  obtain q j l where q: "up spans x = Some j" "span_at spans j q l" "parent_edge spans s q"
    using accepted_step [OF ok 0(4)] by blast
  then have "j = i" using 0 by simp
  then have "q = r" using q(2) run span_at_unique by metis
  then show ?case using q(3) by blast
next
  case (Suc m)
  obtain y where y: "(x, y) \<in> below (up spans) S" "(y, k) \<in> below (up spans) S ^^ m"
    using relpow_Suc_D2 [OF Suc.prems(1)] by blast
  obtain q j l where q: "up spans x = Some j" "span_at spans j q l" "parent_edge spans s q"
    using accepted_step [OF ok Suc.prems(4)] by blast
  have "j = y" "y \<in> S" using q(1) y(1) by (auto simp: below_def)
  then have "span_at spans y q Step_Role" using q(2) S span_at_unique by blast
  from Suc.IH [OF y(2) Suc.prems(2,3) this] show ?case using q(3) by (meson converse_rtranclp_into_rtranclp)
qed

abbreviation steps_of :: "tree \<Rightarrow> run_rec \<Rightarrow> string list" where
  "steps_of t r \<equiv> flatten (length (tr_steps t)) (tr_steps t) (rr_steps r)"

lemma run_steps_flat:
  assumes "index_ok spans" "build_execution_tree spans = Inr t" "(i, r) \<in> set (tr_runs t)"
  shows "distinct (steps_of t r) \<and> (\<exists>root. span_at spans i root Run_Role \<and>
    set (steps_of t r) = {k. \<exists>s. span_at spans k s Step_Role \<and> run_root spans s = Inr root})"
proof -
  obtain t0 where ok: "accepted spans" and p: "placed spans {} t0" and t: "t = finish_tree t0"
    and S: "step_ids t0 = {i. \<exists>s. span_at spans i s Step_Role}"
    using placed_tree [OF assms(1,2)] by blast
  obtain r0 where r0: "(i, r0) \<in> set (tr_runs t0)" "set (rr_steps r) = set (rr_steps r0)"
    "distinct (rr_steps r) = distinct (rr_steps r0)"
    using finish_tree_run assms(3) t by metis
  then have run: "run_of spans i r0" and kids: "children_ok spans {} t0 i (rr_steps r0)" using p unfolding placed_def by blast+
  obtain root where root: "span_at spans i root Run_Role" using run by (auto simp: run_of_def)
  have S': "step_ids t = {i. \<exists>s. span_at spans i s Step_Role}" using S t by simp
  have out: "i \<notin> step_ids t"
  proof
    assume "i \<in> step_ids t"
    then obtain s where "span_at spans i s Step_Role" unfolding S' by (elim CollectE exE)
    then show False using root by (auto simp: span_at_def)
  qed
  have ks: "distinct (rr_steps r)" "set (rr_steps r) = {k \<in> step_ids t. up spans k = Some i}"
    using kids r0 t by (simp_all add: children_ok_def)
  have nest: "nested (up spans) (tr_steps t)" using finished_nested [OF p] t by simp
  note flat = flatten_below [OF nest out ks]
  have "x \<in> set (steps_of t r) \<longleftrightarrow> (\<exists>s. span_at spans x s Step_Role \<and> run_root spans s = Inr root)" for x
  proof
    assume "x \<in> set (steps_of t r)"
    then obtain m k where k: "k \<in> step_ids t" "up spans k = Some i" "(x, k) \<in> below (up spans) (step_ids t) ^^ m"
      using flat by blast
    have "x \<in> step_ids t"
    proof (cases m)
      case (Suc n)
      then obtain y where "(x, y) \<in> below (up spans) (step_ids t)" using k(3) relpow_Suc_D2 by metis
      then show ?thesis by (simp add: below_def)
    qed (use k in simp)
    then obtain s where s: "span_at spans x s Step_Role" unfolding S' by blast
    have "(parent_edge spans)\<^sup>*\<^sup>* s root" by (rule below_edges [OF ok S' root k(3,2,1) s])
    then have "run_root spans s = Inr root"
      unfolding run_root_def using root_walk_complete [OF assms(1)] root span_at_indexed [OF s]
      by (metis empty_iff list.set(1) rtranclp_imp_relpowp span_at_def)
    then show "\<exists>s. span_at spans x s Step_Role \<and> run_root spans s = Inr root" using s by blast
  next
    assume "\<exists>s. span_at spans x s Step_Role \<and> run_root spans s = Inr root"
    then obtain s where s: "span_at spans x s Step_Role" "run_root spans s = Inr root" by blast
    then have "(parent_edge spans)\<^sup>*\<^sup>* s root" "role root = Inr (Some Run_Role)"
      using root_walk_reaches unfolding run_root_def by blast+
    from edges_below [OF ok S' this s(1)] show "x \<in> set (steps_of t r)"
      using flat span_at_id [OF assms(1) root] by blast
  qed
  then show ?thesis using flat root by blast
qed

lemma repeated_but_first:
  assumes "dict_ok steps" "(k, s) \<in> set steps" "sr_resumed_from s = Some r"
  shows "\<not> repeated steps k s \<longleftrightarrow> k = fst (hd (resumed_group steps r))"
proof -
  let ?g = "resumed_group steps r"
  have mem: "(k, s) \<in> set ?g" using assms(2,3) by (simp add: resumed_group_def)
  then obtain x xs where g: "?g = x # xs" by (cases ?g) auto
  have "distinct (map fst steps)" using assms(1) by (simp add: dict_ok_def)
  then have "inj_on fst (set steps)" "distinct steps" by (simp_all add: distinct_map)
  then have "distinct (map fst ?g)"
    by (auto simp: resumed_group_def distinct_map intro: inj_on_subset)
  then have d: "fst x \<notin> fst ` set xs" by (simp add: g)
  have "k \<in> fst ` set xs \<longleftrightarrow> k \<noteq> fst x"
  proof (cases "(k, s) = x")
    case True
    then have "k = fst x" by auto
    then show ?thesis using d by metis
  next
    case False
    then have "(k, s) \<in> set xs" using mem g by simp
    then have "k \<in> fst ` set xs" by force
    then show ?thesis using d by metis
  qed
  then show ?thesis using assms(3) by (auto simp: repeated_def g)
qed

lemma group_head_first:
  assumes "(k, s) \<in> set (resumed_group steps r)"
  shows "sr_start (snd (hd (resumed_group steps r))) \<le> sr_start s"
proof -
  have "sorted (map (sr_start \<circ> snd) (resumed_group steps r))" by (simp add: resumed_group_def)
  then show ?thesis using assms by (cases "resumed_group steps r") auto
qed

section \<open>Properties\<close>

text \<open>
  C8. The viewer's tree loses and invents nothing: built from a read archive, it has one Run record per Run
  span, and below each Run, flattened over every nesting depth, stands each Step of the archive whose own
  walk upwards ends at that Run, exactly once.
\<close>

theorem every_step_in_its_run:
  assumes "read_spans paths = Inr spans" "build_execution_tree spans = Inr t"
  shows "run_ids t = {i. \<exists>s. span_at spans i s Run_Role} \<and>
    (\<forall>(i, r) \<in> set (tr_runs t). distinct (steps_of t r) \<and>
       (\<exists>root. span_at spans i root Run_Role \<and>
          set (steps_of t r) = {k. \<exists>s. span_at spans k s Step_Role \<and> run_root spans s = Inr root}))"
proof
  have ok: "index_ok spans" by (rule read_spans_ok [OF assms(1)])
  show "run_ids t = {i. \<exists>s. span_at spans i s Run_Role}"
  proof -
    obtain t0 where "t = finish_tree t0" "run_ids t0 = {i. \<exists>s. span_at spans i s Run_Role}"
      using placed_tree [OF ok assms(2)] by blast
    then show ?thesis by simp
  qed
  show "\<forall>(i, r) \<in> set (tr_runs t). distinct (steps_of t r) \<and> (\<exists>root. span_at spans i root Run_Role \<and>
          set (steps_of t r) = {k. \<exists>s. span_at spans k s Step_Role \<and> run_root spans s = Inr root})"
    using run_steps_flat [OF ok assms(2)] by blast
qed

lemma demo_built: "build_execution_tree demo_spans = Inr (projr (build_execution_tree demo_spans))"
proof -
  have "isl (build_execution_tree demo_spans) = False" by code_simp
  then show ?thesis by (cases "build_execution_tree demo_spans") auto
qed

theorem every_step_in_its_run_witness:
  "run_ids (projr (build_execution_tree demo_spans)) = {i. \<exists>s. span_at demo_spans i s Run_Role}"
  using every_step_in_its_run [OF demo_read demo_built] by blast

text \<open>
  C22. A repeated resume is flagged on all Steps but one: of the Steps that resume the same paused Step,
  exactly one is not flagged as a repeated execution, and no other of them starts before it.
\<close>

theorem one_resume_is_original:
  assumes "read_spans paths = Inr spans" "build_execution_tree spans = Inr t"
    "(k, c) \<in> set (tr_steps t)" "sr_resumed_from c = Some r"
  shows "\<exists>k0 c0. (k0, c0) \<in> set (tr_steps t) \<and> sr_resumed_from c0 = Some r \<and>
    (\<forall>j d. (j, d) \<in> set (tr_steps t) \<and> sr_resumed_from d = Some r \<longrightarrow>
       sr_start c0 \<le> sr_start d \<and> (\<not> sr_repeated d \<longleftrightarrow> j = k0))"
proof -
  obtain t0 where p: "placed spans {} t0" and t: "t = finish_tree t0"
    using placed_tree [OF read_spans_ok [OF assms(1)] assms(2)] by blast
  let ?steps = "tr_steps (sort_tree t0)"
  have d: "dict_ok ?steps" using p by (simp add: placed_def dict_ok_def)
  have earlier: "\<exists>d0. (j, d0) \<in> set ?steps \<and> sr_resumed_from d = sr_resumed_from d0 \<and> sr_start d = sr_start d0 \<and>
      sr_repeated d = repeated ?steps j d0" if "(j, d) \<in> set (tr_steps t)" for j d
    using that unfolding t finish_tree_steps by (auto simp: finish_step_def)
  have later: "\<exists>d. (j, d) \<in> set (tr_steps t) \<and> sr_resumed_from d = sr_resumed_from d0 \<and> sr_start d = sr_start d0"
    if "(j, d0) \<in> set ?steps" for j d0
    using that unfolding t finish_tree_steps by (force simp: finish_step_def)
  let ?g = "resumed_group ?steps r"
  have group: "(j, d0) \<in> set ?g \<longleftrightarrow> (j, d0) \<in> set ?steps \<and> sr_resumed_from d0 = Some r" for j d0
    by (simp add: resumed_group_def)
  have "?g \<noteq> []" using earlier [OF assms(3)] assms(4) group by fastforce
  then have "hd ?g \<in> set ?g" by simp
  then obtain k0 h where h: "hd ?g = (k0, h)" "(k0, h) \<in> set ?steps" "sr_resumed_from h = Some r"
    using group by (metis prod.collapse)
  obtain c0 where c0: "(k0, c0) \<in> set (tr_steps t)" "sr_resumed_from c0 = Some r" "sr_start c0 = sr_start h"
    using later [OF h(2)] h(3) by auto
  have "sr_start c0 \<le> sr_start e \<and> (\<not> sr_repeated e \<longleftrightarrow> j = k0)"
    if je: "(j, e) \<in> set (tr_steps t)" "sr_resumed_from e = Some r" for j e
  proof -
    obtain e0 where e0: "(j, e0) \<in> set ?steps" "sr_resumed_from e0 = Some r" "sr_start e = sr_start e0"
      "sr_repeated e = repeated ?steps j e0" using earlier [OF je(1)] je(2) by auto
    then show ?thesis
      using repeated_but_first [OF d e0(1,2)] group_head_first [of j e0 ?steps r] group [of j e0] h(1) c0(3) by auto
  qed
  then show ?thesis using c0 by blast
qed

definition resumed_step :: "string \<Rightarrow> json" where
  "resumed_step i = demo_span i (JStr ''1000000000000000'') ''step:n''
     [demo_text ''cord.node.name'' ''n'', demo_text ''cord.outcome'' ''passed'', demo_text ''cord.resumed_from'' ''2000000000000000'']"

definition resumed_archive :: archive_path where
  "resumed_archive = File_Path \<lparr>af_lines = [Some (JObj [(''resourceSpans'', JArr [JObj [(''scopeSpans'', JArr [JObj [(''spans'', JArr
     [resumed_step ''3000000000000000'',
      demo_span ''2000000000000000'' (JStr ''1000000000000000'') ''step:n''
        [demo_text ''cord.node.name'' ''n'', demo_text ''cord.outcome'' ''awaiting_approval''],
      demo_span ''1000000000000000'' (JStr []) ''run'' [demo_text ''cord.semconv.version'' ''0.4.0'']])]])]])])], af_fails = False\<rparr>"

definition resumed_spans :: span_index where
  "resumed_spans =
    [demo_normal ''3000000000000000'' (JStr ''1000000000000000'') ''step:n''
       [(''cord.node.name'', JStr ''n''), (''cord.outcome'', JStr ''passed''), (''cord.resumed_from'', JStr ''2000000000000000'')],
     demo_normal ''2000000000000000'' (JStr ''1000000000000000'') ''step:n''
       [(''cord.node.name'', JStr ''n''), (''cord.outcome'', JStr ''awaiting_approval'')],
     demo_normal ''1000000000000000'' (JStr []) ''run'' [(''cord.semconv.version'', JStr ''0.4.0'')]]"

lemma resumed_read: "read_spans [resumed_archive] = Inr resumed_spans"
  by code_simp

lemma resumed_built:
  "map_sum id (\<lambda>t. map_option sr_resumed_from (map_of (tr_steps t) ''3000000000000000'')) (build_execution_tree resumed_spans) =
     Inr (Some (Some ''2000000000000000''))"
  by code_simp

theorem one_resume_is_original_witness:
  "\<exists>t k0 c0. build_execution_tree resumed_spans = Inr t \<and> (k0, c0) \<in> set (tr_steps t) \<and>
     sr_resumed_from c0 = Some ''2000000000000000''"
proof -
  obtain t where t: "build_execution_tree resumed_spans = Inr t"
    using resumed_built by (cases "build_execution_tree resumed_spans") auto
  then obtain c where "map_of (tr_steps t) ''3000000000000000'' = Some c" "sr_resumed_from c = Some ''2000000000000000''"
    using resumed_built by auto
  from one_resume_is_original [OF resumed_read t map_of_SomeD [OF this(1)] this(2)] show ?thesis using t by blast
qed

section \<open>The timeline\<close>

text \<open>The spans that belong to a Run: itself, its Steps at any depth, and their Attempts.\<close>

definition in_run :: "span_index \<Rightarrow> span \<Rightarrow> span \<Rightarrow> bool" where
  "in_run spans r s \<longleftrightarrow> s = r \<or>
     (\<exists>k. span_at spans k s Step_Role \<and> run_root spans s = Inr r) \<or>
     (\<exists>i k step. span_at spans i s Attempt_Role \<and> up spans i = Some k \<and> span_at spans k step Step_Role \<and>
        run_root spans step = Inr r)"

lemma accepted_attempt:
  assumes "accepted spans" "span_at spans i s Attempt_Role"
  shows "\<exists>a. attempt_record s = Inr a \<and> ar_end a = span_end s"
proof -
  have role: "role s = Inr (Some Attempt_Role)" using assms(2) by (simp add: span_at_def)
  obtain ks where "check_span spans 0 s = Inr ks" using assms span_at_indexed unfolding accepted_def by blast
  then have "check_attempt spans s = Inr ()" using role by (auto simp: check_span_def archive_Inr)
  then have "positive_number (attr s ''cord.step.attempt'')" "outcome_in s ATTEMPT_OUTCOMES"
    by (auto simp: check_attempt_def archive_Inr)
  then obtain n out where "attr s ''cord.step.attempt'' = Some n" "attr s ''cord.outcome'' = Some out"
    by (auto simp: positive_number_def outcome_in_def split: option.splits)
  then have "need_attr s ''cord.step.attempt'' = Inr n" "need_attr s ''cord.outcome'' = Inr out" by (simp_all add: attr_need)
  then show ?thesis by (simp add: attempt_record_def)
qed

lemma attempt_ends:
  assumes ok: "accepted spans" and at: "attempts_ok spans spans t0" and c: "(k, c) \<in> set (tr_steps (finish_tree t0))"
  shows "ar_end ` set (sr_attempts c) = {span_end s |i s. span_at spans i s Attempt_Role \<and> up spans i = Some k}"
proof -
  obtain c0 where c0: "(k, c0) \<in> set (tr_steps t0)" "mset (sr_attempts c) = mset (sr_attempts c0)"
    using finish_tree_step [OF c] by blast
  have "sr_attempts c0 = attempts_at spans spans k" using at c0(1) unfolding attempts_ok_def by blast
  then have set: "set (sr_attempts c) = set (attempts_at spans spans k)" using c0(2) by (metis set_mset_mset)
  have d: "dict_ok spans" using ok by (simp add: accepted_def index_ok_def)
  have mem: "(i, (s, l)) \<in> set spans \<and> role s = Inr (Some Attempt_Role) \<Longrightarrow> span_at spans i s Attempt_Role" for i s l
    using d by (auto simp: span_at_def dict_ok_def)
  have rec: "ar_end (projr (attempt_record s)) = span_end s" if "span_at spans i s Attempt_Role" for i s
    using accepted_attempt [OF ok that] by auto
  show ?thesis
  proof (intro set_eqI iffI)
    fix e assume "e \<in> ar_end ` set (sr_attempts c)"
    then obtain i s l where x: "(i, (s, l)) \<in> set spans" "role s = Inr (Some Attempt_Role)" "up spans i = Some k"
      "e = ar_end (projr (attempt_record s))" unfolding set attempts_at_def by auto
    then have "span_at spans i s Attempt_Role" using mem by blast
    then show "e \<in> {span_end s |i s. span_at spans i s Attempt_Role \<and> up spans i = Some k}" using x rec by blast
  next
    fix e assume "e \<in> {span_end s |i s. span_at spans i s Attempt_Role \<and> up spans i = Some k}"
    then obtain i s where x: "span_at spans i s Attempt_Role" "up spans i = Some k" "e = span_end s" by blast
    then obtain l where "(i, (s, l)) \<in> set spans" "role s = Inr (Some Attempt_Role)" by (auto simp: span_at_def dest: map_of_SomeD)
    then have "projr (attempt_record s) \<in> set (attempts_at spans spans k)" using x(2) by (force simp: attempts_at_def)
    then show "e \<in> ar_end ` set (sr_attempts c)" using rec [OF x(1)] x(3) set by (metis image_eqI)
  qed
qed

lemma steps_below_mem:
  assumes "dict_ok (tr_steps t)"
  shows "c \<in> set (steps_below (tr_steps t) r) \<longleftrightarrow> (\<exists>k \<in> set (steps_of t r). (k, c) \<in> set (tr_steps t))"
proof -
  have look: "map_of (tr_steps t) k = Some c \<longleftrightarrow> (k, c) \<in> set (tr_steps t)" for k
    using assms(1) by (simp add: dict_ok_def)
  have "c \<in> set (List.map_filter f xs) \<longleftrightarrow> (\<exists>x \<in> set xs. f x = Some c)" for f and xs :: "string list"
    by (force simp: List.map_filter_def)
  then show ?thesis unfolding steps_below_def look [symmetric] .
qed

lemma known_waits_ge: "\<forall>c \<in> set cs. \<forall>w. sr_wait c = Some w \<longrightarrow> 0 \<le> w \<Longrightarrow> 0 \<le> sum_list (known_waits cs)"
  by (induction cs) (auto simp: known_waits_def List.map_filter_def)

lemma finished_wait_ge: "(k, c) \<in> set (tr_steps (finish_tree t0)) \<Longrightarrow> sr_wait c = Some w \<Longrightarrow> 0 \<le> w"
  unfolding finish_tree_steps by (auto simp: finish_step_def approval_wait_def split: option.splits)

lemma finish_run_simps:
  "rr_end (snd (finish_run steps (i, r))) = Max (set (rr_end r # map sr_end (steps_below steps r) @
      concat (map (\<lambda>s. map ar_end (sr_attempts s)) (steps_below steps r))))"
  "rr_wait (snd (finish_run steps (i, r))) = sum_list (known_waits (steps_below steps r))"
  "rr_start (snd (finish_run steps (i, r))) = rr_start r"
  "rr_execution (snd (finish_run steps (i, r))) =
     max 0 (rr_end (snd (finish_run steps (i, r))) - rr_start r - rr_wait (snd (finish_run steps (i, r))))"
  by (simp_all add: finish_run_def Let_def)

lemma run_ends:
  assumes ok: "accepted spans" and p: "placed spans {} t0" and at: "attempts_ok spans spans t0"
    and S: "step_ids t0 = {i. \<exists>s. span_at spans i s Step_Role}" and t: "t = finish_tree t0"
    and flat: "set (steps_of t r) = {k. \<exists>s. span_at spans k s Step_Role \<and> run_root spans s = Inr run}"
  shows "set (span_end run # map sr_end (steps_below (tr_steps t) r) @
      concat (map (\<lambda>s. map ar_end (sr_attempts s)) (steps_below (tr_steps t) r))) = {span_end s |s. in_run spans run s}"
    (is "?L = ?R")
proof -
  have d: "dict_ok (tr_steps t)" using p by (simp add: t placed_def dict_ok_def)
  note mem = steps_below_mem [OF d, of _ r]
  have step: "\<exists>s. span_at spans k s Step_Role \<and> sr_end c = span_end s" if kc: "(k, c) \<in> set (tr_steps t)" for k c
  proof -
    obtain c0 where c0: "(k, c0) \<in> set (tr_steps t0)" "sr_end c = sr_end c0"
      using finish_tree_step [OF kc [unfolded t]] by blast
    then have "step_of spans k c0" using p unfolding placed_def by blast
    then show ?thesis using c0(2) by (auto simp: step_of_def)
  qed
  have rec: "\<exists>c. (k, c) \<in> set (tr_steps t)" if "span_at spans k s Step_Role" for k s
  proof -
    have "k \<in> step_ids t" using that S t by auto
    then show ?thesis by auto
  qed
  have root_of: "run_root spans s = Inr run" if "span_at spans k s Step_Role" "k \<in> set (steps_of t r)" for k s
    using that flat span_at_unique by blast
  show ?thesis
  proof (intro set_eqI iffI)
    fix e assume "e \<in> ?L"
    then consider "e = span_end run" | c where "c \<in> set (steps_below (tr_steps t) r)" "e = sr_end c"
      | c where "c \<in> set (steps_below (tr_steps t) r)" "e \<in> ar_end ` set (sr_attempts c)" by auto
    then show "e \<in> ?R"
    proof cases
      case 1
      then show ?thesis by (auto simp: in_run_def)
    next
      case 2
      then obtain k where k: "k \<in> set (steps_of t r)" "(k, c) \<in> set (tr_steps t)" using mem by blast
      then obtain s where s: "span_at spans k s Step_Role" "sr_end c = span_end s" using step by blast
      then show ?thesis using root_of [OF s(1) k(1)] 2(2) by (auto simp: in_run_def)
    next
      case 3
      then obtain k where k: "k \<in> set (steps_of t r)" "(k, c) \<in> set (tr_steps t)" using mem by blast
      then obtain s where s: "span_at spans k s Step_Role" using step by blast
      obtain i a where "span_at spans i a Attempt_Role" "up spans i = Some k" "e = span_end a"
        using 3(2) attempt_ends [OF ok at k(2) [unfolded t]] by auto
      then show ?thesis using root_of [OF s k(1)] s unfolding in_run_def by blast
    qed
  next
    fix e assume "e \<in> ?R"
    then obtain s where s: "in_run spans run s" "e = span_end s" by blast
    from s(1) consider "s = run" | k where "span_at spans k s Step_Role" "run_root spans s = Inr run"
      | i k step where "span_at spans i s Attempt_Role" "up spans i = Some k" "span_at spans k step Step_Role"
        "run_root spans step = Inr run" unfolding in_run_def by blast
    then show "e \<in> ?L"
    proof cases
      case 1
      then show ?thesis using s(2) by simp
    next
      case 2
      obtain c where c: "(k, c) \<in> set (tr_steps t)" using rec [OF 2(1)] by blast
      then have "c \<in> set (steps_below (tr_steps t) r)" using mem flat 2 by blast
      moreover have "sr_end c = e" using step [OF c] 2(1) s(2) span_at_unique by metis
      ultimately show ?thesis by auto
    next
      case 3
      obtain c where c: "(k, c) \<in> set (tr_steps t)" using rec [OF 3(3)] by blast
      then have "c \<in> set (steps_below (tr_steps t) r)" using mem flat 3(3,4) by blast
      moreover have "e \<in> ar_end ` set (sr_attempts c)"
        using attempt_ends [OF ok at c [unfolded t]] 3(1,2) s(2) by blast
      ultimately show ?thesis by auto
    qed
  qed
qed

text \<open>
  A Run's timeline is truthful: it starts with its Run span and ends with the latest end of anything
  recorded for it, the Run span, its Steps at any depth and their Attempts; its execution time is what is
  left of that span, never below zero, after the known approval waits, which are never negative.
\<close>

theorem run_timeline_truthful:
  assumes "read_spans paths = Inr spans" "build_execution_tree spans = Inr t" "(i, r) \<in> set (tr_runs t)"
  shows "\<exists>run. span_at spans i run Run_Role \<and> rr_start r = span_start run \<and>
    rr_end r = Max {span_end s |s. in_run spans run s} \<and> 0 \<le> rr_wait r \<and>
    rr_execution r = max 0 (rr_end r - rr_start r - rr_wait r)"
proof -
  have idx: "index_ok spans" by (rule read_spans_ok [OF assms(1)])
  obtain t0 where ok: "accepted spans" and p: "placed spans {} t0" and at: "attempts_ok spans spans t0"
    and t: "t = finish_tree t0" and S: "step_ids t0 = {i. \<exists>s. span_at spans i s Step_Role}"
    using placed_tree [OF idx assms(2)] by blast
  obtain run where run: "span_at spans i run Run_Role"
    and flat: "set (steps_of t r) = {k. \<exists>s. span_at spans k s Step_Role \<and> run_root spans s = Inr run}"
    using run_steps_flat [OF idx assms(2,3)] by blast
  obtain r0 where r0: "(i, r0) \<in> set (tr_runs t0)" "rr_start r = rr_start r0"
    and fin: "(i, r) = finish_run (tr_steps t) (i, r0\<lparr>rr_steps := rr_steps r\<rparr>)"
    using finish_tree_run assms(3) t by metis
  have rec: "rr_start r0 = span_start run" "rr_end r0 = span_end run"
  proof -
    have "run_of spans i r0" using p r0(1) unfolding placed_def by blast
    then obtain s where "span_at spans i s Run_Role" "rr_start r0 = span_start s" "rr_end r0 = span_end s"
      unfolding run_of_def by blast
    then show "rr_start r0 = span_start run" "rr_end r0 = span_end run" using run span_at_unique by blast+
  qed
  have same: "steps_below (tr_steps t) (r0\<lparr>rr_steps := rr_steps r\<rparr>) = steps_below (tr_steps t) r"
    by (simp add: steps_below_def)
  let ?q = "r0\<lparr>rr_steps := rr_steps r\<rparr>"
  have r: "r = snd (finish_run (tr_steps t) (i, ?q))" using arg_cong [OF fin, of snd] by simp
  have q: "rr_start ?q = span_start run" "rr_end ?q = span_end run" using rec by simp_all
  have wait: "rr_wait r = sum_list (known_waits (steps_below (tr_steps t) r))"
    using finish_run_simps(2) [of "tr_steps t" i ?q] unfolding r [symmetric] same .
  have ends: "rr_end r = Max {span_end s |s. in_run spans run s}"
    using finish_run_simps(1) [of "tr_steps t" i ?q] run_ends [OF ok p at S t flat]
    unfolding r [symmetric] same q by simp
  have start: "rr_start r = span_start run"
    using finish_run_simps(3) [of "tr_steps t" i ?q] unfolding r [symmetric] q .
  have exec: "rr_execution r = max 0 (rr_end r - rr_start r - rr_wait r)"
    using finish_run_simps(4) [of "tr_steps t" i ?q] unfolding r [symmetric] q start .
  have "0 \<le> w" if cw: "c \<in> set (steps_below (tr_steps t) r)" "sr_wait c = Some w" for c w
  proof -
    have "dict_ok (tr_steps t)" using p by (simp add: t placed_def dict_ok_def)
    from iffD1 [OF steps_below_mem [OF this] cw(1)] obtain k where "(k, c) \<in> set (tr_steps t)" by (elim bexE)
    then show ?thesis unfolding t by (rule finished_wait_ge [OF _ cw(2)])
  qed
  then have "0 \<le> rr_wait r" unfolding wait by (intro known_waits_ge) blast
  then show ?thesis using run start ends exec by blast
qed

theorem run_timeline_truthful_witness:
  "\<exists>t i r run. build_execution_tree demo_spans = Inr t \<and> (i, r) \<in> set (tr_runs t) \<and> rr_end r = 9 \<and>
     span_at demo_spans i run Run_Role \<and> 9 = Max {span_end s |s. in_run demo_spans run s}"
proof -
  obtain t where t: "build_execution_tree demo_spans = Inr t" using demo_built by blast
  have "map (\<lambda>(i, r). (rr_steps r, rr_end r)) (tr_runs t) = [([''0000000000000002''], 9)]"
    using demo_tree unfolding t by simp
  then obtain i r where r: "(i, r) \<in> set (tr_runs t)" "rr_end r = 9" by (cases "tr_runs t") auto
  from run_timeline_truthful [OF demo_read t r(1)] obtain run where run: "span_at demo_spans i run Run_Role"
    "rr_end r = Max {span_end s |s. in_run demo_spans run s}" by (elim exE conjE)
  have "9 = Max {span_end s |s. in_run demo_spans run s}" using run(2) r(2) by simp
  then show ?thesis using t r run(1) by (intro exI conjI)
qed

end
