(* ===== verification/Live_Reconciliation.thy ===== *)
theory Live_Reconciliation
  imports Outside Py_Text
begin

text \<open>
  \<^verbatim>\<open>live_reconciliation.py\<close>: the live state of one watched Run, folded from its lifecycle events
  (\<^verbatim>\<open>LiveRun.apply\<close>), the facts shown for the Runs that are not recorded yet (\<^verbatim>\<open>reconcile\<close>) and the
  polling until every completed Run is recorded or given up on (\<^verbatim>\<open>await_convergence\<close>).
\<close>

definition LIVE :: string where "LIVE = ''live''"
definition INGESTION_PENDING :: string where "INGESTION_PENDING = ''ingestion_pending''"
definition INGESTION_FAILED :: string where "INGESTION_FAILED = ''ingestion_failed''"

definition TERMINAL_STATUSES :: "string list" where
  "TERMINAL_STATUSES = [''success'', ''error'', ''timeout'', ''interrupted'']"

definition DEFAULT_PENDING_AFTER :: seconds where "DEFAULT_PENDING_AFTER = 5"
definition DEFAULT_FAILED_AFTER :: seconds where "DEFAULT_FAILED_AFTER = 300"

record live_run =
  lr_run_id :: string
  lr_thread_id :: string
  lr_graph_id :: "string option"
  lr_assistant_id :: "string option"
  lr_subject :: "string option"
  lr_status :: json
  lr_last_seq :: int
  lr_completed_at :: "seconds option"

definition new_live_run ::
  "string \<Rightarrow> string \<Rightarrow> string option \<Rightarrow> string option \<Rightarrow> string option \<Rightarrow> exn + live_run" where
  "new_live_run run_id thread_id graph_id assistant_id subject =
     (if blank run_id then Inl (Exn PyValueError ''run_id must be a non-empty string'')
      else if blank thread_id then Inl (Exn PyValueError ''thread_id must be a non-empty string'')
      else Inr \<lparr>lr_run_id = run_id, lr_thread_id = thread_id, lr_graph_id = graph_id,
                lr_assistant_id = assistant_id, lr_subject = subject, lr_status = JStr ''pending'',
                lr_last_seq = -1, lr_completed_at = None\<rparr>)"

section \<open>The sequence number of an event id\<close>

text \<open>\<^verbatim>\<open>_sequence\<close>\<close>

definition sequence_of :: "string \<Rightarrow> int" where
  "sequence_of event_id =
     (if event_id = [] then 0
      else case int_of_str 10 (rsplit_last ''_event_'' event_id) of None \<Rightarrow> 0 | Some n \<Rightarrow> n)"

section \<open>Folding lifecycle events\<close>

record life_event =
  ev_name :: string
  ev_data :: json
  ev_id :: "string option"
  ev_now :: seconds

definition complete_once :: "seconds \<Rightarrow> live_run \<Rightarrow> live_run" where
  "complete_once now lr = (if lr_completed_at lr = None then lr\<lparr>lr_completed_at := Some now\<rparr> else lr)"

text \<open>What an event that is not a replay does.\<close>

definition fold_event :: "life_event \<Rightarrow> (live_run, unit) prog" where
  "fold_event ev lr =
     (if ev_name ev = ''end'' then
        (case get_attr (ev_data ev) ''status'' of
           Inl x \<Rightarrow> (Inl x, lr)
         | Inr st \<Rightarrow> (Inr (), complete_once (ev_now ev) (lr\<lparr>lr_status := or_default st (JStr ''success'')\<rparr>)))
      else if ev_name ev = ''error'' then
        (Inr (), complete_once (ev_now ev) (lr\<lparr>lr_status := JStr ''error''\<rparr>))
      else if ev_name ev = ''metadata'' \<and> lr_status lr = JStr ''pending'' then
        (Inr (), lr\<lparr>lr_status := JStr ''running''\<rparr>)
      else (Inr (), lr))"

definition replayed :: "life_event \<Rightarrow> live_run \<Rightarrow> bool" where
  "replayed ev lr = (case ev_id ev of None \<Rightarrow> False | Some i \<Rightarrow> sequence_of i \<le> lr_last_seq lr)"

definition advance :: "life_event \<Rightarrow> live_run \<Rightarrow> live_run" where
  "advance ev lr = (case ev_id ev of None \<Rightarrow> lr | Some i \<Rightarrow> lr\<lparr>lr_last_seq := sequence_of i\<rparr>)"

definition apply_event :: "life_event \<Rightarrow> (live_run, unit) prog" where
  "apply_event ev lr = (if replayed ev lr then (Inr (), lr) else fold_event ev (advance ev lr))"

text \<open>Membership in a frozenset of strings needs a hashable value.\<close>

definition is_terminal :: "live_run \<Rightarrow> exn + bool" where
  "is_terminal lr =
     (case lr_status lr of
        JStr s \<Rightarrow> Inr (s \<in> set TERMINAL_STATUSES)
      | JArr _ \<Rightarrow> Inl (Exn PyTypeError ''unhashable type'')
      | JObj _ \<Rightarrow> Inl (Exn PyTypeError ''unhashable type'')
      | _ \<Rightarrow> Inr False)"

section \<open>Projecting live Runs\<close>

record live_view =
  lv_run_id :: string
  lv_thread_id :: string
  lv_graph_id :: "string option"
  lv_assistant_id :: "string option"
  lv_subject :: "string option"
  lv_status :: json
  lv_source :: string
  lv_seconds :: "seconds option"

definition view_source :: "seconds \<Rightarrow> seconds \<Rightarrow> seconds \<Rightarrow> live_run \<Rightarrow> string \<times> seconds option" where
  "view_source now pending_after failed_after lr =
     (case lr_completed_at lr of
        None \<Rightarrow> (LIVE, None)
      | Some c \<Rightarrow>
          (let s = max 0 (now - c) in
           (if failed_after \<le> s then INGESTION_FAILED else if pending_after \<le> s then INGESTION_PENDING else LIVE,
            Some s)))"

definition view_of :: "seconds \<Rightarrow> seconds \<Rightarrow> seconds \<Rightarrow> string \<Rightarrow> live_run \<Rightarrow> live_view" where
  "view_of now pending_after failed_after run_id lr =
     (case view_source now pending_after failed_after lr of
        (source, s) \<Rightarrow>
          \<lparr>lv_run_id = run_id, lv_thread_id = lr_thread_id lr, lv_graph_id = lr_graph_id lr,
           lv_assistant_id = lr_assistant_id lr, lv_subject = lr_subject lr, lv_status = lr_status lr,
           lv_source = source, lv_seconds = s\<rparr>)"

definition reconcile ::
  "live_run dict \<Rightarrow> string list \<Rightarrow> seconds \<Rightarrow> seconds \<Rightarrow> seconds \<Rightarrow> live_view dict" where
  "reconcile live recorded now pending_after failed_after =
     map (\<lambda>(run_id, lr). (run_id, view_of now pending_after failed_after run_id lr))
       (filter (\<lambda>(run_id, lr). run_id \<notin> set recorded) live)"

section \<open>Waiting for the archive\<close>

definition unresolved :: "live_run dict \<Rightarrow> live_view dict \<Rightarrow> string list" where
  "unresolved live views =
     map fst (filter (\<lambda>(run_id, lr). lr_completed_at lr \<noteq> None \<and>
        (case map_of views run_id of None \<Rightarrow> False | Some v \<Rightarrow> lv_source v \<noteq> INGESTION_FAILED)) live)"

text \<open>
  The generator as the list of the views it yields and the exception that ends it, if any.
  \<open>recorded k\<close> is what the \<open>k\<close>-th read of the archive gives. The loop has no bound of its own: with an
  interval of zero and a clock that stands still it never returns.
\<close>

partial_function (option) await_convergence ::
  "env \<Rightarrow> (nat \<Rightarrow> exn + string list) \<Rightarrow> seconds \<Rightarrow> seconds \<Rightarrow> seconds \<Rightarrow> live_run dict \<Rightarrow> nat \<Rightarrow> outside \<Rightarrow>
   (live_view dict list \<times> exn option) option" where
  "await_convergence e recorded poll_interval pending_after failed_after live k u =
     (case recorded k of
        Inl x \<Rightarrow> Some ([], Some x)
      | Inr ids \<Rightarrow>
          (let views = reconcile live ids (fst (monotonic e u)) pending_after failed_after in
           if unresolved live views = [] then Some ([views], None)
           else if poll_interval < 0 then Some ([views], Some (Exn PyValueError ''sleep length must be non-negative''))
           else
             Option.bind (await_convergence e recorded poll_interval pending_after failed_after live (Suc k)
                (sleep poll_interval (snd (monotonic e u))))
               (\<lambda>rest. Some (views # fst rest, snd rest))))"

declare await_convergence.simps [code]

section \<open>What the operations do\<close>

lemma complete_once_simps [simp]:
  "lr_completed_at (complete_once now lr) = (case lr_completed_at lr of None \<Rightarrow> Some now | Some c \<Rightarrow> Some c)"
  "lr_last_seq (complete_once now lr) = lr_last_seq lr"
  "lr_status (complete_once now lr) = lr_status lr"
  by (simp_all add: complete_once_def split: option.split)

lemma advance_simps [simp]:
  "lr_completed_at (advance ev lr) = lr_completed_at lr" "lr_status (advance ev lr) = lr_status lr"
  by (simp_all add: advance_def split: option.split)

lemma fold_event_seq: "lr_last_seq (snd (fold_event ev lr)) = lr_last_seq lr"
  by (simp add: fold_event_def split: sum.split)

lemma apply_event_seq:
  "lr_last_seq (snd (apply_event ev lr)) = (case ev_id ev of None \<Rightarrow> lr_last_seq lr
     | Some i \<Rightarrow> max (lr_last_seq lr) (sequence_of i))"
  by (auto simp: apply_event_def replayed_def advance_def fold_event_seq split: option.split)

lemma apply_event_replayed: "replayed ev lr \<Longrightarrow> apply_event ev lr = (Inr (), lr)"
  by (simp add: apply_event_def)

definition identity_of :: "live_run \<Rightarrow> string \<times> string \<times> string option \<times> string option \<times> string option" where
  "identity_of lr = (lr_run_id lr, lr_thread_id lr, lr_graph_id lr, lr_assistant_id lr, lr_subject lr)"

lemma fold_event_keeps:
  "identity_of (snd (fold_event ev lr)) = identity_of lr"
  "lr_completed_at lr = Some c \<Longrightarrow> lr_completed_at (snd (fold_event ev lr)) = Some c"
  by (simp_all add: fold_event_def identity_of_def complete_once_def split: sum.split)

lemma apply_event_keeps:
  "identity_of (snd (apply_event ev lr)) = identity_of lr"
  "lr_last_seq lr \<le> lr_last_seq (snd (apply_event ev lr))"
  "lr_completed_at lr = Some c \<Longrightarrow> lr_completed_at (snd (apply_event ev lr)) = Some c"
proof -
  have "identity_of (advance ev lr) = identity_of lr"
    by (simp add: identity_of_def advance_def split: option.split)
  then show "identity_of (snd (apply_event ev lr)) = identity_of lr"
    by (simp add: apply_event_def fold_event_keeps)
  show "lr_last_seq lr \<le> lr_last_seq (snd (apply_event ev lr))"
    by (simp add: apply_event_seq split: option.split)
  show "lr_completed_at lr = Some c \<Longrightarrow> lr_completed_at (snd (apply_event ev lr)) = Some c"
    by (simp add: apply_event_def fold_event_keeps)
qed

text \<open>A stream of events, folded in the order they arrive; an exception ends the fold.\<close>

definition apply_events :: "life_event list \<Rightarrow> (live_run, unit) prog" where
  "apply_events evs = for_each evs apply_event"

lemma apply_events_simps [simp]:
  "apply_events [] = ret ()"
  "apply_events (ev # evs) = andthen (apply_event ev) (\<lambda>_. apply_events evs)"
  by (simp_all add: apply_events_def)

lemma apply_events_append: "apply_events (xs @ ys) = andthen (apply_events xs) (\<lambda>_. apply_events ys)"
  by (induction xs) (simp_all add: andthen_assoc, simp add: fun_eq_iff andthen_def)

lemma apply_events_seq: "lr_last_seq lr \<le> lr_last_seq (snd (apply_events evs lr))"
proof (induction evs arbitrary: lr)
  case (Cons ev evs)
  show ?case
    using Cons [of "snd (apply_event ev lr)"] apply_event_keeps(2) [of lr ev]
    by (auto simp: andthen_def split: prod.splits sum.splits)
qed simp

lemma apply_events_covers:
  assumes "apply_events evs lr = (Inr (), lr')" "ev \<in> set evs" "ev_id ev = Some i"
  shows "sequence_of i \<le> lr_last_seq lr'"
  using assms
proof (induction evs arbitrary: lr)
  case (Cons x evs)
  from Cons.prems(1) obtain lr1 where one: "apply_event x lr = (Inr (), lr1)" and rest: "apply_events evs lr1 = (Inr (), lr')"
    by (auto simp: andthen_def split: prod.splits sum.splits)
  show ?case
  proof (cases "ev = x")
    case True
    have "sequence_of i \<le> lr_last_seq lr1"
      using apply_event_seq [of x lr] one Cons.prems(3) True by simp
    then show ?thesis using apply_events_seq [of lr1 evs] rest by simp
  next
    case False
    then show ?thesis using Cons.IH [OF rest] Cons.prems by simp
  qed
qed simp

lemma apply_events_replayed:
  "(\<And>ev. ev \<in> set evs \<Longrightarrow> replayed ev lr) \<Longrightarrow> apply_events evs lr = (Inr (), lr)"
  by (induction evs) (simp_all add: apply_event_replayed andthen_def)

lemma map_of_reconcile:
  "map_of (reconcile live recorded now p f) run_id =
     (if run_id \<in> set recorded then None else map_option (view_of now p f run_id) (map_of live run_id))"
  by (induction live) (auto simp: reconcile_def)

lemma lv_source_view:
  "lv_source (view_of now p f i lr) = INGESTION_FAILED \<longleftrightarrow> (\<exists>c. lr_completed_at lr = Some c \<and> f \<le> max 0 (now - c))"
  by (cases "lr_completed_at lr")
    (simp_all add: view_of_def view_source_def Let_def INGESTION_FAILED_def INGESTION_PENDING_def LIVE_def)

lemma unresolved_reconcile:
  assumes "dict_ok live"
  shows "i \<in> set (unresolved live (reconcile live recorded now p f)) \<longleftrightarrow>
    i \<notin> set recorded \<and> (\<exists>lr c. map_of live i = Some lr \<and> lr_completed_at lr = Some c \<and> max 0 (now - c) < f)"
proof -
  have mem: "(i, lr) \<in> set live \<longleftrightarrow> map_of live i = Some lr" for lr
    using assms by (simp add: dict_ok_def)
  have "i \<in> set (unresolved live (reconcile live recorded now p f)) \<longleftrightarrow>
      (\<exists>lr. (i, lr) \<in> set live \<and> lr_completed_at lr \<noteq> None \<and>
        (case map_of (reconcile live recorded now p f) i of None \<Rightarrow> False | Some v \<Rightarrow> lv_source v \<noteq> INGESTION_FAILED))"
    by (force simp: unresolved_def)
  also have "\<dots> \<longleftrightarrow> (\<exists>lr. map_of live i = Some lr \<and> lr_completed_at lr \<noteq> None \<and> i \<notin> set recorded \<and>
        lv_source (view_of now p f i lr) \<noteq> INGESTION_FAILED)"
    by (auto simp: mem map_of_reconcile)
  also have "\<dots> \<longleftrightarrow> i \<notin> set recorded \<and>
      (\<exists>lr c. map_of live i = Some lr \<and> lr_completed_at lr = Some c \<and> max 0 (now - c) < f)"
    unfolding lv_source_view by (auto simp: not_le)
  finally show ?thesis .
qed

text \<open>A bound on the completion times: what the loop's time budget is measured against.\<close>

definition last_completion :: "live_run dict \<Rightarrow> seconds \<Rightarrow> bool" where
  "last_completion live c \<longleftrightarrow>
     list_all (\<lambda>(i, lr). case lr_completed_at lr of None \<Rightarrow> True | Some t \<Rightarrow> t \<le> c) live"

lemma last_completion_exists: "\<exists>c. last_completion live c"
proof (induction live)
  case (Cons x live)
  then obtain c where c: "last_completion live c" by blast
  obtain i lr where x: "x = (i, lr)" by fastforce
  define d where "d = (case lr_completed_at lr of None \<Rightarrow> c | Some t \<Rightarrow> max c t)"
  have "last_completion live d"
    using c by (auto simp: last_completion_def list_all_iff d_def split: option.splits)
  then have "last_completion (x # live) d"
    by (simp add: last_completion_def x) (simp add: d_def split: option.split)
  then show ?case ..
qed (simp add: last_completion_def)

lemma unresolved_early:
  assumes "dict_ok live" "last_completion live c" "unresolved live (reconcile live recorded now p f) \<noteq> []"
  shows "now < c + f"
proof -
  obtain i where "i \<in> set (unresolved live (reconcile live recorded now p f))"
    using assms(3) by (meson ex_in_conv set_empty)
  then obtain lr t where "map_of live i = Some lr" "lr_completed_at lr = Some t" "max 0 (now - t) < f"
    using unresolved_reconcile [OF assms(1)] by blast
  moreover from this have "t \<le> c"
    using assms(2) by (fastforce simp: last_completion_def list_all_iff dest: map_of_SomeD)
  ultimately show ?thesis by simp
qed

text \<open>The loop ends, and either an archive read raised or its last view leaves nothing to wait for.\<close>

definition converged :: "live_run dict \<Rightarrow> seconds \<Rightarrow> seconds \<Rightarrow> live_view dict list \<Rightarrow> bool" where
  "converged live p f views \<longleftrightarrow> (\<exists>vs ids now. views = vs @ [reconcile live ids now p f] \<and>
     unresolved live (reconcile live ids now p f) = [])"

lemma converged_Cons: "converged live p f vs \<Longrightarrow> converged live p f (v # vs)"
  unfolding converged_def by (metis append_Cons)

lemma await_returns:
  assumes "dict_ok live" "last_completion live c" "0 < step"
  shows "\<exists>vs x. await_convergence e recorded step p f live k u = Some (vs, x) \<and>
    (x = None \<longrightarrow> converged live p f vs) \<and> length vs \<le> Suc (rounds_left step (c + f) u) \<and>
    (\<forall>y. x = Some y \<longrightarrow> (\<exists>j. recorded j = Inl y))"
proof (induction "rounds_left step (c + f) u" arbitrary: k u rule: less_induct)
  case less
  show ?case
  proof (cases "recorded k")
    case (Inl y)
    then show ?thesis by (subst await_convergence.simps) auto
  next
    case (Inr ids)
    define now where "now = fst (monotonic e u)"
    let ?views = "reconcile live ids now p f"
    show ?thesis
    proof (cases "unresolved live ?views = []")
      case True
      then have "converged live p f [?views]" by (auto simp: converged_def)
      then show ?thesis using True Inr by (subst await_convergence.simps) (simp add: now_def Let_def)
    next
      case False
      define u' where "u' = sleep step (snd (monotonic e u))"
      have early: "now < c + f" by (rule unresolved_early [OF assms(1,2) False])
      have fewer: "rounds_left step (c + f) u' < rounds_left step (c + f) u"
        using rounds_left_decreases [OF assms(3) _ early, of u u'] monotonic_ge [of u e] assms(3)
        by (simp add: u'_def now_def)
      from less [OF fewer, of "Suc k"] obtain vs x where rest:
        "await_convergence e recorded step p f live (Suc k) u' = Some (vs, x)"
        and over: "x = None \<longrightarrow> converged live p f vs" "length vs \<le> Suc (rounds_left step (c + f) u')"
          "\<forall>y. x = Some y \<longrightarrow> (\<exists>j. recorded j = Inl y)" by blast
      have "await_convergence e recorded step p f live k u = Some (?views # vs, x)"
        using Inr False assms(3) rest by (subst await_convergence.simps) (simp add: Let_def now_def [symmetric] u'_def [symmetric])
      then show ?thesis using over fewer converged_Cons by fastforce
    qed
  qed
qed

section \<open>Properties\<close>

text \<open>
  C6. What a reconnect replays is invisible: when every replayed event carries the id of an event that was
  already delivered, folding the stream with the replay in the middle leaves the Run exactly as folding it
  without, exceptions included.
\<close>

theorem replay_is_invisible:
  assumes "\<forall>ev \<in> set replay. ev_id ev \<noteq> None \<and> ev_id ev \<in> ev_id ` set evs"
  shows "apply_events (evs @ replay @ rest) lr = apply_events (evs @ rest) lr"
proof (cases "apply_events evs lr")
  case (Pair r lr')
  show ?thesis
  proof (cases r)
    case (Inl x)
    then show ?thesis using Pair by (simp add: apply_events_append andthen_def)
  next
    case (Inr v)
    then have go: "apply_events evs lr = (Inr (), lr')" using Pair by simp
    have "replayed ev lr'" if "ev \<in> set replay" for ev
    proof -
      have "ev_id ev \<noteq> None" "ev_id ev \<in> ev_id ` set evs" using assms that by blast+
      then obtain i ev' where "ev_id ev = Some i" "ev' \<in> set evs" "ev_id ev' = Some i"
        by (metis imageE option.exhaust)
      then show ?thesis using apply_events_covers [OF go, of ev' i] by (simp add: replayed_def)
    qed
    then have "apply_events replay lr' = (Inr (), lr')" by (rule apply_events_replayed)
    then show ?thesis using go by (simp add: apply_events_append andthen_def)
  qed
qed

definition demo_run :: live_run where
  "demo_run = \<lparr>lr_run_id = ''r'', lr_thread_id = ''t'', lr_graph_id = None, lr_assistant_id = None,
     lr_subject = None, lr_status = JStr ''pending'', lr_last_seq = -1, lr_completed_at = None\<rparr>"

definition demo_event :: "string \<Rightarrow> string \<Rightarrow> seconds \<Rightarrow> life_event" where
  "demo_event name i now = \<lparr>ev_name = name, ev_data = JObj [], ev_id = Some i, ev_now = now\<rparr>"

theorem replay_is_invisible_witness:
  "apply_events ([demo_event ''metadata'' ''r_event_0'' 1, demo_event ''end'' ''r_event_4'' 2] @
      [demo_event ''metadata'' ''r_event_0'' 5, demo_event ''end'' ''r_event_4'' 6] @ []) demo_run =
   (Inr (), demo_run\<lparr>lr_status := JStr ''success'', lr_last_seq := 4, lr_completed_at := Some 2\<rparr>)"
proof -
  have seqs: "sequence_of ''r_event_0'' = 0" "sequence_of ''r_event_4'' = 4" by code_simp+
  have "apply_events ([demo_event ''metadata'' ''r_event_0'' 1, demo_event ''end'' ''r_event_4'' 2] @ []) demo_run =
      (Inr (), demo_run\<lparr>lr_status := JStr ''success'', lr_last_seq := 4, lr_completed_at := Some 2\<rparr>)"
    by (simp add: demo_event_def demo_run_def apply_event_def replayed_def advance_def seqs fold_event_def
        complete_once_def andthen_def get_attr_def or_default_def)
  then show ?thesis
    by (subst replay_is_invisible) (auto simp: demo_event_def)
qed

text \<open>
  What is shown of a live Run: nothing once it is recorded; otherwise its own identity and status,
  as live while it has not completed, and then live, pending or failed by how long ago it completed.
\<close>

theorem recorded_run_replaces_live:
  assumes "pending_after \<le> failed_after"
  shows "case map_of (reconcile live recorded now pending_after failed_after) run_id of
      None \<Rightarrow> run_id \<in> set recorded \<or> map_of live run_id = None
    | Some v \<Rightarrow> run_id \<notin> set recorded \<and>
        (\<exists>lr. map_of live run_id = Some lr \<and> lv_run_id v = run_id \<and> lv_status v = lr_status lr \<and>
          (case lr_completed_at lr of
             None \<Rightarrow> lv_source v = LIVE \<and> lv_seconds v = None
           | Some c \<Rightarrow> lv_seconds v = Some (max 0 (now - c)) \<and>
               (lv_source v = INGESTION_FAILED \<longleftrightarrow> failed_after \<le> max 0 (now - c)) \<and>
               (lv_source v = LIVE \<longleftrightarrow> max 0 (now - c) < pending_after)))"
proof (cases "run_id \<in> set recorded \<or> map_of live run_id = None")
  case True
  then show ?thesis by (auto simp: map_of_reconcile)
next
  case False
  then obtain lr where lr: "map_of live run_id = Some lr" by blast
  have src: "(INGESTION_FAILED = LIVE) = False" "(INGESTION_PENDING = LIVE) = False"
    "(INGESTION_PENDING = INGESTION_FAILED) = False" "(LIVE = INGESTION_FAILED) = False"
    by (simp_all add: LIVE_def INGESTION_PENDING_def INGESTION_FAILED_def)
  show ?thesis
    using False lr assms
    by (cases "lr_completed_at lr") (auto simp: map_of_reconcile view_of_def view_source_def Let_def src)
qed

theorem recorded_run_replaces_live_witness:
  "map_of (reconcile [(''r'', demo_run), (''s'', demo_run)] [''r''] 9 5 300) ''r'' = None \<and>
   lv_source (the (map_of (reconcile [(''r'', demo_run), (''s'', demo_run)] [''r''] 9 5 300) ''s'')) = LIVE"
proof -
  obtain v where v: "map_of (reconcile [(''r'', demo_run), (''s'', demo_run)] [''r''] 9 5 300) ''s'' = Some v"
    by (simp add: map_of_reconcile)
  have "lv_source v = LIVE"
    using recorded_run_replaces_live [of 5 300 "''s''" "[''r'']" "[(''r'', demo_run), (''s'', demo_run)]" 9] v
    by (auto simp: demo_run_def)
  then show ?thesis using v by (simp add: map_of_reconcile)
qed

text \<open>
  Waiting for the archive always ends when the interval is positive: after a number of polls bounded
  by the failure deadline of the last Run that completed, the generator has returned, or a read of the
  archive raised; and after its last view every completed Run is recorded or shown as failed.
\<close>

theorem waiting_for_archive_ends:
  assumes "dict_ok live" "0 < poll_interval" "last_completion live c"
  shows "\<exists>views x. await_convergence e recorded poll_interval pending_after failed_after live 0 u = Some (views, x) \<and>
    length views \<le> Suc (rounds_left poll_interval (c + failed_after) u) \<and>
    (case x of
       Some y \<Rightarrow> \<exists>k. recorded k = Inl y
     | None \<Rightarrow> \<exists>ids now. views \<noteq> [] \<and> last views = reconcile live ids now pending_after failed_after \<and>
         (\<forall>i lr. map_of live i = Some lr \<and> lr_completed_at lr \<noteq> None \<longrightarrow>
            i \<in> set ids \<or> (\<exists>v. map_of (last views) i = Some v \<and> lv_source v = INGESTION_FAILED)))"
proof -
  obtain views x where out: "await_convergence e recorded poll_interval pending_after failed_after live 0 u = Some (views, x)"
    and fin: "x = None \<longrightarrow> converged live pending_after failed_after views"
      "length views \<le> Suc (rounds_left poll_interval (c + failed_after) u)"
      "\<forall>y. x = Some y \<longrightarrow> (\<exists>j. recorded j = Inl y)"
    using await_returns [OF assms(1,3,2), of e recorded pending_after failed_after 0 u] by metis
  show ?thesis
  proof (cases x)
    case None
    with fin obtain vs ids now where last: "views = vs @ [reconcile live ids now pending_after failed_after]"
      and none: "unresolved live (reconcile live ids now pending_after failed_after) = []"
      unfolding converged_def by blast
    have "i \<in> set ids \<or> (\<exists>v. map_of (last views) i = Some v \<and> lv_source v = INGESTION_FAILED)"
      if "map_of live i = Some lr" "lr_completed_at lr = Some t" for i lr t
      using unresolved_reconcile [OF assms(1), of i ids now pending_after failed_after] none that
      by (auto simp: last map_of_reconcile lv_source_view not_less)
    with last out fin(2) None show ?thesis
      by (intro exI [of _ views] exI [of _ None]) fastforce
  next
    case (Some y)
    with out fin show ?thesis by auto
  qed
qed

theorem waiting_for_archive_ends_witness:
  "\<exists>views x. await_convergence \<lparr>server = \<lambda>_ _. Refused, start_process = \<lambda>_ _ _. Inr 1, clock_drift = \<lambda>_. 0,
       format_number = \<lambda>_. []\<rparr> (\<lambda>_. Inr []) 1 5 300 [(''r'', demo_run\<lparr>lr_completed_at := Some 0\<rparr>)] 0
       \<lparr>trace = [], mono_now = 0, clock_reads = 0\<rparr> = Some (views, x) \<and>
     length views \<le> Suc (rounds_left 1 300 \<lparr>trace = [], mono_now = 0, clock_reads = 0\<rparr>)"
  using waiting_for_archive_ends [of "[(''r'', demo_run\<lparr>lr_completed_at := Some 0\<rparr>)]" 1 0
      "\<lparr>server = \<lambda>_ _. Refused, start_process = \<lambda>_ _ _. Inr 1, clock_drift = \<lambda>_. 0, format_number = \<lambda>_. []\<rparr>"
      "\<lambda>_. Inr []" 5 300 "\<lparr>trace = [], mono_now = 0, clock_reads = 0\<rparr>"]
  by (simp add: dict_ok_def last_completion_def) blast

end
