(* ===== verification/Viewer_Catalog.thy ===== *)
theory Viewer_Catalog
  imports Viewer_Topology Tree_Facts Live_Reconciliation "HOL-Library.Multiset"
begin

text \<open>
  The catalog half of \<^verbatim>\<open>viewer.py\<close>: every connected or recorded Graph with its topology, its recorded and
  its live execution. A Run of the execution tree is carried with the four strings that identify it, which
  the archive reader has already required; a value of another type is a TypeError here.
\<close>

section \<open>Reduced views of Steps\<close>

datatype step_view = Step_View
  (sv_node: json) (sv_outcome: json) (sv_resumed_from: "string option") (sv_repeated: bool)
  (sv_wait: "int option") (sv_awaiting: bool) (sv_attempts: "(json \<times> json option \<times> json) list")
  (sv_children: "step_view list")

text \<open>\<^verbatim>\<open>_step_view\<close>; the fuel bounds the depth of the nesting.\<close>

primrec view_step :: "nat \<Rightarrow> step_rec dict \<Rightarrow> step_rec \<Rightarrow> step_view" where
  "view_step 0 steps s = Step_View (sr_node s) (sr_outcome s) (sr_resumed_from s) (sr_repeated s) (sr_wait s)
     (sr_awaiting s) (map (\<lambda>a. (ar_number a, ar_tier a, ar_outcome a)) (sr_attempts s)) []"
| "view_step (Suc n) steps s = Step_View (sr_node s) (sr_outcome s) (sr_resumed_from s) (sr_repeated s) (sr_wait s)
     (sr_awaiting s) (map (\<lambda>a. (ar_number a, ar_tier a, ar_outcome a)) (sr_attempts s))
     (map (view_step n steps) (List.map_filter (map_of steps) (sr_children s)))"

section \<open>Grouping\<close>

text \<open>\<^verbatim>\<open>d.setdefault(k, []).append(x)\<close>\<close>

definition append_at :: "'k \<Rightarrow> 'v \<Rightarrow> ('k \<times> 'v list) list \<Rightarrow> ('k \<times> 'v list) list" where
  "append_at k x d = AList.update k ((case map_of d k of None \<Rightarrow> [] | Some xs \<Rightarrow> xs) @ [x]) d"

definition get_list :: "('k \<times> 'v list) list \<Rightarrow> 'k \<Rightarrow> 'v list" where
  "get_list d k = (case map_of d k of None \<Rightarrow> [] | Some xs \<Rightarrow> xs)"

section \<open>Runs and Subjects\<close>

record run_entry =
  re_graph :: string
  re_run :: string
  re_subject_type :: string
  re_subject_id :: string
  re_rec :: run_rec

text \<open>
  The identities of a recorded Run and the Node of a recorded Step are strings. In an archive the reader accepts
  they always are, so the TypeError of this reading never arises there (\<open>accepted_archive_is_shown\<close>).
\<close>

definition text_of :: "json \<Rightarrow> exn + string" where
  "text_of j = (case j of JStr s \<Rightarrow> Inr s | _ \<Rightarrow> Inl (Exn PyTypeError ''string expected''))"

definition run_entry_of :: "string \<times> run_rec \<Rightarrow> exn + run_entry" where
  "run_entry_of ir =
     (let r = snd ir in
      follow (text_of (rr_graph_id r)) (\<lambda>g.
      follow (text_of (rr_run_id r)) (\<lambda>run_id.
      follow (text_of (rr_subject_type r)) (\<lambda>st.
      follow (text_of (rr_subject_id r)) (\<lambda>si.
        Inr \<lparr>re_graph = g, re_run = run_id, re_subject_type = st, re_subject_id = si, re_rec = r\<rparr>)))))"

record run_view =
  rv_run :: string
  rv_execution :: int
  rv_wait :: int
  rv_incomplete :: bool
  rv_steps :: "step_view list"

record subject_view =
  uv_type :: string
  uv_id :: string
  uv_runs :: "run_view list"

text \<open>The Steps of \<^verbatim>\<open>run["steps"]\<close>.\<close>

definition top_steps :: "step_rec dict \<Rightarrow> run_entry \<Rightarrow> step_rec list" where
  "top_steps steps r = List.map_filter (map_of steps) (rr_steps (re_rec r))"

definition view_run :: "step_rec dict \<Rightarrow> run_entry \<Rightarrow> run_view" where
  "view_run steps r =
     \<lparr>rv_run = re_run r, rv_execution = rr_execution (re_rec r), rv_wait = rr_wait (re_rec r),
      rv_incomplete = rr_incomplete (re_rec r), rv_steps = map (view_step (length steps) steps) (top_steps steps r)\<rparr>"

definition subject_key :: "run_entry \<Rightarrow> string \<times> string" where
  "subject_key r = (re_subject_type r, re_subject_id r)"

definition subjects_view :: "step_rec dict \<Rightarrow> run_entry list \<Rightarrow> subject_view list" where
  "subjects_view steps graph_runs =
     map (\<lambda>((t, i), rs). \<lparr>uv_type = t, uv_id = i, uv_runs = rs\<rparr>)
       (sort_key fst (fold (\<lambda>r. append_at (subject_key r) (view_run steps r)) graph_runs []))"

section \<open>One Graph\<close>

record graph_connection =
  gc_alias :: string
  gc_endpoint :: string
  gc_reachable :: bool
  gc_graph_map :: "string dict"

record graph_view =
  gv_graph_id :: string
  gv_alias :: "string option"
  gv_reachable :: "bool option"
  gv_status :: shown_status
  gv_nodes :: "string list"
  gv_structure :: "json option"
  gv_subgraphs :: "json dict"
  gv_runs :: "run_entry list"
  gv_warnings :: "string list"
  gv_unmatched :: "string list"
  gv_ambiguous :: "string list"
  gv_subjects :: "subject_view list"
  gv_live :: "live_view list"

text \<open>\<^verbatim>\<open>tuple(sorted(recorded_nodes - set(node_ids)))\<close>\<close>

definition unmatched_nodes :: "step_rec dict \<Rightarrow> correlation \<Rightarrow> run_entry list \<Rightarrow> exn + string list" where
  "unmatched_nodes steps c graph_runs =
     (if \<not> co_correlated c then Inr []
      else follow (map_all (text_of \<circ> sr_node) (concat (map (top_steps steps) graph_runs))) (\<lambda>recorded.
        Inr (sort (filter (\<lambda>n. n \<notin> set (co_node_ids c)) (remdups recorded)))))"

definition view_graph ::
  "step_rec dict \<Rightarrow> string \<Rightarrow> graph_connection option \<Rightarrow> correlation \<Rightarrow> run_entry list \<Rightarrow> live_view list \<Rightarrow>
   string list \<Rightarrow> exn + graph_view" where
  "view_graph steps graph_id connection c graph_runs live_runs ambiguous_aliases =
     follow (unmatched_nodes steps c graph_runs) (\<lambda>unmatched.
       Inr \<lparr>gv_graph_id = graph_id, gv_alias = map_option gc_alias connection,
             gv_reachable = map_option gc_reachable connection, gv_status = co_status c,
             gv_nodes = co_node_ids c, gv_structure = co_structure c, gv_subgraphs = co_subgraphs c,
             gv_runs = graph_runs, gv_warnings = co_warnings c, gv_unmatched = unmatched,
             gv_ambiguous = ambiguous_aliases, gv_subjects = subjects_view steps graph_runs, gv_live = live_runs\<rparr>)"

section \<open>The catalog\<close>

record probed_connection =
  pc_endpoint :: string
  pc_reachable :: bool
  pc_graphs :: "string list"
  pc_graph_map :: "string dict"

text \<open>The live Runs that have a Graph and no record, by Graph.\<close>

definition placeable :: "string list \<Rightarrow> string \<times> live_view \<Rightarrow> bool" where
  "placeable recorded_run_ids rv \<longleftrightarrow> fst rv \<notin> set recorded_run_ids \<and> lv_graph_id (snd rv) \<notin> {None, Some []}"

definition live_graph :: "live_view \<Rightarrow> string" where
  "live_graph v = (case lv_graph_id v of None \<Rightarrow> [] | Some g \<Rightarrow> g)"

definition live_by_graph :: "string list \<Rightarrow> live_view dict \<Rightarrow> (string \<times> live_view list) list" where
  "live_by_graph recorded_run_ids live =
     map (\<lambda>(g, vs). (g, sort_key lv_run_id vs))
       (fold (\<lambda>v. append_at (live_graph v) v) (map snd (filter (placeable recorded_run_ids) live)) [])"

definition offered :: "probed_connection dict \<Rightarrow> (string \<times> graph_connection) list" where
  "offered connections = concat (map (\<lambda>(alias, info). map (\<lambda>g.
     (g, \<lparr>gc_alias = alias, gc_endpoint = pc_endpoint info, gc_reachable = pc_reachable info,
          gc_graph_map = pc_graph_map info\<rparr>)) (pc_graphs info)) connections)"

definition connections_by_graph :: "probed_connection dict \<Rightarrow> (string \<times> graph_connection list) list" where
  "connections_by_graph connections = fold (\<lambda>gc. append_at (fst gc) (snd gc)) (offered connections) []"

definition ambiguous_text :: "string \<Rightarrow> string list \<Rightarrow> string" where
  "ambiguous_text graph_id aliases =
     ''graph_id '' @ quoted graph_id @ '' is advertised by more than one connection ('' @ join_with '', '' aliases @
     ''); recorded/live execution cannot be attributed to one of them and is shown here instead of being guessed''"

type_synonym entry = "(string \<times> nat \<times> string) \<times> graph_view"

text \<open>The entries of one Graph, each with its sort key.\<close>

definition connection_entry ::
  "step_rec dict \<Rightarrow> freshness_check dict \<Rightarrow> string \<Rightarrow> run_entry list \<Rightarrow> live_view list \<Rightarrow> graph_connection \<Rightarrow>
   exn + entry list" where
  "connection_entry steps topology graph_id own_runs own_live conn =
     follow (correlate_topology (map_of topology (gc_endpoint conn)) (Some graph_id) (Some (gc_graph_map conn))) (\<lambda>c.
     follow (view_graph steps graph_id (Some conn) c own_runs own_live []) (\<lambda>v.
       Inr [((graph_id, 1, gc_alias conn), v)]))"

definition graph_entries ::
  "step_rec dict \<Rightarrow> freshness_check dict \<Rightarrow> graph_connection list \<Rightarrow> run_entry list \<Rightarrow> live_view list \<Rightarrow> string \<Rightarrow>
   exn + entry list" where
  "graph_entries steps topology graph_connections graph_runs graph_live_runs graph_id =
     (if graph_connections = [] then
        follow (view_graph steps graph_id None (uncorrelated NO_CONNECTION []) graph_runs graph_live_runs []) (\<lambda>v.
          Inr [((graph_id, 0, []), v)])
      else
        let ambiguous = 1 < length graph_connections;
            own_runs = (if ambiguous then [] else graph_runs);
            own_live = (if ambiguous then [] else graph_live_runs) in
        follow (collect_all (connection_entry steps topology graph_id own_runs own_live)
            (sort_key gc_alias graph_connections)) (\<lambda>entries.
          if ambiguous \<and> (graph_runs \<noteq> [] \<or> graph_live_runs \<noteq> []) then
            let aliases = sort (map gc_alias graph_connections) in
            follow (view_graph steps graph_id None (uncorrelated AMBIGUOUS [ambiguous_text graph_id aliases])
                graph_runs graph_live_runs aliases) (\<lambda>v.
              Inr (entries @ [((graph_id, 2, []), v)]))
          else Inr entries))"

definition build_catalog ::
  "probed_connection dict \<Rightarrow> freshness_check dict \<Rightarrow> span_index \<Rightarrow> live_view dict \<Rightarrow> exn + graph_view list" where
  "build_catalog connections topology spans live =
     follow (build_execution_tree spans) (\<lambda>t.
     follow (map_all run_entry_of (tr_runs t)) (\<lambda>runs.
       let by_graph = fold (\<lambda>r. append_at (re_graph r) r) runs [];
           lives = live_by_graph (map re_run runs) live;
           conns = connections_by_graph connections;
           graph_ids = sort (remdups (map fst conns @ map fst by_graph @ map fst lives)) in
       follow (collect_all (\<lambda>g. graph_entries (tr_steps t) topology (get_list conns g) (get_list by_graph g)
           (get_list lives g) g) graph_ids) (\<lambda>entries.
         Inr (map snd (sort_key fst entries)))))"

section \<open>What grouping keeps\<close>

lemma get_list_append_at [simp]: "get_list (append_at k x d) j = get_list d j @ (if j = k then [x] else [])"
  by (simp add: get_list_def append_at_def update_conv')

lemma append_at_keys [simp]: "fst ` set (append_at k x d) = insert k (fst ` set d)"
  by (auto simp: append_at_def update_conv' simp flip: dom_map_of_conv_image_fst)

lemma get_list_grouped:
  "get_list (fold (\<lambda>x. append_at (f x) (h x)) xs d) k = get_list d k @ map h (filter (\<lambda>x. f x = k) xs)"
  by (induction xs arbitrary: d) auto

lemma grouped_keys: "fst ` set (fold (\<lambda>x. append_at (f x) (h x)) xs d) = fst ` set d \<union> f ` set xs"
  by (induction xs arbitrary: d) auto

lemma get_list_Nil [simp]: "get_list [] k = []"
  by (simp add: get_list_def)

lemmas grouped = get_list_grouped grouped_keys

text \<open>Cut by key and put together again, a list keeps its members with their multiplicity.\<close>

lemma mset_by_key:
  "distinct ks \<Longrightarrow> f ` set xs \<subseteq> set ks \<Longrightarrow> mset (concat (map (\<lambda>k. filter (\<lambda>x. f x = k) xs) ks)) = mset xs"
proof (induction ks arbitrary: xs)
  case (Cons k ks)
  have other: "filter (\<lambda>x. f x = j) xs = filter (\<lambda>x. f x = j) (filter (\<lambda>x. f x \<noteq> k) xs)" if "j \<in> set ks" for j
    using that Cons.prems(1) by (auto intro: filter_cong)
  have "mset (concat (map (\<lambda>j. filter (\<lambda>x. f x = j) xs) ks)) = mset (filter (\<lambda>x. f x \<noteq> k) xs)"
    using Cons.IH [of "filter (\<lambda>x. f x \<noteq> k) xs"] Cons.prems other by (auto simp: subset_iff cong: map_cong)
  then show ?case using multiset_partition [of "mset xs" "\<lambda>x. f x = k"] by simp
qed simp

text \<open>The live Runs of a Graph, in the order of their ids.\<close>

lemma get_list_live:
  "get_list (live_by_graph recorded live) g =
     sort_key lv_run_id (filter (\<lambda>v. live_graph v = g) (map snd (filter (placeable recorded) live)))"
proof -
  have "get_list (map (\<lambda>(g, vs). (g, sort_key lv_run_id vs)) d) g = sort_key lv_run_id (get_list d g)" for d :: "(string \<times> live_view list) list"
    by (induction d) (auto simp: get_list_def)
  then show ?thesis by (simp add: live_by_graph_def grouped)
qed

lemma live_keys: "fst ` set (live_by_graph recorded live) = live_graph ` set (map snd (filter (placeable recorded) live))"
  by (force simp: live_by_graph_def grouped image_image case_prod_beta
      simp flip: grouped_keys [of live_graph "\<lambda>v. v" _ "[]", simplified])

text \<open>The connections that advertise a Graph, in the order of the connection file.\<close>

definition advertisers :: "probed_connection dict \<Rightarrow> string \<Rightarrow> string list" where
  "advertisers connections g =
     concat (map (\<lambda>(alias, info). replicate (count_list (pc_graphs info) g) alias) connections)"

lemma advertising:
  "map gc_alias (get_list (connections_by_graph connections) g) = advertisers connections g"
proof -
  have one: "map f (filter (\<lambda>p. fst p = g) (map (\<lambda>h. (h, c)) hs)) = replicate (count_list hs g) (f (g, c))"
    for f :: "string \<times> graph_connection \<Rightarrow> string" and c hs
    by (induction hs) auto
  have "map (gc_alias \<circ> snd) (filter (\<lambda>p. fst p = g) (offered connections)) = advertisers connections g"
    by (induction connections) (auto simp: offered_def advertisers_def one)
  then show ?thesis by (simp add: connections_by_graph_def grouped comp_def)
qed

section \<open>What an entry shows\<close>

lemma view_graph_Inr:
  "view_graph steps g conn c rs ls as = Inr v \<Longrightarrow>
   gv_graph_id v = g \<and> gv_alias v = map_option gc_alias conn \<and> gv_reachable v = map_option gc_reachable conn \<and>
   gv_status v = co_status c \<and> gv_nodes v = co_node_ids c \<and> gv_structure v = co_structure c \<and>
   gv_runs v = rs \<and> gv_live v = ls \<and> gv_ambiguous v = as"
  by (auto simp: view_graph_def follow_Inr)

lemma connection_entry_Inr:
  "connection_entry steps topology g rs ls conn = Inr es \<longleftrightarrow>
   (\<exists>c v. correlate_topology (map_of topology (gc_endpoint conn)) (Some g) (Some (gc_graph_map conn)) = Inr c \<and>
      view_graph steps g (Some conn) c rs ls [] = Inr v \<and> es = [((g, 1, gc_alias conn), v)])"
  by (auto simp: connection_entry_def follow_Inr)

text \<open>Where the execution of a Graph may stand: with its one connection, or with none.\<close>

definition attributed :: "graph_connection list \<Rightarrow> graph_view \<Rightarrow> bool" where
  "attributed gcs v \<longleftrightarrow>
     (case gv_alias v of
        Some alias \<Rightarrow> map gc_alias gcs = [alias]
      | None \<Rightarrow> gcs = [] \<and> gv_status v = NO_CONNECTION \<or>
          1 < length gcs \<and> gv_status v = AMBIGUOUS \<and> gv_ambiguous v = sort (map gc_alias gcs))"

definition entry_ok :: "graph_connection list \<Rightarrow> string \<Rightarrow> graph_view \<Rightarrow> bool" where
  "entry_ok gcs g v \<longleftrightarrow> gv_graph_id v = g \<and> (gv_runs v = [] \<and> gv_live v = [] \<or> attributed gcs v)"

text \<open>The view of a Graph at one connection, with the topology of that connection's own endpoint.\<close>

definition shown_for :: "freshness_check dict \<Rightarrow> string \<Rightarrow> graph_connection \<Rightarrow> graph_view \<Rightarrow> bool" where
  "shown_for topology g gc v \<longleftrightarrow>
     (\<exists>c. correlate_topology (map_of topology (gc_endpoint gc)) (Some g) (Some (gc_graph_map gc)) = Inr c \<and>
       gv_graph_id v = g \<and> gv_alias v = Some (gc_alias gc) \<and> gv_reachable v = Some (gc_reachable gc) \<and>
       gv_status v = co_status c \<and> gv_nodes v = co_node_ids c \<and> gv_structure v = co_structure c)"

lemma connection_entries:
  assumes "collect_all (connection_entry steps topology g rs ls) gcs = Inr es"
  shows "concat (map (gv_runs \<circ> snd) es) = concat (map (\<lambda>_. rs) gcs)"
    "concat (map (gv_live \<circ> snd) es) = concat (map (\<lambda>_. ls) gcs)"
    "\<forall>e \<in> set es. gv_graph_id (snd e) = g \<and> gv_runs (snd e) = rs \<and> gv_live (snd e) = ls \<and>
       (\<exists>gc \<in> set gcs. gv_alias (snd e) = Some (gc_alias gc))"
    "\<forall>gc \<in> set gcs. \<exists>e \<in> set es. shown_for topology g gc (snd e)"
  using assms
proof (induction gcs arbitrary: es)
  case (Cons gc gcs)
  { case 1 then show ?case using Cons.IH(1) by (auto simp: connection_entry_Inr dest!: view_graph_Inr split: sum.splits) }
  { case 2 then show ?case using Cons.IH(2) by (auto simp: connection_entry_Inr dest!: view_graph_Inr split: sum.splits) }
  { case 3 then show ?case using Cons.IH(3) by (fastforce simp: connection_entry_Inr dest!: view_graph_Inr split: sum.splits) }
  { case 4 then show ?case using Cons.IH(4)
      by (fastforce simp: connection_entry_Inr shown_for_def dest!: view_graph_Inr split: sum.splits) }
qed simp_all

lemma graph_entries_facts:
  assumes "graph_entries steps topology gcs rs ls g = Inr es"
  shows "concat (map (gv_runs \<circ> snd) es) = rs" "concat (map (gv_live \<circ> snd) es) = ls"
    "\<forall>e \<in> set es. entry_ok gcs g (snd e)"
    "\<forall>gc \<in> set gcs. \<exists>e \<in> set es. shown_for topology g gc (snd e)"
proof -
  have goal: "concat (map (gv_runs \<circ> snd) es) = rs \<and> concat (map (gv_live \<circ> snd) es) = ls \<and>
    (\<forall>e \<in> set es. entry_ok gcs g (snd e)) \<and>
    (\<forall>gc \<in> set gcs. \<exists>e \<in> set es. shown_for topology g gc (snd e))"
  proof (cases "1 < length gcs")
    case False
    show ?thesis
    proof (cases gcs)
      case Nil
      then show ?thesis using assms
        by (auto simp: graph_entries_def follow_Inr uncorrelated_def entry_ok_def attributed_def dest!: view_graph_Inr)
    next
      case (Cons gc gcs')
      then have gcs: "gcs = [gc]" using False by simp
      then have es: "collect_all (connection_entry steps topology g rs ls) [gc] = Inr es"
        using assms by (simp add: graph_entries_def follow_def split: sum.splits)
      show ?thesis using connection_entries [OF es] gcs
        by (auto simp: entry_ok_def attributed_def)
    qed
  next
    case True
    then have ne: "gcs \<noteq> []" by auto
    then obtain es1 where es1: "collect_all (connection_entry steps topology g [] []) (sort_key gc_alias gcs) = Inr es1"
      and es: "(rs = [] \<and> ls = [] \<and> es = es1) \<or> (\<exists>v as. as = sort (map gc_alias gcs) \<and>
         view_graph steps g None (uncorrelated AMBIGUOUS [ambiguous_text g as]) rs ls as = Inr v \<and> es = es1 @ [((g, 2, []), v)])"
      using assms True by (auto simp: graph_entries_def Let_def follow_Inr split: if_splits)
    note first = connection_entries [OF es1]
    have none: "concat (map (\<lambda>_. []) xs) = []" for xs :: "graph_connection list" by simp
    show ?thesis using es
    proof (elim disjE exE conjE)
      assume "rs = []" "ls = []" "es = es1"
      then show ?thesis using first by (auto simp: entry_ok_def)
    next
      fix v as
      assume v: "as = sort (map gc_alias gcs)" "es = es1 @ [((g, 2, []), v)]"
        "view_graph steps g None (uncorrelated AMBIGUOUS [ambiguous_text g as]) rs ls as = Inr v"
      have "entry_ok gcs g v" using view_graph_Inr [OF v(3)] True v(1)
        by (simp add: entry_ok_def attributed_def uncorrelated_def)
      then show ?thesis using view_graph_Inr [OF v(3)] first v(2) by (auto simp: entry_ok_def)
    qed
  qed
  from goal show "concat (map (gv_runs \<circ> snd) es) = rs" "concat (map (gv_live \<circ> snd) es) = ls"
    "\<forall>e \<in> set es. entry_ok gcs g (snd e)" by blast+
  from goal show "\<forall>gc \<in> set gcs. \<exists>e \<in> set es. shown_for topology g gc (snd e)" by blast
qed

section \<open>What the catalog shows\<close>

lemma collect_all_concat:
  "collect_all f xs = Inr ys \<Longrightarrow> (\<And>x zs. x \<in> set xs \<Longrightarrow> f x = Inr zs \<Longrightarrow> concat (map h zs) = k x) \<Longrightarrow>
   concat (map h ys) = concat (map k xs)"
  by (induction xs arbitrary: ys) (auto split: sum.splits)

lemma collect_all_part: "collect_all f xs = Inr ys \<Longrightarrow> x \<in> set xs \<Longrightarrow> \<exists>zs. f x = Inr zs \<and> set zs \<subseteq> set ys"
  using collect_all_item by (fastforce simp: collect_all_mem)

lemma mset_concat_sort: "mset (concat (map h (sort_key f xs))) = mset (concat (map h xs))"
  by (simp add: mset_concat flip: sum_mset_sum_list)

text \<open>A built catalog: the Runs it starts from, the keys it goes through and the entries of each.\<close>

lemma build_catalog_Inr:
  assumes "build_catalog connections topology spans live = Inr cat"
  obtains t runs where "build_execution_tree spans = Inr t" "map_all run_entry_of (tr_runs t) = Inr runs"
    "mset (concat (map gv_runs cat)) = mset runs"
    "mset (concat (map gv_live cat)) = mset (map snd (filter (placeable (map re_run runs)) live))"
    "\<forall>v \<in> set cat. (gv_runs v = [] \<or> (\<forall>r \<in> set (gv_runs v). re_graph r = gv_graph_id v)) \<and>
       (\<forall>l \<in> set (gv_live v). live_graph l = gv_graph_id v) \<and>
       (gv_runs v = [] \<and> gv_live v = [] \<or> attributed (get_list (connections_by_graph connections) (gv_graph_id v)) v)"
    "\<forall>(g, gc) \<in> set (offered connections). \<exists>v \<in> set cat. shown_for topology g gc v"
proof -
  obtain t where t: "build_execution_tree spans = Inr t"
    using assms by (auto simp: build_catalog_def follow_Inr)
  obtain runs where runs: "map_all run_entry_of (tr_runs t) = Inr runs"
    using assms t by (auto simp: build_catalog_def follow_Inr)
  let ?by = "fold (\<lambda>r. append_at (re_graph r) r) runs []"
  let ?placed = "map snd (filter (placeable (map re_run runs)) live)"
  let ?lives = "live_by_graph (map re_run runs) live"
  let ?conns = "connections_by_graph connections"
  let ?ids = "sort (remdups (map fst ?conns @ map fst ?by @ map fst ?lives))"
  let ?f = "\<lambda>g. graph_entries (tr_steps t) topology (get_list ?conns g) (get_list ?by g) (get_list ?lives g) g"
  obtain es where es: "collect_all ?f ?ids = Inr es" and cat: "cat = map snd (sort_key fst es)"
    using assms t runs by (auto simp: build_catalog_def Let_def follow_Inr)
  have by_graph: "get_list ?by g = filter (\<lambda>r. re_graph r = g) runs" for g
    by (simp add: grouped)
  have ids: "distinct ?ids" "set ?ids = fst ` set ?conns \<union> re_graph ` set runs \<union> live_graph ` set ?placed"
    by (simp_all add: live_keys grouped Un_assoc)
  have sub: "re_graph ` set runs \<subseteq> set ?ids" "live_graph ` set ?placed \<subseteq> set ?ids" unfolding ids(2) by blast+
  have "concat (map (gv_runs \<circ> snd) es) = concat (map (\<lambda>g. filter (\<lambda>r. re_graph r = g) runs) ?ids)"
    using es by (rule collect_all_concat) (drule graph_entries_facts(1), simp only: by_graph)
  then have 1: "mset (concat (map gv_runs cat)) = mset runs"
    using mset_concat_sort [of "gv_runs \<circ> snd" fst es] mset_by_key [OF ids(1) sub(1)] by (simp add: cat comp_def)
  have "concat (map (gv_live \<circ> snd) es) = concat (map (get_list ?lives) ?ids)"
    using es by (rule collect_all_concat) (erule graph_entries_facts(2))
  then have "mset (concat (map gv_live cat)) = mset (concat (map (\<lambda>g. filter (\<lambda>v. live_graph v = g) ?placed) ?ids))"
    using mset_concat_sort [of "gv_live \<circ> snd" fst es] by (simp add: cat comp_def get_list_live mset_concat)
  then have 2: "mset (concat (map gv_live cat)) = mset ?placed"
    using mset_by_key [OF ids(1) sub(2)] by simp
  have member: "\<exists>g zs. g \<in> set ?ids \<and> ?f g = Inr zs \<and> e \<in> set zs" if "e \<in> set es" for e
    using that unfolding collect_all_mem [OF es] by blast
  have 3: "(gv_runs v = [] \<or> (\<forall>r \<in> set (gv_runs v). re_graph r = gv_graph_id v)) \<and>
       (\<forall>l \<in> set (gv_live v). live_graph l = gv_graph_id v) \<and>
       (gv_runs v = [] \<and> gv_live v = [] \<or> attributed (get_list ?conns (gv_graph_id v)) v)" if v: "v \<in> set cat" for v
  proof -
    obtain e where e: "e \<in> set es" "v = snd e" using v cat by auto
    obtain g zs where g: "?f g = Inr zs" "e \<in> set zs" using member [OF e(1)] by blast
    note facts = graph_entries_facts [OF g(1)]
    have ok: "entry_ok (get_list ?conns g) g v" using facts(3) g(2) e(2) by blast
    have "set (gv_runs v) \<subseteq> set (get_list ?by g)" "set (gv_live v) \<subseteq> set (get_list ?lives g)"
      using g(2) e(2) unfolding facts(1,2) [symmetric] by auto
    then have "\<forall>r \<in> set (gv_runs v). re_graph r = g" "\<forall>l \<in> set (gv_live v). live_graph l = g"
      by (auto simp: by_graph get_list_live)
    then show ?thesis using ok by (auto simp: entry_ok_def)
  qed
  have 4: "\<exists>v \<in> set cat. shown_for topology g gc v" if gc: "(g, gc) \<in> set (offered connections)" for g gc
  proof -
    have "gc \<in> set (get_list ?conns g)" "g \<in> set ?ids" using gc
      by (force simp: connections_by_graph_def grouped)+
    moreover obtain zs where zs: "?f g = Inr zs" "set zs \<subseteq> set es"
      using collect_all_part [OF es \<open>g \<in> set ?ids\<close>] by blast
    ultimately obtain e where "e \<in> set zs" "shown_for topology g gc (snd e)"
      using graph_entries_facts(4) [OF zs(1)] by blast
    then show ?thesis using zs(2) cat by auto
  qed
  show thesis using that [OF t runs 1 2] 3 4 by blast
qed

text \<open>
  C9. The catalog neither loses nor guesses recorded execution: every Run of the execution tree is shown
  exactly once, in an entry of its own Graph, and under a connection only when that is the one connection
  advertising the Graph; otherwise it stands in the Graph's entry without connection, or in its ambiguous
  entry that names all the connections it could belong to.
\<close>

theorem every_run_placed_once:
  assumes "build_catalog connections topology spans live = Inr cat"
  shows "\<exists>t runs. build_execution_tree spans = Inr t \<and> map_all run_entry_of (tr_runs t) = Inr runs \<and>
    mset (concat (map gv_runs cat)) = mset runs \<and>
    (\<forall>v \<in> set cat. \<forall>r \<in> set (gv_runs v).
       re_graph r = gv_graph_id v \<and>
       (case gv_alias v of
          Some alias \<Rightarrow> advertisers connections (re_graph r) = [alias]
        | None \<Rightarrow> advertisers connections (re_graph r) = [] \<and> gv_status v = NO_CONNECTION \<or>
            1 < length (advertisers connections (re_graph r)) \<and> gv_status v = AMBIGUOUS \<and>
            gv_ambiguous v = sort (advertisers connections (re_graph r))))"
proof -
  obtain t runs where t: "build_execution_tree spans = Inr t" "map_all run_entry_of (tr_runs t) = Inr runs"
    "mset (concat (map gv_runs cat)) = mset runs"
    and entries: "\<forall>v \<in> set cat. (gv_runs v = [] \<or> (\<forall>r \<in> set (gv_runs v). re_graph r = gv_graph_id v)) \<and>
       (gv_runs v = [] \<and> gv_live v = [] \<or> attributed (get_list (connections_by_graph connections) (gv_graph_id v)) v)"
    using assms by (rule build_catalog_Inr) blast
  have "re_graph r = gv_graph_id v \<and> (case gv_alias v of
          Some alias \<Rightarrow> advertisers connections (re_graph r) = [alias]
        | None \<Rightarrow> advertisers connections (re_graph r) = [] \<and> gv_status v = NO_CONNECTION \<or>
            1 < length (advertisers connections (re_graph r)) \<and> gv_status v = AMBIGUOUS \<and>
            gv_ambiguous v = sort (advertisers connections (re_graph r)))" if "v \<in> set cat" "r \<in> set (gv_runs v)" for v r
  proof -
    let ?gcs = "get_list (connections_by_graph connections) (gv_graph_id v)"
    have g: "re_graph r = gv_graph_id v" and att: "attributed ?gcs v" using entries that by (metis list.set(1) empty_iff)+
    have adv: "map gc_alias ?gcs = advertisers connections (re_graph r)" "length ?gcs = length (advertisers connections (re_graph r))"
      "?gcs = [] \<longleftrightarrow> advertisers connections (re_graph r) = []"
      by (simp_all add: g flip: advertising)
    show ?thesis using att g unfolding attributed_def adv by (cases "gv_alias v") simp_all
  qed
  then show ?thesis using t by blast
qed

text \<open>
  The durable record wins: the live Runs of the catalog are exactly the given ones that have a Graph
  and whose Run is not recorded, each shown once, under its own Graph.
\<close>

theorem durable_record_wins:
  assumes "build_catalog connections topology spans live = Inr cat"
  shows "\<exists>t runs. build_execution_tree spans = Inr t \<and> map_all run_entry_of (tr_runs t) = Inr runs \<and>
    mset (concat (map gv_live cat)) =
      mset [v. (run_id, v) \<leftarrow> live, run_id \<notin> re_run ` set runs \<and> lv_graph_id v \<noteq> None \<and> lv_graph_id v \<noteq> Some []] \<and>
    (\<forall>e \<in> set cat. \<forall>v \<in> set (gv_live e). lv_graph_id v = Some (gv_graph_id e))"
proof -
  obtain t runs where t: "build_execution_tree spans = Inr t" "map_all run_entry_of (tr_runs t) = Inr runs"
    and live: "mset (concat (map gv_live cat)) = mset (map snd (filter (placeable (map re_run runs)) live))"
    and entries: "\<forall>v \<in> set cat. \<forall>l \<in> set (gv_live v). live_graph l = gv_graph_id v"
    using assms by (rule build_catalog_Inr) blast
  have same: "map snd (filter (placeable (map re_run runs)) live) =
      [v. (run_id, v) \<leftarrow> live, run_id \<notin> re_run ` set runs \<and> lv_graph_id v \<noteq> None \<and> lv_graph_id v \<noteq> Some []]"
    by (induction live) (auto simp: placeable_def)
  have "lv_graph_id v = Some (gv_graph_id e)" if "e \<in> set cat" "v \<in> set (gv_live e)" for e v
  proof -
    have "v \<in># mset (concat (map gv_live cat))" using that by auto
    then have "\<exists>i. placeable (map re_run runs) (i, v)" unfolding live by auto
    then show ?thesis using entries that by (auto simp: placeable_def live_graph_def split: option.splits)
  qed
  then show ?thesis using t live same by auto
qed

text \<open>
  Every Graph a connection advertises has its entry there, run or not, and what that entry shows of the
  topology is what the freshness check of that connection's own endpoint gives for the Graph.
\<close>

theorem every_connection_shown:
  assumes "build_catalog connections topology spans live = Inr cat"
    "(alias, info) \<in> set connections" "g \<in> set (pc_graphs info)"
  shows "\<exists>v \<in> set cat. \<exists>c.
    correlate_topology (map_of topology (pc_endpoint info)) (Some g) (Some (pc_graph_map info)) = Inr c \<and>
    gv_graph_id v = g \<and> gv_alias v = Some alias \<and> gv_reachable v = Some (pc_reachable info) \<and>
    gv_status v = co_status c \<and> gv_nodes v = co_node_ids c \<and> gv_structure v = co_structure c"
proof -
  let ?gc = "\<lparr>gc_alias = alias, gc_endpoint = pc_endpoint info, gc_reachable = pc_reachable info,
      gc_graph_map = pc_graph_map info\<rparr>"
  have "(g, ?gc) \<in> set (offered connections)" using assms(2,3)
    by (auto simp: offered_def intro!: bexI [of _ "(alias, info)"])
  moreover have "\<forall>(g, gc) \<in> set (offered connections). \<exists>v \<in> set cat. shown_for topology g gc v"
    using assms(1) by (rule build_catalog_Inr)
  ultimately obtain v where "v \<in> set cat" "shown_for topology g ?gc v" by blast
  then show ?thesis by (auto simp: shown_for_def)
qed

section \<open>An accepted archive is always shown\<close>

lemma nonblank_text: "nonblank_attr s k \<Longrightarrow> attr s k = Some v \<Longrightarrow> \<exists>x. v = JStr x"
  by (cases v) (auto simp: nonblank_attr_def)

lemma accepted_texts:
  assumes "accepted spans" "span_at spans i s r"
  shows "list_all (nonblank_attr s) IDENTITY" "r = Step_Role \<Longrightarrow> nonblank_attr s ''cord.node.name''"
proof -
  have role: "role s = Inr (Some r)" using assms(2) by (simp add: span_at_def)
  obtain ks where "check_span spans 0 s = Inr ks" using assms span_at_indexed unfolding accepted_def by blast
  then show "list_all (nonblank_attr s) IDENTITY" "r = Step_Role \<Longrightarrow> nonblank_attr s ''cord.node.name''"
    using role by (auto simp: check_span_def archive_Inr split: if_splits)
qed

lemma map_all_total: "(\<And>x. x \<in> set xs \<Longrightarrow> \<exists>y. f x = Inr y) \<Longrightarrow> \<exists>ys. map_all f xs = Inr ys"
  by (induction xs) fastforce+

lemma collect_all_total: "(\<And>x. x \<in> set xs \<Longrightarrow> \<exists>y. f x = Inr y) \<Longrightarrow> \<exists>ys. collect_all f xs = Inr ys"
  by (simp add: collect_all_Inr)

lemma tree_texts:
  assumes "index_ok spans" "build_execution_tree spans = Inr t"
  shows "\<exists>runs. map_all run_entry_of (tr_runs t) = Inr runs"
    "\<forall>k c. map_of (tr_steps t) k = Some c \<longrightarrow> (\<exists>n. sr_node c = JStr n)"
proof -
  obtain t0 where ok: "accepted spans" and p: "placed spans {} t0" and t: "t = finish_tree t0"
    using placed_tree [OF assms] by blast
  have "\<exists>e. run_entry_of (i, r) = Inr e" if ir: "(i, r) \<in> set (tr_runs t)" for i r
  proof -
    obtain r0 where r0: "(i, r0) \<in> set (tr_runs t0)" "rr_graph_id r = rr_graph_id r0" "rr_run_id r = rr_run_id r0"
      "rr_subject_type r = rr_subject_type r0" "rr_subject_id r = rr_subject_id r0"
      using finish_tree_run ir t by metis
    then have "run_of spans i r0" using p unfolding placed_def by blast
    then obtain s where s: "span_at spans i s Run_Role" "attr s ''cord.run.id'' = Some (rr_run_id r0)"
      "attr s ''cord.graph.id'' = Some (rr_graph_id r0)" "attr s ''cord.subject.type'' = Some (rr_subject_type r0)"
      "attr s ''cord.subject.id'' = Some (rr_subject_id r0)" by (auto simp: run_of_def)
    have "list_all (nonblank_attr s) IDENTITY" using accepted_texts(1) [OF ok s(1)] .
    then have "nonblank_attr s ''cord.run.id''" "nonblank_attr s ''cord.graph.id''" "nonblank_attr s ''cord.subject.type''"
      "nonblank_attr s ''cord.subject.id''" by (simp_all add: IDENTITY_def)
    then obtain a b c d where "rr_run_id r0 = JStr a" "rr_graph_id r0 = JStr b" "rr_subject_type r0 = JStr c"
      "rr_subject_id r0 = JStr d" using s(2-) nonblank_text by metis
    then show ?thesis using r0 by (simp add: run_entry_of_def text_of_def Let_def)
  qed
  then show "\<exists>runs. map_all run_entry_of (tr_runs t) = Inr runs" by (intro map_all_total) auto
  have "\<exists>n. sr_node c = JStr n" if "map_of (tr_steps t) k = Some c" for k c
  proof -
    have "(k, c) \<in> set (tr_steps (finish_tree t0))" using that t by (auto dest: map_of_SomeD)
    then obtain c0 where c0: "(k, c0) \<in> set (tr_steps t0)" "sr_node c = sr_node c0" using finish_tree_step by blast
    then have "step_of spans k c0" using p unfolding placed_def by blast
    then obtain s where s: "span_at spans k s Step_Role" "attr s ''cord.node.name'' = Some (sr_node c0)"
      by (auto simp: step_of_def)
    show ?thesis using nonblank_text [OF accepted_texts(2) [OF ok s(1) refl] s(2)] c0(2) by simp
  qed
  then show "\<forall>k c. map_of (tr_steps t) k = Some c \<longrightarrow> (\<exists>n. sr_node c = JStr n)" by blast
qed

lemma view_graph_total:
  assumes "\<forall>k c. map_of steps k = Some c \<longrightarrow> (\<exists>n. sr_node c = JStr n)"
  shows "\<exists>v. view_graph steps g conn c rs ls as = Inr v"
proof -
  have "\<exists>ns. map_all (text_of \<circ> sr_node) (concat (map (top_steps steps) rs)) = Inr ns"
    using assms by (intro map_all_total) (fastforce simp: top_steps_def List.map_filter_def text_of_def)
  then have "\<exists>us. unmatched_nodes steps c rs = Inr us" by (auto simp: unmatched_nodes_def)
  then show ?thesis by (auto simp: view_graph_def)
qed

lemma graph_entries_total:
  assumes "\<forall>k c. map_of steps k = Some c \<longrightarrow> (\<exists>n. sr_node c = JStr n)"
    "\<forall>gc \<in> set gcs. \<exists>c. correlate_topology (map_of topology (gc_endpoint gc)) (Some g) (Some (gc_graph_map gc)) = Inr c"
  shows "\<exists>es. graph_entries steps topology gcs rs ls g = Inr es"
proof -
  note view = view_graph_total [OF assms(1)]
  have "\<exists>es. connection_entry steps topology g rs' ls' gc = Inr es" if "gc \<in> set gcs" for rs' ls' gc
    using view assms(2) that by (metis connection_entry_Inr)
  then have "\<exists>es. collect_all (connection_entry steps topology g rs' ls') (sort_key gc_alias gcs) = Inr es" for rs' ls'
    by (intro collect_all_total) simp
  then obtain first where "\<And>rs' ls'. collect_all (connection_entry steps topology g rs' ls') (sort_key gc_alias gcs) = Inr (first rs' ls')"
    by metis
  moreover obtain shown where "\<And>conn c rs ls as. view_graph steps g conn c rs ls as = Inr (shown conn c rs ls as)"
    using view by metis
  ultimately show ?thesis by (simp add: graph_entries_def Let_def)
qed

lemma offered_endpoint: "(g, gc) \<in> set (offered connections) \<Longrightarrow> \<exists>(alias, info) \<in> set connections. gc_endpoint gc = pc_endpoint info \<and>
   gc_graph_map gc = pc_graph_map info \<and> g \<in> set (pc_graphs info)"
  by (fastforce simp: offered_def)

text \<open>
  The strings this model asks of a recorded execution are always there: for an archive the reader accepts and whose
  tree is built, the catalog is built too, unless the topology document of some connection cannot be read.
\<close>

lemma accepted_archive_is_shown:
  assumes "read_spans paths = Inr spans" "build_execution_tree spans = Inr t"
    "\<forall>(alias, info) \<in> set connections. \<forall>g \<in> set (pc_graphs info). \<exists>c.
       correlate_topology (map_of topology (pc_endpoint info)) (Some g) (Some (pc_graph_map info)) = Inr c"
  shows "\<exists>cat. build_catalog connections topology spans live = Inr cat"
proof -
  have ok: "index_ok spans" using assms(1) by (rule read_spans_ok)
  obtain runs where runs: "map_all run_entry_of (tr_runs t) = Inr runs" using tree_texts(1) [OF ok assms(2)] by blast
  have "\<exists>c. correlate_topology (map_of topology (gc_endpoint gc)) (Some g) (Some (gc_graph_map gc)) = Inr c"
    if "gc \<in> set (get_list (connections_by_graph connections) g)" for g gc
    using that offered_endpoint [of g gc connections] assms(3) by (fastforce simp: connections_by_graph_def grouped)
  then have "\<exists>es. graph_entries (tr_steps t) topology (get_list (connections_by_graph connections) g) rs ls g = Inr es" for rs ls g
    by (intro graph_entries_total tree_texts(2) [OF ok assms(2)]) blast
  then have "\<exists>es. collect_all (\<lambda>g. graph_entries (tr_steps t) topology (get_list (connections_by_graph connections) g)
      (F g) (G g) g) gs = Inr es" for F G gs by (intro collect_all_total) blast
  then show ?thesis using assms(2) runs by (simp add: build_catalog_def Let_def follow_Inr)
qed

section \<open>A catalog of three connections\<close>

definition demo_probe :: "string list \<Rightarrow> probed_connection" where
  "demo_probe gs = \<lparr>pc_endpoint = ''http://a'', pc_reachable = True, pc_graphs = gs, pc_graph_map = []\<rparr>"

definition demo_live :: "string \<Rightarrow> string option \<Rightarrow> live_view" where
  "demo_live run_id g = \<lparr>lv_run_id = run_id, lv_thread_id = ''t'', lv_graph_id = g, lv_assistant_id = None,
     lv_subject = None, lv_status = JStr ''running'', lv_source = LIVE, lv_seconds = None\<rparr>"

definition demo_connections :: "probed_connection dict" where
  "demo_connections = [(''b'', demo_probe [''g'', ''h'']), (''a'', demo_probe [''g''])]"

definition demo_lives :: "live_view dict" where
  "demo_lives = [(''r'', demo_live ''r'' (Some ''h'')), (''q'', demo_live ''q'' None), (''p'', demo_live ''p'' (Some ''h''))]"

lemma mapped_Inr: "map_sum id f m = Inr y \<Longrightarrow> \<exists>x. m = Inr x \<and> f x = y"
  by (cases m) auto

lemma demo_catalog:
  "map_sum id (map (\<lambda>v. (gv_graph_id v, gv_alias v, gv_status v, map re_run (gv_runs v), gv_ambiguous v, map lv_run_id (gv_live v))))
     (build_catalog demo_connections [] demo_spans demo_lives) =
   Inr [(''g'', Some ''a'', NOT_CHECKED, [], [], []), (''g'', Some ''b'', NOT_CHECKED, [], [], []),
     (''g'', None, AMBIGUOUS, [''r''], [''a'', ''b''], []), (''h'', Some ''b'', NOT_CHECKED, [], [], [''p''])]"
  by code_simp

lemma demo_catalog_built:
  "\<exists>cat. build_catalog demo_connections [] demo_spans demo_lives = Inr cat \<and>
     map (\<lambda>v. (gv_graph_id v, gv_alias v)) cat = [(''g'', Some ''a''), (''g'', Some ''b''), (''g'', None), (''h'', Some ''b'')]"
  using mapped_Inr [OF demo_catalog] by fastforce

theorem every_run_placed_once_witness:
  "\<exists>cat v r. build_catalog demo_connections [] demo_spans demo_lives = Inr cat \<and> v \<in> set cat \<and> r \<in> set (gv_runs v) \<and>
     re_graph r = gv_graph_id v \<and> gv_ambiguous v = sort (advertisers demo_connections (re_graph r))"
proof -
  obtain cat where cat: "build_catalog demo_connections [] demo_spans demo_lives = Inr cat"
    and m: "map (\<lambda>v. (gv_graph_id v, gv_alias v, gv_status v, map re_run (gv_runs v), gv_ambiguous v, map lv_run_id (gv_live v))) cat =
      [(''g'', Some ''a'', NOT_CHECKED, [], [], []), (''g'', Some ''b'', NOT_CHECKED, [], [], []),
       (''g'', None, AMBIGUOUS, [''r''], [''a'', ''b''], []), (''h'', Some ''b'', NOT_CHECKED, [], [], [''p''])]"
    using mapped_Inr [OF demo_catalog] by (elim exE conjE) (rule that)
  let ?v = "cat ! 2"
  have len: "length cat = 4" using arg_cong [OF m, of length] by simp
  then have at: "?v \<in> set cat" by simp
  have third: "gv_alias ?v = None" "gv_status ?v = AMBIGUOUS" "length (gv_runs ?v) = 1"
    using arg_cong [OF m, of "\<lambda>l. l ! 2"] len by (auto dest: arg_cong [of _ _ length])
  then obtain v r where v: "v \<in> set cat" "gv_alias v = None" "gv_status v = AMBIGUOUS" "r \<in> set (gv_runs v)"
    using at by (cases "gv_runs ?v") auto
  from every_run_placed_once [OF cat]
  have "\<forall>v \<in> set cat. \<forall>r \<in> set (gv_runs v). re_graph r = gv_graph_id v \<and>
     (gv_alias v = None \<longrightarrow> gv_status v = AMBIGUOUS \<longrightarrow> gv_ambiguous v = sort (advertisers demo_connections (re_graph r)))"
    by (auto split: option.splits)
  with v have "re_graph r = gv_graph_id v \<and> gv_ambiguous v = sort (advertisers demo_connections (re_graph r))" by blast
  with cat v(1,4) show ?thesis by blast
qed

theorem durable_record_wins_witness:
  "\<exists>cat. build_catalog demo_connections [] demo_spans demo_lives = Inr cat \<and>
     (\<forall>e \<in> set cat. \<forall>v \<in> set (gv_live e). lv_graph_id v = Some (gv_graph_id e))"
  using demo_catalog_built durable_record_wins by meson

theorem every_connection_shown_witness:
  "\<exists>cat. build_catalog demo_connections [] demo_spans demo_lives = Inr cat \<and>
     (\<exists>v \<in> set cat. gv_graph_id v = ''h'' \<and> gv_alias v = Some ''b'')"
proof -
  obtain cat where cat: "build_catalog demo_connections [] demo_spans demo_lives = Inr cat"
    using demo_catalog_built by blast
  have "\<exists>v \<in> set cat. gv_graph_id v = ''h'' \<and> gv_alias v = Some ''b''"
    using every_connection_shown [OF cat, of "''b''" "demo_probe [''g'', ''h'']" "''h''"] by (auto simp: demo_connections_def demo_probe_def)
  then show ?thesis using cat by blast
qed

end
