(* ===== verification/Viewer_Text.thy ===== *)
theory Viewer_Text
  imports Viewer_Catalog
begin

text \<open>
  \<^verbatim>\<open>viewer.format_catalog_text\<close>: the catalog as lines of text. Python's \<^verbatim>\<open>str\<close> of a value that is neither
  text nor a number, and the rendering of a duration in seconds with three decimals, are parameters.
\<close>

record rendering =
  str_json :: "json \<Rightarrow> string"
  seconds3 :: "int \<Rightarrow> string"

fun py_str :: "rendering \<Rightarrow> json \<Rightarrow> string" where
  "py_str fmt (JStr s) = s"
| "py_str fmt (JInt n) = show_int n"
| "py_str fmt JNull = ''None''"
| "py_str fmt (JBool b) = (if b then ''True'' else ''False'')"
| "py_str fmt j = str_json fmt j"

definition status_text :: "shown_status \<Rightarrow> string" where
  "status_text s =
     (case s of
        Shown ABSENT \<Rightarrow> ''absent'' | Shown UNREACHABLE \<Rightarrow> ''unreachable'' | Shown INVALID \<Rightarrow> ''invalid''
      | Shown VALID \<Rightarrow> ''valid'' | Shown NO_SNAPSHOT \<Rightarrow> ''no_snapshot'' | Shown UNCHANGED \<Rightarrow> ''unchanged''
      | Shown CHANGED \<Rightarrow> ''changed'' | STALE \<Rightarrow> ''stale'' | CURRENT \<Rightarrow> ''current'' | NO_CONNECTION \<Rightarrow> ''no_connection''
      | NOT_CHECKED \<Rightarrow> ''not_checked'' | AMBIGUOUS \<Rightarrow> ''ambiguous'')"

text \<open>\<^verbatim>\<open>int(live["seconds_since_completion"])\<close>\<close>

definition whole_seconds :: "live_view \<Rightarrow> exn + int" where
  "whole_seconds v =
     (case lv_seconds v of
        None \<Rightarrow> Inl (Exn PyTypeError ''int() argument must be a number'')
      | Some s \<Rightarrow> Inr (if 0 \<le> s then \<lfloor>s\<rfloor> else \<lceil>s\<rceil>))"

definition format_live_source :: "rendering \<Rightarrow> live_view \<Rightarrow> exn + string" where
  "format_live_source fmt v =
     (let status = py_str fmt (lv_status v) in
      if lv_source v = LIVE then Inr (''live, '' @ status)
      else follow (whole_seconds v) (\<lambda>s.
        if lv_source v = INGESTION_PENDING then Inr (''live, '' @ status @ '', ingestion pending '' @ show_int s @ ''s'')
        else if lv_source v = INGESTION_FAILED then Inr (''live, '' @ status @ '', ingestion FAILED after '' @ show_int s @ ''s'')
        else Inr (''live, '' @ status)))"

definition live_line :: "rendering \<Rightarrow> live_view \<Rightarrow> exn + string" where
  "live_line fmt v =
     follow (format_live_source fmt v) (\<lambda>source.
       Inr (''  Live Run '' @ lv_run_id v @ '' (thread '' @ lv_thread_id v @ '') ['' @ source @ '']''))"

definition attempt_line :: "rendering \<Rightarrow> json \<times> json option \<times> json \<Rightarrow> string" where
  "attempt_line fmt a =
     (case a of (n, tier, outcome) \<Rightarrow>
        ''        Attempt '' @ py_str fmt n @
        (case tier of None \<Rightarrow> [] | Some t \<Rightarrow> if truthy t then '', tier='' @ py_str fmt t else []) @
        '' -> '' @ py_str fmt outcome)"

definition step_line :: "rendering \<Rightarrow> step_view \<Rightarrow> string" where
  "step_line fmt s = ''      Step '' @ py_str fmt (sv_node s) @ '' -> '' @ py_str fmt (sv_outcome s)"

definition resumed_text :: "step_view \<Rightarrow> string" where
  "resumed_text s = (case sv_resumed_from s of None \<Rightarrow> ''None'' | Some r \<Rightarrow> r)"

definition repeated_line :: "step_view \<Rightarrow> string" where
  "repeated_line s = ''        warning: repeated execution -- another Step already resumed from '' @ resumed_text s"

definition wait_unknown_line :: "step_view \<Rightarrow> string" where
  "wait_unknown_line s =
     ''        warning: resumed from '' @ resumed_text s @
     '', but that Step is not in this archive -- approval wait time unknown''"

definition step_lines :: "rendering \<Rightarrow> step_view \<Rightarrow> string list" where
  "step_lines fmt s =
     step_line fmt s #
     (if sv_repeated s then [repeated_line s] else []) @
     (if sv_awaiting s then [''        waiting for approval to resume''] else []) @
     (if sv_resumed_from s \<noteq> None \<and> sv_wait s = None then [wait_unknown_line s] else []) @
     map (attempt_line fmt) (sv_attempts s)"

definition run_line :: "rendering \<Rightarrow> run_view \<Rightarrow> string" where
  "run_line fmt r =
     ''    Run '' @ rv_run r @ '' (executed '' @ seconds3 fmt (rv_execution r) @ ''s'' @
     (if rv_wait r \<noteq> 0 then '', waited '' @ seconds3 fmt (rv_wait r) @ ''s for approval'' else []) @
     (if rv_incomplete r then '', timeline incomplete'' else []) @ '')''"

definition run_lines :: "rendering \<Rightarrow> run_view \<Rightarrow> string list" where
  "run_lines fmt r = run_line fmt r # concat (map (step_lines fmt) (rv_steps r))"

definition subject_lines :: "rendering \<Rightarrow> subject_view \<Rightarrow> string list" where
  "subject_lines fmt u = (''  Subject '' @ uv_type u @ '':'' @ uv_id u) # concat (map (run_lines fmt) (uv_runs u))"

definition header_line :: "graph_view \<Rightarrow> string" where
  "header_line v =
     (let deployment =
        (if gv_status v = AMBIGUOUS then ''ambiguous among '' @ join_with '', '' (gv_ambiguous v)
         else case gv_alias v of None \<Rightarrow> ''no connection'' | Some a \<Rightarrow> if a = [] then ''no connection'' else a);
          reachability = (case gv_reachable v of None \<Rightarrow> [] | Some True \<Rightarrow> ''reachable'' | Some False \<Rightarrow> ''unreachable'') in
      ''Graph '' @ gv_graph_id v @ ''  ('' @ deployment @
      (if reachability = [] then [] else '', '' @ reachability) @ '', topology: '' @ status_text (gv_status v) @ '')'')"

definition unmatched_line :: "string \<Rightarrow> string" where
  "unmatched_line n = ''  warning: recorded Node '' @ quoted n @ '' is not in the correlated topology''"

definition graph_lines :: "rendering \<Rightarrow> graph_view \<Rightarrow> exn + string list" where
  "graph_lines fmt v =
     follow (map_all (live_line fmt) (gv_live v)) (\<lambda>lives.
       Inr (header_line v #
         (if gv_nodes v \<noteq> [] then [''  nodes: '' @ join_with '', '' (gv_nodes v)] else []) @
         map (\<lambda>w. ''  warning: '' @ w) (gv_warnings v) @ map unmatched_line (gv_unmatched v) @
         (if gv_subjects v = [] \<and> gv_live v = [] then [''  no recorded Runs''] else []) @
         lives @ concat (map (subject_lines fmt) (gv_subjects v))))"

definition format_catalog_lines :: "rendering \<Rightarrow> graph_view list \<Rightarrow> exn + string list" where
  "format_catalog_lines fmt cat =
     (if cat = [] then Inr [''no Graphs: no connections registered and no recorded execution given'']
      else collect_all (graph_lines fmt) cat)"

definition format_catalog_text :: "rendering \<Rightarrow> graph_view list \<Rightarrow> exn + string" where
  "format_catalog_text fmt cat = follow (format_catalog_lines fmt cat) (\<lambda>lines. Inr (join_with [CHR 10] lines))"

section \<open>Recorded outcomes are printed\<close>

lemma map_all_mem: "map_all f xs = Inr ys \<Longrightarrow> x \<in> set xs \<Longrightarrow> \<exists>y \<in> set ys. f x = Inr y"
  by (induction xs arbitrary: ys) (auto simp: follow_Inr)

lemma subjects_view_mem:
  assumes "r \<in> set graph_runs"
  shows "\<exists>u \<in> set (subjects_view steps graph_runs). uv_type u = re_subject_type r \<and> uv_id u = re_subject_id r \<and>
    view_run steps r \<in> set (uv_runs u)"
proof -
  let ?d = "fold (\<lambda>r. append_at (subject_key r) (view_run steps r)) graph_runs []"
  have "subject_key r \<in> fst ` set ?d" using assms by (simp add: grouped)
  then obtain rs where rs: "map_of ?d (subject_key r) = Some rs"
    by (cases "map_of ?d (subject_key r)") (simp_all add: map_of_eq_None_iff)
  have "get_list ?d (subject_key r) = map (view_run steps) (filter (\<lambda>q. subject_key q = subject_key r) graph_runs)"
    by (simp add: grouped)
  then have "view_run steps r \<in> set rs" using assms rs by (simp add: get_list_def)
  moreover have "\<lparr>uv_type = re_subject_type r, uv_id = re_subject_id r, uv_runs = rs\<rparr> \<in> set (subjects_view steps graph_runs)"
    unfolding subjects_view_def set_map set_sort using map_of_SomeD [OF rs]
    by (intro image_eqI [of _ _ "(subject_key r, rs)"]) (simp_all add: subject_key_def)
  ultimately show ?thesis by (intro bexI conjI) simp_all
qed

lemma subject_line_printed:
  assumes "format_catalog_lines fmt cat = Inr lines" "v \<in> set cat" "u \<in> set (gv_subjects v)" "l \<in> set (subject_lines fmt u)"
  shows "l \<in> set lines"
proof -
  have ne: "cat \<noteq> []" using assms(2) by auto
  then have "collect_all (graph_lines fmt) cat = Inr lines" using assms(1) by (simp add: format_catalog_lines_def)
  then obtain ls where ls: "graph_lines fmt v = Inr ls" "set ls \<subseteq> set lines" using collect_all_part assms(2) by metis
  have "set (concat (map (subject_lines fmt) (gv_subjects v))) \<subseteq> set ls"
    using ls(1) by (auto simp: graph_lines_def follow_Inr)
  then show ?thesis using assms(3,4) ls(2) by auto
qed

lemma view_graph_subjects: "view_graph steps g conn c rs ls as = Inr v \<Longrightarrow> gv_subjects v = subjects_view steps (gv_runs v)"
  by (auto simp: view_graph_def follow_Inr)

lemma connection_entry_subjects:
  "connection_entry steps topology g rs ls gc = Inr es \<Longrightarrow> e \<in> set es \<Longrightarrow> gv_subjects (snd e) = subjects_view steps (gv_runs (snd e))"
  by (auto simp: connection_entry_Inr dest: view_graph_subjects)

lemma graph_entries_subjects:
  assumes "graph_entries steps topology gcs rs ls g = Inr es" "e \<in> set es"
  shows "gv_subjects (snd e) = subjects_view steps (gv_runs (snd e))"
proof (cases "gcs = []")
  case True
  then show ?thesis using assms by (auto simp: graph_entries_def follow_Inr dest: view_graph_subjects)
next
  case False
  then obtain rs' ls' es1 where es1: "collect_all (connection_entry steps topology g rs' ls') (sort_key gc_alias gcs) = Inr es1"
    and rest: "e \<in> set es1 \<or> (\<exists>c as. view_graph steps g None c rs ls as = Inr (snd e))"
    using assms by (auto simp: graph_entries_def Let_def follow_Inr split: if_splits) blast+
  show ?thesis using rest
  proof
    assume "e \<in> set es1"
    then show ?thesis unfolding collect_all_mem [OF es1] using connection_entry_subjects by blast
  next
    assume "\<exists>c as. view_graph steps g None c rs ls as = Inr (snd e)"
    then show ?thesis using view_graph_subjects by blast
  qed
qed

lemma catalog_subjects:
  assumes "build_catalog connections topology spans live = Inr cat" "build_execution_tree spans = Inr t" "v \<in> set cat"
  shows "gv_subjects v = subjects_view (tr_steps t) (gv_runs v)"
proof -
  obtain F G H ids es where es: "collect_all (\<lambda>g. graph_entries (tr_steps t) topology (F g) (G g) (H g) g) ids = Inr es"
    and cat: "cat = map snd (sort_key fst es)"
    using assms(1,2) by (auto simp: build_catalog_def Let_def follow_Inr)
  then obtain e where "e \<in> set es" "v = snd e" using assms(3) by auto
  then show ?thesis unfolding collect_all_mem [OF es] using graph_entries_subjects by blast
qed

text \<open>
  No recorded outcome is left out of the text: for every Run of the archive and every Step directly in
  it, the rendered catalog has the line with the Step's Node and outcome, the line of each of its Attempts
  with its Tier and outcome, and a warning when the Step repeats an execution.
\<close>

theorem outcomes_are_printed:
  assumes "build_catalog connections topology spans live = Inr cat" "format_catalog_lines fmt cat = Inr lines"
    "build_execution_tree spans = Inr t" "(i, r) \<in> set (tr_runs t)" "k \<in> set (rr_steps r)" "map_of (tr_steps t) k = Some s"
  shows "''      Step '' @ py_str fmt (sr_node s) @ '' -> '' @ py_str fmt (sr_outcome s) \<in> set lines \<and>
    (\<forall>a \<in> set (sr_attempts s). attempt_line fmt (ar_number a, ar_tier a, ar_outcome a) \<in> set lines) \<and>
    (\<forall>q. sr_repeated s \<and> sr_resumed_from s = Some q \<longrightarrow>
       ''        warning: repeated execution -- another Step already resumed from '' @ q \<in> set lines)"
proof -
  let ?steps = "tr_steps t"
  obtain runs where runs: "map_all run_entry_of (tr_runs t) = Inr runs" and all: "mset (concat (map gv_runs cat)) = mset runs"
    using assms(1,3) by (auto elim: build_catalog_Inr)
  obtain e where e: "e \<in> set runs" "re_rec e = r"
  proof -
    have "\<exists>e \<in> set runs. run_entry_of (i, r) = Inr e" using map_all_mem [OF runs assms(4)] .
    then show thesis using that by (auto simp: run_entry_of_def Let_def follow_Inr)
  qed
  have "set (concat (map gv_runs cat)) = set runs" using all by (metis set_mset_mset)
  then obtain v where v: "v \<in> set cat" "e \<in> set (gv_runs v)" using e(1) by auto
  obtain u where u: "u \<in> set (gv_subjects v)" "view_run ?steps e \<in> set (uv_runs u)"
    using subjects_view_mem [OF v(2)] catalog_subjects [OF assms(1,3) v(1)] by metis
  let ?s = "view_step (length ?steps) ?steps s"
  have "s \<in> set (top_steps ?steps e)" using assms(5,6) e(2) by (force simp: top_steps_def List.map_filter_def)
  then have "?s \<in> set (rv_steps (view_run ?steps e))" by (simp add: view_run_def)
  then have "set (step_lines fmt ?s) \<subseteq> set (subject_lines fmt u)" using u(2) by (fastforce simp: subject_lines_def run_lines_def)
  then have printed: "l \<in> set lines" if "l \<in> set (step_lines fmt ?s)" for l
    using subject_line_printed [OF assms(2) v(1) u(1)] that by blast
  have fields: "sv_node ?s = sr_node s" "sv_outcome ?s = sr_outcome s" "sv_repeated ?s = sr_repeated s"
    "sv_resumed_from ?s = sr_resumed_from s" "sv_attempts ?s = map (\<lambda>a. (ar_number a, ar_tier a, ar_outcome a)) (sr_attempts s)"
    by (cases "length ?steps"; simp)+
  show ?thesis
    by (intro conjI ballI allI impI printed)
      (auto simp: step_lines_def step_line_def repeated_line_def resumed_text_def fields)
qed

definition demo_fmt :: rendering where
  "demo_fmt = \<lparr>str_json = (\<lambda>_. []), seconds3 = show_int\<rparr>"

lemma demo_step:
  "map_sum id (\<lambda>t. (map (rr_steps \<circ> snd) (tr_runs t), map_option (\<lambda>s. (sr_node s, sr_outcome s)) (map_of (tr_steps t) ''0000000000000002'')))
     (build_execution_tree demo_spans) = Inr ([[''0000000000000002'']], Some (JStr ''n'', JStr ''failed''))"
  by code_simp

lemma demo_lines:
  "map_sum id (\<lambda>_. ()) (follow (build_catalog demo_connections [] demo_spans demo_lives) (format_catalog_lines demo_fmt)) = Inr ()"
  by code_simp

theorem outcomes_are_printed_witness:
  "\<exists>cat lines. build_catalog demo_connections [] demo_spans demo_lives = Inr cat \<and>
     format_catalog_lines demo_fmt cat = Inr lines \<and> ''      Step n -> failed'' \<in> set lines"
proof -
  obtain cat lines where cat: "build_catalog demo_connections [] demo_spans demo_lives = Inr cat"
      "format_catalog_lines demo_fmt cat = Inr lines"
    using mapped_Inr [OF demo_lines] by (auto simp: follow_Inr)
  obtain t where t: "build_execution_tree demo_spans = Inr t" "map (rr_steps \<circ> snd) (tr_runs t) = [[''0000000000000002'']]"
    "map_option (\<lambda>s. (sr_node s, sr_outcome s)) (map_of (tr_steps t) ''0000000000000002'') = Some (JStr ''n'', JStr ''failed'')"
    using mapped_Inr [OF demo_step] by (elim exE conjE) (simp add: that)
  obtain i r where r: "(i, r) \<in> set (tr_runs t)" "''0000000000000002'' \<in> set (rr_steps r)"
    using t(2) by (cases "tr_runs t") auto
  obtain s where s: "map_of (tr_steps t) ''0000000000000002'' = Some s" "sr_node s = JStr ''n''" "sr_outcome s = JStr ''failed''"
    using t(3) by (cases "map_of (tr_steps t) ''0000000000000002''") auto
  show ?thesis using outcomes_are_printed [OF cat t(1) r s(1)] cat s(2,3) by auto
qed

end
