(* ===== verification/Archive_Health.thy ===== *)
theory Archive_Health
  imports Archive_Query
begin

text \<open>
  \<^verbatim>\<open>archive_health.py\<close>: the tolerant reader of archives that may still be written to, and the
  classification of what it finds. The files are those of \<^theory_text>\<open>Archive_Query\<close> with their name, whether they are
  compressed (closed), whether their text ends in a newline, and the exception that reading them raises, if any.
  \<open>lf_lines\<close> is what \<^verbatim>\<open>json.loads\<close> makes of each of \<^verbatim>\<open>readlines()\<close>, \<open>None\<close> a line that is no JSON. The private copy
  each file is read from holds exactly the lines that were kept.
\<close>

datatype health_status = Pending_Archive | Empty_Archive | Incomplete_Archive | Failed_Archive | Healthy_Archive

definition status_value :: "health_status \<Rightarrow> string" where
  "status_value s = (case s of Pending_Archive \<Rightarrow> ''pending'' | Empty_Archive \<Rightarrow> ''empty''
     | Incomplete_Archive \<Rightarrow> ''incomplete'' | Failed_Archive \<Rightarrow> ''failed'' | Healthy_Archive \<Rightarrow> ''healthy'')"

record archive_health =
  ah_status :: health_status
  ah_span_count :: nat
  ah_incomplete_files :: "string list"
  ah_detail :: "string option"

record live_file =
  lf_name :: string
  lf_gz :: bool
  lf_lines :: "json option list"
  lf_newline :: bool
  lf_error :: "exn option"

text \<open>A path: a file, or a directory with its plain and its compressed partitions, each sorted by name.\<close>

datatype live_path = Live_File live_file | Live_Directory "live_file list" "live_file list"

fun files_of :: "live_path list \<Rightarrow> live_file list" where
  "files_of [] = []"
| "files_of (p # ps) =
     (case p of Live_File f \<Rightarrow> [f] | Live_Directory plain packed \<Rightarrow> plain @ packed) @ files_of ps"

definition visible_lines :: "live_file \<Rightarrow> exn + json option list \<times> bool" where
  "visible_lines f =
     (case lf_error f of
        Some x \<Rightarrow> Inl x
      | None \<Rightarrow>
          if lf_gz f then Inr (lf_lines f, False)
          else if lf_lines f = [] then Inr (lf_lines f, False)
          else if last (lf_lines f) \<noteq> None then Inr (lf_lines f, False)
          else Inr (butlast (lf_lines f), True))"

text \<open>The loop of \<^verbatim>\<open>read_active_spans\<close>: the copies to read, and the names of unfinished files.\<close>

fun materialize :: "live_file list \<Rightarrow> exn + archive_path list \<times> string list" where
  "materialize [] = Inr ([], [])"
| "materialize (f # fs) =
     follow (visible_lines f) (\<lambda>(lines, unfinished).
     follow (materialize fs) (\<lambda>(copies, names).
       Inr ((if lines = [] then [] else [File_Path \<lparr>af_lines = lines, af_fails = False\<rparr>]) @ copies,
            (if unfinished then [lf_name f] else []) @ names)))"

definition read_active_spans :: "live_path list \<Rightarrow> exn + span_index \<times> string list" where
  "read_active_spans paths =
     follow (materialize (files_of paths)) (\<lambda>(copies, names).
     follow (if copies = [] then Inr [] else read_spans copies) (\<lambda>spans. Inr (spans, names)))"

definition health_of :: "span_index \<Rightarrow> string list \<Rightarrow> archive_health" where
  "health_of spans names =
     (if spans = [] then
        if names \<noteq> [] then \<lparr>ah_status = Incomplete_Archive, ah_span_count = 0, ah_incomplete_files = names,
                               ah_detail = Some ''archive file has only an in-progress write''\<rparr>
        else \<lparr>ah_status = Empty_Archive, ah_span_count = 0, ah_incomplete_files = [],
               ah_detail = Some ''archive file has no spans yet''\<rparr>
      else \<lparr>ah_status = (if names \<noteq> [] then Incomplete_Archive else Healthy_Archive),
             ah_span_count = length spans, ah_incomplete_files = names, ah_detail = None\<rparr>)"

definition archive_health_of :: "live_path list \<Rightarrow> exn + archive_health" where
  "archive_health_of paths =
     (if files_of paths = [] then
        Inr \<lparr>ah_status = Pending_Archive, ah_span_count = 0, ah_incomplete_files = [],
              ah_detail = Some ''no archive files present yet''\<rparr>
      else
        (case read_active_spans paths of
           Inl x \<Rightarrow>
             if exn_class x = ArchiveError
             then Inr \<lparr>ah_status = Failed_Archive, ah_span_count = 0, ah_incomplete_files = [],
                        ah_detail = Some (exn_msg x)\<rparr>
             else Inl x
         | Inr (spans, names) \<Rightarrow> Inr (health_of spans names)))"

section \<open>What a file shows\<close>

text \<open>The lines that are kept, and whether a last line was set aside as a write in progress.\<close>

definition complete_lines :: "live_file \<Rightarrow> json option list" where
  "complete_lines f = (if \<not> lf_gz f \<and> lf_lines f \<noteq> [] \<and> last (lf_lines f) = None
                       then butlast (lf_lines f) else lf_lines f)"

definition unfinished :: "live_file \<Rightarrow> bool" where
  "unfinished f \<longleftrightarrow> \<not> lf_gz f \<and> lf_lines f \<noteq> [] \<and> last (lf_lines f) = None"

lemma visible_lines_eq:
  "visible_lines f = (case lf_error f of Some x \<Rightarrow> Inl x | None \<Rightarrow> Inr (complete_lines f, unfinished f))"
  by (auto simp: visible_lines_def complete_lines_def unfinished_def split: option.split)

definition copy_of :: "live_file \<Rightarrow> archive_path" where
  "copy_of f = File_Path \<lparr>af_lines = complete_lines f, af_fails = False\<rparr>"

lemma materialize_eq:
  assumes "\<forall>f \<in> set fs. lf_error f = None"
  shows "materialize fs = Inr (map copy_of (filter (\<lambda>f. complete_lines f \<noteq> []) fs),
    map lf_name (filter unfinished fs))"
  using assms by (induction fs) (simp_all add: visible_lines_eq copy_of_def)

lemma materialize_readable:
  "materialize fs = Inr r \<Longrightarrow> \<forall>f \<in> set fs. lf_error f = None"
  by (induction fs arbitrary: r) (auto simp: follow_Inr visible_lines_eq split: option.splits)

section \<open>The reader raises archive errors only\<close>

lemma located_error: "located a b m = Inl x \<Longrightarrow> exn_class x = ArchiveError"
  by (auto simp: located_def archive_error_def split: sum.splits)

lemma require_that_Inl: "require_that c reason m = Inl x \<longleftrightarrow> (if c then m = Inl x else x = Exn ArchiveError reason)"
  by (auto simp: require_that_def archive_error_def)

lemma read_lines_error: "read_lines a b ls d = Inl x \<Longrightarrow> exn_class x = ArchiveError"
  by (induction a b ls d rule: read_lines.induct) (auto simp: follow_Inl dest: located_error)

lemma read_files_error: "read_files a fs d = Inl x \<Longrightarrow> exn_class x = ArchiveError"
  by (induction a fs d rule: read_files.induct)
    (auto simp: read_file_def follow_Inl dest: located_error read_lines_error)

lemma scan_error: "scan ps = Inl x \<Longrightarrow> exn_class x = ArchiveError"
  by (induction ps) (auto simp: Let_def follow_Inl require_that_Inl split: if_splits)

lemma read_spans_error: "read_spans paths = Inl x \<Longrightarrow> exn_class x = ArchiveError"
  by (auto simp: read_spans_def follow_Inl require_that_Inl dest: scan_error read_files_error split: if_splits)

lemma read_spans_nonempty: "read_spans paths = Inr spans \<Longrightarrow> spans \<noteq> []"
  by (auto simp: read_spans_def archive_Inr)

lemma read_lines_parsed: "read_lines a b ls d = Inr d' \<Longrightarrow> None \<notin> set ls"
  by (induction a b ls d rule: read_lines.induct) (auto simp: archive_Inr split: option.splits)

lemma read_files_parsed: "read_files a fs d = Inr d' \<Longrightarrow> f \<in> set fs \<Longrightarrow> None \<notin> set (af_lines f)"
  by (induction a fs d rule: read_files.induct) (auto simp: read_file_def archive_Inr dest: read_lines_parsed)

lemma scan_files: "scan (map File_Path fs) = Inr fs"
  by (induction fs) (simp_all add: require_that_def)

lemma read_copies:
  "read_spans (map copy_of fs) =
     follow (read_files 1 (map (\<lambda>f. \<lparr>af_lines = complete_lines f, af_fails = False\<rparr>) fs) []) (\<lambda>spans.
     require_that (spans \<noteq> []) ''archive contains no spans'' (Inr spans))"
proof -
  have "map copy_of fs = map File_Path (map (\<lambda>f. \<lparr>af_lines = complete_lines f, af_fails = False\<rparr>) fs)"
    by (simp add: copy_of_def)
  then show ?thesis unfolding read_spans_def by (simp only: scan_files follow_simps)
qed

section \<open>What a health report says\<close>

lemma read_active_spans_Inr:
  assumes "read_active_spans paths = Inr (spans, names)"
  shows "(\<forall>f \<in> set (files_of paths). lf_error f = None \<and> None \<notin> set (complete_lines f)) \<and>
    names = map lf_name (filter unfinished (files_of paths)) \<and>
    (let kept = filter (\<lambda>f. complete_lines f \<noteq> []) (files_of paths)
     in if kept = [] then spans = [] else read_spans (map copy_of kept) = Inr spans)"
proof -
  obtain copies where m: "materialize (files_of paths) = Inr (copies, names)"
    and r: "(if copies = [] then Inr [] else read_spans copies) = Inr spans"
    using assms by (auto simp: read_active_spans_def follow_Inr)
  have readable: "\<forall>f \<in> set (files_of paths). lf_error f = None" by (rule materialize_readable [OF m])
  let ?kept = "filter (\<lambda>f. complete_lines f \<noteq> []) (files_of paths)"
  have copies: "copies = map copy_of ?kept" and names: "names = map lf_name (filter unfinished (files_of paths))"
    using m materialize_eq [OF readable] by simp_all
  have "None \<notin> set (complete_lines f)" if f: "f \<in> set (files_of paths)" for f
  proof (cases "complete_lines f = []")
    case False
    then have mem: "f \<in> set ?kept" using f by simp
    then have "copies \<noteq> []" by (auto simp: copies filter_empty_conv)
    then have "read_spans (map copy_of ?kept) = Inr spans" using r copies by simp
    then obtain d where "read_files 1 (map (\<lambda>f. \<lparr>af_lines = complete_lines f, af_fails = False\<rparr>) ?kept) [] = Inr d"
      by (auto simp: read_copies archive_Inr)
    from read_files_parsed [OF this, of "\<lparr>af_lines = complete_lines f, af_fails = False\<rparr>"]
    show ?thesis using mem by auto
  qed simp
  moreover have "if ?kept = [] then spans = [] else read_spans (map copy_of ?kept) = Inr spans"
    using r by (simp add: copies split: if_splits)
  ultimately show ?thesis using readable names by (simp add: Let_def)
qed


lemma health_of_simps [simp]:
  "ah_status (health_of spans names) =
     (if names \<noteq> [] then Incomplete_Archive else if spans = [] then Empty_Archive else Healthy_Archive)"
  "ah_span_count (health_of spans names) = length spans"
  "ah_incomplete_files (health_of spans names) = names"
  by (simp_all add: health_of_def)

lemma files_changed_inside:
  assumes "complete_lines f' = complete_lines f" "lf_error f' = lf_error f"
  shows "map_sum id fst (materialize (pre @ f' # post)) = map_sum id fst (materialize (pre @ f # post))"
proof (induction pre)
  case Nil
  then show ?case
    by (cases "materialize post") (auto simp: visible_lines_eq assms split: option.split prod.split)
next
  case (Cons g pre)
  then show ?case
    by (cases "visible_lines g"; cases "materialize (pre @ f' # post)"; cases "materialize (pre @ f # post)")
      (auto split: prod.split)
qed

lemma active_spans_of_copies:
  assumes "map_sum id fst (materialize (files_of paths')) = map_sum id fst (materialize (files_of paths))"
  shows "map_sum id fst (read_active_spans paths') = map_sum id fst (read_active_spans paths)"
proof (cases "materialize (files_of paths)")
  case (Inl x)
  then show ?thesis using assms by (cases "materialize (files_of paths')") (auto simp: read_active_spans_def)
next
  case (Inr c)
  then obtain c' where c': "materialize (files_of paths') = Inr c'" "fst c' = fst c"
    using assms by (cases "materialize (files_of paths')") auto
  show ?thesis
    by (cases c; cases c'; cases "if fst c = [] then Inr [] else read_spans (fst c)")
      (use c' Inr in \<open>auto simp: read_active_spans_def\<close>)
qed

section \<open>Properties\<close>

definition envelope :: "json option" where
  "envelope = hd (af_lines one_span_file)"

definition plain_file :: "json option list \<Rightarrow> live_file" where
  "plain_file lines = \<lparr>lf_name = ''archive-2026-01-01.otlp.jsonl'', lf_gz = False, lf_lines = lines, lf_newline = True, lf_error = None\<rparr>"



text \<open>
  What the vocabulary says otherwise. A last record that was written to its newline and is corrupt is reported
  incomplete, as an append in progress is, since the newline is never looked at; only a corrupt record before it is a
  failure. An archive with nothing but an append in progress is incomplete, and not empty.
\<close>

lemma corrupt_last_record_not_failed:
  "archive_health_of [Live_File ((plain_file [envelope, None])\<lparr>lf_newline := ended\<rparr>)] =
     Inr \<lparr>ah_status = Incomplete_Archive, ah_span_count = 1, ah_incomplete_files = [''archive-2026-01-01.otlp.jsonl''],
           ah_detail = None\<rparr>"
  "\<exists>m. archive_health_of [Live_File (plain_file [None, envelope])] =
     Inr \<lparr>ah_status = Failed_Archive, ah_span_count = 0, ah_incomplete_files = [], ah_detail = Some m\<rparr>"
proof -
  have "read_active_spans [Live_File ((plain_file [envelope, None])\<lparr>lf_newline := ended\<rparr>)] =
      read_active_spans [Live_File (plain_file [envelope, None])]"
    by (simp add: read_active_spans_def visible_lines_def plain_file_def)
  moreover have "archive_health_of [Live_File (plain_file [envelope, None])] =
     Inr \<lparr>ah_status = Incomplete_Archive, ah_span_count = 1, ah_incomplete_files = [''archive-2026-01-01.otlp.jsonl''],
           ah_detail = None\<rparr>" by code_simp
  ultimately show "archive_health_of [Live_File ((plain_file [envelope, None])\<lparr>lf_newline := ended\<rparr>)] =
     Inr \<lparr>ah_status = Incomplete_Archive, ah_span_count = 1, ah_incomplete_files = [''archive-2026-01-01.otlp.jsonl''],
           ah_detail = None\<rparr>" by (simp add: archive_health_of_def)
  have "map_sum id ah_status (archive_health_of [Live_File (plain_file [None, envelope])]) = Inr Failed_Archive" by code_simp
  then show "\<exists>m. archive_health_of [Live_File (plain_file [None, envelope])] =
     Inr \<lparr>ah_status = Failed_Archive, ah_span_count = 0, ah_incomplete_files = [], ah_detail = Some m\<rparr>"
    by (auto simp: archive_health_of_def health_of_def split: sum.splits if_splits)
qed

lemma lone_append_is_incomplete:
  "map_sum id ah_status (archive_health_of [Live_File ((plain_file [None])\<lparr>lf_newline := False\<rparr>)]) = Inr Incomplete_Archive"
  by code_simp

text \<open>
  An unfinished append changes no evidence: a line in progress at the end of an open file leaves the
  spans read, or the failure, exactly as they are without it; it can only turn the status incomplete.
\<close>

theorem unfinished_append_set_aside:
  assumes "files_of paths = pre @ f # post" "\<not> lf_gz f" "\<not> unfinished f"
    "files_of paths' = pre @ f\<lparr>lf_lines := lf_lines f @ [None]\<rparr> # post"
  shows "map_sum id fst (read_active_spans paths') = map_sum id fst (read_active_spans paths) \<and>
    (\<forall>h. archive_health_of paths' = Inr h \<longrightarrow> ah_status h = Failed_Archive \<or>
       ah_status h = Incomplete_Archive \<and> lf_name f \<in> set (ah_incomplete_files h))"
proof -
  let ?f' = "f\<lparr>lf_lines := lf_lines f @ [None]\<rparr>"
  have same: "complete_lines ?f' = complete_lines f" and open': "unfinished ?f'"
    using assms(2,3) by (auto simp: complete_lines_def unfinished_def)
  have "map_sum id fst (materialize (files_of paths')) = map_sum id fst (materialize (files_of paths))"
    unfolding assms(1,4) by (rule files_changed_inside [OF same]) simp
  then have spans: "map_sum id fst (read_active_spans paths') = map_sum id fst (read_active_spans paths)"
    by (rule active_spans_of_copies)
  have "ah_status h = Failed_Archive \<or> ah_status h = Incomplete_Archive \<and> lf_name f \<in> set (ah_incomplete_files h)"
    if h: "archive_health_of paths' = Inr h" for h
  proof (cases "ah_status h = Failed_Archive")
    case False
    then obtain spans names where r: "read_active_spans paths' = Inr (spans, names)" "h = health_of spans names"
      using h assms(4) by (auto simp: archive_health_of_def split: sum.splits if_splits)
    have "lf_name f \<in> set names" using read_active_spans_Inr [OF r(1)] assms(4) open' by simp
    then show ?thesis by (auto simp: r(2))
  qed simp
  then show ?thesis using spans by blast
qed

theorem unfinished_append_set_aside_witness:
  "map_sum id fst (read_active_spans [Live_File (plain_file [envelope, None])]) =
     Inr [(''00000000000000ab'', (one_span, ''file 1, line 1''))]"
proof -
  have "files_of [Live_File (plain_file [envelope])] = [] @ plain_file [envelope] # []"
    "\<not> lf_gz (plain_file [envelope])" "\<not> unfinished (plain_file [envelope])"
    "files_of [Live_File (plain_file [envelope, None])] =
       [] @ (plain_file [envelope])\<lparr>lf_lines := lf_lines (plain_file [envelope]) @ [None]\<rparr> # []"
    by (simp_all add: plain_file_def unfinished_def envelope_def one_span_file_def)
  note same = unfinished_append_set_aside [OF this]
  have "read_active_spans [Live_File (plain_file [envelope])] =
     Inr ([(''00000000000000ab'', (one_span, ''file 1, line 1''))], [])" by code_simp
  then show ?thesis using same by simp
qed

text \<open>
  What the documented vocabulary does not say: a complete line that holds no span is no empty archive, and
  a file that cannot be read is no failed one but an exception.
\<close>

lemma spanless_archive_is_failed:
  "archive_health_of [Live_File (plain_file [Some (JObj [(''resourceSpans'', JArr [])])])] =
     Inr \<lparr>ah_status = Failed_Archive, ah_span_count = 0, ah_incomplete_files = [],
           ah_detail = Some ''archive contains no spans''\<rparr>"
  by code_simp

lemma unreadable_archive_raises:
  "archive_health_of [Live_File ((plain_file [])\<lparr>lf_gz := True, lf_error := Some (Exn PyOSError ''Not a gzipped file'')\<rparr>)] =
     Inl (Exn PyOSError ''Not a gzipped file'')"
  by code_simp

end
