(* ===== verification/Connection_Diagnostics.thy ===== *)
theory Connection_Diagnostics
  imports Viewer_Text Archive_Health Deployment_Lifecycle Wp
begin

text \<open>
  \<^verbatim>\<open>connection_diagnostics.py\<close>, with the probe of \<^verbatim>\<open>cli.py\<close> it is built on: the readiness of one
  connection, capability by capability. The state is the snapshot store and the outside world; the
  lifecycle file and the archive are only read and are arguments.
\<close>

section \<open>The probe\<close>

record probe =
  pb_reachable :: bool
  pb_graphs :: "string list"

text \<open>\<^verbatim>\<open>sorted({a["graph_id"] for a in response.json().get("assistants", [])})\<close>\<close>

definition assistant_graphs :: "json option \<Rightarrow> exn + string list" where
  "assistant_graphs body =
     (case body of
        None \<Rightarrow> Inl (Exn PyValueError ''response body is not JSON'')
      | Some b \<Rightarrow>
          follow (get_default b ''assistants'' (JArr [])) (\<lambda>as.
          follow (iter_json as) (\<lambda>items.
          follow (map_all (\<lambda>a. str_field a ''graph_id'') items) (\<lambda>ids.
            Inr (sort (remdups ids))))))"

text \<open>\<^verbatim>\<open>except (requests.RequestException, ValueError, KeyError, TypeError): pass\<close>\<close>

definition probe_ignores :: "exc_class \<Rightarrow> bool" where
  "probe_ignores c \<longleftrightarrow> is_value_error c \<or> c = PyKeyError \<or> c = PyTypeError"

definition probe_graphs :: "reply \<Rightarrow> exn + string list" where
  "probe_graphs r =
     (case r of
        Reply status body \<Rightarrow>
          if status = 200
          then (case assistant_graphs body of
                  Inl x \<Rightarrow> if probe_ignores (exn_class x) then Inr [] else Inl x
                | Inr gs \<Rightarrow> Inr gs)
          else Inr []
      | _ \<Rightarrow> Inr [])"

definition assistants_request :: "string \<Rightarrow> request" where
  "assistants_request ep = Request ''GET'' (ep @ ''/assistants'') None"

definition probe_endpoint :: "env \<Rightarrow> string \<Rightarrow> (outside, probe) prog" where
  "probe_endpoint e ep u =
     (let (r, u1) = http e (health_request ep) u in
      if \<not> answers_200 r then (Inr \<lparr>pb_reachable = False, pb_graphs = []\<rparr>, u1)
      else
        (let (r2, u2) = http e (assistants_request ep) u1 in
         (follow (probe_graphs r2) (\<lambda>gs. Inr \<lparr>pb_reachable = True, pb_graphs = gs\<rparr>), u2)))"

section \<open>Capability facts\<close>

datatype capability_state = READY | UNAVAILABLE | UNSUPPORTED | NOT_CONFIGURED

datatype capability_detail = Graphs_Detail "string list" | Warnings_Detail "string list" | Span_Count_Detail nat

record capability_fact =
  cf_required :: bool
  cf_state :: capability_state
  cf_status :: string
  cf_detail :: "capability_detail option"

definition optional_fact :: "capability_state \<Rightarrow> string \<Rightarrow> capability_detail option \<Rightarrow> capability_fact" where
  "optional_fact s status detail = \<lparr>cf_required = False, cf_state = s, cf_status = status, cf_detail = detail\<rparr>"

record capabilities =
  cap_execution :: capability_fact
  cap_topology :: capability_fact
  cap_archive :: capability_fact
  cap_collector :: capability_fact
  cap_lifecycle :: capability_fact
  cap_approval :: capability_fact

record connection_diagnostics =
  cd_alias :: string
  cd_endpoint :: string
  cd_checked_at :: string
  cd_capabilities :: capabilities

definition execution_fact :: "probe \<Rightarrow> capability_fact" where
  "execution_fact p =
     \<lparr>cf_required = True, cf_state = (if pb_reachable p then READY else UNAVAILABLE),
      cf_status = (if pb_reachable p then ''reachable'' else ''unreachable''),
      cf_detail = (if pb_reachable p then Some (Graphs_Detail (pb_graphs p)) else None)\<rparr>"

text \<open>\<^verbatim>\<open>_TOPOLOGY_STATE[status]\<close>\<close>

definition topology_state :: "shown_status \<Rightarrow> exn + capability_state" where
  "topology_state s =
     (case s of
        Shown ABSENT \<Rightarrow> Inr NOT_CONFIGURED
      | Shown UNREACHABLE \<Rightarrow> Inr UNAVAILABLE
      | Shown INVALID \<Rightarrow> Inr UNAVAILABLE
      | STALE \<Rightarrow> Inr READY
      | CURRENT \<Rightarrow> Inr READY
      | _ \<Rightarrow> Inl (Exn PyKeyError (quoted (status_text s))))"

definition topology_fact :: "freshness_check \<Rightarrow> exn + capability_fact" where
  "topology_fact freshness =
     follow (correlate_topology (Some freshness) None None) (\<lambda>c.
     follow (topology_state (co_status c)) (\<lambda>s.
       Inr (optional_fact s (status_text (co_status c))
         (if co_warnings c = [] then None else Some (Warnings_Detail (co_warnings c))))))"

definition archive_fact :: "live_path list \<Rightarrow> exn + capability_fact" where
  "archive_fact paths =
     (if paths = [] then Inr (optional_fact NOT_CONFIGURED ''not_configured'' None)
      else follow (archive_health_of paths) (\<lambda>h.
        Inr (optional_fact (if ah_status h = Failed_Archive then UNAVAILABLE else READY) (status_value (ah_status h))
          (if ah_status h = Healthy_Archive then Some (Span_Count_Detail (ah_span_count h)) else None))))"

definition collector_fact :: capability_fact where
  "collector_fact = optional_fact UNSUPPORTED ''unsupported'' None"

definition life_text :: "life_status \<Rightarrow> string" where
  "life_text s = (case s of EXTERNAL \<Rightarrow> ''external'' | RUNNING \<Rightarrow> ''running'' | STOPPED \<Rightarrow> ''stopped''
     | START_FAILED \<Rightarrow> ''start_failed'')"

definition lifecycle_fact :: "life_file \<Rightarrow> string \<Rightarrow> connection \<Rightarrow> bool \<Rightarrow> exn + capability_fact" where
  "lifecycle_fact f alias c execution_ready =
     (if \<not> is_managed c then Inr (optional_fact NOT_CONFIGURED ''external'' None)
      else follow (load_lifecycle f) (\<lambda>data. Inr (
        case map_of data alias of
          None \<Rightarrow> optional_fact READY ''never_started'' None
        | Some rec \<Rightarrow>
            if life_status rec = RUNNING \<and> \<not> execution_ready then optional_fact UNAVAILABLE ''stale'' None
            else optional_fact (if life_status rec = START_FAILED then UNAVAILABLE else READY)
              (life_text (life_status rec)) None)))"

definition approval_fact :: "connection \<Rightarrow> capability_fact" where
  "approval_fact c =
     (if auth_endpoint c \<notin> {None, Some []} then optional_fact READY ''configured'' None
      else optional_fact NOT_CONFIGURED ''not_configured'' None)"

definition diagnose_connection ::
  "(string \<Rightarrow> url_parts option) \<Rightarrow> (json \<Rightarrow> string list) \<Rightarrow> env \<Rightarrow> life_file \<Rightarrow> live_path list \<Rightarrow> string \<Rightarrow>
   string \<Rightarrow> connection \<Rightarrow> (topology_world, connection_diagnostics) prog" where
  "diagnose_connection urlsplit validate_document e lifecycle archive_paths now alias c =
     andthen (at_outside (probe_endpoint e (endpoint c))) (\<lambda>p.
     andthen (check_freshness urlsplit validate_document e (endpoint c)) (\<lambda>freshness.
     andthen (attempt (topology_fact freshness)) (\<lambda>topology.
     andthen (attempt (archive_fact archive_paths)) (\<lambda>archive.
     andthen (attempt (lifecycle_fact lifecycle alias c (cf_state (execution_fact p) = READY))) (\<lambda>life.
       ret \<lparr>cd_alias = alias, cd_endpoint = endpoint c, cd_checked_at = now,
             cd_capabilities = \<lparr>cap_execution = execution_fact p, cap_topology = topology, cap_archive = archive,
               cap_collector = collector_fact, cap_lifecycle = life, cap_approval = approval_fact c\<rparr>\<rparr>)))))"

section \<open>A diagnosis only looks\<close>

definition only_gets :: "string list \<Rightarrow> outside \<Rightarrow> outside \<Rightarrow> bool" where
  "only_gets urls u u' \<longleftrightarrow> (\<exists>new. trace u' = new @ trace u \<and> set new \<subseteq> (\<lambda>url. Http (Request ''GET'' url None)) ` set urls)"

lemma only_gets_refl [simp]: "only_gets urls u u"
  by (simp add: only_gets_def)

lemma only_gets_trans: "only_gets a u v \<Longrightarrow> only_gets b v w \<Longrightarrow> only_gets (a @ b) u w"
  unfolding only_gets_def by (elim exE conjE, rule exI) (auto simp: image_Un)

lemma probe_gets: "only_gets [ep @ ''/health'', ep @ ''/assistants''] u (snd (probe_endpoint e ep u))"
proof (cases "answers_200 (server e (trace u) (health_request ep))")
  case True
  then show ?thesis
    by (auto simp: only_gets_def probe_endpoint_def http_def health_request_def assistants_request_def
        intro!: exI [of _ "[Http (Request ''GET'' (ep @ ''/assistants'') None), Http (Request ''GET'' (ep @ ''/health'') None)]"])
next
  case False
  then show ?thesis
    by (auto simp: only_gets_def probe_endpoint_def http_def health_request_def
        intro!: exI [of _ "[Http (Request ''GET'' (ep @ ''/health'') None)]"])
qed

lemma fetch_gets: "only_gets [rstrip_slash ep @ WELL_KNOWN_PATH] u (snd (fetch_topology urlsplit vd e ep u))"
proof (cases "validate_endpoint urlsplit ep")
  case (Inr k)
  then show ?thesis using validate_endpoint_rstrip [OF Inr]
    by (auto simp: fetch_topology_def http_def only_gets_def)
qed (simp add: fetch_topology_def)

lemma check_freshness_gets:
  "only_gets [rstrip_slash ep @ WELL_KNOWN_PATH] (tw_outside w) (tw_outside (snd (check_freshness urlsplit vd e ep w)))"
proof (cases "validate_endpoint urlsplit ep")
  case (Inr k)
  have k: "k = rstrip_slash ep" using Inr by (rule validate_endpoint_rstrip)
  obtain fr u where f: "fetch_topology urlsplit vd e k (tw_outside w) = (fr, u)" by fastforce
  have u: "only_gets [rstrip_slash ep @ WELL_KNOWN_PATH] (tw_outside w) u"
    using fetch_gets [of k "tw_outside w" urlsplit vd e] f k by simp
  have "tw_outside (snd (check_freshness urlsplit vd e ep w)) = u"
    using Inr f by (auto simp: check_freshness_def topology_steps split: sum.splits option.splits)
  then show ?thesis using u by simp
qed (simp add: check_freshness_def)

text \<open>
  A diagnosis changes nothing: whatever it returns or raises, the snapshots are as before, and all it
  did outside is GET requests of the health, the Assistants and the well-known topology URL of the
  connection; it submits no Run and starts or stops no process.
\<close>

theorem diagnosis_only_looks:
  "snapshots (snd (diagnose_connection urlsplit vd e lifecycle paths now alias c w)) = snapshots w \<and>
   only_gets [endpoint c @ ''/health'', endpoint c @ ''/assistants'', rstrip_slash (endpoint c) @ WELL_KNOWN_PATH]
     (tw_outside w) (tw_outside (snd (diagnose_connection urlsplit vd e lifecycle paths now alias c w)))"
proof -
  obtain p u where p: "probe_endpoint e (endpoint c) (tw_outside w) = (p, u)" by fastforce
  have u: "only_gets [endpoint c @ ''/health'', endpoint c @ ''/assistants''] (tw_outside w) u"
    using probe_gets [of "endpoint c" "tw_outside w" e] p by simp
  let ?w = "w\<lparr>tw_outside := u\<rparr>"
  obtain f w2 where f: "check_freshness urlsplit vd e (endpoint c) ?w = (f, w2)" by fastforce
  have w2: "snapshots w2 = snapshots w"
    "only_gets [rstrip_slash (endpoint c) @ WELL_KNOWN_PATH] u (tw_outside w2)"
    using check_freshness_keeps [of urlsplit vd e "endpoint c" ?w] check_freshness_gets [of "endpoint c" ?w urlsplit vd e] f
    by simp_all
  have "snd (diagnose_connection urlsplit vd e lifecycle paths now alias c w) = (case p of Inl _ \<Rightarrow> ?w | Inr _ \<Rightarrow> w2)"
    using p f by (auto simp: diagnose_connection_def topology_steps andthen_def [of "check_freshness _ _ _ _"] split: sum.splits)
  moreover have "only_gets ([endpoint c @ ''/health'', endpoint c @ ''/assistants''] @ [rstrip_slash (endpoint c) @ WELL_KNOWN_PATH])
      (tw_outside w) (tw_outside w2)" using u w2(2) by (rule only_gets_trans)
  moreover have "only_gets [endpoint c @ ''/health'', endpoint c @ ''/assistants'', rstrip_slash (endpoint c) @ WELL_KNOWN_PATH] (tw_outside w) u"
    using only_gets_trans [OF u only_gets_refl [of "[rstrip_slash (endpoint c) @ WELL_KNOWN_PATH]"]] by simp
  ultimately show ?thesis using w2(1) by (simp split: sum.splits)
qed

section \<open>What each capability says\<close>

lemma probe_reachable:
  "probe_endpoint e ep u = (Inr p, u') \<Longrightarrow> pb_reachable p \<longleftrightarrow> answers_200 (server e (trace u) (health_request ep))"
  by (auto simp: probe_endpoint_def http_def follow_Inr split: if_splits)

lemma diagnose_Inr:
  assumes "diagnose_connection urlsplit vd e lifecycle paths now alias c w = (Inr d, w2)"
  obtains p u f topology archive life where
    "probe_endpoint e (endpoint c) (tw_outside w) = (Inr p, u)"
    "check_freshness urlsplit vd e (endpoint c) (w\<lparr>tw_outside := u\<rparr>) = (Inr f, w2)"
    "topology_fact f = Inr topology" "archive_fact paths = Inr archive"
    "lifecycle_fact lifecycle alias c (pb_reachable p) = Inr life"
    "cd_capabilities d = \<lparr>cap_execution = execution_fact p, cap_topology = topology, cap_archive = archive,
       cap_collector = collector_fact, cap_lifecycle = life, cap_approval = approval_fact c\<rparr>"
proof -
  obtain pr u where pr: "probe_endpoint e (endpoint c) (tw_outside w) = (pr, u)" by fastforce
  obtain p where p: "pr = Inr p" using assms pr by (cases pr) (simp_all add: diagnose_connection_def topology_steps)
  obtain fr w3 where fr: "check_freshness urlsplit vd e (endpoint c) (w\<lparr>tw_outside := u\<rparr>) = (fr, w3)" by fastforce
  obtain f where f: "fr = Inr f"
    using assms pr p fr by (cases fr) (simp_all add: diagnose_connection_def topology_steps andthen_def [of "check_freshness _ _ _ _"])
  have ready: "(cf_state (execution_fact p) = READY) = pb_reachable p" by (simp add: execution_fact_def)
  show thesis
    using assms that pr fr
    by (auto simp: p f ready diagnose_connection_def topology_steps andthen_def [of "check_freshness _ _ _ _"] split: sum.splits)
qed

lemma correlation_status:
  assumes "correlate_topology (Some f) None None = Inr c"
  shows "co_status c = (if fc_status f \<in> {ABSENT, UNREACHABLE, INVALID} then Shown (fc_status f)
    else if fc_status f = CHANGED then STALE else CURRENT)"
  using assms by (auto simp: correlate_topology_def uncorrelated_def Let_def follow_Inr split: if_splits option.splits)

lemma topology_fact_Inr:
  assumes "topology_fact f = Inr t"
  shows "\<not> cf_required t \<and> (cf_state t = UNAVAILABLE \<longleftrightarrow> fc_status f \<in> {UNREACHABLE, INVALID}) \<and>
    (cf_state t = NOT_CONFIGURED \<longleftrightarrow> fc_status f = ABSENT)"
proof -
  obtain c s where c: "correlate_topology (Some f) None None = Inr c" "topology_state (co_status c) = Inr s"
    "cf_state t = s" "\<not> cf_required t"
    using assms by (auto simp: topology_fact_def follow_Inr optional_fact_def)
  show ?thesis using c(2-) unfolding correlation_status [OF c(1)]
    by (cases "fc_status f") (auto simp: topology_state_def)
qed

text \<open>
  C21. The capabilities are told apart: only execution is required, and it is ready exactly when the
  connection's own health request answers 200; a topology that cannot be fetched, a broken archive and a
  managed Deployment that failed to start, or is recorded as running while it cannot be reached, make
  their own capability unavailable and no other.
\<close>

theorem capabilities_kept_apart:
  assumes "diagnose_connection urlsplit vd e lifecycle paths now alias c w = (Inr d, w2)"
  defines "k \<equiv> cd_capabilities d"
  shows "(cf_required (cap_execution k) \<and> \<not> cf_required (cap_topology k) \<and> \<not> cf_required (cap_archive k) \<and>
      \<not> cf_required (cap_collector k) \<and> \<not> cf_required (cap_lifecycle k) \<and> \<not> cf_required (cap_approval k)) \<and>
    cf_state (cap_execution k) =
      (if answers_200 (server e (trace (tw_outside w)) (health_request (endpoint c))) then READY else UNAVAILABLE) \<and>
    (\<exists>w1 f. check_freshness urlsplit vd e (endpoint c) w1 = (Inr f, w2) \<and>
       (cf_state (cap_topology k) = UNAVAILABLE \<longleftrightarrow> fc_status f \<in> {UNREACHABLE, INVALID})) \<and>
    (cf_state (cap_archive k) = UNAVAILABLE \<longleftrightarrow>
       paths \<noteq> [] \<and> (\<exists>h. archive_health_of paths = Inr h \<and> ah_status h = Failed_Archive)) \<and>
    (cf_state (cap_lifecycle k) = UNAVAILABLE \<longleftrightarrow>
       is_managed c \<and> (\<exists>data rec. load_lifecycle lifecycle = Inr data \<and> map_of data alias = Some rec \<and>
         (life_status rec = START_FAILED \<or> life_status rec = RUNNING \<and> cf_state (cap_execution k) \<noteq> READY))) \<and>
    cf_state (cap_approval k) = (if auth_endpoint c \<in> {None, Some []} then NOT_CONFIGURED else READY)"
proof -
  obtain p u f topology archive life where
    d: "probe_endpoint e (endpoint c) (tw_outside w) = (Inr p, u)"
    "check_freshness urlsplit vd e (endpoint c) (w\<lparr>tw_outside := u\<rparr>) = (Inr f, w2)"
    "topology_fact f = Inr topology" "archive_fact paths = Inr archive"
    "lifecycle_fact lifecycle alias c (pb_reachable p) = Inr life"
    and k: "k = \<lparr>cap_execution = execution_fact p, cap_topology = topology, cap_archive = archive,
       cap_collector = collector_fact, cap_lifecycle = life, cap_approval = approval_fact c\<rparr>"
    using diagnose_Inr [OF assms(1)] unfolding k_def by blast
  have exec: "cf_required (execution_fact p)" "cf_state (execution_fact p) =
      (if answers_200 (server e (trace (tw_outside w)) (health_request (endpoint c))) then READY else UNAVAILABLE)"
    "pb_reachable p \<longleftrightarrow> cf_state (execution_fact p) = READY"
    using probe_reachable [OF d(1)] by (simp_all add: execution_fact_def)
  have arch: "\<not> cf_required archive" "cf_state archive = UNAVAILABLE \<longleftrightarrow>
       paths \<noteq> [] \<and> (\<exists>h. archive_health_of paths = Inr h \<and> ah_status h = Failed_Archive)"
    using d(4) by (auto simp: archive_fact_def optional_fact_def follow_Inr split: if_splits)
  have life: "\<not> cf_required life" "cf_state life = UNAVAILABLE \<longleftrightarrow>
       is_managed c \<and> (\<exists>data rec. load_lifecycle lifecycle = Inr data \<and> map_of data alias = Some rec \<and>
         (life_status rec = START_FAILED \<or> life_status rec = RUNNING \<and> cf_state (execution_fact p) \<noteq> READY))"
    using d(5) unfolding exec(3)
    by (auto simp: lifecycle_fact_def optional_fact_def follow_Inr split: if_splits option.splits)
  have rest: "\<not> cf_required collector_fact" "\<not> cf_required (approval_fact c)"
    "cf_state (approval_fact c) = (if auth_endpoint c \<in> {None, Some []} then NOT_CONFIGURED else READY)"
    by (simp_all add: collector_fact_def approval_fact_def optional_fact_def)
  have topo: "\<not> cf_required topology" "\<exists>w1 f. check_freshness urlsplit vd e (endpoint c) w1 = (Inr f, w2) \<and>
       (cf_state topology = UNAVAILABLE \<longleftrightarrow> fc_status f \<in> {UNREACHABLE, INVALID})"
    using topology_fact_Inr [OF d(3)] d(2) by blast+
  show ?thesis unfolding k capabilities.simps by (intro conjI exec(1,2) arch life rest topo)
qed

text \<open>
  An outage is diagnosed, never raised: when no request of the connection is answered, the diagnosis
  still returns, with execution and topology unavailable, provided the endpoint is valid and the archive and
  the lifecycle file can be read; the snapshot store may even be corrupt.
\<close>

theorem outage_is_diagnosed:
  assumes "\<forall>tr r. server e tr r \<in> {TimedOut, Refused}" "validate_endpoint urlsplit (endpoint c) = Inr k"
    "validate_endpoint urlsplit k = Inr k" "readable lifecycle" "paths = [] \<or> archive_health_of paths = Inr h"
  shows "\<exists>d w2. diagnose_connection urlsplit vd e lifecycle paths now alias c w = (Inr d, w2) \<and>
    cap_execution (cd_capabilities d) = \<lparr>cf_required = True, cf_state = UNAVAILABLE, cf_status = ''unreachable'', cf_detail = None\<rparr> \<and>
    cap_topology (cd_capabilities d) = optional_fact UNAVAILABLE ''unreachable'' None"
proof -
  have no: "server e tr r = TimedOut \<or> server e tr r = Refused" for tr r using assms(1) by blast
  let ?u = "tw_outside w"
  let ?u1 = "?u\<lparr>trace := Http (health_request (endpoint c)) # trace ?u\<rparr>"
  have probe: "probe_endpoint e (endpoint c) ?u = (Inr \<lparr>pb_reachable = False, pb_graphs = []\<rparr>, ?u1)"
    using no [of "trace ?u" "health_request (endpoint c)"] by (auto simp: probe_endpoint_def http_def answers_200_def)
  have "\<exists>why u2. fetch_topology urlsplit vd e k ?u1 = (Inr (unreachable_because why), u2)"
    using no [of "trace ?u1" "Request ''GET'' (k @ WELL_KNOWN_PATH) None"] assms(3)
    by (auto simp: fetch_topology_def http_def classify_reply_def)
  then obtain why u2 where fetch: "fetch_topology urlsplit vd e k ?u1 = (Inr (unreachable_because why), u2)" by blast
  let ?f = "\<lparr>fc_status = UNREACHABLE, fc_reading = unreachable_because why\<rparr>"
  have status: "tr_status (unreachable_because why) = UNREACHABLE" by (simp add: unreachable_because_def reading_of_def)
  have fresh: "check_freshness urlsplit vd e (endpoint c) (w\<lparr>tw_outside := ?u1\<rparr>) = (Inr ?f, w\<lparr>tw_outside := u2\<rparr>)"
    using assms(2) fetch status by (simp add: check_freshness_def topology_steps)
  have topology: "topology_fact ?f = Inr (optional_fact UNAVAILABLE ''unreachable'' None)"
    by (simp add: topology_fact_def correlate_topology_def uncorrelated_def topology_state_def status_text_def)
  have "\<exists>a. archive_fact paths = Inr a" using assms(5) by (auto simp: archive_fact_def)
  then obtain a where archive: "archive_fact paths = Inr a" by blast
  have "\<exists>l. lifecycle_fact lifecycle alias c False = Inr l"
    using assms(4) by (simp add: lifecycle_fact_def load_lifecycle_def)
  then obtain l where life: "lifecycle_fact lifecycle alias c False = Inr l" by blast
  show ?thesis
    using probe fresh topology archive life
    by (simp add: diagnose_connection_def topology_steps execution_fact_def andthen_def [of "check_freshness _ _ _ _"])
qed

section \<open>An outage, and an answer the probe does not survive\<close>

definition silent_env :: env where
  "silent_env = \<lparr>server = (\<lambda>_ _. TimedOut), start_process = (\<lambda>_ _ _. Inl []), clock_drift = (\<lambda>_. 0),
     format_number = (\<lambda>_. [])\<rparr>"

definition crashed_conn :: connection where
  "crashed_conn = \<lparr>endpoint = ''http://h'', launch = Some [''run''], idle_after = None, auth_endpoint = None, graph_map = None\<rparr>"

definition claims_running :: life_file where
  "claims_running = Holds [(''a'', \<lparr>life_status = RUNNING, life_pid = Some 7, active_runs = 0, started_at = None,
     last_active = 0, last_error = None\<rparr>)]"

lemma silent_endpoint: "validate_endpoint demo_url ''http://h'' = Inr ''http://h''"
  by code_simp

theorem outage_is_diagnosed_witness:
  "\<exists>d w2. diagnose_connection demo_url (\<lambda>_. []) silent_env claims_running [] ''now'' ''a'' crashed_conn demo_topology_world = (Inr d, w2) \<and>
     cap_execution (cd_capabilities d) = \<lparr>cf_required = True, cf_state = UNAVAILABLE, cf_status = ''unreachable'', cf_detail = None\<rparr>"
  using outage_is_diagnosed [of silent_env demo_url crashed_conn "''http://h''" claims_running "[]" undefined "\<lambda>_. []" "''now''" "''a''"
      demo_topology_world] silent_endpoint
  by (auto simp: silent_env_def crashed_conn_def claims_running_def)

theorem capabilities_kept_apart_witness:
  "\<exists>d w2. diagnose_connection demo_url (\<lambda>_. []) silent_env claims_running [] ''now'' ''a'' crashed_conn demo_topology_world = (Inr d, w2) \<and>
     cf_state (cap_lifecycle (cd_capabilities d)) = UNAVAILABLE \<and> cf_state (cap_archive (cd_capabilities d)) \<noteq> UNAVAILABLE"
proof -
  have "isl (fst (diagnose_connection demo_url (\<lambda>_. []) silent_env claims_running [] ''now'' ''a'' crashed_conn demo_topology_world)) = False"
    by code_simp
  then obtain d w2 where d: "diagnose_connection demo_url (\<lambda>_. []) silent_env claims_running [] ''now'' ''a'' crashed_conn demo_topology_world = (Inr d, w2)"
    by (cases "diagnose_connection demo_url (\<lambda>_. []) silent_env claims_running [] ''now'' ''a'' crashed_conn demo_topology_world"; cases "fst (diagnose_connection demo_url (\<lambda>_. []) silent_env claims_running [] ''now'' ''a'' crashed_conn demo_topology_world)") auto
  note k = capabilities_kept_apart [OF d]
  have "cf_state (cap_execution (cd_capabilities d)) = UNAVAILABLE"
    using k by (simp add: silent_env_def answers_200_def)
  then have "cf_state (cap_lifecycle (cd_capabilities d)) = UNAVAILABLE"
    using k by (simp add: claims_running_def crashed_conn_def is_managed_def load_lifecycle_def)
  then show ?thesis using d k by simp
qed

text \<open>
  The probe is documented to answer without raising. An \<^verbatim>\<open>/assistants\<close> response that is valid JSON but
  no object makes it raise AttributeError, which the handler of the block does not name.
\<close>

lemma probe_raises_on_list:
  assumes "server e (trace u) (health_request ep) = Reply 200 None"
    "server e (Http (health_request ep) # trace u) (assistants_request ep) = Reply 200 (Some (JArr []))"
  shows "\<exists>m. fst (probe_endpoint e ep u) = Inl (Exn PyAttributeError m)"
  using assms
  by (simp add: probe_endpoint_def http_def answers_200_def probe_graphs_def assistant_graphs_def get_default_def
      get_attr_def probe_ignores_def)

end
