(* ===== verification/Cli_Console.thy ===== *)
theory Cli_Console
  imports Router Viewer_Text Connection_Diagnostics
begin

text \<open>
  What the commands of \<^verbatim>\<open>cli.py\<close> share: the console they print on and the board they work on, the exit
  statuses and the way a refused input becomes one, and the input files.
\<close>

section \<open>The console\<close>

definition EXIT_OK :: nat where "EXIT_OK = 0"
definition EXIT_FAILURE :: nat where "EXIT_FAILURE = 1"
definition EXIT_USAGE :: nat where "EXIT_USAGE = 2"

lemma exit_statuses [simp]:
  "EXIT_OK \<noteq> EXIT_USAGE" "EXIT_USAGE \<noteq> EXIT_OK" "EXIT_FAILURE \<noteq> EXIT_USAGE" "EXIT_USAGE \<noteq> EXIT_FAILURE"
  "EXIT_OK \<noteq> EXIT_FAILURE" "EXIT_FAILURE \<noteq> EXIT_OK"
  by (simp_all add: EXIT_OK_def EXIT_FAILURE_def EXIT_USAGE_def)

text \<open>What is printed: a line, or a value as the text \<^verbatim>\<open>json.dumps\<close> or the diagnostics table gives of it.\<close>

datatype printed =
    Line string
  | Result exec_result
  | Outcome route_response
  | Resolved swept
  | Diagnosis connection_diagnostics

record console =
  cn_board :: world
  cn_snapshots :: snapshot_file
  cn_out :: "printed list"
  cn_err :: "string list"

definition on_world :: "(world, 'a) prog \<Rightarrow> (console, 'a) prog" where
  "on_world m = zoom cn_board (\<lambda>w c. c\<lparr>cn_board := w\<rparr>) m"

definition on_topology :: "(topology_world, 'a) prog \<Rightarrow> (console, 'a) prog" where
  "on_topology m =
     zoom (\<lambda>c. \<lparr>snapshots = cn_snapshots c, tw_outside = w_out (cn_board c)\<rparr>)
       (\<lambda>t c. c\<lparr>cn_board := (cn_board c)\<lparr>w_out := tw_outside t\<rparr>, cn_snapshots := snapshots t\<rparr>) m"

definition say :: "printed \<Rightarrow> (console, unit) prog" where
  "say p = changing (\<lambda>c. c\<lparr>cn_out := cn_out c @ [p]\<rparr>)"

text \<open>\<^verbatim>\<open>_fail\<close>\<close>

definition fail :: "string \<Rightarrow> nat \<Rightarrow> (console, nat) prog" where
  "fail message code = andthen (changing (\<lambda>c. c\<lparr>cn_err := cn_err c @ [''cord: '' @ message]\<rparr>)) (\<lambda>_. ret code)"

text \<open>\<^verbatim>\<open>try: x = m except <classes> as exc: return _fail(str(exc), code)\<close>: the exit status, or the value.\<close>

definition checked :: "(exc_class \<Rightarrow> bool) \<Rightarrow> nat \<Rightarrow> (console, 'a) prog \<Rightarrow> (console, nat + 'a) prog" where
  "checked p code m =
     catching p (andthen m (\<lambda>v. ret (Inr v))) (\<lambda>x. andthen (fail (exn_msg x) code) (\<lambda>n. ret (Inl n)))"

definition or_fail ::
  "(exc_class \<Rightarrow> bool) \<Rightarrow> nat \<Rightarrow> (console, 'a) prog \<Rightarrow> ('a \<Rightarrow> (console, nat) prog) \<Rightarrow> (console, nat) prog" where
  "or_fail p code m f = andthen (checked p code m) (\<lambda>r. case r of Inl n \<Rightarrow> ret n | Inr v \<Rightarrow> f v)"

definition invalid_connection :: "exc_class \<Rightarrow> bool" where
  "invalid_connection k \<longleftrightarrow> k = InvalidConnection"

text \<open>
  What the commands take from the operating system and the libraries: the world outside, the files named
  on the command line, the clock, and \<^verbatim>\<open>urlsplit\<close>, the topology validator, \<^verbatim>\<open>shlex.split\<close>,
  \<^verbatim>\<open>json.loads\<close>, \<^verbatim>\<open>sha256(...).hexdigest()\<close> and \<^verbatim>\<open>datetime.fromisoformat(...).isoformat()\<close>.
\<close>

record platform =
  pf_env :: env
  pf_files :: "string \<Rightarrow> read_result"
  pf_now :: seconds
  pf_now_iso :: string
  pf_urlsplit :: "string \<Rightarrow> url_parts option"
  pf_validate :: "json \<Rightarrow> string list"
  pf_shlex :: "string \<Rightarrow> string list option"
  pf_loads :: "string \<Rightarrow> json option"
  pf_sha256 :: "string \<Rightarrow> string"
  pf_isoformat :: "string \<Rightarrow> string option"

section \<open>Input files\<close>

text \<open>\<^verbatim>\<open>_read_json_file\<close>: a file that is not UTF-8 raises a \<^verbatim>\<open>UnicodeDecodeError\<close>, a plain ValueError.\<close>

definition read_json_file :: "(string \<Rightarrow> json option) \<Rightarrow> string \<Rightarrow> string \<Rightarrow> read_result \<Rightarrow> exn + json dict" where
  "read_json_file loads path label r =
     (case r of
        ReadOSError strerror \<Rightarrow>
          Inl (Exn InvalidConnection (''cannot read '' @ label @ '' file '' @ quoted path @ '': '' @ strerror))
      | ReadDecodeError m \<Rightarrow> Inl (Exn PyValueError m)
      | ReadText txt \<Rightarrow>
          (case loads txt of
             None \<Rightarrow> Inl (Exn InvalidConnection (label @ '' file '' @ quoted path @ '' is not valid JSON''))
           | Some (JObj d) \<Rightarrow> Inr d
           | Some _ \<Rightarrow> Inl (Exn InvalidConnection (label @ '' file '' @ quoted path @ '' must contain a JSON object''))))"

section \<open>The connections a command is about\<close>

definition board_connections :: "(console, connection dict) prog" where
  "board_connections = on_world (on_conns (reading load_connections))"

text \<open>The registered connections, or the one that is named.\<close>

definition selected :: "string option \<Rightarrow> connection dict \<Rightarrow> (console, connection dict option) prog" where
  "selected named conns =
     (case named of
        None \<Rightarrow> ret (Some conns)
      | Some a \<Rightarrow> (case map_of conns a of None \<Rightarrow> ret None | Some c \<Rightarrow> ret (Some [(a, c)])))"

definition with_connections ::
  "string option \<Rightarrow> (connection dict \<Rightarrow> (console, nat) prog) \<Rightarrow> (console, nat) prog" where
  "with_connections named f =
     or_fail invalid_connection EXIT_USAGE board_connections (\<lambda>conns.
     andthen (selected named conns) (\<lambda>s.
       case s of
         None \<Rightarrow> fail (''unknown alias '' @ quoted (case named of None \<Rightarrow> [] | Some a \<Rightarrow> a)) EXIT_USAGE
       | Some cs \<Rightarrow> f cs))"

section \<open>What a command leaves alone\<close>

text \<open>The stores and the snapshots are as they were, and nothing was submitted.\<close>

definition same_board :: "console \<Rightarrow> console \<Rightarrow> bool" where
  "same_board c c' \<longleftrightarrow>
     cn_board c' = (cn_board c)\<lparr>w_out := w_out (cn_board c')\<rparr> \<and> cn_snapshots c' = cn_snapshots c \<and>
     submissions (w_out (cn_board c')) = submissions (w_out (cn_board c))"

lemma same_board_refl [simp, intro]: "same_board c c"
  by (simp add: same_board_def)

lemma same_board_trans: "same_board c c1 \<Longrightarrow> same_board c1 c2 \<Longrightarrow> same_board c c2"
  unfolding same_board_def by (metis world.surjective world.update_convs(11))

lemma same_board_printing [simp]:
  "same_board c (c'\<lparr>cn_out := os\<rparr>) = same_board c c'" "same_board c (c'\<lparr>cn_err := es\<rparr>) = same_board c c'"
  by (simp_all add: same_board_def)

definition only_looks :: "(console, 'a) prog \<Rightarrow> bool" where
  "only_looks m \<longleftrightarrow> (\<forall>c. same_board c (snd (m c)))"

text \<open>A usage error means that nothing happened; a program that never ends in one.\<close>

definition usage_safe :: "(console, nat) prog \<Rightarrow> bool" where
  "usage_safe m \<longleftrightarrow> (\<forall>c c'. m c = (Inr EXIT_USAGE, c') \<longrightarrow> same_board c c')"

definition never_usage :: "(console, nat) prog \<Rightarrow> bool" where
  "never_usage m \<longleftrightarrow> (\<forall>c. fst (m c) \<noteq> Inr EXIT_USAGE)"

lemma only_looks_simps [simp]:
  "only_looks (ret x)" "only_looks (say p)" "only_looks (fail m k)" "only_looks (throw cl msg)" "only_looks (getting g)" "only_looks (attempt r)"
  by (simp_all add: only_looks_def ret_def say_def fail_def throw_def getting_def attempt_def changing_def andthen_def)

lemma only_looks_andthen [simp, intro]: "only_looks m \<Longrightarrow> (\<And>x. only_looks (f x)) \<Longrightarrow> only_looks (andthen m f)"
  unfolding only_looks_def andthen_def
  by (auto split: prod.split sum.split) (metis same_board_trans snd_conv)+

lemma looks_safe: "only_looks m \<Longrightarrow> usage_safe m"
  by (metis only_looks_def snd_conv usage_safe_def)

lemma never_safe: "never_usage m \<Longrightarrow> usage_safe m"
  by (metis fst_conv never_usage_def usage_safe_def)

lemma never_usage_simps [simp]: "never_usage (ret n) \<longleftrightarrow> n \<noteq> EXIT_USAGE" "never_usage (fail m n) \<longleftrightarrow> n \<noteq> EXIT_USAGE"
  by (simp_all add: never_usage_def ret_def fail_def changing_def andthen_def)

lemma never_usage_andthen [simp, intro]: "(\<And>x. never_usage (f x)) \<Longrightarrow> never_usage (andthen m f)"
  by (auto simp: never_usage_def andthen_def split: prod.split sum.split)

lemma andthen_safe: "only_looks m \<Longrightarrow> (\<And>x. usage_safe (f x)) \<Longrightarrow> usage_safe (andthen m f)"
  unfolding only_looks_def usage_safe_def andthen_def
  by (auto split: prod.splits sum.splits) (metis same_board_trans snd_conv)

lemma or_fail_eq:
  "or_fail p code m f c = (case m c of
     (Inl x, c') \<Rightarrow> if p (exn_class x) then fail (exn_msg x) code c' else (Inl x, c')
   | (Inr v, c') \<Rightarrow> f v c')"
  by (auto simp: or_fail_def checked_def catching_def andthen_def ret_def fail_def changing_def split: prod.split sum.split)

lemma only_looks_checked: "only_looks m \<Longrightarrow> only_looks (checked p k m)"
  unfolding only_looks_def checked_def
  by (auto simp: catching_def fail_def changing_def andthen_def ret_def split: prod.split sum.split) (metis snd_conv)+

lemma only_looks_or_fail: "only_looks m \<Longrightarrow> (\<And>x. only_looks (f x)) \<Longrightarrow> only_looks (or_fail p k m f)"
  unfolding only_looks_def or_fail_eq
  by (auto simp: fail_def changing_def andthen_def ret_def split: prod.split sum.split) (metis same_board_trans snd_conv same_board_printing(2))+

lemma or_fail_safe: "only_looks m \<Longrightarrow> (\<And>x. usage_safe (f x)) \<Longrightarrow> usage_safe (or_fail p k m f)"
  unfolding only_looks_def usage_safe_def or_fail_eq
  by (auto simp: fail_def changing_def andthen_def ret_def split: prod.splits sum.splits if_splits)
    (metis same_board_trans snd_conv same_board_printing(2))+

lemma or_fail_committed:
  assumes "\<And>c x c'. m c = (Inl x, c') \<Longrightarrow> p (exn_class x) \<Longrightarrow> same_board c c'" and "\<And>x. never_usage (f x)"
  shows "usage_safe (or_fail p k m f)"
  using assms unfolding usage_safe_def never_usage_def or_fail_eq
  by (auto simp: fail_def changing_def andthen_def ret_def split: prod.splits sum.splits if_splits) (metis fst_conv)

lemma on_world_looks:
  assumes "\<And>w. snd (m w) = w\<lparr>w_out := w_out (snd (m w))\<rparr> \<and> submissions (w_out (snd (m w))) = submissions (w_out w)"
  shows "only_looks (on_world m)"
  using assms by (auto simp: only_looks_def on_world_def zoom_def same_board_def split: prod.split) (metis snd_conv)+

lemma board_connections_looks [simp]: "only_looks board_connections"
  unfolding board_connections_def by (rule on_world_looks) (simp add: on_conns_def zoom_def reading_def)

lemma with_connections_safe: "(\<And>cs. usage_safe (f cs)) \<Longrightarrow> usage_safe (with_connections named f)"
  unfolding with_connections_def
  by (rule or_fail_safe; simp?) (auto intro!: andthen_safe looks_safe simp: selected_def split: option.split)

lemma on_topology_looks:
  assumes "\<And>t. snapshots (snd (m t)) = snapshots t \<and> submissions (tw_outside (snd (m t))) = submissions (tw_outside t)"
  shows "only_looks (on_topology m)"
  using assms by (auto simp: only_looks_def on_topology_def zoom_def same_board_def split: prod.split)
    (metis snd_conv topology_world.select_convs)+

end
