(* ===== verification/Cli.thy ===== *)
theory Cli
  imports Cli_Console
begin

text \<open>
  The commands of \<^verbatim>\<open>cli.py\<close> other than \<^verbatim>\<open>view\<close> and \<^verbatim>\<open>serve\<close>, after \<^verbatim>\<open>argparse\<close> has read the
  command line: each is a program on the console that ends in an exit status.
\<close>

section \<open>Connections and topology\<close>

text \<open>\<^verbatim>\<open>shlex.split\<close> raises a plain ValueError on an unclosed quotation, before the \<^verbatim>\<open>try\<close>.\<close>

definition launch_words :: "platform \<Rightarrow> string option \<Rightarrow> exn + string list option" where
  "launch_words pf l =
     (case l of
        None \<Rightarrow> Inr None
      | Some s \<Rightarrow>
          if s = [] then Inr None
          else (case pf_shlex pf s of None \<Rightarrow> Inl (Exn PyValueError ''No closing quotation'') | Some ws \<Rightarrow> Inr (Some ws)))"

definition cmd_add ::
  "platform \<Rightarrow> string \<Rightarrow> string \<Rightarrow> string option \<Rightarrow> seconds option \<Rightarrow> string option \<Rightarrow> bool \<Rightarrow> (console, nat) prog" where
  "cmd_add pf alias ep launch0 idle auth replace =
     andthen (attempt (launch_words pf launch0)) (\<lambda>words.
     or_fail invalid_connection EXIT_USAGE
       (on_world (on_conns (add_connection (pf_urlsplit pf) alias ep words idle auth replace))) (\<lambda>_.
     andthen (say (Line (''added '' @ quoted alias @ '' -> '' @ ep @
         (if words = None \<or> words = Some [] then [] else '' (managed)'')))) (\<lambda>_.
     ret EXIT_OK)))"

definition cmd_auth_endpoint :: "platform \<Rightarrow> string \<Rightarrow> string \<Rightarrow> (console, nat) prog" where
  "cmd_auth_endpoint pf alias auth =
     or_fail invalid_connection EXIT_USAGE
       (on_world (on_conns (set_auth_endpoint (pf_urlsplit pf) alias auth))) (\<lambda>_.
     andthen (say (Line (''set auth_endpoint for '' @ quoted alias @ '' -> '' @ auth))) (\<lambda>_. ret EXIT_OK))"

definition cmd_graph_map :: "string \<Rightarrow> string \<Rightarrow> string \<Rightarrow> (console, nat) prog" where
  "cmd_graph_map alias document_graph_id graph_id =
     or_fail invalid_connection EXIT_USAGE (on_world (on_conns (set_graph_map alias document_graph_id graph_id))) (\<lambda>_.
     andthen (say (Line (''mapped '' @ quoted alias @ '' document graph '' @ quoted document_graph_id @ '' -> '' @ quoted graph_id)))
       (\<lambda>_. ret EXIT_OK))"

definition cmd_deployment_sweep :: "platform \<Rightarrow> (console, nat) prog" where
  "cmd_deployment_sweep pf =
     or_fail invalid_connection EXIT_USAGE board_connections (\<lambda>conns.
     andthen (on_world (on_host (stop_idle conns (pf_now pf)))) (\<lambda>stopped.
     andthen (say (Line (if stopped \<noteq> [] then ''stopped: '' @ join_with '', '' (sort stopped) else ''no idle managed deployments'')))
       (\<lambda>_. ret EXIT_OK)))"

definition tab_separated :: "string list \<Rightarrow> string" where
  "tab_separated = join_with [CHR 9]"

text \<open>\<^verbatim>\<open>for alias in sorted(connections)\<close>, and whether all of them were fine.\<close>

fun each_alias :: "(string \<times> connection \<Rightarrow> (console, bool) prog) \<Rightarrow> connection dict \<Rightarrow> (console, bool) prog" where
  "each_alias f [] = ret True"
| "each_alias f (ac # rest) = andthen (f ac) (\<lambda>b. andthen (each_alias f rest) (\<lambda>bs. ret (b \<and> bs)))"

definition sync_one :: "platform \<Rightarrow> string \<times> connection \<Rightarrow> (console, bool) prog" where
  "sync_one pf ac =
     andthen (on_topology (refresh_snapshot (pf_urlsplit pf) (pf_validate pf) (pf_env pf) (pf_now_iso pf) (endpoint (snd ac)))) (\<lambda>r.
     andthen (say (Line (tab_separated [fst ac, endpoint (snd ac), status_text (Shown (tr_status r))]))) (\<lambda>_.
     ret (tr_status r = VALID)))"

definition cmd_sync :: "platform \<Rightarrow> string option \<Rightarrow> (console, nat) prog" where
  "cmd_sync pf named =
     with_connections named (\<lambda>conns.
       if conns = [] then andthen (say (Line ''no connections registered'')) (\<lambda>_. ret EXIT_OK)
       else andthen (each_alias (sync_one pf) (sorted_keys conns)) (\<lambda>fine. ret (if fine then EXIT_OK else EXIT_FAILURE)))"

definition list_one :: "platform \<Rightarrow> string \<times> connection \<Rightarrow> (console, bool) prog" where
  "list_one pf ac =
     andthen (on_world (on_out (probe_endpoint (pf_env pf) (endpoint (snd ac))))) (\<lambda>p.
     andthen (say (Line (tab_separated [fst ac, endpoint (snd ac), if pb_reachable p then ''reachable'' else ''unreachable'',
         ''graphs='' @ (if pb_graphs p = [] then ''-'' else join_with '', '' (pb_graphs p))]))) (\<lambda>_.
     ret (pb_reachable p)))"

definition cmd_list :: "platform \<Rightarrow> string option \<Rightarrow> (console, nat) prog" where
  "cmd_list pf named =
     with_connections named (\<lambda>conns.
       if conns = [] then andthen (say (Line ''no connections registered'')) (\<lambda>_. ret EXIT_OK)
       else andthen (each_alias (list_one pf) (sorted_keys conns)) (\<lambda>fine. ret (if fine then EXIT_OK else EXIT_FAILURE)))"

definition cmd_diagnose :: "platform \<Rightarrow> string \<Rightarrow> live_path list \<Rightarrow> (console, nat) prog" where
  "cmd_diagnose pf alias archive =
     with_connections (Some alias) (\<lambda>conns.
     andthen (getting (\<lambda>c. w_life (cn_board c))) (\<lambda>lifecycle.
     andthen (on_topology (diagnose_connection (pf_urlsplit pf) (pf_validate pf) (pf_env pf) lifecycle archive (pf_now_iso pf)
         alias (snd (hd conns)))) (\<lambda>d.
     andthen (say (Diagnosis d)) (\<lambda>_.
     ret (if cf_state (cap_execution (cd_capabilities d)) = READY then EXIT_OK else EXIT_FAILURE)))))"

section \<open>Executing\<close>

definition execution_failed :: "exc_class \<Rightarrow> bool" where
  "execution_failed k \<longleftrightarrow> k = PyRuntimeError"

text \<open>The first submission of a Thread fixes its logical Run.\<close>

definition anchor :: "string \<Rightarrow> exec_result \<Rightarrow> (console, unit) prog" where
  "anchor alias res =
     only_if (er_thread_id res \<noteq> [] \<and> er_run_id res \<noteq> [])
       (andthen (on_world (on_continuity (record_submission alias (er_thread_id res) (er_run_id res)))) (\<lambda>_. ret ()))"

definition succeeded_run :: "exec_result \<Rightarrow> bool" where
  "succeeded_run res = (case er_status res of Success _ \<Rightarrow> True | Waiting _ \<Rightarrow> False)"

definition run_inputs :: "platform \<Rightarrow> string \<Rightarrow> string option \<Rightarrow> exn + json \<times> json option" where
  "run_inputs pf input context =
     follow (read_json_file (pf_loads pf) input ''input'' (pf_files pf input)) (\<lambda>i.
       case context of
         None \<Rightarrow> Inr (JObj i, None)
       | Some p \<Rightarrow> follow (read_json_file (pf_loads pf) p ''context'' (pf_files pf p)) (\<lambda>k. Inr (JObj i, Some (JObj k))))"

definition report_run :: "string \<Rightarrow> exec_result \<Rightarrow> (console, nat) prog" where
  "report_run alias res =
     andthen (anchor alias res) (\<lambda>_.
     andthen (say (Result res)) (\<lambda>_.
     ret (if succeeded_run res then EXIT_OK else EXIT_FAILURE)))"

definition cmd_run ::
  "platform \<Rightarrow> string \<Rightarrow> string \<Rightarrow> string \<Rightarrow> string \<Rightarrow> string option \<Rightarrow> seconds \<Rightarrow> (console, nat) prog" where
  "cmd_run pf alias assistant subject input context timeout =
     with_connections (Some alias) (\<lambda>conns.
       if blank subject then fail ''Subject must be a non-empty string'' EXIT_USAGE
       else
         or_fail invalid_connection EXIT_USAGE (attempt (run_inputs pf input context)) (\<lambda>(graph_input, request_context).
         or_fail execution_failed EXIT_FAILURE
           (checked is_value_error EXIT_USAGE
              (on_world (on_out (execute (pf_env pf) (endpoint (snd (hd conns))) assistant subject graph_input request_context timeout None 0))))
           (\<lambda>r. case r of Inl code \<Rightarrow> ret code | Inr res \<Rightarrow> report_run alias res)))"

section \<open>Rules\<close>

definition has_equals :: "string \<Rightarrow> bool" where
  "has_equals item \<longleftrightarrow> CHR ''='' \<in> set item"

text \<open>\<^verbatim>\<open>item.partition('=')\<close>\<close>

definition key_value :: "string \<Rightarrow> string \<times> string" where
  "key_value item = (takeWhile (\<lambda>c. c \<noteq> CHR ''='') item, drop 1 (dropWhile (\<lambda>c. c \<noteq> CHR ''='') item))"

text \<open>\<^verbatim>\<open>_parse_match_kv\<close>\<close>

fun parse_match_kv :: "(string \<Rightarrow> json option) \<Rightarrow> string list \<Rightarrow> json dict \<Rightarrow> exn + json dict" where
  "parse_match_kv loads [] match = Inr match"
| "parse_match_kv loads (item # rest) match =
     (if \<not> has_equals item then Inl (Exn InvalidRule (''expected KEY=VALUE for --match, got '' @ quoted item))
      else
        (case key_value item of (k, raw) \<Rightarrow>
           parse_match_kv loads rest (AList.update k (case loads raw of Some v \<Rightarrow> v | None \<Rightarrow> JStr raw) match)))"

text \<open>\<^verbatim>\<open>_parse_input_kv\<close>\<close>

fun parse_input_kv :: "string list \<Rightarrow> json dict \<Rightarrow> exn + json dict" where
  "parse_input_kv [] mapping = Inr mapping"
| "parse_input_kv (item # rest) mapping =
     (if \<not> has_equals item then Inl (Exn InvalidRule (''expected DEST=PATH for --input, got '' @ quoted item))
      else (case key_value item of (k, path) \<Rightarrow> parse_input_kv rest (AList.update k (JStr path) mapping)))"

record rule_arguments =
  ra_name :: string
  ra_signal_type :: string
  ra_connection :: string
  ra_assistant :: string
  ra_subject :: string
  ra_match :: "string list"
  ra_when :: "string list"
  ra_input :: "string list"
  ra_replace :: bool

definition rule_of_arguments :: "(string \<Rightarrow> json option) \<Rightarrow> rule_arguments \<Rightarrow> exn + json dict" where
  "rule_of_arguments loads a =
     follow (parse_input_kv (ra_input a) []) (\<lambda>mapping.
     follow (parse_match_kv loads (if ra_signal_type a = ''run.finished'' then ra_when a else ra_match a) []) (\<lambda>cond.
       Inr [(''name'', JStr (ra_name a)), (''signal_type'', JStr (ra_signal_type a)), (''connection'', JStr (ra_connection a)),
            (''assistant'', JStr (ra_assistant a)), (''subject'', JStr (ra_subject a)), (''input'', JObj mapping),
            (if ra_signal_type a = ''run.finished'' then ''when'' else ''match'', JObj cond)]))"

definition rule_refused :: "exc_class \<Rightarrow> bool" where
  "rule_refused k \<longleftrightarrow> k = InvalidRule"

definition cmd_rule_add :: "platform \<Rightarrow> rule_arguments \<Rightarrow> (console, nat) prog" where
  "cmd_rule_add pf a =
     or_fail rule_refused EXIT_USAGE
       (andthen (attempt (rule_of_arguments (pf_loads pf) a)) (\<lambda>r. on_world (on_rules (add_rule r (ra_replace a))))) (\<lambda>_.
     andthen (say (Line (''added rule '' @ quoted (ra_name a)))) (\<lambda>_. ret EXIT_OK))"

section \<open>Signals\<close>

text \<open>\<^verbatim>\<open>_route_and_report\<close>\<close>

definition route_and_report :: "platform \<Rightarrow> signal \<Rightarrow> seconds \<Rightarrow> (console, nat) prog" where
  "route_and_report pf sg timeout =
     andthen (on_world (route_signal (pf_env pf) timeout (pf_now pf) sg)) (\<lambda>resp.
     andthen (say (Outcome resp)) (\<lambda>_.
     ret (case resp of Routed sid rn res c \<Rightarrow> if succeeded_run res then EXIT_OK else EXIT_FAILURE | _ \<Rightarrow> EXIT_FAILURE)))"

definition invalid_input :: "exc_class \<Rightarrow> bool" where
  "invalid_input k \<longleftrightarrow> k = InvalidConnection \<or> k = InvalidSignal"

definition invalid_signal :: "exc_class \<Rightarrow> bool" where
  "invalid_signal k \<longleftrightarrow> k = InvalidSignal"

definition cmd_signal_manual :: "platform \<Rightarrow> string \<Rightarrow> string option \<Rightarrow> seconds \<Rightarrow> (console, nat) prog" where
  "cmd_signal_manual pf input signal_id timeout =
     or_fail invalid_input EXIT_USAGE
       (attempt (follow (read_json_file (pf_loads pf) input ''signal input'' (pf_files pf input)) (\<lambda>d.
          manual_signal (JObj d) signal_id (pf_now_iso pf))))
       (\<lambda>sg. route_and_report pf sg timeout)"

definition cmd_signal_file :: "platform \<Rightarrow> string \<Rightarrow> seconds \<Rightarrow> (console, nat) prog" where
  "cmd_signal_file pf path timeout =
     or_fail invalid_signal EXIT_USAGE (attempt (file_signal (pf_loads pf) (pf_sha256 pf) path (pf_files pf path)))
       (\<lambda>sg. route_and_report pf sg timeout)"

definition cmd_signal_schedule :: "platform \<Rightarrow> string \<Rightarrow> string \<Rightarrow> seconds \<Rightarrow> (console, nat) prog" where
  "cmd_signal_schedule pf name at_text timeout =
     (case pf_isoformat pf at_text of
        None \<Rightarrow> fail (''invalid --at timestamp '' @ quoted at_text) EXIT_USAGE
      | Some at_iso \<Rightarrow>
          or_fail invalid_signal EXIT_USAGE (attempt (schedule_signal name at_iso None)) (\<lambda>sg. route_and_report pf sg timeout))"

definition cmd_signal_sweep_pending :: "platform \<Rightarrow> seconds \<Rightarrow> (console, nat) prog" where
  "cmd_signal_sweep_pending pf timeout =
     andthen (on_world (sweep_pending (pf_env pf) (default_status_check (pf_env pf)) timeout (pf_now pf))) (\<lambda>outcomes.
     andthen (if outcomes = [] then say (Line ''no pending completions resolved'') else for_each outcomes (\<lambda>o1. say (Resolved o1))) (\<lambda>_.
     ret EXIT_OK))"

section \<open>The command line\<close>

datatype command =
    Add string string "string option" "seconds option" "string option" bool
  | Auth_Endpoint string string
  | Deployment_Sweep
  | Graph_Map string string string
  | Sync "string option"
  | List_Deployments "string option"
  | Diagnose string "live_path list"
  | Run string string string string "string option" seconds
  | Rule_Add rule_arguments
  | Signal_Manual string "string option" seconds
  | Signal_File string seconds
  | Signal_Schedule string string seconds
  | Signal_Sweep_Pending seconds

text \<open>\<^verbatim>\<open>args.func(args)\<close>\<close>

fun run_command :: "platform \<Rightarrow> command \<Rightarrow> (console, nat) prog" where
  "run_command pf (Add alias ep launch0 idle auth replace) = cmd_add pf alias ep launch0 idle auth replace"
| "run_command pf (Auth_Endpoint alias auth) = cmd_auth_endpoint pf alias auth"
| "run_command pf Deployment_Sweep = cmd_deployment_sweep pf"
| "run_command pf (Graph_Map alias d g) = cmd_graph_map alias d g"
| "run_command pf (Sync named) = cmd_sync pf named"
| "run_command pf (List_Deployments named) = cmd_list pf named"
| "run_command pf (Diagnose alias archive) = cmd_diagnose pf alias archive"
| "run_command pf (Run alias assistant subject input context timeout) = cmd_run pf alias assistant subject input context timeout"
| "run_command pf (Rule_Add a) = cmd_rule_add pf a"
| "run_command pf (Signal_Manual input signal_id timeout) = cmd_signal_manual pf input signal_id timeout"
| "run_command pf (Signal_File path timeout) = cmd_signal_file pf path timeout"
| "run_command pf (Signal_Schedule name at_text timeout) = cmd_signal_schedule pf name at_text timeout"
| "run_command pf (Signal_Sweep_Pending timeout) = cmd_signal_sweep_pending pf timeout"

section \<open>A usage error changes nothing\<close>

lemma refused_unchanged:
  "add_connection us a ep l i auth rep f = (Inl x, f') \<Longrightarrow> f' = f"
  "set_auth_endpoint us a ae f = (Inl x, f') \<Longrightarrow> f' = f"
  "set_graph_map a d g f = (Inl x, f') \<Longrightarrow> f' = f"
  by (auto simp: add_connection_def set_auth_endpoint_def set_graph_map_def andthen_def attempt_def throw_def reading_def
      split: sum.splits option.splits if_splits)

lemma refused_rule: "add_rule r rep f = (Inl x, f') \<Longrightarrow> f' = f"
  by (auto simp: add_rule_def andthen_def attempt_def reading_def throw_def changing_def split: sum.splits option.splits if_splits)

lemma on_conns_refused:
  assumes "\<And>f x f'. m f = (Inl x, f') \<Longrightarrow> f' = f" "on_world (on_conns m) c = (Inl x, c')"
  shows "same_board c c'"
proof -
  obtain f' where f: "m (w_conns (cn_board c)) = (Inl x, f')" "c' = c\<lparr>cn_board := (cn_board c)\<lparr>w_conns := f'\<rparr>\<rparr>"
    using assms(2) by (auto simp: on_world_def on_conns_def zoom_def split: prod.splits)
  then have "c' = c" using assms(1) [OF f(1)] by simp
  then show ?thesis by simp
qed

lemma conns_command_safe:
  assumes "\<And>f x f'. m f = (Inl x, f') \<Longrightarrow> f' = f" "\<And>x. never_usage (g x)"
  shows "usage_safe (or_fail p k (on_world (on_conns m)) g)"
  using assms on_conns_refused by (intro or_fail_committed) blast+

lemma prefix_safe: "(\<And>x. never_usage (f x)) \<Longrightarrow> only_looks m \<Longrightarrow> usage_safe (or_fail p k m f)"
  by (intro or_fail_safe never_safe)

lemma never_usage_if [simp]: "never_usage (if b then m else m') \<longleftrightarrow> (if b then never_usage m else never_usage m')"
  by simp

lemma never_usage_let [intro]: "(\<And>x. never_usage (f x)) \<Longrightarrow> never_usage (case y of (a, b) \<Rightarrow> f (a, b))"
  by (cases y) simp

lemma route_and_report_never [simp]: "never_usage (route_and_report pf sg timeout)"
  unfolding route_and_report_def by (intro never_usage_andthen) (simp split: route_response.split)

lemma report_run_never [simp]: "never_usage (report_run alias res)"
  unfolding report_run_def by (intro never_usage_andthen) simp

lemma list_one_looks: "only_looks (list_one pf ac)"
proof -
  have "only_looks (on_world (on_out (probe_endpoint e ep)))" for e ep
  proof (rule on_world_looks)
    fix w :: world
    have "submissions (snd (probe_endpoint e ep (w_out w))) = submissions (w_out w)"
      using probe_gets [of ep "w_out w" e] by (fastforce simp: only_gets_def submissions_def filter_empty_conv)
    then show "snd (on_out (probe_endpoint e ep) w) = w\<lparr>w_out := w_out (snd (on_out (probe_endpoint e ep) w))\<rparr> \<and>
        submissions (w_out (snd (on_out (probe_endpoint e ep) w))) = submissions (w_out w)"
      by (simp add: on_out_def zoom_def split: prod.split) (metis snd_conv)
  qed
  then show ?thesis unfolding list_one_def by (intro only_looks_andthen) simp_all
qed

text \<open>Refused inputs submit nothing: the only ValueError of \<open>execute\<close> is that of a blank Subject.\<close>

lemma field_no_value_error:
  "field j k = Inl x \<Longrightarrow> \<not> is_value_error (exn_class x)" "str_field j k = Inl x \<Longrightarrow> \<not> is_value_error (exn_class x)"
  by (auto simp: str_field_def field_def split: json.splits option.splits sum.splits)

lemma session_no_value_error: "session_request e ep m p b u = (Inl x, u') \<Longrightarrow> \<not> is_value_error (exn_class x)"
  using session_request_Inl by fastforce

lemma poll_loop_no_value_error:
  "fst (poll_loop e ep r t d u) = Inl x \<Longrightarrow> \<not> is_value_error (exn_class x)"
proof (induction e ep r t d u rule: poll_loop.induct)
  case (1 e ep r t d u)
  obtain res u1 where q: "session_request e ep ''GET'' (run_path t r) None u = (res, u1)"
    by (cases "session_request e ep ''GET'' (run_path t r) None u")
  show ?case
  proof (cases res)
    case (Inl y)
    then show ?thesis using q 1(2) session_no_value_error by (simp add: poll_loop.simps [of e ep r t d u])
  next
    case (Inr current)
    obtain t2 u2 where m: "monotonic e u1 = (t2, u2)" by (cases "monotonic e u1")
    obtain res3 u3 where v: "session_request e ep ''GET'' (state_path t) None u1 = (res3, u3)"
      by (cases "session_request e ep ''GET'' (state_path t) None u1")
    show ?thesis
      using 1 q Inr m v session_no_value_error [of e ep "''GET''" "state_path t" None u1] field_no_value_error(1)
      by (auto simp: poll_loop.simps [of e ep r t d u] Let_def split: sum.splits if_splits)
  qed
qed

lemma execute_no_value_error:
  assumes "execute e ep a subject i k timeout cb n u = (Inl x, u')" "\<not> blank subject"
  shows "\<not> is_value_error (exn_class x)"
  using assms field_no_value_error(2) session_no_value_error poll_loop_no_value_error
  by (auto simp: execute_def andthen_def attempt_def poll_until_settled_def Let_def split: sum.splits prod.splits) (metis fst_conv)+

lemma execute_checked_never:
  assumes "\<not> blank subject"
  shows "never_usage (or_fail execution_failed EXIT_FAILURE
      (checked is_value_error EXIT_USAGE (on_world (on_out (execute e ep a subject i k timeout None 0))))
      (\<lambda>r. case r of Inl code \<Rightarrow> ret code | Inr res \<Rightarrow> report_run alias res))"
proof -
  have "fst (or_fail execution_failed EXIT_FAILURE
      (checked is_value_error EXIT_USAGE (on_world (on_out (execute e ep a subject i k timeout None 0))))
      (\<lambda>r. case r of Inl code \<Rightarrow> ret code | Inr res \<Rightarrow> report_run alias res) c) \<noteq> Inr EXIT_USAGE" for c
  proof -
    obtain r u' where x: "execute e ep a subject i k timeout None 0 (w_out (cn_board c)) = (r, u')"
      by (cases "execute e ep a subject i k timeout None 0 (w_out (cn_board c))")
    show ?thesis
    proof (cases r)
      case (Inl y)
      then show ?thesis using x execute_no_value_error [OF _ assms]
        by (auto simp: or_fail_eq checked_def catching_def andthen_def ret_def on_world_def on_out_def zoom_def fail_def changing_def)
    next
      case (Inr res)
      then show ?thesis using x report_run_never [of _ res]
        by (auto simp: or_fail_eq checked_def catching_def andthen_def ret_def on_world_def on_out_def zoom_def never_usage_def)
    qed
  qed
  then show ?thesis by (simp add: never_usage_def)
qed

lemma cmd_run_safe: "usage_safe (cmd_run pf alias assistant subject input context timeout)"
  unfolding cmd_run_def
  by (rule with_connections_safe)
    (auto simp: split_beta looks_safe intro!: prefix_safe execute_checked_never)

lemma run_command_safe: "usage_safe (run_command pf cmd)"
proof (cases cmd)
  case (Add al ep launch0 idle auth replace)
  then show ?thesis unfolding Add run_command.simps cmd_add_def
    by (intro andthen_safe conns_command_safe) (auto dest: refused_unchanged)
next
  case (Auth_Endpoint al auth)
  then show ?thesis unfolding Auth_Endpoint run_command.simps cmd_auth_endpoint_def
    by (intro conns_command_safe) (auto dest: refused_unchanged)
next
  case Deployment_Sweep
  then show ?thesis unfolding Deployment_Sweep run_command.simps cmd_deployment_sweep_def by (intro prefix_safe) auto
next
  case (Graph_Map al d g)
  then show ?thesis unfolding Graph_Map run_command.simps cmd_graph_map_def
    by (intro conns_command_safe) (auto dest: refused_unchanged)
next
  case (Sync named)
  then show ?thesis unfolding Sync run_command.simps cmd_sync_def by (intro with_connections_safe never_safe) auto
next
  case (List_Deployments named)
  then show ?thesis unfolding List_Deployments run_command.simps cmd_list_def by (intro with_connections_safe never_safe) auto
next
  case (Diagnose al archive)
  then show ?thesis unfolding Diagnose run_command.simps cmd_diagnose_def by (intro with_connections_safe never_safe) auto
next
  case (Run al assistant subject input ctx timeout)
  then show ?thesis by (simp add: cmd_run_safe)
next
  case (Rule_Add a)
  have "same_board c c'" if m: "andthen (attempt (rule_of_arguments (pf_loads pf) a)) (\<lambda>r. on_world (on_rules (add_rule r (ra_replace a)))) c = (Inl x, c')" for c x c'
  proof (cases "rule_of_arguments (pf_loads pf) a")
    case (Inr r)
    then obtain f' where f: "add_rule r (ra_replace a) (w_rules (cn_board c)) = (Inl x, f')" "c' = c\<lparr>cn_board := (cn_board c)\<lparr>w_rules := f'\<rparr>\<rparr>"
      using m by (auto simp: andthen_def attempt_def on_world_def on_rules_def zoom_def split: prod.splits)
    then have "c' = c" using refused_rule [OF f(1)] by simp
    then show ?thesis by simp
  qed (use m in \<open>simp add: andthen_def attempt_def\<close>)
  then show ?thesis unfolding Rule_Add run_command.simps cmd_rule_add_def by (intro or_fail_committed) auto
next
  case (Signal_Manual input signal_id timeout)
  then show ?thesis unfolding Signal_Manual run_command.simps cmd_signal_manual_def by (intro prefix_safe) auto
next
  case (Signal_File path timeout)
  then show ?thesis unfolding Signal_File run_command.simps cmd_signal_file_def by (intro prefix_safe) auto
next
  case (Signal_Schedule name at_text timeout)
  then show ?thesis unfolding Signal_Schedule run_command.simps cmd_signal_schedule_def
    by (auto simp: looks_safe intro!: prefix_safe split: option.split)
next
  case (Signal_Sweep_Pending timeout)
  then show ?thesis unfolding Signal_Sweep_Pending run_command.simps cmd_signal_sweep_pending_def by (intro never_safe) auto
qed

text \<open>
  C18. Exit status 2 means that nothing happened: a command that refuses its input has written no store and no
  snapshot and has submitted nothing, whatever the command and wherever it notices.
\<close>

theorem usage_error_changes_nothing:
  assumes "run_command pf cmd c = (Inr EXIT_USAGE, c')"
  shows "same_board c c'"
  using run_command_safe [of pf cmd] assms by (auto simp: usage_safe_def)

section \<open>What a Run's exit status says\<close>

lemma board_connections_app: "board_connections c = (load_connections (w_conns (cn_board c)), c)"
  by (simp add: board_connections_def on_world_def on_conns_def zoom_def reading_def)

lemma say_app: "say p c = (Inr (), c\<lparr>cn_out := cn_out c @ [p]\<rparr>)"
  by (simp add: say_def changing_def)

lemma cmd_run_executes:
  assumes "cmd_run pf a0 assistant subject input ctx timeout c = (Inr n, c')" "n \<noteq> EXIT_USAGE"
  obtains conn :: connection and i k r u where "\<not> blank subject"
    "execute (pf_env pf) (endpoint conn) assistant subject i k timeout None 0 (w_out (cn_board c)) = (r, u)"
    "case r of
       Inl x \<Rightarrow> n = EXIT_FAILURE \<and> c' = c\<lparr>cn_board := (cn_board c)\<lparr>w_out := u\<rparr>, cn_err := cn_err c @ [''cord: '' @ exn_msg x]\<rparr>
     | Inr res \<Rightarrow> report_run a0 res (c\<lparr>cn_board := (cn_board c)\<lparr>w_out := u\<rparr>\<rparr>) = (Inr n, c')"
proof -
  obtain conns where l: "load_connections (w_conns (cn_board c)) = Inr conns"
    using assms by (cases "load_connections (w_conns (cn_board c))")
      (auto simp: cmd_run_def with_connections_def or_fail_eq board_connections_app fail_def andthen_def changing_def ret_def split: if_splits)
  obtain conn where a: "map_of conns a0 = Some conn"
    using assms l by (cases "map_of conns a0")
      (auto simp: cmd_run_def with_connections_def or_fail_eq board_connections_app fail_def andthen_def changing_def ret_def selected_def)
  have s: "\<not> blank subject"
    using assms l a by (auto simp: cmd_run_def with_connections_def or_fail_eq board_connections_app fail_def andthen_def changing_def ret_def selected_def)
  obtain i k where ik: "run_inputs pf input ctx = Inr (i, k)"
    using assms l a s by (cases "run_inputs pf input ctx")
      (auto simp: cmd_run_def with_connections_def or_fail_eq board_connections_app fail_def andthen_def changing_def ret_def selected_def
        attempt_def split: if_splits)
  obtain r u where x: "execute (pf_env pf) (endpoint conn) assistant subject i k timeout None 0 (w_out (cn_board c)) = (r, u)"
    by (cases "execute (pf_env pf) (endpoint conn) assistant subject i k timeout None 0 (w_out (cn_board c))")
  have run: "cmd_run pf a0 assistant subject input ctx timeout c = or_fail execution_failed EXIT_FAILURE
      (checked is_value_error EXIT_USAGE (on_world (on_out (execute (pf_env pf) (endpoint conn) assistant subject i k timeout None 0))))
      (\<lambda>r. case r of Inl code \<Rightarrow> ret code | Inr res \<Rightarrow> report_run a0 res) c"
    using l a s ik by (simp add: cmd_run_def with_connections_def or_fail_eq board_connections_app andthen_def ret_def selected_def attempt_def)
  show thesis
  proof (rule that [OF s x], cases r)
    case (Inl y)
    then show "case r of
       Inl x \<Rightarrow> n = EXIT_FAILURE \<and> c' = c\<lparr>cn_board := (cn_board c)\<lparr>w_out := u\<rparr>, cn_err := cn_err c @ [''cord: '' @ exn_msg x]\<rparr>
     | Inr res \<Rightarrow> report_run a0 res (c\<lparr>cn_board := (cn_board c)\<lparr>w_out := u\<rparr>\<rparr>) = (Inr n, c')"
      using run x assms execute_no_value_error [OF _ s]
      by (auto simp: or_fail_eq checked_def catching_def andthen_def ret_def on_world_def on_out_def zoom_def fail_def changing_def split: if_splits)
  next
    case (Inr res)
    then show "case r of
       Inl x \<Rightarrow> n = EXIT_FAILURE \<and> c' = c\<lparr>cn_board := (cn_board c)\<lparr>w_out := u\<rparr>, cn_err := cn_err c @ [''cord: '' @ exn_msg x]\<rparr>
     | Inr res \<Rightarrow> report_run a0 res (c\<lparr>cn_board := (cn_board c)\<lparr>w_out := u\<rparr>\<rparr>) = (Inr n, c')"
      using run x assms by (simp add: or_fail_eq checked_def catching_def andthen_def ret_def on_world_def on_out_def zoom_def)
  qed
qed

text \<open>A recorded submission: in its Thread's record, and its first one names the logical Run.\<close>

definition anchored :: "continuity_file \<Rightarrow> continuity_file \<Rightarrow> string \<Rightarrow> exec_result \<Rightarrow> bool" where
  "anchored f f' d res \<longleftrightarrow>
     (\<exists>rec. thread_record f' d (er_thread_id res) = Some rec \<and> er_run_id res \<in> set (api_run_ids rec) \<and>
        (thread_record f d (er_thread_id res) = None \<longrightarrow> logical_id rec = er_run_id res))"

lemma anchor_Inr:
  assumes "anchor d res c = (Inr v, c')" "continuity_inv (w_cont (cn_board c))"
  shows "cn_out c' = cn_out c \<and> w_out (cn_board c') = w_out (cn_board c) \<and>
    (er_thread_id res \<noteq> [] \<and> er_run_id res \<noteq> [] \<longrightarrow> anchored (w_cont (cn_board c)) (w_cont (cn_board c')) d res)"
proof (cases "er_thread_id res \<noteq> [] \<and> er_run_id res \<noteq> []")
  case False
  then show ?thesis using assms(1) by (auto simp: anchor_def only_if_def ret_def)
next
  case True
  let ?f = "w_cont (cn_board c)"
  obtain l f' where r: "record_submission d (er_thread_id res) (er_run_id res) ?f = (Inr l, f')"
      "c' = c\<lparr>cn_board := (cn_board c)\<lparr>w_cont := f'\<rparr>\<rparr>"
    using assms(1) True
    by (auto simp: anchor_def only_if_def andthen_def ret_def on_world_def on_continuity_def zoom_def split: prod.splits sum.splits)
  have valid: "\<not> blank d" "\<not> blank (er_thread_id res)" "\<not> blank (er_run_id res)"
    using r(1) validate_submission_Inr [of d "er_thread_id res" "er_run_id res"]
    by (auto simp: record_submission_def andthen_def attempt_def split: sum.splits)
  obtain f2 where "f2 = f'" "thread_record f2 d (er_thread_id res) = Some (extended (thread_record ?f d (er_thread_id res)) (er_run_id res))"
    using record_submission_eq [OF assms(2) valid] r(1) by (metis prod.inject)
  then have "anchored ?f f' d res" by (auto simp: anchored_def extended_def split: option.split)
  then show ?thesis using r(2) True by simp
qed

text \<open>
  C19. What the exit status of \<^verbatim>\<open>cord run\<close> says is true: 0 means that exactly one Run was submitted, that it
  succeeded, that this result is the one line printed, and that the Run is recorded in its Thread, as the
  logical Run when it is the Thread's first.
\<close>

theorem run_success_is_recorded:
  assumes "cmd_run pf a0 assistant subject input ctx timeout c = (Inr EXIT_OK, c')" "continuity_inv (w_cont (cn_board c))"
  shows "\<exists>res ev. succeeded_run res \<and> cn_out c' = cn_out c @ [Result res] \<and>
    submissions (w_out (cn_board c')) = ev # submissions (w_out (cn_board c)) \<and>
    (er_thread_id res \<noteq> [] \<and> er_run_id res \<noteq> [] \<longrightarrow> anchored (w_cont (cn_board c)) (w_cont (cn_board c')) a0 res)"
proof -
  obtain conn :: connection and i k r u where "\<not> blank subject"
    and x: "execute (pf_env pf) (endpoint conn) assistant subject i k timeout None 0 (w_out (cn_board c)) = (r, u)"
    and r: "case r of
       Inl x \<Rightarrow> EXIT_OK = EXIT_FAILURE \<and> c' = c\<lparr>cn_board := (cn_board c)\<lparr>w_out := u\<rparr>, cn_err := cn_err c @ [''cord: '' @ exn_msg x]\<rparr>
     | Inr res \<Rightarrow> report_run a0 res (c\<lparr>cn_board := (cn_board c)\<lparr>w_out := u\<rparr>\<rparr>) = (Inr EXIT_OK, c')"
    by (rule cmd_run_executes [OF assms(1)]) simp_all
  obtain res where res: "r = Inr res" "report_run a0 res (c\<lparr>cn_board := (cn_board c)\<lparr>w_out := u\<rparr>\<rparr>) = (Inr EXIT_OK, c')"
    using r by (cases r) auto
  then obtain c2 v where a: "anchor a0 res (c\<lparr>cn_board := (cn_board c)\<lparr>w_out := u\<rparr>\<rparr>) = (Inr v, c2)" "succeeded_run res"
      "c' = c2\<lparr>cn_out := cn_out c2 @ [Result res]\<rparr>"
    by (auto simp: report_run_def andthen_def say_app ret_def split: prod.splits sum.splits if_splits)
  have "\<exists>ev. submissions u = ev # submissions (w_out (cn_board c))"
    using x res(1) by (cases rule: execute_cases [of "pf_env pf" "endpoint conn" assistant subject i k timeout None 0 "w_out (cn_board c)"]) auto
  then show ?thesis using anchor_Inr [OF a(1)] a(2,3) assms(2) by auto
qed

section \<open>The commands at work\<close>

definition prompt_env :: env where
  "prompt_env = \<lparr>server = (\<lambda>_ _. Reply 200 (Some (JObj [(''thread_id'', JStr ''t''), (''run_id'', JStr ''r''),
       (''status'', JStr ''success''), (''values'', JObj [])]))),
     start_process = (\<lambda>_ _ _. Inr 1), clock_drift = (\<lambda>_. 1), format_number = (\<lambda>_. [])\<rparr>"

definition prompt_platform :: platform where
  "prompt_platform = \<lparr>pf_env = prompt_env, pf_files = (\<lambda>p. if p = ''bytes'' then ReadDecodeError ''utf-8'' else ReadText ''{}''),
     pf_now = 0, pf_now_iso = ''now'', pf_urlsplit = demo_url, pf_validate = (\<lambda>_. []), pf_shlex = (\<lambda>_. None),
     pf_loads = (\<lambda>_. Some (JObj [])), pf_sha256 = id, pf_isoformat = Some\<rparr>"

definition desk :: console where
  "desk = \<lparr>cn_board = (new_board at_zero)\<lparr>w_conns := Holds
       [(''d'', \<lparr>endpoint = ''http://h'', launch = None, idle_after = None, auth_endpoint = None, graph_map = None\<rparr>)]\<rparr>,
     cn_snapshots = Absent, cn_out = [], cn_err = []\<rparr>"

lemma desk_refuses: "fst (run_command prompt_platform (Run ''d'' ''a'' ''  '' ''in'' None 1) desk) = Inr EXIT_USAGE"
  by code_simp

theorem usage_error_changes_nothing_witness:
  "same_board desk (snd (run_command prompt_platform (Run ''d'' ''a'' ''  '' ''in'' None 1) desk))"
  by (rule usage_error_changes_nothing [of prompt_platform "Run ''d'' ''a'' ''  '' ''in'' None 1"])
    (use desk_refuses in \<open>simp add: prod_eq_iff\<close>)

lemma desk_runs: "fst (cmd_run prompt_platform ''d'' ''a'' ''s'' ''in'' None 1 desk) = Inr EXIT_OK"
  by code_simp

theorem run_success_is_recorded_witness:
  "\<exists>res ev. succeeded_run res \<and> cn_out (snd (cmd_run prompt_platform ''d'' ''a'' ''s'' ''in'' None 1 desk)) = [Result res] \<and>
     submissions (w_out (cn_board (snd (cmd_run prompt_platform ''d'' ''a'' ''s'' ''in'' None 1 desk)))) = [ev]"
proof -
  have "cmd_run prompt_platform ''d'' ''a'' ''s'' ''in'' None 1 desk =
      (Inr EXIT_OK, snd (cmd_run prompt_platform ''d'' ''a'' ''s'' ''in'' None 1 desk))"
    using desk_runs by (simp add: prod_eq_iff)
  moreover have "continuity_inv (w_cont (cn_board desk))" by (simp add: desk_def new_board_def continuity_inv_Absent)
  ultimately show ?thesis
    using run_success_is_recorded [of prompt_platform "''d''" "''a''" "''s''" "''in''" None 1 desk]
    by (fastforce simp: desk_def new_board_def at_zero_def submissions_def)
qed

text \<open>
  A file that is not UTF-8 is an input \<open>cord\<close> cannot read, but the \<open>UnicodeDecodeError\<close> passes every
  \<open>except\<close> clause: the command ends in a traceback, not in the exit status 2 of an invalid input.
\<close>

lemma undecodable_input_escapes:
  "fst (cmd_run prompt_platform ''d'' ''a'' ''s'' ''bytes'' None 1 desk) = Inl (Exn PyValueError ''utf-8'')"
  "fst (cmd_signal_manual prompt_platform ''bytes'' None 1 desk) = Inl (Exn PyValueError ''utf-8'')"
  "fst (cmd_signal_file prompt_platform ''bytes'' 1 desk) = Inl (Exn PyValueError ''utf-8'')"
  by code_simp+

text \<open>
  A connections file of the wrong shape is an invalid input too, but the signal commands read it outside
  every \<^verbatim>\<open>try\<close>: it ends them in a traceback.
\<close>

definition damaged_desk :: console where
  "damaged_desk = desk\<lparr>cn_board := (new_board at_zero)\<lparr>w_conns := WrongShape\<rparr>\<rparr>"

lemma damaged_connections_escape:
  "\<exists>m. fst (cmd_signal_sweep_pending prompt_platform 1 damaged_desk) = Inl (Exn InvalidConnection m)"
  "fst (cmd_sync prompt_platform None damaged_desk) = Inr EXIT_USAGE"
proof -
  have "fst (cmd_signal_sweep_pending prompt_platform 1 damaged_desk) =
      Inl (Exn InvalidConnection ''connections file must be a JSON object of alias -> record'')"
    by code_simp
  then show "\<exists>m. fst (cmd_signal_sweep_pending prompt_platform 1 damaged_desk) = Inl (Exn InvalidConnection m)" by blast
  show "fst (cmd_sync prompt_platform None damaged_desk) = Inr EXIT_USAGE" by code_simp
qed

end
