(* ===== verification/Aegra_Stream.thy ===== *)
theory Aegra_Stream
  imports Aegra_Client Py_Text
begin

text \<open>
  The event-stream half of \<^verbatim>\<open>aegra_client.py\<close>: the parser of the wire format (\<^verbatim>\<open>_iter_sse_events\<close>), one
  connection (\<^verbatim>\<open>stream_lifecycle\<close>) and the reconnecting watch (\<^verbatim>\<open>watch_lifecycle\<close>). A generator is the
  list of what it yields and the exception that ends it, if any. What a server sends on its \<open>k\<close>-th
  connection and what \<^verbatim>\<open>json.loads\<close> makes of a text are parameters.
\<close>

section \<open>The wire format\<close>

text \<open>A frame: the event's name, its data and its id.\<close>

record sse_frame =
  fr_event :: string
  fr_data :: string
  fr_id :: "string option"

text \<open>The fields of the frame being read; \<open>None\<close> among the lines is what the code skips.\<close>

record sse_state =
  ss_event :: "string option"
  ss_data :: "string list"
  ss_id :: "string option"

definition sse_start :: sse_state where
  "sse_start = \<lparr>ss_event = None, ss_data = [], ss_id = None\<rparr>"

definition LF :: string where "LF = [char_of (10::nat)]"

definition finished_frame :: "sse_state \<Rightarrow> sse_frame list" where
  "finished_frame s =
     (if ss_event s \<noteq> None \<or> ss_data s \<noteq> []
      then [\<lparr>fr_event = (case ss_event s of None \<Rightarrow> ''message'' | Some v \<Rightarrow> if v = [] then ''message'' else v),
             fr_data = join_with LF (ss_data s), fr_id = ss_id s\<rparr>]
      else [])"

definition field_line :: "string \<Rightarrow> sse_state \<Rightarrow> sse_state" where
  "field_line line s =
     (if starts_with '':'' line then s
      else if starts_with ''event:'' line then s\<lparr>ss_event := Some (strip (drop 6 line))\<rparr>
      else if starts_with ''data:'' line then s\<lparr>ss_data := ss_data s @ [strip (drop 5 line)]\<rparr>
      else if starts_with ''id:'' line then s\<lparr>ss_id := Some (strip (drop 3 line))\<rparr>
      else s)"

fun iter_sse_events :: "string option list \<Rightarrow> sse_state \<Rightarrow> sse_frame list" where
  "iter_sse_events [] s = []"
| "iter_sse_events (None # lines) s = iter_sse_events lines s"
| "iter_sse_events (Some line # lines) s =
     (if line = [] then finished_frame s @ iter_sse_events lines sse_start
      else iter_sse_events lines (field_line line s))"

section \<open>One connection\<close>

definition LIFECYCLE_EVENTS :: "string list" where
  "LIFECYCLE_EVENTS = [''metadata'', ''end'', ''error'']"

record lifecycle_event =
  le_event :: string
  le_data :: json
  le_id :: "string option"

text \<open>
  What opening a stream gives: no connection, or a status and the lines that arrive until the server
  ends the stream, or the connection breaks.
\<close>

datatype stream_reply = No_Stream | Stream int "string option list" bool

record stream_request =
  sq_url :: string
  sq_last_event_id :: "string option"

definition stream_failed :: exn where
  "stream_failed = Exn PyRuntimeError ''Aegra stream request failed; check service readiness and input contract''"

definition lifecycle_frame :: "(string \<Rightarrow> json option) \<Rightarrow> sse_frame \<Rightarrow> lifecycle_event option" where
  "lifecycle_frame loads fr =
     (if fr_event fr \<notin> set LIFECYCLE_EVENTS then None
      else map_option (\<lambda>j. \<lparr>le_event = fr_event fr, le_data = j, le_id = fr_id fr\<rparr>)
             (if fr_data fr = [] then Some (JObj []) else loads (fr_data fr)))"

definition stream_lifecycle ::
  "(nat \<Rightarrow> stream_request \<Rightarrow> stream_reply) \<Rightarrow> (string \<Rightarrow> json option) \<Rightarrow> string \<Rightarrow> string \<Rightarrow> string \<Rightarrow>
   string option \<Rightarrow> nat \<Rightarrow> lifecycle_event list \<times> exn option" where
  "stream_lifecycle open_stream loads ep thread_id run_id last_event_id k =
     (if blank thread_id then ([], Some (Exn PyValueError ''Thread ID must be a non-empty string''))
      else if blank run_id then ([], Some (Exn PyValueError ''Run ID must be a non-empty string''))
      else
        case open_stream k
               \<lparr>sq_url = rstrip_slash ep @ ''/threads/'' @ thread_id @ ''/runs/'' @ run_id @ ''/stream'',
                sq_last_event_id = (if last_event_id = Some [] then None else last_event_id)\<rparr> of
          No_Stream \<Rightarrow> ([], Some stream_failed)
        | Stream status lines broken \<Rightarrow>
            if \<not> (200 \<le> status \<and> status < 300) then ([], Some stream_failed)
            else (List.map_filter (lifecycle_frame loads) (iter_sse_events lines sse_start),
                  if broken then Some stream_failed else None))"

section \<open>Watching across reconnects\<close>

definition is_terminal_event :: "lifecycle_event \<Rightarrow> bool" where
  "is_terminal_event ev = (le_event ev \<in> {''end'', ''error''})"

text \<open>\<^verbatim>\<open>if event_id: last_event_id = event_id\<close>, over the events of one connection.\<close>

fun last_id_seen :: "string option \<Rightarrow> lifecycle_event list \<Rightarrow> string option" where
  "last_id_seen prev [] = prev"
| "last_id_seen prev (ev # evs) =
     last_id_seen (case le_id ev of None \<Rightarrow> prev | Some i \<Rightarrow> if i = [] then prev else Some i) evs"

text \<open>A connection of the watch: the id it resumed after, and what it yielded.\<close>

type_synonym connection_log = "(string option \<times> lifecycle_event list) list"

partial_function (option) watch_loop ::
  "env \<Rightarrow> (nat \<Rightarrow> stream_request \<Rightarrow> stream_reply) \<Rightarrow> (string \<Rightarrow> json option) \<Rightarrow> string \<Rightarrow> string \<Rightarrow> string \<Rightarrow>
   seconds \<Rightarrow> seconds \<Rightarrow> string option \<Rightarrow> bool \<Rightarrow> nat \<Rightarrow> outside \<Rightarrow> (connection_log \<times> exn option) option" where
  "watch_loop e open_stream loads ep thread_id run_id reconnect_delay deadline last_id saw_terminal k u =
     (if saw_terminal then Some ([], None)
      else if deadline \<le> fst (monotonic e u) then Some ([], None)
      else
        (let u2 = snd (monotonic e (snd (monotonic e u)));
             conn = stream_lifecycle open_stream loads ep thread_id run_id last_id k;
             evs = fst conn;
             last' = last_id_seen last_id evs;
             saw' = list_ex is_terminal_event evs
         in case snd conn of
              None \<Rightarrow>
                Option.bind (watch_loop e open_stream loads ep thread_id run_id reconnect_delay deadline last' saw' (Suc k) u2)
                  (\<lambda>rest. Some ((last_id, evs) # fst rest, snd rest))
            | Some x \<Rightarrow>
                if exn_class x \<noteq> PyRuntimeError then Some ([(last_id, evs)], Some x)
                else if deadline \<le> fst (monotonic e u2) then Some ([(last_id, evs)], Some x)
                else if reconnect_delay < 0
                then Some ([(last_id, evs)], Some (Exn PyValueError ''sleep length must be non-negative''))
                else
                  Option.bind (watch_loop e open_stream loads ep thread_id run_id reconnect_delay deadline last' saw' (Suc k)
                      (sleep reconnect_delay (snd (monotonic e u2))))
                    (\<lambda>rest. Some ((last_id, evs) # fst rest, snd rest))))"

definition watch_lifecycle ::
  "env \<Rightarrow> (nat \<Rightarrow> stream_request \<Rightarrow> stream_reply) \<Rightarrow> (string \<Rightarrow> json option) \<Rightarrow> string \<Rightarrow> string \<Rightarrow> string \<Rightarrow>
   seconds \<Rightarrow> seconds \<Rightarrow> outside \<Rightarrow> (connection_log \<times> exn option) option" where
  "watch_lifecycle e open_stream loads ep thread_id run_id timeout reconnect_delay u =
     watch_loop e open_stream loads ep thread_id run_id reconnect_delay (fst (monotonic e u) + timeout) None False 0
       (snd (monotonic e u))"

section \<open>Writing frames\<close>

text \<open>
  What a server writes: the fields of a frame in any order, each on its line with whatever follows the colon, and a
  blank line. A line that is a comment, a field of another name, or skipped carries nothing.
\<close>

datatype wire_field = Event_Field string | Data_Field string | Id_Field string

primrec wire_line :: "wire_field \<Rightarrow> string" where
  "wire_line (Event_Field v) = ''event:'' @ v"
| "wire_line (Data_Field v) = ''data:'' @ v"
| "wire_line (Id_Field v) = ''id:'' @ v"

definition wire_frame :: "wire_field list \<Rightarrow> string option list" where
  "wire_frame fs = map (\<lambda>f. Some (wire_line f)) fs @ [Some []]"

definition carries_field :: "string option \<Rightarrow> bool" where
  "carries_field l = (case l of None \<Rightarrow> False
     | Some s \<Rightarrow> s = [] \<or> starts_with ''event:'' s \<or> starts_with ''data:'' s \<or> starts_with ''id:'' s)"

definition event_fields :: "wire_field list \<Rightarrow> string list" where
  "event_fields fs = List.map_filter (\<lambda>f. case f of Event_Field v \<Rightarrow> Some v | _ \<Rightarrow> None) fs"

definition data_fields :: "wire_field list \<Rightarrow> string list" where
  "data_fields fs = List.map_filter (\<lambda>f. case f of Data_Field v \<Rightarrow> Some v | _ \<Rightarrow> None) fs"

definition id_fields :: "wire_field list \<Rightarrow> string list" where
  "id_fields fs = List.map_filter (\<lambda>f. case f of Id_Field v \<Rightarrow> Some v | _ \<Rightarrow> None) fs"

definition last_field :: "string list \<Rightarrow> string option" where
  "last_field vs = (if vs = [] then None else Some (strip (last vs)))"

lemma field_lists [simp]:
  "event_fields [] = []" "data_fields [] = []" "id_fields [] = []"
  "event_fields (fs @ [f]) = event_fields fs @ (case f of Event_Field v \<Rightarrow> [v] | _ \<Rightarrow> [])"
  "data_fields (fs @ [f]) = data_fields fs @ (case f of Data_Field v \<Rightarrow> [v] | _ \<Rightarrow> [])"
  "id_fields (fs @ [f]) = id_fields fs @ (case f of Id_Field v \<Rightarrow> [v] | _ \<Rightarrow> [])"
  by (simp_all add: event_fields_def data_fields_def id_fields_def List.map_filter_def split: wire_field.split)

lemma strip_space [simp]: "strip (CHR '' '' # s) = strip s"
  by (simp add: strip_def py_space_def)

lemma iter_sse_quiet: "iter_sse_events (filter carries_field lines) s = iter_sse_events lines s"
proof (induction lines s rule: iter_sse_events.induct)
  case (3 line lines s)
  show ?case
  proof (cases "carries_field (Some line)")
    case False
    then have "field_line line s = s" "line \<noteq> []" by (auto simp: field_line_def carries_field_def)
    then show ?thesis using 3 False by simp
  qed (use 3 in simp)
qed (simp_all add: carries_field_def)

lemma field_line_wire:
  "field_line (wire_line f) s = (case f of Event_Field v \<Rightarrow> s\<lparr>ss_event := Some (strip v)\<rparr>
     | Data_Field v \<Rightarrow> s\<lparr>ss_data := ss_data s @ [strip v]\<rparr> | Id_Field v \<Rightarrow> s\<lparr>ss_id := Some (strip v)\<rparr>)"
  by (cases f) (simp_all add: field_line_def starts_with_def)

lemma wire_line_nonempty [simp]: "wire_line f \<noteq> []"
  by (cases f) simp_all

lemma field_lines_state:
  "fold (\<lambda>f. field_line (wire_line f)) fs sse_start =
     \<lparr>ss_event = last_field (event_fields fs), ss_data = map strip (data_fields fs), ss_id = last_field (id_fields fs)\<rparr>"
  by (induction fs rule: rev_induct)
    (simp_all add: sse_start_def last_field_def field_line_wire split: wire_field.split)

lemma iter_sse_fields:
  "iter_sse_events (map (\<lambda>f. Some (wire_line f)) fs @ Some [] # lines) s =
     finished_frame (fold (\<lambda>f. field_line (wire_line f)) fs s) @ iter_sse_events lines sse_start"
  by (induction fs arbitrary: s) simp_all

lemma iter_sse_wire:
  "iter_sse_events (concat (map wire_frame frames)) sse_start =
     concat (map (\<lambda>fs. finished_frame (fold (\<lambda>f. field_line (wire_line f)) fs sse_start)) frames)"
  by (induction frames) (simp_all add: wire_frame_def iter_sse_fields)

section \<open>Reconnecting\<close>

text \<open>
  Each connection resumes after the last id yielded before it, and only the last one yields a terminal
  event.
\<close>

fun resumes_after :: "string option \<Rightarrow> connection_log \<Rightarrow> bool" where
  "resumes_after p [] = True"
| "resumes_after p ((i, evs) # conns) =
     (i = p \<and> (conns \<noteq> [] \<longrightarrow> \<not> list_ex is_terminal_event evs) \<and> resumes_after (last_id_seen p evs) conns)"

lemma watch_loop_saw: "watch_loop e os lo ep t r d dl i True k u = Some ([], None)"
  by (subst watch_loop.simps) simp

lemma watch_loop_resumes:
  assumes "watch_loop e os lo ep t r d dl i saw k u = Some out"
  shows "resumes_after i (fst out) \<and> (saw \<longrightarrow> fst out = [])"
proof (rule watch_loop.raw_induct [of "\<lambda>e os lo ep t r d dl i saw k u out. resumes_after i (fst out) \<and> (saw \<longrightarrow> fst out = [])"])
  fix wl :: "env \<Rightarrow> (nat \<Rightarrow> stream_request \<Rightarrow> stream_reply) \<Rightarrow> (string \<Rightarrow> json option) \<Rightarrow> string \<Rightarrow> string \<Rightarrow>
      string \<Rightarrow> seconds \<Rightarrow> seconds \<Rightarrow> string option \<Rightarrow> bool \<Rightarrow> nat \<Rightarrow> outside \<Rightarrow> (connection_log \<times> exn option) option"
    and e os lo ep t r d dl i saw k u out
  assume IH: "\<And>e os lo ep t r d dl i saw k u out. wl e os lo ep t r d dl i saw k u = Some out \<Longrightarrow>
      resumes_after i (fst out) \<and> (saw \<longrightarrow> fst out = [])"
  define evs where "evs = fst (stream_lifecycle os lo ep t r i k)"
  have again: "resumes_after i ((i, evs) # fst rest)"
    if "wl e os lo ep t r d dl (last_id_seen i evs) (list_ex is_terminal_event evs) k' u' = Some rest" for k' u' rest
    using IH [OF that] by auto
  assume "(if saw then Some ([], None)
      else if dl \<le> fst (monotonic e u) then Some ([], None)
      else
        (let u2 = snd (monotonic e (snd (monotonic e u)));
             conn = stream_lifecycle os lo ep t r i k;
             evs = fst conn;
             last' = last_id_seen i evs;
             saw' = list_ex is_terminal_event evs
         in case snd conn of
              None \<Rightarrow> Option.bind (wl e os lo ep t r d dl last' saw' (Suc k) u2)
                  (\<lambda>rest. Some ((i, evs) # fst rest, snd rest))
            | Some x \<Rightarrow>
                if exn_class x \<noteq> PyRuntimeError then Some ([(i, evs)], Some x)
                else if dl \<le> fst (monotonic e u2) then Some ([(i, evs)], Some x)
                else if d < 0
                then Some ([(i, evs)], Some (Exn PyValueError ''sleep length must be non-negative''))
                else
                  Option.bind (wl e os lo ep t r d dl last' saw' (Suc k) (sleep d (snd (monotonic e u2))))
                    (\<lambda>rest. Some ((i, evs) # fst rest, snd rest)))) = Some out"
  then show "resumes_after i (fst out) \<and> (saw \<longrightarrow> fst out = [])"
    unfolding Let_def evs_def [symmetric]
    by (auto simp: bind_eq_Some_conv dest!: again split: if_splits option.splits)
qed (fact assms)

section \<open>Properties\<close>

text \<open>
  C23. The parser reads every frame that is written, stripped: whatever comments, other fields and skipped lines come
  between, the frames of a stream come out in order, one for each that names an event or carries data and none for any
  other. Its event is the last one named (or "message" when that is blank or there is none), its data are the data lines,
  each without its leading and trailing whitespace, joined by line feeds, and its id is the last one given in that frame.
\<close>

theorem frames_read_back:
  assumes "filter carries_field lines = concat (map wire_frame frames)"
  shows "iter_sse_events lines sse_start =
    map (\<lambda>fs. \<lparr>fr_event = (if event_fields fs = [] \<or> strip (last (event_fields fs)) = [] then ''message''
                           else strip (last (event_fields fs))),
               fr_data = join_with LF (map strip (data_fields fs)),
               fr_id = (if id_fields fs = [] then None else Some (strip (last (id_fields fs))))\<rparr>)
      (filter (\<lambda>fs. event_fields fs \<noteq> [] \<or> data_fields fs \<noteq> []) frames)"
proof -
  have "iter_sse_events lines sse_start =
      concat (map (\<lambda>fs. finished_frame (fold (\<lambda>f. field_line (wire_line f)) fs sse_start)) frames)"
    using iter_sse_quiet [of lines sse_start] iter_sse_wire assms by simp
  also have "\<dots> = map (\<lambda>fs. \<lparr>fr_event = (if event_fields fs = [] \<or> strip (last (event_fields fs)) = [] then ''message''
                           else strip (last (event_fields fs))),
               fr_data = join_with LF (map strip (data_fields fs)),
               fr_id = (if id_fields fs = [] then None else Some (strip (last (id_fields fs))))\<rparr>)
      (filter (\<lambda>fs. event_fields fs \<noteq> [] \<or> data_fields fs \<noteq> []) frames)"
    by (induction frames) (simp_all add: field_lines_state finished_frame_def last_field_def)
  finally show ?thesis .
qed

theorem frames_read_back_witness:
  "iter_sse_events [Some '': heartbeat'', Some ''event: end'', Some ''retry: 5'', Some ''id: r_event_3'', None,
      Some ''data:   {} '', Some [], Some ''id: 9'', Some []] sse_start =
   [\<lparr>fr_event = ''end'', fr_data = ''{}'', fr_id = Some ''r_event_3''\<rparr>]"
proof -
  have "strip '' end'' = ''end''" "strip '' r_event_3'' = ''r_event_3''" "strip ''   {} '' = ''{}''" by code_simp+
  then show ?thesis
    by (subst frames_read_back [of _ "[[Event_Field '' end'', Id_Field '' r_event_3'', Data_Field ''   {} ''], [Id_Field '' 9'']]"])
      (simp_all add: wire_frame_def carries_field_def starts_with_def event_fields_def data_fields_def id_fields_def
        List.map_filter_def)
qed

text \<open>
  The standard the parser refers to takes one space off the front of a value: a value that itself begins or ends with
  whitespace is another after the parser. The documents Cordboard reads are JSON, to which that whitespace means nothing.
\<close>

lemma data_loses_its_space:
  "iter_sse_events (wire_frame [Data_Field ('' '' @ '' x'')]) sse_start =
     [\<lparr>fr_event = ''message'', fr_data = ''x'', fr_id = None\<rparr>]"
  by code_simp

text \<open>
  A watch neither skips nor repeats on its own account: each reconnect asks the server to resume after
  the last event id the caller was given, the first connection asks for everything, and there is no
  further connection after one that yielded a terminal event.
\<close>

theorem reconnects_resume_after_last:
  assumes "watch_lifecycle e open_stream loads ep thread_id run_id timeout reconnect_delay u = Some (conns, x)"
  shows "resumes_after None conns"
  using watch_loop_resumes [of e open_stream loads ep thread_id run_id reconnect_delay _ None False 0 _ "(conns, x)"] assms
  unfolding watch_lifecycle_def by fastforce

definition demo_stream :: "nat \<Rightarrow> stream_request \<Rightarrow> stream_reply" where
  "demo_stream k q =
     (if k = 0 then Stream 200 [Some ''event: metadata'', Some ''id: r_event_0'', Some []] True
      else Stream 200 [Some ''event: end'', Some ''id: r_event_4'', Some []] False)"

lemma demo_stream_frames:
  "iter_sse_events [Some ''event: metadata'', Some ''id: r_event_0'', Some []] sse_start =
    [\<lparr>fr_event = ''metadata'', fr_data = [], fr_id = Some ''r_event_0''\<rparr>]"
  "iter_sse_events [Some ''event: end'', Some ''id: r_event_4'', Some []] sse_start =
    [\<lparr>fr_event = ''end'', fr_data = [], fr_id = Some ''r_event_4''\<rparr>]"
  by code_simp+

lemma demo_watch:
  "watch_lifecycle busy_env demo_stream (\<lambda>_. None) ''x'' ''t'' ''r'' 10 (1/2) at_zero =
   Some ([(None, [\<lparr>le_event = ''metadata'', le_data = JObj [], le_id = Some ''r_event_0''\<rparr>]),
          (Some ''r_event_0'', [\<lparr>le_event = ''end'', le_data = JObj [], le_id = Some ''r_event_4''\<rparr>])], None)"
proof -
  have m: "monotonic busy_env v = (mono_now v + 1, v\<lparr>mono_now := mono_now v + 1, clock_reads := Suc (clock_reads v)\<rparr>)" for v
    by (simp add: monotonic_def busy_env_def Let_def)
  have s: "stream_lifecycle demo_stream (\<lambda>_. None) ''x'' ''t'' ''r'' i 0 =
      ([\<lparr>le_event = ''metadata'', le_data = JObj [], le_id = Some ''r_event_0''\<rparr>], Some stream_failed)"
    "stream_lifecycle demo_stream (\<lambda>_. None) ''x'' ''t'' ''r'' i (Suc 0) =
      ([\<lparr>le_event = ''end'', le_data = JObj [], le_id = Some ''r_event_4''\<rparr>], None)" for i
    by (simp_all add: stream_lifecycle_def blank_def py_space_def demo_stream_def demo_stream_frames lifecycle_frame_def
        LIFECYCLE_EVENTS_def List.map_filter_def del: iter_sse_events.simps)
  show ?thesis
    unfolding watch_lifecycle_def
    apply (subst watch_loop.simps)
    apply (simp add: m s at_zero_def is_terminal_event_def stream_failed_def)
    apply (subst watch_loop.simps)
    apply (simp add: m s is_terminal_event_def sleep_def watch_loop_saw)
    done
qed

theorem reconnects_resume_after_last_witness:
  "resumes_after None [(None, [\<lparr>le_event = ''metadata'', le_data = JObj [], le_id = Some ''r_event_0''\<rparr>]),
     (Some ''r_event_0'', [\<lparr>le_event = ''end'', le_data = JObj [], le_id = Some ''r_event_4''\<rparr>])]"
  by (rule reconnects_resume_after_last [OF demo_watch])

text \<open>
  A watch returns: when every connection either breaks or delivers a terminal event before it ends,
  the watch stops, with the terminal event, at its deadline or with the exception of a refused call.
\<close>

theorem watch_returns:
  assumes "0 < reconnect_delay"
    and "\<forall>k i. snd (stream_lifecycle open_stream loads ep thread_id run_id i k) = None \<longrightarrow>
      list_ex is_terminal_event (fst (stream_lifecycle open_stream loads ep thread_id run_id i k))"
  shows "\<exists>conns x. watch_lifecycle e open_stream loads ep thread_id run_id timeout reconnect_delay u = Some (conns, x)"
proof -
  have "\<exists>out. watch_loop e open_stream loads ep thread_id run_id reconnect_delay dl i saw k u = Some out" for dl i saw k u
  proof (induction "rounds_left reconnect_delay dl u" arbitrary: i saw k u rule: less_induct)
    case less
    define u2 where "u2 = snd (monotonic e (snd (monotonic e u)))"
    define u3 where "u3 = sleep reconnect_delay (snd (monotonic e u2))"
    have "mono_now u \<le> fst (monotonic e u2)"
      using monotonic_ge [of u e] monotonic_ge [of "snd (monotonic e u)" e] monotonic_ge [of u2 e] by (simp add: u2_def)
    then have "rounds_left reconnect_delay dl u3 < rounds_left reconnect_delay dl u" if "\<not> dl \<le> fst (monotonic e u2)"
      using that assms(1) by (intro rounds_left_decreases [of _ _ "fst (monotonic e u2)"]) (simp_all add: u3_def)
    from less [OF this] have again: "\<exists>out. watch_loop e open_stream loads ep thread_id run_id reconnect_delay dl i' saw' k' u3 = Some out"
      if "\<not> dl \<le> fst (monotonic e u2)" for i' saw' k'
      using that by blast
    show ?case
    proof (cases "snd (stream_lifecycle open_stream loads ep thread_id run_id i k)")
      case None
      then show ?thesis using assms(2) by (subst watch_loop.simps) (auto simp: Let_def watch_loop_saw)
    next
      case (Some x)
      then show ?thesis
        using again [of "last_id_seen i (fst (stream_lifecycle open_stream loads ep thread_id run_id i k))"
            "list_ex is_terminal_event (fst (stream_lifecycle open_stream loads ep thread_id run_id i k))" "Suc k"] assms(1)
        by (subst watch_loop.simps) (auto simp: Let_def u2_def [symmetric] u3_def [symmetric])
    qed
  qed
  then show ?thesis unfolding watch_lifecycle_def by (metis surj_pair)
qed

theorem watch_returns_witness:
  "\<exists>conns x. watch_lifecycle busy_env (\<lambda>_ _. No_Stream) (\<lambda>_. None) ''x'' ''t'' ''r'' 10 (1/2) at_zero = Some (conns, x)"
  by (rule watch_returns) (simp_all add: stream_lifecycle_def)

end
