(* ===== verification/Cli_Watch.thy ===== *)
theory Cli_Watch
  imports Cli_Console Aegra_Stream
begin

text \<open>
  \<^verbatim>\<open>cord view\<close> of \<^verbatim>\<open>cli.py\<close>: one thread per watched Run puts what it learns on a shared queue
  (\<^verbatim>\<open>_watch_worker\<close>), one consumer folds the messages and prints the catalog whenever it changed
  (\<^verbatim>\<open>cmd_view\<close>). A thread is the list of the messages it puts; what the consumer gets is any order of all
  of them that keeps every thread's own.
\<close>

section \<open>Watched Runs\<close>

record watch_target =
  wt_alias :: string
  wt_thread :: string
  wt_run :: string

text \<open>\<^verbatim>\<open>_parse_watch_target\<close>\<close>

definition parse_watch_target :: "string \<Rightarrow> exn + watch_target" where
  "parse_watch_target raw =
     (case split_on CHR '':'' raw of
        [a, t, r] \<Rightarrow>
          if blank a \<or> blank t \<or> blank r
          then Inl (Exn InvalidConnection (''--watch '' @ quoted raw @ '' must be ALIAS:THREAD_ID:RUN_ID''))
          else Inr \<lparr>wt_alias = a, wt_thread = t, wt_run = r\<rparr>
      | _ \<Rightarrow> Inl (Exn InvalidConnection (''--watch '' @ quoted raw @ '' must be ALIAS:THREAD_ID:RUN_ID'')))"

text \<open>\<^verbatim>\<open>_resolve_logical_run_id\<close>\<close>

definition resolve_logical_run_id :: "continuity_file \<Rightarrow> string \<Rightarrow> string \<Rightarrow> string \<Rightarrow> exn + string" where
  "resolve_logical_run_id f alias thread_id run_id =
     (case fst (logical_run alias thread_id f) of
        Inr rec \<Rightarrow> Inr (logical_id rec)
      | Inl x \<Rightarrow> if exn_class x = UnknownThread then Inr run_id else Inl x)"

section \<open>A watching thread\<close>

text \<open>The tuples of the queue.\<close>

datatype watch_message =
    Identified string string string string "string option" json
  | Streamed string string lifecycle_event
  | Failed string string string
  | Done string string

fun is_done :: "watch_message \<Rightarrow> bool" where
  "is_done (Done t r) = True"
| "is_done _ = False"

text \<open>A watched Run, and what its thread meets: its endpoint, the world outside and the board's file.\<close>

record worker =
  wk_target :: watch_target
  wk_endpoint :: string
  wk_env :: env
  wk_stream :: "nat \<Rightarrow> stream_request \<Rightarrow> stream_reply"
  wk_loads :: "string \<Rightarrow> json option"
  wk_continuity :: continuity_file
  wk_outside :: outside

definition RECONNECT_DELAY :: seconds where "RECONNECT_DELAY = 1 / 2"

definition reported :: "exc_class \<Rightarrow> bool" where
  "reported k \<longleftrightarrow> k = PyRuntimeError \<or> is_value_error k"

definition watch_failure :: "watch_target \<Rightarrow> string \<Rightarrow> watch_message" where
  "watch_failure t what =
     Failed (wt_thread t) (wt_run t) (''cord: --watch '' @ wt_thread t @ ''/'' @ wt_run t @ '': '' @ what)"

definition no_graph :: "string \<Rightarrow> string" where
  "no_graph assistant_id =
     ''could not resolve a Graph for assistant '' @ quoted assistant_id @ ''; omitted from the catalog''"

text \<open>
  The Graph of an Assistant: unknown when the request fails or it is \<open>null\<close>. A body that is no object, or has no
  \<open>graph_id\<close>, is a TypeError or a KeyError and escapes the thread; a \<open>graph_id\<close> is otherwise a string, as the
  public API gives it.
\<close>

definition watched_graph :: "worker \<Rightarrow> string \<Rightarrow> (outside, string option) prog" where
  "watched_graph w assistant_id =
     catching reported
       (andthen (describe_assistant (wk_env w) (wk_endpoint w) assistant_id) (\<lambda>g.
          case g of
            JNull \<Rightarrow> ret None
          | JStr name \<Rightarrow> ret (Some name)
          | _ \<Rightarrow> throw PyTypeError ''graph_id is not a string''))
       (\<lambda>_. ret None)"

text \<open>The events of the stream as messages, a failed stream reported after them; another exception escapes.\<close>

definition stream_messages ::
  "watch_target \<Rightarrow> string \<Rightarrow> connection_log \<times> exn option \<Rightarrow> watch_message list \<times> exn option" where
  "stream_messages t l out =
     (let evs = map (Streamed l (wt_thread t)) (concat (map snd (fst out))) in
      case snd out of
        None \<Rightarrow> (evs, None)
      | Some x \<Rightarrow> if exn_class x = PyRuntimeError then (evs @ [watch_failure t (exn_msg x)], None) else (evs, Some x))"

text \<open>\<^verbatim>\<open>_watch_worker_body\<close>: the messages it puts and the exception that escapes it; \<open>None\<close> when it never ends.\<close>

definition watch_worker_body :: "seconds \<Rightarrow> worker \<Rightarrow> (watch_message list \<times> exn option) option" where
  "watch_worker_body timeout w =
     (let t = wk_target w in
      case describe_run (wk_env w) (wk_endpoint w) (wt_thread t) (wt_run t) (wk_outside w) of
        (Inl x, _) \<Rightarrow> Some (if reported (exn_class x) then ([watch_failure t (exn_msg x)], None) else ([], Some x))
      | (Inr info, u1) \<Rightarrow>
          (case watched_graph w (ri_assistant_id info) u1 of
             (Inl x, _) \<Rightarrow> Some ([], Some x)
           | (Inr None, _) \<Rightarrow> Some ([watch_failure t (no_graph (ri_assistant_id info))], None)
           | (Inr (Some g), u2) \<Rightarrow>
               (case resolve_logical_run_id (wk_continuity w) (wt_alias t) (wt_thread t) (wt_run t) of
                  Inl x \<Rightarrow> Some ([], Some x)
                | Inr l \<Rightarrow>
                    map_option (\<lambda>out. case stream_messages t l out of (evs, x) \<Rightarrow>
                        (Identified l (wt_thread t) g (ri_assistant_id info) (ri_subject info) (ri_status info) # evs, x))
                      (watch_lifecycle (wk_env w) (wk_stream w) (wk_loads w) (wk_endpoint w) (wt_thread t) (wt_run t)
                        timeout RECONNECT_DELAY u2))))"

text \<open>\<^verbatim>\<open>_watch_worker\<close>\<close>

definition watch_worker :: "seconds \<Rightarrow> worker \<Rightarrow> (watch_message list \<times> exn option) option" where
  "watch_worker timeout w =
     map_option (\<lambda>(ms, x). (ms @ [Done (wt_thread (wk_target w)) (wt_run (wk_target w))], x)) (watch_worker_body timeout w)"

section \<open>The consumer\<close>

record view_state =
  vs_console :: console
  vs_live :: "live_run dict"
  vs_last :: "string option"
  vs_reads :: nat

text \<open>
  What the closures of \<^verbatim>\<open>cmd_view\<close> see: the archive as the \<open>k\<close>-th read of it finds it (\<open>None\<close> without
  \<^verbatim>\<open>--archive\<close>), the probed connections and their topology, and \<^verbatim>\<open>json.dumps\<close> of a catalog for \<^verbatim>\<open>--json\<close>.
\<close>

record view_config =
  vc_env :: env
  vc_archive :: "(nat \<Rightarrow> archive_path list) option"
  vc_probed :: "probed_connection dict"
  vc_topology :: "freshness_check dict"
  vc_dumps :: "(graph_view list \<Rightarrow> string) option"
  vc_format :: rendering

definition on_console :: "(console, 'a) prog \<Rightarrow> (view_state, 'a) prog" where
  "on_console m = zoom vs_console (\<lambda>c s. s\<lparr>vs_console := c\<rparr>) m"

definition view_clock :: "view_config \<Rightarrow> (view_state, seconds) prog" where
  "view_clock cfg = on_console (on_world (on_out (\<lambda>u. case monotonic (vc_env cfg) u of (t, u') \<Rightarrow> (Inr t, u'))))"

definition read_archive :: "view_config \<Rightarrow> (view_state, span_index) prog" where
  "read_archive cfg =
     (case vc_archive cfg of
        None \<Rightarrow> ret []
      | Some archive \<Rightarrow>
          andthen (getting vs_reads) (\<lambda>k. andthen (changing (\<lambda>s. s\<lparr>vs_reads := Suc k\<rparr>)) (\<lambda>_. attempt (read_spans (archive k)))))"

definition run_ids_of :: "span_index \<Rightarrow> exn + string list" where
  "run_ids_of spans = follow (build_execution_tree spans) (\<lambda>t. Inr (map fst (tr_runs t)))"

definition catalog_text :: "view_config \<Rightarrow> graph_view list \<Rightarrow> exn + string" where
  "catalog_text cfg cat =
     (case vc_dumps cfg of Some dumps \<Rightarrow> Inr (dumps cat) | None \<Rightarrow> format_catalog_text (vc_format cfg) cat)"

definition print_changed :: "string \<Rightarrow> (view_state, unit) prog" where
  "print_changed txt =
     andthen (getting vs_last) (\<lambda>l.
       if l = Some txt then ret ()
       else andthen (on_console (say (Line txt))) (\<lambda>_. changing (\<lambda>s. s\<lparr>vs_last := Some txt\<rparr>)))"

text \<open>\<^verbatim>\<open>render\<close>\<close>

definition render :: "view_config \<Rightarrow> (view_state, unit) prog" where
  "render cfg =
     andthen (read_archive cfg) (\<lambda>spans.
     andthen (attempt (run_ids_of spans)) (\<lambda>recorded.
     andthen (view_clock cfg) (\<lambda>now.
     andthen (getting vs_live) (\<lambda>live.
     andthen (attempt (build_catalog (vc_probed cfg) (vc_topology cfg) spans
         (reconcile live recorded now DEFAULT_PENDING_AFTER DEFAULT_FAILED_AFTER))) (\<lambda>cat.
     andthen (attempt (catalog_text cfg cat)) print_changed)))))"

definition put_live :: "string \<Rightarrow> live_run \<Rightarrow> (view_state, unit) prog" where
  "put_live l lr = changing (\<lambda>s. s\<lparr>vs_live := AList.update l lr (vs_live s)\<rparr>)"

text \<open>The LiveRun of an \<open>identified\<close> message.\<close>

definition identified_run :: "string \<Rightarrow> string \<Rightarrow> string \<Rightarrow> string \<Rightarrow> string option \<Rightarrow> json \<Rightarrow> exn + live_run" where
  "identified_run l t g a subject status =
     follow (new_live_run l t (Some g) (Some a) subject) (\<lambda>lr.
       Inr (if status \<in> {JStr ''pending'', JStr ''running'', JStr ''interrupted''} then lr\<lparr>lr_status := status\<rparr> else lr))"

definition life_event_at :: "lifecycle_event \<Rightarrow> seconds \<Rightarrow> life_event" where
  "life_event_at ev now = \<lparr>ev_name = le_event ev, ev_data = le_data ev, ev_id = le_id ev, ev_now = now\<rparr>"

text \<open>\<^verbatim>\<open>live_by_id[logical_id].apply(...)\<close>; what the LiveRun already took over stays when it raises.\<close>

definition apply_live :: "view_config \<Rightarrow> string \<Rightarrow> lifecycle_event \<Rightarrow> (view_state, unit) prog" where
  "apply_live cfg l ev =
     andthen (getting (\<lambda>s. map_of (vs_live s) l)) (\<lambda>found.
       case found of
         None \<Rightarrow> throw PyKeyError l
       | Some lr \<Rightarrow>
           andthen (view_clock cfg) (\<lambda>now.
             case apply_event (life_event_at ev now) lr of (r, lr') \<Rightarrow>
               andthen (put_live l lr') (\<lambda>_. attempt r)))"

definition handle_message :: "view_config \<Rightarrow> watch_message \<Rightarrow> (view_state, unit) prog" where
  "handle_message cfg m =
     (case m of
        Identified l t g a subject status \<Rightarrow>
          andthen (attempt (identified_run l t g a subject status)) (\<lambda>lr. andthen (put_live l lr) (\<lambda>_. render cfg))
      | Streamed l t ev \<Rightarrow> andthen (apply_live cfg l ev) (\<lambda>_. render cfg)
      | Failed t r txt \<Rightarrow> on_console (changing (\<lambda>c. c\<lparr>cn_err := cn_err c @ [txt]\<rparr>))
      | Done t r \<Rightarrow> ret ())"

text \<open>
  The loop \<^verbatim>\<open>while remaining > 0\<close>: \<open>None\<close> when it waits for a message that never comes, else the messages it
  leaves in the queue.
\<close>

fun consume :: "view_config \<Rightarrow> nat \<Rightarrow> watch_message list \<Rightarrow> view_state \<Rightarrow> ((exn + watch_message list) \<times> view_state) option" where
  "consume cfg 0 ms s = Some (Inr ms, s)"
| "consume cfg (Suc n) [] s = None"
| "consume cfg (Suc n) (m # ms) s =
     (case handle_message cfg m s of
        (Inl x, s') \<Rightarrow> Some (Inl x, s')
      | (Inr _, s') \<Rightarrow> consume cfg (if is_done m then n else Suc n) ms s')"

text \<open>The loop over \<^verbatim>\<open>await_convergence\<close>, which renders at every view it yields.\<close>

definition POLL_INTERVAL :: seconds where "POLL_INTERVAL = 1"

definition converge_round :: "view_config \<Rightarrow> (view_state, bool) prog" where
  "converge_round cfg =
     andthen (read_archive cfg) (\<lambda>spans.
     andthen (attempt (run_ids_of spans)) (\<lambda>recorded.
     andthen (view_clock cfg) (\<lambda>now.
     andthen (render cfg) (\<lambda>_.
     andthen (getting vs_live) (\<lambda>live.
       let over = (unresolved live (reconcile live recorded now DEFAULT_PENDING_AFTER DEFAULT_FAILED_AFTER) = []) in
       if over then ret True
       else andthen (on_console (on_world (on_out (changing (sleep POLL_INTERVAL))))) (\<lambda>_. ret False))))))"

partial_function (option) converge :: "view_config \<Rightarrow> view_state \<Rightarrow> ((exn + unit) \<times> view_state) option" where
  "converge cfg s =
     (case converge_round cfg s of
        (Inl x, s') \<Rightarrow> Some (Inl x, s')
      | (Inr over, s') \<Rightarrow> if over then Some (Inr (), s') else converge cfg s')"

declare converge.simps [code]

section \<open>The command\<close>

text \<open>\<^verbatim>\<open>for alias, info in connections.items()\<close>: the probe and the topology of every connection.\<close>

definition probe_connection ::
  "platform \<Rightarrow> string \<times> connection \<Rightarrow> (topology_world, ((string \<times> probed_connection) \<times> (string \<times> freshness_check)) list) prog" where
  "probe_connection pf ac =
     andthen (at_outside (probe_endpoint (pf_env pf) (endpoint (snd ac)))) (\<lambda>p.
     andthen (check_freshness (pf_urlsplit pf) (pf_validate pf) (pf_env pf) (endpoint (snd ac))) (\<lambda>fc.
       ret [((fst ac, \<lparr>pc_endpoint = endpoint (snd ac), pc_reachable = pb_reachable p, pc_graphs = pb_graphs p,
                       pc_graph_map = (case graph_map (snd ac) of None \<Rightarrow> [] | Some g \<Rightarrow> g)\<rparr>), (endpoint (snd ac), fc))]))"

definition probe_all ::
  "platform \<Rightarrow> connection dict \<Rightarrow> (topology_world, probed_connection dict \<times> freshness_check dict) prog" where
  "probe_all pf conns =
     andthen (for_collect conns (probe_connection pf)) (\<lambda>ps.
       ret (map fst ps, fold (\<lambda>e d. AList.update (fst e) (snd e) d) (map snd ps) []))"

text \<open>What comes before the first message; \<open>Inl\<close> an exit status when the arguments are refused.\<close>

definition check_targets :: "connection dict \<Rightarrow> string list \<Rightarrow> exn + watch_target list" where
  "check_targets conns watch =
     follow (map_all parse_watch_target watch) (\<lambda>ts.
       case List.find (\<lambda>t. map_of conns (wt_alias t) = None) ts of
         None \<Rightarrow> Inr ts
       | Some t \<Rightarrow> Inl (Exn InvalidConnection (''unknown alias '' @ quoted (wt_alias t) @ '' in --watch'')))"

definition view_arguments ::
  "string option \<Rightarrow> string list \<Rightarrow> (console, nat + connection dict \<times> watch_target list) prog" where
  "view_arguments named watch =
     checked invalid_connection EXIT_USAGE
       (andthen board_connections (\<lambda>conns.
        andthen (selected named conns) (\<lambda>sel.
          case sel of
            None \<Rightarrow> throw InvalidConnection (''unknown alias '' @ quoted (case named of None \<Rightarrow> [] | Some a \<Rightarrow> a))
          | Some cs \<Rightarrow> andthen (attempt (check_targets cs watch)) (\<lambda>ts. ret (cs, ts)))))"

definition view_config_of ::
  "platform \<Rightarrow> rendering \<Rightarrow> (nat \<Rightarrow> archive_path list) option \<Rightarrow> (graph_view list \<Rightarrow> string) option \<Rightarrow>
   probed_connection dict \<times> freshness_check dict \<Rightarrow> view_config" where
  "view_config_of pf fmt archive dumps probed =
     \<lparr>vc_env = pf_env pf, vc_archive = archive, vc_probed = fst probed, vc_topology = snd probed, vc_dumps = dumps,
      vc_format = fmt\<rparr>"

definition view_start :: "console \<Rightarrow> view_state" where
  "view_start c = \<lparr>vs_console = c, vs_live = [], vs_last = None, vs_reads = 0\<rparr>"

text \<open>\<^verbatim>\<open>except ArchiveError\<close> around the watching and the convergence.\<close>

definition view_exit :: "(exn + unit) \<times> view_state \<Rightarrow> (exn + nat) \<times> console" where
  "view_exit o_s =
     (case o_s of
        (Inr _, s) \<Rightarrow> (Inr EXIT_OK, vs_console s)
      | (Inl x, s) \<Rightarrow>
          if exn_class x = ArchiveError then fail (exn_msg x) EXIT_USAGE (vs_console s) else (Inl x, vs_console s))"

definition finish_view :: "view_config \<Rightarrow> view_state \<Rightarrow> ((exn + unit) \<times> view_state) option" where
  "finish_view cfg s = (if vc_archive cfg \<noteq> None then converge cfg s else Some (render cfg s))"

definition watch_and_finish :: "view_config \<Rightarrow> nat \<Rightarrow> watch_message list \<Rightarrow> view_state \<Rightarrow> ((exn + unit) \<times> view_state) option" where
  "watch_and_finish cfg n ms s =
     (case consume cfg n ms s of
        None \<Rightarrow> None
      | Some (Inl x, s') \<Rightarrow> Some (Inl x, s')
      | Some (Inr _, s') \<Rightarrow> finish_view cfg s')"

text \<open>\<^verbatim>\<open>cmd_view\<close>, the messages being those that its threads put on the queue.\<close>

definition cmd_view ::
  "platform \<Rightarrow> rendering \<Rightarrow> string option \<Rightarrow> string list \<Rightarrow> (nat \<Rightarrow> archive_path list) option \<Rightarrow>
   (graph_view list \<Rightarrow> string) option \<Rightarrow> watch_message list \<Rightarrow> console \<Rightarrow> ((exn + nat) \<times> console) option" where
  "cmd_view pf fmt named watch archive dumps ms c =
     (case view_arguments named watch c of
        (Inl x, c1) \<Rightarrow> Some (Inl x, c1)
      | (Inr (Inl code), c1) \<Rightarrow> Some (Inr code, c1)
      | (Inr (Inr (conns, ts)), c1) \<Rightarrow>
          (case on_topology (probe_all pf conns) c1 of
             (Inl x, c2) \<Rightarrow> Some (Inl x, c2)
           | (Inr probed, c2) \<Rightarrow>
               map_option view_exit
                 (watch_and_finish (view_config_of pf fmt archive dumps probed) (length ts) ms (view_start c2))))"

section \<open>What watching leaves alone\<close>

definition clock_of :: "view_state \<Rightarrow> seconds" where
  "clock_of s = mono_now (w_out (cn_board (vs_console s)))"

text \<open>The board, the LiveRuns and a clock that does not go back.\<close>

definition view_frame :: "view_state \<Rightarrow> view_state \<Rightarrow> bool" where
  "view_frame s s' \<longleftrightarrow> same_board (vs_console s) (vs_console s') \<and> vs_live s' = vs_live s \<and> clock_of s \<le> clock_of s'"

definition frames :: "(view_state, 'a) prog \<Rightarrow> bool" where
  "frames m \<longleftrightarrow> (\<forall>s. view_frame s (snd (m s)))"

lemma view_frame_refl [simp]: "view_frame s s"
  by (simp add: view_frame_def)

lemma view_frame_trans: "view_frame s s1 \<Longrightarrow> view_frame s1 s2 \<Longrightarrow> view_frame s s2"
  unfolding view_frame_def by (metis order_trans same_board_trans)

lemma frames_simps [simp]:
  "frames (ret x)" "frames (throw k m)" "frames (getting g)" "frames (attempt r)"
  by (simp_all add: frames_def ret_def throw_def getting_def attempt_def)

lemma frames_andthen [simp, intro]: "frames m \<Longrightarrow> (\<And>x. frames (f x)) \<Longrightarrow> frames (andthen m f)"
  unfolding frames_def andthen_def
  by (auto split: prod.split sum.split) (metis snd_conv view_frame_trans)+

lemma frames_console:
  assumes "\<And>c. same_board c (snd (m c)) \<and> mono_now (w_out (cn_board c)) \<le> mono_now (w_out (cn_board (snd (m c))))"
  shows "frames (on_console m)"
  using assms by (auto simp: frames_def view_frame_def on_console_def zoom_def clock_of_def split: prod.split) (metis snd_conv)+

lemma frames_say [simp]: "frames (on_console (say p))"
  by (rule frames_console) (simp add: say_def changing_def)

lemma frames_error [simp]: "frames (on_console (changing (\<lambda>c. c\<lparr>cn_err := es c\<rparr>)))"
  by (rule frames_console) (simp add: changing_def)

lemma on_world_out: "on_world (on_out m) c = (case m (w_out (cn_board c)) of (r, u) \<Rightarrow> (r, c\<lparr>cn_board := (cn_board c)\<lparr>w_out := u\<rparr>\<rparr>))"
  by (simp add: on_world_def on_out_def zoom_def split: prod.split)

lemma frames_clock [simp]: "frames (view_clock cfg)"
  unfolding view_clock_def
proof (rule frames_console)
  fix c
  show "same_board c (snd (on_world (on_out (\<lambda>u. case monotonic (vc_env cfg) u of (t, u') \<Rightarrow> (Inr t, u'))) c)) \<and>
    mono_now (w_out (cn_board c)) \<le> mono_now (w_out (cn_board (snd (on_world (on_out (\<lambda>u. case monotonic (vc_env cfg) u of (t, u') \<Rightarrow> (Inr t, u'))) c))))"
    using monotonic_ge [of "w_out (cn_board c)" "vc_env cfg"] monotonic_now [of "vc_env cfg" "w_out (cn_board c)"]
      submissions_monotonic [of "vc_env cfg" "w_out (cn_board c)"]
    by (cases "monotonic (vc_env cfg) (w_out (cn_board c))") (simp add: on_world_out same_board_def)
qed

lemma frames_archive [simp]: "frames (read_archive cfg)"
  unfolding read_archive_def
  by (auto split: option.split intro!: frames_andthen) (simp add: frames_def changing_def view_frame_def clock_of_def)

lemma frames_print [simp]: "frames (print_changed txt)"
  unfolding print_changed_def
  by (auto intro!: frames_andthen) (simp add: frames_def changing_def view_frame_def clock_of_def)

lemma frames_render [simp]: "frames (render cfg)"
  unfolding render_def by (intro frames_andthen) simp_all

lemma framesD: "frames m \<Longrightarrow> m s = (r, s') \<Longrightarrow> view_frame s s'"
  unfolding frames_def by (metis snd_conv)

section \<open>What the messages do to the LiveRuns\<close>

text \<open>Where an exception of the consumer comes from.\<close>

definition viewing_raises :: "view_config \<Rightarrow> exn \<Rightarrow> bool" where
  "viewing_raises cfg x \<longleftrightarrow>
     (\<exists>s. fst (render cfg s) = Inl x) \<or> (\<exists>ev lr. fst (apply_event ev lr) = Inl x) \<or>
     (\<exists>l t g a subject status. identified_run l t g a subject status = Inl x)"

text \<open>What one message makes of the entry of a Run.\<close>

definition entry_step :: "string \<Rightarrow> watch_message \<Rightarrow> live_run option \<Rightarrow> live_run option \<Rightarrow> bool" where
  "entry_step l m e e' \<longleftrightarrow>
     (case m of
        Identified l' t g a subject status \<Rightarrow> if l' = l then (\<exists>lr. identified_run l t g a subject status = Inr lr \<and> e' = Some lr) else e' = e
      | Streamed l' t ev \<Rightarrow>
          if l' = l then (\<exists>lr now. e = Some lr \<and> e' = Some (snd (apply_event (life_event_at ev now) lr))) else e' = e
      | _ \<Rightarrow> e' = e)"

fun known_by :: "watch_message \<Rightarrow> string set \<Rightarrow> string set" where
  "known_by (Identified l t g a s st) K = insert l K"
| "known_by _ K = K"

fun introduced :: "string set \<Rightarrow> watch_message list \<Rightarrow> bool" where
  "introduced K [] = True"
| "introduced K (m # ms) = ((case m of Streamed l t ev \<Rightarrow> l \<in> K | _ \<Rightarrow> True) \<and> introduced (known_by m K) ms)"

lemma put_live_app: "put_live l lr s = (Inr (), s\<lparr>vs_live := AList.update l lr (vs_live s)\<rparr>)"
  by (simp add: put_live_def changing_def)

lemma put_live_frame: "same_board (vs_console s) (vs_console (s\<lparr>vs_live := d\<rparr>)) \<and> clock_of (s\<lparr>vs_live := d\<rparr>) = clock_of s"
  by (simp add: clock_of_def)

definition console_frame :: "view_state \<Rightarrow> view_state \<Rightarrow> bool" where
  "console_frame s s' \<longleftrightarrow> same_board (vs_console s) (vs_console s') \<and> clock_of s \<le> clock_of s' \<and>
     (dict_ok (vs_live s) \<longrightarrow> dict_ok (vs_live s'))"

lemma console_frame_refl [simp]: "console_frame s s"
  by (simp add: console_frame_def)

lemma console_frame_trans: "console_frame s s1 \<Longrightarrow> console_frame s1 s2 \<Longrightarrow> console_frame s s2"
  unfolding console_frame_def by (metis order_trans same_board_trans)

lemma console_frame_put: "console_frame s (s\<lparr>vs_live := AList.update l lr (vs_live s)\<rparr>)"
  by (simp add: console_frame_def put_live_frame dict_ok_update)

lemma view_console_frame: "view_frame s s' \<Longrightarrow> console_frame s s'"
  by (simp add: view_frame_def console_frame_def)

lemma apply_live_cases:
  assumes "apply_live cfg l ev s = (r, s')"
  obtains (unknown) "map_of (vs_live s) l = None" "r = Inl (Exn PyKeyError l)" "s' = s"
  | (applied) lr now where "map_of (vs_live s) l = Some lr" "r = fst (apply_event (life_event_at ev now) lr)"
      "map_of (vs_live s') = (map_of (vs_live s))(l \<mapsto> snd (apply_event (life_event_at ev now) lr))" "console_frame s s'"
proof (cases "map_of (vs_live s) l")
  case None
  then have "r = Inl (Exn PyKeyError l)" "s' = s" using assms by (simp_all add: apply_live_def getting_def andthen_def throw_def)
  with None show thesis by (rule unknown)
next
  case (Some lr)
  obtain o1 s1 where c: "view_clock cfg s = (o1, s1)" by (cases "view_clock cfg s")
  then obtain now where now: "o1 = Inr now"
    by (auto simp: view_clock_def on_console_def on_world_def on_out_def zoom_def split: prod.splits)
  have f: "view_frame s s1" using framesD [OF frames_clock c] .
  obtain r2 lr' where a: "apply_event (life_event_at ev now) lr = (r2, lr')" by (cases "apply_event (life_event_at ev now) lr")
  have s': "s' = s1\<lparr>vs_live := AList.update l lr' (vs_live s1)\<rparr>" "r = r2"
    using assms Some c now a by (simp_all add: apply_live_def getting_def andthen_def put_live_app attempt_def split: sum.splits)
  have "console_frame s s'" using console_frame_trans [OF view_console_frame [OF f] console_frame_put] s' by simp
  moreover have "map_of (vs_live s') = (map_of (vs_live s))(l \<mapsto> lr')" using f s' by (simp add: view_frame_def update_conv')
  ultimately show thesis using Some a s' by (intro applied [of lr now]) simp_all
qed

lemma handle_message_cases:
  assumes "handle_message cfg m s = (r, s')" "introduced (dom (map_of (vs_live s))) [m]"
  shows "console_frame s s'" and "r = Inl x \<Longrightarrow> viewing_raises cfg x"
    and "r = Inr () \<Longrightarrow> entry_step l m (map_of (vs_live s) l) (map_of (vs_live s') l)"
    and "r = Inr () \<Longrightarrow> dom (map_of (vs_live s')) = known_by m (dom (map_of (vs_live s)))"
proof -
  have render: "view_frame s1 s2 \<and> (\<forall>y. o1 = Inl y \<longrightarrow> viewing_raises cfg y)" if "render cfg s1 = (o1, s2)" for s1 s2 o1
    using framesD [OF frames_render that] that by (auto simp: viewing_raises_def) (metis fst_conv)
  have "console_frame s s' \<and> (r = Inl x \<longrightarrow> viewing_raises cfg x) \<and>
    (r = Inr () \<longrightarrow> entry_step l m (map_of (vs_live s) l) (map_of (vs_live s') l) \<and>
      dom (map_of (vs_live s')) = known_by m (dom (map_of (vs_live s))))"
  proof (cases m)
    case (Identified k t g a subject status)
    show ?thesis
    proof (cases "identified_run k t g a subject status")
      case (Inl y)
      then show ?thesis using assms(1) Identified by (auto simp: handle_message_def andthen_def attempt_def viewing_raises_def)
    next
      case (Inr lr)
      let ?s1 = "s\<lparr>vs_live := AList.update k lr (vs_live s)\<rparr>"
      have "render cfg ?s1 = (r, s')"
        using assms(1) Identified Inr by (simp add: handle_message_def andthen_def attempt_def put_live_app)
      note render [OF this]
      moreover from this have "vs_live s' = AList.update k lr (vs_live s)" by (simp add: view_frame_def)
      ultimately show ?thesis
        using Inr Identified console_frame_trans [OF console_frame_put view_console_frame]
        by (auto simp: entry_step_def update_conv')
    qed
  next
    case (Streamed k t ev)
    obtain o1 s1 where a: "apply_live cfg k ev s = (o1, s1)" by (cases "apply_live cfg k ev s")
    have k: "map_of (vs_live s) k \<noteq> None" using assms(2) Streamed by auto
    from a show ?thesis
    proof (cases rule: apply_live_cases)
      case unknown
      then show ?thesis using k by simp
    next
      case (applied lr now)
      have step: "r = Inr () \<Longrightarrow> vs_live s' = vs_live s1" "console_frame s s'" "r = Inl x \<Longrightarrow> viewing_raises cfg x"
      proof -
        have rr: "handle_message cfg m s = (case o1 of Inl y \<Rightarrow> (Inl y, s1) | Inr _ \<Rightarrow> render cfg s1)"
          using Streamed a by (simp add: handle_message_def andthen_def split: sum.split)
        show "r = Inr () \<Longrightarrow> vs_live s' = vs_live s1"
          using rr assms(1) render [of s1 r s'] by (auto simp: view_frame_def split: sum.splits)
        show "console_frame s s'"
          using rr assms(1) render [of s1 r s'] applied(4) console_frame_trans view_console_frame by (auto split: sum.splits)
        show "r = Inl x \<Longrightarrow> viewing_raises cfg x"
          using rr assms(1) render [of s1 r s'] applied(2) by (auto simp: viewing_raises_def split: sum.splits)
      qed
      then show ?thesis using applied Streamed by (auto simp: entry_step_def split: if_splits)
    qed
  next
    case (Failed t r1 why)
    then show ?thesis using assms(1)
      by (auto simp: handle_message_def on_console_def zoom_def changing_def console_frame_def clock_of_def entry_step_def)
  next
    case (Done t r1)
    then show ?thesis using assms(1) by (auto simp: handle_message_def ret_def entry_step_def)
  qed
  then show "console_frame s s'" and "r = Inl x \<Longrightarrow> viewing_raises cfg x"
    and "r = Inr () \<Longrightarrow> entry_step l m (map_of (vs_live s) l) (map_of (vs_live s') l)"
    and "r = Inr () \<Longrightarrow> dom (map_of (vs_live s')) = known_by m (dom (map_of (vs_live s)))" by blast+
qed

fun entries :: "string \<Rightarrow> watch_message list \<Rightarrow> live_run option \<Rightarrow> live_run option \<Rightarrow> bool" where
  "entries l [] e e' = (e' = e)"
| "entries l (m # ms) e e' = (\<exists>e1. entry_step l m e e1 \<and> entries l ms e1 e')"

text \<open>What a finished loop took from the queue, and what that made of the entry of a Run.\<close>

definition consumed ::
  "string \<Rightarrow> nat \<Rightarrow> watch_message list \<Rightarrow> watch_message list \<Rightarrow> live_run option \<Rightarrow> live_run option \<Rightarrow> bool" where
  "consumed l n ms rest e e' \<longleftrightarrow> (\<exists>taken. ms = taken @ rest \<and> length (filter is_done taken) = n \<and>
       (if n = 0 then taken = [] else taken \<noteq> [] \<and> is_done (last taken)) \<and> entries l taken e e')"

lemma consumed_step:
  assumes "consumed l (if is_done m then n else Suc n) ms rest e1 e'" "entry_step l m e e1"
  shows "consumed l (Suc n) (m # ms) rest e e'"
proof -
  let ?n = "if is_done m then n else Suc n"
  obtain taken where t: "ms = taken @ rest" "length (filter is_done taken) = ?n" "if ?n = 0 then taken = [] else taken \<noteq> [] \<and> is_done (last taken)"
      "entries l taken e1 e'"
    using assms(1) unfolding consumed_def by blast
  have "is_done (last (m # taken))"
    using t(3) by (cases "is_done m \<and> n = 0") (auto split: if_splits)
  then show ?thesis unfolding consumed_def
    using t(1,2,4) assms(2) by (intro exI [of _ "m # taken"]) auto
qed

lemma consume_trace:
  assumes "consume cfg n ms s = Some (out, s')" "introduced (dom (map_of (vs_live s))) ms"
  shows "console_frame s s' \<and> (\<forall>x. out = Inl x \<longrightarrow> viewing_raises cfg x) \<and>
    (\<forall>rest. out = Inr rest \<longrightarrow> consumed l n ms rest (map_of (vs_live s) l) (map_of (vs_live s') l))"
  using assms
proof (induction cfg n ms s rule: consume.induct)
  case (3 cfg n m ms s)
  obtain r s1 where h: "handle_message cfg m s = (r, s1)" by (cases "handle_message cfg m s")
  have intro_m: "introduced (dom (map_of (vs_live s))) [m]" using 3(3) by simp
  note c = handle_message_cases [OF h intro_m]
  show ?case
  proof (cases r)
    case (Inl x)
    then show ?thesis using c(1) c(2) [OF Inl] h 3(2) by auto
  next
    case (Inr u)
    let ?n = "if is_done m then n else Suc n"
    have r: "r = Inr ()" using Inr by simp
    have now: "consume cfg ?n ms s1 = Some (out, s')" using 3(2) h r by simp
    have "introduced (dom (map_of (vs_live s1))) ms" using 3(3) c(4) [OF r] by simp
    then have IH: "console_frame s1 s'" "\<forall>x. out = Inl x \<longrightarrow> viewing_raises cfg x"
      "\<forall>rest. out = Inr rest \<longrightarrow> consumed l ?n ms rest (map_of (vs_live s1) l) (map_of (vs_live s') l)"
      using 3(1) [OF h [symmetric] r now] by blast+
    note step = consumed_step [OF _ c(3) [OF r]]
    show ?thesis
    proof (intro conjI allI impI)
      show "console_frame s s'" by (rule console_frame_trans [OF c(1) IH(1)])
      show "viewing_raises cfg x" if "out = Inl x" for x using IH(2) that by simp
      show "consumed l (Suc n) (m # ms) rest (map_of (vs_live s) l) (map_of (vs_live s') l)" if "out = Inr rest" for rest
        using IH(3) that by (intro step) simp
    qed
  qed
qed (auto simp: consumed_def)

lemma consume_returns: "n \<le> length (filter is_done ms) \<Longrightarrow> consume cfg n ms s \<noteq> None"
  by (induction cfg n ms s rule: consume.induct) (auto split: prod.split sum.split)

section \<open>The messages of all threads\<close>

text \<open>
  The queue with, beside each message, the thread that put it: nothing but the messages of the threads, and
  each thread's own in its order.
\<close>

definition delivered :: "watch_message list list \<Rightarrow> (nat \<times> watch_message) list \<Rightarrow> bool" where
  "delivered logs q \<longleftrightarrow> (\<forall>e \<in> set q. fst e < length logs) \<and>
     (\<forall>i < length logs. map snd (filter (\<lambda>e. fst e = i) q) = logs ! i)"

lemma introduced_mono: "introduced K ms \<Longrightarrow> K \<subseteq> K' \<Longrightarrow> introduced K' ms"
proof (induction ms arbitrary: K K')
  case (Cons m ms)
  have "known_by m K \<subseteq> known_by m K'" using Cons.prems(2) by (cases m) auto
  then show ?case using Cons by (auto split: watch_message.splits)
qed simp

lemma known_by_grows: "K \<subseteq> known_by m K"
  by (cases m) auto

lemma introduced_delivered:
  fixes q :: "(nat \<times> watch_message) list"
  shows "(\<And>i. introduced K (map snd (filter (\<lambda>e. fst e = i) q))) \<Longrightarrow> introduced K (map snd q)"
proof (induction q arbitrary: K)
  case (Cons e q)
  have "introduced (known_by (snd e) K) (map snd (filter (\<lambda>d. fst d = i) q))" for i
    using Cons.prems [of i] introduced_mono [OF _ known_by_grows] by (cases "fst e = i") auto
  then show ?case using Cons.IH Cons.prems [of "fst e"] by simp
qed simp

lemma counted_delivered:
  fixes q :: "(nat \<times> watch_message) list"
  shows "\<forall>e \<in> set q. fst e < n \<Longrightarrow>
   length (filter P (map snd q)) = (\<Sum>i<n. length (filter P (map snd (filter (\<lambda>e. fst e = i) q))))"
proof (induction q)
  case (Cons e q)
  have "(\<Sum>i<n. length (filter P (map snd (filter (\<lambda>d. fst d = i) (e # q))))) =
      (\<Sum>i<n. length (filter P (map snd (filter (\<lambda>d. fst d = i) q))) + (if i = fst e then (if P (snd e) then 1 else 0) else 0))"
    by (rule sum.cong) auto
  also have "\<dots> = length (filter P (map snd q)) + (\<Sum>i<n. if i = fst e then (if P (snd e) then 1 else 0) else 0)"
    using Cons by (simp add: sum.distrib)
  also have "\<dots> = length (filter P (map snd q)) + (if P (snd e) then 1 else 0)"
    using Cons.prems by (subst sum.delta) auto
  finally show ?case by simp
qed simp

text \<open>The log of a thread: it introduces its Run before it tells of it, and ends in the one \<open>done\<close>.\<close>

definition thread_log :: "watch_message list \<Rightarrow> bool" where
  "thread_log lg \<longleftrightarrow> lg \<noteq> [] \<and> is_done (last lg) \<and> filter is_done lg = [last lg] \<and> introduced {} lg"

lemma delivered_logs:
  assumes "delivered logs q" "\<forall>lg \<in> set logs. thread_log lg"
  shows "introduced {} (map snd q)" and "length (filter is_done (map snd q)) = length logs"
    and "q \<noteq> [] \<Longrightarrow> is_done (snd (last q))"
proof -
  have own: "map snd (filter (\<lambda>e. fst e = i) q) = logs ! i" if "i < length logs" for i
    using assms(1) that by (simp add: delivered_def)
  have none: "filter (\<lambda>e. fst e = i) q = []" if "\<not> i < length logs" for i
    using assms(1) that by (auto simp: delivered_def filter_empty_conv)
  have "introduced {} (map snd (filter (\<lambda>e. fst e = i) q))" for i
    using own [of i] none [of i] assms(2) by (cases "i < length logs") (auto simp: thread_log_def)
  then show "introduced {} (map snd q)" by (rule introduced_delivered)
  have "length (filter is_done (map snd q)) = (\<Sum>i<length logs. length (filter is_done (map snd (filter (\<lambda>e. fst e = i) q))))"
    using assms(1) by (intro counted_delivered) (simp add: delivered_def)
  also have "\<dots> = (\<Sum>i<length logs. 1)"
  proof (rule sum.cong)
    fix i assume "i \<in> {..<length logs}"
    then have i: "i < length logs" by simp
    then have "filter is_done (logs ! i) = [last (logs ! i)]" using assms(2) by (simp add: thread_log_def)
    then show "length (filter is_done (map snd (filter (\<lambda>e. fst e = i) q))) = 1" using own [OF i] by simp
  qed simp
  finally show "length (filter is_done (map snd q)) = length logs" by simp
  show "is_done (snd (last q))" if q: "q \<noteq> []"
  proof -
    obtain q' e where e: "q = q' @ [e]" using q by (metis append_butlast_last_id)
    then have i: "fst e < length logs" using assms(1) by (simp add: delivered_def)
    have "map snd (filter (\<lambda>d. fst d = fst e) q) = map snd (filter (\<lambda>d. fst d = fst e) q') @ [snd e]" using e by simp
    then have "last (logs ! fst e) = snd e" using own [OF i] by (metis last_snoc)
    then show ?thesis using assms(2) i e by (metis last_snoc nth_mem thread_log_def)
  qed
qed

lemma consume_delivered:
  assumes "delivered logs q" "\<forall>lg \<in> set logs. thread_log lg" "vs_live s = []"
  obtains (all) s' where "consume cfg (length logs) (map snd q) s = Some (Inr [], s')" "console_frame s s'"
      "\<And>l. entries l (map snd q) None (map_of (vs_live s') l)"
  | (raised) x s' where "consume cfg (length logs) (map snd q) s = Some (Inl x, s')" "console_frame s s'" "viewing_raises cfg x"
proof -
  note d = delivered_logs [OF assms(1,2)]
  have int: "introduced (dom (map_of (vs_live s))) (map snd q)" using d(1) assms(3) by simp
  obtain out s' where c: "consume cfg (length logs) (map snd q) s = Some (out, s')"
    using consume_returns [of "length logs" "map snd q" cfg s] d(2) by fastforce
  note t = consume_trace [OF c int]
  show thesis
  proof (cases out)
    case (Inl x)
    then show thesis using t c by (intro raised) auto
  next
    case (Inr rest)
    have "rest = []"
    proof (rule ccontr)
      assume ne: "rest \<noteq> []"
      obtain taken where k: "map snd q = taken @ rest" "length (filter is_done taken) = length logs"
        using t Inr unfolding consumed_def by blast
      then have "is_done (last rest)" using ne d(3) by (metis append_is_Nil_conv last_appendR last_map map_is_Nil_conv)
      then have "filter is_done rest \<noteq> []" using ne by (metis filter_empty_conv last_in_set)
      then show False using d(2) k by (simp add: filter_append)
    qed
    then show thesis using t c Inr assms(3) by (intro all) (auto simp: consumed_def)
  qed
qed

section \<open>What a thread puts on the queue\<close>

text \<open>The messages of a thread that got to watch the Run \<open>l\<close>: its identity, then its events, then what failed.\<close>

definition tells :: "string \<Rightarrow> watch_message list \<Rightarrow> live_run \<Rightarrow> lifecycle_event list \<Rightarrow> bool" where
  "tells l lg lr evs \<longleftrightarrow>
     (\<exists>t g a subject status rest. lg = Identified l t g a subject status # map (Streamed l t) evs @ rest \<and>
        identified_run l t g a subject status = Inr lr \<and> list_all (\<lambda>m. is_done m \<or> (\<exists>t r why. m = Failed t r why)) rest)"

lemma introduced_streamed: "l \<in> K \<Longrightarrow> introduced K (map (Streamed l t) evs @ rest) = introduced K rest"
  by (induction evs) auto

lemma filter_streamed [simp]: "filter is_done (map (Streamed l t) evs) = []"
  by (induction evs) auto

lemma watch_worker_log:
  assumes "watch_worker timeout w = Some (lg, x)"
  shows "thread_log lg"
proof -
  let ?t = "wk_target w"
  let ?done = "Done (wt_thread ?t) (wt_run ?t)"
  have log: "thread_log (ms @ [?done])" if "introduced {} ms" "filter is_done ms = []" for ms
  proof -
    have "introduced K (ms' @ [?done]) = introduced K ms'" for K ms' by (induction ms' arbitrary: K) auto
    then show ?thesis using that by (simp add: thread_log_def)
  qed
  obtain ms where ms: "watch_worker_body timeout w = Some (ms, x)" "lg = ms @ [?done]"
    using assms by (auto simp: watch_worker_def)
  obtain r u1 where d: "describe_run (wk_env w) (wk_endpoint w) (wt_thread ?t) (wt_run ?t) (wk_outside w) = (r, u1)"
    by (cases "describe_run (wk_env w) (wk_endpoint w) (wt_thread ?t) (wt_run ?t) (wk_outside w)")
  have "introduced {} ms \<and> filter is_done ms = []"
  proof (cases r)
    case (Inl y)
    then show ?thesis using ms(1) d by (auto simp: watch_worker_body_def watch_failure_def Let_def split: if_splits)
  next
    case (Inr info)
    obtain r2 u2 where g: "watched_graph w (ri_assistant_id info) u1 = (r2, u2)" by (cases "watched_graph w (ri_assistant_id info) u1")
    show ?thesis
    proof (cases "\<exists>g0 l. r2 = Inr (Some g0) \<and> resolve_logical_run_id (wk_continuity w) (wt_alias ?t) (wt_thread ?t) (wt_run ?t) = Inr l")
      case True
      then obtain g0 l where l: "r2 = Inr (Some g0)" "resolve_logical_run_id (wk_continuity w) (wt_alias ?t) (wt_thread ?t) (wt_run ?t) = Inr l"
        by blast
      obtain out where out: "ms = Identified l (wt_thread ?t) g0 (ri_assistant_id info) (ri_subject info) (ri_status info) # fst (stream_messages ?t l out)"
        using ms(1) d Inr g l by (auto simp: watch_worker_body_def Let_def split_beta)
      then show ?thesis
        by (auto simp: stream_messages_def watch_failure_def Let_def introduced_streamed introduced_streamed [where rest = "[]", simplified]
            split: option.split)
    next
      case False
      then show ?thesis using ms(1) d Inr g
        by (auto simp: watch_worker_body_def watch_failure_def Let_def split: sum.splits option.splits)
    qed
  qed
  then show ?thesis using log ms(2) by blast
qed

lemma workers_log:
  "list_all2 (\<lambda>w lg. \<exists>x. watch_worker timeout w = Some (lg, x)) workers logs \<Longrightarrow> \<forall>lg \<in> set logs. thread_log lg"
  by (induction rule: list_all2_induct) (auto dest: watch_worker_log)

section \<open>The command comes back\<close>

lemma view_sleep: "on_console (on_world (on_out (changing (sleep d)))) s =
    (Inr (), s\<lparr>vs_console := (vs_console s)\<lparr>cn_board := (cn_board (vs_console s))\<lparr>w_out := sleep d (w_out (cn_board (vs_console s)))\<rparr>\<rparr>\<rparr>)"
  by (simp add: on_console_def zoom_def on_world_out changing_def)

lemma frames_sleep [simp]: "frames (on_console (on_world (on_out (changing (sleep d)))))"
  by (simp add: frames_def view_sleep view_frame_def same_board_def clock_of_def)

lemma view_clock_app: "\<exists>s'. view_clock cfg s = (Inr (clock_of s'), s')"
  using monotonic_now [of "vc_env cfg" "w_out (cn_board (vs_console s))"]
  by (cases "monotonic (vc_env cfg) (w_out (cn_board (vs_console s)))")
    (simp add: view_clock_def on_console_def zoom_def on_world_out clock_of_def)

lemma converge_round_frames: "frames (converge_round cfg)"
  unfolding converge_round_def Let_def by (intro frames_andthen) (simp_all add: frames_andthen)

lemma converge_round_waits:
  assumes "converge_round cfg s = (Inr False, s')"
  shows "\<exists>now ids. clock_of s \<le> now \<and> now + POLL_INTERVAL \<le> clock_of s' \<and>
    unresolved (vs_live s) (reconcile (vs_live s) ids now DEFAULT_PENDING_AFTER DEFAULT_FAILED_AFTER) \<noteq> []"
proof -
  obtain spans s1 where a: "read_archive cfg s = (Inr spans, s1)"
    using assms by (cases "read_archive cfg s") (auto simp: converge_round_def andthen_def split: sum.splits)
  obtain ids where ids: "run_ids_of spans = Inr ids"
    using assms a by (cases "run_ids_of spans") (auto simp: converge_round_def andthen_def attempt_def)
  obtain s2 where t: "view_clock cfg s1 = (Inr (clock_of s2), s2)" using view_clock_app by blast
  obtain s3 where r: "render cfg s2 = (Inr (), s3)"
    using assms a ids t by (cases "render cfg s2") (auto simp: converge_round_def andthen_def attempt_def split: sum.splits)
  have f: "view_frame s s1" "view_frame s1 s2" "view_frame s2 s3"
    using framesD [OF frames_archive a] framesD [OF frames_clock t] framesD [OF frames_render r] .
  then have live: "vs_live s3 = vs_live s" by (simp add: view_frame_def)
  have "unresolved (vs_live s) (reconcile (vs_live s) ids (clock_of s2) DEFAULT_PENDING_AFTER DEFAULT_FAILED_AFTER) \<noteq> [] \<and>
      clock_of s' = clock_of s3 + POLL_INTERVAL"
    using assms a ids t r live
    by (auto simp: converge_round_def andthen_def attempt_def getting_def ret_def Let_def view_sleep clock_of_def POLL_INTERVAL_def split: if_splits)
  then show ?thesis using f by (intro exI [of _ "clock_of s2"] exI [of _ ids]) (auto simp: view_frame_def)
qed

lemma converge_returns:
  assumes "dict_ok (vs_live s)"
  shows "\<exists>r s'. converge cfg s = Some (r, s') \<and> console_frame s s'"
proof -
  obtain c where c: "last_completion (vs_live s) c" using last_completion_exists by blast
  show ?thesis
    using assms c
  proof (induction "rounds_left POLL_INTERVAL (c + DEFAULT_FAILED_AFTER) (w_out (cn_board (vs_console s)))" arbitrary: s rule: less_induct)
    case less
    obtain r s1 where r: "converge_round cfg s = (r, s1)" by (cases "converge_round cfg s")
    have round: "console_frame s s1" "vs_live s1 = vs_live s"
      using framesD [OF converge_round_frames r] by (auto simp: view_console_frame) (simp add: view_frame_def)
    show ?case
    proof (cases "r = Inr False")
      case True
      obtain now ids where n: "clock_of s \<le> now" "now + POLL_INTERVAL \<le> clock_of s1"
          "unresolved (vs_live s) (reconcile (vs_live s) ids now DEFAULT_PENDING_AFTER DEFAULT_FAILED_AFTER) \<noteq> []"
        using converge_round_waits [of cfg s s1] r True by blast
      have "rounds_left POLL_INTERVAL (c + DEFAULT_FAILED_AFTER) (w_out (cn_board (vs_console s1))) <
          rounds_left POLL_INTERVAL (c + DEFAULT_FAILED_AFTER) (w_out (cn_board (vs_console s)))"
        using n unresolved_early [OF less.prems n(3)]
        by (intro rounds_left_decreases [of _ _ now]) (simp_all add: clock_of_def POLL_INTERVAL_def)
      from less.hyps [OF this] less.prems round obtain r2 s2 where "converge cfg s1 = Some (r2, s2)" "console_frame s1 s2" by auto
      then show ?thesis using r True console_frame_trans [OF round(1)] by (subst converge.simps) auto
    next
      case False
      then show ?thesis using r round(1) by (subst converge.simps) (auto split: sum.split)
    qed
  qed
qed

lemma only_gets_submissions: "only_gets urls u u' \<Longrightarrow> submissions u' = submissions u"
  by (fastforce simp: only_gets_def submissions_def filter_empty_conv)

definition topology_frame :: "topology_world \<Rightarrow> topology_world \<Rightarrow> bool" where
  "topology_frame t t' \<longleftrightarrow> snapshots t' = snapshots t \<and> submissions (tw_outside t') = submissions (tw_outside t)"

lemma probe_connection_frame: "topology_frame t (snd (probe_connection pf ac t))"
proof -
  obtain r t1 where p: "at_outside (probe_endpoint (pf_env pf) (endpoint (snd ac))) t = (r, t1)"
    by (cases "at_outside (probe_endpoint (pf_env pf) (endpoint (snd ac))) t")
  then have f1: "topology_frame t t1"
    using only_gets_submissions [OF probe_gets [of "endpoint (snd ac)" "tw_outside t" "pf_env pf"]]
    by (auto simp: at_outside_def zoom_def topology_frame_def split: prod.splits)
  obtain r2 t2 where c: "check_freshness (pf_urlsplit pf) (pf_validate pf) (pf_env pf) (endpoint (snd ac)) t1 = (r2, t2)"
    by (cases "check_freshness (pf_urlsplit pf) (pf_validate pf) (pf_env pf) (endpoint (snd ac)) t1")
  then have f2: "topology_frame t1 t2"
    using check_freshness_keeps [of "pf_urlsplit pf" "pf_validate pf" "pf_env pf" "endpoint (snd ac)" t1]
      only_gets_submissions [OF check_freshness_gets [of "endpoint (snd ac)" t1 "pf_urlsplit pf" "pf_validate pf" "pf_env pf"]]
    by (simp add: topology_frame_def)
  show ?thesis using p c f1 f2
    by (auto simp: probe_connection_def andthen_def ret_def topology_frame_def split: sum.split)
qed

lemma probe_all_frame: "topology_frame t (snd (probe_all pf conns t))"
proof -
  have "topology_frame t (snd (for_collect conns (probe_connection pf) t))" for t
  proof (induction conns arbitrary: t)
    case (Cons ac conns)
    obtain r t1 where p: "probe_connection pf ac t = (r, t1)" by (cases "probe_connection pf ac t")
    then show ?case using probe_connection_frame [of t pf ac] Cons.IH [of t1]
      by (auto simp: andthen_def ret_def topology_frame_def split: prod.splits sum.splits)
  qed (simp add: ret_def topology_frame_def)
  then show ?thesis
    by (auto simp: probe_all_def andthen_def ret_def split: prod.split sum.split) (metis snd_conv)+
qed

lemma probing_looks [simp]: "only_looks (on_topology (probe_all pf conns))"
  by (rule on_topology_looks) (use probe_all_frame in \<open>simp add: topology_frame_def\<close>)

lemma view_arguments_looks: "only_looks (view_arguments named watch)"
  unfolding view_arguments_def
  by (intro only_looks_checked only_looks_andthen) (auto simp: selected_def intro!: only_looks_andthen split: option.split)

lemma checked_Inl:
  assumes "checked p k m c = (Inr (Inl n), c')"
  shows "n = k"
  using assms
  by (auto simp: checked_def catching_def andthen_def ret_def fail_def changing_def split: prod.splits sum.splits if_splits)

lemma map_all_length: "map_all f xs = Inr ys \<Longrightarrow> length ys = length xs"
  by (induction xs arbitrary: ys) (auto split: sum.splits simp: map_all_Inr follow_def)

lemma view_arguments_Inr:
  assumes "view_arguments named watch c = (Inr (Inr (conns, ts)), c')"
  shows "length ts = length watch"
proof -
  obtain cs c1 where "check_targets cs watch = Inr ts"
    using assms
    by (auto simp: view_arguments_def checked_def catching_def andthen_def ret_def fail_def changing_def attempt_def throw_def
        split: prod.splits sum.splits if_splits option.splits)
  then show ?thesis
    by (auto simp: check_targets_def follow_Inr map_all_length split: option.splits)
qed

lemma finish_view_returns:
  assumes "dict_ok (vs_live s)"
  shows "\<exists>r s'. finish_view cfg s = Some (r, s') \<and> console_frame s s'"
proof (cases "vc_archive cfg = None")
  case True
  obtain r s' where "render cfg s = (r, s')" by (cases "render cfg s")
  then show ?thesis using True framesD [OF frames_render] view_console_frame by (auto simp: finish_view_def)
next
  case False
  then show ?thesis using converge_returns [OF assms] by (auto simp: finish_view_def)
qed

lemma watch_and_finish_returns:
  assumes "delivered logs q" "\<forall>lg \<in> set logs. thread_log lg"
  shows "\<exists>r s'. watch_and_finish cfg (length logs) (map snd q) (view_start c) = Some (r, s') \<and> console_frame (view_start c) s'"
proof -
  have live: "vs_live (view_start c) = []" by (simp add: view_start_def)
  from assms live show ?thesis
  proof (cases rule: consume_delivered [where cfg = cfg])
    case (all s')
    have "dict_ok (vs_live s')" using all(2) by (simp add: console_frame_def view_start_def)
    from finish_view_returns [OF this, of cfg] show ?thesis
      using all(1) console_frame_trans [OF all(2)] by (auto simp: watch_and_finish_def)
  next
    case (raised x s')
    then show ?thesis by (auto simp: watch_and_finish_def)
  qed
qed

text \<open>
  C16. \<^verbatim>\<open>cord view\<close> comes back: when every watching thread ends, whatever it met and in whatever order
  their messages reach the queue, the consumer neither waits for a message that never comes nor polls the
  archive for ever. It exits with 0 or 2 or an exception, it changes no store and no snapshot, and it submits
  nothing.
\<close>

theorem view_returns:
  assumes "list_all2 (\<lambda>w lg. \<exists>x. watch_worker timeout w = Some (lg, x)) workers logs" "delivered logs q"
    and "length watch = length workers"
  shows "\<exists>r c'. cmd_view pf fmt named watch archive dumps (map snd q) c = Some (r, c') \<and> same_board c c' \<and>
    (\<forall>code. r = Inr code \<longrightarrow> code = EXIT_OK \<or> code = EXIT_USAGE)"
proof -
  have logs: "\<forall>lg \<in> set logs. thread_log lg"
    using assms(1) by (rule workers_log)
  have n: "length watch = length logs" using assms(1,3) by (simp add: list_all2_lengthD)
  obtain r1 c1 where a: "view_arguments named watch c = (r1, c1)" by (cases "view_arguments named watch c")
  have s1: "same_board c c1" using view_arguments_looks a by (metis only_looks_def snd_conv)
  have early: ?thesis if "cmd_view pf fmt named watch archive dumps (map snd q) c = Some (r, c2)" "same_board c c2" "\<forall>code. r = Inr code \<longrightarrow> code = EXIT_USAGE" for r c2
    using that by blast
  show ?thesis
  proof (cases "\<exists>conns ts. r1 = Inr (Inr (conns, ts))")
    case False
    then obtain r where "cmd_view pf fmt named watch archive dumps (map snd q) c = Some (r, c1)" "\<forall>code. r = Inr code \<longrightarrow> r1 = Inr (Inl code)"
      using a by (cases r1; cases "projr r1") (auto simp: cmd_view_def)
    then show ?thesis using s1 a by (intro early) (auto simp: view_arguments_def dest: checked_Inl)
  next
    case True
    then obtain conns ts where ts: "r1 = Inr (Inr (conns, ts))" by blast
    obtain r2 c2 where p: "on_topology (probe_all pf conns) c1 = (r2, c2)" by (cases "on_topology (probe_all pf conns) c1")
    have s2: "same_board c c2" using probing_looks p s1 by (metis only_looks_def snd_conv same_board_trans)
    show ?thesis
    proof (cases r2)
      case (Inl x)
      then show ?thesis using a ts p s2 by (intro early) (auto simp: cmd_view_def)
    next
      case (Inr probed)
      have "length ts = length logs" using view_arguments_Inr a ts n by metis
      with watch_and_finish_returns [OF assms(2) logs, of "view_config_of pf fmt archive dumps probed" c2]
      obtain r3 s3 where w: "watch_and_finish (view_config_of pf fmt archive dumps probed) (length ts) (map snd q) (view_start c2) = Some (r3, s3)"
          "console_frame (view_start c2) s3" by auto
      have "same_board c (vs_console s3)" using w(2) s2 same_board_trans by (auto simp: console_frame_def view_start_def)
      then show ?thesis using a ts p Inr w(1)
        by (cases r3) (auto simp: cmd_view_def view_exit_def fail_def andthen_def changing_def ret_def)
    qed
  qed
qed

section \<open>Every Run from its own events\<close>

fun told_of :: "watch_message \<Rightarrow> string option" where
  "told_of (Identified l t g a s st) = Some l"
| "told_of (Streamed l t ev) = Some l"
| "told_of _ = None"

definition about :: "string \<Rightarrow> watch_message \<Rightarrow> bool" where
  "about l m \<longleftrightarrow> told_of m = Some l"

lemma entry_step_other: "\<not> about l m \<Longrightarrow> entry_step l m e e' \<longleftrightarrow> e' = e"
  by (cases m) (auto simp: entry_step_def about_def)

lemma entries_about: "entries l (filter (about l) ms) e e' = entries l ms e e'"
  by (induction ms arbitrary: e) (auto simp: entry_step_other)

lemma entries_streamed:
  "entries l (map (Streamed l t) evs) (Some lr) e' \<Longrightarrow>
   \<exists>times. length times = length evs \<and> e' = Some (fold (\<lambda>ev r. snd (apply_event ev r)) (map2 life_event_at evs times) lr)"
proof (induction evs arbitrary: lr)
  case (Cons ev evs)
  then obtain now where "entries l (map (Streamed l t) evs) (Some (snd (apply_event (life_event_at ev now) lr))) e'"
    by (auto simp: entry_step_def)
  from Cons.IH [OF this] obtain times where "length times = length evs"
      "e' = Some (fold (\<lambda>ev r. snd (apply_event ev r)) (map2 life_event_at evs times) (snd (apply_event (life_event_at ev now) lr)))" by blast
  then show ?case by (intro exI [of _ "now # times"]) simp
qed simp

lemma about_delivered:
  assumes "delivered logs q" "i < length logs" "\<And>j m. j < length logs \<Longrightarrow> j \<noteq> i \<Longrightarrow> m \<in> set (logs ! j) \<Longrightarrow> \<not> about l m"
  shows "filter (about l) (map snd q) = filter (about l) (logs ! i)"
proof -
  have "fst e = i" if "e \<in> set q" "about l (snd e)" for e
  proof (rule ccontr)
    assume "fst e \<noteq> i"
    moreover have "fst e < length logs" "snd e \<in> set (logs ! fst e)"
    proof -
      show j: "fst e < length logs" using assms(1) that(1) by (simp add: delivered_def)
      have "logs ! fst e = map snd (filter (\<lambda>d. fst d = fst e) q)" using assms(1) j by (simp add: delivered_def)
      then show "snd e \<in> set (logs ! fst e)" using that(1) by auto
    qed
    ultimately show False using assms(3) that(2) by blast
  qed
  then have "filter (about l \<circ> snd) q = filter (about l \<circ> snd) (filter (\<lambda>e. fst e = i) q)"
    unfolding filter_filter by (intro filter_cong) auto
  moreover have "logs ! i = map snd (filter (\<lambda>e. fst e = i) q)" using assms(1,2) by (simp add: delivered_def)
  ultimately show ?thesis by (simp add: filter_map)
qed

text \<open>
  C17. However the messages of the threads mix on the queue, a Run that one thread alone tells of is shown
  the way its own stream tells it: when the consumer is done, its LiveRun is the one its thread identified,
  with all events of that thread folded into it, in their order and nothing else.
\<close>

theorem live_run_is_its_stream:
  assumes "list_all2 (\<lambda>w lg. \<exists>x. watch_worker timeout w = Some (lg, x)) workers logs" "delivered logs q"
    and "i < length logs" "tells l (logs ! i) lr evs" "\<forall>j < length logs. j \<noteq> i \<longrightarrow> (\<forall>m \<in> set (logs ! j). told_of m \<noteq> Some l)"
    and "consume cfg (length logs) (map snd q) (view_start c) = Some (Inr rest, s')"
  shows "rest = [] \<and> (\<exists>times. length times = length evs \<and>
    map_of (vs_live s') l = Some (fold (\<lambda>ev r. snd (apply_event ev r)) (map2 life_event_at evs times) lr))"
proof -
  have live: "vs_live (view_start c) = []" by (simp add: view_start_def)
  from assms(2) workers_log [OF assms(1)] live
  have e: "rest = []" "entries l (map snd q) None (map_of (vs_live s') l)"
    by (cases rule: consume_delivered [where cfg = cfg]; use assms(6) in simp)+
  obtain t g a subject status fin where log: "logs ! i = Identified l t g a subject status # map (Streamed l t) evs @ fin"
      "identified_run l t g a subject status = Inr lr" "list_all (\<lambda>m. is_done m \<or> (\<exists>t r why. m = Failed t r why)) fin"
    using assms(4) unfolding tells_def by blast
  have "filter (about l) fin = []"
    using log(3) by (induction fin) (auto simp: about_def elim!: is_done.elims)
  moreover have "filter (about l) (map (Streamed l t) evs) = map (Streamed l t) evs" by (simp add: filter_id_conv about_def)
  ultimately have "filter (about l) (map snd q) = Identified l t g a subject status # map (Streamed l t) evs"
    using about_delivered [OF assms(2,3), of l] assms(5) log(1) by (auto simp: about_def)
  then have "entries l (Identified l t g a subject status # map (Streamed l t) evs) None (map_of (vs_live s') l)"
    using e(2) entries_about [of l "map snd q"] by simp
  then have "entries l (map (Streamed l t) evs) (Some lr) (map_of (vs_live s') l)"
    using log(2) by (auto simp: entry_step_def)
  from entries_streamed [OF this] show ?thesis using e(1) by blast
qed

section \<open>Two watched Runs\<close>

definition demo_server :: "event list \<Rightarrow> request \<Rightarrow> reply" where
  "demo_server past r =
     Reply 200 (Some (JObj [(''assistant_id'', JStr ''a''), (''status'', JStr ''running''), (''graph_id'', JStr ''g'')]))"

definition watched_env :: env where
  "watched_env = \<lparr>server = demo_server, start_process = (\<lambda>_ _ _. Inr 1), clock_drift = (\<lambda>_. 1), format_number = (\<lambda>_. [])\<rparr>"

definition watched_stream :: "nat \<Rightarrow> stream_request \<Rightarrow> stream_reply" where
  "watched_stream k r =
     Stream 200 [Some ''event: metadata'', Some ''id: event_0'', Some [], Some ''event: end'', Some ''id: _event_3'', Some []] False"

definition demo_worker :: "string \<Rightarrow> string \<Rightarrow> worker" where
  "demo_worker t r =
     \<lparr>wk_target = \<lparr>wt_alias = ''d'', wt_thread = t, wt_run = r\<rparr>, wk_endpoint = ''x'', wk_env = watched_env,
      wk_stream = watched_stream, wk_loads = (\<lambda>_. None), wk_continuity = Absent, wk_outside = at_zero\<rparr>"

definition demo_events :: "lifecycle_event list" where
  "demo_events = [\<lparr>le_event = ''metadata'', le_data = JObj [], le_id = Some ''event_0''\<rparr>,
     \<lparr>le_event = ''end'', le_data = JObj [], le_id = Some ''_event_3''\<rparr>]"

definition demo_log :: "string \<Rightarrow> string \<Rightarrow> watch_message list" where
  "demo_log t r = Identified r t ''g'' ''a'' None (JStr ''running'') # map (Streamed r t) demo_events @ [Done t r]"

lemma watched_frames:
  "iter_sse_events [Some ''event: metadata'', Some ''id: event_0'', Some [], Some ''event: end'', Some ''id: _event_3'', Some []] sse_start =
    [\<lparr>fr_event = ''metadata'', fr_data = [], fr_id = Some ''event_0''\<rparr>, \<lparr>fr_event = ''end'', fr_data = [], fr_id = Some ''_event_3''\<rparr>]"
  by code_simp

lemma watched_stream_lifecycle:
  assumes "\<not> blank t" "\<not> blank r"
  shows "stream_lifecycle watched_stream (\<lambda>_. None) ''x'' t r None 0 = (demo_events, None)"
  using assms
  by (simp add: stream_lifecycle_def watched_stream_def watched_frames lifecycle_frame_def LIFECYCLE_EVENTS_def demo_events_def
      List.map_filter_def del: iter_sse_events.simps)

lemma watched_lifecycle:
  assumes "\<not> blank t" "\<not> blank r"
  shows "watch_lifecycle watched_env watched_stream (\<lambda>_. None) ''x'' t r 10 RECONNECT_DELAY u = Some ([(None, demo_events)], None)"
proof -
  have m: "monotonic watched_env v = (mono_now v + 1, v\<lparr>mono_now := mono_now v + 1, clock_reads := Suc (clock_reads v)\<rparr>)" for v
    by (simp add: monotonic_def watched_env_def Let_def)
  show ?thesis
    unfolding watch_lifecycle_def
    by (subst watch_loop.simps)
      (simp add: watched_stream_lifecycle [OF assms] m watch_loop_saw demo_events_def is_terminal_event_def)
qed

lemma watched_server [simp]: "server watched_env = demo_server"
  by (simp add: watched_env_def)

lemma demo_worker_log:
  "watch_worker 10 (demo_worker ''t'' ''r'') = Some (demo_log ''t'' ''r'', None)"
  "watch_worker 10 (demo_worker ''u'' ''q'') = Some (demo_log ''u'' ''q'', None)"
  by (simp_all add: watch_worker_def watch_worker_body_def demo_worker_def describe_run_def describe_assistant_def watched_graph_def
      session_request_def http_def demo_server_def demo_log_def Let_def andthen_def ret_def attempt_def transported_subject_def
      get_attr_def str_field_def field_def blank_def py_space_def catching_def resolve_logical_run_id_def logical_run_def reading_def
      load_run_continuity_def load_file_def lookup2_def throw_def watched_lifecycle stream_messages_def)

definition demo_console :: console where
  "demo_console = \<lparr>cn_board = new_board at_zero, cn_snapshots = Absent, cn_out = [], cn_err = []\<rparr>"

definition demo_view :: view_config where
  "demo_view = \<lparr>vc_env = watched_env, vc_archive = None, vc_probed = [], vc_topology = [], vc_dumps = None, vc_format = demo_fmt\<rparr>"

definition demo_queue :: "(nat \<times> watch_message) list" where
  "demo_queue = map2 (\<lambda>i m. (i, m)) [0, 1, 1, 0, 0, 1, 1, 0]
     (let a = demo_log ''t'' ''r''; b = demo_log ''u'' ''q'' in [a ! 0, b ! 0, b ! 1, a ! 1, a ! 2, b ! 2, b ! 3, a ! 3])"

lemma demo_consumed:
  "(case consume demo_view 2 (map snd demo_queue) (view_start demo_console) of Some (Inr ms, s) \<Rightarrow> length (cn_out (vs_console s)) | _ \<Rightarrow> 0) = 4"
  by code_simp

lemma demo_workers:
  "list_all2 (\<lambda>w lg. \<exists>x. watch_worker 10 w = Some (lg, x)) [demo_worker ''t'' ''r'', demo_worker ''u'' ''q''] [demo_log ''t'' ''r'', demo_log ''u'' ''q'']"
  by (simp add: demo_worker_log)

lemma demo_delivered: "delivered [demo_log ''t'' ''r'', demo_log ''u'' ''q''] demo_queue"
  by (simp add: delivered_def demo_queue_def demo_log_def demo_events_def less_Suc_eq)

definition demo_platform :: platform where
  "demo_platform = \<lparr>pf_env = watched_env, pf_files = (\<lambda>_. ReadText []), pf_now = 0, pf_now_iso = [], pf_urlsplit = demo_url,
     pf_validate = (\<lambda>_. []), pf_shlex = (\<lambda>_. None), pf_loads = (\<lambda>_. None), pf_sha256 = id, pf_isoformat = Some\<rparr>"

definition connected_console :: console where
  "connected_console = demo_console\<lparr>cn_board := (new_board at_zero)\<lparr>w_conns := Holds
     [(''d'', \<lparr>endpoint = ''http://h'', launch = None, idle_after = None, auth_endpoint = None, graph_map = None\<rparr>)]\<rparr>\<rparr>"

theorem view_returns_witness:
  "\<exists>r c'. cmd_view demo_platform demo_fmt None [''d:t:r'', ''d:u:q''] None None (map snd demo_queue) connected_console = Some (r, c') \<and>
     same_board connected_console c' \<and> (\<forall>code. r = Inr code \<longrightarrow> code = EXIT_OK \<or> code = EXIT_USAGE)"
  by (rule view_returns [OF demo_workers demo_delivered]) simp

theorem live_run_is_its_stream_witness:
  "\<exists>times (s' :: view_state). length times = 2 \<and> map_of (vs_live s') ''r'' =
     Some (fold (\<lambda>ev r. snd (apply_event ev r)) (map2 life_event_at demo_events times)
       (projr (identified_run ''r'' ''t'' ''g'' ''a'' None (JStr ''running''))))"
proof -
  obtain rest s' where c: "consume demo_view (length [demo_log ''t'' ''r'', demo_log ''u'' ''q'']) (map snd demo_queue) (view_start demo_console) = Some (Inr rest, s')"
    using demo_consumed by (auto split: option.splits sum.splits simp: numeral_2_eq_2)
  obtain lr where lr: "identified_run ''r'' ''t'' ''g'' ''a'' None (JStr ''running'') = Inr lr"
    by (auto simp: identified_run_def new_live_run_def blank_def py_space_def)
  have t: "tells ''r'' ([demo_log ''t'' ''r'', demo_log ''u'' ''q''] ! 0) lr demo_events"
    using lr by (auto simp: tells_def demo_log_def)
  have o: "\<forall>j < length [demo_log ''t'' ''r'', demo_log ''u'' ''q'']. j \<noteq> 0 \<longrightarrow>
      (\<forall>m \<in> set ([demo_log ''t'' ''r'', demo_log ''u'' ''q''] ! j). told_of m \<noteq> Some ''r'')"
    by (simp add: less_Suc_eq demo_log_def demo_events_def)
  obtain times where "length times = length demo_events" "map_of (vs_live s') ''r'' =
      Some (fold (\<lambda>ev r. snd (apply_event ev r)) (map2 life_event_at demo_events times) lr)"
    using live_run_is_its_stream [OF demo_workers demo_delivered _ t o c] by auto
  then show ?thesis using lr by (intro exI [of _ times] exI [of _ s']) (simp add: demo_events_def)
qed

section \<open>Two invocations of one Run\<close>

text \<open>
  Two watched invocations of one Thread are one logical Run, so one LiveRun takes the events of both; their
  ids count per invocation, and \<open>apply\<close> drops what it takes for a replay. The end of the resumed invocation,
  its fourth event, is lost behind the eighth of the first: the Run stays \<open>running\<close> and is not waited for.
\<close>

definition resumed_queue :: "watch_message list" where
  "resumed_queue =
     [Identified ''r1'' ''t'' ''g'' ''a'' None (JStr ''interrupted''), Identified ''r1'' ''t'' ''g'' ''a'' None (JStr ''running''),
      Streamed ''r1'' ''t'' \<lparr>le_event = ''metadata'', le_data = JObj [], le_id = Some ''r1_event_7''\<rparr>,
      Streamed ''r1'' ''t'' \<lparr>le_event = ''end'', le_data = JObj [(''status'', JStr ''success'')], le_id = Some ''r2_event_3''\<rparr>,
      Done ''t'' ''r1'', Done ''t'' ''r2'']"

lemma second_invocation_dropped:
  "map_option (\<lambda>(r, s). map_option (\<lambda>lr. (lr_status lr, lr_completed_at lr)) (map_of (vs_live s) ''r1''))
     (consume demo_view 2 resumed_queue (view_start demo_console)) = Some (Some (JStr ''running'', None))"
  by code_simp

end
