(* ===== verification/Execution_Recording.thy ===== *)
theory Execution_Recording
  imports Archive_Escalations
begin

text \<open>
  \<^verbatim>\<open>execution.py\<close>: the context managers that record a Run, its Steps and their Attempts. The body of a
  \<^verbatim>\<open>with\<close> block is a program over the recorder, given what the manager yields; it returns or raises.

  The tracer is a third party. Of it the code uses that a span starts with the parent, the name and the
  attributes it is given, in its parent's trace or in a new one; that \<^verbatim>\<open>set_attribute\<close> replaces an attribute
  of a span that has not ended; that leaving the block ends the span. The ids it draws, its traces and its
  clock are the parameter \<open>sdk\<close>. An enumeration argument of another type is None.
\<close>

section \<open>The tracer\<close>

record sdk =
  new_id :: "nat \<Rightarrow> nat"
  new_trace :: "nat \<Rightarrow> nat"
  wall :: "nat \<Rightarrow> int"

record span_address =
  sx_trace :: nat
  sx_id :: nat

record recorded_span =
  rs_id :: nat
  rs_trace :: nat
  rs_parent :: "nat option"
  rs_name :: string
  rs_attrs :: "json dict"
  rs_error :: bool
  rs_start :: int
  rs_end :: "int option"

record recorder =
  rec_spans :: "recorded_span list"
  rec_clock :: nat

definition open_span ::
  "sdk \<Rightarrow> string \<Rightarrow> span_address option \<Rightarrow> json dict \<Rightarrow> (recorder, span_address) prog" where
  "open_span k name parent attrs r =
     (let n = length (rec_spans r); i = new_id k n; t = (case parent of None \<Rightarrow> new_trace k n | Some p \<Rightarrow> sx_trace p);
          s = \<lparr>rs_id = i, rs_trace = t, rs_parent = map_option sx_id parent, rs_name = name, rs_attrs = attrs,
               rs_error = False, rs_start = wall k (rec_clock r), rs_end = None\<rparr>
      in (Inr \<lparr>sx_trace = t, sx_id = i\<rparr>, r\<lparr>rec_spans := rec_spans r @ [s], rec_clock := Suc (rec_clock r)\<rparr>))"

definition change_span :: "nat \<Rightarrow> (recorded_span \<Rightarrow> recorded_span) \<Rightarrow> (recorder, unit) prog" where
  "change_span i f = changing (\<lambda>r. r\<lparr>rec_spans :=
     map (\<lambda>s. if rs_id s = i \<and> rs_end s = None then f s else s) (rec_spans r)\<rparr>)"

definition set_attr :: "span_address \<Rightarrow> string \<Rightarrow> json \<Rightarrow> (recorder, unit) prog" where
  "set_attr c key v = change_span (sx_id c) (\<lambda>s. s\<lparr>rs_attrs := AList.update key v (rs_attrs s)\<rparr>)"

definition set_error_status :: "span_address \<Rightarrow> (recorder, unit) prog" where
  "set_error_status c = change_span (sx_id c) (\<lambda>s. s\<lparr>rs_error := True\<rparr>)"

definition close_span :: "sdk \<Rightarrow> span_address \<Rightarrow> (recorder, unit) prog" where
  "close_span k c r =
     change_span (sx_id c) (\<lambda>s. s\<lparr>rs_end := Some (wall k (rec_clock r))\<rparr>) (r\<lparr>rec_clock := Suc (rec_clock r)\<rparr>)"

section \<open>Outcomes\<close>

datatype step_outcome = Step_Passed | Step_Repaired | Step_Failed | Step_Awaiting_Approval | Step_Halted

datatype attempt_outcome = Attempt_Passed | Attempt_Failed | Attempt_Escalated

definition step_value :: "step_outcome \<Rightarrow> string" where
  "step_value o1 = (case o1 of Step_Passed \<Rightarrow> ''passed'' | Step_Repaired \<Rightarrow> ''repaired'' | Step_Failed \<Rightarrow> ''failed''
     | Step_Awaiting_Approval \<Rightarrow> ''awaiting_approval'' | Step_Halted \<Rightarrow> ''halted'')"

definition attempt_value :: "attempt_outcome \<Rightarrow> string" where
  "attempt_value o1 = (case o1 of Attempt_Passed \<Rightarrow> ''passed'' | Attempt_Failed \<Rightarrow> ''failed''
     | Attempt_Escalated \<Rightarrow> ''escalated'')"

text \<open>\<^verbatim>\<open>x is not None and (not isinstance(x, str) or not x.strip())\<close>\<close>

definition bad_text :: "json \<Rightarrow> bool" where
  "bad_text j = (nonblank_str (Some j) = None)"

definition bad_optional :: "json option \<Rightarrow> bool" where
  "bad_optional j = (case j of None \<Rightarrow> False | Some v \<Rightarrow> bad_text v)"

definition with_optional :: "string \<Rightarrow> json option \<Rightarrow> json dict \<Rightarrow> json dict" where
  "with_optional key j d = (case j of None \<Rightarrow> d | Some v \<Rightarrow> AList.update key v d)"

section \<open>Steps and Attempts\<close>

record step_handle =
  st_span :: span_address
  st_attributes :: "json dict"
  st_pause :: "exc_class \<Rightarrow> bool"
  st_base :: "json dict"

text \<open>What the body's exception leaves on the span: nothing of the span is lost, the exception goes on.\<close>

definition marking_exceptions ::
  "(exc_class \<Rightarrow> bool) \<Rightarrow> (recorder, unit) prog \<Rightarrow> span_address \<Rightarrow> string \<Rightarrow> (recorder, unit) prog \<Rightarrow> (recorder, unit) prog" where
  "marking_exceptions pause paused c failed body =
     catching (\<lambda>_. True) body (\<lambda>x.
       if pause (exn_class x) then andthen paused (\<lambda>_. attempt (Inl x))
       else andthen (set_attr c ''cord.outcome'' (JStr failed)) (\<lambda>_.
            andthen (set_error_status c) (\<lambda>_. attempt (Inl x))))"

definition open_step_span ::
  "sdk \<Rightarrow> span_address \<Rightarrow> json dict \<Rightarrow> string \<Rightarrow> step_outcome option \<Rightarrow> json option \<Rightarrow> (exc_class \<Rightarrow> bool) \<Rightarrow>
   (step_handle \<Rightarrow> (recorder, unit) prog) \<Rightarrow> (recorder, unit) prog" where
  "open_step_span k parent base_attributes node declared resumed_from pause body =
     (case declared of
        None \<Rightarrow> throw PyTypeError ''expected StepOutcome''
      | Some out \<Rightarrow>
          if node = [] then throw PyValueError ''node is required''
          else if bad_optional resumed_from then throw PyValueError ''resumed_from must be a non-empty span ID string''
          else
            (let attrs = with_optional ''cord.resumed_from'' resumed_from
                   (AList.update ''cord.node.name'' (JStr node) base_attributes) in
             andthen (open_span k (''step:'' @ node) (Some parent)
                 (AList.update ''cord.outcome'' (JStr (step_value out)) attrs)) (\<lambda>c.
               ensuring
                 (marking_exceptions pause (set_attr c ''cord.outcome'' (JStr (step_value Step_Awaiting_Approval)))
                    c (step_value Step_Failed)
                    (body \<lparr>st_span = c, st_attributes = attrs, st_pause = pause, st_base = base_attributes\<rparr>))
                 (close_span k c))))"

definition step_child ::
  "sdk \<Rightarrow> step_handle \<Rightarrow> string \<Rightarrow> step_outcome option \<Rightarrow> json option \<Rightarrow> (exc_class \<Rightarrow> bool) option \<Rightarrow>
   (step_handle \<Rightarrow> (recorder, unit) prog) \<Rightarrow> (recorder, unit) prog" where
  "step_child k st node declared resumed_from pause body =
     open_step_span k (st_span st) (st_base st) node declared resumed_from
       (case pause of None \<Rightarrow> st_pause st | Some p \<Rightarrow> p) body"

definition step_attempt ::
  "sdk \<Rightarrow> step_handle \<Rightarrow> json \<Rightarrow> json option \<Rightarrow> attempt_outcome option \<Rightarrow>
   (span_address \<Rightarrow> (recorder, unit) prog) \<Rightarrow> (recorder, unit) prog" where
  "step_attempt k st number tier declared body =
     (case declared of
        None \<Rightarrow> throw PyTypeError ''expected AttemptOutcome''
      | Some out \<Rightarrow>
          if \<not> (case number of JInt n \<Rightarrow> 1 \<le> n | _ \<Rightarrow> False) then throw PyValueError ''attempt needs a positive number''
          else if bad_optional tier then throw PyValueError ''optional tier must be a non-empty string''
          else
            andthen (open_span k ''attempt'' (Some (st_span st))
                (with_optional ''cord.tier'' tier (AList.update ''cord.outcome'' (JStr (attempt_value out))
                  (AList.update ''cord.step.attempt'' number (st_attributes st))))) (\<lambda>c.
              ensuring (marking_exceptions (st_pause st) (ret ()) c (attempt_value Attempt_Failed) (body c))
                (close_span k c)))"

section \<open>Runs\<close>

record run_handle =
  rn_span :: span_address
  rn_attributes :: "json dict"

record continuation_data =
  kd_trace_id :: string
  kd_run_span_id :: string
  kd_run_id :: json
  kd_subject :: json
  kd_subject_type :: json
  kd_graph_id :: json

definition attr_value :: "json dict \<Rightarrow> string \<Rightarrow> json" where
  "attr_value d key = (case map_of d key of None \<Rightarrow> JNull | Some v \<Rightarrow> v)"

text \<open>\<^verbatim>\<open>Run.continuation\<close>; a Run always carries the four identity attributes.\<close>

definition run_continuation_of :: "run_handle \<Rightarrow> continuation_data" where
  "run_continuation_of rn =
     \<lparr>kd_trace_id = format_hex 32 (sx_trace (rn_span rn)), kd_run_span_id = format_hex 16 (sx_id (rn_span rn)),
      kd_run_id = attr_value (rn_attributes rn) ''cord.run.id'',
      kd_subject = attr_value (rn_attributes rn) ''cord.subject.id'',
      kd_subject_type = attr_value (rn_attributes rn) ''cord.subject.type'',
      kd_graph_id = attr_value (rn_attributes rn) ''cord.graph.id''\<rparr>"

definition run_step ::
  "sdk \<Rightarrow> run_handle \<Rightarrow> string \<Rightarrow> step_outcome option \<Rightarrow> json option \<Rightarrow> (exc_class \<Rightarrow> bool) \<Rightarrow>
   (step_handle \<Rightarrow> (recorder, unit) prog) \<Rightarrow> (recorder, unit) prog" where
  "run_step k rn = open_step_span k (rn_span rn) (rn_attributes rn)"

definition record_run ::
  "sdk \<Rightarrow> string \<Rightarrow> json \<Rightarrow> string \<Rightarrow> json \<Rightarrow> json option \<Rightarrow> json option \<Rightarrow> json \<Rightarrow>
   (run_handle \<Rightarrow> (recorder, unit) prog) \<Rightarrow> (recorder, unit) prog" where
  "record_run k uuid subject subject_type graph_id run_id caused_by cascade_depth body =
     (if bad_text subject \<or> subject_type = [] then throw PyValueError ''Subject and type are required''
      else if bad_text graph_id then throw PyValueError ''explicit Graph identity is required''
      else if bad_optional run_id then throw PyValueError ''Run identity must be a non-empty string''
      else if bad_optional caused_by then throw PyValueError ''caused_by_run_id must be a non-empty string''
      else if \<not> (case cascade_depth of JInt n \<Rightarrow> 0 \<le> n | _ \<Rightarrow> False)
      then throw PyValueError ''cascade_depth must be a non-negative integer''
      else
        (let attrs = with_optional ''cord.caused_by.run_id'' caused_by
               [(''cord.graph.id'', graph_id), (''cord.run.id'', case run_id of None \<Rightarrow> JStr uuid | Some i \<Rightarrow> i),
                (''cord.subject.id'', subject), (''cord.subject.type'', JStr subject_type),
                (''cord.cascade.depth'', cascade_depth)] in
         andthen (open_span k ''run'' None (AList.update ''cord.semconv.version'' (JStr CURRENT_SEMCONV) attrs)) (\<lambda>c.
           ensuring
             (catching (\<lambda>_. True) (body \<lparr>rn_span = c, rn_attributes = attrs\<rparr>)
               (\<lambda>x. andthen (set_error_status c) (\<lambda>_. attempt (Inl x))))
             (close_span k c))))"

text \<open>\<^verbatim>\<open>resume_run\<close>: no span of its own, only the address of the Run's.\<close>

definition resume_run ::
  "continuation_data \<Rightarrow> (run_handle \<Rightarrow> (recorder, unit) prog) \<Rightarrow> (recorder, unit) prog" where
  "resume_run kd body =
     (case (int_of_str 16 (kd_trace_id kd), int_of_str 16 (kd_run_span_id kd)) of
        (Some t, Some s) \<Rightarrow>
          body \<lparr>rn_span = \<lparr>sx_trace = nat t, sx_id = nat s\<rparr>,
                 rn_attributes = [(''cord.graph.id'', kd_graph_id kd), (''cord.run.id'', kd_run_id kd),
                   (''cord.subject.id'', kd_subject kd), (''cord.subject.type'', kd_subject_type kd)]\<rparr>
      | _ \<Rightarrow> throw PyValueError ''invalid literal for int() with base 16'')"

end
