(* ===== verification/Recording_Facts.thy ===== *)
theory Recording_Facts
  imports Execution_Recording
begin

text \<open>
  What \<^theory_text>\<open>Execution_Recording\<close> leaves in the recorder: the spans stay a forest of Runs, Steps and Attempts
  whatever the instrumented code does, and once closed they meet the contract of the archive reader.
\<close>

section \<open>The kinds of spans\<close>

definition is_run :: "recorded_span \<Rightarrow> bool" where "is_run s \<longleftrightarrow> rs_name s = ''run''"
definition is_step :: "recorded_span \<Rightarrow> bool" where "is_step s \<longleftrightarrow> starts_with ''step:'' (rs_name s)"
definition is_attempt :: "recorded_span \<Rightarrow> bool" where "is_attempt s \<longleftrightarrow> rs_name s = ''attempt''"

lemma one_kind: "is_run s \<Longrightarrow> \<not> is_step s \<and> \<not> is_attempt s" "is_step s \<Longrightarrow> \<not> is_run s \<and> \<not> is_attempt s"
  "is_attempt s \<Longrightarrow> \<not> is_run s \<and> \<not> is_step s"
  by (auto simp: is_run_def is_step_def is_attempt_def starts_with_def)

definition val :: "recorded_span \<Rightarrow> string \<Rightarrow> json option" where "val s key = map_of (rs_attrs s) key"

definition identity_of_attrs :: "json dict \<Rightarrow> json option list" where
  "identity_of_attrs d = map (map_of d) IDENTITY"

text \<open>All of a span that nothing changes after it is opened.\<close>

definition shape :: "recorded_span \<Rightarrow> nat \<times> nat \<times> nat option \<times> string \<times> (string \<Rightarrow> json option)" where
  "shape s = (rs_id s, rs_trace s, rs_parent s, rs_name s, (map_of (rs_attrs s))(''cord.outcome'' := None))"

definition sign :: "recorded_span \<Rightarrow> (nat \<times> nat \<times> nat option \<times> string \<times> (string \<Rightarrow> json option)) \<times> bool" where
  "sign s = (shape s, rs_end s = None)"

lemma shapeD:
  assumes "shape s = shape t"
  shows "rs_id s = rs_id t" "rs_trace s = rs_trace t" "rs_parent s = rs_parent t" "rs_name s = rs_name t"
    "is_run s = is_run t" "is_step s = is_step t" "is_attempt s = is_attempt t"
    "key \<noteq> ''cord.outcome'' \<Longrightarrow> val s key = val t key"
    "identity_of_attrs (rs_attrs s) = identity_of_attrs (rs_attrs t)"
proof -
  have d: "(map_of (rs_attrs s))(''cord.outcome'' := None) = (map_of (rs_attrs t))(''cord.outcome'' := None)"
    using assms by (simp add: shape_def)
  have v: "map_of (rs_attrs s) key = map_of (rs_attrs t) key" if "key \<noteq> ''cord.outcome''" for key
    using fun_cong [OF d, of key] that by simp
  show "rs_id s = rs_id t" "rs_trace s = rs_trace t" "rs_parent s = rs_parent t" "rs_name s = rs_name t"
    using assms by (simp_all add: shape_def)
  then show "is_run s = is_run t" "is_step s = is_step t" "is_attempt s = is_attempt t"
    by (simp_all add: is_run_def is_step_def is_attempt_def)
  show "key \<noteq> ''cord.outcome'' \<Longrightarrow> val s key = val t key" using v by (simp add: val_def)
  show "identity_of_attrs (rs_attrs s) = identity_of_attrs (rs_attrs t)"
    using v by (simp add: identity_of_attrs_def IDENTITY_def)
qed

section \<open>A well-formed record\<close>

definition outcome_ok :: "recorded_span \<Rightarrow> bool" where
  "outcome_ok s \<longleftrightarrow>
     (is_step s \<longrightarrow> val s ''cord.outcome'' \<in> (Some \<circ> JStr) ` set STEP_OUTCOMES) \<and>
     (is_attempt s \<longrightarrow> val s ''cord.outcome'' \<in> (Some \<circ> JStr) ` set ATTEMPT_OUTCOMES)"

definition linked :: "recorded_span \<Rightarrow> recorded_span \<Rightarrow> bool" where
  "linked s p \<longleftrightarrow> rs_parent s = Some (rs_id p) \<and> rs_trace s = rs_trace p \<and>
     identity_of_attrs (rs_attrs s) = identity_of_attrs (rs_attrs p)"

definition run_shaped :: "recorded_span \<Rightarrow> bool" where
  "run_shaped s \<longleftrightarrow> is_run s \<and> rs_parent s = None \<and> val s ''cord.node.name'' = None \<and> val s ''cord.step.attempt'' = None \<and>
     val s ''cord.semconv.version'' = Some (JStr CURRENT_SEMCONV)"

definition step_shaped :: "recorded_span list \<Rightarrow> recorded_span \<Rightarrow> bool" where
  "step_shaped before s \<longleftrightarrow> is_step s \<and> val s ''cord.step.attempt'' = None \<and> nonblank_str (val s ''cord.node.name'') \<noteq> None \<and>
     (\<exists>p \<in> set before. linked s p \<and> (is_run p \<or> is_step p))"

definition attempt_shaped :: "recorded_span list \<Rightarrow> recorded_span \<Rightarrow> bool" where
  "attempt_shaped before s \<longleftrightarrow> is_attempt s \<and> positive_number (val s ''cord.step.attempt'') \<and>
     (val s ''cord.tier'' = None \<or> nonblank_str (val s ''cord.tier'') \<noteq> None) \<and>
     nonblank_str (val s ''cord.node.name'') \<noteq> None \<and>
     (\<exists>p \<in> set before. linked s p \<and> is_step p \<and> val s ''cord.node.name'' = val p ''cord.node.name'')"

definition stands :: "recorded_span list \<Rightarrow> recorded_span \<Rightarrow> bool" where
  "stands before s \<longleftrightarrow> (\<forall>j \<in> set (identity_of_attrs (rs_attrs s)). nonblank_str j \<noteq> None) \<and>
     (run_shaped s \<or> step_shaped before s \<or> attempt_shaped before s)"

definition well :: "sdk \<Rightarrow> recorded_span list \<Rightarrow> bool" where
  "well k ss \<longleftrightarrow> map rs_id ss = map (new_id k) [0..<length ss] \<and>
     (\<forall>i < length ss. stands (take i ss) (ss ! i) \<and> outcome_ok (ss ! i))"

lemma same_shapes_mem:
  assumes "map shape xs = map shape ys" "p \<in> set xs"
  shows "\<exists>q \<in> set ys. shape p = shape q"
proof -
  have "shape p \<in> set (map shape ys)" using assms(2) by (simp flip: assms(1))
  then show ?thesis by auto
qed

lemma linked_shape: "shape s = shape s' \<Longrightarrow> shape p = shape p' \<Longrightarrow> linked s p = linked s' p'"
  by (simp add: linked_def shapeD [of s s'] shapeD [of p p'])

lemma run_shaped_shape: "shape s = shape s' \<Longrightarrow> run_shaped s = run_shaped s'"
  by (simp add: run_shaped_def shapeD [of s s'])

lemma step_shaped_shape:
  assumes "shape s = shape s'" "map shape xs = map shape ys" "step_shaped xs s"
  shows "step_shaped ys s'"
proof -
  obtain p where p: "p \<in> set xs" "linked s p" "is_run p \<or> is_step p" using assms(3) by (auto simp: step_shaped_def)
  obtain q where q: "q \<in> set ys" "shape p = shape q" using same_shapes_mem [OF assms(2) p(1)] by blast
  have "linked s' q" "is_run q \<or> is_step q" using p linked_shape [OF assms(1) q(2)] shapeD(5,6) [OF q(2)] by simp_all
  then show ?thesis using assms(3) q(1) unfolding step_shaped_def by (auto simp: shapeD [OF assms(1)])
qed

lemma attempt_shaped_shape:
  assumes "shape s = shape s'" "map shape xs = map shape ys" "attempt_shaped xs s"
  shows "attempt_shaped ys s'"
proof -
  obtain p where p: "p \<in> set xs" "linked s p" "is_step p" "val s ''cord.node.name'' = val p ''cord.node.name''"
    using assms(3) by (auto simp: attempt_shaped_def)
  obtain q where q: "q \<in> set ys" "shape p = shape q" using same_shapes_mem [OF assms(2) p(1)] by blast
  have "linked s' q" "is_step q" "val s' ''cord.node.name'' = val q ''cord.node.name''"
    using p linked_shape [OF assms(1) q(2)] shapeD(6) [OF q(2)] shapeD(8) [OF q(2)] shapeD(8) [OF assms(1)] by simp_all
  then have ex: "\<exists>p \<in> set ys. linked s' p \<and> is_step p \<and> val s' ''cord.node.name'' = val p ''cord.node.name''"
    using q(1) by blast
  have "val s' ''cord.step.attempt'' = val s ''cord.step.attempt''" "val s' ''cord.tier'' = val s ''cord.tier''"
    "val s' ''cord.node.name'' = val s ''cord.node.name''" "is_attempt s' = is_attempt s"
    using shapeD(7,8) [OF assms(1)] by simp_all
  with assms(3) ex show ?thesis unfolding attempt_shaped_def by simp
qed

lemma stands_shape:
  assumes "shape s = shape s'" "map shape xs = map shape ys" "stands xs s"
  shows "stands ys s'"
  using assms(3) run_shaped_shape [OF assms(1)] step_shaped_shape [OF assms(1,2)] attempt_shaped_shape [OF assms(1,2)]
  unfolding stands_def shapeD(9) [OF assms(1)] by blast

lemma well_change:
  assumes "well k ss" "\<forall>s \<in> set ss. shape (f s) = shape s \<and> outcome_ok (f s)"
  shows "well k (map f ss)"
proof -
  have shapes: "map shape (map f (take i ss)) = map shape (take i ss)" for i
    using assms(2) by (auto dest: in_set_takeD)
  have ids: "map rs_id (map f ss) = map rs_id ss" using assms(2) by (auto intro: shapeD(1))
  have "stands (take i (map f ss)) (map f ss ! i) \<and> outcome_ok (map f ss ! i)" if i: "i < length ss" for i
    using stands_shape [of "ss ! i" "f (ss ! i)" "take i ss" "take i (map f ss)"] assms i shapes
    by (simp add: well_def take_map)
  then show ?thesis using assms(1) ids by (simp add: well_def)
qed

lemma well_open:
  assumes "well k ss" "rs_id s = new_id k (length ss)" "stands ss s" "outcome_ok s"
  shows "well k (ss @ [s])"
  using assms by (auto simp: well_def nth_append less_Suc_eq)

section \<open>What a piece of instrumented code keeps\<close>

text \<open>Everything already recorded stays as it is, and every span opened since is closed.\<close>

definition frame :: "recorder \<Rightarrow> recorder \<Rightarrow> bool" where
  "frame r r' \<longleftrightarrow> (\<exists>new. map sign (rec_spans r') = map sign (rec_spans r) @ new \<and> (\<forall>x \<in> set new. \<not> snd x))"

definition extends :: "recorder \<Rightarrow> recorder \<Rightarrow> bool" where
  "extends r r' \<longleftrightarrow> (\<exists>new. map sign (rec_spans r') = map sign (rec_spans r) @ new)"

definition keeps :: "sdk \<Rightarrow> recorder \<Rightarrow> (recorder, unit) prog \<Rightarrow> bool" where
  "keeps k r m \<longleftrightarrow> (well k (rec_spans r) \<longrightarrow> well k (rec_spans (snd (m r))) \<and> frame r (snd (m r)))"

lemma frame_extends: "frame r r' \<Longrightarrow> extends r r'"
  by (auto simp: frame_def extends_def)

lemma frame_refl [simp]: "frame r r"
  by (simp add: frame_def)

lemma frame_trans: "frame r r' \<Longrightarrow> frame r' r'' \<Longrightarrow> frame r r''"
  unfolding frame_def by (elim exE conjE, rule_tac x = "new @ newa" in exI) auto

lemma sign_shape: "map sign xs = map sign ys \<Longrightarrow> map shape xs = map shape ys"
proof -
  assume "map sign xs = map sign ys"
  then have "map fst (map sign xs) = map fst (map sign ys)" by simp
  then show ?thesis by (simp add: sign_def comp_def)
qed

lemma extends_shape:
  assumes "extends r r'" "p \<in> set (rec_spans r)"
  shows "\<exists>q \<in> set (rec_spans r'). shape p = shape q"
proof -
  obtain new where new: "map sign (rec_spans r') = map sign (rec_spans r) @ new" using assms(1) by (auto simp: extends_def)
  have "sign p \<in> set (map sign (rec_spans r'))" unfolding new using assms(2) by simp
  then obtain q where "q \<in> set (rec_spans r')" "sign p = sign q" by auto
  then show ?thesis by (auto simp: sign_def)
qed

lemma keeps_attempt [simp]: "keeps k r (attempt v)"
  by (simp add: keeps_def)

lemma keeps_throw [simp]: "keeps k r (throw c m)"
  by (simp add: keeps_def)

lemma keeps_ret [simp]: "keeps k r (ret ())"
  by (simp add: keeps_def)

lemma keeps_andthen:
  assumes "keeps k r m" "\<And>r' x. frame r r' \<Longrightarrow> well k (rec_spans r') \<Longrightarrow> m r = (Inr x, r') \<Longrightarrow> keeps k r' (f x)"
  shows "keeps k r (andthen m f)"
  using assms frame_trans unfolding keeps_def andthen_def by (fastforce split: prod.splits sum.splits)

lemma keeps_catching:
  assumes "keeps k r m" "\<And>r' e. frame r r' \<Longrightarrow> well k (rec_spans r') \<Longrightarrow> m r = (Inl e, r') \<Longrightarrow> keeps k r' (h e)"
  shows "keeps k r (catching p m h)"
  using assms frame_trans unfolding keeps_def catching_def by (fastforce split: prod.splits sum.splits)

lemma keeps_ensuring:
  assumes "keeps k r m" "\<And>r' x. frame r r' \<Longrightarrow> well k (rec_spans r') \<Longrightarrow> m r = (x, r') \<Longrightarrow> keeps k r' fin"
  shows "keeps k r (ensuring m fin)"
  using assms frame_trans unfolding keeps_def ensuring_def by (fastforce split: prod.splits sum.splits)

lemma change_span_app: "change_span i f r =
    (Inr (), r\<lparr>rec_spans := map (\<lambda>s. if rs_id s = i \<and> rs_end s = None then f s else s) (rec_spans r)\<rparr>)"
  by (simp add: change_span_def)

lemma keeps_change:
  assumes "\<And>s. s \<in> set (rec_spans r) \<Longrightarrow> rs_id s = i \<Longrightarrow> outcome_ok s \<Longrightarrow> sign (f s) = sign s \<and> outcome_ok (f s)"
  shows "keeps k r (change_span i f)"
proof -
  let ?f = "\<lambda>s. if rs_id s = i \<and> rs_end s = None then f s else s"
  have ok: "sign (?f s) = sign s \<and> outcome_ok (?f s)" if "well k (rec_spans r)" "s \<in> set (rec_spans r)" for s
    using that assms by (auto simp: well_def in_set_conv_nth)
  show ?thesis unfolding keeps_def change_span_app
  proof (intro impI conjI)
    assume w: "well k (rec_spans r)"
    show "well k (rec_spans (snd (Inr (), r\<lparr>rec_spans := map ?f (rec_spans r)\<rparr>)))"
      using well_change [OF w, of ?f] ok [OF w] by (simp add: sign_def)
    show "frame r (snd (Inr (), r\<lparr>rec_spans := map ?f (rec_spans r)\<rparr>))"
      unfolding frame_def using ok [OF w] by (intro exI [of _ "[]"]) simp
  qed
qed

lemma sign_outcome: "sign (s\<lparr>rs_attrs := AList.update ''cord.outcome'' v (rs_attrs s)\<rparr>) = sign s"
  by (simp add: sign_def shape_def update_conv')

lemma sign_error: "sign (s\<lparr>rs_error := True\<rparr>) = sign s"
  by (simp add: sign_def shape_def)

lemma outcome_ok_set:
  assumes "is_step s \<Longrightarrow> v \<in> set STEP_OUTCOMES" "is_attempt s \<Longrightarrow> v \<in> set ATTEMPT_OUTCOMES"
  shows "outcome_ok (s\<lparr>rs_attrs := AList.update ''cord.outcome'' (JStr v) (rs_attrs s)\<rparr>)"
  using assms by (auto simp: outcome_ok_def is_step_def is_attempt_def val_def update_conv')

lemma keeps_set_outcome:
  assumes "\<And>s. s \<in> set (rec_spans r) \<Longrightarrow> rs_id s = sx_id c \<Longrightarrow> is_step s \<Longrightarrow> v \<in> set STEP_OUTCOMES"
    "\<And>s. s \<in> set (rec_spans r) \<Longrightarrow> rs_id s = sx_id c \<Longrightarrow> is_attempt s \<Longrightarrow> v \<in> set ATTEMPT_OUTCOMES"
  shows "keeps k r (set_attr c ''cord.outcome'' (JStr v))"
  unfolding set_attr_def using assms by (intro keeps_change) (simp add: sign_outcome outcome_ok_set)

lemma keeps_error [simp]: "keeps k r (set_error_status c)"
  unfolding set_error_status_def
  by (rule keeps_change) (simp add: sign_error, simp add: outcome_ok_def is_step_def is_attempt_def val_def)

lemma step_values: "step_value out \<in> set STEP_OUTCOMES" "attempt_value a \<in> set ATTEMPT_OUTCOMES"
  by (cases out; simp add: step_value_def STEP_OUTCOMES_def) (cases a; simp add: attempt_value_def ATTEMPT_OUTCOMES_def)

section \<open>A span around a body\<close>

definition opened :: "sdk \<Rightarrow> string \<Rightarrow> span_address option \<Rightarrow> json dict \<Rightarrow> recorder \<Rightarrow> recorded_span" where
  "opened k name parent attrs r =
     \<lparr>rs_id = new_id k (length (rec_spans r)),
      rs_trace = (case parent of None \<Rightarrow> new_trace k (length (rec_spans r)) | Some p \<Rightarrow> sx_trace p),
      rs_parent = map_option sx_id parent, rs_name = name, rs_attrs = attrs, rs_error = False,
      rs_start = wall k (rec_clock r), rs_end = None\<rparr>"

definition address_of :: "recorded_span \<Rightarrow> span_address" where
  "address_of s = \<lparr>sx_trace = rs_trace s, sx_id = rs_id s\<rparr>"

lemma open_span_app:
  "open_span k name parent attrs r = (Inr (address_of (opened k name parent attrs r)),
     r\<lparr>rec_spans := rec_spans r @ [opened k name parent attrs r], rec_clock := Suc (rec_clock r)\<rparr>)"
  by (simp add: open_span_def opened_def address_of_def Let_def)

lemma sign_close:
  "map sign (map (\<lambda>s. if rs_id s = i \<and> rs_end s = None then s\<lparr>rs_end := Some t\<rparr> else s) ss) =
   map (\<lambda>x. if fst (fst x) = i then (fst x, False) else x) (map sign ss)"
  by (auto simp: sign_def shape_def)

lemma well_close:
  assumes "well k ss"
  shows "well k (map (\<lambda>s. if rs_id s = i \<and> rs_end s = None then s\<lparr>rs_end := e\<rparr> else s) ss)"
proof (rule well_change [OF assms], intro ballI)
  fix s assume "s \<in> set ss"
  then have "outcome_ok s" using assms by (auto simp: well_def in_set_conv_nth)
  then show "shape (if rs_id s = i \<and> rs_end s = None then s\<lparr>rs_end := e\<rparr> else s) = shape s \<and>
      outcome_ok (if rs_id s = i \<and> rs_end s = None then s\<lparr>rs_end := e\<rparr> else s)"
    by (simp add: shape_def outcome_ok_def is_step_def is_attempt_def val_def)
qed

lemma keeps_span:
  assumes inj: "inj (new_id k)"
    and new: "stands (rec_spans r) (opened k name parent attrs r)" "outcome_ok (opened k name parent attrs r)"
    and body: "\<And>r1 :: recorder. rec_spans r1 = rec_spans r @ [opened k name parent attrs r] \<Longrightarrow> well k (rec_spans r1) \<Longrightarrow>
      keeps k r1 (m (address_of (opened k name parent attrs r)))"
  shows "keeps k r (andthen (open_span k name parent attrs) (\<lambda>c. ensuring (m c) (close_span k c)))"
  unfolding keeps_def
proof
  let ?s = "opened k name parent attrs r"
  let ?i = "rs_id ?s"
  let ?r1 = "r\<lparr>rec_spans := rec_spans r @ [?s], rec_clock := Suc (rec_clock r)\<rparr>"
  assume w: "well k (rec_spans r)"
  have w1: "well k (rec_spans ?r1)" using well_open [OF w _ new] by (simp add: opened_def)
  obtain x r2 where m: "m (address_of ?s) ?r1 = (x, r2)" by fastforce
  have k2: "well k (rec_spans r2)" "frame ?r1 r2" using body [of ?r1] w1 m by (simp_all add: keeps_def)
  let ?close = "\<lambda>s. if rs_id s = ?i \<and> rs_end s = None then s\<lparr>rs_end := Some (wall k (rec_clock r2))\<rparr> else s"
  let ?r3 = "r2\<lparr>rec_spans := map ?close (rec_spans r2), rec_clock := Suc (rec_clock r2)\<rparr>"
  have "snd (andthen (open_span k name parent attrs) (\<lambda>c. ensuring (m c) (close_span k c)) r) = ?r3"
    using m by (simp add: andthen_def open_span_app ensuring_def close_span_def change_span_app address_of_def)
  moreover have "well k (rec_spans ?r3)"
    using well_close [OF k2(1)] by simp
  moreover have "frame r ?r3"
  proof -
    obtain N where N: "map sign (rec_spans r2) = map sign (rec_spans r) @ sign ?s # N" "\<forall>x \<in> set N. \<not> snd x"
      using k2(2) by (auto simp: frame_def)
    let ?off = "\<lambda>x :: (nat \<times> nat \<times> nat option \<times> string \<times> (string \<Rightarrow> json option)) \<times> bool. if fst (fst x) = ?i then (fst x, False) else x"
    have ids: "map rs_id (rec_spans r) = map (new_id k) [0..<length (rec_spans r)]" using w by (simp add: well_def)
    have "?i \<notin> set (map rs_id (rec_spans r))" unfolding ids using inj by (auto simp: opened_def inj_eq)
    then have out: "?i \<notin> rs_id ` set (rec_spans r)" by simp
    have "rs_id x \<noteq> ?i" if x: "x \<in> set (rec_spans r)" for x using out imageI [OF x, of rs_id] by metis
    then have old: "map ?off (map sign (rec_spans r)) = map sign (rec_spans r)"
      by (simp add: sign_def shape_def)
    have "map sign (rec_spans ?r3) = map ?off (map sign (rec_spans r2))" using sign_close by simp
    also have "\<dots> = map sign (rec_spans r) @ ?off (sign ?s) # map ?off N" unfolding N(1) by (simp add: old [simplified])
    finally show ?thesis unfolding frame_def using N(2) by (intro exI [of _ "?off (sign ?s) # map ?off N"]) (auto simp: sign_def shape_def)
  qed
  ultimately show "well k (rec_spans (snd (andthen (open_span k name parent attrs) (\<lambda>c. ensuring (m c) (close_span k c)) r))) \<and>
      frame r (snd (andthen (open_span k name parent attrs) (\<lambda>c. ensuring (m c) (close_span k c)) r))" by simp
qed

section \<open>Handles\<close>

text \<open>What instrumented code holds: a Run, Steps and the spans of Attempts; and that they are recorded.\<close>

datatype handle = Run_Handle run_handle | Step_Handle step_handle | Attempt_Handle span_address

definition recorded_at :: "recorder \<Rightarrow> span_address \<Rightarrow> recorded_span \<Rightarrow> bool" where
  "recorded_at r c p \<longleftrightarrow> p \<in> set (rec_spans r) \<and> rs_id p = sx_id c \<and> rs_trace p = sx_trace c"

definition bare :: "json dict \<Rightarrow> bool" where
  "bare d \<longleftrightarrow> map_of d ''cord.step.attempt'' = None \<and> map_of d ''cord.tier'' = None \<and>
     (\<forall>j \<in> set (identity_of_attrs d). nonblank_str j \<noteq> None)"

definition run_attrs_ok :: "recorder \<Rightarrow> span_address \<Rightarrow> json dict \<Rightarrow> bool" where
  "run_attrs_ok r c d \<longleftrightarrow> bare d \<and>
     (\<exists>p. recorded_at r c p \<and> (is_run p \<or> is_step p) \<and> identity_of_attrs (rs_attrs p) = identity_of_attrs d)"

definition step_ok :: "recorder \<Rightarrow> step_handle \<Rightarrow> bool" where
  "step_ok r st \<longleftrightarrow> run_attrs_ok r (st_span st) (st_base st) \<and> bare (st_attributes st) \<and>
     nonblank_str (map_of (st_attributes st) ''cord.node.name'') \<noteq> None \<and>
     (\<exists>p. recorded_at r (st_span st) p \<and> is_step p \<and> identity_of_attrs (rs_attrs p) = identity_of_attrs (st_attributes st) \<and>
        val p ''cord.node.name'' = map_of (st_attributes st) ''cord.node.name'')"

fun handle_ok :: "recorder \<Rightarrow> handle \<Rightarrow> bool" where
  "handle_ok r (Run_Handle rn) = run_attrs_ok r (rn_span rn) (rn_attributes rn)"
| "handle_ok r (Step_Handle st) = step_ok r st"
| "handle_ok r (Attempt_Handle c) = (\<exists>p. recorded_at r c p \<and> is_attempt p)"

lemma recorded_at_extends:
  assumes "extends r r'" "recorded_at r c p"
  shows "\<exists>q. recorded_at r' c q \<and> shape p = shape q"
  using extends_shape [OF assms(1)] assms(2) shapeD(1,2) unfolding recorded_at_def by metis

lemma run_attrs_ok_extends: "extends r r' \<Longrightarrow> run_attrs_ok r c d \<Longrightarrow> run_attrs_ok r' c d"
  using recorded_at_extends shapeD(5,6,9) unfolding run_attrs_ok_def by metis

lemma step_ok_extends:
  assumes "extends r r'" "step_ok r st"
  shows "step_ok r' st"
proof -
  obtain p where p: "recorded_at r (st_span st) p" "is_step p" "identity_of_attrs (rs_attrs p) = identity_of_attrs (st_attributes st)"
      "val p ''cord.node.name'' = map_of (st_attributes st) ''cord.node.name''"
    using assms(2) by (auto simp: step_ok_def)
  obtain q where q: "recorded_at r' (st_span st) q" "shape p = shape q" using recorded_at_extends [OF assms(1) p(1)] by blast
  have "is_step q" "identity_of_attrs (rs_attrs q) = identity_of_attrs (st_attributes st)"
      "val q ''cord.node.name'' = map_of (st_attributes st) ''cord.node.name''"
    using p shapeD(6,9) [OF q(2)] shapeD(8) [OF q(2), of "''cord.node.name''"] by simp_all
  then show ?thesis using assms run_attrs_ok_extends [OF assms(1)] q(1) by (auto simp: step_ok_def)
qed

lemma handle_ok_extends:
  assumes "extends r r'" "handle_ok r h"
  shows "handle_ok r' h"
proof (cases h)
  case (Attempt_Handle c)
  then show ?thesis using recorded_at_extends [OF assms(1)] assms(2) shapeD(7) by (metis handle_ok.simps(3))
qed (use assms run_attrs_ok_extends step_ok_extends in auto)

text \<open>Ids tell recorded spans apart.\<close>

lemma well_ids:
  assumes "inj (new_id k)" "well k ss" "p \<in> set ss" "q \<in> set ss" "rs_id p = rs_id q"
  shows "p = q"
proof -
  have ids: "map rs_id ss = map (new_id k) [0..<length ss]" using assms(2) by (simp add: well_def)
  have "distinct (map rs_id ss)" unfolding ids using inj_on_subset [OF assms(1) subset_UNIV]
    by (simp add: distinct_map)
  then show ?thesis using assms(3-5) by (auto simp: distinct_map dest: inj_onD)
qed

section \<open>The context managers keep the record\<close>

lemma keeps_set_step:
  assumes "inj (new_id k)" "recorded_at r c p" "is_step p"
  shows "keeps k r (set_attr c ''cord.outcome'' (JStr (step_value out)))"
proof (cases "well k (rec_spans r)")
  case True
  have "s = p" if "s \<in> set (rec_spans r)" "rs_id s = sx_id c" for s
    using well_ids [OF assms(1) True that(1), of p] assms(2) that(2) by (simp add: recorded_at_def)
  then show ?thesis using assms(3) one_kind(2) [OF assms(3)] by (intro keeps_set_outcome) (auto simp: step_values)
qed (simp add: keeps_def)

lemma keeps_set_attempt:
  assumes "inj (new_id k)" "recorded_at r c p" "is_attempt p"
  shows "keeps k r (set_attr c ''cord.outcome'' (JStr (attempt_value out)))"
proof (cases "well k (rec_spans r)")
  case True
  have "s = p" if "s \<in> set (rec_spans r)" "rs_id s = sx_id c" for s
    using well_ids [OF assms(1) True that(1), of p] assms(2) that(2) by (simp add: recorded_at_def)
  then show ?thesis using assms(3) one_kind(3) [OF assms(3)] by (intro keeps_set_outcome) (auto simp: step_values)
qed (simp add: keeps_def)

lemma keeps_marking:
  assumes "keeps k r body" "\<And>r'. frame r r' \<Longrightarrow> well k (rec_spans r') \<Longrightarrow> keeps k r' paused"
    "\<And>r'. frame r r' \<Longrightarrow> well k (rec_spans r') \<Longrightarrow> keeps k r' (set_attr c ''cord.outcome'' (JStr failed))"
  shows "keeps k r (marking_exceptions pause paused c failed body)"
  unfolding marking_exceptions_def
  using assms by (intro keeps_catching) (auto intro!: keeps_andthen)

lemma bad_optional_Some: "\<not> bad_optional j \<Longrightarrow> j = Some v \<Longrightarrow> nonblank_str (Some v) \<noteq> None"
  by (simp add: bad_optional_def bad_text_def)

lemma nonblank_JStr [simp]: "nonblank_str (Some (JStr x)) \<noteq> None \<longleftrightarrow> \<not> blank x"
  by (simp split: option.split)

lemma with_optional_other: "key \<noteq> key' \<Longrightarrow> map_of (with_optional key j d) key' = map_of d key'"
  by (cases j) (simp_all add: with_optional_def update_conv')

lemma identity_update: "key \<notin> set IDENTITY \<Longrightarrow> identity_of_attrs (AList.update key v d) = identity_of_attrs d"
  by (auto simp: identity_of_attrs_def update_conv')

lemma identity_optional: "key \<notin> set IDENTITY \<Longrightarrow> identity_of_attrs (with_optional key j d) = identity_of_attrs d"
  by (cases j) (simp_all add: with_optional_def identity_update)

definition step_attrs :: "json dict \<Rightarrow> string \<Rightarrow> json option \<Rightarrow> json dict" where
  "step_attrs base node resumed_from = with_optional ''cord.resumed_from'' resumed_from (AList.update ''cord.node.name'' (JStr node) base)"

lemma step_attrs_values:
  "identity_of_attrs (step_attrs base node q) = identity_of_attrs base"
  "map_of (step_attrs base node q) ''cord.node.name'' = Some (JStr node)"
  "map_of (step_attrs base node q) ''cord.step.attempt'' = map_of base ''cord.step.attempt''"
  "map_of (step_attrs base node q) ''cord.tier'' = map_of base ''cord.tier''"
  by (simp_all add: step_attrs_def identity_optional identity_update IDENTITY_def with_optional_other update_conv')

definition opened_step :: "sdk \<Rightarrow> span_address \<Rightarrow> json dict \<Rightarrow> string \<Rightarrow> step_outcome \<Rightarrow> json option \<Rightarrow> recorder \<Rightarrow> recorded_span" where
  "opened_step k parent base node out resumed_from = opened k (''step:'' @ node) (Some parent)
     (AList.update ''cord.outcome'' (JStr (step_value out)) (step_attrs base node resumed_from))"

lemma opened_step_shape:
  assumes par: "run_attrs_ok r parent base" and node: "\<not> blank node"
  shows "is_step (opened_step k parent base node out q r)" "stands (rec_spans r) (opened_step k parent base node out q r)"
    "outcome_ok (opened_step k parent base node out q r)"
    "identity_of_attrs (rs_attrs (opened_step k parent base node out q r)) = identity_of_attrs base"
proof -
  let ?s = "opened_step k parent base node out q r"
  obtain p where p: "recorded_at r parent p" "is_run p \<or> is_step p" "identity_of_attrs (rs_attrs p) = identity_of_attrs base"
    and bare: "bare base" using par by (auto simp: run_attrs_ok_def)
  show idf: "identity_of_attrs (rs_attrs ?s) = identity_of_attrs base"
    by (simp add: opened_step_def opened_def step_attrs_values identity_update IDENTITY_def)
  show step: "is_step ?s" by (simp add: is_step_def opened_step_def opened_def starts_with_def)
  have linked: "linked ?s p" using p idf by (simp add: linked_def opened_step_def opened_def recorded_at_def)
  have shaped: "step_shaped (rec_spans r) ?s" using step linked p bare node unfolding step_shaped_def
    by (auto simp: val_def opened_step_def opened_def update_conv' step_attrs_values bare_def recorded_at_def)
  show "stands (rec_spans r) ?s" using shaped bare by (simp add: stands_def idf bare_def)
  show "outcome_ok ?s" using step one_kind(2) [OF step] step_values(1)
    by (auto simp: outcome_ok_def val_def opened_step_def opened_def update_conv')
qed

lemma opened_step_ok:
  assumes par: "run_attrs_ok r parent base" and node: "\<not> blank node"
    and r1: "rec_spans r1 = rec_spans r @ [opened_step k parent base node out q r]"
  shows "step_ok r1 \<lparr>st_span = address_of (opened_step k parent base node out q r), st_attributes = step_attrs base node q,
    st_pause = pause, st_base = base\<rparr>"
proof -
  let ?s = "opened_step k parent base node out q r"
  have bare: "bare base" using par by (simp add: run_attrs_ok_def)
  have at: "recorded_at r1 (address_of ?s) ?s" using r1 by (simp add: recorded_at_def address_of_def)
  have step: "is_step ?s" and idf: "identity_of_attrs (rs_attrs ?s) = identity_of_attrs base"
    using opened_step_shape [OF par node] by blast+
  have "run_attrs_ok r1 (address_of ?s) base" using at step bare idf unfolding run_attrs_ok_def by auto
  then show ?thesis using at step bare node idf unfolding step_ok_def
    by (auto simp: bare_def step_attrs_values val_def opened_step_def opened_def update_conv')
qed

lemma open_step_span_eq:
  assumes "node \<noteq> []" "\<not> bad_optional resumed_from"
  shows "open_step_span k parent base node (Some out) resumed_from pause body =
    andthen (open_span k (''step:'' @ node) (Some parent)
        (AList.update ''cord.outcome'' (JStr (step_value out)) (step_attrs base node resumed_from)))
      (\<lambda>c. ensuring (marking_exceptions pause (set_attr c ''cord.outcome'' (JStr (step_value Step_Awaiting_Approval)))
          c (step_value Step_Failed)
          (body \<lparr>st_span = c, st_attributes = step_attrs base node resumed_from, st_pause = pause, st_base = base\<rparr>))
        (close_span k c))"
  using assms by (simp add: open_step_span_def step_attrs_def Let_def)

lemma keeps_open_step:
  assumes inj: "inj (new_id k)" and par: "run_attrs_ok r parent base" and node: "\<not> blank node"
    and body: "\<And>r1 st. extends r r1 \<Longrightarrow> step_ok r1 st \<Longrightarrow> keeps k r1 (body st)"
  shows "keeps k r (open_step_span k parent base node declared resumed_from pause body)"
proof (cases "declared = None \<or> node = [] \<or> bad_optional resumed_from")
  case True
  then show ?thesis by (cases declared) (auto simp: open_step_span_def)
next
  case False
  then obtain out where out: "declared = Some out" by (cases declared) auto
  let ?s = "opened_step k parent base node out resumed_from r"
  let ?c = "address_of ?s"
  note shape = opened_step_shape [OF par node]
  show ?thesis unfolding out using False
  proof (subst open_step_span_eq, simp, simp, intro keeps_span [OF inj])
    fix r1 :: recorder assume r1: "rec_spans r1 = rec_spans r @ [opened k (''step:'' @ node) (Some parent)
        (AList.update ''cord.outcome'' (JStr (step_value out)) (step_attrs base node resumed_from)) r]" and w: "well k (rec_spans r1)"
    note r1 = r1 [folded opened_step_def]
    have ext: "extends r r1" using r1 by (simp add: extends_def)
    have at: "recorded_at r1 ?c ?s" using r1 by (simp add: recorded_at_def address_of_def)
    have set: "keeps k r2 (set_attr ?c ''cord.outcome'' (JStr (step_value o2)))" if fr: "frame r1 r2" for r2 o2
    proof -
      obtain q where "recorded_at r2 ?c q" "shape ?s = shape q" using recorded_at_extends [OF frame_extends [OF fr] at] by blast
      then show ?thesis using keeps_set_step [OF inj] shape(1) shapeD(6) by metis
    qed
    show "keeps k r1 (marking_exceptions pause
        (set_attr (address_of (opened k (''step:'' @ node) (Some parent)
          (AList.update ''cord.outcome'' (JStr (step_value out)) (step_attrs base node resumed_from)) r))
          ''cord.outcome'' (JStr (step_value Step_Awaiting_Approval)))
        (address_of (opened k (''step:'' @ node) (Some parent)
          (AList.update ''cord.outcome'' (JStr (step_value out)) (step_attrs base node resumed_from)) r)) (step_value Step_Failed)
        (body \<lparr>st_span = address_of (opened k (''step:'' @ node) (Some parent)
          (AList.update ''cord.outcome'' (JStr (step_value out)) (step_attrs base node resumed_from)) r),
          st_attributes = step_attrs base node resumed_from, st_pause = pause, st_base = base\<rparr>))"
      unfolding opened_step_def [symmetric]
      by (rule keeps_marking) (use body [OF ext opened_step_ok [OF par node r1]] set in auto)
  qed (rule shape [unfolded opened_step_def])+
qed

lemma keeps_attempt_span:
  assumes inj: "inj (new_id k)" and st: "step_ok r st"
    and body: "\<And>r1 c p. extends r r1 \<Longrightarrow> recorded_at r1 c p \<Longrightarrow> is_attempt p \<Longrightarrow> keeps k r1 (body c)"
  shows "keeps k r (step_attempt k st number tier declared body)"
proof (cases "declared = None \<or> \<not> (case number of JInt n \<Rightarrow> 1 \<le> n | _ \<Rightarrow> False) \<or> bad_optional tier")
  case True
  then show ?thesis by (cases declared) (auto simp: step_attempt_def)
next
  case False
  then obtain out n where out: "declared = Some out" "number = JInt n" "1 \<le> n" "\<not> bad_optional tier"
    by (cases declared; cases number) auto
  let ?base = "AList.update ''cord.outcome'' (JStr (attempt_value out)) (AList.update ''cord.step.attempt'' number (st_attributes st))"
  let ?full = "with_optional ''cord.tier'' tier ?base"
  let ?s = "opened k ''attempt'' (Some (st_span st)) ?full r"
  let ?m = "\<lambda>c. marking_exceptions (st_pause st) (ret ()) c (attempt_value Attempt_Failed) (body c)"
  have eq: "step_attempt k st number tier declared body =
      andthen (open_span k ''attempt'' (Some (st_span st)) ?full) (\<lambda>c. ensuring (?m c) (close_span k c))"
    using out by (simp add: step_attempt_def)
  obtain p where p: "recorded_at r (st_span st) p" "is_step p"
      "identity_of_attrs (rs_attrs p) = identity_of_attrs (st_attributes st)"
      "val p ''cord.node.name'' = map_of (st_attributes st) ''cord.node.name''"
    and bare: "bare (st_attributes st)" "nonblank_str (map_of (st_attributes st) ''cord.node.name'') \<noteq> None"
    using st by (auto simp: step_ok_def)
  have idf: "identity_of_attrs ?full = identity_of_attrs (st_attributes st)"
    by (simp add: identity_optional identity_update IDENTITY_def)
  have kind: "is_attempt ?s" by (simp add: is_attempt_def opened_def)
  have vals: "val ?s ''cord.step.attempt'' = Some (JInt n)" "val ?s ''cord.outcome'' = Some (JStr (attempt_value out))"
    "val ?s ''cord.node.name'' = val p ''cord.node.name''" "val ?s ''cord.tier'' = tier"
    using bare(1) p(4) out(2) by (simp_all add: val_def opened_def with_optional_other update_conv' bare_def)
      (cases tier; simp add: with_optional_def update_conv')
  have linked: "linked ?s p" using p by (simp add: linked_def opened_def recorded_at_def idf)
  have tier: "tier = None \<or> nonblank_str tier \<noteq> None" using out(4) bad_optional_Some by (cases tier) auto
  have pos: "positive_number (Some (JInt n))" using out(3) by (simp add: positive_number_def)
  have "p \<in> set (rec_spans r)" using p(1) by (simp add: recorded_at_def)
  then have shaped: "attempt_shaped (rec_spans r) ?s"
    unfolding attempt_shaped_def vals using kind linked p(2) tier pos bare(2) p(4) by auto
  have stands: "stands (rec_spans r) ?s" using shaped bare(1) by (simp add: stands_def opened_def idf bare_def)
  have outcome: "outcome_ok ?s" using kind one_kind(3) [OF kind] step_values(2)
    unfolding outcome_ok_def vals by auto
  show ?thesis unfolding eq
  proof (rule keeps_span [OF inj stands outcome])
    fix r1 :: recorder assume r1: "rec_spans r1 = rec_spans r @ [?s]" and w: "well k (rec_spans r1)"
    let ?c = "address_of ?s"
    have ext: "extends r r1" using r1 by (simp add: extends_def)
    have at: "recorded_at r1 ?c ?s" using r1 by (simp add: recorded_at_def address_of_def)
    have set: "keeps k r2 (set_attr ?c ''cord.outcome'' (JStr (attempt_value o2)))" if fr: "frame r1 r2" for r2 o2
    proof -
      obtain q where "recorded_at r2 ?c q" "shape ?s = shape q" using recorded_at_extends [OF frame_extends [OF fr] at] by blast
      then show ?thesis using keeps_set_attempt [OF inj] kind shapeD(7) by metis
    qed
    show "keeps k r1 (?m ?c)"
      by (rule keeps_marking) (use body [OF ext at kind] set in auto)
  qed
qed

section \<open>Instrumented code\<close>

text \<open>
  The programs instrumented code is made of, over the handles it holds: it returns, raises, catches and
  finishes, opens Steps, nested Steps and Attempts, and declares outcomes of what it opened. A Node's name
  is not blank: the code does not check this, and it has to hold.
\<close>

inductive instrumented :: "sdk \<Rightarrow> handle set \<Rightarrow> (recorder, unit) prog \<Rightarrow> bool" for k where
  result: "instrumented k C (attempt v)"
| seq: "instrumented k C m \<Longrightarrow> instrumented k C m' \<Longrightarrow> instrumented k C (andthen m (\<lambda>_. m'))"
| caught: "instrumented k C m \<Longrightarrow> (\<And>e. instrumented k C (h e)) \<Longrightarrow> instrumented k C (catching p m h)"
| finished: "instrumented k C m \<Longrightarrow> instrumented k C m' \<Longrightarrow> instrumented k C (ensuring m m')"
| step: "Run_Handle rn \<in> C \<Longrightarrow> \<not> blank node \<Longrightarrow> (\<And>st. instrumented k (insert (Step_Handle st) C) (body st)) \<Longrightarrow>
    instrumented k C (run_step k rn node declared resumed_from pause body)"
| child: "Step_Handle st \<in> C \<Longrightarrow> \<not> blank node \<Longrightarrow> (\<And>st'. instrumented k (insert (Step_Handle st') C) (body st')) \<Longrightarrow>
    instrumented k C (step_child k st node declared resumed_from pause' body)"
| attempt: "Step_Handle st \<in> C \<Longrightarrow> (\<And>c. instrumented k (insert (Attempt_Handle c) C) (body c)) \<Longrightarrow>
    instrumented k C (step_attempt k st number tier declared' body)"
| step_outcome: "Step_Handle st \<in> C \<Longrightarrow> instrumented k C (set_attr (st_span st) ''cord.outcome'' (JStr (step_value out)))"
| attempt_outcome: "Attempt_Handle c \<in> C \<Longrightarrow> instrumented k C (set_attr c ''cord.outcome'' (JStr (attempt_value out')))"

lemma handles_extend: "\<forall>h \<in> C. handle_ok r h \<Longrightarrow> extends r r' \<Longrightarrow> \<forall>h \<in> C. handle_ok r' h"
  using handle_ok_extends by blast

lemma instrumented_keeps:
  assumes "instrumented k C m" "inj (new_id k)" "\<forall>h \<in> C. handle_ok r h"
  shows "keeps k r m"
  using assms(1,3)
proof (induction arbitrary: r rule: instrumented.induct)
  case (seq C m m')
  show ?case by (intro keeps_andthen seq.IH seq.prems handles_extend [OF seq.prems frame_extends])
next
  case (caught C m h p)
  show ?case by (intro keeps_catching caught.IH caught.prems handles_extend [OF caught.prems frame_extends])
next
  case (finished C m m')
  show ?case by (intro keeps_ensuring finished.IH finished.prems handles_extend [OF finished.prems frame_extends])
next
  case (step rn C node body declared resumed_from pause)
  have "run_attrs_ok r (rn_span rn) (rn_attributes rn)" using step.hyps(1) step.prems by force
  then show ?case unfolding run_step_def
    by (intro keeps_open_step assms(2) step.hyps(2) step.IH)
      (use handles_extend [OF step.prems] in auto)
next
  case (child st C node body declared resumed_from pause')
  have "step_ok r st" using child.hyps(1) child.prems by force
  then have "run_attrs_ok r (st_span st) (st_base st)" by (simp add: step_ok_def)
  then show ?case unfolding step_child_def
    by (intro keeps_open_step assms(2) child.hyps(2) child.IH)
      (use handles_extend [OF child.prems] in auto)
next
  case (attempt st C body number tier declared')
  have "step_ok r st" using attempt.hyps(1) attempt.prems by force
  then show ?case
    by (intro keeps_attempt_span assms(2) attempt.IH)
      (use handles_extend [OF attempt.prems] in auto)
next
  case (step_outcome st C out)
  then obtain p where "recorded_at r (st_span st) p" "is_step p" by (force simp: step_ok_def)
  then show ?case by (rule keeps_set_step [OF assms(2)])
next
  case (attempt_outcome c C out')
  then obtain p where "recorded_at r c p" "is_attempt p" by force
  then show ?case by (rule keeps_set_attempt [OF assms(2)])
qed simp

section \<open>Runs, and Runs taken up again\<close>

lemma keeps_run:
  assumes inj: "inj (new_id k)" and named: "\<not> blank subject_type" "\<not> blank uuid"
    and body: "\<And>rn. instrumented k {Run_Handle rn} (body rn)"
  shows "keeps k r (record_run k uuid subject subject_type graph_id run_id caused_by depth body)"
proof (cases "bad_text subject \<or> bad_text graph_id \<or> bad_optional run_id \<or> bad_optional caused_by \<or>
    \<not> (case depth of JInt n \<Rightarrow> 0 \<le> n | _ \<Rightarrow> False) \<or> subject_type = []")
  case True
  then show ?thesis by (auto simp: record_run_def)
next
  case False
  let ?id = "case run_id of None \<Rightarrow> JStr uuid | Some i \<Rightarrow> i"
  let ?four = "[(''cord.graph.id'', graph_id), (''cord.run.id'', ?id), (''cord.subject.id'', subject),
      (''cord.subject.type'', JStr subject_type), (''cord.cascade.depth'', depth)]"
  let ?attrs = "with_optional ''cord.caused_by.run_id'' caused_by ?four"
  let ?full = "AList.update ''cord.semconv.version'' (JStr CURRENT_SEMCONV) ?attrs"
  let ?s = "opened k ''run'' None ?full r"
  let ?m = "\<lambda>c. catching (\<lambda>_. True) (body \<lparr>rn_span = c, rn_attributes = ?attrs\<rparr>)
      (\<lambda>x. andthen (set_error_status c) (\<lambda>_. attempt (Inl x)))"
  have eq: "record_run k uuid subject subject_type graph_id run_id caused_by depth body =
      andthen (open_span k ''run'' None ?full) (\<lambda>c. ensuring (?m c) (close_span k c))"
    using False unfolding record_run_def Let_def by simp
  have idf: "identity_of_attrs ?full = [Some graph_id, Some ?id, Some subject, Some (JStr subject_type)]"
    "identity_of_attrs ?attrs = [Some graph_id, Some ?id, Some subject, Some (JStr subject_type)]"
    by (simp_all add: IDENTITY_def identity_of_attrs_def update_conv' with_optional_other)
  have texts: "\<forall>j \<in> set [Some graph_id, Some ?id, Some subject, Some (JStr subject_type)]. nonblank_str j \<noteq> None"
    using False named by (cases run_id) (auto simp: bad_text_def bad_optional_def)
  have kind: "is_run ?s" by (simp add: is_run_def opened_def)
  have shaped: "run_shaped ?s"
    using kind by (simp add: run_shaped_def val_def opened_def update_conv' with_optional_other)
  have stands: "stands (rec_spans r) ?s" using shaped texts by (simp add: stands_def opened_def idf)
  have outcome: "outcome_ok ?s" using one_kind(1) [OF kind] by (simp add: outcome_ok_def)
  show ?thesis unfolding eq
  proof (rule keeps_span [OF inj stands outcome])
    fix r1 :: recorder assume r1: "rec_spans r1 = rec_spans r @ [?s]" and w: "well k (rec_spans r1)"
    have "recorded_at r1 (address_of ?s) ?s" using r1 by (simp add: recorded_at_def address_of_def)
    then have "run_attrs_ok r1 (address_of ?s) ?attrs" using kind texts idf
      unfolding run_attrs_ok_def bare_def by (auto simp: opened_def with_optional_other)
    then have "keeps k r1 (body \<lparr>rn_span = address_of ?s, rn_attributes = ?attrs\<rparr>)"
      by (intro instrumented_keeps [OF body inj]) simp
    then show "keeps k r1 (?m (address_of ?s))" by (intro keeps_catching) (auto intro: keeps_andthen)
  qed
qed

definition resumed_handle :: "recorded_span \<Rightarrow> run_handle" where
  "resumed_handle origin = (let kd = run_continuation_of \<lparr>rn_span = address_of origin, rn_attributes = rs_attrs origin\<rparr> in
     \<lparr>rn_span = address_of origin, rn_attributes = [(''cord.graph.id'', kd_graph_id kd), (''cord.run.id'', kd_run_id kd),
        (''cord.subject.id'', kd_subject kd), (''cord.subject.type'', kd_subject_type kd)]\<rparr>)"

lemma resume_run_origin:
  "resume_run (run_continuation_of \<lparr>rn_span = address_of origin, rn_attributes = rs_attrs origin\<rparr>) body = body (resumed_handle origin)"
  by (simp add: resume_run_def run_continuation_of_def resumed_handle_def int_of_format_hex address_of_def)

lemma resumed_attrs_ok:
  assumes w: "well k (rec_spans r)" and origin: "origin \<in> set (rec_spans r)" "is_run origin"
  shows "run_attrs_ok r (address_of origin) (rn_attributes (resumed_handle origin))"
proof -
  obtain i where "i < length (rec_spans r)" "origin = rec_spans r ! i" using origin(1) by (auto simp: in_set_conv_nth)
  then have "stands (take i (rec_spans r)) origin" using w by (simp add: well_def)
  then have texts: "\<forall>j \<in> set (identity_of_attrs (rs_attrs origin)). nonblank_str j \<noteq> None" by (simp add: stands_def)
  have some: "Some (attr_value (rs_attrs origin) key) = map_of (rs_attrs origin) key" if "key \<in> set IDENTITY" for key
  proof (cases "map_of (rs_attrs origin) key")
    case None
    then have "None \<in> set (identity_of_attrs (rs_attrs origin))" using that by (force simp: identity_of_attrs_def)
    then show ?thesis using texts by force
  qed (simp add: attr_value_def)
  have ident: "identity_of_attrs (rn_attributes (resumed_handle origin)) = identity_of_attrs (rs_attrs origin)"
    using some by (simp add: identity_of_attrs_def IDENTITY_def run_continuation_of_def resumed_handle_def Let_def)
  have "bare (rn_attributes (resumed_handle origin))"
    unfolding bare_def ident using texts by (simp add: resumed_handle_def Let_def)
  moreover have "recorded_at r (address_of origin) origin" using origin(1) by (simp add: recorded_at_def address_of_def)
  ultimately show ?thesis using origin(2) ident unfolding run_attrs_ok_def by auto
qed

lemma keeps_resume:
  assumes inj: "inj (new_id k)" and origin: "origin \<in> set (rec_spans r)" "is_run origin"
    and body: "\<And>rn. instrumented k {Run_Handle rn} (body rn)"
  shows "keeps k r (resume_run (run_continuation_of \<lparr>rn_span = address_of origin, rn_attributes = rs_attrs origin\<rparr>) body)"
proof (cases "well k (rec_spans r)")
  case True
  have "rn_span (resumed_handle origin) = address_of origin" by (simp add: resumed_handle_def Let_def)
  then have "keeps k r (body (resumed_handle origin))"
    using resumed_attrs_ok [OF True origin] by (intro instrumented_keeps [OF body inj]) simp
  then show ?thesis by (simp add: resume_run_origin)
qed (simp add: keeps_def)

text \<open>
  What one process after another leaves: Runs opened with a Subject type that is not blank, and Runs taken up
  again from the continuation of a recorded one.
\<close>

inductive recorded_by :: "sdk \<Rightarrow> recorder \<Rightarrow> bool" for k where
  start: "recorded_by k \<lparr>rec_spans = [], rec_clock = 0\<rparr>"
| run: "recorded_by k r \<Longrightarrow> \<not> blank subject_type \<Longrightarrow> \<not> blank uuid \<Longrightarrow> (\<And>rn. instrumented k {Run_Handle rn} (body rn)) \<Longrightarrow>
    recorded_by k (snd (record_run k uuid subject subject_type graph_id run_id caused_by depth body r))"
| resume: "recorded_by k r \<Longrightarrow> origin \<in> set (rec_spans r) \<Longrightarrow> is_run origin \<Longrightarrow> (\<And>rn. instrumented k {Run_Handle rn} (body rn)) \<Longrightarrow>
    recorded_by k (snd (resume_run (run_continuation_of \<lparr>rn_span = address_of origin, rn_attributes = rs_attrs origin\<rparr>) body r))"

definition all_closed :: "recorder \<Rightarrow> bool" where
  "all_closed r \<longleftrightarrow> (\<forall>s \<in> set (rec_spans r). rs_end s \<noteq> None)"

lemma frame_closed:
  assumes "frame r r'" "all_closed r"
  shows "all_closed r'"
proof -
  have "\<forall>x \<in> set (map sign (rec_spans r')). \<not> snd x"
    using assms unfolding frame_def all_closed_def by (elim exE conjE) (auto simp: sign_def)
  then show ?thesis by (auto simp: all_closed_def sign_def)
qed

lemma recorded_by_well: "recorded_by k r \<Longrightarrow> inj (new_id k) \<Longrightarrow> well k (rec_spans r) \<and> all_closed r"
proof (induction rule: recorded_by.induct)
  case start
  then show ?case by (simp add: well_def all_closed_def)
next
  case (run r subject_type uuid body subject graph_id run_id caused_by depth)
  then show ?case using keeps_run [OF run.prems run.hyps(2,3,4)] frame_closed by (metis keeps_def)
next
  case (resume r origin body)
  then show ?case using keeps_resume [OF resume.prems resume.hyps(2,3,4)] frame_closed by (metis keeps_def)
qed

end
