(* ===== verification/Recording_Export.thy ===== *)
theory Recording_Export
  imports Recording_Facts
begin

text \<open>
  From the recorder to the archive. The exporter and the Collector are third parties: of them the reader relies on the
  OTLP JSON encoding of a span, stated here as a relation (\<open>otlp_span\<close>), and on each ended span being written once, in
  any order and in any grouping into lines and files (\<open>otlp_archive\<close>). The theory shows that every span the recorder
  leaves can be encoded, and that \<^verbatim>\<open>read_spans\<close> reads an archive of encoded spans as those spans.
\<close>

section \<open>What the recorder can hold\<close>

definition plain_value :: "json \<Rightarrow> bool" where
  "plain_value v \<longleftrightarrow> (\<exists>s. v = JStr s) \<or> (\<exists>n. v = JInt n \<and> 0 \<le> n)"

definition plain_attrs :: "json dict \<Rightarrow> bool" where
  "plain_attrs d \<longleftrightarrow> dict_ok d \<and> (\<forall>key v. map_of d key = Some v \<longrightarrow> plain_value v)"

lemma plain_update: "plain_attrs d \<Longrightarrow> plain_value v \<Longrightarrow> plain_attrs (AList.update key v d)"
  by (auto simp: plain_attrs_def update_conv' split: if_splits)

lemma plain_text [simp]: "plain_value (JStr s)"
  by (simp add: plain_value_def)

lemma nonblank_plain: "nonblank_str (Some v) \<noteq> None \<Longrightarrow> plain_value v"
  by (cases v) (auto simp: plain_value_def)

lemma good_text_plain: "\<not> bad_text v \<Longrightarrow> plain_value v"
  using nonblank_plain by (simp add: bad_text_def)

lemma plain_optional: "plain_attrs d \<Longrightarrow> \<not> bad_optional j \<Longrightarrow> plain_attrs (with_optional key j d)"
  using good_text_plain by (auto simp: with_optional_def bad_optional_def intro!: plain_update split: option.splits)

text \<open>The trace a span is in was drawn for a span, and its times are readings of the clock, in order.\<close>

definition drawn :: "sdk \<Rightarrow> nat \<Rightarrow> nat \<Rightarrow> bool" where
  "drawn k n t \<longleftrightarrow> t \<in> new_trace k ` {..<n}"

definition timed :: "sdk \<Rightarrow> nat \<Rightarrow> recorded_span \<Rightarrow> bool" where
  "timed k c s \<longleftrightarrow> (\<exists>b < c. rs_start s = wall k b \<and> (\<forall>t. rs_end s = Some t \<longrightarrow> (\<exists>e. b \<le> e \<and> e < c \<and> t = wall k e)))"

definition exportable :: "sdk \<Rightarrow> recorder \<Rightarrow> bool" where
  "exportable k r \<longleftrightarrow> (\<forall>s \<in> set (rec_spans r). drawn k (length (rec_spans r)) (rs_trace s) \<and> plain_attrs (rs_attrs s) \<and>
     timed k (rec_clock r) s)"

fun plain_handle :: "sdk \<Rightarrow> recorder \<Rightarrow> handle \<Rightarrow> bool" where
  "plain_handle k r (Run_Handle rn) = (drawn k (length (rec_spans r)) (sx_trace (rn_span rn)) \<and> plain_attrs (rn_attributes rn))"
| "plain_handle k r (Step_Handle st) = (drawn k (length (rec_spans r)) (sx_trace (st_span st)) \<and> plain_attrs (st_attributes st) \<and>
     plain_attrs (st_base st))"
| "plain_handle k r (Attempt_Handle c) = True"

text \<open>What every piece of instrumented code keeps.\<close>

definition exports :: "sdk \<Rightarrow> recorder \<Rightarrow> (recorder, unit) prog \<Rightarrow> bool" where
  "exports k r m \<longleftrightarrow> (exportable k r \<longrightarrow> exportable k (snd (m r)) \<and> length (rec_spans r) \<le> length (rec_spans (snd (m r))))"

lemma drawn_mono: "drawn k n t \<Longrightarrow> n \<le> n' \<Longrightarrow> drawn k n' t"
  by (auto simp: drawn_def)

lemma timed_mono: "timed k c s \<Longrightarrow> c \<le> c' \<Longrightarrow> timed k c' s"
  unfolding timed_def by (metis order_less_le_trans)

lemma timed_simps [simp]:
  "timed k c (s\<lparr>rs_attrs := a\<rparr>) = timed k c s" "timed k c (s\<lparr>rs_error := x\<rparr>) = timed k c s"
  by (simp_all add: timed_def)

lemma timed_close: "timed k c s \<Longrightarrow> timed k (Suc c) (s\<lparr>rs_end := Some (wall k c)\<rparr>)"
  unfolding timed_def by (auto intro: less_imp_le less_SucI)

lemma plain_handle_mono:
  "plain_handle k r h \<Longrightarrow> length (rec_spans r) \<le> length (rec_spans r') \<Longrightarrow> plain_handle k r' h"
  by (cases h) (auto intro: drawn_mono)

lemma plain_handles_mono:
  "\<forall>h \<in> C. plain_handle k r h \<Longrightarrow> length (rec_spans r) \<le> length (rec_spans r') \<Longrightarrow> \<forall>h \<in> C. plain_handle k r' h"
  using plain_handle_mono by blast

lemma exports_attempt [simp]: "exports k r (attempt v)" "exports k r (ret ())" "exports k r (throw c t)"
  by (simp_all add: exports_def)

lemma exports_andthen:
  assumes "exports k r m" "\<And>r' x. length (rec_spans r) \<le> length (rec_spans r') \<Longrightarrow> exports k r' (f x)"
  shows "exports k r (andthen m f)"
proof (cases "m r")
  case (Pair v r1)
  show ?thesis
  proof (cases v)
    case (Inr x)
    show ?thesis using assms(1) assms(2) [of r1 x] Pair Inr by (auto simp: exports_def andthen_def)
  qed (use assms(1) Pair in \<open>auto simp: exports_def andthen_def\<close>)
qed

lemma exports_catching:
  assumes "exports k r m" "\<And>r' e. length (rec_spans r) \<le> length (rec_spans r') \<Longrightarrow> exports k r' (h e)"
  shows "exports k r (catching p m h)"
proof (cases "m r")
  case (Pair v r1)
  show ?thesis
  proof (cases v)
    case (Inl e)
    show ?thesis using assms(1) assms(2) [of r1 e] Pair Inl by (auto simp: exports_def catching_def)
  qed (use assms(1) Pair in \<open>auto simp: exports_def catching_def\<close>)
qed

lemma exports_ensuring:
  assumes "exports k r m" "\<And>r'. length (rec_spans r) \<le> length (rec_spans r') \<Longrightarrow> exports k r' fin"
  shows "exports k r (ensuring m fin)"
proof (cases "m r")
  case (Pair v r1)
  show ?thesis using assms(1) assms(2) [of r1] Pair by (auto simp: exports_def ensuring_def split: prod.splits sum.splits)
qed

lemma exports_set_attr [simp]: "exports k r (set_attr c key (JStr v))"
  unfolding exports_def set_attr_def change_span_app
  by (auto simp: exportable_def intro!: plain_update)

lemma exports_error [simp]: "exports k r (set_error_status c)"
  unfolding exports_def set_error_status_def change_span_app
  by (auto simp: exportable_def)

lemma exports_close [simp]: "exports k r (close_span k c)"
  unfolding exports_def close_span_def change_span_app
  by (auto simp: exportable_def intro: timed_mono timed_close)

lemma exports_span:
  assumes "case parent of None \<Rightarrow> True | Some p \<Rightarrow> drawn k (length (rec_spans r)) (sx_trace p)" "plain_attrs attrs"
    and body: "\<And>r1 c. length (rec_spans r) < length (rec_spans r1) \<Longrightarrow> drawn k (length (rec_spans r1)) (sx_trace c) \<Longrightarrow>
      exports k r1 (m c)"
  shows "exports k r (andthen (open_span k name parent attrs) (\<lambda>c. ensuring (m c) (close_span k c)))"
  unfolding exports_def
proof
  let ?s = "opened k name parent attrs r"
  let ?r1 = "r\<lparr>rec_spans := rec_spans r @ [?s], rec_clock := Suc (rec_clock r)\<rparr>"
  assume ex: "exportable k r"
  have tr: "drawn k (Suc (length (rec_spans r))) (rs_trace ?s)"
    using assms(1) by (cases parent) (auto simp: opened_def drawn_def)
  have "timed k (Suc (rec_clock r)) ?s" by (auto simp: timed_def opened_def)
  moreover have "plain_attrs (rs_attrs ?s)" using assms(2) by (simp add: opened_def)
  ultimately have ex1: "exportable k ?r1"
    using ex tr by (auto simp: exportable_def intro: drawn_mono timed_mono)
  have "exports k ?r1 (ensuring (m (address_of ?s)) (close_span k (address_of ?s)))"
    by (intro exports_ensuring body exports_close) (use tr in \<open>simp_all add: address_of_def\<close>)
  then show "exportable k (snd (andthen (open_span k name parent attrs) (\<lambda>c. ensuring (m c) (close_span k c)) r)) \<and>
      length (rec_spans r) \<le> length (rec_spans (snd (andthen (open_span k name parent attrs) (\<lambda>c. ensuring (m c) (close_span k c)) r)))"
    using ex1 by (simp add: exports_def andthen_def open_span_app)
qed

lemma exports_marking:
  assumes "exports k r body" "\<And>r'. exports k r' paused"
  shows "exports k r (marking_exceptions pause paused c failed body)"
  unfolding marking_exceptions_def using assms by (auto intro!: exports_catching exports_andthen)

lemma exports_open_step:
  assumes "drawn k (length (rec_spans r)) (sx_trace parent)" "plain_attrs base"
    and body: "\<And>st r1. length (rec_spans r) \<le> length (rec_spans r1) \<Longrightarrow> plain_handle k r1 (Step_Handle st) \<Longrightarrow> exports k r1 (body st)"
  shows "exports k r (open_step_span k parent base node declared resumed_from pause body)"
proof (cases "\<exists>out. declared = Some out \<and> node \<noteq> [] \<and> \<not> bad_optional resumed_from")
  case False
  then show ?thesis by (cases declared) (auto simp: open_step_span_def)
next
  case True
  then obtain out where out: "declared = Some out" "node \<noteq> []" "\<not> bad_optional resumed_from" by blast
  have plain: "plain_attrs (with_optional ''cord.resumed_from'' resumed_from (AList.update ''cord.node.name'' (JStr node) base))"
    using assms(2) out(3) by (intro plain_optional plain_update) simp_all
  show ?thesis
    unfolding open_step_span_def using out plain assms(1,2)
    by (auto simp: Let_def intro!: exports_span exports_marking plain_update body)
qed

lemma exports_step_attempt:
  assumes "plain_handle k r (Step_Handle st)" "\<And>c r1. length (rec_spans r) \<le> length (rec_spans r1) \<Longrightarrow> exports k r1 (body c)"
  shows "exports k r (step_attempt k st number tier declared body)"
proof (cases "\<exists>out n. declared = Some out \<and> number = JInt n \<and> 1 \<le> n \<and> \<not> bad_optional tier")
  case False
  then show ?thesis by (cases declared; cases number) (auto simp: step_attempt_def)
next
  case True
  then obtain out n where out: "declared = Some out" "number = JInt n" "1 \<le> n" "\<not> bad_optional tier" by blast
  have "plain_value (JInt n)" using out(3) by (simp add: plain_value_def)
  then have plain: "plain_attrs (with_optional ''cord.tier'' tier (AList.update ''cord.outcome'' (JStr (attempt_value out))
      (AList.update ''cord.step.attempt'' (JInt n) (st_attributes st))))"
    using assms(1) out(4) by (intro plain_optional plain_update) simp_all
  show ?thesis
    unfolding step_attempt_def using out plain assms
    by (auto intro!: exports_span exports_marking)
qed

lemma instrumented_exports:
  assumes "instrumented k C m" "\<forall>h \<in> C. plain_handle k r h"
  shows "exports k r m"
  using assms
proof (induction arbitrary: r rule: instrumented.induct)
  case (seq C m m')
  show ?case by (intro exports_andthen seq.IH seq.prems plain_handles_mono [OF seq.prems])
next
  case (caught C m h p)
  show ?case by (intro exports_catching caught.IH caught.prems plain_handles_mono [OF caught.prems])
next
  case (finished C m m')
  show ?case by (intro exports_ensuring finished.IH finished.prems plain_handles_mono [OF finished.prems])
next
  case (step rn C node body declared resumed_from pause)
  then have "plain_handle k r (Run_Handle rn)" by blast
  then show ?case unfolding run_step_def
    by (intro exports_open_step step.IH) (use plain_handles_mono [OF step.prems] in auto)
next
  case (child st C node body declared resumed_from pause')
  then have "plain_handle k r (Step_Handle st)" by blast
  then show ?case unfolding step_child_def
    by (intro exports_open_step child.IH) (use plain_handles_mono [OF child.prems] in auto)
next
  case (attempt st C body number tier declared')
  then have "plain_handle k r (Step_Handle st)" by blast
  then show ?case
    by (intro exports_step_attempt attempt.IH) (use plain_handles_mono [OF attempt.prems] in auto)
qed simp_all

lemma run_exports:
  assumes body: "\<And>rn. instrumented k {Run_Handle rn} (body rn)"
  shows "exports k r (record_run k uuid subject subject_type graph_id run_id caused_by depth body)"
proof (cases "bad_text subject \<or> bad_text graph_id \<or> bad_optional run_id \<or> bad_optional caused_by \<or>
    \<not> (case depth of JInt n \<Rightarrow> 0 \<le> n | _ \<Rightarrow> False) \<or> subject_type = []")
  case True
  then show ?thesis by (auto simp: record_run_def)
next
  case False
  let ?four = "[(''cord.graph.id'', graph_id), (''cord.run.id'', case run_id of None \<Rightarrow> JStr uuid | Some i \<Rightarrow> i), (''cord.subject.id'', subject),
      (''cord.subject.type'', JStr subject_type), (''cord.cascade.depth'', depth)]"
  let ?attrs = "with_optional ''cord.caused_by.run_id'' caused_by ?four"
  have "plain_value graph_id" "plain_value subject" "plain_value (case run_id of None \<Rightarrow> JStr uuid | Some i \<Rightarrow> i)" "plain_value depth"
    using False good_text_plain by (auto simp: bad_optional_def plain_value_def [of depth] split: option.split json.splits)
  then have "plain_attrs ?four" by (auto simp: plain_attrs_def dict_ok_def split: if_splits)
  then have plain: "plain_attrs ?attrs" using False by (intro plain_optional) simp_all
  have "exports k r (andthen (open_span k ''run'' None (AList.update ''cord.semconv.version'' (JStr CURRENT_SEMCONV) ?attrs)) (\<lambda>c.
           ensuring
             (catching (\<lambda>_. True) (body \<lparr>rn_span = c, rn_attributes = ?attrs\<rparr>)
               (\<lambda>x. andthen (set_error_status c) (\<lambda>_. attempt (Inl x))))
             (close_span k c)))"
    by (intro exports_span exports_catching exports_andthen instrumented_exports [OF body] plain_update plain)
      (use plain in \<open>simp_all\<close>)
  then show ?thesis using False by (simp add: record_run_def Let_def)
qed

lemma resume_exports:
  assumes body: "\<And>rn. instrumented k {Run_Handle rn} (body rn)"
    and w: "well k (rec_spans r)" and origin: "origin \<in> set (rec_spans r)" "is_run origin"
  shows "exports k r (resume_run (run_continuation_of \<lparr>rn_span = address_of origin, rn_attributes = rs_attrs origin\<rparr>) body)"
proof (cases "exportable k r")
  case True
  have "plain_value (attr_value (rs_attrs origin) key)" if "key \<in> set IDENTITY" for key
  proof -
    obtain i where "i < length (rec_spans r)" "origin = rec_spans r ! i" using origin(1) by (auto simp: in_set_conv_nth)
    then have "stands (take i (rec_spans r)) origin" using w by (simp add: well_def)
    then have "nonblank_str (map_of (rs_attrs origin) key) \<noteq> None" using that by (auto simp: stands_def identity_of_attrs_def)
    then show ?thesis using nonblank_plain
      by (cases "map_of (rs_attrs origin) key") (auto simp: attr_value_def)
  qed
  then have "plain_attrs (rn_attributes (resumed_handle origin))"
    by (auto simp: resumed_handle_def Let_def plain_attrs_def dict_ok_def run_continuation_of_def IDENTITY_def split: if_splits)
  moreover have "drawn k (length (rec_spans r)) (sx_trace (rn_span (resumed_handle origin)))"
    using True origin(1) by (simp add: resumed_handle_def Let_def address_of_def exportable_def)
  ultimately have "exports k r (body (resumed_handle origin))"
    by (intro instrumented_exports [OF body]) simp
  then show ?thesis by (simp add: resume_run_origin)
qed (simp add: exports_def)

lemma recorded_by_exportable: "recorded_by k r \<Longrightarrow> inj (new_id k) \<Longrightarrow> exportable k r"
proof (induction rule: recorded_by.induct)
  case start
  then show ?case by (simp add: exportable_def)
next
  case (run r subject_type uuid body subject graph_id run_id caused_by depth)
  then show ?case using run_exports [OF run.hyps(4)] by (auto simp: exports_def)
next
  case (resume r origin body)
  then have "well k (rec_spans r)" using recorded_by_well by blast
  then show ?case using resume_exports [OF resume.hyps(4) _ resume.hyps(2,3)] resume by (auto simp: exports_def)
qed

section \<open>The encoding\<close>

text \<open>A 64-bit integer is a JSON number or, as protobuf's JSON mapping writes it, its decimal text.\<close>

definition otlp_int :: "int \<Rightarrow> json \<Rightarrow> bool" where
  "otlp_int n j \<longleftrightarrow> j = JInt n \<or> j = JStr (show_int n)"

definition otlp_value :: "json \<Rightarrow> json \<Rightarrow> bool" where
  "otlp_value v j \<longleftrightarrow>
     (case v of
        JStr t \<Rightarrow> j = JObj [(''stringValue'', JStr t)]
      | JInt n \<Rightarrow> \<exists>w. j = JObj [(''intValue'', w)] \<and> otlp_int n w
      | _ \<Rightarrow> True)"

definition otlp_attribute :: "string \<times> json \<Rightarrow> json \<Rightarrow> bool" where
  "otlp_attribute a j \<longleftrightarrow> (\<exists>d v. j = JObj d \<and> map_of d ''key'' = Some (JStr (fst a)) \<and> map_of d ''value'' = Some v \<and>
     otlp_value (snd a) v)"

text \<open>Other fields (kind, status, flags, ...) and any order of the fields are allowed; a root has no parent, or an empty one.\<close>

definition otlp_span :: "recorded_span \<Rightarrow> json \<Rightarrow> bool" where
  "otlp_span s j \<longleftrightarrow>
     (\<exists>d items b e.
        j = JObj d \<and>
        map_of d ''traceId'' = Some (JStr (format_hex 32 (rs_trace s))) \<and>
        map_of d ''spanId'' = Some (JStr (format_hex 16 (rs_id s))) \<and>
        (case rs_parent s of
           None \<Rightarrow> map_of d ''parentSpanId'' = None \<or> map_of d ''parentSpanId'' = Some (JStr [])
         | Some p \<Rightarrow> map_of d ''parentSpanId'' = Some (JStr (format_hex 16 p))) \<and>
        map_of d ''name'' = Some (JStr (rs_name s)) \<and>
        map_of d ''startTimeUnixNano'' = Some b \<and> otlp_int (rs_start s) b \<and>
        map_of d ''endTimeUnixNano'' = Some e \<and> (\<forall>t. rs_end s = Some t \<longrightarrow> otlp_int t e) \<and>
        map_of d ''attributes'' = Some (JArr items) \<and> list_all2 otlp_attribute (rs_attrs s) items)"

text \<open>A line of an archive file holds resources, a resource scopes, and a scope spans; an archive holds what its files hold.\<close>

definition otlp_scope :: "json \<Rightarrow> json list \<Rightarrow> bool" where
  "otlp_scope j js \<longleftrightarrow> (\<exists>d. j = JObj d \<and> map_of d ''spans'' = Some (JArr js))"

definition otlp_resource :: "json \<Rightarrow> json list \<Rightarrow> bool" where
  "otlp_resource j js \<longleftrightarrow> (\<exists>d scopes gs. j = JObj d \<and> map_of d ''scopeSpans'' = Some (JArr scopes) \<and>
     list_all2 otlp_scope scopes gs \<and> js = concat gs)"

definition otlp_line :: "json option \<Rightarrow> json list \<Rightarrow> bool" where
  "otlp_line line js \<longleftrightarrow> (\<exists>d resources gs. line = Some (JObj d) \<and> map_of d ''resourceSpans'' = Some (JArr resources) \<and>
     list_all2 otlp_resource resources gs \<and> js = concat gs)"

definition otlp_file :: "archive_file \<Rightarrow> json list \<Rightarrow> bool" where
  "otlp_file f js \<longleftrightarrow> \<not> af_fails f \<and> af_lines f \<noteq> [] \<and> (\<exists>gs. list_all2 otlp_line (af_lines f) gs \<and> js = concat gs)"

definition path_files :: "archive_path \<Rightarrow> archive_file list" where
  "path_files p = (case p of File_Path f \<Rightarrow> [f] | Directory plain packed \<Rightarrow> plain @ packed)"

definition otlp_archive :: "archive_path list \<Rightarrow> json list \<Rightarrow> bool" where
  "otlp_archive paths js \<longleftrightarrow> list_all (\<lambda>p. path_files p \<noteq> []) paths \<and>
     (\<exists>gs. list_all2 otlp_file (concat (map path_files paths)) gs \<and> js = concat gs)"

section \<open>Numbers and ids come back\<close>

lemma show_nat_decimal:
  "show_nat n \<noteq> [] \<and> list_all (\<lambda>c. digit_value 10 c \<noteq> None) (show_nat n) \<and>
   foldl (\<lambda>a c. 10 * a + the (digit_value 10 c)) 0 (show_nat n) = n"
proof (induction n rule: show_nat.induct)
  case (1 n)
  have digit: "digit_value 10 (char_of (48 + d)) = Some d" if "d < 10" for d :: nat
  proof -
    have "(of_char (char_of (48 + d) :: char) :: nat) = 48 + d" using that by (simp add: take_bit_eq_mod)
    then show ?thesis using that by (simp add: digit_value_def Let_def)
  qed
  show ?case
  proof (cases "n < 10")
    case True
    then show ?thesis using digit [of n] by (subst (1 2 3) show_nat.simps) simp
  next
    case False
    then have ih: "show_nat (n div 10) \<noteq> [] \<and> list_all (\<lambda>c. digit_value 10 c \<noteq> None) (show_nat (n div 10)) \<and>
        foldl (\<lambda>a c. 10 * a + the (digit_value 10 c)) 0 (show_nat (n div 10)) = n div 10" using 1 by simp
    show ?thesis using False ih digit [of "n mod 10"] by (subst (1 2 3) show_nat.simps) simp
  qed
qed

lemma otlp_int_value: "otlp_int n j \<Longrightarrow> 0 \<le> n \<Longrightarrow> decimal_value j = Some n"
  using show_nat_decimal [of "nat n"] by (auto simp: otlp_int_def decimal_value_def show_int_def)

lemma timestamp_back: "otlp_int t j \<Longrightarrow> 0 < t \<Longrightarrow> t < 2 ^ 64 \<Longrightarrow> timestamp j = Inr t"
  using otlp_int_value [of t j] by (simp add: timestamp_def require_that_def)

lemma show_hex_length: "n < 16 ^ w \<Longrightarrow> 0 < w \<Longrightarrow> length (show_hex n) \<le> w"
proof (induction n arbitrary: w rule: show_hex.induct)
  case (1 n)
  show ?case
  proof (cases "n < 16")
    case True
    then show ?thesis using 1(3) by (subst show_hex.simps) simp
  next
    case False
    obtain v where v: "w = Suc v" using 1(3) by (cases w) auto
    have pos: "0 < v" using 1(2) False v by (cases v) auto
    have "n div 16 < 16 ^ v" using 1(2) by (simp add: v less_mult_imp_div_less mult.commute)
    then have "length (show_hex (n div 16)) \<le> v" using 1(1) False pos by blast
    then show ?thesis using False by (subst show_hex.simps) (simp add: v)
  qed
qed

lemma hex_lower: "c \<in> set (format_hex w n) \<Longrightarrow> lower_char c = c"
proof -
  have digit: "lower_char (hex_char d) = hex_char d" if "d < 16" for d
  proof -
    have "(of_char (hex_char d) :: nat) = (if d < 10 then 48 + d else 87 + d)"
      using that by (auto simp: hex_char_def take_bit_eq_mod)
    then show ?thesis using that by (simp add: lower_char_def Let_def)
  qed
  have "\<forall>c \<in> set (show_hex n). \<exists>d < 16. c = hex_char d"
  proof (induction n rule: show_hex.induct)
    case (1 n)
    have "\<exists>d < 16. hex_char (n mod 16) = hex_char d" by (rule exI [of _ "n mod 16"]) simp
    then show ?case using 1 by (subst show_hex.simps) auto
  qed
  moreover have "CHR ''0'' = hex_char 0" by code_simp
  ultimately show "c \<in> set (format_hex w n) \<Longrightarrow> lower_char c = c"
    using digit by (auto simp: format_hex_def Let_def)
qed

lemma identifier_back:
  assumes "0 < n" "n < 16 ^ w" "0 < w"
  shows "identifier_of (JStr (format_hex w n)) w = Inr (format_hex w n)"
proof -
  have "length (format_hex w n) = w" using show_hex_length [OF assms(2,3)] by (simp add: format_hex_def Let_def)
  moreover have "map lower_char (format_hex w n) = format_hex w n" by (rule map_idI) (rule hex_lower)
  moreover have "list_ex (\<lambda>c. digit_value 16 c \<noteq> Some 0) (format_hex w n)"
  proof (rule ccontr)
    assume "\<not> list_ex (\<lambda>c. digit_value 16 c \<noteq> Some 0) (format_hex w n)"
    then have zero: "\<forall>c \<in> set (format_hex w n). digit_value 16 c = Some 0" by (simp add: list_ex_iff)
    have "foldl (\<lambda>a c. 16 * a + the (digit_value 16 c)) 0 cs = 0" if "\<forall>c \<in> set cs. digit_value 16 c = Some 0" for cs
      using that by (induction cs rule: rev_induct) simp_all
    then have "foldl (\<lambda>a c. 16 * a + the (digit_value 16 c)) 0 (format_hex w n) = 0" using zero by blast
    moreover have "foldl (\<lambda>a c. 16 * a + the (digit_value 16 c)) 0 (format_hex w n) = n"
      by (simp add: format_hex_def Let_def foldl_zeros show_hex_value)
    ultimately show False using assms(1) by simp
  qed
  ultimately show ?thesis using format_hex_digits [of w n] by (simp add: identifier_of_def)
qed

section \<open>A span comes back\<close>

lemma attribute_back:
  assumes "plain_value v" "otlp_value v j"
  shows "attribute_value j = Inr v"
proof -
  from assms(1) consider t where "v = JStr t" | n where "v = JInt n" "0 \<le> n" by (auto simp: plain_value_def)
  then show ?thesis
  proof cases
    case 2
    then obtain w where "j = JObj [(''intValue'', w)]" "otlp_int n w" using assms(2) by (auto simp: otlp_value_def)
    then show ?thesis using 2 otlp_int_value by (simp add: attribute_value_def attribute_item_def)
  qed (use assms(2) in \<open>simp add: otlp_value_def attribute_value_def attribute_item_def\<close>)
qed

lemma attributes_back:
  assumes "list_all2 otlp_attribute a items" "dict_ok (d @ a)" "\<forall>(key, v) \<in> set a. plain_value v"
  shows "attributes_from items d = Inr (d @ a)"
  using assms
proof (induction arbitrary: d rule: list_all2_induct)
  case (Cons x a j items)
  obtain key v where x: "x = (key, v)" by fastforce
  obtain f w where j: "j = JObj f" "map_of f ''key'' = Some (JStr key)" "map_of f ''value'' = Some w" "otlp_value v w"
    using Cons.hyps(1) by (auto simp: otlp_attribute_def x)
  have "attribute_value w = Inr v" using attribute_back j(4) Cons.prems(2) by (simp add: x)
  moreover have "map_of d key = None" using Cons.prems(1) by (auto simp: x dict_ok_def map_of_eq_None_iff)
  moreover have "attributes_from items (d @ [(key, v)]) = Inr ((d @ [(key, v)]) @ a)"
    by (rule Cons.IH) (use Cons.prems in \<open>simp_all add: x\<close>)
  ultimately show ?case using j by (simp add: x str_field_def field_def require_that_def)
qed simp

text \<open>What the reader's span says of the recorded one.\<close>

definition shows_span :: "recorded_span \<Rightarrow> span \<Rightarrow> bool" where
  "shows_span s d \<longleftrightarrow>
     map_of d ''traceId'' = Some (JStr (format_hex 32 (rs_trace s))) \<and>
     map_of d ''spanId'' = Some (JStr (format_hex 16 (rs_id s))) \<and>
     (case rs_parent s of
        None \<Rightarrow> map_of d ''parentSpanId'' = None \<or> map_of d ''parentSpanId'' = Some (JStr [])
      | Some p \<Rightarrow> map_of d ''parentSpanId'' = Some (JStr (format_hex 16 p))) \<and>
     map_of d ''name'' = Some (JStr (rs_name s)) \<and> map_of d ''attributes'' = Some (JObj (rs_attrs s)) \<and>
     (\<forall>t. rs_end s = Some t \<longrightarrow> map_of d ''endTimeUnixNano'' = Some (JInt t))"

text \<open>The ranges OpenTelemetry gives ids, and the times a clock after 1970 gives.\<close>

definition in_range :: "recorded_span \<Rightarrow> bool" where
  "in_range s \<longleftrightarrow> 0 < rs_id s \<and> rs_id s < 2 ^ 64 \<and> 0 < rs_trace s \<and> rs_trace s < 2 ^ 128 \<and>
     (\<forall>p. rs_parent s = Some p \<longrightarrow> 0 < p \<and> p < 2 ^ 64) \<and>
     (\<exists>t. rs_end s = Some t \<and> 0 < rs_start s \<and> rs_start s \<le> t \<and> t < 2 ^ 64)"

lemma span_back:
  assumes "otlp_span s j" "in_range s" "plain_attrs (rs_attrs s)"
  shows "\<exists>d. normalize_span j = Inr (format_hex 16 (rs_id s), d) \<and> shows_span s d"
proof -
  obtain d items b e where j: "j = JObj d" and ids: "map_of d ''traceId'' = Some (JStr (format_hex 32 (rs_trace s)))"
      "map_of d ''spanId'' = Some (JStr (format_hex 16 (rs_id s)))"
    and par: "case rs_parent s of None \<Rightarrow> map_of d ''parentSpanId'' = None \<or> map_of d ''parentSpanId'' = Some (JStr [])
         | Some p \<Rightarrow> map_of d ''parentSpanId'' = Some (JStr (format_hex 16 p))"
    and name: "map_of d ''name'' = Some (JStr (rs_name s))"
    and times: "map_of d ''startTimeUnixNano'' = Some b" "otlp_int (rs_start s) b" "map_of d ''endTimeUnixNano'' = Some e"
      "\<forall>t. rs_end s = Some t \<longrightarrow> otlp_int t e"
    and items: "map_of d ''attributes'' = Some (JArr items)" "list_all2 otlp_attribute (rs_attrs s) items"
    using assms(1) unfolding otlp_span_def by blast
  obtain t where t: "rs_end s = Some t" "0 < rs_start s" "rs_start s \<le> t" "t < 2 ^ 64" using assms(2) by (auto simp: in_range_def)
  have powers: "(2 :: nat) ^ 64 = 16 ^ 16" "(2 :: nat) ^ 128 = 16 ^ 32" by simp_all
  have sid: "identifier_of (JStr (format_hex 16 (rs_id s))) 16 = Inr (format_hex 16 (rs_id s))"
    and tid: "identifier_of (JStr (format_hex 32 (rs_trace s))) 32 = Inr (format_hex 32 (rs_trace s))"
    using assms(2) by (auto simp: in_range_def powers intro!: identifier_back)
  let ?s1 = "AList.update ''traceId'' (JStr (format_hex 32 (rs_trace s))) (AList.update ''spanId'' (JStr (format_hex 16 (rs_id s))) d)"
  have "\<exists>s2. normalize_parent ?s1 = Inr s2 \<and> map_of s2 = map_of ?s1"
  proof (cases "rs_parent s")
    case None
    then show ?thesis using par by (auto simp: normalize_parent_def update_conv')
  next
    case (Some p)
    then have "map_of ?s1 ''parentSpanId'' = Some (JStr (format_hex 16 p))" using par by (simp add: update_conv')
    moreover have "identifier_of (JStr (format_hex 16 p)) 16 = Inr (format_hex 16 p)"
      using assms(2) Some by (auto simp: in_range_def powers intro!: identifier_back)
    ultimately show ?thesis by (auto simp: normalize_parent_def update_conv' fun_eq_iff)
  qed
  then obtain s2 where s2: "normalize_parent ?s1 = Inr s2" "map_of s2 = map_of ?s1" by blast
  have plain: "\<forall>(key, v) \<in> set (rs_attrs s). plain_value v"
  proof clarify
    fix key v assume "(key, v) \<in> set (rs_attrs s)"
    then have "map_of (rs_attrs s) key = Some v" using assms(3) by (simp add: plain_attrs_def dict_ok_def)
    then show "plain_value v" using assms(3) by (simp add: plain_attrs_def)
  qed
  have "attributes s2 = attributes_from items []"
    using items(1) by (simp add: attributes_def s2(2) update_conv' iter_json_def)
  also have "\<dots> = Inr (rs_attrs s)"
    using attributes_back [OF items(2), of "[]"] plain assms(3) by (simp add: plain_attrs_def)
  finally have attrs: "attributes s2 = Inr (rs_attrs s)" .
  have start: "follow (field (JObj s2) ''startTimeUnixNano'') timestamp = Inr (rs_start s)"
    using timestamp_back [OF times(2)] t times(1) by (simp add: field_def s2(2) update_conv')
  have stop: "follow (field (JObj s2) ''endTimeUnixNano'') timestamp = Inr t"
    using timestamp_back [of t e] times(3,4) t by (simp add: field_def s2(2) update_conv')
  let ?s3 = "AList.update ''endTimeUnixNano'' (JInt t) (AList.update ''startTimeUnixNano'' (JInt (rs_start s))
      (AList.update ''attributes'' (JObj (rs_attrs s)) s2))"
  have "normalize_body s2 = Inr ?s3"
    unfolding normalize_body_def attrs start stop follow_simps require_that_def using t(3) by simp
  then have "normalize_span j = Inr (format_hex 16 (rs_id s), ?s3)"
    using ids sid tid s2(1) by (simp add: normalize_span_def j field_def with_ids_def)
  moreover have "shows_span s ?s3"
    using par name t(1) by (simp add: shows_span_def update_conv' s2(2) split: option.splits)
  ultimately show ?thesis by blast
qed

section \<open>An archive comes back\<close>

text \<open>What reading adds to the index: one entry per span, in order, at whatever location.\<close>

definition adds :: "(string \<times> span) list \<Rightarrow> span_index \<Rightarrow> exn + span_index \<Rightarrow> bool" where
  "adds iss idx res \<longleftrightarrow> (\<exists>new. res = Inr (idx @ new) \<and> map (\<lambda>(i, s, l). (i, s)) new = iss)"

definition normal_form :: "json \<Rightarrow> string \<times> span" where
  "normal_form j = projr (normalize_span j)"

definition readable_spans :: "string list \<Rightarrow> json list \<Rightarrow> bool" where
  "readable_spans ids js \<longleftrightarrow> (\<forall>j \<in> set js. normalize_span j = Inr (normal_form j)) \<and> distinct (ids @ map (fst \<circ> normal_form) js)"

lemma readable_append:
  "readable_spans ids (js @ js') \<longleftrightarrow> readable_spans ids js \<and> readable_spans (ids @ map (fst \<circ> normal_form) js) js'"
  by (auto simp: readable_spans_def)

lemma adds_nil [simp]: "adds [] idx (Inr idx)"
  by (simp add: adds_def)

lemma adds_follow:
  assumes "adds iss idx m"
    and "\<And>new. map fst new = map fst iss \<Longrightarrow> adds iss' (idx @ new) (f (idx @ new))"
  shows "adds (iss @ iss') idx (follow m f)"
proof -
  obtain new where new: "m = Inr (idx @ new)" "map (\<lambda>(i, s, l). (i, s)) new = iss" using assms(1) by (auto simp: adds_def)
  have "map fst new = map fst iss" unfolding new(2) [symmetric] by (simp add: case_prod_unfold comp_def)
  from assms(2) [OF this] obtain new' where "f (idx @ new) = Inr ((idx @ new) @ new')" "map (\<lambda>(i, s, l). (i, s)) new' = iss'"
    by (auto simp: adds_def)
  then show ?thesis using new by (auto simp: adds_def)
qed

text \<open>One lemma for the four nested loops of the reader: each reads its items one after another.\<close>

lemma adds_items:
  assumes "list_all2 P xs gs"
    and one: "\<And>x g idx. P x g \<Longrightarrow> readable_spans (map fst idx) g \<Longrightarrow> adds (map normal_form g) idx (f x idx)"
    and nil: "\<And>idx. loop [] idx = Inr idx" and cons: "\<And>x xs idx. loop (x # xs) idx = follow (f x idx) (loop xs)"
    and "readable_spans (map fst idx) (concat gs)"
  shows "adds (map normal_form (concat gs)) idx (loop xs idx)"
  using assms(1,5)
proof (induction arbitrary: idx rule: list_all2_induct)
  case Nil
  then show ?case by (simp add: nil)
next
  case (Cons x xs g gs)
  have r: "readable_spans (map fst idx) g" "readable_spans (map fst idx @ map (fst \<circ> normal_form) g) (concat gs)"
    using Cons.prems by (simp_all add: readable_append)
  have "adds (map normal_form g @ map normal_form (concat gs)) idx (follow (f x idx) (loop xs))"
  proof (rule adds_follow [OF one [OF Cons.hyps(1) r(1)]])
    fix new :: span_index assume "map fst new = map fst (map normal_form g)"
    then have "readable_spans (map fst (idx @ new)) (concat gs)" using r(2) by simp
    then show "adds (map normal_form (concat gs)) (idx @ new) (loop xs (idx @ new))" by (rule Cons.IH)
  qed
  then show ?case by (simp add: cons)
qed

lemma index_spans_back:
  "readable_spans (map fst idx) js \<Longrightarrow> adds (map normal_form js) idx (index_spans loc js idx)"
proof (induction js arbitrary: idx)
  case (Cons j js)
  obtain i s where n: "normal_form j = (i, s)" by fastforce
  have j: "normalize_span j = Inr (i, s)" "map_of idx i = None"
    using Cons.prems n by (auto simp: readable_spans_def map_of_eq_None_iff)
  have "readable_spans (map fst (idx @ [(i, s, loc)])) js" using Cons.prems n by (auto simp: readable_spans_def)
  from Cons.IH [OF this] obtain new where "index_spans loc js (idx @ [(i, s, loc)]) = Inr ((idx @ [(i, s, loc)]) @ new)"
      "map (\<lambda>(i, s, l). (i, s)) new = map normal_form js"
    by (auto simp: adds_def)
  then show ?case using j n by (auto simp: adds_def index_span_def)
qed simp

lemma index_scopes_back:
  assumes "list_all2 otlp_scope scopes gs" "readable_spans (map fst idx) (concat gs)"
  shows "adds (map normal_form (concat gs)) idx (index_scopes loc scopes idx)"
proof (rule adds_items [where P = otlp_scope and loop = "index_scopes loc" and
      f = "\<lambda>scope idx. follow (items_of scope ''spans'') (\<lambda>spans. index_spans loc spans idx)", OF assms(1) _ _ _ assms(2)])
  fix scope g and idx :: span_index
  assume "otlp_scope scope g" "readable_spans (map fst idx) g"
  then show "adds (map normal_form g) idx (follow (items_of scope ''spans'') (\<lambda>spans. index_spans loc spans idx))"
    using index_spans_back [of idx g loc] by (auto simp: otlp_scope_def items_of_def field_def iter_json_def)
qed (auto simp: follow_def split: sum.split)

lemma index_resources_back:
  assumes "list_all2 otlp_resource resources gs" "readable_spans (map fst idx) (concat gs)"
  shows "adds (map normal_form (concat gs)) idx (index_resources loc resources idx)"
proof (rule adds_items [where P = otlp_resource and loop = "index_resources loc" and
      f = "\<lambda>r idx. follow (items_of r ''scopeSpans'') (\<lambda>scopes. index_scopes loc scopes idx)", OF assms(1) _ _ _ assms(2)])
  fix r g and idx :: span_index
  assume "otlp_resource r g" "readable_spans (map fst idx) g"
  then show "adds (map normal_form g) idx (follow (items_of r ''scopeSpans'') (\<lambda>scopes. index_scopes loc scopes idx))"
    using index_scopes_back [of _ _ idx loc] by (auto simp: otlp_resource_def items_of_def field_def iter_json_def)
qed (auto simp: follow_def split: sum.split)

lemma index_line_back:
  assumes "otlp_line line js" "readable_spans (map fst idx) js"
  shows "\<exists>rec. line = Some rec \<and> adds (map normal_form js) idx (index_record loc rec idx)"
  using assms index_resources_back by (auto simp: otlp_line_def index_record_def field_def)

lemma adds_located: "adds iss idx m \<Longrightarrow> adds iss idx (located a b m)"
  by (auto simp: adds_def located_def)

lemma read_lines_back:
  assumes "list_all2 otlp_line lines gs" "readable_spans (map fst idx) (concat gs)"
  shows "adds (map normal_form (concat gs)) idx (read_lines a b lines idx)"
  using assms
proof (induction arbitrary: b idx rule: list_all2_induct)
  case (Cons line lines g gs)
  have r: "readable_spans (map fst idx) g" "readable_spans (map fst idx @ map (fst \<circ> normal_form) g) (concat gs)"
    using Cons.prems by (simp_all add: readable_append)
  obtain rec where rec: "line = Some rec" "adds (map normal_form g) idx (index_record (location_of a (Suc b)) rec idx)"
    using index_line_back [OF Cons.hyps(1) r(1)] by blast
  have "adds (map normal_form g @ map normal_form (concat gs)) idx
      (follow (located a (Suc b) (index_record (location_of a (Suc b)) rec idx)) (read_lines a (Suc b) lines))"
  proof (rule adds_follow [OF adds_located [OF rec(2)]])
    fix new :: span_index assume "map fst new = map fst (map normal_form g)"
    then have "readable_spans (map fst (idx @ new)) (concat gs)" using r(2) by simp
    then show "adds (map normal_form (concat gs)) (idx @ new) (read_lines a (Suc b) lines (idx @ new))" by (rule Cons.IH)
  qed
  then show ?case using rec(1) by simp
qed simp

lemma read_file_back:
  assumes "otlp_file f js" "readable_spans (map fst idx) js"
  shows "adds (map normal_form js) idx (read_file a f idx)"
proof -
  obtain gs where gs: "list_all2 otlp_line (af_lines f) gs" "js = concat gs" and ok: "\<not> af_fails f" "af_lines f \<noteq> []"
    using assms(1) by (auto simp: otlp_file_def)
  from read_lines_back [OF gs(1), of idx a 0] obtain new where "read_lines a 0 (af_lines f) idx = Inr (idx @ new)"
      "map (\<lambda>(i, s, l). (i, s)) new = map normal_form js"
    using assms(2) gs(2) by (auto simp: adds_def)
  then show ?thesis using ok by (auto simp: adds_def read_file_def located_def require_that_def)
qed

lemma read_files_back:
  assumes "list_all2 otlp_file fs gs" "readable_spans (map fst idx) (concat gs)"
  shows "adds (map normal_form (concat gs)) idx (read_files a fs idx)"
  using assms
proof (induction arbitrary: a idx rule: list_all2_induct)
  case (Cons f fs g gs)
  have r: "readable_spans (map fst idx) g" "readable_spans (map fst idx @ map (fst \<circ> normal_form) g) (concat gs)"
    using Cons.prems by (simp_all add: readable_append)
  have "adds (map normal_form g @ map normal_form (concat gs)) idx (follow (read_file a f idx) (read_files (Suc a) fs))"
  proof (rule adds_follow [OF read_file_back [OF Cons.hyps(1) r(1)]])
    fix new :: span_index assume "map fst new = map fst (map normal_form g)"
    then have "readable_spans (map fst (idx @ new)) (concat gs)" using r(2) by simp
    then show "adds (map normal_form (concat gs)) (idx @ new) (read_files (Suc a) fs (idx @ new))" by (rule Cons.IH)
  qed
  then show ?case by simp
qed simp

lemma scan_back: "list_all (\<lambda>p. path_files p \<noteq> []) paths \<Longrightarrow> scan paths = Inr (concat (map path_files paths))"
  by (induction paths) (auto simp: path_files_def require_that_def split: archive_path.splits)

lemma archive_back:
  assumes "otlp_archive paths js" "readable_spans [] js" "js \<noteq> []"
  shows "\<exists>index. read_spans paths = Inr index \<and> map (\<lambda>(i, s, l). (i, s)) index = map normal_form js"
proof -
  obtain gs where gs: "list_all2 otlp_file (concat (map path_files paths)) gs" "js = concat gs"
    and paths: "list_all (\<lambda>p. path_files p \<noteq> []) paths"
    using assms(1) by (auto simp: otlp_archive_def)
  from read_files_back [OF gs(1), of "[]" 1] obtain index where "read_files 1 (concat (map path_files paths)) [] = Inr index"
      "map (\<lambda>(i, s, l). (i, s)) index = map normal_form js"
    using assms(2) gs(2) by (auto simp: adds_def)
  then show ?thesis using scan_back [OF paths] assms(3) by (auto simp: read_spans_def require_that_def)
qed

end
