(* ===== verification/Recording_Archive.thy ===== *)
theory Recording_Archive
  imports Recording_Export "HOL-Library.Multiset"
begin

text \<open>
  The agreement of the two ends: what \<^verbatim>\<open>execution.py\<close> records and an exporter and a Collector write down as OTLP,
  \<^verbatim>\<open>archive_query.py\<close> reads and accepts. The reader's index is related to the recorder's spans, and the reader's
  contract follows from the recorder's invariant.
\<close>

section \<open>The index of a recorder's archive\<close>

fun shows_entry :: "recorded_span \<Rightarrow> string \<times> span \<times> string \<Rightarrow> bool" where
  "shows_entry s (i, d, l) \<longleftrightarrow> i = format_hex 16 (rs_id s) \<and> shows_span s d"

text \<open>The index holds the recorder's spans, each once, in some order.\<close>

definition represents :: "span_index \<Rightarrow> recorded_span list \<Rightarrow> bool" where
  "represents spans ss \<longleftrightarrow> (\<exists>ss'. mset ss' = mset ss \<and> list_all2 shows_entry ss' spans)"

definition found :: "span_index \<Rightarrow> recorded_span \<Rightarrow> span" where
  "found spans s = fst (the (map_of spans (format_hex 16 (rs_id s))))"

lemma format_hex_inj: "format_hex w m = format_hex w n \<Longrightarrow> m = n"
  by (metis int_of_format_hex of_nat_eq_iff option.inject)

lemma represents_found:
  assumes "represents spans ss" "distinct (map rs_id ss)" "s \<in> set ss"
  shows "(\<exists>l. map_of spans (format_hex 16 (rs_id s)) = Some (found spans s, l)) \<and> shows_span s (found spans s)"
proof -
  obtain ss' where ss': "mset ss' = mset ss" "list_all2 shows_entry ss' spans" using assms(1) by (auto simp: represents_def)
  have keys: "map fst spans = map (\<lambda>s. format_hex 16 (rs_id s)) ss'"
    using ss'(2) by (induction rule: list_all2_induct) auto
  have "mset (map rs_id ss') = mset (map rs_id ss)" using ss'(1) by simp
  then have "distinct (map rs_id ss')" using assms(2) mset_eq_imp_distinct_iff by blast
  then have d: "distinct (map fst spans)"
    unfolding keys using format_hex_inj [of 16] by (auto simp: distinct_map inj_on_def)
  have "s \<in> set ss'" using assms(3) mset_eq_setD [OF ss'(1)] by simp
  then obtain n where n: "n < length ss'" "s = ss' ! n" by (auto simp: in_set_conv_nth)
  then have len: "n < length spans" and e: "shows_entry s (spans ! n)" using ss'(2) by (auto simp: list_all2_conv_all_nth)
  obtain d l where x: "spans ! n = (format_hex 16 (rs_id s), d, l)" "shows_span s d"
    using e by (cases "spans ! n") auto
  have "(format_hex 16 (rs_id s), d, l) \<in> set spans" using x(1) len nth_mem by metis
  then have "map_of spans (format_hex 16 (rs_id s)) = Some (d, l)" using d by simp
  then show ?thesis using x(2) by (simp add: found_def)
qed

lemma represents_entries: "represents spans ss \<Longrightarrow> (i, d, l) \<in> set spans \<Longrightarrow> \<exists>s \<in> set ss. shows_span s d"
proof -
  assume "represents spans ss" "(i, d, l) \<in> set spans"
  then obtain ss' where ss': "mset ss' = mset ss" "list_all2 shows_entry ss' spans" "(i, d, l) \<in> set spans"
    by (auto simp: represents_def)
  then obtain n where "n < length spans" "spans ! n = (i, d, l)" by (auto simp: in_set_conv_nth)
  moreover then have "shows_entry (ss' ! n) (i, d, l)" "n < length ss'" using ss'(2) by (auto simp: list_all2_conv_all_nth)
  moreover have "set ss' = set ss" using ss'(1) by (rule mset_eq_setD)
  ultimately show ?thesis using nth_mem by fastforce
qed

lemma represents_count:
  assumes "represents spans ss" "\<And>s d. s \<in> set ss \<Longrightarrow> shows_span s d \<Longrightarrow> Q d = P s"
  shows "length (filter (\<lambda>(i, d, l). Q d) spans) = length (filter P ss)"
proof -
  obtain ss' where ss': "mset ss' = mset ss" "list_all2 shows_entry ss' spans" using assms(1) by (auto simp: represents_def)
  have sub: "set ss' \<subseteq> set ss" using mset_eq_setD [OF ss'(1)] by simp
  have "length (filter (\<lambda>(i, d, l). Q d) spans) = length (filter P ss')"
    using ss'(2) sub
  proof (induction rule: list_all2_induct)
    case (Cons s ss' e spans)
    obtain i d l where e: "e = (i, d, l)" using prod_cases3 by blast
    have "Q d = P s" using assms(2) Cons.hyps(1) Cons.prems by (simp add: e)
    then show ?case using Cons by (simp add: e)
  qed simp
  also have "\<dots> = size (filter_mset P (mset ss'))" by (metis mset_filter size_mset)
  also have "\<dots> = length (filter P ss)" unfolding ss'(1) by (metis mset_filter size_mset)
  finally show ?thesis .
qed

section \<open>What the reader sees of a span\<close>

lemma shown_attr: "shows_span s d \<Longrightarrow> attr d key = val s key"
  by (simp add: attr_def attrs_of_def val_def shows_span_def)

lemma shown_fields:
  assumes "shows_span s d"
  shows "map_of d ''traceId'' = Some (JStr (format_hex 32 (rs_trace s)))" "map_of d ''name'' = Some (JStr (rs_name s))"
    "span_id_of d = format_hex 16 (rs_id s)" "rs_end s = Some t \<Longrightarrow> span_end d = t"
    "rs_parent s = Some p \<Longrightarrow> map_of d ''parentSpanId'' = Some (JStr (format_hex 16 p))"
    "rs_parent s = None \<Longrightarrow> map_of d ''parentSpanId'' = None \<or> map_of d ''parentSpanId'' = Some (JStr [])"
  using assms by (auto simp: shows_span_def span_id_of_def span_end_def)

lemma attempt_no_step [simp]: "\<not> starts_with ''step:'' ''attempt''" "\<not> starts_with ''step:'' ''run''"
  by (simp_all add: starts_with_def)

lemma step_name: "is_step s \<Longrightarrow> rs_name s \<noteq> ''attempt'' \<and> rs_name s \<noteq> ''run''"
  by (auto simp: is_step_def)

lemma shown_role_run: "run_shaped s \<Longrightarrow> shows_span s d \<Longrightarrow> role d = Inr (Some Run_Role)"
  by (simp add: role_def shown_attr shown_fields run_shaped_def is_run_def)

lemma shown_role_step:
  assumes "step_shaped before s" "shows_span s d"
  shows "role d = Inr (Some Step_Role)"
proof -
  have "is_step s" "val s ''cord.step.attempt'' = None" using assms by (simp_all add: step_shaped_def)
  then show ?thesis
    using step_name [of s] shown_fields(2) [OF assms(2)] by (simp add: role_def is_step_def shown_attr [OF assms(2)])
qed

lemma shown_role_attempt: "attempt_shaped before s \<Longrightarrow> shows_span s d \<Longrightarrow> role d = Inr (Some Attempt_Role)"
  by (simp add: role_def shown_attr shown_fields attempt_shaped_def is_attempt_def)

lemmas shown_role = shown_role_run shown_role_step shown_role_attempt

lemma shaped_kind:
  "run_shaped s \<Longrightarrow> is_run s" "step_shaped before s \<Longrightarrow> is_step s" "attempt_shaped before s \<Longrightarrow> is_attempt s"
  by (simp_all add: run_shaped_def step_shaped_def attempt_shaped_def)

lemma stands_role:
  assumes "stands before s" "shows_span s d"
  shows "is_run s \<Longrightarrow> role d = Inr (Some Run_Role) \<and> run_shaped s"
    "is_step s \<Longrightarrow> role d = Inr (Some Step_Role) \<and> step_shaped before s"
    "is_attempt s \<Longrightarrow> role d = Inr (Some Attempt_Role) \<and> attempt_shaped before s"
proof -
  have "run_shaped s \<or> step_shaped before s \<or> attempt_shaped before s" using assms(1) by (simp add: stands_def)
  then show "is_run s \<Longrightarrow> role d = Inr (Some Run_Role) \<and> run_shaped s"
    "is_step s \<Longrightarrow> role d = Inr (Some Step_Role) \<and> step_shaped before s"
    "is_attempt s \<Longrightarrow> role d = Inr (Some Attempt_Role) \<and> attempt_shaped before s"
    using shown_role [OF _ assms(2)] shaped_kind one_kind by blast+
qed

lemma linked_attrs:
  assumes "linked s p" "stands before s" "shows_span s d" "shows_span p e"
  shows "list_all (same_attr d e) IDENTITY"
proof -
  have same: "val s key = val p key" if "key \<in> set IDENTITY" for key
    using assms(1) that by (auto simp: linked_def identity_of_attrs_def val_def)
  have txt1: "\<exists>x. val s key = Some (JStr x)" if "key \<in> set IDENTITY" for key
  proof -
    have "nonblank_str (val s key) \<noteq> None" using assms(2) that by (auto simp: stands_def identity_of_attrs_def val_def)
    then show ?thesis by (cases "val s key" rule: nonblank_str.cases) auto
  qed
  show ?thesis unfolding list_all_iff
  proof
    fix key assume key: "key \<in> set IDENTITY"
    then obtain x where "val s key = Some (JStr x)" using txt1 by blast
    then show "same_attr d e key"
      using same [OF key] by (simp add: same_attr_def shown_attr [OF assms(3)] shown_attr [OF assms(4)])
  qed
qed

section \<open>Parents and Runs\<close>

lemma linked_entry:
  assumes "represents spans ss" "distinct (map rs_id ss)" "p \<in> set ss" "linked s p" "shows_span s d"
  shows "parent_entry spans d = Inr (Some (found spans p))"
  using represents_found [OF assms(1-3)] shown_fields(5) [OF assms(5)] assms(4) by (auto simp: parent_entry_def linked_def)

lemma linked_parent:
  assumes "represents spans ss" "distinct (map rs_id ss)" "p \<in> set ss" "linked s p" "shows_span s d" "stands before s"
    "role (found spans p) = Inr (Some kind)"
  shows "parent_span spans d kind = Inr (found spans p)"
proof -
  have p: "shows_span p (found spans p)" using represents_found [OF assms(1-3)] by blast
  show ?thesis
    using linked_entry [OF assms(1-5)] linked_attrs [OF assms(4,6,5) p] assms(4,7) shown_fields(1) [OF assms(5)] shown_fields(1) [OF p]
    by (simp add: parent_span_def require_that_def linked_def)
qed

lemma well_distinct: "well k ss \<Longrightarrow> inj (new_id k) \<Longrightarrow> distinct (map rs_id ss)"
  using inj_on_subset [OF _ subset_UNIV] by (auto simp: well_def distinct_map)

lemma well_stands:
  assumes "well k ss" "s \<in> set ss"
  shows "\<exists>i < length ss. s = ss ! i \<and> stands (take i ss) s \<and> outcome_ok s"
  using assms by (auto simp: well_def in_set_conv_nth)

lemma step_parent:
  assumes "step_shaped (take i ss) s"
  shows "\<exists>j < i. j < length ss \<and> linked s (ss ! j) \<and> (is_run (ss ! j) \<or> is_step (ss ! j))"
  using assms by (force simp: step_shaped_def in_set_conv_nth)

text \<open>The walk goes back in time, so it never meets a span twice, and it ends at the Run.\<close>

lemma shown_walk:
  assumes rep: "represents spans ss" and w: "well k ss" and inj: "inj (new_id k)"
  shows "i < length ss \<Longrightarrow> is_run (ss ! i) \<or> is_step (ss ! i) \<Longrightarrow>
    (\<forall>j \<le> i. format_hex 16 (rs_id (ss ! j)) \<notin> set seen) \<Longrightarrow>
    \<exists>root \<in> set ss. root_walk spans seen (found spans (ss ! i)) = Inr (found spans root) \<and> run_shaped root"
proof (induction i arbitrary: seen rule: less_induct)
  case (less i)
  let ?s = "ss ! i"
  have st: "stands (take i ss) ?s" using w less.prems(1) by (simp add: well_def)
  have d: "distinct (map rs_id ss)" using w inj by (rule well_distinct)
  have shown: "shows_span (ss ! j) (found spans (ss ! j))" if "j < length ss" for j
    using represents_found [OF rep d nth_mem [OF that]] by blast
  show ?case
  proof (cases "is_run ?s")
    case True
    then show ?thesis using stands_role(1) [OF st shown] less.prems(1) by (subst root_walk.simps) auto
  next
    case False
    then have step: "role (found spans ?s) = Inr (Some Step_Role)" "step_shaped (take i ss) ?s"
      using stands_role(2) [OF st shown] less.prems(1,2) by auto
    obtain j where j: "j < i" "j < length ss" "linked ?s (ss ! j)" "is_run (ss ! j) \<or> is_step (ss ! j)"
      using step_parent [OF step(2)] by blast
    have pst: "stands (take j ss) (ss ! j)" using w j(2) by (simp add: well_def)
    have role: "role (found spans (ss ! j)) = Inr (Some Run_Role) \<or> role (found spans (ss ! j)) = Inr (Some Step_Role)"
      using j(4) stands_role(1,2) [OF pst shown [OF j(2)]] by blast
    have entry: "parent_entry spans (found spans ?s) = Inr (Some (found spans (ss ! j)))"
      using linked_entry [OF rep d _ j(3) shown [OF less.prems(1)]] j(2) by simp
    have "\<forall>m \<le> j. format_hex 16 (rs_id (ss ! m)) \<notin> set (format_hex 16 (rs_id ?s) # seen)"
    proof (intro allI impI)
      fix m assume m: "m \<le> j"
      have "rs_id (ss ! m) \<noteq> rs_id ?s"
        using d m j(1) less.prems(1) nth_eq_iff_index_eq [OF d, of m i] by simp
      then show "format_hex 16 (rs_id (ss ! m)) \<notin> set (format_hex 16 (rs_id ?s) # seen)"
        using less.prems(3) m j(1) format_hex_inj by auto
    qed
    then obtain root where "root \<in> set ss" "root_walk spans (format_hex 16 (rs_id ?s) # seen) (found spans (ss ! j)) = Inr (found spans root)"
        "run_shaped root"
      using less.IH [OF j(1,2,4)] by blast
    moreover have "format_hex 16 (rs_id ?s) \<notin> set seen" using less.prems(3) by simp
    ultimately show ?thesis
      using step(1) entry role shown_fields(3) [OF shown [OF less.prems(1)]] by (subst root_walk.simps) (auto simp: entry)
  qed
qed

lemma shown_root:
  assumes "represents spans ss" "well k ss" "inj (new_id k)" "s \<in> set ss" "is_run s \<or> is_step s"
  shows "\<exists>root \<in> set ss. run_root spans (found spans s) = Inr (found spans root) \<and> run_shaped root"
  using shown_walk [OF assms(1-3), of _ "[]"] assms(4,5) by (auto simp: run_root_def in_set_conv_nth)

section \<open>The reader's contract\<close>

lemma contract_run:
  assumes "run_shaped s" "shows_span s d"
  shows "check_run d = Inr ()"
proof -
  have "rs_parent s = None" "val s ''cord.semconv.version'' = Some (JStr CURRENT_SEMCONV)" using assms(1) by (simp_all add: run_shaped_def)
  then show ?thesis
    using shown_fields(6) [OF assms(2)] by (auto simp: check_run_def require_that_def SUPPORTED_RUN_VERSIONS_def shown_attr [OF assms(2)])
qed

lemma contract_step:
  assumes rep: "represents spans ss" and w: "well k ss" and inj: "inj (new_id k)" and s: "s \<in> set ss" "is_step s" "shows_span s e"
  shows "check_step spans e = Inr ()"
proof -
  have d: "distinct (map rs_id ss)" using w inj by (rule well_distinct)
  obtain i where i: "i < length ss" "stands (take i ss) s" "outcome_ok s" using well_stands [OF w s(1)] by blast
  then have shaped: "step_shaped (take i ss) s" using stands_role(2) s(2,3) by blast
  then obtain j where j: "j < length ss" "linked s (ss ! j)" "is_run (ss ! j) \<or> is_step (ss ! j)"
    using step_parent by blast
  let ?p = "ss ! j"
  have p: "?p \<in> set ss" "stands (take j ss) ?p" using w j(1) by (simp_all add: well_def)
  have shown: "shows_span q (found spans q)" if "q \<in> set ss" for q
    using represents_found [OF rep d that] by blast
  have out: "outcome_in e STEP_OUTCOMES" using i(3) s(2) by (simp add: outcome_in_def outcome_ok_def shown_attr [OF s(3)])
  have entry: "parent_entry spans e = Inr (Some (found spans ?p))"
    by (rule linked_entry [OF rep d p(1) j(2) s(3)])
  have parent: "parent_span spans e kind = Inr (found spans ?p)"
    if "role (found spans ?p) = Inr (Some kind)" for kind
    by (rule linked_parent [OF rep d p(1) j(2) s(3) i(2) that])
  obtain root where root: "root \<in> set ss" "run_root spans (found spans ?p) = Inr (found spans root)" "run_shaped root"
    using shown_root [OF rep w inj p(1) j(3)] by blast
  have version: "attr (found spans root) ''cord.semconv.version'' = Some (JStr CURRENT_SEMCONV)"
    using root(3) shown_attr [OF shown [OF root(1)]] by (simp add: run_shaped_def)
  from j(3) show ?thesis
  proof
    assume "is_run ?p"
    then have "role (found spans ?p) = Inr (Some Run_Role)" using stands_role(1) [OF p(2) shown [OF p(1)]] by blast
    then show ?thesis using out entry parent by (simp add: check_step_def require_that_def)
  next
    assume "is_step ?p"
    then have "role (found spans ?p) = Inr (Some Step_Role)" using stands_role(2) [OF p(2) shown [OF p(1)]] by blast
    then show ?thesis using out entry parent root(2) version by (simp add: check_step_def require_that_def)
  qed
qed

lemma contract_attempt:
  assumes rep: "represents spans ss" and w: "well k ss" and inj: "inj (new_id k)" and s: "s \<in> set ss" "is_attempt s" "shows_span s e"
  shows "check_attempt spans e = Inr ()"
proof -
  have d: "distinct (map rs_id ss)" using w inj by (rule well_distinct)
  have shown: "shows_span q (found spans q)" if "q \<in> set ss" for q
    using represents_found [OF rep d that] by blast
  obtain i where i: "i < length ss" "stands (take i ss) s" "outcome_ok s" using well_stands [OF w s(1)] by blast
  then have shaped: "attempt_shaped (take i ss) s" using stands_role(3) s(2,3) by blast
  then obtain p where p: "p \<in> set ss" "linked s p" "is_step p" "val s ''cord.node.name'' = val p ''cord.node.name''"
    by (auto simp: attempt_shaped_def dest: in_set_takeD)
  obtain j where j: "stands (take j ss) p" using well_stands [OF w p(1)] by blast
  have "role (found spans p) = Inr (Some Step_Role)" using stands_role(2) [OF j shown [OF p(1)]] p(3) by blast
  then have parent: "parent_span spans e Step_Role = Inr (found spans p)"
    by (rule linked_parent [OF rep d p(1,2) s(3) i(2)])
  obtain root where root: "root \<in> set ss" "run_root spans (found spans p) = Inr (found spans root)" "run_shaped root"
    using shown_root [OF rep w inj p(1)] p(3) by blast
  have out: "outcome_in e ATTEMPT_OUTCOMES" using i(3) s(2) by (simp add: outcome_in_def outcome_ok_def shown_attr [OF s(3)])
  have tier: "attr e ''cord.tier'' = None \<or> nonblank_attr e ''cord.tier''"
    and number: "positive_number (attr e ''cord.step.attempt'')"
    using shaped by (simp_all add: attempt_shaped_def nonblank_attr_def shown_attr [OF s(3)])
  have version: "attr (found spans root) ''cord.semconv.version'' \<noteq> Some (JStr ''0.2.0'')"
    using root(3) shown_attr [OF shown [OF root(1)]] by (simp add: run_shaped_def CURRENT_SEMCONV_def)
  have node: "attr e ''cord.node.name'' = attr (found spans p) ''cord.node.name''"
    using p(4) shown_attr [OF s(3)] shown_attr [OF shown [OF p(1)]] by simp
  show ?thesis using number out parent root(2) version tier node by (simp add: check_attempt_def require_that_def)
qed

lemma contract_span:
  assumes rep: "represents spans ss" and w: "well k ss" and inj: "inj (new_id k)" and s: "s \<in> set ss" "shows_span s e"
  shows "\<exists>keys. check_span spans reference e = Inr keys"
proof -
  obtain i where i: "stands (take i ss) s" using well_stands [OF w s(1)] by blast
  have ids: "list_all (nonblank_attr e) IDENTITY"
    using i by (auto simp: stands_def list_all_iff nonblank_attr_def identity_of_attrs_def val_def shown_attr [OF s(2)])
  have node: "nonblank_attr e ''cord.node.name''" if "nonblank_str (val s ''cord.node.name'') \<noteq> None"
    using that by (simp add: nonblank_attr_def shown_attr [OF s(2)])
  have "run_shaped s \<or> step_shaped (take i ss) s \<or> attempt_shaped (take i ss) s" using i by (simp add: stands_def)
  then show ?thesis
  proof (elim disjE)
    assume r: "run_shaped s"
    then show ?thesis using shown_role(1) [OF r s(2)] contract_run [OF r s(2)] ids by (simp add: check_span_def require_that_def)
  next
    assume r: "step_shaped (take i ss) s"
    then have "is_step s" "nonblank_attr e ''cord.node.name''" using node by (simp_all add: step_shaped_def)
    then show ?thesis using shown_role(2) [OF r s(2)] contract_step [OF rep w inj s(1) _ s(2)] ids
      by (simp add: check_span_def require_that_def)
  next
    assume r: "attempt_shaped (take i ss) s"
    then have "is_attempt s" "nonblank_attr e ''cord.node.name''" using node by (simp_all add: attempt_shaped_def)
    then show ?thesis using shown_role(3) [OF r s(2)] contract_attempt [OF rep w inj s(1) _ s(2)] ids
      by (simp add: check_span_def require_that_def)
  qed
qed

section \<open>How a resumed Step ends\<close>

lemma change_span_nth:
  assumes "distinct (map rs_id (rec_spans r))" "n < length (rec_spans r)" "rs_end (rec_spans r ! n) = None"
  shows "rec_spans (snd (change_span (rs_id (rec_spans r ! n)) f r)) ! n = f (rec_spans r ! n)"
  using assms by (simp add: change_span_app)




section \<open>Counts\<close>

definition recorded_escalations :: "recorder \<Rightarrow> int \<Rightarrow> string \<Rightarrow> string \<Rightarrow> nat" where
  "recorded_escalations r reference graph node =
     length (filter (\<lambda>s. is_attempt s \<and> val s ''cord.outcome'' = Some (JStr (attempt_value Attempt_Escalated)) \<and>
       (case rs_end s of None \<Rightarrow> False | Some t \<Rightarrow> reference - WINDOW_NS < t \<and> t \<le> reference) \<and>
       val s ''cord.graph.id'' = Some (JStr graph) \<and> val s ''cord.node.name'' = Some (JStr node)) (rec_spans r))"

lemma shown_text: "shows_span s d \<Longrightarrow> nonblank_str (val s key) \<noteq> None \<Longrightarrow> text_attr d key = x \<longleftrightarrow> val s key = Some (JStr x)"
  by (cases "val s key" rule: nonblank_str.cases) (auto simp: text_attr_def shown_attr)

lemma shown_escalated:
  assumes "stands before s" "rs_end s = Some t" "shows_span s d"
  shows "escalated_attempt reference d \<and> key_of d = (graph, node) \<longleftrightarrow>
    is_attempt s \<and> val s ''cord.outcome'' = Some (JStr (attempt_value Attempt_Escalated)) \<and>
    reference - WINDOW_NS < t \<and> t \<le> reference \<and>
    val s ''cord.graph.id'' = Some (JStr graph) \<and> val s ''cord.node.name'' = Some (JStr node)"
proof (cases "is_attempt s")
  case True
  then have r: "role d = Inr (Some Attempt_Role)" "attempt_shaped before s" using stands_role(3) [OF assms(1,3)] by blast+
  have "nonblank_str (val s ''cord.graph.id'') \<noteq> None" using assms(1) by (simp add: stands_def identity_of_attrs_def val_def IDENTITY_def)
  moreover have "nonblank_str (val s ''cord.node.name'') \<noteq> None" using r(2) by (simp add: attempt_shaped_def)
  ultimately show ?thesis using True r(1) shown_fields(4) [OF assms(3,2)]
    by (simp add: escalated_attempt_def key_of_def counts_as_escalated_def attempt_value_def shown_text [OF assms(3)] shown_attr [OF assms(3)])
next
  case False
  have "run_shaped s \<or> step_shaped before s" using assms(1) False by (auto simp: stands_def attempt_shaped_def)
  then have "role d \<noteq> Inr (Some Attempt_Role)" using shown_role(1,2) [OF _ assms(3)] by fastforce
  then show ?thesis using False by (simp add: escalated_attempt_def)
qed

lemma shown_count:
  assumes "represents spans (rec_spans r)" "well k (rec_spans r)" "all_closed r"
  shows "escalated_count spans reference (graph, node) = recorded_escalations r reference graph node"
  unfolding escalated_count_def recorded_escalations_def
proof (rule represents_count [OF assms(1)])
  fix s d assume s: "s \<in> set (rec_spans r)" "shows_span s d"
  obtain i where "stands (take i (rec_spans r)) s" using well_stands [OF assms(2) s(1)] by blast
  moreover obtain t where "rs_end s = Some t" using assms(3) s(1) by (auto simp: all_closed_def)
  ultimately show "(escalated_attempt reference d \<and> key_of d = (graph, node)) =
      (is_attempt s \<and> val s ''cord.outcome'' = Some (JStr (attempt_value Attempt_Escalated)) \<and>
       (case rs_end s of None \<Rightarrow> False | Some t \<Rightarrow> reference - WINDOW_NS < t \<and> t \<le> reference) \<and>
       val s ''cord.graph.id'' = Some (JStr graph) \<and> val s ''cord.node.name'' = Some (JStr node))"
    using shown_escalated [OF _ _ s(2)] by simp
qed

section \<open>Properties\<close>

lemma well_in_range:
  assumes w: "well k (rec_spans r)" and ex: "exportable k r" and closed: "all_closed r" and mono: "mono (wall k)"
    and ids: "\<forall>i < length (rec_spans r). 0 < new_id k i \<and> new_id k i < 2 ^ 64 \<and> 0 < new_trace k i \<and> new_trace k i < 2 ^ 128"
    and times: "\<forall>c < rec_clock r. 0 < wall k c \<and> wall k c < 2 ^ 64" and s: "s \<in> set (rec_spans r)"
  shows "in_range s \<and> plain_attrs (rs_attrs s)"
proof -
  have id_ok: "0 < rs_id q \<and> rs_id q < 2 ^ 64" if q: "q \<in> set (rec_spans r)" for q
  proof -
    obtain i where "i < length (rec_spans r)" "q = rec_spans r ! i" using q by (auto simp: in_set_conv_nth)
    moreover have "map rs_id (rec_spans r) = map (new_id k) [0..<length (rec_spans r)]" using w by (simp add: well_def)
    ultimately have "rs_id q = new_id k i" "i < length (rec_spans r)" by (auto dest!: arg_cong [where f = "\<lambda>xs. xs ! i"])
    then show ?thesis using ids by simp
  qed
  obtain i where "stands (take i (rec_spans r)) s" using well_stands [OF w s] by blast
  then have "rs_parent s = None \<or> (\<exists>q \<in> set (rec_spans r). rs_parent s = Some (rs_id q))"
    unfolding stands_def run_shaped_def step_shaped_def attempt_shaped_def linked_def by (metis in_set_takeD)
  then have parent: "\<forall>p. rs_parent s = Some p \<longrightarrow> 0 < p \<and> p < 2 ^ 64" using id_ok by auto
  have x: "drawn k (length (rec_spans r)) (rs_trace s)" "plain_attrs (rs_attrs s)" "timed k (rec_clock r) s"
    using ex s by (simp_all add: exportable_def)
  obtain t where t: "rs_end s = Some t" using closed s by (auto simp: all_closed_def)
  then obtain b e where "rs_start s = wall k b" "t = wall k e" "b \<le> e" "e < rec_clock r" "b < rec_clock r"
    using x(3) by (auto simp: timed_def)
  then have "0 < rs_start s" "rs_start s \<le> t" "t < 2 ^ 64" using times monoD [OF mono] by auto
  moreover have "0 < rs_trace s" "rs_trace s < 2 ^ 128" using x(1) ids by (auto simp: drawn_def)
  ultimately show ?thesis using id_ok [OF s] parent t x(2) by (auto simp: in_range_def)
qed

lemma written_archive_represents:
  assumes spans: "mset ss = mset (rec_spans r)" "list_all2 otlp_span ss js" and archive: "otlp_archive paths js"
    and ok: "\<forall>s \<in> set (rec_spans r). in_range s \<and> plain_attrs (rs_attrs s)" and d: "distinct (map rs_id (rec_spans r))"
    and some: "rec_spans r \<noteq> []"
  shows "\<exists>index. read_spans paths = Inr index \<and> represents index (rec_spans r)"
proof -
  have ok': "\<forall>s \<in> set ss. in_range s \<and> plain_attrs (rs_attrs s)" using ok mset_eq_setD [OF spans(1)] by simp
  have each: "list_all2 (\<lambda>s j. \<exists>d. normalize_span j = Inr (format_hex 16 (rs_id s), d) \<and> shows_span s d) ss js"
    using spans(2) ok' by (auto simp: list_all2_conv_all_nth intro: span_back)
  have keys: "map (fst \<circ> normal_form) js = map (\<lambda>s. format_hex 16 (rs_id s)) ss"
    using each by (induction rule: list_all2_induct) (auto simp: normal_form_def)
  have "mset (map rs_id ss) = mset (map rs_id (rec_spans r))" using spans(1) by simp
  then have "distinct (map rs_id ss)" using d mset_eq_imp_distinct_iff by blast
  then have "distinct (map (\<lambda>s. format_hex 16 (rs_id s)) ss)"
    using format_hex_inj [of 16] by (auto simp: distinct_map inj_on_def)
  moreover have "\<forall>j \<in> set js. normalize_span j = Inr (normal_form j)"
    using each by (fastforce simp: list_all2_conv_all_nth in_set_conv_nth normal_form_def)
  ultimately have read: "readable_spans [] js" by (simp add: readable_spans_def keys)
  have "ss \<noteq> []" using some spans(1) by auto
  then have "js \<noteq> []" using spans(2) by auto
  then obtain index where index: "read_spans paths = Inr index" "map (\<lambda>(i, s, l). (i, s)) index = map normal_form js"
    using archive_back [OF archive read] by blast
  have "list_all2 (\<lambda>s x. fst x = format_hex 16 (rs_id s) \<and> shows_span s (snd x)) ss (map normal_form js)"
    using each by (auto simp: list_all2_conv_all_nth normal_form_def)
  then have "list_all2 shows_entry ss index"
    unfolding index(2) [symmetric] list_all2_map2 by (rule list_all2_mono) auto
  then show ?thesis using index(1) spans(1) by (auto simp: represents_def)
qed

text \<open>
  C14. What the instrumentation records, the archive reader accepts. Instrumented code nests, pauses, fails and
  resumes in any way, but names Nodes and Subject types with more than spaces; SDK ids are distinct and in
  OpenTelemetry's ranges, and the clock does not run backwards. Then every span is ended, and however the spans are
  written as OTLP, each once, in any order, lines and files, the query reads the archive, its rows count exactly
  the Attempts recorded as escalated in the window, and such a Node lacks a row only when the rows asked for are
  full and none counts fewer.
\<close>

theorem recording_is_accepted:
  fixes r :: recorder
  assumes "recorded_by k r" "inj (new_id k)" "mono (wall k)" "rec_spans r \<noteq> []" "0 < n"
    and "\<forall>i < length (rec_spans r). 0 < new_id k i \<and> new_id k i < 2 ^ 64 \<and> 0 < new_trace k i \<and> new_trace k i < 2 ^ 128"
    and "\<forall>c < rec_clock r. 0 < wall k c \<and> wall k c < 2 ^ 64"
    and "mset ss = mset (rec_spans r)" "list_all2 otlp_span ss js" "otlp_archive paths js"
  shows "(\<forall>s \<in> set (rec_spans r). rs_end s \<noteq> None) \<and>
    (\<exists>rows. archive_query paths reference n = Inr rows \<and>
       (\<forall>row \<in> set rows. row_count row = recorded_escalations r reference (row_graph row) (row_node row) \<and> 0 < row_count row) \<and>
       (\<forall>graph node. 0 < recorded_escalations r reference graph node \<longrightarrow>
          (graph, node) \<in> (\<lambda>row. (row_graph row, row_node row)) ` set rows \<or>
          length rows = nat n \<and> (\<forall>row \<in> set rows. recorded_escalations r reference graph node \<le> row_count row)))"
proof -
  have w: "well k (rec_spans r)" and closed: "all_closed r" using recorded_by_well [OF assms(1,2)] by simp_all
  have ok: "\<forall>s \<in> set (rec_spans r). in_range s \<and> plain_attrs (rs_attrs s)"
    using well_in_range [OF w recorded_by_exportable [OF assms(1,2)] closed assms(3,6,7)] by blast
  obtain index where index: "read_spans paths = Inr index" and rep: "represents index (rec_spans r)"
    using written_archive_represents [OF assms(8-10) ok well_distinct [OF w assms(2)] assms(4)] by blast
  have "\<forall>(i, s, l) \<in> set index. \<exists>ks. check_span index reference s = Inr ks"
    using represents_entries [OF rep] contract_span [OF rep w assms(2)] by blast
  then obtain keys where "escalations index reference = Inr keys" by (auto simp: escalations_Inr)
  then obtain rows where q: "query_spans index reference n = Inr rows" using assms(5) by (auto simp: query_spans_Inr)
  then have rows: "archive_query paths reference n = Inr rows"
    using index assms(5) by (simp add: archive_query_def require_that_def)
  have cnt: "escalated_count index reference key = recorded_escalations r reference (fst key) (snd key)" for key
    using shown_count [OF rep w closed, of reference "fst key" "snd key"] by simp
  note true = rows_are_true_counts [OF q, unfolded cnt]
  have rare: "0 < recorded_escalations r reference graph node \<longrightarrow>
      (graph, node) \<in> (\<lambda>row. (row_graph row, row_node row)) ` set rows \<or>
      length rows = nat n \<and> (\<forall>row \<in> set rows. recorded_escalations r reference graph node \<le> row_count row)" for graph node
    using conjunct2 [OF conjunct2 [OF conjunct2 [OF true]]] by (elim allE [of _ "(graph, node)"]) (simp only: fst_conv snd_conv)
  have "\<forall>row \<in> set rows. row_count row = recorded_escalations r reference (row_graph row) (row_node row) \<and> 0 < row_count row"
    using conjunct1 [OF true] by (simp only: fst_conv snd_conv)
  moreover have "\<forall>s \<in> set (rec_spans r). rs_end s \<noteq> None" using closed by (simp add: all_closed_def)
  ultimately show ?thesis using rows rare by blast
qed


definition demo_sdk :: sdk where
  "demo_sdk = \<lparr>new_id = Suc, new_trace = (\<lambda>n. Suc n), wall = (\<lambda>n. int n + 1)\<rparr>"

definition demo_attempt :: "step_handle \<Rightarrow> (recorder, unit) prog" where
  "demo_attempt st = step_attempt demo_sdk st (JInt 1) None (Some Attempt_Failed)
     (\<lambda>c. set_attr c ''cord.outcome'' (JStr (attempt_value Attempt_Escalated)))"

definition demo_body :: "string \<Rightarrow> run_handle \<Rightarrow> (recorder, unit) prog" where
  "demo_body node rn = run_step demo_sdk rn node (Some Step_Passed) None (\<lambda>_. False) demo_attempt"

definition demo_record :: "string \<Rightarrow> (exn + unit) \<times> recorder" where
  "demo_record node = record_run demo_sdk ''u'' (JStr ''s'') ''t'' (JStr ''g'') None None (JInt 0) (demo_body node)
     \<lparr>rec_spans = [], rec_clock = 0\<rparr>"

definition demo_identity_attrs :: "json dict" where
  "demo_identity_attrs = [(''cord.graph.id'', JStr ''g''), (''cord.run.id'', JStr ''u''), (''cord.subject.id'', JStr ''s''),
     (''cord.subject.type'', JStr ''t''), (''cord.cascade.depth'', JInt 0)]"

definition demo_spans_of :: "string \<Rightarrow> recorded_span list" where
  "demo_spans_of node =
    [\<lparr>rs_id = 1, rs_trace = 1, rs_parent = None, rs_name = ''run'',
      rs_attrs = demo_identity_attrs @ [(''cord.semconv.version'', JStr CURRENT_SEMCONV)],
      rs_error = False, rs_start = 1, rs_end = Some 6\<rparr>,
     \<lparr>rs_id = 2, rs_trace = 1, rs_parent = Some 1, rs_name = ''step:'' @ node,
      rs_attrs = demo_identity_attrs @ [(''cord.node.name'', JStr node), (''cord.outcome'', JStr ''passed'')],
      rs_error = False, rs_start = 2, rs_end = Some 5\<rparr>,
     \<lparr>rs_id = 3, rs_trace = 1, rs_parent = Some 2, rs_name = ''attempt'',
      rs_attrs = demo_identity_attrs @ [(''cord.node.name'', JStr node), (''cord.step.attempt'', JInt 1), (''cord.outcome'', JStr ''escalated'')],
      rs_error = False, rs_start = 3, rs_end = Some 4\<rparr>]"

lemma demo_record_value:
  assumes "node \<noteq> []"
  shows "demo_record node = (Inr (), \<lparr>rec_spans = demo_spans_of node, rec_clock = 6\<rparr>)"
proof -
  have texts: "\<not> bad_text (JStr ''s'')" "\<not> bad_text (JStr ''g'')" by code_simp+
  show ?thesis
    using assms texts
    by (simp add: demo_record_def record_run_def demo_body_def run_step_def open_step_span_def demo_attempt_def step_attempt_def
      marking_exceptions_def set_attr_def change_span_def close_span_def open_span_def demo_sdk_def demo_spans_of_def
      demo_identity_attrs_def bad_optional_def with_optional_def step_value_def attempt_value_def andthen_def ensuring_def
      catching_def changing_def Let_def)
qed

lemma demo_texts: "\<not> blank ''n''" "\<not> blank ''t''" "\<not> blank ''u''"
  by code_simp+

lemma demo_recorded: "recorded_by demo_sdk (snd (demo_record ''n''))"
proof -
  have att: "instrumented demo_sdk (insert (Step_Handle st) C) (demo_attempt st)" for st C
    unfolding demo_attempt_def by (intro instrumented.intros) simp_all
  have "instrumented demo_sdk {Run_Handle rn} (demo_body ''n'' rn)" for rn
    unfolding demo_body_def by (intro instrumented.step att demo_texts) simp
  then show ?thesis unfolding demo_record_def by (intro recorded_by.run recorded_by.start demo_texts)
qed

section \<open>A written archive\<close>

definition write_value :: "json \<Rightarrow> json" where
  "write_value v =
     (case v of
        JStr t \<Rightarrow> JObj [(''stringValue'', JStr t)]
      | JInt n \<Rightarrow> JObj [(''intValue'', JStr (show_int n))]
      | _ \<Rightarrow> JObj [])"

definition write_span :: "recorded_span \<Rightarrow> json" where
  "write_span s =
     JObj [(''traceId'', JStr (format_hex 32 (rs_trace s))), (''spanId'', JStr (format_hex 16 (rs_id s))),
       (''parentSpanId'', JStr (case rs_parent s of None \<Rightarrow> [] | Some p \<Rightarrow> format_hex 16 p)), (''name'', JStr (rs_name s)),
       (''kind'', JInt 1), (''startTimeUnixNano'', JStr (show_int (rs_start s))),
       (''endTimeUnixNano'', JStr (show_int (case rs_end s of None \<Rightarrow> 0 | Some t \<Rightarrow> t))),
       (''attributes'', JArr (map (\<lambda>(key, v). JObj [(''key'', JStr key), (''value'', write_value v)]) (rs_attrs s)))]"

definition written :: "recorded_span list \<Rightarrow> archive_path list" where
  "written ss = [File_Path \<lparr>af_lines = map (\<lambda>s. Some (JObj [(''resourceSpans'', JArr [JObj [(''scopeSpans'',
     JArr [JObj [(''spans'', JArr [write_span s])]])]])])) ss, af_fails = False\<rparr>]"

lemma written_spans: "list_all2 otlp_span ss (map write_span ss)"
proof -
  have attrs: "list_all2 otlp_attribute a (map (\<lambda>(key, v). JObj [(''key'', JStr key), (''value'', write_value v)]) a)" for a
    by (induction a) (auto simp: otlp_attribute_def otlp_value_def write_value_def otlp_int_def split: json.split)
  have "otlp_span s (write_span s)" for s
    using attrs [of "rs_attrs s"] by (auto simp: otlp_span_def write_span_def otlp_int_def split: option.split)
  then show ?thesis by (simp add: list_all2_map2 list_all2_refl)
qed

lemma written_archive: "ss \<noteq> [] \<Longrightarrow> otlp_archive (written ss) (map write_span ss)"
proof -
  let ?line = "\<lambda>s. Some (JObj [(''resourceSpans'', JArr [JObj [(''scopeSpans'', JArr [JObj [(''spans'', JArr [write_span s])]])]])])"
  have scope: "otlp_scope (JObj [(''spans'', JArr [write_span s])]) [write_span s]" for s by (simp add: otlp_scope_def)
  have res: "otlp_resource (JObj [(''scopeSpans'', JArr [JObj [(''spans'', JArr [write_span s])]])]) [write_span s]" for s
    unfolding otlp_resource_def using scope [of s]
    by (intro exI [of _ "[(''scopeSpans'', JArr [JObj [(''spans'', JArr [write_span s])]])]"]
        exI [of _ "[JObj [(''spans'', JArr [write_span s])]]"] exI [of _ "[[write_span s]]"]) simp
  have line: "otlp_line (?line s) [write_span s]" for s
    unfolding otlp_line_def using res [of s]
    by (intro exI [of _ "[(''resourceSpans'', JArr [JObj [(''scopeSpans'', JArr [JObj [(''spans'', JArr [write_span s])]])]])]"]
        exI [of _ "[JObj [(''scopeSpans'', JArr [JObj [(''spans'', JArr [write_span s])]])]]"] exI [of _ "[[write_span s]]"]) simp
  have lines: "list_all2 otlp_line (map ?line ss) (map (\<lambda>s. [write_span s]) ss)"
    using line by (simp add: list_all2_map1 list_all2_map2 list_all2_refl)
  assume "ss \<noteq> []"
  then have "otlp_file \<lparr>af_lines = map ?line ss, af_fails = False\<rparr> (map write_span ss)"
    using lines by (auto simp: otlp_file_def intro!: exI [of _ "map (\<lambda>s. [write_span s]) ss"])
  then show ?thesis by (simp add: otlp_archive_def written_def path_files_def)
    (rule exI [of _ "[map write_span ss]"], simp)
qed

theorem recording_is_accepted_witness:
  "\<exists>rows. archive_query (written (demo_spans_of ''n'')) 20 10 = Inr rows \<and> rows \<noteq> [] \<and>
     (\<forall>row \<in> set rows. row_count row = recorded_escalations (snd (demo_record ''n'')) 20 (row_graph row) (row_node row))"
proof -
  let ?r = "\<lparr>rec_spans = demo_spans_of ''n'', rec_clock = 6\<rparr>"
  have holds: "snd (demo_record ''n'') = ?r" by (simp add: demo_record_value)
  have rec: "recorded_by demo_sdk ?r" using demo_recorded by (simp add: holds)
  have sdk: "inj (new_id demo_sdk)" "mono (wall demo_sdk)" by (simp_all add: demo_sdk_def mono_def)
  have three: "length (rec_spans ?r) = 3" "demo_spans_of ''n'' \<noteq> []" "rec_spans ?r \<noteq> []" by (simp_all add: demo_spans_of_def)
  have ids: "\<forall>i < length (rec_spans ?r). 0 < new_id demo_sdk i \<and> new_id demo_sdk i < 2 ^ 64 \<and> 0 < new_trace demo_sdk i \<and>
      new_trace demo_sdk i < 2 ^ 128" unfolding three by (simp add: demo_sdk_def)
  have times: "\<forall>c < rec_clock ?r. 0 < wall demo_sdk c \<and> wall demo_sdk c < 2 ^ 64" by (simp add: demo_sdk_def)
  have counted: "recorded_escalations ?r 20 ''g'' ''n'' = 1" by code_simp
  have same: "mset (demo_spans_of ''n'') = mset (rec_spans ?r)" by simp
  have ten: "0 < (10 :: int)" by simp
  obtain rows where rows: "archive_query (written (demo_spans_of ''n'')) 20 10 = Inr rows"
      "\<forall>row \<in> set rows. row_count row = recorded_escalations ?r 20 (row_graph row) (row_node row) \<and> 0 < row_count row"
      "\<forall>graph node. 0 < recorded_escalations ?r 20 graph node \<longrightarrow>
          (graph, node) \<in> (\<lambda>row. (row_graph row, row_node row)) ` set rows \<or>
          length rows = nat 10 \<and> (\<forall>row \<in> set rows. recorded_escalations ?r 20 graph node \<le> row_count row)"
    using recording_is_accepted [OF rec sdk three(3) ten ids times same written_spans written_archive [OF three(2)], of 20] by blast
  have "(''g'', ''n'') \<in> (\<lambda>row. (row_graph row, row_node row)) ` set rows \<or> length rows = nat 10"
    using rows(3) counted by (metis less_one)
  then have "rows \<noteq> []" by auto
  then show ?thesis using rows(1,2) unfolding holds by blast
qed

lemma demo_counted: "recorded_escalations (snd (demo_record ''n'')) 20 ''g'' ''n'' = 1"
proof -
  have "recorded_escalations \<lparr>rec_spans = demo_spans_of ''n'', rec_clock = 6\<rparr> 20 ''g'' ''n'' = 1" by code_simp
  then show ?thesis by (simp add: demo_record_value)
qed




text \<open>
  A Node name of spaces is not empty, so it opens a Step like any other; the archive that holds it is then
  refused as a whole.
\<close>

lemma blank_node_spoils_archive:
  "fst (demo_record '' '') = Inr () \<and>
   archive_query (written (rec_spans (snd (demo_record '' '')))) 20 10 = archive_error ''file 1, line 2: missing Node identity''"
proof -
  have "archive_query (written (demo_spans_of '' '')) 20 10 = archive_error ''file 1, line 2: missing Node identity''"
    by code_simp
  then show ?thesis by (simp add: demo_record_value)
qed

text \<open>
  A wall clock set back while a Step runs ends its span before it starts, and that also refuses the archive
  as a whole.
\<close>

lemma clock_set_back_spoils_archive:
  "archive_query (written [(demo_spans_of ''n'' ! 0)\<lparr>rs_start := 7\<rparr>]) 20 10 =
     archive_error ''file 1, line 1: span ends before it starts''"
  by code_simp

end
