(* ===== verification/Langfuse_Query.thy ===== *)
theory Langfuse_Query
  imports Archive_Escalations Outside
begin

text \<open>
  \<^verbatim>\<open>langfuse_query.py\<close>: a closed archive cohort read back through the public API of a second store, page
  by page and trace by trace, and compared with the archive. A run of it is \<open>None\<close> when it never returns.

  \<^verbatim>\<open>urlsplit\<close> and \<^verbatim>\<open>datetime.fromisoformat\<close> are parameters; the query of a request is its third component.
\<close>

section \<open>Spans and observations\<close>

definition or_none :: "json option \<Rightarrow> json" where
  "or_none j = (case j of None \<Rightarrow> JNull | Some v \<Rightarrow> if truthy v then v else JNull)"

definition cord_attributes :: "json dict \<Rightarrow> json" where
  "cord_attributes d = JObj (filter (\<lambda>kv. starts_with ''cord.'' (fst kv)) d)"

definition PROJECTED :: "string list" where
  "PROJECTED = [''spanId'', ''traceId'', ''parentSpanId'', ''name'', ''startTimeUnixNano'', ''endTimeUnixNano'']"

definition projection :: "span \<Rightarrow> json" where
  "projection s = JObj (map (\<lambda>key. (key, or_none (map_of s key))) PROJECTED @ [(''attributes'', cord_attributes (attrs_of s))])"

definition invalid_response :: "exn + 'a" where
  "invalid_response = Inl (Exn ReadError ''invalid_response'')"

definition pending_read :: "exn + 'a" where
  "pending_read = Inl (Exn PendingRead [])"

text \<open>\<^verbatim>\<open>argparse.ArgumentTypeError\<close> is caught beside \<^verbatim>\<open>ValueError\<close>, so \<^verbatim>\<open>reference_ns\<close> raises that.\<close>

definition caught_in_row :: "exc_class \<Rightarrow> bool" where
  "caught_in_row c = (c = PyKeyError \<or> c = PyTypeError \<or> c = PyAttributeError \<or> is_value_error c)"

definition native_time :: "(string \<Rightarrow> int option) \<Rightarrow> json \<Rightarrow> exn + int" where
  "native_time reference_ns j =
     (case j of
        JStr s \<Rightarrow> (case reference_ns s of None \<Rightarrow> Inl (Exn PyValueError ''reference time requires ISO-8601 with a timezone'')
                   | Some t \<Rightarrow> Inr t)
      | _ \<Rightarrow> Inl (Exn PyAttributeError ''object has no attribute replace''))"

definition close_to :: "(string \<Rightarrow> int option) \<Rightarrow> json \<Rightarrow> int \<Rightarrow> exn + unit" where
  "close_to reference_ns native precise =
     follow (native_time reference_ns native) (\<lambda>t.
       require_that (abs (t - precise) < 1000000) ''public timestamp mismatch'' (Inr ()))"

definition parent_id :: "json \<Rightarrow> exn + json" where
  "parent_id row =
     follow (get_attr row ''parentObservationId'') (\<lambda>p.
       case p of
         None \<Rightarrow> Inr JNull
       | Some v \<Rightarrow> if truthy v then follow (identifier_of v 16) (\<lambda>i. Inr (JStr i)) else Inr JNull)"

definition observed_span :: "(string \<Rightarrow> int option) \<Rightarrow> json \<Rightarrow> json dict \<Rightarrow> json \<Rightarrow> exn + span" where
  "observed_span reference_ns row attrs metadata =
     follow (follow (field metadata ''cord_start_ns'') timestamp) (\<lambda>start.
     follow (follow (field metadata ''cord_end_ns'') timestamp) (\<lambda>stop.
     require_that (start \<le> stop) ''invalid public time range'' (
     follow (field row ''startTime'') (\<lambda>native_start.
     follow (field row ''endTime'') (\<lambda>native_end.
     follow (close_to reference_ns native_start start) (\<lambda>_.
     follow (close_to reference_ns native_end stop) (\<lambda>_.
     follow (follow (field row ''id'') (\<lambda>v. identifier_of v 16)) (\<lambda>sid.
     follow (follow (field row ''traceId'') (\<lambda>v. identifier_of v 32)) (\<lambda>tid.
     follow (parent_id row) (\<lambda>parent.
     follow (field row ''name'') (\<lambda>name.
       Inr [(''spanId'', JStr sid), (''traceId'', JStr tid), (''parentSpanId'', parent), (''name'', name),
            (''startTimeUnixNano'', JInt start), (''endTimeUnixNano'', JInt stop),
            (''attributes'', cord_attributes attrs)])))))))))))"

definition observation_body :: "(string \<Rightarrow> int option) \<Rightarrow> json \<Rightarrow> exn + span" where
  "observation_body reference_ns row =
     follow (field row ''metadata'') (\<lambda>metadata.
     follow (field metadata ''cordboard'') (\<lambda>attrs.
       case attrs of
         JObj a \<Rightarrow>
           follow (get_attr row ''endTime'') (\<lambda>stop.
             if stop = None \<or> stop = Some JNull then pending_read else observed_span reference_ns row a metadata)
       | _ \<Rightarrow> archive_error ''invalid public attributes''))"

definition observation :: "(string \<Rightarrow> int option) \<Rightarrow> json \<Rightarrow> exn + span" where
  "observation reference_ns row =
     (case observation_body reference_ns row of
        Inl x \<Rightarrow> if caught_in_row (exn_class x) then invalid_response else Inl x
      | Inr s \<Rightarrow> Inr s)"

section \<open>The public reader\<close>

record split_url =
  su_scheme :: string
  su_netloc :: string
  su_username :: "string option"
  su_password :: "string option"
  su_query :: string
  su_fragment :: string
  su_path :: string

record public_reader =
  pr_url :: string
  pr_auth :: "string \<times> string"

definition new_reader ::
  "(string \<Rightarrow> exn + split_url) \<Rightarrow> string \<Rightarrow> string option \<Rightarrow> string option \<Rightarrow> exn + public_reader" where
  "new_reader urlsplit url public_key secret_key =
     follow (urlsplit url) (\<lambda>p.
       if su_scheme p \<notin> {''http'', ''https''} \<or> su_netloc p = [] \<or> su_username p \<notin> {None, Some []} \<or>
          su_password p \<notin> {None, Some []} \<or> su_query p \<noteq> [] \<or> su_fragment p \<noteq> [] \<or> su_path p \<notin> {[], ''/''}
       then Inl (Exn PyValueError ''Langfuse URL must be an HTTP(S) origin without credentials'')
       else
         (case (public_key, secret_key) of
            (Some (a # as), Some (b # bs)) \<Rightarrow> Inr \<lparr>pr_url = rstrip_slash url, pr_auth = (a # as, b # bs)\<rparr>
          | _ \<Rightarrow> Inl (Exn PyValueError ''Langfuse project keys are required'')))"

definition reader_get ::
  "env \<Rightarrow> public_reader \<Rightarrow> string \<Rightarrow> json dict \<Rightarrow> seconds \<Rightarrow> (outside, json) prog" where
  "reader_get e rd path params deadline u =
     (case monotonic e u of
        (t, u1) \<Rightarrow>
          if deadline - t \<le> 0 then (pending_read, u1)
          else
            (case http e (Request ''GET'' (pr_url rd @ ''/api/public/'' @ path) (Some (JObj params))) u1 of
               (Reply status body, u2) \<Rightarrow>
                 (if status = 404 \<and> (starts_with ''traces/'' path \<or> starts_with ''observations/'' path) then pending_read
                  else if status = 429 \<or> 500 \<le> status then Inl (Exn ReadError ''unavailable'')
                  else if status \<noteq> 200 then Inl (Exn ReadError ''api_error'')
                  else (case body of None \<Rightarrow> invalid_response | Some j \<Rightarrow> Inr j), u2)
             | (_, u2) \<Rightarrow> (Inl (Exn ReadError ''unavailable''), u2)))"

definition page_of :: "json \<Rightarrow> int \<Rightarrow> (json list \<times> int \<times> int) option" where
  "page_of j page =
     (case (field j ''data'', field j ''meta'') of
        (Inr (JArr rows), Inr meta) \<Rightarrow>
          (case (field meta ''totalItems'', field meta ''totalPages'', field meta ''page'') of
             (Inr (JInt total_items), Inr (JInt pages), Inr (JInt n)) \<Rightarrow>
               if 0 \<le> total_items \<and> 0 \<le> pages \<and> n = page then Some (rows, total_items, pages) else None
           | _ \<Rightarrow> None)
      | _ \<Rightarrow> None)"

fun add_rows :: "(string \<Rightarrow> int option) \<Rightarrow> string \<Rightarrow> json list \<Rightarrow> span dict \<Rightarrow> exn + span dict" where
  "add_rows reference_ns trace_id [] found = Inr found"
| "add_rows reference_ns trace_id (row # rows) found =
     follow (observation reference_ns row) (\<lambda>s.
       if map_of s ''traceId'' \<noteq> Some (JStr trace_id) then invalid_response
       else if (case map_of found (span_id_of s) of None \<Rightarrow> False | Some s' \<Rightarrow> \<not> py_eq (JObj s') (JObj s)) then invalid_response
       else add_rows reference_ns trace_id rows (AList.update (span_id_of s) s found))"

datatype page_outcome = Last_Page "span dict" | More_Pages "span dict"

definition read_page :: "(string \<Rightarrow> int option) \<Rightarrow> string \<Rightarrow> int \<Rightarrow> json \<Rightarrow> span dict \<Rightarrow> exn + page_outcome" where
  "read_page reference_ns trace_id page j found =
     (case page_of j page of
        None \<Rightarrow> invalid_response
      | Some (rows, total_items, pages) \<Rightarrow>
          follow (add_rows reference_ns trace_id rows found) (\<lambda>found'.
            if pages \<le> page then (if int (length found') = total_items then Inr (Last_Page found') else pending_read)
            else if rows = [] then invalid_response else Inr (More_Pages found')))"

definition page_params :: "string \<Rightarrow> int \<Rightarrow> json dict" where
  "page_params trace_id page = [(''traceId'', JStr trace_id), (''page'', JInt page), (''limit'', JInt 100)]"

partial_function (option) read_pages ::
  "env \<Rightarrow> (string \<Rightarrow> int option) \<Rightarrow> public_reader \<Rightarrow> string \<Rightarrow> seconds \<Rightarrow> int \<Rightarrow> span dict \<Rightarrow> outside \<Rightarrow>
   ((exn + span dict) \<times> outside) option" where
  "read_pages e reference_ns rd trace_id deadline page found u =
     (case reader_get e rd ''observations'' (page_params trace_id page) deadline u of
        (Inl x, u1) \<Rightarrow> Some (Inl x, u1)
      | (Inr j, u1) \<Rightarrow>
          (case read_page reference_ns trace_id page j found of
             Inl x \<Rightarrow> Some (Inl x, u1)
           | Inr (Last_Page found') \<Rightarrow> Some (Inr found', u1)
           | Inr (More_Pages found') \<Rightarrow> read_pages e reference_ns rd trace_id deadline (page + 1) found' u1))"

declare read_pages.simps [code]

definition subject_of :: "string \<Rightarrow> json \<Rightarrow> exn + string" where
  "subject_of trace_id j =
     (case (field j ''id'', field j ''sessionId'') of
        (Inr i, Inr (JStr subject)) \<Rightarrow> if i = JStr trace_id then Inr subject else invalid_response
      | _ \<Rightarrow> invalid_response)"

definition read_trace ::
  "env \<Rightarrow> (string \<Rightarrow> int option) \<Rightarrow> public_reader \<Rightarrow> string \<Rightarrow> seconds \<Rightarrow> outside \<Rightarrow>
   ((exn + span dict \<times> string) \<times> outside) option" where
  "read_trace e reference_ns rd trace_id deadline u =
     (case read_pages e reference_ns rd trace_id deadline 1 [] u of
        None \<Rightarrow> None
      | Some (Inl x, u1) \<Rightarrow> Some (Inl x, u1)
      | Some (Inr found, u1) \<Rightarrow>
          if found = [] then Some (pending_read, u1)
          else
            (case reader_get e rd (''traces/'' @ trace_id) [] deadline u1 of
               (Inl x, u2) \<Rightarrow> Some (Inl x, u2)
             | (Inr j, u2) \<Rightarrow> Some (follow (subject_of trace_id j) (\<lambda>subject. Inr (found, subject)), u2)))"

section \<open>The comparison\<close>

record comparison =
  cp_status :: string
  cp_archive :: "row list"
  cp_langfuse :: "row list option"
  cp_expected :: nat
  cp_observed :: nat

record cohort =
  co_spans :: span_index
  co_rows :: "row list"
  co_reference :: int
  co_top :: int

definition trace_of :: "span \<Rightarrow> string" where
  "trace_of s = (case map_of s ''traceId'' of Some (JStr t) \<Rightarrow> t | _ \<Rightarrow> [])"

definition ids_in_trace :: "span_index \<Rightarrow> string \<Rightarrow> string list" where
  "ids_in_trace spans tid = map fst (filter (\<lambda>(i, s, l). trace_of s = tid) spans)"

definition traces_of :: "span_index \<Rightarrow> string list" where
  "traces_of spans = sort (remdups (map (\<lambda>(i, s, l). trace_of s) spans))"

type_synonym trace_read = "string \<times> span dict \<times> string"

fun read_traces ::
  "env \<Rightarrow> (string \<Rightarrow> int option) \<Rightarrow> public_reader \<Rightarrow> seconds \<Rightarrow> string list \<Rightarrow> outside \<Rightarrow>
   ((exn + trace_read list) \<times> outside) option" where
  "read_traces e reference_ns rd deadline [] u = Some (Inr [], u)"
| "read_traces e reference_ns rd deadline (tid # tids) u =
     (case read_trace e reference_ns rd tid deadline u of
        None \<Rightarrow> None
      | Some (Inl x, u1) \<Rightarrow> Some (Inl x, u1)
      | Some (Inr (found, subject), u1) \<Rightarrow>
          (case read_traces e reference_ns rd deadline tids u1 of
             None \<Rightarrow> None
           | Some (Inl x, u2) \<Rightarrow> Some (Inl x, u2)
           | Some (Inr rest, u2) \<Rightarrow> Some (Inr ((tid, found, subject) # rest), u2)))"

definition merged :: "trace_read list \<Rightarrow> span_index" where
  "merged reads = foldl (\<lambda>d (sid, s). AList.update sid (s, ''public observation'') d) []
     (concat (map (\<lambda>(tid, found, subject). found) reads))"

definition all_arrived :: "span_index \<Rightarrow> trace_read list \<Rightarrow> bool" where
  "all_arrived spans reads = list_all (\<lambda>(tid, found, subject). set (ids_in_trace spans tid) \<subseteq> set (map fst found)) reads"

definition same_ids :: "span_index \<Rightarrow> trace_read list \<Rightarrow> bool" where
  "same_ids spans reads = list_all (\<lambda>(tid, found, subject). set (ids_in_trace spans tid) = set (map fst found)) reads"

definition subject_agrees :: "trace_read list \<Rightarrow> span \<Rightarrow> bool" where
  "subject_agrees reads s =
     (case attr s ''cord.subject.id'' of
        None \<Rightarrow> True
      | Some v \<Rightarrow> v = JNull \<or> (case map_of reads (trace_of s) of None \<Rightarrow> False | Some (found, subject) \<Rightarrow> v = JStr subject))"

definition span_agrees :: "trace_read list \<Rightarrow> string \<Rightarrow> span \<Rightarrow> bool" where
  "span_agrees reads sid s =
     ((case map_of (merged reads) sid of None \<Rightarrow> False | Some (o1, l) \<Rightarrow> py_eq (projection s) (projection o1)) \<and>
      subject_agrees reads s)"

datatype round_end = Settled "exn + comparison" | Once_More string nat

definition result_of :: "cohort \<Rightarrow> nat \<Rightarrow> string \<Rightarrow> row list option \<Rightarrow> comparison" where
  "result_of co observed status rows =
     \<lparr>cp_status = status, cp_archive = take (nat (co_top co)) (co_rows co), cp_langfuse = rows,
      cp_expected = length (co_spans co), cp_observed = observed\<rparr>"

definition judge :: "cohort \<Rightarrow> trace_read list \<Rightarrow> round_end" where
  "judge co reads =
     (let actual = merged reads; n = length actual in
      if \<not> all_arrived (co_spans co) reads then Once_More ''timeout'' n
      else
        (case query_spans actual (co_reference co) (int n) of
           Inl x \<Rightarrow> if exn_class x = ArchiveError then Settled (Inr (result_of co n ''mismatch'' None)) else Settled (Inl x)
         | Inr rows \<Rightarrow>
             Settled (Inr (result_of co n
               (if same_ids (co_spans co) reads \<and> list_all (\<lambda>(sid, s, l). span_agrees reads sid s) (co_spans co) \<and>
                   rows = co_rows co then ''match'' else ''mismatch'')
               (Some (take (nat (co_top co)) rows))))))"

definition end_round :: "cohort \<Rightarrow> nat \<Rightarrow> exn + trace_read list \<Rightarrow> round_end" where
  "end_round co observed r =
     (case r of
        Inl x \<Rightarrow>
          if exn_class x = PendingRead then Once_More ''timeout'' observed
          else if exn_class x = ReadError then
            (if exn_msg x = ''unavailable'' then Once_More ''unavailable'' observed
             else Settled (Inr (result_of co observed (exn_msg x) None)))
          else Settled (Inl x)
      | Inr reads \<Rightarrow> judge co reads)"

definition pause_before :: "env \<Rightarrow> seconds \<Rightarrow> seconds \<Rightarrow> outside \<Rightarrow> outside" where
  "pause_before e poll deadline u =
     (case monotonic e u of (t, u') \<Rightarrow> if 0 < deadline - t then sleep (min poll (deadline - t)) u' else u')"

partial_function (option) compare_loop ::
  "env \<Rightarrow> (string \<Rightarrow> int option) \<Rightarrow> public_reader \<Rightarrow> cohort \<Rightarrow> seconds \<Rightarrow> seconds \<Rightarrow> string \<Rightarrow> nat \<Rightarrow> outside \<Rightarrow>
   ((exn + comparison) \<times> outside) option" where
  "compare_loop e reference_ns rd co poll deadline last_status observed u =
     (case monotonic e u of
        (t, u1) \<Rightarrow>
          if \<not> t < deadline then Some (Inr (result_of co observed last_status None), u1)
          else
            (case read_traces e reference_ns rd deadline (traces_of (co_spans co)) u1 of
               None \<Rightarrow> None
             | Some (r, u2) \<Rightarrow>
                 (case end_round co observed r of
                    Settled v \<Rightarrow> Some (v, u2)
                  | Once_More status n \<Rightarrow>
                      compare_loop e reference_ns rd co poll deadline status n (pause_before e poll deadline u2))))"

declare compare_loop.simps [code]

definition cohort_of :: "archive_path list \<Rightarrow> int \<Rightarrow> int \<Rightarrow> exn + cohort" where
  "cohort_of paths reference limit =
     follow (read_spans paths) (\<lambda>expected.
     follow (query_spans expected reference (int (length expected))) (\<lambda>rows.
     require_that (0 < limit) ''top must be a positive integer''
       (Inr \<lparr>co_spans = expected, co_rows = rows, co_reference = reference, co_top = limit\<rparr>)))"

definition compare_archive ::
  "env \<Rightarrow> (string \<Rightarrow> int option) \<Rightarrow> archive_path list \<Rightarrow> public_reader \<Rightarrow> int \<Rightarrow> int \<Rightarrow> seconds \<Rightarrow> seconds \<Rightarrow> outside \<Rightarrow>
   ((exn + comparison) \<times> outside) option" where
  "compare_archive e reference_ns paths rd reference limit wait poll u =
     (if \<not> (0 < wait \<and> 0 < poll) then Some (Inl (Exn PyValueError ''wait and poll must be positive finite seconds''), u)
      else
        (case cohort_of paths reference limit of
           Inl x \<Rightarrow> Some (Inl x, u)
         | Inr co \<Rightarrow>
             (case monotonic e u of
                (t, u') \<Rightarrow> compare_loop e reference_ns rd co poll (t + wait) ''timeout'' 0 u')))"

text \<open>\<^verbatim>\<open>main\<close> after its arguments are parsed: the exit code.\<close>

definition langfuse_main ::
  "env \<Rightarrow> (string \<Rightarrow> int option) \<Rightarrow> (string \<Rightarrow> exn + split_url) \<Rightarrow> string \<Rightarrow> string option \<Rightarrow> string option \<Rightarrow>
   archive_path list \<Rightarrow> int \<Rightarrow> int \<Rightarrow> seconds \<Rightarrow> outside \<Rightarrow> ((exn + int) \<times> outside) option" where
  "langfuse_main e reference_ns urlsplit url public_key secret_key paths reference limit wait u =
     (case new_reader urlsplit url public_key secret_key of
        Inl x \<Rightarrow> Some (if is_value_error (exn_class x) then Inr 2 else Inl x, u)
      | Inr rd \<Rightarrow>
          (case compare_archive e reference_ns paths rd reference limit wait 1 u of
             None \<Rightarrow> None
           | Some (Inl x, u') \<Rightarrow> Some (if is_value_error (exn_class x) then Inr 2 else Inl x, u')
           | Some (Inr c, u') \<Rightarrow> Some (Inr (if cp_status c = ''match'' then 0 else 1), u')))"

end
