(* ===== verification/Langfuse_Facts.thy ===== *)
theory Langfuse_Facts
  imports Langfuse_Query Archive_Health
begin

text \<open>
  The comparison of \<^theory_text>\<open>Langfuse_Query\<close>: it ends, whatever the second store answers; every failure of the
  store is a status; and a match is an agreement of every span and every count.
\<close>

section \<open>The clock\<close>




section \<open>Every run ends\<close>






section \<open>Failures of the store\<close>

text \<open>All that a reader raises.\<close>

definition store_failure :: "exn \<Rightarrow> bool" where
  "store_failure x \<longleftrightarrow> exn_class x = PendingRead \<or>
     exn_class x = ReadError \<and> exn_msg x \<in> {''unavailable'', ''api_error'', ''invalid_response''}"

lemma store_failure_simps [simp]:
  "store_failure (Exn PendingRead m)" "store_failure (Exn ReadError ''unavailable'')" "store_failure (Exn ReadError ''api_error'')"
  "store_failure (Exn ReadError ''invalid_response'')"
  by (simp_all add: store_failure_def)

lemma invalid_Inl [simp]: "invalid_response = Inl x \<longleftrightarrow> x = Exn ReadError ''invalid_response''" "invalid_response \<noteq> Inr v"
  by (auto simp: invalid_response_def)

lemma pending_Inl [simp]: "pending_read = Inl x \<longleftrightarrow> x = Exn PendingRead []" "pending_read \<noteq> Inr v"
  by (auto simp: pending_read_def)

definition row_failure :: "exn \<Rightarrow> bool" where
  "row_failure x \<longleftrightarrow> exn_class x = PendingRead \<or> caught_in_row (exn_class x)"

lemma row_failure_simps [simp]:
  "row_failure (Exn PyKeyError m)" "row_failure (Exn PyTypeError m)" "row_failure (Exn PyAttributeError m)"
  "row_failure (Exn ArchiveError m)" "row_failure (Exn PyValueError m)" "row_failure (Exn PendingRead m)"
  by (simp_all add: row_failure_def caught_in_row_def)

definition fails_as :: "(exn \<Rightarrow> bool) \<Rightarrow> exn + 'a \<Rightarrow> bool" where
  "fails_as P m \<longleftrightarrow> (\<forall>x. m = Inl x \<longrightarrow> P x)"

lemma fails_follow: "fails_as P m \<Longrightarrow> (\<And>v. fails_as P (f v)) \<Longrightarrow> fails_as P (follow m f)"
  by (auto simp: fails_as_def follow_Inl)

lemma fails_require: "fails_as row_failure m \<Longrightarrow> fails_as row_failure (require_that c reason m)"
  by (auto simp: fails_as_def require_that_def archive_error_def)

lemma fails_Inr: "fails_as P (Inr v)"
  by (simp add: fails_as_def)

lemma field_failure: "fails_as row_failure (field j key)"
  by (auto simp: fails_as_def field_def split: json.splits option.splits)

lemma get_attr_failure: "fails_as row_failure (get_attr j key)"
  by (auto simp: fails_as_def get_attr_def split: json.splits)

lemma identifier_failure: "fails_as row_failure (identifier_of v n)"
  by (auto simp: fails_as_def identifier_of_def archive_error_def split: json.splits if_splits)

lemma timestamp_failure: "fails_as row_failure (timestamp v)"
  by (auto simp: fails_as_def timestamp_def require_that_def archive_error_def split: option.splits if_splits)

lemma native_time_failure: "fails_as row_failure (native_time refns j)"
  by (auto simp: fails_as_def native_time_def split: json.splits option.splits)

lemma close_to_failure: "fails_as row_failure (close_to refns v p)"
  unfolding close_to_def by (intro fails_follow native_time_failure fails_require fails_Inr)

lemma parent_id_failure: "fails_as row_failure (parent_id row)"
  unfolding parent_id_def
  by (intro fails_follow get_attr_failure) (auto intro: fails_follow identifier_failure fails_Inr split: option.split)

lemma observed_span_failure: "fails_as row_failure (observed_span refns row attrs metadata)"
  unfolding observed_span_def
  by (intro fails_follow field_failure timestamp_failure fails_require close_to_failure identifier_failure parent_id_failure fails_Inr)

lemma observation_body_failure: "fails_as row_failure (observation_body refns row)"
proof -
  have "fails_as row_failure (case attrs of JObj a \<Rightarrow> follow (get_attr row ''endTime'') (\<lambda>stop.
          if stop = None \<or> stop = Some JNull then pending_read else observed_span refns row a metadata)
      | _ \<Rightarrow> archive_error ''invalid public attributes'')" for attrs metadata
    using observed_span_failure [of refns row _ metadata]
    by (cases attrs) (auto simp: archive_error_def fails_as_def follow_Inl dest: get_attr_failure [unfolded fails_as_def, rule_format])
  then show ?thesis unfolding observation_body_def by (intro fails_follow field_failure)
qed

lemma observation_failure: "observation refns row = Inl x \<Longrightarrow> store_failure x"
  using observation_body_failure [of refns row]
  by (auto simp: observation_def fails_as_def row_failure_def store_failure_def split: sum.splits if_splits)

lemma add_rows_failure: "add_rows refns tid rows found = Inl x \<Longrightarrow> store_failure x"
  by (induction refns tid rows found rule: add_rows.induct)
    (auto simp: follow_Inl dest: observation_failure split: if_splits)

lemma read_page_failure: "read_page refns tid page j found = Inl x \<Longrightarrow> store_failure x"
  by (auto simp: read_page_def follow_Inl dest: add_rows_failure split: option.splits if_splits)

lemma reader_get_failure: "reader_get e rd path params deadline u = (Inl x, u') \<Longrightarrow> store_failure x"
  by (auto simp: reader_get_def http_def split: prod.splits if_splits reply.splits option.splits)

lemma subject_failure: "subject_of tid j = Inl y \<Longrightarrow> store_failure y"
  by (auto simp: subject_of_def split: sum.splits json.splits if_splits)

section \<open>Failures of the query\<close>


definition keyed_parent :: "span \<Rightarrow> bool" where
  "keyed_parent s \<longleftrightarrow> (\<forall>xs d. map_of s ''parentSpanId'' \<noteq> Some (JArr xs) \<and> map_of s ''parentSpanId'' \<noteq> Some (JObj d))"


















section \<open>What is read\<close>

text \<open>The pages of one trace hold distinct ids and spans of that trace only.\<close>

definition of_trace :: "string \<Rightarrow> span dict \<Rightarrow> bool" where
  "of_trace tid found \<longleftrightarrow> (\<forall>(sid, s) \<in> set found. map_of s ''traceId'' = Some (JStr tid) \<and> map_of s ''spanId'' = Some (JStr sid) \<and>
     keyed_parent s)"

lemma parent_id_keyed: "parent_id row = Inr v \<Longrightarrow> v = JNull \<or> (\<exists>i. v = JStr i)"
  by (auto simp: parent_id_def archive_Inr split: option.splits if_splits)

lemma observed_span_ids:
  "observed_span refns row attrs metadata = Inr s \<Longrightarrow> (\<exists>sid. map_of s ''spanId'' = Some (JStr sid)) \<and> keyed_parent s"
  unfolding observed_span_def by (auto simp: archive_Inr keyed_parent_def dest: parent_id_keyed)

lemma observation_ids:
  assumes "observation refns row = Inr s"
  shows "(\<exists>sid. map_of s ''spanId'' = Some (JStr sid)) \<and> keyed_parent s"
proof -
  have "observation_body refns row = Inr s" using assms by (auto simp: observation_def split: sum.splits if_splits)
  then obtain metadata attrs where "(case attrs of JObj a \<Rightarrow> follow (get_attr row ''endTime'') (\<lambda>stop.
          if stop = None \<or> stop = Some JNull then pending_read else observed_span refns row a metadata)
      | _ \<Rightarrow> archive_error ''invalid public attributes'') = Inr s"
    by (auto simp: observation_body_def follow_Inr)
  then show ?thesis using observed_span_ids
    by (cases attrs) (auto simp: archive_error_def follow_Inr split: if_splits)
qed

lemma update_set: "set (AList.update key v d) \<subseteq> insert (key, v) (set d)"
  by (induction d) auto

lemma add_rows_of_trace: "add_rows refns tid rows found = Inr found' \<Longrightarrow> of_trace tid found \<Longrightarrow> of_trace tid found'"
proof (induction refns tid rows found rule: add_rows.induct)
  case (2 refns tid row rows found)
  from 2(2) obtain s where s: "observation refns row = Inr s" "map_of s ''traceId'' = Some (JStr tid)"
    and rest: "add_rows refns tid rows (AList.update (span_id_of s) s found) = Inr found'"
    by (auto simp: archive_Inr split: if_splits)
  obtain sid where sid: "map_of s ''spanId'' = Some (JStr sid)" "keyed_parent s" using observation_ids [OF s(1)] by blast
  then have "span_id_of s = sid" by (simp add: span_id_of_def)
  then have "of_trace tid (AList.update (span_id_of s) s found)"
    using 2(3) s(2) sid update_set [of sid s found] by (auto simp: of_trace_def)
  then show ?case using 2(1) s rest 2(2) by (auto split: if_splits)
qed simp

lemma read_page_of_trace:
  assumes "read_page refns tid page j found = Inr p" "of_trace tid found"
  shows "of_trace tid (case p of Last_Page f \<Rightarrow> f | More_Pages f \<Rightarrow> f)"
proof -
  obtain rows n pages where pg: "page_of j page = Some (rows, n, pages)"
    using assms(1) by (auto simp: read_page_def split: option.splits)
  then obtain f where "add_rows refns tid rows found = Inr f" "p = Last_Page f \<or> p = More_Pages f"
    using assms(1) unfolding read_page_def pg option.case prod.case follow_Inr by (auto split: if_splits)
  then show ?thesis using add_rows_of_trace assms(2) by auto
qed

definition pages_ok :: "string \<Rightarrow> (exn + span dict) \<times> outside \<Rightarrow> bool" where
  "pages_ok tid ru \<longleftrightarrow> (case fst ru of Inl x \<Rightarrow> store_failure x | Inr found \<Rightarrow> of_trace tid found)"

lemma read_pages_keeps:
  assumes "read_pages e refns rd tid deadline page found u = Some ru" "of_trace tid found"
  shows "pages_ok tid ru"
proof -
  have "of_trace tid found \<longrightarrow> pages_ok tid ru"
  proof (rule read_pages.raw_induct [of "\<lambda>e refns rd tid deadline page found u ru. of_trace tid found \<longrightarrow> pages_ok tid ru", OF _ assms(1)])
    fix rp :: "env \<Rightarrow> (string \<Rightarrow> int option) \<Rightarrow> public_reader \<Rightarrow> string \<Rightarrow> seconds \<Rightarrow> int \<Rightarrow> span dict \<Rightarrow> outside \<Rightarrow>
        ((exn + span dict) \<times> outside) option"
      and e refns rd tid deadline page found u ru
    assume IH: "\<And>e refns rd tid deadline page found u ru.
        rp e refns rd tid deadline page found u = Some ru \<Longrightarrow> of_trace tid found \<longrightarrow> pages_ok tid ru"
      and body: "(case reader_get e rd ''observations'' (page_params tid page) deadline u of
          (Inl x, u1) \<Rightarrow> Some (Inl x, u1)
        | (Inr j, u1) \<Rightarrow>
            (case read_page refns tid page j found of
               Inl x \<Rightarrow> Some (Inl x, u1)
             | Inr (Last_Page found') \<Rightarrow> Some (Inr found', u1)
             | Inr (More_Pages found') \<Rightarrow> rp e refns rd tid deadline (page + 1) found' u1)) = Some ru"
    show "of_trace tid found \<longrightarrow> pages_ok tid ru"
    proof
      assume ok: "of_trace tid found"
      obtain r u1 where g: "reader_get e rd ''observations'' (page_params tid page) deadline u = (r, u1)" by fastforce
      show "pages_ok tid ru"
      proof (cases r)
        case (Inl x)
        then show ?thesis using body g reader_get_failure by (auto simp: pages_ok_def)
      next
        case (Inr j)
        note j = this
        show ?thesis
        proof (cases "read_page refns tid page j found")
          case (Inl x)
          then show ?thesis using body g j read_page_failure by (auto simp: pages_ok_def)
        next
          case (Inr p)
          then show ?thesis using body g j IH read_page_of_trace [OF Inr ok] by (cases p) (auto simp: pages_ok_def)
        qed
      qed
    qed
  qed
  then show ?thesis using assms(2) by simp
qed

lemma read_trace_keeps:
  assumes "read_trace e refns rd tid deadline u = Some (r, u')"
  shows "case r of Inl x \<Rightarrow> store_failure x | Inr (found, subject) \<Rightarrow> of_trace tid found"
proof -
  obtain rp u1 where p: "read_pages e refns rd tid deadline 1 [] u = Some (rp, u1)"
    using assms by (cases "read_pages e refns rd tid deadline 1 [] u") (auto simp: read_trace_def)
  have ok: "pages_ok tid (rp, u1)" using read_pages_keeps [OF p] by (simp add: of_trace_def)
  show ?thesis
  proof (cases rp)
    case (Inl x)
    then show ?thesis using assms p ok by (auto simp: read_trace_def pages_ok_def)
  next
    case (Inr found)
    obtain r2 u2 where g: "reader_get e rd (''traces/'' @ tid) [] deadline u1 = (r2, u2)" by fastforce
    have "store_failure x" if "r2 = Inl x" for x using reader_get_failure g that by blast
    then show ?thesis using assms p ok Inr g subject_failure
      by (cases r2) (auto simp: read_trace_def pages_ok_def follow_def split: if_splits sum.splits)
  qed
qed

text \<open>One read of all traces: each of them once, in order, each with spans of its own.\<close>

lemma read_traces_keeps:
  "read_traces e refns rd deadline tids u = Some (r, u') \<Longrightarrow>
   (case r of Inl x \<Rightarrow> store_failure x
    | Inr reads \<Rightarrow> map fst reads = tids \<and> (\<forall>(tid, found, subject) \<in> set reads. of_trace tid found))"
proof (induction tids arbitrary: u r u')
  case (Cons tid tids)
  obtain r1 u1 where t: "read_trace e refns rd tid deadline u = Some (r1, u1)"
    using Cons.prems by (cases "read_trace e refns rd tid deadline u") auto
  note ok = read_trace_keeps [OF t]
  show ?case
  proof (cases r1)
    case (Inl x)
    then show ?thesis using Cons.prems t ok by auto
  next
    case (Inr fs)
    obtain found subject where fs: "fs = (found, subject)" by fastforce
    obtain r2 u2 where rest: "read_traces e refns rd deadline tids u1 = Some (r2, u2)"
      using Cons.prems t Inr fs by (cases "read_traces e refns rd deadline tids u1") auto
    show ?thesis using Cons.prems t ok Inr fs rest Cons.IH [OF rest] by (cases r2) auto
  qed
qed auto

section \<open>What a verdict rests on\<close>

definition read_by :: "env \<Rightarrow> (string \<Rightarrow> int option) \<Rightarrow> public_reader \<Rightarrow> cohort \<Rightarrow> trace_read list \<Rightarrow> bool" where
  "read_by e refns rd co reads \<longleftrightarrow> (\<exists>deadline u1 u2. read_traces e refns rd deadline (traces_of (co_spans co)) u1 = Some (Inr reads, u2))"

definition decided :: "env \<Rightarrow> (string \<Rightarrow> int option) \<Rightarrow> public_reader \<Rightarrow> cohort \<Rightarrow> exn + comparison \<Rightarrow> bool" where
  "decided e refns rd co v \<longleftrightarrow>
     (\<exists>c. v = Inr c \<and> cp_status c \<in> {''timeout'', ''unavailable'', ''api_error'', ''invalid_response''}) \<or>
     (\<exists>reads. read_by e refns rd co reads \<and> judge co reads = Settled v)"

lemma end_round_cases:
  assumes "read_traces e refns rd deadline (traces_of (co_spans co)) u1 = Some (r, u2)"
  shows "case end_round co observed r of Settled v \<Rightarrow> decided e refns rd co v
    | Once_More status n \<Rightarrow> status \<in> {''timeout'', ''unavailable''}"
proof (cases r)
  case (Inl x)
  then have "store_failure x" using read_traces_keeps [OF assms] by simp
  then show ?thesis using Inl by (auto simp: end_round_def decided_def store_failure_def result_of_def)
next
  case (Inr reads)
  then have "read_by e refns rd co reads" using assms by (auto simp: read_by_def)
  then have "decided e refns rd co v" if "judge co reads = Settled v" for v using that by (auto simp: decided_def)
  moreover have "status = ''timeout''" if "judge co reads = Once_More status n" for status n
    using that by (auto simp: judge_def Let_def split: if_splits sum.splits)
  ultimately show ?thesis using Inr by (auto simp: end_round_def split: round_end.split)
qed

lemma compare_loop_decided:
  assumes "compare_loop e refns rd co poll deadline st1 observed u = Some out" "st1 \<in> {''timeout'', ''unavailable''}"
  shows "decided e refns rd co (fst out)"
proof -
  have "st1 \<in> {''timeout'', ''unavailable''} \<longrightarrow> decided e refns rd co (fst out)"
  proof (rule compare_loop.raw_induct [of "\<lambda>e refns rd co poll deadline st1 observed u out.
      st1 \<in> {''timeout'', ''unavailable''} \<longrightarrow> decided e refns rd co (fst out)", OF _ assms(1)])
    fix cl :: "env \<Rightarrow> (string \<Rightarrow> int option) \<Rightarrow> public_reader \<Rightarrow> cohort \<Rightarrow> seconds \<Rightarrow> seconds \<Rightarrow> string \<Rightarrow> nat \<Rightarrow> outside \<Rightarrow>
        ((exn + comparison) \<times> outside) option"
      and e refns rd co poll deadline st1 observed u out
    assume IH: "\<And>e refns rd co poll deadline st1 observed u out.
        cl e refns rd co poll deadline st1 observed u = Some out \<Longrightarrow>
        st1 \<in> {''timeout'', ''unavailable''} \<longrightarrow> decided e refns rd co (fst out)"
      and body: "(case monotonic e u of
        (t, u1) \<Rightarrow>
          if \<not> t < deadline then Some (Inr (result_of co observed st1 None), u1)
          else
            (case read_traces e refns rd deadline (traces_of (co_spans co)) u1 of
               None \<Rightarrow> None
             | Some (r, u2) \<Rightarrow>
                 (case end_round co observed r of
                    Settled v \<Rightarrow> Some (v, u2)
                  | Once_More status n \<Rightarrow> cl e refns rd co poll deadline status n (pause_before e poll deadline u2)))) = Some out"
    show "st1 \<in> {''timeout'', ''unavailable''} \<longrightarrow> decided e refns rd co (fst out)"
    proof
      assume st: "st1 \<in> {''timeout'', ''unavailable''}"
      obtain t u1 where m: "monotonic e u = (t, u1)" by fastforce
      show "decided e refns rd co (fst out)"
      proof (cases "t < deadline")
        case False
        then have "out = (Inr (result_of co observed st1 None), u1)" using body m by simp
        then show ?thesis using st by (auto simp: decided_def result_of_def)
      next
        case True
        then obtain r u2 where r: "read_traces e refns rd deadline (traces_of (co_spans co)) u1 = Some (r, u2)"
          using body m by (cases "read_traces e refns rd deadline (traces_of (co_spans co)) u1") auto
        note round = end_round_cases [OF r, of observed]
        show ?thesis
        proof (cases "end_round co observed r")
          case (Settled v)
          then show ?thesis using body m True r round by (auto simp: Settled)
        next
          case (Once_More status n)
          then have "cl e refns rd co poll deadline status n (pause_before e poll deadline u2) = Some out"
            using body m True r by simp
          then have "status \<in> {''timeout'', ''unavailable''} \<longrightarrow> decided e refns rd co (fst out)" by (rule IH)
          then show ?thesis using round by (simp only: Once_More round_end.case simp_thms)
        qed
      qed
    qed
  qed
  then show ?thesis using assms(2) by (rule mp)
qed

lemma compare_archive_decided:
  assumes "compare_archive e refns paths rd reference limit wait poll u = Some (Inr c, u')"
  shows "\<exists>co. cohort_of paths reference limit = Inr co \<and> decided e refns rd co (Inr c)"
proof -
  obtain co where co: "cohort_of paths reference limit = Inr co"
    using assms by (auto simp: compare_archive_def split: if_splits sum.splits)
  obtain t u1 where m: "monotonic e u = (t, u1)" by fastforce
  have "compare_loop e refns rd co poll (t + wait) ''timeout'' 0 u1 = Some (Inr c, u')"
    using assms co m by (simp add: compare_archive_def split: if_splits)
  then have "decided e refns rd co (fst (Inr c :: exn + comparison, u'))" by (rule compare_loop_decided) simp
  then show ?thesis using co by simp
qed

lemma judged:
  assumes "judge co reads = Settled (Inr c)"
  shows "all_arrived (co_spans co) reads" "cp_status c \<in> {''match'', ''mismatch''}"
    "cp_status c = ''match'' \<Longrightarrow> same_ids (co_spans co) reads \<and> list_all (\<lambda>(sid, s, l). span_agrees reads sid s) (co_spans co) \<and>
       query_spans (merged reads) (co_reference co) (int (length (merged reads))) = Inr (co_rows co) \<and>
       cp_archive c = take (nat (co_top co)) (co_rows co) \<and> cp_langfuse c = Some (take (nat (co_top co)) (co_rows co))"
  using assms by (auto simp: judge_def Let_def result_of_def split: if_splits sum.splits)

section \<open>Merged reads and projections\<close>




lemma foldl_update_mem:
  "map_of (foldl (\<lambda>d (sid, s). AList.update sid (s, c) d) d xs) k = Some (o1, l) \<Longrightarrow> map_of d k = Some (o1, l) \<or> (k, o1) \<in> set xs"
  by (induction xs arbitrary: d) (fastforce simp: update_conv' split: if_splits)+

lemma merged_mem: "map_of (merged reads) sid = Some (o1, l) \<Longrightarrow> \<exists>tid found subject. (tid, found, subject) \<in> set reads \<and> (sid, o1) \<in> set found"
  unfolding merged_def by (drule foldl_update_mem) auto

lemma projection_trace:
  assumes "py_eq (projection s) (projection s')" "map_of s ''traceId'' = Some (JStr t)" "map_of s' ''traceId'' = Some (JStr t')"
  shows "t = t'"
proof -
  have "py_eq (or_none (Some (JStr t))) (or_none (Some (JStr t')))"
    using assms(1) by (simp add: projection_def PROJECTED_def assms(2,3))
  then show ?thesis by (auto simp: or_none_def split: if_splits)
qed

section \<open>A store\<close>

definition demo_row :: "string \<Rightarrow> json" where
  "demo_row name = JObj [(''id'', JStr ''00000000000000ab''), (''traceId'', JStr ''000000000000000000000000000000ab''), (''name'', JStr name),
     (''startTime'', JStr ''t''), (''endTime'', JStr ''t''),
     (''metadata'', JObj [(''cordboard'', JObj []), (''cord_start_ns'', JInt 5), (''cord_end_ns'', JStr ''9'')])]"

definition demo_store :: "json \<Rightarrow> env" where
  "demo_store row = \<lparr>server = (\<lambda>_ r. if starts_with ''http://l/api/public/traces/'' (req_url r)
       then Reply 200 (Some (JObj [(''id'', JStr ''000000000000000000000000000000ab''), (''sessionId'', JStr ''s'')]))
       else Reply 200 (Some (JObj [(''data'', JArr [row]),
         (''meta'', JObj [(''totalItems'', JInt 1), (''totalPages'', JInt 1), (''page'', JInt 1)])]))),
     start_process = (\<lambda>_ _ _. Inr 1), clock_drift = (\<lambda>_. 1), format_number = (\<lambda>_. [])\<rparr>"

definition demo_reader :: public_reader where "demo_reader = \<lparr>pr_url = ''http://l'', pr_auth = (''k'', ''s'')\<rparr>"

definition demo_compare :: "json \<Rightarrow> ((exn + comparison) \<times> outside) option" where
  "demo_compare row = compare_archive (demo_store row) (\<lambda>_. Some 5) [File_Path one_span_file] demo_reader 20 10 60 1
     \<lparr>trace = [], mono_now = 0, clock_reads = 0\<rparr>"

lemma demo_matches: "map_option (\<lambda>(v, u). v) (demo_compare (demo_row [])) =
    Some (Inr \<lparr>cp_status = ''match'', cp_archive = [], cp_langfuse = Some [], cp_expected = 1, cp_observed = 1\<rparr>)"
  by code_simp

lemma demo_differs: "map_option (\<lambda>(v, u). v) (demo_compare (demo_row ''x'')) =
    Some (Inr \<lparr>cp_status = ''mismatch'', cp_archive = [], cp_langfuse = Some [], cp_expected = 1, cp_observed = 1\<rparr>)"
  by code_simp

lemma demo_traces: "traces_of [(''00000000000000ab'', (one_span, l))] = [''000000000000000000000000000000ab'']"
  by (simp add: traces_of_def trace_of_def one_span_def)

section \<open>Properties\<close>

text \<open>
  C15. A match is an agreement: one complete read of every trace of the archive gave exactly the archive's spans,
  each in its own trace with the same projection and the same Subject, and the escalation counts computed
  from what was read, all of them and not only the rows shown, are the archive's.
\<close>

theorem match_is_agreement:
  assumes "compare_archive e refns paths rd reference limit wait poll u = Some (Inr c, u')" "cp_status c = ''match''"
  shows "\<exists>spans reads rows deadline u1 u2. read_spans paths = Inr spans \<and>
    read_traces e refns rd deadline (traces_of spans) u1 = Some (Inr reads, u2) \<and> map fst reads = traces_of spans \<and>
    (\<forall>(tid, found, subject) \<in> set reads. set (map fst found) = set (ids_in_trace spans tid)) \<and>
    (\<forall>(sid, s, l) \<in> set spans. \<exists>found subject o1. (trace_of s, found, subject) \<in> set reads \<and> (sid, o1) \<in> set found \<and>
       py_eq (projection s) (projection o1) \<and>
       attr s ''cord.subject.id'' \<in> {None, Some JNull, Some (JStr subject)}) \<and>
    query_spans spans reference (int (length spans)) = Inr rows \<and>
    query_spans (merged reads) reference (int (length (merged reads))) = Inr rows \<and>
    cp_archive c = take (nat limit) rows \<and> cp_langfuse c = Some (take (nat limit) rows)"
proof -
  obtain co where co: "cohort_of paths reference limit = Inr co" and d: "decided e refns rd co (Inr c)"
    using compare_archive_decided [OF assms(1)] by blast
  then obtain reads where rb: "read_by e refns rd co reads" and j: "judge co reads = Settled (Inr c)"
    using assms(2) by (auto simp: decided_def)
  have spans: "read_spans paths = Inr (co_spans co)" "query_spans (co_spans co) reference (int (length (co_spans co))) = Inr (co_rows co)"
    "co_reference co = reference" "co_top co = limit"
    using co by (auto simp: cohort_of_def archive_Inr)
  obtain deadline u1 u2 where r: "read_traces e refns rd deadline (traces_of (co_spans co)) u1 = Some (Inr reads, u2)"
    using rb by (auto simp: read_by_def)
  have reads: "map fst reads = traces_of (co_spans co)" "\<forall>(tid, found, subject) \<in> set reads. of_trace tid found"
    using read_traces_keeps [OF r] by simp_all
  then have unique: "distinct (map fst reads)" by (simp add: traces_of_def)
  note same = judged(3) [OF j assms(2)]
  have agree: "\<exists>found subject o1. (trace_of s, found, subject) \<in> set reads \<and> (sid, o1) \<in> set found \<and>
       py_eq (projection s) (projection o1) \<and> attr s ''cord.subject.id'' \<in> {None, Some JNull, Some (JStr subject)}"
    if mem: "(sid, s, l) \<in> set (co_spans co)" for sid s l
  proof -
    have "span_agrees reads sid s" using same mem by (fastforce simp: list_all_iff)
    then obtain o1 l1 where o1: "map_of (merged reads) sid = Some (o1, l1)" "py_eq (projection s) (projection o1)" and subj: "subject_agrees reads s"
      by (auto simp: span_agrees_def split: option.splits)
    obtain tid found subject where f: "(tid, found, subject) \<in> set reads" "(sid, o1) \<in> set found" using merged_mem [OF o1(1)] by blast
    then have "map_of o1 ''traceId'' = Some (JStr tid)" using reads(2) by (auto simp: of_trace_def)
    moreover obtain t where t: "map_of s ''traceId'' = Some (JStr t)"
      using read_spans_ok [OF spans(1)] mem by (auto simp: index_ok_def normal_span_def)
    ultimately have "t = tid" using projection_trace o1(2) by blast
    then have here: "trace_of s = tid" using t by (simp add: trace_of_def)
    have "map_of reads tid = Some (found, subject)" using f(1) unique by (simp add: map_of_is_SomeI)
    then have "attr s ''cord.subject.id'' \<in> {None, Some JNull, Some (JStr subject)}"
      using subj here by (auto simp: subject_agrees_def split: option.splits)
    then show ?thesis using f o1(2) here by blast
  qed
  have ids: "\<forall>(tid, found, subject) \<in> set reads. set (map fst found) = set (ids_in_trace (co_spans co) tid)"
    using same unfolding same_ids_def list_all_iff by fastforce
  show ?thesis
    by (intro exI [of _ "co_spans co"] exI [of _ reads] exI [of _ "co_rows co"] exI [of _ deadline] exI [of _ u1] exI [of _ u2] conjI)
      (use spans r reads(1) ids agree same in auto)
qed

theorem match_is_agreement_witness:
  "\<exists>reads deadline u1 u2. read_traces (demo_store (demo_row [])) (\<lambda>_. Some 5) demo_reader deadline
     [''000000000000000000000000000000ab''] u1 = Some (Inr reads, u2) \<and>
     (\<exists>found subject o1. (''000000000000000000000000000000ab'', found, subject) \<in> set reads \<and>
        (''00000000000000ab'', o1) \<in> set found \<and> py_eq (projection one_span) (projection o1))"
proof -
  obtain u' where "demo_compare (demo_row []) =
      Some (Inr \<lparr>cp_status = ''match'', cp_archive = [], cp_langfuse = Some [], cp_expected = 1, cp_observed = 1\<rparr>, u')"
    using demo_matches by (cases "demo_compare (demo_row [])") auto
  from match_is_agreement [OF this [unfolded demo_compare_def]] obtain spans reads deadline u1 u2 where
    spans: "read_spans [File_Path one_span_file] = Inr spans"
    and r: "read_traces (demo_store (demo_row [])) (\<lambda>_. Some 5) demo_reader deadline (traces_of spans) u1 = Some (Inr reads, u2)"
    and ids: "\<forall>(sid, s, l) \<in> set spans. \<exists>found subject o1. (trace_of s, found, subject) \<in> set reads \<and> (sid, o1) \<in> set found \<and>
       py_eq (projection s) (projection o1) \<and> attr s ''cord.subject.id'' \<in> {None, Some JNull, Some (JStr subject)}"
    by auto
  have "spans = [(''00000000000000ab'', (one_span, ''file 1, line 1''))]" using spans by (simp add: one_span_read)
  moreover have "trace_of one_span = ''000000000000000000000000000000ab''" by (simp add: trace_of_def one_span_def)
  ultimately show ?thesis using r ids
    by (intro exI [of _ reads] exI [of _ deadline] exI [of _ u1] exI [of _ u2] conjI) (simp add: demo_traces, auto)
qed



text \<open>
  A mismatch is no delay: the verdict is given only when every span of the archive has arrived.
\<close>

theorem mismatch_is_no_delay:
  assumes "compare_archive e refns paths rd reference limit wait poll u = Some (Inr c, u')" "cp_status c = ''mismatch''"
  shows "\<exists>spans reads deadline u1 u2. read_spans paths = Inr spans \<and>
    read_traces e refns rd deadline (traces_of spans) u1 = Some (Inr reads, u2) \<and> map fst reads = traces_of spans \<and>
    (\<forall>(tid, found, subject) \<in> set reads. set (ids_in_trace spans tid) \<subseteq> set (map fst found))"
proof -
  obtain co where co: "cohort_of paths reference limit = Inr co" and d: "decided e refns rd co (Inr c)"
    using compare_archive_decided [OF assms(1)] by blast
  then obtain reads where rb: "read_by e refns rd co reads" and j: "judge co reads = Settled (Inr c)"
    using assms(2) by (auto simp: decided_def)
  have "read_spans paths = Inr (co_spans co)" using co by (auto simp: cohort_of_def archive_Inr)
  moreover obtain deadline u1 u2 where r: "read_traces e refns rd deadline (traces_of (co_spans co)) u1 = Some (Inr reads, u2)"
    using rb by (auto simp: read_by_def)
  moreover have "map fst reads = traces_of (co_spans co)" using read_traces_keeps [OF r] by simp
  moreover have "\<forall>(tid, found, subject) \<in> set reads. set (ids_in_trace (co_spans co) tid) \<subseteq> set (map fst found)"
    using judged(1) [OF j] by (auto simp: all_arrived_def list_all_iff)
  ultimately show ?thesis by blast
qed

theorem mismatch_is_no_delay_witness:
  "\<exists>reads deadline u1 u2. read_traces (demo_store (demo_row ''x'')) (\<lambda>_. Some 5) demo_reader deadline
     [''000000000000000000000000000000ab''] u1 = Some (Inr reads, u2)"
proof -
  obtain u' where "demo_compare (demo_row ''x'') =
      Some (Inr \<lparr>cp_status = ''mismatch'', cp_archive = [], cp_langfuse = Some [], cp_expected = 1, cp_observed = 1\<rparr>, u')"
    using demo_differs by (cases "demo_compare (demo_row ''x'')") auto
  from mismatch_is_no_delay [OF this [unfolded demo_compare_def]] obtain spans reads deadline u1 u2 where
    spans: "read_spans [File_Path one_span_file] = Inr spans"
    and r: "read_traces (demo_store (demo_row ''x'')) (\<lambda>_. Some 5) demo_reader deadline (traces_of spans) u1 = Some (Inr reads, u2)"
    by auto
  have "spans = [(''00000000000000ab'', (one_span, ''file 1, line 1''))]" using spans by (simp add: one_span_read)
  then show ?thesis using r by (auto simp: demo_traces)
qed

end
