(* ===== verification/Telemetry_Export.thy ===== *)
theory Telemetry_Export
  imports Prelude "HOL-Library.AList"
begin

text \<open>
  \<^verbatim>\<open>telemetry.py\<close>: every span is copied into a request of its own, all its text is scanned, and what
  passes is exported over HTTP; what does not is left out.

  A protobuf message is its present fields by name, in the order of \<^verbatim>\<open>ListFields\<close>. The scanner and its
  rules, the UTF-8 codec, the encoder of the SDK's spans and the Collector are parameters.
\<close>

section \<open>Messages\<close>

type_synonym bytes = "nat list"

datatype message = Message (fields_of: "(string \<times> field) list")
and field =
    One message
  | Many "message list"
  | Text string
  | Texts "string list"
  | Bytes bytes
  | Other int

definition parts :: "message \<Rightarrow> string \<Rightarrow> message list" where
  "parts m name = (case map_of (fields_of m) name of Some (Many ms) \<Rightarrow> ms | _ \<Rightarrow> [])"

definition with_parts :: "message \<Rightarrow> string \<Rightarrow> message list \<Rightarrow> message" where
  "with_parts m name ms = Message (AList.update name (Many ms) (fields_of m))"

definition key_is :: "string \<Rightarrow> message \<Rightarrow> bool" where
  "key_is key m = (map_of (fields_of m) ''key'' = Some (Text key))"

section \<open>Scanning\<close>

record finding =
  action :: string

record scan_result =
  redacted :: string
  found_in :: "finding list"

text \<open>\<open>None\<close> stands for an exception.\<close>

record scanner =
  scan_and_redact :: "string \<Rightarrow> scan_result option"
  decode_utf8 :: "bytes \<Rightarrow> string option"
  encode_utf8 :: "string \<Rightarrow> bytes"

text \<open>The two ways a span is suppressed: \<^verbatim>\<open>BlockedSpan\<close>, and any other exception.\<close>

datatype suppressed = Blocked_Span | Processing_Error

definition scan_text :: "scanner \<Rightarrow> string \<Rightarrow> suppressed + string" where
  "scan_text sc value =
     (case scan_and_redact sc value of
        None \<Rightarrow> Inl Processing_Error
      | Some r \<Rightarrow> if list_ex (\<lambda>f. action f = ''block'') (found_in r) then Inl Blocked_Span else Inr (redacted r))"

definition binding :: "suppressed + 'a \<Rightarrow> ('a \<Rightarrow> suppressed + 'b) \<Rightarrow> suppressed + 'b" where
  "binding m f = (case m of Inl x \<Rightarrow> Inl x | Inr v \<Rightarrow> f v)"

lemma binding_cong [fundef_cong]: "m = m' \<Longrightarrow> (\<And>v. m' = Inr v \<Longrightarrow> f v = g v) \<Longrightarrow> binding m f = binding m' g"
  by (cases m) (auto simp: binding_def)

text \<open>
  \<^verbatim>\<open>_sanitize\<close>. A repeated string field cannot be assigned to: after its scan, if it gets there, an exception.
\<close>

fun sanitize :: "scanner \<Rightarrow> message \<Rightarrow> suppressed + message"
and sanitize_fields :: "scanner \<Rightarrow> (string \<times> field) list \<Rightarrow> suppressed + (string \<times> field) list"
and sanitize_field :: "scanner \<Rightarrow> string \<Rightarrow> field \<Rightarrow> suppressed + field"
and sanitize_all :: "scanner \<Rightarrow> message list \<Rightarrow> suppressed + message list" where
  "sanitize sc (Message fs) = binding (sanitize_fields sc fs) (\<lambda>fs'. Inr (Message fs'))"
| "sanitize_fields sc [] = Inr []"
| "sanitize_fields sc ((name, f) # fs) =
     binding (sanitize_field sc name f) (\<lambda>f'. binding (sanitize_fields sc fs) (\<lambda>fs'. Inr ((name, f') # fs')))"
| "sanitize_field sc name (One m) = binding (sanitize sc m) (\<lambda>m'. Inr (One m'))"
| "sanitize_field sc name (Many ms) = binding (sanitize_all sc ms) (\<lambda>ms'. Inr (Many ms'))"
| "sanitize_field sc name (Text s) = binding (scan_text sc s) (\<lambda>s'. Inr (Text s'))"
| "sanitize_field sc name (Texts ss) = Inl Processing_Error"
| "sanitize_field sc name (Bytes b) =
     (if name = ''bytes_value'' then
        (case decode_utf8 sc b of
           None \<Rightarrow> Inl Processing_Error
         | Some s \<Rightarrow> binding (scan_text sc s) (\<lambda>s'. Inr (Bytes (encode_utf8 sc s'))))
      else Inr (Bytes b))"
| "sanitize_field sc name (Other i) = Inr (Other i)"
| "sanitize_all sc [] = Inr []"
| "sanitize_all sc (m # ms) = binding (sanitize sc m) (\<lambda>m'. binding (sanitize_all sc ms) (\<lambda>ms'. Inr (m' # ms')))"

section \<open>The redacted request\<close>

definition STAMP :: string where "STAMP = ''cord.redacted''"

definition stamp :: message where
  "stamp = Message [(''key'', Text STAMP), (''value'', One (Message [(''bool_value'', Other 1)]))]"

definition unstamped :: "message \<Rightarrow> message" where
  "unstamped sp =
     (if list_ex (key_is STAMP) (parts sp ''attributes'')
      then with_parts sp ''attributes'' (filter (\<lambda>a. \<not> key_is STAMP a) (parts sp ''attributes''))
      else sp)"

definition stamped :: "message \<Rightarrow> message" where
  "stamped sp = with_parts sp ''attributes'' (parts sp ''attributes'' @ [stamp])"

text \<open>The candidate: one span in copies of its resource and its scope.\<close>

definition candidate :: "message \<Rightarrow> message \<Rightarrow> message \<Rightarrow> message" where
  "candidate resource scope sp =
     with_parts resource ''scope_spans'' [with_parts scope ''spans'' [unstamped sp]]"

text \<open>The stamp goes onto the span inside the sanitized candidate.\<close>

definition stamp_candidate :: "message \<Rightarrow> message" where
  "stamp_candidate resource =
     with_parts resource ''scope_spans'' (map (\<lambda>scope.
       with_parts scope ''spans'' (map stamped (parts scope ''spans''))) (parts resource ''scope_spans''))"

definition accept :: "scanner \<Rightarrow> message \<Rightarrow> message \<Rightarrow> message \<Rightarrow> suppressed + message" where
  "accept sc resource scope sp = binding (sanitize sc (candidate resource scope sp)) (\<lambda>m. Inr (stamp_candidate m))"

definition warning_of :: "suppressed \<Rightarrow> string" where
  "warning_of x = (case x of
     Blocked_Span \<Rightarrow> ''telemetry span suppressed: block finding''
   | Processing_Error \<Rightarrow> ''telemetry span suppressed: processing failed'')"

text \<open>The spans of a request with the resource and the scope of each, in order.\<close>

definition spans_of :: "message \<Rightarrow> (message \<times> message \<times> message) list" where
  "spans_of request =
     concat (map (\<lambda>resource. concat (map (\<lambda>scope. map (\<lambda>sp. (resource, scope, sp)) (parts scope ''spans''))
       (parts resource ''scope_spans''))) (parts request ''resource_spans''))"

fun redact_spans :: "scanner \<Rightarrow> (message \<times> message \<times> message) list \<Rightarrow> message list \<times> string list" where
  "redact_spans sc [] = ([], [])"
| "redact_spans sc ((resource, scope, sp) # rest) =
     (case redact_spans sc rest of
        (accepted, warnings) \<Rightarrow>
          (case accept sc resource scope sp of
             Inl x \<Rightarrow> (accepted, warning_of x # warnings)
           | Inr m \<Rightarrow> (m # accepted, warnings)))"

definition redact_request :: "scanner \<Rightarrow> message \<Rightarrow> message list \<times> string list" where
  "redact_request sc request = redact_spans sc (spans_of request)"

section \<open>Export\<close>

datatype reason = UNREACHABLE | HTTP_ERROR | REJECTED_SPANS | PROCESSING_FAILED

definition reason_text :: "reason \<Rightarrow> string" where
  "reason_text r = (case r of UNREACHABLE \<Rightarrow> ''unreachable'' | HTTP_ERROR \<Rightarrow> ''http_error''
     | REJECTED_SPANS \<Rightarrow> ''rejected_spans'' | PROCESSING_FAILED \<Rightarrow> ''processing_failed'')"

record export_outcome =
  delivered :: bool
  why :: "reason option"
  rejected_spans :: "int option"

datatype export_result = SUCCESS | FAILURE

text \<open>A \<^verbatim>\<open>RequestException\<close>, another exception, or the status and the body, decoded when it can be.\<close>

datatype collector_reply = Unreachable | Post_Raised | Answer int "int option"

text \<open>
  The encoder (\<open>None\<close> when it raises), what leaves the process, latest first, and the Collector's answers.
\<close>

record exporter =
  endpoint :: string
  last_export :: "export_outcome option"
  posted :: "(string \<times> message list) list"
  warned :: "string list"

definition failed :: "reason \<Rightarrow> int option \<Rightarrow> exporter \<Rightarrow> export_result \<times> exporter" where
  "failed r n x = (FAILURE, x\<lparr>last_export := Some \<lparr>delivered = False, why = Some r, rejected_spans = n\<rparr>,
     warned := (''telemetry export failed: '' @ reason_text r) # warned x\<rparr>)"

definition succeeded :: "exporter \<Rightarrow> export_result \<times> exporter" where
  "succeeded x = (SUCCESS, x\<lparr>last_export := Some \<lparr>delivered = True, why = None, rejected_spans = None\<rparr>\<rparr>)"

definition answered :: "collector_reply \<Rightarrow> exporter \<Rightarrow> export_result \<times> exporter" where
  "answered reply x =
     (case reply of
        Unreachable \<Rightarrow> failed UNREACHABLE None x
      | Post_Raised \<Rightarrow> failed PROCESSING_FAILED None x
      | Answer status body \<Rightarrow>
          if status \<noteq> 200 then failed HTTP_ERROR None x
          else
            (case body of
               None \<Rightarrow> failed PROCESSING_FAILED None x
             | Some n \<Rightarrow> if n \<noteq> 0 then failed REJECTED_SPANS (Some n) x else succeeded x))"

definition export_spans ::
  "scanner \<Rightarrow> ('s list \<Rightarrow> message option) \<Rightarrow> (string \<Rightarrow> message list \<Rightarrow> collector_reply) \<Rightarrow> 's list \<Rightarrow> exporter \<Rightarrow>
   export_result \<times> exporter" where
  "export_spans sc encode_spans collector spans x =
     (case encode_spans spans of
        None \<Rightarrow> failed PROCESSING_FAILED None x
      | Some request \<Rightarrow>
          (case redact_request sc request of
             (safe, warnings) \<Rightarrow>
               (let x' = x\<lparr>warned := rev warnings @ warned x\<rparr> in
                if safe = [] then succeeded x'
                else answered (collector (endpoint x) safe) (x'\<lparr>posted := (endpoint x, safe) # posted x\<rparr>))))"

section \<open>What sanitizing does\<close>

text \<open>Every text of a message and the bytes of its values are in order; the other bytes are opaque ids.\<close>

fun holds_only :: "(string \<Rightarrow> bool) \<Rightarrow> (bytes \<Rightarrow> bool) \<Rightarrow> message \<Rightarrow> bool"
and field_holds :: "(string \<Rightarrow> bool) \<Rightarrow> (bytes \<Rightarrow> bool) \<Rightarrow> string \<Rightarrow> field \<Rightarrow> bool" where
  "holds_only P B (Message fs) = (\<forall>(name, f) \<in> set fs. field_holds P B name f)"
| "field_holds P B name (One m) = holds_only P B m"
| "field_holds P B name (Many ms) = (\<forall>m \<in> set ms. holds_only P B m)"
| "field_holds P B name (Text s) = P s"
| "field_holds P B name (Texts ss) = False"
| "field_holds P B name (Bytes b) = (name = ''bytes_value'' \<longrightarrow> B b)"
| "field_holds P B name (Other i) = True"

definition scanned :: "scanner \<Rightarrow> string \<Rightarrow> bool" where
  "scanned sc s \<longleftrightarrow> (\<exists>v r. scan_and_redact sc v = Some r \<and> (\<forall>f \<in> set (found_in r). action f \<noteq> ''block'') \<and> s = redacted r)"

definition scanned_bytes :: "scanner \<Rightarrow> bytes \<Rightarrow> bool" where
  "scanned_bytes sc b \<longleftrightarrow> (\<exists>s. scanned sc s \<and> b = encode_utf8 sc s)"

definition passes_text :: "scanner \<Rightarrow> string \<Rightarrow> bool" where
  "passes_text sc s \<longleftrightarrow> (\<exists>r. scan_and_redact sc s = Some r \<and> (\<forall>f \<in> set (found_in r). action f \<noteq> ''block''))"

definition passes_bytes :: "scanner \<Rightarrow> bytes \<Rightarrow> bool" where
  "passes_bytes sc b \<longleftrightarrow> (\<exists>s. decode_utf8 sc b = Some s \<and> passes_text sc s)"

lemma binding_Inr: "binding m f = Inr r \<longleftrightarrow> (\<exists>v. m = Inr v \<and> f v = Inr r)"
  by (cases m) (simp_all add: binding_def)

lemma scan_text_Inr: "scan_text sc v = Inr s \<longleftrightarrow>
    (\<exists>r. scan_and_redact sc v = Some r \<and> (\<forall>f \<in> set (found_in r). action f \<noteq> ''block'') \<and> s = redacted r)"
  by (auto simp: scan_text_def list_ex_iff split: option.splits)

lemma scan_text_passes: "(\<exists>s. scan_text sc v = Inr s) \<longleftrightarrow> passes_text sc v"
  by (auto simp: scan_text_Inr passes_text_def)

lemma scan_text_scanned: "scan_text sc v = Inr s \<Longrightarrow> scanned sc s"
  unfolding scan_text_Inr scanned_def by blast

lemma sanitize_scanned:
  "sanitize sc m = Inr m' \<Longrightarrow> holds_only (scanned sc) (scanned_bytes sc) m'"
  "sanitize_fields sc fs = Inr fs' \<Longrightarrow> \<forall>(name, f) \<in> set fs'. field_holds (scanned sc) (scanned_bytes sc) name f"
  "sanitize_field sc name f = Inr f' \<Longrightarrow> field_holds (scanned sc) (scanned_bytes sc) name f'"
  "sanitize_all sc ms = Inr ms' \<Longrightarrow> \<forall>m \<in> set ms'. holds_only (scanned sc) (scanned_bytes sc) m"
proof (induction sc m and sc fs and sc name f and sc ms arbitrary: m' and fs' and f' and ms'
    rule: sanitize_sanitize_fields_sanitize_field_sanitize_all.induct)
  case (3 sc name f fs)
  then obtain f2 fs2 where "sanitize_field sc name f = Inr f2" "sanitize_fields sc fs = Inr fs2" "fs' = (name, f2) # fs2"
    by (auto simp: binding_Inr)
  then show ?case using 3(1,2) by auto
next
  case (8 sc name b)
  then show ?case
    by (auto simp: binding_Inr scanned_bytes_def split: if_splits option.splits)
      (metis scan_text_scanned)
qed (auto simp: binding_Inr dest: scan_text_scanned)

lemma sanitize_passes:
  "(\<exists>m'. sanitize sc m = Inr m') \<longleftrightarrow> holds_only (passes_text sc) (passes_bytes sc) m"
  "(\<exists>fs'. sanitize_fields sc fs = Inr fs') \<longleftrightarrow> (\<forall>(name, f) \<in> set fs. field_holds (passes_text sc) (passes_bytes sc) name f)"
  "(\<exists>f'. sanitize_field sc name f = Inr f') \<longleftrightarrow> field_holds (passes_text sc) (passes_bytes sc) name f"
  "(\<exists>ms'. sanitize_all sc ms = Inr ms') \<longleftrightarrow> (\<forall>m \<in> set ms. holds_only (passes_text sc) (passes_bytes sc) m)"
proof (induction sc m and sc fs and sc name f and sc ms
    rule: sanitize_sanitize_fields_sanitize_field_sanitize_all.induct)
  case (6 sc name s)
  then show ?case using scan_text_passes by (simp add: binding_Inr)
next
  case (8 sc name b)
  then show ?case using scan_text_passes by (auto simp: binding_Inr passes_bytes_def split: option.splits)
next
  case (3 sc name f fs)
  then show ?case by (auto simp: binding_Inr)
next
  case (11 sc m ms)
  then show ?case by (auto simp: binding_Inr)
qed (simp_all add: binding_Inr)

text \<open>The structure stays.\<close>

lemma sanitize_fields_lookup:
  "sanitize_fields sc fs = Inr fs' \<Longrightarrow> map_of fs name = Some f \<Longrightarrow> \<exists>f'. map_of fs' name = Some f' \<and> sanitize_field sc name f = Inr f'"
  "sanitize_fields sc fs = Inr fs' \<Longrightarrow> map_of fs name = None \<Longrightarrow> map_of fs' name = None"
  by (induction fs arbitrary: fs') (auto simp: binding_Inr split: if_splits)

lemma sanitize_all_list: "sanitize_all sc ms = Inr ms' \<longleftrightarrow> list_all2 (\<lambda>m m'. sanitize sc m = Inr m') ms ms'"
proof (induction ms arbitrary: ms')
  case (Cons m ms)
  then show ?case by (cases ms') (auto simp: binding_Inr)
qed (auto simp: list_all2_Nil)

lemma sanitize_parts:
  assumes "sanitize sc m = Inr m'"
  shows "list_all2 (\<lambda>p p'. sanitize sc p = Inr p') (parts m name) (parts m' name)"
proof -
  obtain fs fs' where fs: "m = Message fs" "m' = Message fs'" "sanitize_fields sc fs = Inr fs'"
    using assms by (cases m) (auto simp: binding_Inr)
  show ?thesis
  proof (cases "map_of fs name")
    case None
    then show ?thesis using sanitize_fields_lookup(2) [OF fs(3)] by (simp add: parts_def fs)
  next
    case (Some f)
    then obtain f' where f': "map_of fs' name = Some f'" "sanitize_field sc name f = Inr f'"
      using sanitize_fields_lookup(1) [OF fs(3)] by blast
    then show ?thesis using Some
      by (cases f) (auto simp: parts_def fs binding_Inr sanitize_all_list split: if_splits option.splits)
  qed
qed

section \<open>What is exported\<close>

definition exported_text :: "scanner \<Rightarrow> string \<Rightarrow> bool" where
  "exported_text sc s \<longleftrightarrow> scanned sc s \<or> s = STAMP"

lemma holds_mono:
  "holds_only P B m \<Longrightarrow> (\<And>s. P s \<Longrightarrow> P' s) \<Longrightarrow> (\<And>b. B b \<Longrightarrow> B' b) \<Longrightarrow> holds_only P' B' m"
  "field_holds P B name f \<Longrightarrow> (\<And>s. P s \<Longrightarrow> P' s) \<Longrightarrow> (\<And>b. B b \<Longrightarrow> B' b) \<Longrightarrow> field_holds P' B' name f"
proof (induction P B m and P B name f rule: holds_only_field_holds.induct)
  case (1 P B fs)
  then show ?case by fastforce
qed auto

lemma holds_with_parts:
  assumes "holds_only P B m" "\<forall>p \<in> set ps. holds_only P B p"
  shows "holds_only P B (with_parts m name ps)"
proof -
  have "set (AList.update name (Many ps) fs) \<subseteq> insert (name, Many ps) (set fs)" for fs
    by (induction fs) auto
  then show ?thesis using assms by (cases m) (fastforce simp: with_parts_def)
qed

lemma parts_with_parts [simp]: "parts (with_parts m name ps) name = ps"
  by (simp add: parts_def with_parts_def update_conv')

lemma list_all2_right_mem: "list_all2 R xs ys \<Longrightarrow> y \<in> set ys \<Longrightarrow> \<exists>x \<in> set xs. R x y"
  by (induction rule: list_all2_induct) auto

lemma holds_parts:
  assumes "holds_only P B m" "p \<in> set (parts m name)"
  shows "holds_only P B p"
proof -
  obtain ms where ms: "map_of (fields_of m) name = Some (Many ms)" "p \<in> set ms"
    using assms(2) by (cases "map_of (fields_of m) name") (auto simp: parts_def split: field.splits)
  then have "(name, Many ms) \<in> set (fields_of m)" by (simp add: map_of_SomeD)
  then have "field_holds P B name (Many ms)" using assms(1) by (cases m) auto
  then show ?thesis using ms(2) by simp
qed

lemma stamp_holds: "holds_only (exported_text sc) B stamp"
  by (simp add: stamp_def exported_text_def)

lemma stamped_holds: "holds_only (exported_text sc) B sp \<Longrightarrow> holds_only (exported_text sc) B (stamped sp)"
  unfolding stamped_def by (rule holds_with_parts) (auto simp: stamp_holds dest: holds_parts)

lemma stamp_candidate_holds:
  assumes "holds_only (exported_text sc) B m"
  shows "holds_only (exported_text sc) B (stamp_candidate m)"
proof -
  have "holds_only (exported_text sc) B (with_parts scope ''spans'' (map stamped (parts scope ''spans'')))"
    if "scope \<in> set (parts m ''scope_spans'')" for scope
    using holds_parts [OF assms that] by (intro holds_with_parts) (auto intro: stamped_holds holds_parts)
  then show ?thesis unfolding stamp_candidate_def using assms by (intro holds_with_parts) auto
qed

lemma redact_spans_accepted:
  "fst (redact_spans sc xs) = List.map_filter (\<lambda>(resource, scope, sp). case accept sc resource scope sp of Inl _ \<Rightarrow> None | Inr m \<Rightarrow> Some m) xs"
  by (induction sc xs rule: redact_spans.induct) (auto simp: map_filter_simps split: sum.splits prod.splits)

lemma redact_spans_length: "length (fst (redact_spans sc xs)) + length (snd (redact_spans sc xs)) = length xs"
  by (induction sc xs rule: redact_spans.induct) (auto split: sum.splits prod.splits)

lemma accepted_mem:
  assumes "m \<in> set (fst (redact_request sc request))"
  shows "\<exists>resource scope sp m'. (resource, scope, sp) \<in> set (spans_of request) \<and>
    sanitize sc (candidate resource scope sp) = Inr m' \<and> m = stamp_candidate m'"
  using assms unfolding redact_request_def redact_spans_accepted
  by (auto simp: map_filter_def accept_def binding_Inr split: sum.splits) blast

lemma accept_passes: "(\<exists>m. accept sc resource scope sp = Inr m) \<longleftrightarrow> holds_only (passes_text sc) (passes_bytes sc) (candidate resource scope sp)"
  using sanitize_passes(1) [of sc "candidate resource scope sp"] by (simp add: accept_def binding_Inr)

section \<open>An export\<close>

definition demo_scanner :: scanner where
  "demo_scanner = \<lparr>scan_and_redact = (\<lambda>s. Some (if s = ''secret'' then \<lparr>redacted = ''***'', found_in = []\<rparr>
       else \<lparr>redacted = s, found_in = (if s = ''key'' then [\<lparr>action = ''block''\<rparr>] else [])\<rparr>)),
     decode_utf8 = (\<lambda>_. None), encode_utf8 = (\<lambda>_. [])\<rparr>"

definition demo_request :: message where
  "demo_request = Message [(''resource_spans'', Many [Message [(''scope_spans'', Many [Message [(''spans'', Many
     [Message [(''name'', Text ''secret''), (''attributes'', Many [stamp])], Message [(''name'', Text ''key'')]])]])]])]"

definition demo_export :: "export_result \<times> exporter" where
  "demo_export = export_spans demo_scanner (\<lambda>_ :: unit list. Some demo_request) (\<lambda>_ _. Answer 200 (Some 0)) []
     \<lparr>endpoint = ''c'', last_export = None, posted = [], warned = []\<rparr>"

lemma demo_posted: "posted (snd demo_export) = [(''c'', [Message [(''scope_spans'', Many [Message [(''spans'', Many
     [Message [(''name'', Text ''***''), (''attributes'', Many [stamp])]])]])]])]"
  by code_simp

section \<open>Properties\<close>

text \<open>
  C31. Nothing unscanned leaves: an export posts at most one request, to its own endpoint, and every text in it,
  wherever it is nested, is what the scanner gave back for a text without a blocking finding, or the word
  of the stamp; the same of every byte value.
\<close>

theorem nothing_unscanned_leaves:
  "posted (snd (export_spans sc encode_spans collector spans x)) = posted x \<or>
   (\<exists>ms. posted (snd (export_spans sc encode_spans collector spans x)) = (endpoint x, ms) # posted x \<and> ms \<noteq> [] \<and>
      (\<forall>m \<in> set ms. holds_only (exported_text sc) (scanned_bytes sc) m))"
proof (cases "encode_spans spans")
  case None
  then show ?thesis by (simp add: export_spans_def failed_def)
next
  case (Some request)
  obtain safe warnings where r: "redact_request sc request = (safe, warnings)" by fastforce
  have keeps: "posted (snd (answered reply y)) = posted y" for reply y
    by (auto simp: answered_def failed_def succeeded_def split: collector_reply.split option.split)
  have "holds_only (exported_text sc) (scanned_bytes sc) m" if "m \<in> set safe" for m
  proof -
    obtain resource scope sp m' where m': "sanitize sc (candidate resource scope sp) = Inr m'" "m = stamp_candidate m'"
      using accepted_mem [of m sc request] \<open>m \<in> set safe\<close> by (auto simp: r)
    have "holds_only (exported_text sc) (scanned_bytes sc) m'"
      using sanitize_scanned(1) [OF m'(1)] by (rule holds_mono(1)) (simp_all add: exported_text_def)
    then show ?thesis unfolding m'(2) by (rule stamp_candidate_holds)
  qed
  then show ?thesis using Some r keeps by (auto simp: export_spans_def succeeded_def Let_def)
qed

theorem nothing_unscanned_leaves_witness:
  "\<exists>ms. posted (snd demo_export) = [(''c'', ms)] \<and> (\<forall>m \<in> set ms. holds_only (exported_text demo_scanner) (scanned_bytes demo_scanner) m)"
  using nothing_unscanned_leaves [of demo_scanner "\<lambda>_ :: unit list. Some demo_request" "\<lambda>_ _. Answer 200 (Some 0)" "[]"
      "\<lparr>endpoint = ''c'', last_export = None, posted = [], warned = []\<rparr>", folded demo_export_def]
  by (simp add: demo_posted)

text \<open>
  One span never takes another with it: a span is exported exactly when every text and byte value of it, its
  scope and its resource passes the scan, each in the order of the request; every other span is one warning.
\<close>

theorem suppressed_exactly:
  "length (fst (redact_request sc request)) =
     length (filter (\<lambda>(resource, scope, sp). holds_only (passes_text sc) (passes_bytes sc) (candidate resource scope sp)) (spans_of request)) \<and>
   length (fst (redact_request sc request)) + length (snd (redact_request sc request)) = length (spans_of request)"
proof -
  have one: "length (List.map_filter (\<lambda>(resource, scope, sp). case accept sc resource scope sp of Inl _ \<Rightarrow> None | Inr m \<Rightarrow> Some m) xs) =
      length (filter (\<lambda>(resource, scope, sp). holds_only (passes_text sc) (passes_bytes sc) (candidate resource scope sp)) xs)" for xs
    unfolding accept_passes [symmetric] by (induction xs) (auto simp: map_filter_simps split: sum.split)
  show ?thesis unfolding redact_request_def using redact_spans_length [of sc] by (simp add: redact_spans_accepted one)
qed

text \<open>
  The stamp says who redacted: every exported request holds one span, and its one attribute named as the stamp
  is the exporter's own, whatever stamps the span carried before, unless the scanner itself makes one up.
\<close>

theorem stamp_is_not_forged:
  assumes "\<And>v. scan_text sc v = Inr STAMP \<Longrightarrow> v = STAMP" "m \<in> set (fst (redact_request sc request))"
  shows "\<exists>scope sp. parts m ''scope_spans'' = [scope] \<and> parts scope ''spans'' = [sp] \<and>
    filter (key_is STAMP) (parts sp ''attributes'') = [stamp]"
proof -
  obtain resource scope0 sp0 m' where m': "sanitize sc (candidate resource scope0 sp0) = Inr m'" "m = stamp_candidate m'"
    using accepted_mem [OF assms(2)] by blast
  obtain s1 where s1: "parts m' ''scope_spans'' = [s1]" "sanitize sc (with_parts scope0 ''spans'' [unstamped sp0]) = Inr s1"
    using sanitize_parts [OF m'(1), of "''scope_spans''"] by (auto simp: candidate_def list_all2_Cons1)
  obtain sp1 where sp1: "parts s1 ''spans'' = [sp1]" "sanitize sc (unstamped sp0) = Inr sp1"
    using sanitize_parts [OF s1(2), of "''spans''"] by (auto simp: list_all2_Cons1)
  have clean: "\<not> key_is STAMP a" if "a \<in> set (parts (unstamped sp0) ''attributes'')" for a
    using that by (auto simp: unstamped_def list_ex_iff split: if_splits)
  have "\<not> key_is STAMP a'" if mem: "a' \<in> set (parts sp1 ''attributes'')" for a'
  proof
    assume key: "key_is STAMP a'"
    obtain a where a: "a \<in> set (parts (unstamped sp0) ''attributes'')" "sanitize sc a = Inr a'"
      using list_all2_right_mem [OF sanitize_parts [OF sp1(2)] mem] by blast
    obtain fs fs' where fs: "a = Message fs" "a' = Message fs'" "sanitize_fields sc fs = Inr fs'"
      using a(2) by (cases a) (auto simp: binding_Inr)
    have k': "map_of fs' ''key'' = Some (Text STAMP)" using key fs(2) by (simp add: key_is_def)
    then obtain f where f: "map_of fs ''key'' = Some f" using sanitize_fields_lookup(2) [OF fs(3)] by fastforce
    then have "sanitize_field sc ''key'' f = Inr (Text STAMP)" using sanitize_fields_lookup(1) [OF fs(3) f] k' by simp
    then obtain v where "f = Text v" "scan_text sc v = Inr STAMP"
      by (cases f) (auto simp: binding_Inr split: option.splits)
    then have "key_is STAMP a" using assms(1) f fs(1) by (simp add: key_is_def)
    then show False using clean a(1) by simp
  qed
  then have none: "filter (key_is STAMP) (parts sp1 ''attributes'') = []" by (simp add: filter_empty_conv)
  have "key_is STAMP stamp" by (simp add: key_is_def stamp_def)
  then show ?thesis using s1(1) sp1(1) none by (simp add: m'(2) stamp_candidate_def stamped_def)
qed

theorem stamp_is_not_forged_witness:
  "\<exists>scope sp. parts scope ''spans'' = [sp] \<and> filter (key_is STAMP) (parts sp ''attributes'') = [stamp] \<and>
     scope \<in> set (parts (hd (fst (redact_request demo_scanner demo_request))) ''scope_spans'')"
proof -
  have own: "v = STAMP" if "scan_text demo_scanner v = Inr STAMP" for v
    using that by (auto simp: scan_text_Inr demo_scanner_def STAMP_def split: if_splits)
  have "fst (redact_request demo_scanner demo_request) \<noteq> []" by code_simp
  then have "hd (fst (redact_request demo_scanner demo_request)) \<in> set (fst (redact_request demo_scanner demo_request))" by simp
  from stamp_is_not_forged [OF own this] show ?thesis by (metis list.set_intros(1))
qed

text \<open>
  C37. The recorded outcome is the true one: an export is successful exactly when it is recorded as delivered, and
  that exactly when nothing was left to send or the Collector answered 200 and rejected nothing; a count of
  rejected spans is recorded only when the Collector gave it.
\<close>

theorem export_outcome_is_true:
  "\<exists>out. last_export (snd (export_spans sc encode_spans collector spans x)) = Some out \<and>
     (fst (export_spans sc encode_spans collector spans x) = SUCCESS \<longleftrightarrow> delivered out) \<and> (delivered out \<longleftrightarrow> why out = None) \<and>
     (delivered out \<longleftrightarrow> (\<exists>request. encode_spans spans = Some request \<and>
        (fst (redact_request sc request) = [] \<or>
         collector (endpoint x) (fst (redact_request sc request)) = Answer 200 (Some 0)))) \<and>
     (rejected_spans out = Some n \<longleftrightarrow> (\<exists>request. encode_spans spans = Some request \<and> fst (redact_request sc request) \<noteq> [] \<and>
        collector (endpoint x) (fst (redact_request sc request)) = Answer 200 (Some n) \<and> n \<noteq> 0))"
proof (cases "encode_spans spans")
  case None
  then show ?thesis by (simp add: export_spans_def failed_def)
next
  case (Some request)
  obtain safe warnings where r: "redact_request sc request = (safe, warnings)" by fastforce
  show ?thesis
  proof (cases "safe = []")
    case True
    then show ?thesis using Some r by (simp add: export_spans_def succeeded_def Let_def)
  next
    case False
    then show ?thesis using Some r
      by (cases "collector (endpoint x) safe")
        (auto simp: export_spans_def answered_def failed_def succeeded_def Let_def split: option.split)
  qed
qed

end
