(* ===== verification/Archive_Check.thy ===== *)
theory Archive_Check
  imports Json
begin

text \<open>
  \<^verbatim>\<open>archive_check.py\<close>: every line of an archive, raw and with its strings decoded, through the scanner's command
  line. The commands it runs, \<^verbatim>\<open>json.loads\<close> of a line and \<^verbatim>\<open>b64decode\<close> with UTF-8 are parameters; \<open>None\<close> is
  an exception the check catches.
\<close>

section \<open>The strings of a record\<close>

definition both :: "'a list option \<Rightarrow> 'a list option \<Rightarrow> 'a list option" where
  "both a b = (case a of None \<Rightarrow> None | Some xs \<Rightarrow> (case b of None \<Rightarrow> None | Some ys \<Rightarrow> Some (xs @ ys)))"

fun strings_in :: "(json \<Rightarrow> string option) \<Rightarrow> json \<Rightarrow> string list option"
and strings_of_items :: "(json \<Rightarrow> string option) \<Rightarrow> json list \<Rightarrow> string list option"
and strings_of_dict :: "(json \<Rightarrow> string option) \<Rightarrow> json dict \<Rightarrow> string list option" where
  "strings_in decode (JStr s) = Some [s]"
| "strings_in decode (JArr items) = strings_of_items decode items"
| "strings_in decode (JObj d) = strings_of_dict decode d"
| "strings_in decode _ = Some []"
| "strings_of_items decode [] = Some []"
| "strings_of_items decode (j # js) = both (strings_in decode j) (strings_of_items decode js)"
| "strings_of_dict decode [] = Some []"
| "strings_of_dict decode ((key, j) # d) =
     both (Some [key])
       (both (if key = ''bytesValue'' then map_option (\<lambda>s. [s]) (decode j) else strings_in decode j)
          (strings_of_dict decode d))"

fun joined :: "string list \<Rightarrow> string" where
  "joined [] = []"
| "joined [s] = s"
| "joined (s # t # ss) = s @ CHR 0x0A # joined (t # ss)"

section \<open>The check\<close>

record scan_env =
  cli_version :: "(int \<times> string) option"
  cli_scan :: "string \<Rightarrow> int option"
  decode_bytes :: "json \<Rightarrow> string option"

record check_file =
  cf_lines :: "(string \<times> json option) list"
  cf_fails :: bool

datatype check_path = Plain_File check_file | Check_Directory "check_file list" "check_file list"

record tally =
  found :: bool
  unusable :: bool
  records :: nat

definition scan_input :: "scan_env \<Rightarrow> string \<times> json option \<Rightarrow> string option" where
  "scan_input v line =
     (case snd line of
        Some (JObj d) \<Rightarrow>
          if map_of d ''resourceSpans'' = None then None
          else map_option (\<lambda>ss. fst line @ CHR 0x0A # joined ss) (strings_in (decode_bytes v) (JObj d))
      | _ \<Rightarrow> None)"

definition scan_line :: "scan_env \<Rightarrow> string \<times> json option \<Rightarrow> int option" where
  "scan_line v line = (case scan_input v line of None \<Rightarrow> None | Some text \<Rightarrow> cli_scan v text)"

definition gave_up :: "tally \<Rightarrow> tally" where
  "gave_up t = t\<lparr>unusable := True\<rparr>"

definition counted :: "int \<Rightarrow> tally \<Rightarrow> tally" where
  "counted code t = t\<lparr>found := found t \<or> code = 1, unusable := unusable t \<or> code \<notin> {0, 1}, records := Suc (records t)\<rparr>"

text \<open>An exception ends the file, not the check.\<close>

fun check_lines :: "scan_env \<Rightarrow> bool \<Rightarrow> (string \<times> json option) list \<Rightarrow> tally \<Rightarrow> tally" where
  "check_lines v fails [] t = (if fails then gave_up t else t)"
| "check_lines v fails (line # rest) t =
     (case scan_line v line of
        None \<Rightarrow> gave_up t
      | Some code \<Rightarrow> check_lines v fails rest (counted code t))"

definition check_file_in :: "scan_env \<Rightarrow> check_file \<Rightarrow> tally \<Rightarrow> tally" where
  "check_file_in v f = check_lines v (cf_fails f) (cf_lines f)"

definition entries_of :: "check_path \<Rightarrow> check_file list" where
  "entries_of p = (case p of Plain_File f \<Rightarrow> [f] | Check_Directory plain packed \<Rightarrow> plain @ packed)"

definition bytes_strip :: "string \<Rightarrow> string" where
  "bytes_strip s = (let sp = (\<lambda>c. c \<in> set (map char_of [9, 10, 11, 12, 13, 32 :: nat])) in rev (dropWhile sp (rev (dropWhile sp s))))"

definition right_version :: "scan_env \<Rightarrow> bool" where
  "right_version v = (case cli_version v of None \<Rightarrow> False
     | Some (code, out) \<Rightarrow> code = 0 \<and> bytes_strip out = ''redact-secret 0.1.0-beta.1'')"

definition check_tally :: "scan_env \<Rightarrow> check_path list \<Rightarrow> tally" where
  "check_tally v paths =
     (let t = \<lparr>found = False, unusable = False, records = 0\<rparr>;
          t' = (if \<not> right_version v then gave_up t
                else fold (check_file_in v) (concat (map entries_of paths))
                  (if list_ex (\<lambda>p. entries_of p = []) paths then gave_up t else t))
      in if records t' = 0 then gave_up t' else t')"

definition archive_check :: "scan_env \<Rightarrow> check_path list \<Rightarrow> int" where
  "archive_check v paths = (let t = check_tally v paths in if unusable t then 2 else if found t then 1 else 0)"

section \<open>The tally\<close>

definition file_codes :: "scan_env \<Rightarrow> check_file list \<Rightarrow> int option list" where
  "file_codes v fs = map (scan_line v) (concat (map cf_lines fs))"

lemma check_lines_unusable: "unusable t \<Longrightarrow> unusable (check_lines v fails ls t)"
  by (induction v fails ls t rule: check_lines.induct) (auto simp: gave_up_def counted_def split: option.split)

lemma check_lines_tally:
  "\<not> unusable (check_lines v fails ls t) \<longleftrightarrow> \<not> unusable t \<and> \<not> fails \<and> (\<forall>l \<in> set ls. scan_line v l \<in> {Some 0, Some 1})"
proof (induction v fails ls t rule: check_lines.induct)
  case (2 v fails l ls t)
  show ?case
  proof (cases "scan_line v l")
    case None
    then show ?thesis by (simp add: gave_up_def)
  next
    case (Some code)
    then show ?thesis using 2 [OF Some] by (auto simp: counted_def)
  qed
qed (simp add: gave_up_def)

lemma check_lines_counts:
  "\<not> unusable (check_lines v fails ls t) \<Longrightarrow>
   (found (check_lines v fails ls t) \<longleftrightarrow> found t \<or> Some 1 \<in> scan_line v ` set ls) \<and>
   records (check_lines v fails ls t) = records t + length ls"
proof (induction v fails ls t rule: check_lines.induct)
  case (2 v fails l ls t)
  then show ?case by (cases "scan_line v l") (auto simp: gave_up_def counted_def)
qed (simp add: gave_up_def split: if_splits)

lemma fold_tally:
  "\<not> unusable (fold (check_file_in v) fs t) \<longleftrightarrow>
     \<not> unusable t \<and> (\<forall>f \<in> set fs. \<not> cf_fails f) \<and> set (file_codes v fs) \<subseteq> {Some 0, Some 1}"
proof (induction fs arbitrary: t)
  case (Cons f fs)
  show ?case unfolding fold.simps comp_apply Cons
    by (auto simp: check_file_in_def check_lines_tally file_codes_def)
qed (simp add: file_codes_def)

lemma fold_counts:
  "\<not> unusable (fold (check_file_in v) fs t) \<Longrightarrow>
   (found (fold (check_file_in v) fs t) \<longleftrightarrow> found t \<or> Some 1 \<in> set (file_codes v fs)) \<and>
   records (fold (check_file_in v) fs t) = records t + length (file_codes v fs)"
proof (induction fs arbitrary: t)
  case (Cons f fs)
  have u: "\<not> unusable (fold (check_file_in v) fs (check_file_in v f t))" using Cons.prems by simp
  then have "\<not> unusable (check_file_in v f t)" by (simp add: fold_tally)
  then show ?case using Cons.IH [OF u] check_lines_counts [of v "cf_fails f" "cf_lines f" t]
    by (auto simp: check_file_in_def file_codes_def)
qed (simp add: file_codes_def)

section \<open>Properties\<close>

text \<open>
  The exit code of the archive check is honest: 0 exactly when the pinned scanner ran on every line of every file
  of every path, at least one, raw and decoded, and found nothing; 1 exactly when it ran on all of them
  and found something; everything it could not read or scan makes the code 2.
\<close>

theorem archive_check_is_honest:
  "archive_check v paths =
     (let codes = file_codes v (concat (map entries_of paths)) in
      if right_version v \<and> list_all (\<lambda>p. entries_of p \<noteq> []) paths \<and>
         list_all (\<lambda>f. \<not> cf_fails f) (concat (map entries_of paths)) \<and> codes \<noteq> [] \<and> set codes \<subseteq> {Some 0, Some 1}
      then (if Some 1 \<in> set codes then 1 else 0) else 2)"
proof -
  let ?fs = "concat (map entries_of paths)" and ?t = "\<lparr>found = False, unusable = False, records = 0\<rparr>"
  let ?empty = "list_ex (\<lambda>p. entries_of p = []) paths"
  let ?t0 = "if ?empty then gave_up ?t else ?t"
  have empty: "?empty \<longleftrightarrow> \<not> list_all (\<lambda>p. entries_of p \<noteq> []) paths" by (auto simp: list_ex_iff list_all_iff)
  show ?thesis
  proof (cases "right_version v")
    case False
    then show ?thesis by (simp add: archive_check_def check_tally_def gave_up_def Let_def)
  next
    case True
    let ?u = "fold (check_file_in v) ?fs ?t0"
    have t: "check_tally v paths = (if records ?u = 0 then gave_up ?u else ?u)"
      using True by (simp add: check_tally_def Let_def)
    have usable: "\<not> unusable ?u \<longleftrightarrow> \<not> ?empty \<and> list_all (\<lambda>f. \<not> cf_fails f) ?fs \<and> set (file_codes v ?fs) \<subseteq> {Some 0, Some 1}"
      unfolding fold_tally list_all_iff by (simp add: gave_up_def)
    show ?thesis
    proof (cases "unusable ?u")
      case bad: True
      then have "unusable (check_tally v paths)" by (simp add: t gave_up_def)
      then show ?thesis using bad usable empty by (auto simp: archive_check_def Let_def)
    next
      case False
      have c: "found ?u \<longleftrightarrow> Some 1 \<in> set (file_codes v ?fs)" "records ?u = length (file_codes v ?fs)"
        using fold_counts [OF False] by (simp_all add: gave_up_def split: if_splits)
      show ?thesis using True False usable empty c
        by (auto simp: archive_check_def t gave_up_def Let_def)
    qed
  qed
qed

end
