(* ===== verification/Web_Urls.thy ===== *)
theory Web_Urls
  imports Viewer_Catalog
begin

text \<open>
  The addresses of the viewer's pages (\<^verbatim>\<open>web/presentation.py\<close>) and how a request's path leads back to what
  it names (\<^verbatim>\<open>web/server.py\<close>). A string is its UTF-8 bytes, as \<^verbatim>\<open>quote\<close> and \<^verbatim>\<open>unquote\<close> see it.
\<close>

section \<open>Percent encoding\<close>

definition unreserved :: "char \<Rightarrow> bool" where
  "unreserved c = (let n = of_char c :: nat in
     48 \<le> n \<and> n \<le> 57 \<or> 65 \<le> n \<and> n \<le> 90 \<or> 97 \<le> n \<and> n \<le> 122 \<or> c \<in> {CHR ''_'', CHR ''.'', CHR ''-'', CHR ''~''})"

definition upper_hex :: "nat \<Rightarrow> char" where
  "upper_hex d = char_of (if d < 10 then 48 + d else 55 + d)"

definition quote_char :: "char \<Rightarrow> string" where
  "quote_char c = (if unreserved c then [c]
     else [CHR ''%'', upper_hex (of_char c div 16), upper_hex (of_char c mod 16)])"

text \<open>\<^verbatim>\<open>quote(s, safe="")\<close>\<close>

definition quote :: "string \<Rightarrow> string" where
  "quote s = concat (map quote_char s)"

fun unquote :: "string \<Rightarrow> string" where
  "unquote [] = []"
| "unquote (c # s) =
     (case s of
        a # b # rest \<Rightarrow>
          if c = CHR ''%'' \<and> digit_value 16 a \<noteq> None \<and> digit_value 16 b \<noteq> None
          then char_of (16 * the (digit_value 16 a) + the (digit_value 16 b)) # unquote rest
          else c # unquote s
      | _ \<Rightarrow> c # unquote s)"

text \<open>\<^verbatim>\<open>[unquote(part) for part in path.split("/")[1:]]\<close>\<close>

definition path_parts :: "string \<Rightarrow> string list" where
  "path_parts path = map unquote (tl (split_on (CHR ''/'') path))"

section \<open>Addresses\<close>

definition graph_url :: "graph_view \<Rightarrow> string" where
  "graph_url g =
     (let gid = quote (gv_graph_id g) in
      case gv_alias g of
        Some alias \<Rightarrow> ''/connections/'' @ quote alias @ ''/graphs/'' @ gid
      | None \<Rightarrow> ''/graphs/'' @ gid @ (if gv_status g = AMBIGUOUS then ''/ambiguous'' else []))"

definition run_url :: "graph_view \<Rightarrow> string \<Rightarrow> string" where
  "run_url g run_id = graph_url g @ ''/runs/'' @ quote run_id"

definition execute_url :: "graph_view \<Rightarrow> string" where
  "execute_url g = graph_url g @ ''/execute''"

definition approval_url :: "string \<Rightarrow> string \<Rightarrow> string \<Rightarrow> string" where
  "approval_url alias thread_id interrupt_id = ''/approvals/'' @ join_with ''/'' (map quote [alias, thread_id, interrupt_id])"

section \<open>Paths\<close>

datatype web_run = Recorded run_entry | Live live_view

definition web_run_id :: "web_run \<Rightarrow> string" where
  "web_run_id r = (case r of Recorded e \<Rightarrow> re_run e | Live v \<Rightarrow> lv_run_id v)"

definition runs_of_graph :: "graph_view \<Rightarrow> web_run list" where
  "runs_of_graph g = map Recorded (gv_runs g) @ map Live (gv_live g)"

datatype selection = Catalog_Page | Graph_Page graph_view | Run_Page graph_view web_run bool

primrec select_from :: "graph_view list \<Rightarrow> string list \<Rightarrow> bool \<Rightarrow> selection option" where
  "select_from [] = (\<lambda>parts events. None)"
| "select_from (g # gs) = (\<lambda>parts events.
     (let prefix = path_parts (graph_url g) in
      if parts = prefix \<and> \<not> events then Some (Graph_Page g)
      else if take (length prefix) parts = prefix \<and> length parts = length prefix + 2 \<and> parts ! (length parts - 2) = ''runs''
      then (case find (\<lambda>r. web_run_id r = last parts) (runs_of_graph g) of
              Some r \<Rightarrow> Some (Run_Page g r events)
            | None \<Rightarrow> select_from gs parts events)
      else select_from gs parts events))"

text \<open>\<open>None\<close> is the LookupError.\<close>

definition select_page :: "graph_view list \<Rightarrow> string \<Rightarrow> selection option" where
  "select_page catalog path =
     (if path = ''/'' then Some Catalog_Page
      else
        let parts = path_parts path; events = (parts \<noteq> [] \<and> last parts = ''events'') in
        select_from catalog (if events then butlast parts else parts) events)"

definition match_execute :: "string \<Rightarrow> (string \<times> string) option" where
  "match_execute path =
     (case path_parts path of
        [a, alias, b, gid, c] \<Rightarrow> if a = ''connections'' \<and> b = ''graphs'' \<and> c = ''execute'' then Some (alias, gid) else None
      | _ \<Rightarrow> None)"

datatype approval_page = Approval_List | Approval_Detail string string string

definition match_approvals :: "string \<Rightarrow> approval_page option" where
  "match_approvals path =
     (case path_parts path of
        [a] \<Rightarrow> if a = ''approvals'' then Some Approval_List else None
      | [a, alias, thread_id, interrupt_id] \<Rightarrow>
          if a = ''approvals'' then Some (Approval_Detail alias thread_id interrupt_id) else None
      | _ \<Rightarrow> None)"

section \<open>Quoting\<close>

lemma of_char_high: "(of_char c :: nat) div 16 < 16"
  by (rule less_mult_imp_div_less) simp

lemma upper_hex_value: "d < 16 \<Longrightarrow> digit_value 16 (upper_hex d) = Some d"
  by (simp add: digit_value_def upper_hex_def Let_def take_bit_eq_mod)

lemma unquote_char: "unquote (quote_char c @ s) = c # unquote s"
proof (cases "unreserved c")
  case True
  then have "c \<noteq> CHR ''%''" by (auto simp: unreserved_def)
  then show ?thesis using True by (simp add: quote_char_def split: list.split)
next
  case False
  then show ?thesis using of_char_high [of c] by (simp add: quote_char_def upper_hex_value)
qed

theorem unquote_quote: "unquote (quote s) = s"
  by (induction s) (simp_all add: quote_def unquote_char)

lemma quote_no_slash: "CHR ''/'' \<notin> set (quote s)"
proof -
  have "upper_hex d \<noteq> CHR ''/''" if "d < 16" for d
    using upper_hex_value [OF that] by (auto simp: digit_value_def)
  then have "upper_hex (of_char c div 16) \<noteq> CHR ''/''" "upper_hex (of_char c mod 16) \<noteq> CHR ''/''" for c
    using of_char_high [of c] by simp_all
  moreover have "\<not> unreserved (CHR ''/'')" by (simp add: unreserved_def)
  ultimately have "CHR ''/'' \<notin> set (quote_char c)" for c by (auto simp: quote_char_def) metis+
  then show ?thesis by (simp add: quote_def)
qed

text \<open>A path of segments, each a slash and quoted text.\<close>

definition path_of :: "string list \<Rightarrow> string" where
  "path_of segments = concat (map (\<lambda>s. CHR ''/'' # quote s) segments)"

lemma split_path: "CHR ''/'' \<notin> set p \<Longrightarrow> split_on (CHR ''/'') (p @ path_of segments) = p # map quote segments"
  using quote_no_slash by (induction segments arbitrary: p) (simp_all add: path_of_def split_on_no_sep split_on_append)

lemma parts_path: "path_parts (path_of segments) = segments"
  using split_path [of "[]" segments] by (simp add: path_parts_def unquote_quote comp_def)

section \<open>Addresses as paths\<close>

definition place :: "graph_view \<Rightarrow> string list" where
  "place g =
     (case gv_alias g of
        Some alias \<Rightarrow> [''connections'', alias, ''graphs'', gv_graph_id g]
      | None \<Rightarrow> [''graphs'', gv_graph_id g] @ (if gv_status g = AMBIGUOUS then [''ambiguous''] else []))"

lemma quote_words:
  "quote ''connections'' = ''connections''" "quote ''graphs'' = ''graphs''" "quote ''ambiguous'' = ''ambiguous''"
  "quote ''runs'' = ''runs''" "quote ''execute'' = ''execute''" "quote ''events'' = ''events''" "quote ''approvals'' = ''approvals''"
  by code_simp+

lemma graph_url_path: "graph_url g = path_of (place g)"
  by (simp add: graph_url_def place_def path_of_def quote_words Let_def split: option.split)

lemma path_of_append: "path_of (xs @ ys) = path_of xs @ path_of ys"
  by (simp add: path_of_def)

lemma run_url_path: "run_url g r = path_of (place g @ [''runs'', r])"
  by (simp add: run_url_def graph_url_path path_of_append) (simp add: path_of_def quote_words)

lemma execute_url_path: "execute_url g = path_of (place g @ [''execute''])"
  by (simp add: execute_url_def graph_url_path path_of_append) (simp add: path_of_def quote_words)

lemma approval_url_path: "approval_url a t i = path_of [''approvals'', a, t, i]"
  by (simp add: approval_url_def path_of_def quote_words)

lemma parts_graph_url: "path_parts (graph_url g) = place g"
  by (simp add: graph_url_path parts_path)

lemma place_no_run: "place g \<noteq> place h @ [''runs'', r]"
  by (auto simp: place_def split: option.splits if_splits)

lemma place_run_place: "place g @ [''runs'', r] = place h @ [''runs'', r'] \<longleftrightarrow> place g = place h \<and> r = r'"
  by auto

lemma path_not_root: "segments \<noteq> [] \<Longrightarrow> path_of segments = ''/'' \<longleftrightarrow> segments = [[]]"
proof -
  assume "segments \<noteq> []"
  then obtain x xs where x: "segments = x # xs" by (cases segments) auto
  have "quote y = [] \<longleftrightarrow> y = []" for y by (cases y) (auto simp: quote_def quote_char_def)
  then show ?thesis by (cases xs) (auto simp: x path_of_def)
qed

lemma place_root: "path_of (place g @ xs) \<noteq> ''/''"
  using path_not_root [of "place g @ xs"] by (auto simp: place_def split: option.splits)

lemma run_shape:
  "take (length prefix) parts = prefix \<and> length parts = length prefix + 2 \<and> parts ! (length parts - 2) = ''runs'' \<longleftrightarrow>
   parts = prefix @ [''runs'', last parts] \<and> parts \<noteq> []"
proof
  assume a: "take (length prefix) parts = prefix \<and> length parts = length prefix + 2 \<and> parts ! (length parts - 2) = ''runs''"
  then have "parts = prefix @ drop (length prefix) parts" "length (drop (length prefix) parts) = 2"
    by (metis append_take_drop_id) (use a in simp)
  then obtain x y where xy: "parts = prefix @ [x, y]" by (cases "drop (length prefix) parts") (auto simp: length_Suc_conv numeral_2_eq_2)
  then have "x = ''runs''" using a by (simp add: nth_append)
  then show "parts = prefix @ [''runs'', last parts] \<and> parts \<noteq> []" using xy by simp
next
  assume "parts = prefix @ [''runs'', last parts] \<and> parts \<noteq> []"
  then obtain y where "parts = prefix @ [''runs'', y]" by blast
  then show "take (length prefix) parts = prefix \<and> length parts = length prefix + 2 \<and> parts ! (length parts - 2) = ''runs''"
    by (simp add: nth_append)
qed

lemma select_graph:
  assumes "g \<in> set gs" "distinct (map place gs)"
  shows "select_from gs (place g) False = Some (Graph_Page g)"
  using assms
proof (induction gs)
  case (Cons h gs)
  show ?case
  proof (cases "g = h")
    case True
    then show ?thesis by (simp add: parts_graph_url Let_def)
  next
    case False
    then have "place g \<in> place ` set gs" using Cons.prems(1) by simp
    then have "place g \<noteq> place h" using Cons.prems(2) by auto
    moreover have "\<not> (place g = place h @ [''runs'', last (place g)] \<and> place g \<noteq> [])" using place_no_run by metis
    ultimately show ?thesis using Cons False unfolding select_from.simps Let_def parts_graph_url run_shape by auto
  qed
qed simp

lemma select_run:
  assumes "g \<in> set gs" "distinct (map place gs)" "find (\<lambda>r. web_run_id r = i) (runs_of_graph g) = Some r"
  shows "select_from gs (place g @ [''runs'', i]) events = Some (Run_Page g r events)"
  using assms(1,2)
proof (induction gs)
  case (Cons h gs)
  have other: "place g @ [''runs'', i] \<noteq> place h" using place_no_run by metis
  show ?case
  proof (cases "g = h")
    case True
    then show ?thesis using other assms(3) by (simp add: parts_graph_url Let_def nth_append)
  next
    case False
    then have "place g \<in> place ` set gs" using Cons.prems(1) by simp
    then have "place g \<noteq> place h" using Cons.prems(2) by auto
    then have "\<not> (place g @ [''runs'', i] = place h @ [''runs'', last (place g @ [''runs'', i])] \<and> place g @ [''runs'', i] \<noteq> [])" by simp
    then show ?thesis using Cons False other
      unfolding select_from.simps Let_def parts_graph_url run_shape by (simp del: append_same_eq)
  qed
qed simp

section \<open>Properties\<close>

text \<open>
  C36. Every link leads back to what it names, whatever slashes, percent signs or other bytes the names hold: the
  address of a Graph to the Graph, of a Run to the Run of that id at that Graph and of its events to their
  stream. Only a Graph or a Run called events has no page, as that word at the end asks for a stream.
\<close>

theorem links_lead_back:
  assumes "g \<in> set catalog" "distinct (map place catalog)"
  shows "(last (place g) \<noteq> ''events'' \<longrightarrow> select_page catalog (graph_url g) = Some (Graph_Page g)) \<and>
    (\<forall>i r. find (\<lambda>r. web_run_id r = i) (runs_of_graph g) = Some r \<longrightarrow>
       (i \<noteq> ''events'' \<longrightarrow> select_page catalog (run_url g i) = Some (Run_Page g r False)) \<and>
       select_page catalog (run_url g i @ ''/events'') = Some (Run_Page g r True))"
proof (intro conjI allI impI)
  assume "last (place g) \<noteq> ''events''"
  then show "select_page catalog (graph_url g) = Some (Graph_Page g)"
    using select_graph [OF assms] place_root [of g "[]"]
    by (simp add: select_page_def graph_url_path parts_path Let_def)
next
  fix i r assume r: "find (\<lambda>r. web_run_id r = i) (runs_of_graph g) = Some r"
  show "select_page catalog (run_url g i) = Some (Run_Page g r False)" if "i \<noteq> ''events''"
    using that select_run [OF assms r] place_root [of g "[''runs'', i]"]
    by (simp add: select_page_def run_url_path parts_path Let_def)
  have url: "run_url g i @ ''/events'' = path_of (place g @ [''runs'', i, ''events''])"
    unfolding run_url_path path_of_append by (simp add: path_of_def quote_words)
  show "select_page catalog (run_url g i @ ''/events'') = Some (Run_Page g r True)"
    using select_run [OF assms r] place_root [of g "[''runs'', i, ''events'']"]
    by (simp add: select_page_def url parts_path Let_def butlast_append)
qed

definition slashed_graph :: graph_view where
  "slashed_graph = \<lparr>gv_graph_id = ''a/b'', gv_alias = Some ''c%2F'', gv_reachable = Some True, gv_status = Shown ABSENT,
     gv_nodes = [], gv_structure = None, gv_subgraphs = [], gv_runs = [], gv_warnings = [], gv_unmatched = [],
     gv_ambiguous = [], gv_subjects = [], gv_live = []\<rparr>"

theorem links_lead_back_witness:
  "select_page [slashed_graph] ''/connections/c%252F/graphs/a%2Fb'' = Some (Graph_Page slashed_graph)"
proof -
  have "graph_url slashed_graph = ''/connections/c%252F/graphs/a%2Fb''" by code_simp
  moreover have "last (place slashed_graph) \<noteq> ''events''" by (simp add: place_def slashed_graph_def)
  ultimately show ?thesis using links_lead_back [of slashed_graph "[slashed_graph]"] by simp
qed

text \<open>The actions of a page lead back to their target, and to nothing else.\<close>

theorem actions_lead_back:
  "match_approvals (approval_url alias thread_id interrupt_id) = Some (Approval_Detail alias thread_id interrupt_id) \<and>
   match_execute (execute_url g) = map_option (\<lambda>alias. (alias, gv_graph_id g)) (gv_alias g) \<and>
   match_execute (approval_url alias thread_id interrupt_id) = None \<and> match_approvals (execute_url g) = None"
  by (auto simp: match_approvals_def match_execute_def approval_url_path execute_url_path parts_path place_def split: option.split)

lemma select_no_graph:
  assumes "\<And>g. g \<in> set gs \<Longrightarrow> \<not> (\<exists>i. parts = place g @ [''runs'', i])"
  shows "select_from gs parts True = None"
  using assms
proof (induction gs)
  case (Cons g gs)
  have "\<not> (parts = place g @ [''runs'', last parts] \<and> parts \<noteq> [])" using Cons.prems by auto
  then show ?case using Cons unfolding select_from.simps Let_def parts_graph_url run_shape by auto
qed simp

text \<open>The page of a Graph named events is not found.\<close>

lemma events_graph_has_no_page:
  assumes "gv_graph_id g = ''events''" "gv_alias g \<noteq> None \<or> gv_status g \<noteq> AMBIGUOUS"
  shows "select_page catalog (graph_url g) = None"
proof -
  let ?xs = "butlast (place g)"
  have xs: "place g = ?xs @ [''events'']" using assms by (auto simp: place_def split: option.split)
  have "\<not> (\<exists>i. ?xs = place h @ [''runs'', i])" for h
    using assms by (auto simp: place_def split: option.splits if_splits)
  then have "select_from catalog ?xs True = None" by (intro select_no_graph) blast
  moreover have "last (place g) = ''events''" by (subst xs) (rule last_snoc)
  moreover have "place g \<noteq> []" by (subst xs) simp
  ultimately show ?thesis using place_root [of g "[]"] by (simp add: select_page_def graph_url_path parts_path)
qed

end
