(* ===== verification/Entity_Auth.thy ===== *)
theory Entity_Auth
  imports Outside
begin

text \<open>
  \<^verbatim>\<open>entity_auth.py\<close>: the port through which the owning entity authorizes an approval response, with
  its synthetic and its HTTP implementation. The Protocol \<^verbatim>\<open>EntityAuthBoundary\<close> is the locale
  \<open>entity_auth\<close>, which both implementations interpret.
\<close>

text \<open>A revision is a JSON value, null for Python's None.\<close>

record auth_submission =
  as_deployment :: string
  as_assistant :: string
  as_thread_id :: string
  as_interrupt_id :: string
  as_approver :: string
  as_response_value :: json
  as_revision :: json

datatype auth_decision = Auth_Decision (accepted: bool) (reason: string)

definition stale_reason :: string where
  "stale_reason = ''stale: interrupt is no longer pending''"

definition revision_reason :: string where
  "revision_reason = ''revision mismatch: interrupt state has moved on''"

text \<open>The grants: the approvers of a (Deployment, Assistant).\<close>

type_synonym grants = "((string \<times> string) \<times> string list) list"

definition synthetic_authorize ::
  "grants \<Rightarrow> auth_submission \<Rightarrow> json \<Rightarrow> bool \<Rightarrow> (outside \<Rightarrow> auth_decision \<times> outside)" where
  "synthetic_authorize gs sub current_revision still_pending u =
     (if \<not> still_pending then (Auth_Decision False stale_reason, u)
      else if \<not> py_eq (as_revision sub) current_revision then (Auth_Decision False revision_reason, u)
      else
        (let allowed = (case map_of gs (as_deployment sub, as_assistant sub) of None \<Rightarrow> [] | Some as \<Rightarrow> as) in
         if as_approver sub \<notin> set allowed
         then (Auth_Decision False ''unauthorized: approver has no grant for this Deployment/Assistant'', u)
         else (Auth_Decision True ''authorized'', u)))"

definition auth_body :: "auth_submission \<Rightarrow> json" where
  "auth_body sub =
     JObj [(''deployment'', JStr (as_deployment sub)), (''assistant'', JStr (as_assistant sub)),
           (''thread_id'', JStr (as_thread_id sub)), (''interrupt_id'', JStr (as_interrupt_id sub)),
           (''approver'', JStr (as_approver sub)), (''response_value'', as_response_value sub),
           (''revision'', as_revision sub)]"

text \<open>The decision an answer of the entity's port carries, None when it breaks the contract.\<close>

definition parse_decision :: "reply \<Rightarrow> auth_decision option" where
  "parse_decision r =
     (case r of
        Reply status (Some (JObj d)) \<Rightarrow>
          if status \<noteq> 200 then None
          else (case (map_of d ''accepted'', case map_of d ''reason'' of None \<Rightarrow> JStr [] | Some j \<Rightarrow> j) of
                  (Some (JBool a), JStr m) \<Rightarrow>
                    Some (Auth_Decision a (if m \<noteq> [] then m else if a then ''authorized'' else ''rejected''))
                | _ \<Rightarrow> None)
      | _ \<Rightarrow> None)"

definition http_authorize ::
  "env \<Rightarrow> string \<Rightarrow> auth_submission \<Rightarrow> json \<Rightarrow> bool \<Rightarrow> (outside \<Rightarrow> auth_decision \<times> outside)" where
  "http_authorize e auth_ep sub current_revision still_pending u =
     (if \<not> still_pending then (Auth_Decision False stale_reason, u)
      else if \<not> py_eq (as_revision sub) current_revision then (Auth_Decision False revision_reason, u)
      else
        (case http e (Request ''POST'' (rstrip_slash auth_ep @ ''/authorize'') (Some (auth_body sub))) u of
           (r, u') \<Rightarrow>
             ((case parse_decision r of
                 None \<Rightarrow> Auth_Decision False ''authority endpoint unreachable or returned an invalid response''
               | Some d \<Rightarrow> d), u')))"

section \<open>The contract\<close>

text \<open>
  What \<^verbatim>\<open>submit_response\<close> relies on: an accepted submission is for a pending interrupt at the
  revision its approver saw, a submission that is stale or moved on is refused without any call, and
  authorizing creates no execution.
\<close>

locale entity_auth =
  fixes authorize :: "auth_submission \<Rightarrow> json \<Rightarrow> bool \<Rightarrow> outside \<Rightarrow> auth_decision \<times> outside"
  assumes stale_refused: "\<not> pending \<Longrightarrow> authorize sub cur pending u = (Auth_Decision False stale_reason, u)"
    and moved_refused: "pending \<Longrightarrow> \<not> py_eq (as_revision sub) cur \<Longrightarrow>
      authorize sub cur pending u = (Auth_Decision False revision_reason, u)"
    and submits_nothing: "submissions (snd (authorize sub cur pending u)) = submissions u"
begin

lemma accepted_current:
  assumes "accepted (fst (authorize sub cur pending u))"
  shows "pending \<and> py_eq (as_revision sub) cur"
  using assms stale_refused [of pending sub cur u] moved_refused [of pending sub cur u]
  by (cases pending; cases "py_eq (as_revision sub) cur") auto

lemma refused_local:
  assumes "\<not> (pending \<and> py_eq (as_revision sub) cur)"
  shows "snd (authorize sub cur pending u) = u \<and> \<not> accepted (fst (authorize sub cur pending u))"
  using assms stale_refused [of pending sub cur u] moved_refused [of pending sub cur u]
  by (cases pending) auto

end

interpretation synthetic: entity_auth "synthetic_authorize gs" for gs
  by unfold_locales (auto simp: synthetic_authorize_def Let_def)

lemma authorize_no_submission [simp]:
  "\<not> is_submission (Http (Request ''POST'' (ep @ ''/authorize'') b))"
  by (simp add: ends_with_def)

interpretation http_auth: entity_auth "http_authorize e ep" for e ep
proof (unfold_locales, goal_cases)
  case (3 sub cur pending u)
  show ?case
    using authorize_no_submission [of "rstrip_slash ep" "Some (auth_body sub)"]
    by (simp add: http_authorize_def submissions_def http_def del: is_submission.simps)
qed (simp_all add: http_authorize_def)

text \<open>An HTTP decision accepts only what the entity's 200 answer says it accepts.\<close>

lemma parse_decision_accepted:
  "parse_decision r = Some d \<Longrightarrow> accepted d \<Longrightarrow>
   \<exists>f. r = Reply 200 (Some (JObj f)) \<and> map_of f ''accepted'' = Some (JBool True)"
  by (auto simp: parse_decision_def split: reply.splits option.splits json.splits if_splits)

lemma http_authorize_accepted:
  assumes "accepted (fst (http_authorize e ep sub cur pending u))"
  shows "\<exists>f. server e (trace u) (Request ''POST'' (rstrip_slash ep @ ''/authorize'') (Some (auth_body sub))) =
      Reply 200 (Some (JObj f)) \<and> map_of f ''accepted'' = Some (JBool True)"
  using assms parse_decision_accepted
  by (auto simp: http_authorize_def http_def split: if_splits option.splits)

end
