(* ===== verification/Approval_Inbox.thy ===== *)
theory Approval_Inbox
  imports Router Entity_Auth
begin

text \<open>
  \<^verbatim>\<open>approval_inbox.py\<close>: discovery of the interrupts that wait on registered Deployments, and the
  path of one operator's response through startup, response claim, authorization and resume. The
  authorization boundary is an argument; the backend is the Aegra adapter with the board's store.
\<close>

datatype submission_result = Submission_Result (sr_status: string) (sr_reason: "string option")

record waiting_interrupt =
  wi_deployment :: string
  wi_assistant :: string
  wi_subject :: "string option"
  wi_logical_run_id :: string
  wi_thread_id :: string
  wi_interrupt_id :: json
  wi_value :: json
  wi_revision :: json

section \<open>Reading a Thread's state\<close>

definition revision_of :: "json \<Rightarrow> exn + json" where
  "revision_of st =
     (case get_attr st ''checkpoint'' of
        Inl x \<Rightarrow> Inl x
      | Inr c \<Rightarrow>
     (case get_attr (or_default c (JObj [])) ''checkpoint_id'' of
        Inl x \<Rightarrow> Inl x
      | Inr i \<Rightarrow>
     (case get_attr st ''checkpoint_id'' of
        Inl x \<Rightarrow> Inl x
      | Inr k \<Rightarrow> Inr (or_default i (case k of None \<Rightarrow> JNull | Some v \<Rightarrow> v)))))"

text \<open>A completed branch keeps its interrupt beside its result; such a task is skipped.\<close>

definition task_interrupts :: "json \<Rightarrow> exn + json list" where
  "task_interrupts task =
     (case get_attr task ''result'' of
        Inl x \<Rightarrow> Inl x
      | Inr r \<Rightarrow>
          if r \<noteq> None \<and> r \<noteq> Some JNull then Inr []
          else
     (case get_attr task ''interrupts'' of
        Inl x \<Rightarrow> Inl x
      | Inr is \<Rightarrow> iter_json (or_default is (JArr []))))"

definition interrupts_of :: "json \<Rightarrow> exn + json list" where
  "interrupts_of st =
     (case get_attr st ''tasks'' of
        Inl x \<Rightarrow> Inl x
      | Inr ts \<Rightarrow>
     (case iter_json (or_default ts (JArr [])) of
        Inl x \<Rightarrow> Inl x
      | Inr tasks \<Rightarrow> collect_all task_interrupts tasks))"

text \<open>\<^verbatim>\<open>{i['id'] for i in ...}\<close>: a list or dict cannot be in a set.\<close>

definition hashable_id :: "json \<Rightarrow> exn + json list" where
  "hashable_id i =
     (case field i ''id'' of
        Inl x \<Rightarrow> Inl x
      | Inr (JArr _) \<Rightarrow> Inl (Exn PyTypeError ''unhashable type'')
      | Inr (JObj _) \<Rightarrow> Inl (Exn PyTypeError ''unhashable type'')
      | Inr j \<Rightarrow> Inr [j])"

definition is_pending :: "json \<Rightarrow> string \<Rightarrow> exn + bool" where
  "is_pending st interrupt_id =
     (case interrupts_of st of
        Inl x \<Rightarrow> Inl x
      | Inr is \<Rightarrow>
          (case collect_all hashable_id is of Inl x \<Rightarrow> Inl x | Inr ids \<Rightarrow> Inr (JStr interrupt_id \<in> set ids)))"

section \<open>Discovery\<close>

datatype probe = Probe run_info json

definition probe_thread :: "env \<Rightarrow> string \<Rightarrow> string \<Rightarrow> string \<Rightarrow> (outside, probe option) prog" where
  "probe_thread e ep thread_id invocation_id =
     andthen (run_status e ep thread_id invocation_id) (\<lambda>st.
       if st \<noteq> RT_INTERRUPTED then ret None
       else
         andthen (get_run e ep thread_id invocation_id) (\<lambda>info.
         andthen (get_state e ep thread_id) (\<lambda>s. ret (Some (Probe info s)))))"

definition waiting_of ::
  "string \<Rightarrow> string \<Rightarrow> string \<Rightarrow> run_info \<Rightarrow> json \<Rightarrow> json \<Rightarrow> exn + waiting_interrupt list" where
  "waiting_of deployment thread_id logical info rv i =
     (case field i ''id'' of
        Inl x \<Rightarrow> Inl x
      | Inr iid \<Rightarrow>
     (case get_attr i ''value'' of
        Inl x \<Rightarrow> Inl x
      | Inr v \<Rightarrow>
          Inr [\<lparr>wi_deployment = deployment, wi_assistant = ri_assistant_id info, wi_subject = ri_subject info,
                wi_logical_run_id = logical, wi_thread_id = thread_id, wi_interrupt_id = iid,
                wi_value = (case v of None \<Rightarrow> JNull | Some j \<Rightarrow> j), wi_revision = rv\<rparr>]))"

definition last_run_id :: "continuity \<Rightarrow> exn + string" where
  "last_run_id rec =
     (case api_run_ids rec of [] \<Rightarrow> Inl (Exn PyIndexError ''list index out of range'') | _ \<Rightarrow> Inr (last (api_run_ids rec)))"

definition discover_thread ::
  "env \<Rightarrow> string \<Rightarrow> connection \<Rightarrow> string \<Rightarrow> continuity \<Rightarrow> seconds \<Rightarrow> seconds \<Rightarrow> seconds \<Rightarrow>
   (world, waiting_interrupt list) prog" where
  "discover_thread e deployment conn thread_id rec reminder_after timeout_after now =
     andthen (attempt (last_run_id rec)) (\<lambda>latest.
     andthen (tried is_transport_failure (on_out (probe_thread e (endpoint conn) thread_id latest))) (\<lambda>r.
       case r of
         Inl _ \<Rightarrow> ret []
       | Inr None \<Rightarrow> ret []
       | Inr (Some (Probe info st)) \<Rightarrow>
           andthen (attempt (interrupts_of st)) (\<lambda>is.
             if is = [] then ret []
             else
               andthen (on_approvals (record_waiting deployment thread_id (logical_id rec) now
                          reminder_after timeout_after)) (\<lambda>_.
               andthen (attempt (revision_of st)) (\<lambda>rv.
               attempt (collect_all (waiting_of deployment thread_id (logical_id rec) info rv) is))))))"

definition discover_waiting ::
  "env \<Rightarrow> seconds \<Rightarrow> seconds \<Rightarrow> seconds \<Rightarrow> (world, waiting_interrupt list) prog" where
  "discover_waiting e reminder_after timeout_after now =
     andthen (on_conns (reading load_connections)) (\<lambda>conns.
     andthen (on_continuity (reading load_run_continuity)) (\<lambda>cont.
     for_collect cont (\<lambda>dt.
       case map_of conns (fst dt) of
         None \<Rightarrow> ret []
       | Some conn \<Rightarrow>
           for_collect (snd dt) (\<lambda>tr.
             discover_thread e (fst dt) conn (fst tr) (snd tr) reminder_after timeout_after now))))"

definition discover_waiting_for_thread ::
  "env \<Rightarrow> string \<Rightarrow> string \<Rightarrow> seconds \<Rightarrow> seconds \<Rightarrow> seconds \<Rightarrow> (world, waiting_interrupt list) prog" where
  "discover_waiting_for_thread e deployment thread_id reminder_after timeout_after now =
     andthen (on_conns (reading load_connections)) (\<lambda>conns.
       case map_of conns deployment of
         None \<Rightarrow> ret []
       | Some conn \<Rightarrow>
           andthen (on_continuity (reading load_run_continuity)) (\<lambda>cont.
             case lookup2 cont deployment thread_id of
               None \<Rightarrow> ret []
             | Some rec \<Rightarrow> discover_thread e deployment conn thread_id rec reminder_after timeout_after now))"

section \<open>One operator's response\<close>

record response_request =
  q_deployment :: string
  q_thread_id :: string
  q_interrupt_id :: string
  q_approver :: string
  q_value :: json
  q_revision :: json

type_synonym auth_port = "auth_submission \<Rightarrow> json \<Rightarrow> bool \<Rightarrow> outside \<Rightarrow> auth_decision \<times> outside"

datatype identity = Identity string "string option"

definition identity_failure :: "exc_class \<Rightarrow> bool" where
  "identity_failure c = (c = PyRuntimeError \<or> c = UnknownThread)"

text \<open>The Assistant and Subject of the Thread's latest invocation, empty when they cannot be read.\<close>

definition response_identity :: "env \<Rightarrow> connection \<Rightarrow> response_request \<Rightarrow> bool \<Rightarrow> (world, identity) prog" where
  "response_identity e conn q still_pending =
     (if \<not> still_pending then ret (Identity [] None)
      else
        andthen (tried identity_failure
          (andthen (on_continuity (logical_run (q_deployment q) (q_thread_id q))) (\<lambda>rec.
           andthen (attempt (last_run_id rec)) (\<lambda>latest.
           on_out (get_run e (endpoint conn) (q_thread_id q) latest))))) (\<lambda>r.
        case r of
          Inl _ \<Rightarrow> ret (Identity [] None)
        | Inr info \<Rightarrow> ret (Identity (ri_assistant_id info) (ri_subject info))))"

definition record_response :: "response_request \<Rightarrow> string \<Rightarrow> seconds \<Rightarrow> (world, unit) prog" where
  "record_response q out now =
     on_responses (discard (record_outcome (q_deployment q) (q_thread_id q) (q_interrupt_id q) out now))"

text \<open>After a resume that came back: settle the tracked Run by what the wait observed.\<close>

definition keep_deployment :: "(routing, unit) prog" where
  "keep_deployment = changing (\<lambda>r. r\<lparr>r_retain_deployment := True\<rparr>)"

definition track_resumed ::
  "response_request \<Rightarrow> string \<Rightarrow> string option \<Rightarrow> int \<Rightarrow> execution_result \<Rightarrow> bool \<Rightarrow> seconds \<Rightarrow> (routing, unit) prog" where
  "track_resumed q assistant subject depth res deployment_held now =
     in_world (on_pending (record_pending (q_deployment q) (q_thread_id q) (xr_invocation_id res)
       assistant (case subject of None \<Rightarrow> [] | Some s \<Rightarrow> s) depth False deployment_held now))"

definition settle_resumed ::
  "env \<Rightarrow> seconds \<Rightarrow> seconds \<Rightarrow> response_request \<Rightarrow> string \<Rightarrow> string option \<Rightarrow> int \<Rightarrow> execution_result \<Rightarrow>
   (routing, unit) prog" where
  "settle_resumed e timeout now q assistant subject depth res =
     (if xr_status res = RT_SUCCEEDED then
        andthen (in_world (on_pending (discard (resolve_pending (q_deployment q) (q_thread_id q))))) (\<lambda>_.
        case subject of
          None \<Rightarrow> ret ()
        | Some s \<Rightarrow>
            if s = [] \<or> assistant = [] then ret ()
            else
              andthen (attempt (run_finished_signal
                 (case xr_logical_run_id res of None \<Rightarrow> [] | Some l \<Rightarrow> l) s (q_deployment q) assistant
                 ''success'' depth)) (\<lambda>finished.
              in_world (discard (route_signal e timeout now finished))))
      else if xr_status res = RT_INTERRUPTED then track_resumed q assistant subject depth res False now
      else if xr_wait_outcome res = WO_DEADLINE_REACHED then
        andthen keep_deployment (\<lambda>_. track_resumed q assistant subject depth res True now)
      else if xr_wait_outcome res = WO_TRANSPORT_ERROR then keep_deployment
      else ret ())"

definition is_unknown_approval :: "exc_class \<Rightarrow> bool" where
  "is_unknown_approval c = (c = UnknownWaitingApproval)"

text \<open>The answer of the operator, for the one interrupt it targets.\<close>

definition resume_value :: "response_request \<Rightarrow> json" where
  "resume_value q = JObj [(q_interrupt_id q, q_value q)]"

definition resume_authorized ::
  "env \<Rightarrow> seconds \<Rightarrow> seconds \<Rightarrow> response_request \<Rightarrow> connection \<Rightarrow> string \<Rightarrow> string option \<Rightarrow>
   (routing, submission_result) prog" where
  "resume_authorized e timeout now q conn assistant subject0 =
     andthen (in_world (on_pending (get_pending (q_deployment q) (q_thread_id q)))) (\<lambda>pend.
     let depth = (case pend of None \<Rightarrow> 0 | Some p \<Rightarrow> p_cascade_depth p);
         subject = (if (subject0 = None \<or> subject0 = Some []) \<and> pend \<noteq> None
                    then Some (p_subject (the pend)) else subject0)
     in
     andthen (tried is_transport_failure (in_world (on_backend
       (backend_resume e (Some (q_deployment q)) (endpoint conn) (q_thread_id q) assistant
          (resume_value q) timeout)))) (\<lambda>outcome.
     case outcome of
       Inl _ \<Rightarrow>
         andthen (in_world (record_response q UNKNOWN now)) (\<lambda>_.
         andthen keep_deployment (\<lambda>_.
         ret (Submission_Result ''unknown'' (Some ''resume submission had an ambiguous transport outcome''))))
     | Inr res \<Rightarrow>
         andthen (in_world (record_response q RESUMED now)) (\<lambda>_.
         andthen (discard (tried is_unknown_approval (in_world (on_approvals
           (resolve_approved (q_deployment q) (q_thread_id q) now))))) (\<lambda>_.
         andthen (settle_resumed e timeout now q assistant subject depth res) (\<lambda>_.
         ret (Submission_Result ''resumed'' None))))))"

definition auth_submission_of :: "response_request \<Rightarrow> string \<Rightarrow> auth_submission" where
  "auth_submission_of q assistant =
     \<lparr>as_deployment = q_deployment q, as_assistant = assistant, as_thread_id = q_thread_id q,
      as_interrupt_id = q_interrupt_id q, as_approver = q_approver q, as_response_value = q_value q,
      as_revision = q_revision q\<rparr>"

definition ask_port :: "auth_port \<Rightarrow> auth_submission \<Rightarrow> json \<Rightarrow> bool \<Rightarrow> (outside, auth_decision) prog" where
  "ask_port auth sub current_revision still_pending u =
     (case auth sub current_revision still_pending u of (decision, u') \<Rightarrow> (Inr decision, u'))"

definition authorize_response ::
  "env \<Rightarrow> auth_port \<Rightarrow> seconds \<Rightarrow> seconds \<Rightarrow> response_request \<Rightarrow> connection \<Rightarrow> json \<Rightarrow>
   (routing, submission_result) prog" where
  "authorize_response e auth timeout now q conn st =
     andthen (attempt (is_pending st (q_interrupt_id q))) (\<lambda>still_pending.
     andthen (attempt (revision_of st)) (\<lambda>current_revision.
     andthen (in_world (response_identity e conn q still_pending)) (\<lambda>ident.
     case ident of Identity assistant subject \<Rightarrow>
       andthen (in_world (on_out
         (ask_port auth (auth_submission_of q assistant) current_revision still_pending))) (\<lambda>decision.
       if \<not> accepted decision then
         andthen (in_world (record_response q REJECTED now)) (\<lambda>_.
         ret (Submission_Result ''rejected'' (Some (reason decision))))
       else resume_authorized e timeout now q conn assistant subject))))"

definition respond_body ::
  "env \<Rightarrow> auth_port \<Rightarrow> seconds \<Rightarrow> seconds \<Rightarrow> response_request \<Rightarrow> connection \<Rightarrow> (routing, submission_result) prog" where
  "respond_body e auth timeout now q conn =
     andthen (in_world (on_responses
       (claim_response (q_deployment q) (q_thread_id q) (q_interrupt_id q) now))) (\<lambda>claimed.
     if \<not> claimed then
       ret (Submission_Result ''duplicate'' (Some ''a response to this interrupt was already claimed''))
     else
       andthen (tried is_transport_failure (in_world (on_out (get_state e (endpoint conn) (q_thread_id q))))) (\<lambda>r.
       case r of
         Inl _ \<Rightarrow>
           andthen (in_world (record_response q UNKNOWN now)) (\<lambda>_.
           ret (Submission_Result ''unknown'' (Some ''could not read current Thread state'')))
       | Inr st \<Rightarrow> authorize_response e auth timeout now q conn st))"

definition release_response :: "seconds \<Rightarrow> response_request \<Rightarrow> connection \<Rightarrow> (routing, unit) prog" where
  "release_response now q conn r =
     only_if (\<not> r_retain_deployment r)
       (in_world (on_life (release_active (q_deployment q) conn now))) r"

definition guarded_response ::
  "env \<Rightarrow> auth_port \<Rightarrow> seconds \<Rightarrow> seconds \<Rightarrow> response_request \<Rightarrow> connection \<Rightarrow> (world, submission_result) prog" where
  "guarded_response e auth timeout now q conn w =
     (case ensuring (respond_body e auth timeout now q conn) (release_response now q conn)
             \<lparr>r_world = w, r_retain_deployment = False, r_retain_concurrency = False\<rparr> of
        (res, r) \<Rightarrow> (res, r_world r))"

definition submit_response ::
  "env \<Rightarrow> auth_port \<Rightarrow> seconds \<Rightarrow> seconds \<Rightarrow> response_request \<Rightarrow> (world, submission_result) prog" where
  "submit_response e auth timeout now q =
     andthen (on_conns (reading load_connections)) (\<lambda>conns.
       case map_of conns (q_deployment q) of
         None \<Rightarrow> throw ApprovalInboxError (''unknown deployment alias '' @ quoted (q_deployment q))
       | Some conn \<Rightarrow>
           andthen (on_host (ensure_started e (q_deployment q) conn now HEALTH_TIMEOUT)) (\<lambda>started.
             case started of
               Start_Failed m \<Rightarrow> ret (Submission_Result ''deployment_unavailable'' (Some m))
             | _ \<Rightarrow> guarded_response e auth timeout now q conn))"

end
