(* ===== verification/Router_Facts.thy ===== *)
theory Router_Facts
  imports Router
begin

text \<open>
  What one routed Signal does to the board: the frame and the invariant of every step of
  \<^verbatim>\<open>route_signal\<close>, when it submits, and which claims it leaves.
\<close>

section \<open>The protected block\<close>

text \<open>The stores the protected block of \<^verbatim>\<open>route_signal\<close> does not touch.\<close>

definition same_stores :: "world \<Rightarrow> world \<Rightarrow> bool" where
  "same_stores w w' =
     (w_rules w' = w_rules w \<and> w_conns w' = w_conns w \<and> w_responses w' = w_responses w \<and>
      w_expiry w' = w_expiry w)"

lemma same_stores_refl [simp]: "same_stores w w"
  by (simp add: same_stores_def)

lemma same_stores_trans: "same_stores u v \<Longrightarrow> same_stores v w \<Longrightarrow> same_stores u w"
  by (simp add: same_stores_def)

definition subs :: "world \<Rightarrow> event list" where
  "subs w = submissions (w_out w)"

definition signal_recorded :: "seconds \<Rightarrow> string \<Rightarrow> world \<Rightarrow> bool" where
  "signal_recorded now i w = (map_of (content (w_signals w)) i = Some \<lparr>claimed_at = now\<rparr>)"

definition signal_known :: "seconds \<Rightarrow> string \<Rightarrow> world \<Rightarrow> bool" where
  "signal_known now i w = signal_live now DEFAULT_RETENTION_SECONDS (w_signals w) i"

text \<open>The unexpired claims of Signal IDs survive.\<close>

definition signals_kept :: "seconds \<Rightarrow> world \<Rightarrow> world \<Rightarrow> bool" where
  "signals_kept now w w' =
     (\<forall>j c. map_of (content (w_signals w)) j = Some c \<and> now - claimed_at c < DEFAULT_RETENTION_SECONDS \<longrightarrow>
        map_of (content (w_signals w')) j = Some c)"

lemma signals_kept_same: "w_signals w' = w_signals w \<Longrightarrow> signals_kept now w w'"
  by (simp add: signals_kept_def)

lemma signals_kept_trans: "signals_kept now u v \<Longrightarrow> signals_kept now v w \<Longrightarrow> signals_kept now u w"
  by (simp add: signals_kept_def)

text \<open>One submission, of a Signal that had no live claim and now has one.\<close>

definition submitted_once :: "seconds \<Rightarrow> string \<Rightarrow> world \<Rightarrow> world \<Rightarrow> bool" where
  "submitted_once now i w w' =
     (\<not> signal_known now i w \<and> signal_recorded now i w' \<and> (\<exists>rq. subs w' = Http rq # subs w))"

text \<open>The pending completion a waiting Run leaves.\<close>

definition waiting_entry :: "target \<Rightarrow> seconds \<Rightarrow> exec_result \<Rightarrow> pending" where
  "waiting_entry t now res =
     \<lparr>p_deployment = t_alias t, p_thread_id = er_thread_id res, p_invocation_id = er_run_id res,
      p_assistant = t_assistant t, p_subject = t_subject t, p_cascade_depth = t_depth t,
      p_concurrency_held = (er_status res = Waiting Deadline),
      p_deployment_held = (er_status res = Waiting Deadline), p_recorded_at = now\<rparr>"

definition still_running :: "exec_result \<Rightarrow> bool" where
  "still_running res = (er_status res = Waiting Deadline \<and> has_ids res)"

definition remembered :: "target \<Rightarrow> seconds \<Rightarrow> exec_result \<Rightarrow> world \<Rightarrow> bool" where
  "remembered t now res w =
     (has_ids res \<and> (\<exists>why. er_status res = Waiting why) \<longrightarrow>
      pending_entry (w_pending w) (t_alias t) (er_thread_id res) = Some (waiting_entry t now res))"

lemma record_result_wp:
  assumes "world_ok (r_world s)" "\<not> r_retain_deployment s" "\<not> r_retain_concurrency s"
  shows "wp (record_result t now res) (\<lambda>r s'.
    world_ok (r_world s') \<and> same_stores (r_world s) (r_world s') \<and>
    w_claims (r_world s') = w_claims (r_world s) \<and> w_signals (r_world s') = w_signals (r_world s) \<and>
    w_unmatched (r_world s') = w_unmatched (r_world s) \<and> w_out (r_world s') = w_out (r_world s) \<and>
    (r = Inr () \<longrightarrow> r_retain_deployment s' = still_running res \<and> r_retain_concurrency s' = still_running res \<and>
      remembered t now res (r_world s'))) s"
proof -
  have ci: "continuity_inv (w_cont (r_world s))" and pi: "pending_inv (w_pending (r_world s))"
    using assms(1) by (simp_all add: world_ok_def)
  note sub = record_submission_wp [OF ci, of "t_alias t" "er_thread_id res" "er_run_id res"]
  note pend = record_pending_wp [OF pi, of "t_alias t" "er_thread_id res" "er_run_id res" "t_assistant t" "t_subject t" "t_depth t"]
  show ?thesis
  proof (cases "has_ids res")
    case False
    with assms show ?thesis
      by (auto simp: record_result_def still_running_def remembered_def split: exec_status.splits)
  next
    case True
    show ?thesis
      unfolding record_result_def in_world_def on_continuity_def on_pending_def
      using assms True
      by (auto simp: Let_def still_running_def remembered_def waiting_entry_def same_stores_def signals_kept_def world_ok_def
          intro!: wp_mono [OF sub] wp_mono [OF pend]
          split: exec_status.splits sum.splits)
        (metis wait_reason.exhaust)+
  qed
qed

text \<open>What the protected block leaves, per outcome.\<close>

definition body_outcome :: "seconds \<Rightarrow> target \<Rightarrow> world \<Rightarrow> exn + route_response \<Rightarrow> routing \<Rightarrow> bool" where
  "body_outcome now t w r s =
     (case r of
        Inl _ \<Rightarrow> subs (r_world s) = subs w \<or> submitted_once now (t_signal_id t) w (r_world s)
      | Inr (Deployment_Unavailable _ _ _) \<Rightarrow>
          subs (r_world s) = subs w \<and> w_signals (r_world s) = w_signals w \<and>
          \<not> r_retain_deployment s \<and> \<not> r_retain_concurrency s
      | Inr (Duplicate _ _) \<Rightarrow>
          subs (r_world s) = subs w \<and> signal_known now (t_signal_id t) w \<and>
          \<not> r_retain_deployment s \<and> \<not> r_retain_concurrency s
      | Inr (Execution_Failed _ _ _) \<Rightarrow>
          (subs (r_world s) = subs w \<or> submitted_once now (t_signal_id t) w (r_world s)) \<and>
          \<not> signal_known now (t_signal_id t) w \<and> signal_recorded now (t_signal_id t) (r_world s) \<and>
          \<not> r_retain_deployment s \<and> \<not> r_retain_concurrency s
      | Inr (Routed i rn res c) \<Rightarrow>
          i = t_signal_id t \<and> rn = t_rule_name t \<and> c = None \<and>
          submitted_once now (t_signal_id t) w (r_world s) \<and> remembered t now res (r_world s) \<and>
          r_retain_deployment s = still_running res \<and> r_retain_concurrency s = still_running res
      | Inr _ \<Rightarrow> False)"

lemma execute_submits_wp:
  "wp (execute e ep a sub inp ctx timeout cb n) (\<lambda>r u'.
     ((\<exists>x. r = Inl x) \<and> submissions u' = submissions u) \<or>
     (\<exists>rq. submissions u' = Http rq # submissions u)) u"
  by (rule wp_mono [OF execute_wp]) blast

text \<open>The state of the protected block before anything is retained.\<close>

definition unretained :: "routing \<Rightarrow> bool" where
  "unretained s = (\<not> r_retain_deployment s \<and> \<not> r_retain_concurrency s)"

definition body_frame :: "seconds \<Rightarrow> routing \<Rightarrow> routing \<Rightarrow> bool" where
  "body_frame now s s' =
     (world_ok (r_world s') \<and> same_stores (r_world s) (r_world s') \<and>
      w_claims (r_world s') = w_claims (r_world s) \<and> w_unmatched (r_world s') = w_unmatched (r_world s) \<and>
      signals_kept now (r_world s) (r_world s'))"

lemma submit_claimed_wp:
  assumes w: "world_ok (r_world s)" "unretained s"
  shows "wp (submit_claimed e timeout now t) (\<lambda>r s'.
      body_frame now s s' \<and> w_signals (r_world s') = w_signals (r_world s) \<and>
      (subs (r_world s') = subs (r_world s) \<or> (\<exists>rq. subs (r_world s') = Http rq # subs (r_world s))) \<and>
      (\<forall>resp. r = Inr resp \<longrightarrow>
         (\<exists>m. resp = Execution_Failed (t_signal_id t) (t_rule_name t) m \<and> unretained s') \<or>
         (\<exists>res. resp = Routed (t_signal_id t) (t_rule_name t) res None \<and>
            (\<exists>rq. subs (r_world s') = Http rq # subs (r_world s)) \<and> remembered t now res (r_world s') \<and>
            r_retain_deployment s' = still_running res \<and> r_retain_concurrency s' = still_running res))) s"
proof -
  note exec = execute_submits_wp [of e "endpoint (t_conn t)" "t_assistant t" "t_subject t" "JObj (t_input t)" None
      timeout "t_caused_by t" "t_depth t" "w_out (r_world s)"]
  have rec: "wp (record_result t now res) (\<lambda>r s'.
      body_frame now s s' \<and> w_signals (r_world s') = w_signals (r_world s) \<and> w_out (r_world s') = u \<and>
      (r = Inr () \<longrightarrow> r_retain_deployment s' = still_running res \<and> r_retain_concurrency s' = still_running res \<and>
        remembered t now res (r_world s')))
     (s\<lparr>r_world := (r_world s)\<lparr>w_out := u\<rparr>\<rparr>)" for res u
    by (rule wp_mono [OF record_result_wp])
      (use w in \<open>auto simp: world_ok_def unretained_def body_frame_def same_stores_def signals_kept_def\<close>)
  have ok: "world_ok ((r_world s)\<lparr>w_out := u\<rparr>)" for u using w by (simp add: world_ok_def)
  show ?thesis
    unfolding submit_claimed_def in_world_def on_out_def
    using w ok
    by (auto intro!: wp_mono [OF exec] wp_mono [OF rec]
        simp: subs_def body_frame_def same_stores_def signals_kept_def unretained_def)
qed

lemma claim_and_submit_wp:
  assumes w: "world_ok (r_world s)" "unretained s"
  shows "wp (claim_and_submit e timeout now t) (\<lambda>r s'.
      body_frame now s s' \<and> body_outcome now t (r_world s) r s' \<and>
      (\<forall>rn m x. r \<noteq> Inr (Deployment_Unavailable rn m x))) s"
proof -
  let ?w = "r_world s"
  have fs: "file_ok (w_signals ?w)" using w by (simp add: world_ok_def)
  note claim = claim_signal_wp [OF fs, of "t_signal_id t" now DEFAULT_RETENTION_SECONDS]
  have ok: "world_ok (?w\<lparr>w_signals := f\<rparr>)" if "file_ok f" for f
    using w that by (simp add: world_ok_def)
  have go: "wp (submit_claimed e timeout now t) (\<lambda>r s'.
      body_frame now s s' \<and> body_outcome now t ?w r s' \<and> (\<forall>rn m x. r \<noteq> Inr (Deployment_Unavailable rn m x)))
     (s\<lparr>r_world := ?w\<lparr>w_signals := f\<rparr>\<rparr>)"
    if f: "file_ok f" "\<not> signal_known now (t_signal_id t) ?w"
      "map_of (content f) (t_signal_id t) = Some \<lparr>claimed_at = now\<rparr>"
      "\<forall>j c. map_of (content (w_signals ?w)) j = Some c \<and> now - claimed_at c < DEFAULT_RETENTION_SECONDS \<longrightarrow>
        map_of (content f) j = Some c" for f
  proof (rule wp_mono [OF submit_claimed_wp], goal_cases)
    case (3 r s')
    then show ?case
      using f(2,3,4)
      by (cases r) (auto simp: body_outcome_def body_frame_def subs_def submitted_once_def signal_recorded_def
          same_stores_def signals_kept_def unretained_def)
  qed (use w ok [OF f(1)] in \<open>simp_all add: unretained_def\<close>)
  show ?thesis
    unfolding claim_and_submit_def in_world_def on_signals_def
    using w
    by (auto intro!: wp_mono [OF claim] go simp: signal_known_def)
      (auto simp: body_outcome_def body_frame_def subs_def same_stores_def signals_kept_def unretained_def signal_known_def ok)
qed

lemma route_body_wp:
  assumes w: "world_ok (r_world s)" "unretained s"
  shows "wp (route_body e timeout now t) (\<lambda>r s'.
      body_frame now s s' \<and> body_outcome now t (r_world s) r s') s"
proof -
  let ?w = "r_world s"
  let ?w' = "\<lambda>h. ?w\<lparr>w_life := fst h, w_out := snd h\<rparr>"
  have fl: "file_ok (fst (w_life ?w, w_out ?w))" using w by (simp add: world_ok_def)
  note start = ensure_started_wp [OF fl, of e "t_alias t" "t_conn t" now HEALTH_TIMEOUT]
  have ok: "world_ok (?w' h)" if "file_ok (fst h)" for h
    using w that by (simp add: world_ok_def)
  have go: "wp (claim_and_submit e timeout now t) (\<lambda>r s'.
      body_frame now s s' \<and> body_outcome now t ?w r s') (s\<lparr>r_world := ?w' h\<rparr>)"
    if h: "file_ok (fst h)" "submissions (snd h) = submissions (w_out ?w)" for h
  proof (rule wp_mono [OF claim_and_submit_wp], goal_cases)
    case (3 r s')
    then show ?case
      using h(2)
      by (cases r; (cases "projr r")?) (auto simp: body_outcome_def body_frame_def subs_def submitted_once_def
          signal_recorded_def signal_known_def same_stores_def signals_kept_def)
  qed (use w ok [OF h(1)] in \<open>simp_all add: unretained_def\<close>)
  show ?thesis
    unfolding route_body_def in_world_def on_host_def
    using w
    by (auto intro!: wp_mono [OF start] go split: started.splits)
      (auto simp: body_outcome_def body_frame_def subs_def same_stores_def signals_kept_def unretained_def world_ok_def)
qed

section \<open>The claims a call leaves\<close>

definition target_pair :: "target \<Rightarrow> claim_pair" where
  "target_pair t = Claim_Pair (t_assistant t) (t_subject t)"

definition claims :: "world \<Rightarrow> claim_pair \<Rightarrow> claim option" where
  "claims w = pair_claim (w_claims w)"

lemma release_claims_wp:
  assumes w: "world_ok (r_world s)" and v: "pair_valid (target_pair t)"
  shows "wp (release_claims now t) (\<lambda>r s'. r = Inr () \<and> world_ok (r_world s') \<and>
      r_world s' = (r_world s)\<lparr>w_life := w_life (r_world s'), w_claims := w_claims (r_world s')\<rparr> \<and>
      claims (r_world s') =
        (if r_retain_concurrency s then claims (r_world s) else (claims (r_world s))(target_pair t := None))) s"
proof -
  have fl: "file_ok (w_life (r_world s))" and fc: "file_ok (w_claims (r_world s))"
    using w by (simp_all add: world_ok_def)
  note rel = release_active_wp [OF fl, of "t_alias t" "t_conn t" now]
  note relc = release_concurrency_wp [OF fc v [unfolded target_pair_def]]
  have wr: "wp (release_claims now t) Q s \<longleftrightarrow>
      wp (andthen (only_if (\<not> r_retain_deployment s)
       (in_world (on_life (release_active (t_alias t) (t_conn t) now)))) (\<lambda>_.
     only_if (\<not> r_retain_concurrency s)
       (in_world (on_claims (release_concurrency (t_assistant t) (t_subject t)))))) Q s" for Q
    by (simp add: wp_def release_claims_def)
  show ?thesis
    unfolding wr in_world_def on_life_def on_claims_def
    using w
    by (auto intro!: wp_mono [OF rel] wp_mono [OF relc] simp: claims_def target_pair_def)
      (auto simp: world_ok_def)
qed

definition claim_kept :: "target \<Rightarrow> world \<Rightarrow> world \<Rightarrow> bool" where
  "claim_kept t w w' = (claims w' = claims w)"

definition claim_released :: "target \<Rightarrow> world \<Rightarrow> world \<Rightarrow> bool" where
  "claim_released t w w' = (claims w' = (claims w)(target_pair t := None))"

text \<open>What the whole protected call leaves, per outcome.\<close>

definition call_outcome :: "seconds \<Rightarrow> target \<Rightarrow> world \<Rightarrow> exn + route_response \<Rightarrow> world \<Rightarrow> bool" where
  "call_outcome now t w r w' =
     (case r of
        Inl _ \<Rightarrow> (subs w' = subs w \<or> submitted_once now (t_signal_id t) w w') \<and>
          (claim_kept t w w' \<or> claim_released t w w')
      | Inr (Deployment_Unavailable _ _ _) \<Rightarrow>
          subs w' = subs w \<and> w_signals w' = w_signals w \<and> claim_released t w w'
      | Inr (Duplicate _ _) \<Rightarrow>
          subs w' = subs w \<and> signal_known now (t_signal_id t) w \<and> claim_released t w w'
      | Inr (Execution_Failed _ _ _) \<Rightarrow>
          (subs w' = subs w \<or> submitted_once now (t_signal_id t) w w') \<and>
          \<not> signal_known now (t_signal_id t) w \<and> signal_recorded now (t_signal_id t) w' \<and>
          claim_released t w w'
      | Inr (Routed i rn res c) \<Rightarrow>
          i = t_signal_id t \<and> rn = t_rule_name t \<and> c = None \<and>
          submitted_once now (t_signal_id t) w w' \<and> remembered t now res w' \<and>
          (if still_running res then claim_kept t w w' else claim_released t w w')
      | Inr _ \<Rightarrow> False)"

lemma guarded_body_wp:
  assumes w: "world_ok w" and v: "pair_valid (target_pair t)"
  shows "wp (guarded_body e timeout now t) (\<lambda>r w'. world_ok w' \<and> same_stores w w' \<and> signals_kept now w w' \<and>
      w_unmatched w' = w_unmatched w \<and> call_outcome now t w r w') w"
proof -
  let ?s = "\<lparr>r_world = w, r_retain_deployment = False, r_retain_concurrency = False\<rparr>"
  have wg: "wp (guarded_body e timeout now t) Q w \<longleftrightarrow>
      wp (ensuring (route_body e timeout now t) (release_claims now t)) (\<lambda>r s. Q r (r_world s)) ?s" for Q
    by (simp add: wp_def guarded_body_def split: prod.splits)
  have s: "world_ok (r_world ?s)" "unretained ?s" using w by (simp_all add: unretained_def)
  have fin: "wp (release_claims now t) (\<lambda>rf s''. (\<exists>u. rf = Inr u) \<and> world_ok (r_world s'') \<and> same_stores w (r_world s'') \<and> signals_kept now w (r_world s'') \<and>
      w_unmatched (r_world s'') = w_unmatched w \<and> call_outcome now t w r (r_world s'')) s'"
    if b: "body_frame now ?s s'" "body_outcome now t (r_world ?s) r s'" for r s'
  proof (rule wp_mono [OF release_claims_wp [OF _ v]], goal_cases)
    case 1
    show ?case using b(1) by (simp add: body_frame_def)
  next
    case (2 rf s'')
    then obtain wl wc where e: "r_world s'' = (r_world s')\<lparr>w_life := wl, w_claims := wc\<rparr>" by metis
    have c: "claims (r_world s') = claims w" using b(1) by (simp add: body_frame_def claims_def)
    have same: "subs (r_world s'') = subs (r_world s')" "w_signals (r_world s'') = w_signals (r_world s')"
      "w_pending (r_world s'') = w_pending (r_world s')" using e by (simp_all add: subs_def)
    show ?case
      using 2 b c same e
      by (cases r; (cases "projr r")?)
        (auto simp: body_frame_def body_outcome_def call_outcome_def same_stores_def signals_kept_def claim_kept_def
          claim_released_def submitted_once_def signal_recorded_def remembered_def)
  qed
  show ?thesis
    unfolding wg
    by (auto intro!: wp_mono [OF route_body_wp [OF s]] wp_mono [OF fin])
qed

section \<open>One call of \<open>route_signal\<close>, its cascade apart\<close>

lemma record_unmatched_wp:
  assumes "readable f"
  shows "wp (record_unmatched sg why) (\<lambda>r f'. r = Inr () \<and> readable f' \<and>
    content f' = content f @ [\<lparr>u_signal_type = sig_type sg, u_signal_id = sig_id sg, u_reason = why\<rparr>]) f"
  using assms by (auto simp: wp_def record_unmatched_def Let_def split: store_file.splits)

text \<open>Nothing but the diagnostics changed, by one entry for the Signal.\<close>

definition only_recorded :: "signal \<Rightarrow> world \<Rightarrow> world \<Rightarrow> bool" where
  "only_recorded sg w w' =
     (w' = w\<lparr>w_unmatched := w_unmatched w'\<rparr> \<and>
      (\<exists>why. content (w_unmatched w') = content (w_unmatched w) @
         [\<lparr>u_signal_type = sig_type sg, u_signal_id = sig_id sg, u_reason = why\<rparr>]))"

text \<open>The call that won the pair's claim, and the world in which its protected part ran.\<close>

definition won_claim :: "seconds \<Rightarrow> seconds \<Rightarrow> target \<Rightarrow> world \<Rightarrow> world \<Rightarrow> bool" where
  "won_claim timeout now t w w1 =
     (pair_valid (target_pair t) \<and>
      \<not> pair_live now (claim_stale_after timeout) (w_claims w) (target_pair t) \<and>
      w1 = w\<lparr>w_claims := w_claims w1\<rparr> \<and>
      claims w1 = (claims w)(target_pair t \<mapsto> \<lparr>claimed_at = now\<rparr>))"

definition step_outcome ::
  "seconds \<Rightarrow> seconds \<Rightarrow> signal \<Rightarrow> world \<Rightarrow> exn + route_response \<Rightarrow> world \<Rightarrow> bool" where
  "step_outcome timeout now sg w r w' =
     (case r of
        Inr (Unmatched i) \<Rightarrow> i = sig_id sg \<and> only_recorded sg w w'
      | Inr (Invalid_Mapping i _) \<Rightarrow> i = sig_id sg \<and> only_recorded sg w w'
      | Inr (Cascade_Depth_Exceeded i _) \<Rightarrow> i = sig_id sg \<and> only_recorded sg w w'
      | Inr (Concurrency_Skipped i _) \<Rightarrow>
          i = sig_id sg \<and> w' = w\<lparr>w_claims := w_claims w'\<rparr> \<and> claims w' = claims w
      | _ \<Rightarrow>
          (\<exists>x. r = Inl x) \<and> subs w' = subs w \<and> w_signals w' = w_signals w \<or>
          (\<exists>t w1. t_signal_id t = sig_id sg \<and> child_depth_of sg = Inr (t_depth t) \<and>
             won_claim timeout now t w w1 \<and> call_outcome now t w1 r w'))"

definition step_response :: "route_step \<Rightarrow> route_response" where
  "step_response st = (case st of Answer resp \<Rightarrow> resp | Chain resp _ \<Rightarrow> resp)"

definition board_frame :: "seconds \<Rightarrow> world \<Rightarrow> world \<Rightarrow> bool" where
  "board_frame now w w' = (world_ok w' \<and> same_stores w w' \<and> signals_kept now w w')"

lemma board_frame_refl: "world_ok w \<Longrightarrow> board_frame now w w"
  by (simp add: board_frame_def signals_kept_def)

lemma board_frame_trans: "board_frame now u v \<Longrightarrow> board_frame now v w \<Longrightarrow> board_frame now u w"
  using signals_kept_trans same_stores_trans by (auto simp: board_frame_def)

lemma resolve_target_wp: "wp (resolve_target rule sg) (\<lambda>r w'. w' = w) w"
  by (simp add: resolve_target_def on_conns_def)

lemma on_unmatched_wp:
  assumes "world_ok w"
  shows "wp (on_unmatched (record_unmatched sg why))
    (\<lambda>r w'. r = Inr () \<and> board_frame now w w' \<and> only_recorded sg w w') w"
proof -
  have "readable (w_unmatched w)" using assms by (simp add: world_ok_def)
  from record_unmatched_wp [OF this, of sg why] show ?thesis
    unfolding on_unmatched_def wp_zoom
    by (rule wp_mono) (use assms in \<open>auto simp: only_recorded_def board_frame_def world_ok_def
      same_stores_def signals_kept_def\<close>)
qed

lemma follow_up_response: "follow_up t y = Inr st \<Longrightarrow> step_response st = y"
  by (auto simp: follow_up_def step_response_def split: route_response.splits exec_status.splits if_splits)

lemma follow_up_Inl: "follow_up t y = Inl x \<Longrightarrow> \<exists>i rn res c. y = Routed i rn res c"
  by (auto simp: follow_up_def split: route_response.splits)

lemma call_step_outcome:
  assumes c: "call_outcome now t w1 resp w'" and won: "won_claim timeout now t w w1"
    and t: "t_signal_id t = sig_id sg" "child_depth_of sg = Inr (t_depth t)"
  shows "step_outcome timeout now sg w resp w'"
proof -
  have "\<exists>t w1. t_signal_id t = sig_id sg \<and> child_depth_of sg = Inr (t_depth t) \<and>
      won_claim timeout now t w w1 \<and> call_outcome now t w1 resp w'"
    using assms by blast
  then show ?thesis
    using c by (cases resp; (cases "projr resp")?) (auto simp: step_outcome_def call_outcome_def)
qed

lemma claim_call_wp:
  assumes w: "world_ok w" and won: "won_claim timeout now t w w1" "world_ok w1"
    and t: "t_signal_id t = sig_id sg" "child_depth_of sg = Inr (t_depth t)"
  shows "wp (andthen (guarded_body e timeout now t) (\<lambda>resp. attempt (follow_up t resp)))
    (\<lambda>r w'. board_frame now w w' \<and> step_outcome timeout now sg w (map_sum id step_response r) w') w1"
proof -
  have v: "pair_valid (target_pair t)" using won(1) by (simp add: won_claim_def)
  obtain wc where "w1 = w\<lparr>w_claims := wc\<rparr>" using won(1) unfolding won_claim_def by metis
  then have frame1: "board_frame now w w1"
    using won(2) by (simp add: board_frame_def same_stores_def signals_kept_def)
  have chained: "step_outcome timeout now sg w (map_sum id step_response (follow_up t y)) w'"
    if c: "call_outcome now t w1 (Inr y) w'" for y w'
  proof (cases "follow_up t y")
    case (Inl x)
    with c follow_up_Inl [OF Inl] have "call_outcome now t w1 (Inl x) w'"
      by (auto simp: call_outcome_def split: if_splits)
    with Inl call_step_outcome [OF _ won(1) t] show ?thesis by simp
  next
    case (Inr st)
    with c call_step_outcome [OF c won(1) t] follow_up_response [OF Inr] show ?thesis by simp
  qed
  show ?thesis
    unfolding wp_andthen
  proof (rule wp_mono [OF guarded_body_wp [OF won(2) v]], goal_cases)
    case (1 r w')
    have "board_frame now w w'"
      using board_frame_trans [OF frame1] 1 by (simp add: board_frame_def)
    with 1 chained call_step_outcome [OF _ won(1) t] show ?case
      by (auto split: sum.splits)
  qed
qed

lemma route_matched_wp:
  assumes w: "world_ok w"
  shows "wp (route_matched e timeout now sg rule)
    (\<lambda>r w'. board_frame now w w' \<and> step_outcome timeout now sg w (map_sum id step_response r) w') w"
proof -
  have fc: "file_ok (w_claims w)" using w by (simp add: world_ok_def)
  note claim = try_claim_wp [OF fc]
  have err: "board_frame now w w \<and> step_outcome timeout now sg w (Inl x) w" for x
    using board_frame_refl [OF w] by (simp add: step_outcome_def)
  have bad: "wp (andthen (on_unmatched (record_unmatched sg (exn_msg x)))
       (\<lambda>_. ret (Answer (Invalid_Mapping (sig_id sg) n))))
     (\<lambda>r w'. board_frame now w w' \<and> step_outcome timeout now sg w (map_sum id step_response r) w') w" for x n
    unfolding wp_andthen
    by (rule wp_mono [OF on_unmatched_wp [OF w]]) (auto simp: step_outcome_def step_response_def)
  have skipped: "board_frame now w (w\<lparr>w_claims := f\<rparr>) \<and>
      step_outcome timeout now sg w (Inr (Concurrency_Skipped (sig_id sg) n)) (w\<lparr>w_claims := f\<rparr>)"
    if "file_ok f" "pair_claim f = pair_claim (w_claims w)" for f n
    using w that by (simp add: board_frame_def step_outcome_def same_stores_def signals_kept_def world_ok_def claims_def)
  have won: "won_claim timeout now t w (w\<lparr>w_claims := f\<rparr>) \<and> world_ok (w\<lparr>w_claims := f\<rparr>)"
    if "file_ok f" "pair_valid (Claim_Pair (t_assistant t) (t_subject t))"
      "pair_claim f = (pair_claim (w_claims w))(Claim_Pair (t_assistant t) (t_subject t) \<mapsto> \<lparr>claimed_at = now\<rparr>)"
      "\<not> pair_live now (claim_stale_after timeout) (w_claims w) (Claim_Pair (t_assistant t) (t_subject t))" for f t
    using w that by (simp add: won_claim_def world_ok_def claims_def target_pair_def)
  have called: "wp (andthen (guarded_body e timeout now t) (\<lambda>resp. attempt (follow_up t resp)))
      (\<lambda>r w'. board_frame now w w' \<and> step_outcome timeout now sg w (map_sum id step_response r) w')
      (w\<lparr>w_claims := f\<rparr>)"
    if "file_ok f" "pair_valid (Claim_Pair (t_assistant t) (t_subject t))"
      "pair_claim f = (pair_claim (w_claims w))(Claim_Pair (t_assistant t) (t_subject t) \<mapsto> \<lparr>claimed_at = now\<rparr>)"
      "\<not> pair_live now (claim_stale_after timeout) (w_claims w) (Claim_Pair (t_assistant t) (t_subject t))"
      "t_signal_id t = sig_id sg" "child_depth_of sg = Inr (t_depth t)" for f t
    using claim_call_wp [OF w] won [OF that(1-4)] that(5,6) by blast
  have got: "wp (andthen (on_claims (try_claim (rule_assistant rule) sub now (claim_stale_after timeout))) (\<lambda>got.
      if \<not> got then ret (Answer (Concurrency_Skipped (sig_id sg) (rule_name rule)))
      else andthen (guarded_body e timeout now t) (\<lambda>resp. attempt (follow_up t resp))))
      (\<lambda>r w'. board_frame now w w' \<and> step_outcome timeout now sg w (map_sum id step_response r) w') w"
    if "t_assistant t = rule_assistant rule" "t_subject t = sub" "t_signal_id t = sig_id sg"
      "child_depth_of sg = Inr (t_depth t)" for sub t
    unfolding on_claims_def wp_andthen [of "zoom _ _ _"] wp_zoom
  proof (rule wp_mono [OF claim], goal_cases)
    case (1 r f)
    show ?case
    proof (cases r)
      case (Inl x)
      with 1 err [of x] show ?thesis by simp
    next
      case (Inr b)
      then show ?thesis
        using 1 that called [of f t] skipped [of f "rule_name rule"]
        by (cases b) (simp_all add: step_response_def del: wp_andthen)
    qed
  qed
  show ?thesis
    unfolding route_matched_def Let_def wp_andthen [of "tried _ _"] wp_tried
  proof (rule wp_mono [OF resolve_target_wp], goal_cases)
    case (1 r w')
    show ?case
    proof (cases r)
      case (Inl x)
      with 1 err [of x] bad [of x] show ?thesis by (simp del: wp_andthen)
    next
      case (Inr res)
      obtain ap conn where res: "res = Resolved ap conn" by (cases res)
      show ?thesis
        using 1 Inr err
        by (auto simp: res Let_def simp del: wp_andthen
            simp: wp_andthen [of "attempt _"] intro!: got)
    qed
  qed
qed

lemma route_once_wp:
  assumes w: "world_ok w"
  shows "wp (route_once e timeout now sg)
    (\<lambda>r w'. board_frame now w w' \<and> step_outcome timeout now sg w (map_sum id step_response r) w') w"
proof -
  have err: "board_frame now w w \<and> step_outcome timeout now sg w (Inl x) w" for x
    using board_frame_refl [OF w] by (simp add: step_outcome_def)
  have note1: "wp (andthen (on_unmatched (record_unmatched sg why)) (\<lambda>_. ret (Answer resp)))
     (\<lambda>r w'. board_frame now w w' \<and> step_outcome timeout now sg w (map_sum id step_response r) w') w"
    if "resp = Unmatched (sig_id sg) \<or> (\<exists>n. resp = Cascade_Depth_Exceeded (sig_id sg) n)" for why resp
    unfolding wp_andthen
    by (rule wp_mono [OF on_unmatched_wp [OF w]]) (use that in \<open>auto simp: step_outcome_def step_response_def\<close>)
  have rules: "wp (andthen (on_rules (reading load_rules)) k) Q w \<longleftrightarrow>
     (\<forall>x. load_rules (w_rules w) = Inl x \<longrightarrow> Q (Inl x) w) \<and>
     (\<forall>d. load_rules (w_rules w) = Inr d \<longrightarrow> wp (k d) Q w)" for k and Q :: "exn + route_step \<Rightarrow> world \<Rightarrow> bool"
    by (simp add: on_rules_def)
  show ?thesis
    unfolding route_once_def
    using err
    by (auto simp del: wp_andthen simp: wp_andthen [of "attempt _"] rules
        split: option.splits list.splits intro!: note1 route_matched_wp [OF w])
qed

lemma call_submissions:
  assumes "call_outcome now t w1 r w'" "won_claim timeout now t w w1"
  shows "subs w' = subs w \<or> submitted_once now (t_signal_id t) w w'"
proof -
  have same: "subs w1 = subs w" "w_signals w1 = w_signals w"
    using assms(2) unfolding won_claim_def subs_def by (metis world.select_convs(4,11) world.surjective world.update_convs(3))+
  then have "submitted_once now (t_signal_id t) w1 w' = submitted_once now (t_signal_id t) w w'"
    by (simp add: submitted_once_def signal_known_def)
  then show ?thesis
    using assms(1) same by (cases r; (cases "projr r")?) (auto simp: call_outcome_def)
qed

lemma only_recorded_simps:
  assumes "only_recorded sg w w'"
  shows "subs w' = subs w" "w_signals w' = w_signals w" "claims w' = claims w" "w_pending w' = w_pending w"
proof -
  obtain um where "w' = w\<lparr>w_unmatched := um\<rparr>" using assms unfolding only_recorded_def by metis
  then show "subs w' = subs w" "w_signals w' = w_signals w" "claims w' = claims w" "w_pending w' = w_pending w"
    by (simp_all add: subs_def claims_def)
qed

lemma step_submissions:
  assumes "step_outcome timeout now sg w r w'"
  shows "subs w' = subs w \<or> submitted_once now (sig_id sg) w w'"
proof -
  have skip: "subs w' = subs w" if "w' = w\<lparr>w_claims := w_claims w'\<rparr>"
    using that unfolding subs_def by (metis world.select_convs(11) world.surjective world.update_convs(3))
  show ?thesis
    using assms call_submissions
    by (cases r; (cases "projr r")?)
      (fastforce simp: step_outcome_def dest: only_recorded_simps skip)+
qed

section \<open>A call with its cascade\<close>

lemma route_once_deep:
  assumes "cascade_left sg = 0"
  shows "wp (route_once e timeout now sg) (\<lambda>r w'. subs w' = subs w \<and> (\<forall>resp fin. r \<noteq> Inr (Chain resp fin))) w"
proof -
  have "over_depth sg \<noteq> Inr None"
    using assms by (auto simp: cascade_left_def over_depth_def split: sum.splits if_splits)
  then show ?thesis
    unfolding route_once_def
    by (auto simp: on_unmatched_def subs_def split: option.splits)
qed

lemma route_onceD:
  assumes "route_once e timeout now sg w = (r, w')" "world_ok w"
  shows "board_frame now w w'" "step_outcome timeout now sg w (map_sum id step_response r) w'" "world_ok w'"
    "subs w' = subs w \<or> submitted_once now (sig_id sg) w w'"
  using wpD [OF route_once_wp [OF assms(2)] assms(1)] step_submissions [of timeout now sg w "map_sum id step_response r" w']
  by (auto simp: board_frame_def)

lemma route_signal_induct [case_names Raised Answered Chained]:
  assumes "\<And>e timeout now sg w x w1. route_once e timeout now sg w = (Inl x, w1) \<Longrightarrow>
      P e timeout now sg w (Inl x) w1"
    and "\<And>e timeout now sg w resp w1. route_once e timeout now sg w = (Inr (Answer resp), w1) \<Longrightarrow>
      P e timeout now sg w (Inr resp) w1"
    and "\<And>e timeout now sg w resp fin w1 r w2. route_once e timeout now sg w = (Inr (Chain resp fin), w1) \<Longrightarrow>
      route_signal e timeout now fin w1 = (r, w2) \<Longrightarrow> P e timeout now fin w1 r w2 \<Longrightarrow>
      P e timeout now sg w (map_sum id (with_cascade resp) r) w2"
  shows "P e timeout now sg w (fst (route_signal e timeout now sg w)) (snd (route_signal e timeout now sg w))"
proof (induction e timeout now sg w rule: route_signal.induct)
  case (1 e timeout now sg w)
  obtain r0 w1 where o: "route_once e timeout now sg w = (r0, w1)" by (cases "route_once e timeout now sg w")
  show ?case
  proof (cases r0)
    case (Inl x)
    with o assms(1) show ?thesis by (simp add: route_signal.simps [of e timeout now sg w])
  next
    case (Inr st)
    show ?thesis
    proof (cases st)
      case (Answer resp)
      with o Inr assms(2) show ?thesis by (simp add: route_signal.simps [of e timeout now sg w])
    next
      case (Chain resp fin)
      obtain r w2 where c: "route_signal e timeout now fin w1 = (r, w2)" by (cases "route_signal e timeout now fin w1")
      have "P e timeout now fin w1 r w2" using 1 o Inr Chain c by fastforce
      from assms(3) [OF _ c this] o Inr Chain c show ?thesis
        by (auto simp: route_signal.simps [of e timeout now sg w] split: sum.splits)
    qed
  qed
qed

lemma route_signal_frame:
  assumes "world_ok w"
  shows "board_frame now w (snd (route_signal e timeout now sg w))"
proof -
  let ?P = "\<lambda>e timeout now sg w r w'. world_ok w \<longrightarrow> board_frame now w w'"
  have "?P e timeout now sg w (fst (route_signal e timeout now sg w)) (snd (route_signal e timeout now sg w))"
  proof (rule route_signal_induct, goal_cases)
    case (3 e timeout now sg w resp fin w1 r w2)
    show ?case
    proof
      assume "world_ok w"
      then have f: "board_frame now w w1" and "world_ok w1" using route_onceD(1,3) [OF 3(1)] by blast+
      with 3(3) have "board_frame now w1 w2" by blast
      with f show "board_frame now w w2" by (rule board_frame_trans)
    qed
  qed (auto dest: route_onceD(1))
  with assms show ?thesis by blast
qed

lemma route_signal_submissions:
  "world_ok w \<Longrightarrow> \<exists>rqs. subs (snd (route_signal e timeout now sg w)) = rqs @ subs w \<and> length rqs \<le> cascade_left sg"
proof -
  let ?P = "\<lambda>e timeout now sg w r w'. world_ok w \<longrightarrow>
      (\<exists>rqs. subs w' = rqs @ subs w \<and> length rqs \<le> cascade_left sg)"
  have once: "world_ok w1 \<and> (subs w1 = subs w \<or> (\<exists>rq. subs w1 = [rq] @ subs w) \<and> 1 \<le> cascade_left sg)"
    if w: "world_ok w" and o: "route_once e timeout now sg w = (r, w1)" for e timeout now sg w r w1
  proof (cases "cascade_left sg = 0")
    case True
    with wpD [OF route_once_deep [OF True] o] route_onceD(3) [OF o w] show ?thesis by simp
  next
    case False
    with route_onceD(3,4) [OF o w] show ?thesis by (fastforce simp: submitted_once_def)
  qed
  have "?P e timeout now sg w (fst (route_signal e timeout now sg w)) (snd (route_signal e timeout now sg w))"
  proof (rule route_signal_induct, goal_cases)
    case (3 e timeout now sg w resp fin w1 r w2)
    show ?case
    proof
      assume w: "world_ok w"
      from 3(3) once [OF w 3(1)] obtain rqs where "subs w2 = rqs @ subs w1" "length rqs \<le> cascade_left fin" by blast
      moreover have "subs w1 = [] @ subs w \<or> (\<exists>rq. subs w1 = [rq] @ subs w)"
        using once [OF w 3(1)] by auto
      then obtain rq where "subs w1 = rq @ subs w" "length rq \<le> 1" by auto
      ultimately have "subs w2 = (rqs @ rq) @ subs w" "length (rqs @ rq) \<le> cascade_left sg"
        using route_once_decreases [OF 3(1)] by simp_all
      then show "\<exists>rqs. subs w2 = rqs @ subs w \<and> length rqs \<le> cascade_left sg" by blast
    qed
  next
    case (1 e timeout now sg w x w1)
    then show ?case using once [of w] by fastforce
  next
    case (2 e timeout now sg w resp w1)
    then show ?case using once [of w] by fastforce
  qed
  then show "world_ok w \<Longrightarrow> ?thesis" by blast
qed

section \<open>Redelivery\<close>

lemma chain_routed:
  assumes "route_once e timeout now sg w = (Inr (Chain resp fin), w1)" "world_ok w"
  shows "submitted_once now (sig_id sg) w w1"
proof -
  obtain i rn res c where r: "resp = Routed i rn res c"
    using wpD [OF route_once_chain assms(1)] by blast
  from route_onceD(2) [OF assms] obtain t w0 where
    "t_signal_id t = sig_id sg" "won_claim timeout now t w w0" "call_outcome now t w0 (Inr (Routed i rn res c)) w1"
    by (auto simp: step_outcome_def step_response_def r)
  moreover from this have "subs w0 = subs w" "w_signals w0 = w_signals w"
    unfolding won_claim_def subs_def by (metis world.select_convs(4,11) world.surjective world.update_convs(3))+
  ultimately show ?thesis by (simp add: call_outcome_def submitted_once_def signal_known_def)
qed

lemma route_known:
  assumes w: "world_ok w" and k: "signal_known now (sig_id sg) w"
  shows "subs (snd (route_signal e timeout now sg w)) = subs w"
proof -
  obtain r w1 where o: "route_once e timeout now sg w = (r, w1)" by (cases "route_once e timeout now sg w")
  have "subs w1 = subs w" using route_onceD(4) [OF o w] k by (simp add: submitted_once_def)
  moreover have "r \<noteq> Inr (Chain resp fin)" for resp fin
    using chain_routed [OF _ w, of e timeout now sg resp fin w1] o k by (auto simp: submitted_once_def)
  ultimately show ?thesis
    using o by (auto simp: route_signal.simps [of e timeout now sg w] split: sum.splits route_step.splits)
qed

lemma recorded_known:
  "signal_recorded now i w \<Longrightarrow> now' - now < DEFAULT_RETENTION_SECONDS \<Longrightarrow> signal_known now' i w"
  by (simp add: signal_recorded_def signal_known_def signal_live_def)

lemma recorded_kept:
  "signal_recorded t0 i w \<Longrightarrow> signals_kept now w w' \<Longrightarrow> now - t0 < DEFAULT_RETENTION_SECONDS \<Longrightarrow>
   signal_recorded t0 i w'"
  by (simp add: signal_recorded_def signals_kept_def)

text \<open>A call that submitted leaves its Signal's claim, whatever its cascade does.\<close>

lemma route_signal_recorded:
  assumes w: "world_ok w" and s: "subs (snd (route_signal e timeout now sg w)) \<noteq> subs w"
  shows "signal_recorded now (sig_id sg) (snd (route_signal e timeout now sg w))"
proof -
  obtain r w1 where o: "route_once e timeout now sg w = (r, w1)" by (cases "route_once e timeout now sg w")
  show ?thesis
  proof (cases "\<exists>resp fin. r = Inr (Chain resp fin)")
    case True
    then obtain resp fin where r: "r = Inr (Chain resp fin)" by blast
    have rec: "signal_recorded now (sig_id sg) w1"
      using chain_routed [OF _ w] o r by (auto simp: submitted_once_def)
    have fr: "board_frame now w1 (snd (route_signal e timeout now fin w1))"
      by (rule route_signal_frame [OF route_onceD(3) [OF o w]])
    have "signal_recorded now (sig_id sg) (snd (route_signal e timeout now fin w1))"
      by (rule recorded_kept [OF rec, of now]) (use fr in \<open>auto simp: board_frame_def DEFAULT_RETENTION_SECONDS_def\<close>)
    then show ?thesis
      using o r by (auto simp: route_signal.simps [of e timeout now sg w] split: sum.splits prod.splits)
  next
    case False
    then have "snd (route_signal e timeout now sg w) = w1"
      using o by (auto simp: route_signal.simps [of e timeout now sg w] split: sum.splits route_step.splits)
    with s route_onceD(4) [OF o w] show ?thesis by (auto simp: submitted_once_def)
  qed
qed

text \<open>Deliveries one after the other, each at its time.\<close>

fun route_all :: "env \<Rightarrow> seconds \<Rightarrow> (signal \<times> seconds) list \<Rightarrow> world \<Rightarrow> world" where
  "route_all e timeout [] w = w"
| "route_all e timeout ((sg, now) # ds) w = route_all e timeout ds (snd (route_signal e timeout now sg w))"

lemma route_all_ok: "world_ok w \<Longrightarrow> world_ok (route_all e timeout ds w)"
proof (induction e timeout ds w rule: route_all.induct)
  case (2 e timeout sg now ds w)
  with route_signal_frame [of w now e timeout sg] show ?case by (simp add: board_frame_def)
qed simp

lemma route_all_recorded:
  "world_ok w \<Longrightarrow> signal_recorded t0 i w \<Longrightarrow>
   \<forall>(sg, now) \<in> set ds. now - t0 < DEFAULT_RETENTION_SECONDS \<Longrightarrow>
   signal_recorded t0 i (route_all e timeout ds w)"
proof (induction e timeout ds w rule: route_all.induct)
  case (2 e timeout sg now ds w)
  have f: "board_frame now w (snd (route_signal e timeout now sg w))"
    by (rule route_signal_frame [OF 2(2)])
  then have "signal_recorded t0 i (snd (route_signal e timeout now sg w))"
    using recorded_kept [OF 2(3)] 2(4) by (auto simp: board_frame_def)
  with 2 f show ?case by (simp add: board_frame_def)
qed simp

section \<open>The claims of pairs after a call\<close>

text \<open>The pending completion that remembers a Run which still holds its pair.\<close>

definition tracks :: "pending_file \<Rightarrow> claim_pair \<Rightarrow> bool" where
  "tracks f p = (\<exists>d t entry. pending_entry f d t = Some entry \<and> p_concurrency_held entry \<and> p_deployment_held entry \<and>
     p_assistant entry = pair_assistant p \<and> p_subject entry = pair_subject p)"

lemma remembered_tracks:
  "remembered t now res w \<Longrightarrow> still_running res \<Longrightarrow> tracks (w_pending w) (target_pair t)"
  unfolding tracks_def remembered_def still_running_def
  by (intro exI [of _ "t_alias t"] exI [of _ "er_thread_id res"] exI [of _ "waiting_entry t now res"])
    (simp add: waiting_entry_def target_pair_def)

lemma call_claims:
  assumes c: "call_outcome now t w1 (Inr resp) w'" and won: "won_claim timeout now t w w1"
  shows "claims w' = (claims w)(target_pair t := None) \<or>
    (claims w' = (claims w)(target_pair t \<mapsto> \<lparr>claimed_at = now\<rparr>) \<and> tracks (w_pending w') (target_pair t) \<and>
     (\<exists>i rn res. resp = Routed i rn res None \<and> er_status res = Waiting Deadline))"
proof -
  have c1: "claims w1 = (claims w)(target_pair t \<mapsto> \<lparr>claimed_at = now\<rparr>)"
    using won by (simp add: won_claim_def)
  show ?thesis
    using c c1
    by (cases resp)
      (auto simp: call_outcome_def claim_released_def claim_kept_def split: if_splits
        dest: remembered_tracks simp: still_running_def)
qed

lemma step_claims:
  assumes "step_outcome timeout now sg w (Inr resp) w'"
  shows "claims w' = claims w \<or>
    (\<exists>p. pair_valid p \<and> \<not> pair_live now (claim_stale_after timeout) (w_claims w) p \<and>
      (claims w' = (claims w)(p := None) \<or>
       claims w' = (claims w)(p \<mapsto> \<lparr>claimed_at = now\<rparr>) \<and> tracks (w_pending w') p \<and>
       (\<exists>i rn res. resp = Routed i rn res None \<and> er_status res = Waiting Deadline)))"
proof (cases "\<exists>t w1. won_claim timeout now t w w1 \<and> call_outcome now t w1 (Inr resp) w'")
  case True
  then obtain t w1 where c: "won_claim timeout now t w w1" "call_outcome now t w1 (Inr resp) w'" by blast
  then show ?thesis
    using call_claims [OF c(2,1)] by (auto simp: won_claim_def)
next
  case False
  with assms only_recorded_simps(3) show ?thesis
    by (cases resp) (fastforce simp: step_outcome_def)+
qed

section \<open>A board to route on\<close>

text \<open>
  One external Deployment, one rule that routes manual Signals to Assistant \<open>a\<close>, and a server on which
  every Run succeeds at once.
\<close>

definition demo_env :: env where
  "demo_env = \<lparr>server = (\<lambda>_ r.
       if ends_with ''/threads'' (req_url r) then Reply 200 (Some (JObj [(''thread_id'', JStr ''t'')]))
       else if ends_with ''/runs'' (req_url r) then Reply 200 (Some (JObj [(''run_id'', JStr ''r'')]))
       else if ends_with ''/state'' (req_url r) then Reply 200 (Some (JObj [(''values'', JNull)]))
       else Reply 200 (Some (JObj [(''status'', JStr ''success'')]))),
     start_process = (\<lambda>_ _ _. Inr 1), clock_drift = (\<lambda>_. 1), format_number = (\<lambda>_. [])\<rparr>"

definition demo_rule :: rule where
  "demo_rule = \<lparr>rule_name = ''n'', rule_signal_type = ''manual'', match_cond = Some [], when_cond = None,
     rule_connection = ''c'', rule_assistant = ''a'', rule_subject = ''s'', input_map = []\<rparr>"

definition demo_conn :: connection where
  "demo_conn = \<lparr>endpoint = ''e'', launch = None, idle_after = None, auth_endpoint = None, graph_map = None\<rparr>"

definition demo_world :: world where
  "demo_world = (new_board at_zero)\<lparr>w_rules := Holds [demo_rule], w_conns := Holds [(''c'', demo_conn)]\<rparr>"

definition demo_signal :: signal where
  "demo_signal = \<lparr>sig_type = ''manual'', sig_id = ''i'', payload = [(''s'', JStr ''x'')]\<rparr>"

lemma demo_world_ok: "world_ok demo_world"
  by (simp add: world_ok_def demo_world_def new_board_def rules_ok_def rule_ok_def demo_rule_def SIGNAL_TYPES_def
      pending_inv_Absent continuity_inv_Absent dict_ok_def blank_def py_space_def Let_def)

definition demo_result :: exec_result where
  "demo_result = \<lparr>er_run_id = ''r'', er_thread_id = ''t'', er_status = Success JNull\<rparr>"

lemma demo_execute:
  "\<exists>u. execute demo_env ''e'' ''a'' ''x'' (JObj []) None 9 None 0 at_zero = (Inr demo_result, u) \<and>
     submissions u = [Http (execute_request ''e'' ''t'' ''a'' ''x'' (JObj []) None None 0)]"
  by (simp add: execute_def blank_def py_space_def Let_def andthen_def session_request_def http_def demo_env_def
      at_zero_def ends_with_def rstrip_slash_def str_field_def field_def runs_path_def poll_until_settled_def
      monotonic_def poll_loop.simps run_path_def state_path_def demo_result_def submissions_def execute_request_def)

definition demo_target :: target where
  "demo_target = \<lparr>t_signal_id = ''i'', t_rule_name = ''n'', t_alias = ''c'', t_conn = demo_conn,
     t_assistant = ''a'', t_subject = ''x'', t_input = [], t_caused_by = None, t_depth = 0\<rparr>"

lemma demo_names [simp]: "\<not> blank ''a''" "\<not> blank ''x''" "\<not> blank ''c''" "\<not> blank ''i''" "\<not> blank ''t''" "\<not> blank ''r''"
  by (simp_all add: blank_def py_space_def Let_def)

lemma demo_resolve: "resolve_target demo_rule demo_signal w = (Inr (Resolved (Applied [] ''x'') demo_conn), w)"
  if "w_conns w = Holds [(''c'', demo_conn)]"
  using that
  by (simp add: resolve_target_def apply_rule_def demo_rule_def demo_signal_def lookup_path_def andthen_def
      on_conns_def zoom_def reading_def get_connection_def load_connections_def load_file_def)

lemma demo_claim_pair:
  "try_claim ''a'' ''x'' 0 69 Absent = (Inr True, Holds [(dumps_strs [''a'', ''x''], \<lparr>claimed_at = 0\<rparr>)])"
  by (simp add: try_claim_def concurrency_key_def load_concurrency_def load_file_def sorted_keys_def)

lemma demo_body:
  assumes w: "w_life w = Absent" "w_signals w = Absent" "w_cont w = Absent" "w_out w = at_zero"
    and c: "w_claims w = Holds [(dumps_strs [''a'', ''x''], \<lparr>claimed_at = 0\<rparr>)]"
  shows "\<exists>w'. guarded_body demo_env 9 0 demo_target w = (Inr (Routed ''i'' ''n'' demo_result None), w') \<and>
    subs w' = [Http (execute_request ''e'' ''t'' ''a'' ''x'' (JObj []) None None 0)] \<and> w_rules w' = w_rules w"
proof -
  from demo_execute obtain u where x: "execute demo_env ''e'' ''a'' ''x'' (JObj []) None 9 None 0 at_zero = (Inr demo_result, u)"
    "submissions u = [Http (execute_request ''e'' ''t'' ''a'' ''x'' (JObj []) None None 0)]" by blast
  show ?thesis
    using w c x(2)
    by (auto simp: guarded_body_def ensuring_def route_body_def in_world_def zoom_def andthen_def on_host_def
        ensure_started_def demo_target_def demo_conn_def is_managed_def claim_and_submit_def on_signals_def
        claim_signal_def load_signal_dedupe_def load_file_def prune_claims_def Let_def reading_def write_atomic_def
        changing_def ret_def submit_claimed_def tried_def catching_def on_out_def x(1) record_result_def only_if_def
        has_ids_def demo_result_def on_continuity_def discard_def record_submission_def validate_submission_def
        attempt_def load_run_continuity_def write_atomic2_def lookup2_def release_claims_def on_life_def release_active_def
        on_claims_def release_concurrency_def concurrency_key_def load_concurrency_def subs_def
        split: sum.splits)
qed

lemma demo_fields:
  "rule_name demo_rule = ''n''" "rule_connection demo_rule = ''c''" "rule_assistant demo_rule = ''a''"
  "sig_id demo_signal = ''i''" "w_rules demo_world = Holds [demo_rule]" "w_claims demo_world = Absent"
  by (simp_all add: demo_rule_def demo_signal_def demo_world_def new_board_def)

lemma demo_once:
  "\<exists>fin w'. route_once demo_env 9 0 demo_signal demo_world = (Inr (Chain (Routed ''i'' ''n'' demo_result None) fin), w') \<and>
     subs w' = [Http (execute_request ''e'' ''t'' ''a'' ''x'' (JObj []) None None 0)] \<and> w_rules w' = w_rules demo_world \<and>
     is_finished fin \<and> payload_depth fin = Inr 0 \<and> sig_id fin = ''run.finished:r''"
proof -
  let ?w1 = "demo_world\<lparr>w_claims := Holds [(dumps_strs [''a'', ''x''], \<lparr>claimed_at = 0\<rparr>)]\<rparr>"
  obtain w' where b: "guarded_body demo_env 9 0 demo_target ?w1 = (Inr (Routed ''i'' ''n'' demo_result None), w')"
    "subs w' = [Http (execute_request ''e'' ''t'' ''a'' ''x'' (JObj []) None None 0)]" "w_rules w' = w_rules demo_world"
    using demo_body [of ?w1] by (auto simp: demo_world_def new_board_def)
  obtain fin where f: "run_finished_signal ''r'' ''x'' ''c'' ''a'' ''success'' 0 = Inr fin"
    "is_finished fin" "payload_depth fin = Inr 0" "sig_id fin = ''run.finished:r''"
    by (simp add: run_finished_signal_def first_blank_def is_finished_def payload_depth_def run_finished_id_def
        blank_def py_space_def Let_def)
  have "follow_up demo_target (Routed ''i'' ''n'' demo_result None) = Inr (Chain (Routed ''i'' ''n'' demo_result None) fin)"
    using f(1) by (simp add: follow_up_def demo_result_def demo_target_def)
  moreover have "over_depth demo_signal = Inr None" "child_depth_of demo_signal = Inr 0" "caused_by_of demo_signal = Inr None"
    by (simp_all add: over_depth_def child_depth_of_def caused_by_of_def is_finished_def demo_signal_def)
  moreover have "matching_rules [demo_rule] demo_signal = Inr [demo_rule]"
    by (simp add: matches_def demo_rule_def demo_signal_def)
  moreover have "resolve_target demo_rule demo_signal demo_world =
      (Inr (Resolved (Applied [] ''x'') demo_conn), demo_world)"
    by (rule demo_resolve) (simp add: demo_world_def)
  ultimately have "route_once demo_env 9 0 demo_signal demo_world =
      (Inr (Chain (Routed ''i'' ''n'' demo_result None) fin), w')"
    using b demo_claim_pair
    by (simp add: route_once_def on_rules_def route_matched_def tried_def catching_def andthen_def zoom_def reading_def
        load_rules_def load_file_def demo_fields on_claims_def claim_stale_after_def HEALTH_TIMEOUT_def
        STALE_CLAIM_BUFFER_def ret_def demo_target_def attempt_def Let_def del: matching_rules.simps)
  with b f show ?thesis by blast
qed

lemma record_unmatched_readable:
  "readable f \<Longrightarrow> record_unmatched sg why f = (Inr (), Holds (content f @
     [\<lparr>u_signal_type = sig_type sg, u_signal_id = sig_id sg, u_reason = why\<rparr>]))"
  by (cases f) (simp_all add: record_unmatched_def)

lemma demo_routed:
  "\<exists>c w'. route_signal demo_env 9 0 demo_signal demo_world = (Inr (Routed ''i'' ''n'' demo_result (Some c)), w') \<and>
     subs w' = [Http (execute_request ''e'' ''t'' ''a'' ''x'' (JObj []) None None 0)]"
proof -
  obtain fin w1 where o: "route_once demo_env 9 0 demo_signal demo_world = (Inr (Chain (Routed ''i'' ''n'' demo_result None) fin), w1)"
    "subs w1 = [Http (execute_request ''e'' ''t'' ''a'' ''x'' (JObj []) None None 0)]" "w_rules w1 = Holds [demo_rule]"
    "is_finished fin" "payload_depth fin = Inr 0"
    using demo_once by (auto simp: demo_world_def)
  have w1: "world_ok w1" by (rule route_onceD(3) [OF o(1) demo_world_ok])
  have rd: "readable (w_unmatched w1)" using w1 by (simp add: world_ok_def)
  note um = record_unmatched_readable [OF rd, of fin]
  let ?um = "\<lambda>why. Holds (content (w_unmatched w1) @
     [\<lparr>u_signal_type = sig_type fin, u_signal_id = sig_id fin, u_reason = why\<rparr>])"
  have "over_depth fin = Inr None" "matching_rules [demo_rule] fin = Inr []"
    using o(4,5) by (simp_all add: over_depth_def MAX_CASCADE_DEPTH_def matches_def demo_rule_def is_finished_def)
  then have "route_once demo_env 9 0 fin w1 =
      (Inr (Answer (Unmatched (sig_id fin))), w1\<lparr>w_unmatched := ?um ''no rule declared for this signal''\<rparr>)"
    using o(3) um
    by (simp del: matching_rules.simps add: route_once_def on_rules_def andthen_def zoom_def reading_def load_rules_def load_file_def
        on_unmatched_def ret_def attempt_def)
  then show ?thesis
    using o(1,2) by (simp add: route_signal.simps [of _ _ _ demo_signal] route_signal.simps [of _ _ _ fin] with_cascade_def subs_def)
qed

section \<open>Properties\<close>

text \<open>
  C2. A Signal starts a bounded number of Runs: with its whole cascade, a fresh Signal submits at most
  six times (itself and five generations of \<open>run.finished\<close>), and a completion of depth \<open>n\<close> at most
  \<open>5 - n\<close> times, whatever the rules and the servers are.
\<close>

theorem cascade_is_bounded:
  assumes "world_ok w"
  shows "\<exists>rqs. subs (snd (route_signal e timeout now sg w)) = rqs @ subs w \<and>
    length rqs \<le> (if is_finished sg then (case payload_depth sg of Inr n \<Rightarrow> nat (5 - n) | Inl _ \<Rightarrow> 0) else 6)"
  using route_signal_submissions [OF assms, of e timeout now sg]
  by (auto simp: cascade_left_def MAX_CASCADE_DEPTH_def split: sum.splits)

theorem cascade_is_bounded_witness:
  "world_ok demo_world \<and>
   (\<exists>rqs. subs (snd (route_signal demo_env 9 0 demo_signal demo_world)) = rqs @ subs demo_world \<and> length rqs \<le> 6)"
  using cascade_is_bounded [OF demo_world_ok, of demo_env 9 0 demo_signal] demo_world_ok
  by (simp add: is_finished_def demo_signal_def)

text \<open>
  C3. A Signal is submitted at most once in its retention window: once a call has submitted anything for
  it, then after any further deliveries of any Signals inside the window, a redelivery inside the window
  submits nothing, whether the first submission succeeded, failed or is still running.
\<close>

theorem redelivery_submits_nothing:
  assumes "world_ok w" and "subs (snd (route_signal e timeout t0 sg w)) \<noteq> subs w"
    and "\<forall>now \<in> snd ` set ds. now - t0 < DEFAULT_RETENTION_SECONDS" and "t - t0 < DEFAULT_RETENTION_SECONDS"
  shows "subs (snd (route_signal e timeout t sg (route_all e timeout ds (snd (route_signal e timeout t0 sg w))))) =
    subs (route_all e timeout ds (snd (route_signal e timeout t0 sg w)))"
proof -
  let ?w1 = "snd (route_signal e timeout t0 sg w)"
  have ok: "world_ok ?w1" using route_signal_frame [OF assms(1), of t0 e timeout sg] by (simp add: board_frame_def)
  have "signal_recorded t0 (sig_id sg) (route_all e timeout ds ?w1)"
    by (rule route_all_recorded [OF ok route_signal_recorded [OF assms(1,2)]]) (use assms(3) in force)
  then have "signal_known t (sig_id sg) (route_all e timeout ds ?w1)"
    using recorded_known assms(4) by blast
  then show ?thesis by (rule route_known [OF route_all_ok [OF ok]])
qed

theorem redelivery_submits_nothing_witness:
  "\<exists>w'. snd (route_signal demo_env 9 0 demo_signal demo_world) = w' \<and> length (subs w') = 1 \<and>
     subs (snd (route_signal demo_env 9 60 demo_signal w')) = subs w'"
proof -
  from demo_routed obtain c w' where r:
    "route_signal demo_env 9 0 demo_signal demo_world = (Inr (Routed ''i'' ''n'' demo_result (Some c)), w')"
    "subs w' = [Http (execute_request ''e'' ''t'' ''a'' ''x'' (JObj []) None None 0)]" by blast
  have "subs demo_world = []" by (simp add: subs_def demo_world_def new_board_def at_zero_def submissions_def)
  with r redelivery_submits_nothing [OF demo_world_ok, of demo_env 9 0 demo_signal "[]" 60]
  show ?thesis by (simp add: DEFAULT_RETENTION_SECONDS_def)
qed

text \<open>
  C24. No claim leaks: when a call returns, the (Assistant, Subject) claims are as before, or the one pair
  it took is released, or the pair is still held because its Run was still executing at the deadline,
  and then a pending completion with both claims held remembers that Run.
\<close>

theorem call_leaves_no_stray_claim:
  assumes "world_ok w" and "route_once e timeout now sg w = (Inr st, w')"
  shows "claims w' = claims w \<or>
    (\<exists>p. pair_valid p \<and> \<not> pair_live now (claim_stale_after timeout) (w_claims w) p \<and>
      (claims w' = (claims w)(p := None) \<or>
       claims w' = (claims w)(p \<mapsto> \<lparr>claimed_at = now\<rparr>) \<and> tracks (w_pending w') p \<and>
       (\<exists>i rn res. step_response st = Routed i rn res None \<and> er_status res = Waiting Deadline)))"
  using step_claims [of timeout now sg w "step_response st" w'] route_onceD(2) [OF assms(2,1)] by simp

theorem call_leaves_no_stray_claim_witness:
  "\<exists>w'. snd (route_once demo_env 9 0 demo_signal demo_world) = w' \<and> claims w' = claims demo_world"
proof -
  from demo_once obtain fin w' where o:
    "route_once demo_env 9 0 demo_signal demo_world = (Inr (Chain (Routed ''i'' ''n'' demo_result None) fin), w')" by blast
  have "claims demo_world p = None" for p
    by (simp add: claims_def pair_claim_def demo_world_def new_board_def)
  with call_leaves_no_stray_claim [OF demo_world_ok o] o show ?thesis
    by (auto simp: step_response_def demo_result_def fun_eq_iff)
qed

text \<open>
  A Signal that is not submitted spends nothing: unmatched, badly mapped, over-deep and skipped
  Signals and an unavailable Deployment leave every Signal claim and the servers' Runs as they were, so a
  corrected redelivery is free to run; and diagnostics get one entry with the Signal's type and id.
\<close>

theorem refused_signal_spends_nothing:
  assumes "world_ok w" and "route_once e timeout now sg w = (Inr (Answer resp), w')"
    and "\<forall>i rn res c. resp \<noteq> Routed i rn res c" and "\<forall>i rn. resp \<noteq> Duplicate i rn"
    and "\<forall>i rn m. resp \<noteq> Execution_Failed i rn m"
  shows "subs w' = subs w \<and> w_signals w' = w_signals w \<and>
    ((\<exists>i. resp = Unmatched i) \<or> (\<exists>i rn. resp = Invalid_Mapping i rn) \<or> (\<exists>i n. resp = Cascade_Depth_Exceeded i n) \<longrightarrow>
      w' = w\<lparr>w_unmatched := w_unmatched w'\<rparr> \<and>
      (\<exists>why. content (w_unmatched w') = content (w_unmatched w) @
         [\<lparr>u_signal_type = sig_type sg, u_signal_id = sig_id sg, u_reason = why\<rparr>]))"
proof -
  have o: "step_outcome timeout now sg w (Inr resp) w'"
    using route_onceD(2) [OF assms(2,1)] by (simp add: step_response_def)
  have skip: "subs w' = subs w \<and> w_signals w' = w_signals w" if "w' = w\<lparr>w_claims := w_claims w'\<rparr>"
  proof -
    obtain x where "w' = w\<lparr>w_claims := x\<rparr>" using \<open>w' = w\<lparr>w_claims := w_claims w'\<rparr>\<close> by metis
    then show ?thesis by (simp add: subs_def)
  qed
  have won: "subs w1 = subs w \<and> w_signals w1 = w_signals w" if "won_claim timeout now t w w1" for t w1
  proof -
    obtain x where "w1 = w\<lparr>w_claims := x\<rparr>" using \<open>won_claim timeout now t w w1\<close> unfolding won_claim_def by metis
    then show ?thesis by (simp add: subs_def)
  qed
  have rec: ?thesis if "only_recorded sg w w'"
    using only_recorded_simps [OF that] that unfolding only_recorded_def by blast
  show ?thesis
  proof (cases resp)
    case (Deployment_Unavailable i rn m)
    with o won show ?thesis by (fastforce simp: step_outcome_def call_outcome_def)
  next
    case (Concurrency_Skipped i rn)
    with o skip show ?thesis by (simp add: step_outcome_def)
  qed (use o assms(3-5) rec in \<open>simp_all add: step_outcome_def\<close>)
qed

theorem refused_signal_spends_nothing_witness:
  "\<exists>w'. route_once demo_env 9 0 demo_signal (new_board at_zero) = (Inr (Answer (Unmatched ''i'')), w') \<and>
     subs w' = [] \<and> length (content (w_unmatched w')) = 1"
proof -
  let ?w = "new_board at_zero"
  have "\<exists>w'. route_once demo_env 9 0 demo_signal ?w = (Inr (Answer (Unmatched ''i'')), w')"
    by (simp add: route_once_def over_depth_def is_finished_def demo_signal_def on_rules_def new_board_def andthen_def
        zoom_def reading_def load_rules_def load_file_def attempt_def on_unmatched_def record_unmatched_def Let_def ret_def)
  then obtain w' where r: "route_once demo_env 9 0 demo_signal ?w = (Inr (Answer (Unmatched ''i'')), w')" by blast
  from refused_signal_spends_nothing [OF world_ok_new_board r] r show ?thesis
    by (auto simp: subs_def new_board_def at_zero_def submissions_def)
qed

text \<open>
  C40. Routing keeps the whole board well formed: after any sequence of deliveries with their cascades,
  every store still satisfies its invariant, and the rules, the connections, the response claims and
  the approval records are untouched.
\<close>

theorem routing_keeps_board:
  assumes "world_ok w"
  shows "world_ok (route_all e timeout ds w) \<and> same_stores w (route_all e timeout ds w)"
  using assms
proof (induction e timeout ds w rule: route_all.induct)
  case (2 e timeout sg now ds w)
  have "board_frame now w (snd (route_signal e timeout now sg w))" by (rule route_signal_frame [OF 2(2)])
  with 2(1) show ?case using same_stores_trans by (auto simp: board_frame_def)
qed simp

theorem routing_keeps_board_witness:
  "world_ok (route_all demo_env 9 [(demo_signal, 0), (demo_signal, 1)] demo_world)"
  using routing_keeps_board [OF demo_world_ok] by blast

text \<open>
  The self-loop guard works where it can: a validated \<open>run.finished\<close> rule whose condition names an
  Assistant never matches the completion of a Run it started itself, whatever else the condition says.
\<close>

theorem pinned_rule_never_matches_itself:
  assumes "validate_rule r = Inr v" and "rule_signal_type v = ''run.finished''"
    and "when_cond v = Some wc" and "map_of wc ''assistant'' \<noteq> None"
    and "run_finished_signal rid subject (rule_connection v) (rule_assistant v) status n = Inr sg"
  shows "matches v sg = Inr False"
proof -
  have look: "lookup_path (payload sg) key = Inr (JStr val)"
    if "map_of (payload sg) key = Some (JStr val)" "CHR ''.'' \<notin> set key" for key val
    using that by (simp add: lookup_path_def split_on_no_sep)
  have p: "lookup_path (payload sg) ''assistant'' = Inr (JStr (rule_assistant v))"
    "lookup_path (payload sg) ''connection'' = Inr (JStr (rule_connection v))"
    by (rule look; use assms(5) in \<open>simp add: run_finished_signal_Inr\<close>)+
  have no_loop: "\<not> self_loop wc (rule_connection v) (rule_assistant v)"
    using validate_rule_ok [OF assms(1)] assms(2,3) by (simp add: rule_ok_def)
  obtain j where j: "map_of wc ''assistant'' = Some j" using assms(4) by blast
  have "\<not> list_all (holds_cond (payload sg)) wc"
  proof
    assume all: "list_all (holds_cond (payload sg)) wc"
    have "holds_cond (payload sg) (''assistant'', j)"
      using all j by (auto simp: list_all_iff dest: map_of_SomeD)
    then have "j = JStr (rule_assistant v)" using p(1) by (simp add: holds_cond_def)
    with no_loop j obtain c where c: "map_of wc ''connection'' = Some c" "\<not> py_eq c (JStr (rule_connection v))"
      by (auto simp: self_loop_def split: option.splits)
    have "holds_cond (payload sg) (''connection'', c)"
      using all c(1) by (auto simp: list_all_iff dest: map_of_SomeD)
    then have "c = JStr (rule_connection v)" using p(2) by (simp add: holds_cond_def)
    with c(2) show False by simp
  qed
  then show ?thesis using assms(2,3,5) by (simp add: matches_def run_finished_signal_Inr)
qed

definition demo_when :: "json dict" where
  "demo_when = [(''name'', JStr ''n''), (''signal_type'', JStr ''run.finished''), (''connection'', JStr ''c''),
     (''assistant'', JStr ''a''), (''when'', JObj [(''assistant'', JStr ''b'')])]"

theorem pinned_rule_never_matches_itself_witness:
  "\<exists>v sg. validate_rule demo_when = Inr v \<and> run_finished_signal ''r'' ''x'' ''c'' ''a'' ''success'' 0 = Inr sg \<and>
     matches v sg = Inr False"
proof -
  let ?v = "\<lparr>rule_name = ''n'', rule_signal_type = ''run.finished'', match_cond = None,
     when_cond = Some [(''assistant'', JStr ''b'')], rule_connection = ''c'', rule_assistant = ''a'',
     rule_subject = ''subject'', input_map = []\<rparr>"
  have v: "validate_rule demo_when = Inr ?v"
    by (simp add: validate_rule_def demo_when_def blank_def py_space_def Let_def SIGNAL_TYPES_def
        validate_finished_rule_def declares_def self_loop_def validate_input_mapping_def)
  obtain sg where s: "run_finished_signal ''r'' ''x'' ''c'' ''a'' ''success'' 0 = Inr sg"
    by (simp add: run_finished_signal_def first_blank_def blank_def py_space_def Let_def)
  have "matches ?v sg = Inr False"
    by (rule pinned_rule_never_matches_itself [OF v, of "[(''assistant'', JStr ''b'')]" "''r''" "''x''" "''success''" 0])
      (use s in simp_all)
  with v s show ?thesis by blast
qed

end
