(* ===== verification/Sweep.thy ===== *)
theory Sweep
  imports Router_Facts
begin

text \<open>
  What \<^verbatim>\<open>sweep_pending\<close> does to the board: the disposition of one tracked Run per observed
  status, the invariant over the whole sweep, and the submissions its cascades make.
\<close>

lemma update_pending_wp:
  assumes "pending_inv f" "\<not> blank d" "\<not> blank t"
  shows "wp (update_pending d t None ch dh now) (\<lambda>r f'. pending_inv f' \<and> (\<exists>x. r = Inr x)) f"
proof -
  have rd: "readable f" using assms(1) by (auto simp: pending_inv_def)
  have inv: "pending_inv (snd (update_pending d t None ch dh now f))"
    by (rule update_pending_inv [OF assms(1)]) simp
  moreover have "\<exists>x. fst (update_pending d t None ch dh now f) = Inr x"
    using assms(2,3) rd by (auto simp: update_pending_def Let_def split: option.splits)
  ultimately show ?thesis by (simp add: wp_fst_snd)
qed

lemma resolve_pending_wp:
  assumes "pending_inv f" "\<not> blank d" "\<not> blank t"
  shows "wp (resolve_pending d t) (\<lambda>r f'. pending_inv f' \<and> r = Inr (pending_entry f d t) \<and>
    pending_entry f' d t = None \<and>
    (\<forall>d' t'. (d', t') \<noteq> (d, t) \<longrightarrow> pending_entry f' d' t' = pending_entry f d' t')) f"
proof -
  have rd: "readable f" using assms(1) by (auto simp: pending_inv_def)
  have "pending_inv (snd (resolve_pending d t f))" by (rule resolve_pending_inv [OF assms(1)])
  then show ?thesis
    using resolve_pending_eq [OF rd assms(2,3)]
    by (auto simp: wp_fst_snd pending_entry_def delete_conv')
qed

definition entry_pair :: "pending \<Rightarrow> claim_pair" where
  "entry_pair entry = Claim_Pair (p_assistant entry) (p_subject entry)"

text \<open>
  The activity record of the Deployment after a sweep released it: one active Run less, and activity now. Without a
  record, for an external Deployment, one that is not running, or an entry that did not hold it, nothing changes.
\<close>

definition gives_back :: "connection \<Rightarrow> string \<Rightarrow> seconds \<Rightarrow> pending \<Rightarrow> world \<Rightarrow> world \<Rightarrow> bool" where
  "gives_back conn d now entry w w' =
     (\<forall>x. map_of (content (w_life w')) x =
        (if x = d \<and> p_deployment_held entry \<and> is_managed conn
         then map_option (\<lambda>l. if life_status l = RUNNING
                then l\<lparr>active_runs := max 0 (active_runs l - 1), last_active := now\<rparr> else l) (map_of (content (w_life w)) x)
         else map_of (content (w_life w)) x))"

lemma release_active_exact:
  assumes "file_ok f"
  shows "wp (release_active d conn now) (\<lambda>r f'. r = Inr () \<and> file_ok f' \<and>
     (\<forall>x. map_of (content f') x =
        (if x = d \<and> is_managed conn
         then map_option (\<lambda>l. if life_status l = RUNNING
                then l\<lparr>active_runs := max 0 (active_runs l - 1), last_active := now\<rparr> else l) (map_of (content f) x)
         else map_of (content f) x))) f"
proof (cases "is_managed conn")
  case True
  have rd: "readable f" using assms by (simp add: file_ok_def)
  show ?thesis
    using release_active_wp [OF assms, of d conn now] release_active_eq [OF rd True, of d now] True
    by (auto simp: wp_fst_snd split: option.splits if_splits)
next
  case False
  then show ?thesis using assms by (simp add: release_active_def)
qed

lemma release_held_wp:
  assumes w: "world_ok w" and v: "pair_valid (entry_pair entry)"
  shows "wp (release_held conn d now entry) (\<lambda>r w'. r = Inr () \<and> world_ok w' \<and>
      w' = w\<lparr>w_life := w_life w', w_claims := w_claims w'\<rparr> \<and> gives_back conn d now entry w w' \<and>
      claims w' = (if p_concurrency_held entry then (claims w)(entry_pair entry := None) else claims w)) w"
proof -
  have fl: "file_ok (w_life w)" and fc: "file_ok (w_claims w)" using w by (simp_all add: world_ok_def)
  note rel = release_active_exact [OF fl, of d conn now]
  note relc = release_concurrency_wp [OF fc v [unfolded entry_pair_def]]
  show ?thesis
    unfolding release_held_def on_life_def on_claims_def
    using w by (auto intro!: wp_mono [OF rel] wp_mono [OF relc] simp: claims_def entry_pair_def gives_back_def)
      (auto simp: world_ok_def)
qed

lemma default_status_check_submissions:
  "wp (default_status_check e ep t i) (\<lambda>r u'. submissions u' = submissions u) u"
proof -
  have "wp (describe_run e ep t i) (\<lambda>r u'. submissions u' = submissions u) u"
    by (simp add: wp_fst_snd describe_run_frame)
  then show ?thesis
    unfolding default_status_check_def by (auto elim: wp_mono)
qed

text \<open>An interrupted Run's entry after a sweep: nothing held, and the rest as it was.\<close>

definition unheld :: "seconds \<Rightarrow> pending \<Rightarrow> pending" where
  "unheld now entry = entry\<lparr>p_concurrency_held := False, p_deployment_held := False, p_recorded_at := now\<rparr>"

lemma downgrade_wp:
  assumes "pending_inv f" "\<not> blank d" "\<not> blank t"
  shows "wp (update_pending d t None (Some False) (Some False) now) (\<lambda>r f'. pending_inv f' \<and> (\<exists>x. r = Inr x) \<and>
    pending_entry f' d t = map_option (unheld now) (pending_entry f d t) \<and>
    (\<forall>d' t'. (d', t') \<noteq> (d, t) \<longrightarrow> pending_entry f' d' t' = pending_entry f d' t')) f"
proof -
  have rd: "readable f" using assms(1) by (auto simp: pending_inv_def)
  show ?thesis
    using update_pending_wp [OF assms, of "Some False" "Some False" now] assms(2,3) rd
    by (auto simp: wp_fst_snd update_pending_def Let_def pending_entry_def unheld_def update_conv' split: option.splits)
qed

section \<open>One tracked Run\<close>

text \<open>An entry that the sweep reads under its own key, for a registered Deployment.\<close>

definition tracked :: "connection dict \<Rightarrow> string \<Rightarrow> string \<Rightarrow> connection \<Rightarrow> pending \<Rightarrow> bool" where
  "tracked conns d t conn entry =
     (map_of conns d = Some conn \<and> pending_rec_ok entry \<and> p_deployment entry = d \<and> p_thread_id entry = t)"

lemma tracked_ids:
  assumes "tracked conns d t conn entry"
  shows "\<not> blank d" "\<not> blank t" "pair_valid (entry_pair entry)" "0 \<le> p_cascade_depth entry"
  using assms by (auto simp: tracked_def pending_rec_ok_def pair_valid_def entry_pair_def)

definition observe :: "env \<Rightarrow> connection \<Rightarrow> string \<Rightarrow> pending \<Rightarrow> (outside, json) prog" where
  "observe e conn t entry = default_status_check e (endpoint conn) t (p_invocation_id entry)"

lemma observe_subs: "observe e conn t entry u = (r, u') \<Longrightarrow> submissions u' = submissions u"
  using wpD [OF default_status_check_submissions] unfolding observe_def by blast

lemma world_ok_out [simp]: "world_ok (w\<lparr>w_out := u\<rparr>) = world_ok w"
  by (simp add: world_ok_def)

lemma sweep_entry_eq:
  assumes "tracked conns d t conn entry"
  shows "sweep_entry e (default_status_check e) timeout now conns (dumps_strs [d, t]) entry w =
    (case observe e conn t entry (w_out w) of
       (Inl x, u) \<Rightarrow> if exn_class x = PyRuntimeError then (Inr [], w\<lparr>w_out := u\<rparr>) else (Inl x, w\<lparr>w_out := u\<rparr>)
     | (Inr raw, u) \<Rightarrow>
         (if raw \<in> WAITING_RAW_STATUSES then
            andthen (only_if (p_concurrency_held entry)
              (on_claims (renew_concurrency (p_assistant entry) (p_subject entry) now))) (\<lambda>_. ret [])
          else if raw = JStr ''interrupted'' then
            andthen (release_held conn d now entry) (\<lambda>_.
            andthen (on_pending (update_pending d t None (Some False) (Some False) now))
              (\<lambda>_. ret [Swept d t raw None]))
          else
            andthen (release_held conn d now entry) (\<lambda>_.
            andthen (on_pending (resolve_pending d t)) (\<lambda>_.
            if raw = JStr ''success'' then
              andthen (sweep_cascade e timeout now d t entry) (\<lambda>c. ret [Swept d t raw (Some c)])
            else ret [Swept d t raw None]))) (w\<lparr>w_out := u\<rparr>))"
  using assms
  by (auto simp: sweep_entry_def loads_dumps_strs tracked_def observe_def andthen_def tried_def catching_def
      on_out_def zoom_def ret_def is_transport_failure_def split: prod.splits sum.splits)

lemma sweep_waiting:
  assumes t: "tracked conns d t conn entry" and w: "world_ok w"
    and o: "observe e conn t entry (w_out w) = (Inr raw, u)" and raw: "raw \<in> WAITING_RAW_STATUSES"
  shows "wp (sweep_entry e (default_status_check e) timeout now conns (dumps_strs [d, t]) entry)
    (\<lambda>r w'. world_ok w' \<and> w' = w\<lparr>w_claims := w_claims w', w_out := u\<rparr> \<and> (\<forall>rs. r = Inr rs \<longrightarrow> rs = []) \<and>
       (\<forall>p. (claims w' p = None) = (claims w p = None))) w"
proof -
  have fc: "file_ok (w_claims w)" using w by (simp add: world_ok_def)
  note ren = renew_concurrency_wp [OF fc, of "p_assistant entry" "p_subject entry" now]
  have e: "wp (sweep_entry e (default_status_check e) timeout now conns (dumps_strs [d, t]) entry) Q w =
      wp (andthen (only_if (p_concurrency_held entry)
              (on_claims (renew_concurrency (p_assistant entry) (p_subject entry) now))) (\<lambda>_. ret [])) Q (w\<lparr>w_out := u\<rparr>)" for Q
    by (rule wp_same) (simp add: sweep_entry_eq [OF t] o raw)
  show ?thesis
    unfolding e on_claims_def
    using w by (auto intro!: wp_mono [OF ren] simp: claims_def) (auto simp: world_ok_def)
qed

text \<open>Any status but a waiting or successful one: held claims released, no cascade.\<close>

lemma sweep_ended:
  assumes t: "tracked conns d t conn entry" and w: "world_ok w"
    and o: "observe e conn t entry (w_out w) = (Inr raw, u)"
    and raw: "raw \<notin> WAITING_RAW_STATUSES" "raw \<noteq> JStr ''success''"
  shows "wp (sweep_entry e (default_status_check e) timeout now conns (dumps_strs [d, t]) entry)
    (\<lambda>r w'. world_ok w' \<and> r = Inr [Swept d t raw None] \<and> subs w' = subs w \<and> w_signals w' = w_signals w \<and>
       claims w' = (if p_concurrency_held entry then (claims w)(entry_pair entry := None) else claims w) \<and>
       gives_back conn d now entry w w' \<and>
       pending_entry (w_pending w') d t =
         (if raw = JStr ''interrupted'' then map_option (unheld now) (pending_entry (w_pending w) d t) else None) \<and>
       (\<forall>d' t'. (d', t') \<noteq> (d, t) \<longrightarrow> pending_entry (w_pending w') d' t' = pending_entry (w_pending w) d' t') \<and>
       w_cont w' = w_cont w) w"
proof -
  note ids = tracked_ids [OF t]
  have s: "submissions u = submissions (w_out w)" by (rule observe_subs [OF o])
  have pi: "pending_inv (w_pending w)" using w by (simp add: world_ok_def)
  have claims_out: "claims (w\<lparr>w_out := u\<rparr>) = claims w" by (simp add: claims_def)
  have rel: "wp (release_held conn d now entry) (\<lambda>r w'. r = Inr () \<and> world_ok w' \<and>
      subs w' = subs w \<and> w_signals w' = w_signals w \<and> w_pending w' = w_pending w \<and>
      gives_back conn d now entry w w' \<and> w_cont w' = w_cont w \<and>
      claims w' = (if p_concurrency_held entry then (claims w)(entry_pair entry := None) else claims w))
      (w\<lparr>w_out := u\<rparr>)"
  proof (rule wp_mono [OF release_held_wp [OF _ ids(3)]], goal_cases)
    case (2 r w')
    then obtain wl wc where "w' = w\<lparr>w_out := u, w_life := wl, w_claims := wc\<rparr>" by metis
    with 2 s claims_out show ?case by (simp add: subs_def gives_back_def)
  qed (use w in simp)
  have up: "world_ok (v\<lparr>w_pending := f\<rparr>) \<and> subs (v\<lparr>w_pending := f\<rparr>) = subs v \<and> claims (v\<lparr>w_pending := f\<rparr>) = claims v \<and>
      gives_back conn d now entry w (v\<lparr>w_pending := f\<rparr>) = gives_back conn d now entry w v"
    if "world_ok v" "pending_inv f" for v f
    using that by (simp add: world_ok_def subs_def claims_def gives_back_def)
  show ?thesis
  proof (cases "raw = JStr ''interrupted''")
    case True
    have e: "wp (sweep_entry e (default_status_check e) timeout now conns (dumps_strs [d, t]) entry) Q w =
        wp (andthen (release_held conn d now entry) (\<lambda>_.
            andthen (on_pending (update_pending d t None (Some False) (Some False) now))
              (\<lambda>_. ret [Swept d t raw None]))) Q (w\<lparr>w_out := u\<rparr>)" for Q
      by (rule wp_same) (use True raw in \<open>simp add: sweep_entry_eq [OF t] o\<close>)
    note upd = downgrade_wp [OF pi ids(1,2), of now]
    show ?thesis
      unfolding e on_pending_def using True
      by (auto intro!: wp_mono [OF rel] wp_mono [OF upd] simp: up)
  next
    case False
    have e: "wp (sweep_entry e (default_status_check e) timeout now conns (dumps_strs [d, t]) entry) Q w =
        wp (andthen (release_held conn d now entry) (\<lambda>_.
            andthen (on_pending (resolve_pending d t)) (\<lambda>_. ret [Swept d t raw None]))) Q (w\<lparr>w_out := u\<rparr>)" for Q
      by (rule wp_same) (use False in \<open>simp add: sweep_entry_eq [OF t] o raw\<close>)
    note res = resolve_pending_wp [OF pi ids(1,2)]
    show ?thesis
      unfolding e on_pending_def
      using False by (auto intro!: wp_mono [OF rel] wp_mono [OF res] simp: up)
  qed
qed

section \<open>The cascade of a Run that finished meanwhile\<close>

text \<open>The invariant, and at most five submissions: the cascade of one completed Run.\<close>

definition few_submissions :: "nat \<Rightarrow> world \<Rightarrow> world \<Rightarrow> bool" where
  "few_submissions n w w' = (\<exists>rqs. subs w' = rqs @ subs w \<and> length rqs \<le> n)"

lemma finished_cascade_left:
  "run_finished_signal r s c a st n = Inr sg \<Longrightarrow> cascade_left sg \<le> 5"
  by (auto simp: run_finished_signal_Inr cascade_left_def is_finished_def payload_depth_def MAX_CASCADE_DEPTH_def)

lemma sweep_cascade_wp:
  assumes w: "world_ok w"
  shows "wp (sweep_cascade e timeout now d t entry) (\<lambda>r w'. world_ok w' \<and> few_submissions 5 w w') w"
proof -
  have route: "wp (route_signal e timeout now sg) (\<lambda>r w'. world_ok w' \<and> few_submissions 5 w w') w"
    if "run_finished_signal rid s c a st n = Inr sg" for rid s c a st n sg
    using route_signal_frame [OF w, of now e timeout sg] route_signal_submissions [OF w, of e timeout now sg]
      finished_cascade_left [OF that]
    by (auto simp: wp_fst_snd few_submissions_def board_frame_def intro: order_trans)
  have look: "wp (on_continuity (logical_run d t)) (\<lambda>r w'. w' = w) w"
    using logical_run_state [of d t "w_cont w"]
    by (simp add: on_continuity_def wp_fst_snd [of "logical_run d t"])
  have none: "few_submissions 5 w w" by (simp add: few_submissions_def)
  show ?thesis
    unfolding sweep_cascade_def Let_def
    by (auto intro!: wp_mono [OF look] simp: w none split: sum.splits dest: route elim: wp_mono)
qed

lemma sweep_success:
  assumes t: "tracked conns d t conn entry" and w: "world_ok w"
    and o: "observe e conn t entry (w_out w) = (Inr (JStr ''success''), u)"
  shows "wp (sweep_entry e (default_status_check e) timeout now conns (dumps_strs [d, t]) entry)
    (\<lambda>r w'. world_ok w' \<and> few_submissions 5 w w') w"
proof -
  note ids = tracked_ids [OF t]
  have s: "submissions u = submissions (w_out w)" by (rule observe_subs [OF o])
  have e: "wp (sweep_entry e (default_status_check e) timeout now conns (dumps_strs [d, t]) entry) Q w =
      wp (andthen (release_held conn d now entry) (\<lambda>_.
          andthen (on_pending (resolve_pending d t)) (\<lambda>_.
          andthen (sweep_cascade e timeout now d t entry)
            (\<lambda>c. ret [Swept d t (JStr ''success'') (Some c)])))) Q (w\<lparr>w_out := u\<rparr>)" for Q
    by (rule wp_same) (simp add: sweep_entry_eq [OF t] o WAITING_RAW_STATUSES_def)
  have rel: "wp (release_held conn d now entry) (\<lambda>r v. r = Inr () \<and> world_ok v \<and> subs v = subs w) (w\<lparr>w_out := u\<rparr>)"
  proof (rule wp_mono [OF release_held_wp [OF _ ids(3)]], goal_cases)
    case (2 r v)
    then obtain wl wc where "v = w\<lparr>w_out := u, w_life := wl, w_claims := wc\<rparr>" by metis
    with 2 s show ?case by (simp add: subs_def)
  qed (use w in simp)
  have res: "wp (on_pending (resolve_pending d t)) (\<lambda>r v'. world_ok v' \<and> subs v' = subs w) v"
    if v: "world_ok v" "subs v = subs w" for v
  proof -
    have "pending_inv (w_pending v)" using v by (simp add: world_ok_def)
    from resolve_pending_wp [OF this ids(1,2)] v show ?thesis
      unfolding on_pending_def wp_zoom by - (rule wp_mono, assumption, auto simp: world_ok_def subs_def)
  qed
  have casc: "wp (sweep_cascade e timeout now d t entry) (\<lambda>r w'. world_ok w' \<and> few_submissions 5 w w') v"
    if "world_ok v" "subs v = subs w" for v
    by (rule wp_mono [OF sweep_cascade_wp]) (use that in \<open>auto simp: few_submissions_def\<close>)
  show ?thesis
    unfolding e
    by (auto intro!: wp_mono [OF rel] wp_mono [OF res] wp_mono [OF casc] simp: few_submissions_def)
qed

text \<open>Whatever a tracked Run's status, an entry keeps the invariant and starts at most five Runs.\<close>

lemma sweep_entry_wp:
  assumes t: "tracked conns d t conn entry" and w: "world_ok w"
  shows "wp (sweep_entry e (default_status_check e) timeout now conns (dumps_strs [d, t]) entry)
    (\<lambda>r w'. world_ok w' \<and> few_submissions 5 w w') w"
proof -
  obtain r u where o: "observe e conn t entry (w_out w) = (r, u)" by (cases "observe e conn t entry (w_out w)")
  have s: "submissions u = submissions (w_out w)" by (rule observe_subs [OF o])
  have out: "few_submissions 5 w (w\<lparr>w_out := u\<rparr>)" using s by (simp add: few_submissions_def subs_def)
  show ?thesis
  proof (cases r)
    case (Inl x)
    have e: "sweep_entry e (default_status_check e) timeout now conns (dumps_strs [d, t]) entry w =
      (if exn_class x = PyRuntimeError then (Inr [], w\<lparr>w_out := u\<rparr>) else (Inl x, w\<lparr>w_out := u\<rparr>))"
      using o Inl by (simp add: sweep_entry_eq [OF t])
    show ?thesis using w out by (simp add: wp_fst_snd e)
  next
    case (Inr raw)
    note o' = o [unfolded Inr]
    consider "raw \<in> WAITING_RAW_STATUSES" | "raw = JStr ''success''"
      | "raw \<notin> WAITING_RAW_STATUSES" "raw \<noteq> JStr ''success''" by blast
    then show ?thesis
    proof cases
      case 1
      show ?thesis
      proof (rule wp_mono [OF sweep_waiting [OF t w o' 1]])
        fix r w'
        assume h: "world_ok w' \<and> w' = w\<lparr>w_claims := w_claims w', w_out := u\<rparr> \<and>
            (\<forall>rs. r = Inr rs \<longrightarrow> rs = []) \<and> (\<forall>p. (claims w' p = None) = (claims w p = None))"
        then obtain wc where "w' = w\<lparr>w_claims := wc, w_out := u\<rparr>" by metis
        with h s show "world_ok w' \<and> few_submissions 5 w w'" by (simp add: few_submissions_def subs_def)
      qed
    next
      case 2
      with sweep_success [OF t w] o' show ?thesis by blast
    next
      case 3
      show ?thesis
        by (rule wp_mono [OF sweep_ended [OF t w o' 3]]) (auto simp: few_submissions_def)
    qed
  qed
qed

lemma sweep_entry_ok:
  assumes inv: "pending_inv f" and mem: "map_of (content f) key = Some entry" and w: "world_ok w"
  shows "wp (sweep_entry e (default_status_check e) timeout now conns key entry) (\<lambda>r w'. world_ok w') w"
proof -
  let ?d = "p_deployment entry" and ?t = "p_thread_id entry"
  have k: "key = dumps_strs [?d, ?t]" "pending_rec_ok entry"
    using inv mem by (auto simp: pending_inv_def)
  show ?thesis
  proof (cases "map_of conns ?d")
    case None
    then show ?thesis using w by (simp add: sweep_entry_def loads_dumps_strs k(1))
  next
    case (Some conn)
    then have "tracked conns ?d ?t conn entry" using k by (simp add: tracked_def)
    from sweep_entry_wp [OF this w] show ?thesis unfolding k(1) by (rule wp_mono) simp
  qed
qed

lemma sweep_pending_ok:
  assumes w: "world_ok w"
  shows "wp (sweep_pending e (default_status_check e) timeout now) (\<lambda>r w'. world_ok w') w"
proof -
  have inv: "pending_inv (w_pending w)" and rd: "readable (w_pending w)" "readable (w_conns w)"
    using w by (auto simp: world_ok_def pending_inv_def)
  have dist: "dict_ok (content (w_pending w))" using inv by (auto simp: pending_inv_def)
  have loop: "wp (for_collect (content (w_pending w))
      (\<lambda>kv. sweep_entry e (default_status_check e) timeout now conns (fst kv) (snd kv))) (\<lambda>r w'. world_ok w') w" for conns
  proof (rule wp_for_collect [where I = world_ok])
    show "world_ok w" by (rule w)
    fix kv v assume "kv \<in> set (content (w_pending w))" "world_ok v"
    moreover from this have "map_of (content (w_pending w)) (fst kv) = Some (snd kv)"
      using dist by (simp add: dict_ok_def)
    ultimately show "wp (sweep_entry e (default_status_check e) timeout now conns (fst kv) (snd kv)) (\<lambda>r w'. world_ok w') v"
      using sweep_entry_ok [OF inv] by blast
  qed
  show ?thesis
    unfolding sweep_pending_def on_conns_def on_pending_def
    using w loop rd by (simp add: load_connections_def)
qed

section \<open>Properties\<close>

text \<open>A board that tracks one Run, and a server that reports one status for it.\<close>

definition status_env :: "string \<Rightarrow> env" where
  "status_env st = demo_env\<lparr>server := (\<lambda>_ _. Reply 200 (Some (JObj
     [(''status'', JStr st), (''assistant_id'', JStr ''a'')])))\<rparr>"

definition demo_entry :: pending where
  "demo_entry = \<lparr>p_deployment = ''c'', p_thread_id = ''t'', p_invocation_id = ''r'', p_assistant = ''a'',
     p_subject = ''x'', p_cascade_depth = 0, p_concurrency_held = True, p_deployment_held = True, p_recorded_at = 0\<rparr>"

definition tracking_world :: world where
  "tracking_world = demo_world\<lparr>w_pending := Holds [(dumps_strs [''c'', ''t''], demo_entry)],
     w_claims := Holds [(dumps_strs [''a'', ''x''], \<lparr>claimed_at = 0\<rparr>)]\<rparr>"

lemma tracking_world_ok: "world_ok tracking_world"
  using demo_world_ok
  by (simp add: world_ok_def tracking_world_def pending_inv_def dict_ok_def demo_entry_def pending_rec_ok_def)

lemma demo_tracked: "tracked [(''c'', demo_conn)] ''c'' ''t'' demo_conn demo_entry"
  by (simp add: tracked_def demo_entry_def pending_rec_ok_def)

lemma demo_observe:
  "\<exists>u. observe (status_env st) demo_conn ''t'' demo_entry (w_out tracking_world) = (Inr (JStr st), u)"
  by (simp add: observe_def default_status_check_def describe_run_def demo_entry_def status_env_def andthen_def
      session_request_def http_def transported_subject_def get_attr_def str_field_def field_def ret_def attempt_def)

text \<open>
  A Run that is still queued or running is left alone: the sweep reports nothing for it, keeps its
  entry, submits nothing, and touches no claim but to renew the one the Run holds.
\<close>

theorem active_run_left_alone:
  assumes "tracked conns d t conn entry" and "world_ok w"
    and "observe e conn t entry (w_out w) = (Inr raw, u)" and "raw = JStr ''pending'' \<or> raw = JStr ''running''"
    and "sweep_entry e (default_status_check e) timeout now conns (dumps_strs [d, t]) entry w = (r, w')"
  shows "(\<forall>rs \<in> {rs. r = Inr rs}. rs = []) \<and> w_pending w' = w_pending w \<and> w_life w' = w_life w \<and>
    w_signals w' = w_signals w \<and> subs w' = subs w \<and> {p. claims w' p \<noteq> None} = {p. claims w p \<noteq> None}"
proof -
  have "raw \<in> WAITING_RAW_STATUSES" using assms(4) by (auto simp: WAITING_RAW_STATUSES_def)
  from wpD [OF sweep_waiting [OF assms(1-3) this] assms(5)] obtain wc where
    "w' = w\<lparr>w_claims := wc, w_out := u\<rparr>" "\<forall>rs. r = Inr rs \<longrightarrow> rs = []"
    "\<forall>p. (claims w' p = None) = (claims w p = None)" by metis
  then show ?thesis using observe_subs [OF assms(3)] by (auto simp: subs_def)
qed

theorem active_run_left_alone_witness:
  "\<exists>r w'. sweep_entry (status_env ''running'') (default_status_check (status_env ''running'')) 9 5
      [(''c'', demo_conn)] (dumps_strs [''c'', ''t'']) demo_entry tracking_world = (r, w') \<and>
    w_pending w' = w_pending tracking_world \<and> claims w' (Claim_Pair ''a'' ''x'') \<noteq> None"
proof -
  obtain u where o: "observe (status_env ''running'') demo_conn ''t'' demo_entry (w_out tracking_world) =
      (Inr (JStr ''running''), u)" using demo_observe by blast
  obtain r w' where s: "sweep_entry (status_env ''running'') (default_status_check (status_env ''running'')) 9 5
      [(''c'', demo_conn)] (dumps_strs [''c'', ''t'']) demo_entry tracking_world = (r, w')" by (metis prod.collapse)
  have "Claim_Pair ''a'' ''x'' \<in> {p. claims tracking_world p \<noteq> None}"
    by (simp add: claims_def pair_claim_def tracking_world_def)
  with active_run_left_alone [OF demo_tracked tracking_world_ok o _ s] s show ?thesis by auto
qed

text \<open>
  C25. A Run that ended without success, or paused again, gives back exactly what its entry held: the pair's claim when
  the entry held it, and the Deployment when the entry held that (one active Run less on its record, active now, when it
  is managed and running). No other claim and no other Deployment's record changes. The sweep reports the status without
  a cascade and submits nothing; an interrupted Run's entry stays, holding nothing any more, any other Run's entry is
  forgotten, and every other entry is as it was.
\<close>

theorem ended_run_gives_back:
  assumes "tracked conns d t conn entry" and "world_ok w"
    and "observe e conn t entry (w_out w) = (Inr (JStr st), u)"
    and "st \<notin> {''pending'', ''running'', ''success''}"
  shows "\<exists>w'. sweep_entry e (default_status_check e) timeout now conns (dumps_strs [d, t]) entry w =
      (Inr [Swept d t (JStr st) None], w') \<and> subs w' = subs w \<and> w_signals w' = w_signals w \<and> w_cont w' = w_cont w \<and>
    claims w' = (if p_concurrency_held entry then (claims w)(entry_pair entry := None) else claims w) \<and>
    (\<forall>x. map_of (content (w_life w')) x =
      (if x = d \<and> p_deployment_held entry \<and> is_managed conn
       then map_option (\<lambda>l. if life_status l = RUNNING
              then l\<lparr>active_runs := max 0 (active_runs l - 1), last_active := now\<rparr> else l) (map_of (content (w_life w)) x)
       else map_of (content (w_life w)) x)) \<and>
    (\<forall>d' t'. pending_entry (w_pending w') d' t' =
      (if (d', t') \<noteq> (d, t) then pending_entry (w_pending w) d' t'
       else if st = ''interrupted'' then
         map_option (\<lambda>p. p\<lparr>p_concurrency_held := False, p_deployment_held := False, p_recorded_at := now\<rparr>)
           (pending_entry (w_pending w) d t)
       else None))"
proof -
  have raw: "JStr st \<notin> WAITING_RAW_STATUSES" "JStr st \<noteq> JStr ''success''"
    using assms(4) by (auto simp: WAITING_RAW_STATUSES_def)
  from sweep_ended [OF assms(1-3) raw, of timeout now] obtain w' where w':
      "sweep_entry e (default_status_check e) timeout now conns (dumps_strs [d, t]) entry w = (Inr [Swept d t (JStr st) None], w')"
      "subs w' = subs w" "w_signals w' = w_signals w" "w_cont w' = w_cont w"
      "claims w' = (if p_concurrency_held entry then (claims w)(entry_pair entry := None) else claims w)"
      "gives_back conn d now entry w w'"
      "pending_entry (w_pending w') d t =
         (if st = ''interrupted'' then map_option (unheld now) (pending_entry (w_pending w) d t) else None)"
      "\<forall>d' t'. (d', t') \<noteq> (d, t) \<longrightarrow> pending_entry (w_pending w') d' t' = pending_entry (w_pending w) d' t'"
    by (auto simp: wp_def split: prod.splits)
  have u: "unheld now = (\<lambda>p. p\<lparr>p_concurrency_held := False, p_deployment_held := False, p_recorded_at := now\<rparr>)"
    by (simp add: fun_eq_iff unheld_def)
  show ?thesis
    using w' by (intro exI [of _ w'] conjI) (auto simp: gives_back_def u)
qed

text \<open>A Run on a managed Deployment that paused: its pair is free, the Deployment idle, and its entry holds nothing.\<close>

definition managed_world :: world where
  "managed_world = tracking_world\<lparr>w_life := Holds [(''c'', \<lparr>life_status = RUNNING, life_pid = Some 7, active_runs = 1,
     started_at = None, last_active = 0, last_error = None\<rparr>)]\<rparr>"

theorem ended_run_gives_back_witness:
  "\<exists>w'. sweep_entry (status_env ''interrupted'') (default_status_check (status_env ''interrupted'')) 9 5
      [(''c'', managed_conn)] (dumps_strs [''c'', ''t'']) demo_entry managed_world =
      (Inr [Swept ''c'' ''t'' (JStr ''interrupted'') None], w') \<and>
    claims w' (Claim_Pair ''a'' ''x'') = None \<and>
    map_option active_runs (map_of (content (w_life w')) ''c'') = Some 0 \<and>
    map_option p_deployment_held (pending_entry (w_pending w') ''c'' ''t'') = Some False"
proof -
  have t: "tracked [(''c'', managed_conn)] ''c'' ''t'' managed_conn demo_entry"
    by (simp add: tracked_def demo_entry_def pending_rec_ok_def)
  have w: "world_ok managed_world"
    using tracking_world_ok by (simp add: world_ok_def managed_world_def file_ok_def dict_ok_def)
  obtain u where o: "observe (status_env ''interrupted'') managed_conn ''t'' demo_entry (w_out managed_world) =
      (Inr (JStr ''interrupted''), u)"
    by (simp add: observe_def default_status_check_def describe_run_def demo_entry_def status_env_def andthen_def
      session_request_def http_def transported_subject_def get_attr_def str_field_def field_def ret_def attempt_def)
  from ended_run_gives_back [OF t w o, of 9 5] obtain w' where w':
      "sweep_entry (status_env ''interrupted'') (default_status_check (status_env ''interrupted'')) 9 5
        [(''c'', managed_conn)] (dumps_strs [''c'', ''t'']) demo_entry managed_world =
        (Inr [Swept ''c'' ''t'' (JStr ''interrupted'') None], w')"
      "claims w' = (claims managed_world)(entry_pair demo_entry := None)"
      "map_of (content (w_life w')) ''c'' =
        map_option (\<lambda>l. if life_status l = RUNNING
              then l\<lparr>active_runs := max 0 (active_runs l - 1), last_active := 5\<rparr> else l) (map_of (content (w_life managed_world)) ''c'')"
      "pending_entry (w_pending w') ''c'' ''t'' =
         map_option (\<lambda>p. p\<lparr>p_concurrency_held := False, p_deployment_held := False, p_recorded_at := 5\<rparr>)
           (pending_entry (w_pending managed_world) ''c'' ''t'')"
    by (auto simp: demo_entry_def managed_conn_def is_managed_def)
  then show ?thesis
    by (intro exI [of _ w'])
      (simp add: demo_entry_def entry_pair_def managed_world_def tracking_world_def pending_entry_def)
qed

text \<open>
  A whole sweep keeps the board well formed, whatever the servers report and whatever the cascades
  of the finished Runs do.
\<close>

theorem sweep_keeps_board:
  assumes "world_ok w"
  shows "world_ok (snd (sweep_pending e (default_status_check e) timeout now w))"
  using sweep_pending_ok [OF assms, of e timeout now] by (simp add: wp_fst_snd)

theorem sweep_keeps_board_witness:
  "world_ok (snd (sweep_pending (status_env ''success'') (default_status_check (status_env ''success'')) 9 5 tracking_world))"
  using sweep_keeps_board [OF tracking_world_ok] .

end
