(* ===== verification/Inbox_Facts.thy ===== *)
theory Inbox_Facts
  imports Approval_Inbox Sweep
begin

text \<open>
  What \<^verbatim>\<open>submit_response\<close> does to the board, for any authorization boundary that keeps the contract
  \<open>entity_auth\<close>: the invariant, when it submits, and the durable outcome of the interrupt.
\<close>

section \<open>The operations it uses\<close>

lemma claim_response_wp:
  assumes "file_ok f"
  shows "wp (claim_response d t i now) (\<lambda>r f'. file_ok f' \<and>
    (case r of Inl x \<Rightarrow> f' = f
     | Inr b \<Rightarrow> b = (\<not> response_claimed f (Interrupt_Key d t i)) \<and> response_claimed f' (Interrupt_Key d t i) \<and>
         (if b then outcome_of f' (Interrupt_Key d t i) = Some None else f' = f))) f"
proof (cases "key_valid (Interrupt_Key d t i)")
  case True
  have rd: "readable f" using assms by auto
  show ?thesis
    using claim_key_eq [OF rd True, of now] assms True
    by (auto simp: wp_fst_snd file_ok_def response_claimed_def outcome_of_def update_conv')
next
  case False
  then have "\<exists>x. response_key d t i = Inl x"
    using response_key_Inr [of d t i] by (cases "response_key d t i") auto
  with assms show ?thesis by (auto simp: wp_fst_snd claim_response_def)
qed

lemma record_outcome_wp:
  assumes f: "file_ok f" and out: "out \<in> set OUTCOMES"
  shows "wp (record_outcome d t i out now) (\<lambda>r f'. file_ok f' \<and>
    (outcome_of f (Interrupt_Key d t i) = Some None \<longrightarrow>
       (\<exists>x. r = Inr x) \<and> outcome_of f' (Interrupt_Key d t i) = Some (Some out))) f"
proof (cases "outcome_of f (Interrupt_Key d t i)")
  case None
  from resp_out.put_refused [of f out "Interrupt_Key d t i" now] f None show ?thesis
    by (auto simp: wp_fst_snd)
next
  case (Some old)
  from resp_out.put_known [OF f out Some, of now] Some show ?thesis
    by (auto simp: wp_fst_snd)
qed

lemma resolve_approved_wp:
  assumes "nested_ok f"
  shows "wp (resolve_approved d t now) (\<lambda>r f'. nested_ok f' \<and>
    (\<forall>x. r = Inl x \<longrightarrow> exn_class x = UnknownWaitingApproval)) f"
proof (cases "approval_record f (d, t)")
  case None
  have "readable f" using assms by auto
  from dispose_unknown [OF this None, of AP_RESUMED now] assms show ?thesis
    by (simp add: wp_fst_snd resolve_approved_def)
next
  case (Some rec)
  from dispose_eq [OF assms Some, of AP_RESUMED now] obtain x f' where
    "dispose d t AP_RESUMED now f = (Inr x, f')" "nested_ok f'" by metis
  then show ?thesis by (simp add: wp_fst_snd resolve_approved_def)
qed

definition one_more :: "outside \<Rightarrow> outside \<Rightarrow> bool" where
  "one_more u u' = (submissions u' = submissions u \<or> (\<exists>rq. submissions u' = Http rq # submissions u))"

lemma submit_resume_wp: "wp (submit_resume e ep t a v) (\<lambda>r u'. one_more u u') u"
proof -
  have "one_more u (snd (session_request e ep ''POST'' (runs_path t) b u))" for b
    by (auto simp: one_more_def submissions_request)
  then have req: "wp (session_request e ep ''POST'' (runs_path t) b) (\<lambda>r u'. one_more u u') u" for b
    by (simp add: wp_fst_snd)
  show ?thesis
    unfolding submit_resume_def by (auto intro!: wp_mono [OF req])
qed

lemma wait_for_run_wp: "wp (wait_for_run e ep t i timeout) (\<lambda>r u'. submissions u' = submissions u) u"
  by (simp add: wp_fst_snd)

lemma backend_resume_wp:
  assumes c: "continuity_inv (fst b)"
  shows "wp (backend_resume e board ep t a v timeout) (\<lambda>r b'. continuity_inv (fst b') \<and> one_more (snd b) (snd b')) b"
proof -
  have rec: "wp (logical_run_id_for_resume board t i) (\<lambda>r b'. continuity_inv (fst b') \<and> snd b' = u)
      (c0, u)" if "continuity_inv c0" for i c0 u
    unfolding logical_run_id_for_resume_def on_cont_def using that
    by (auto split: option.splits intro!: wp_mono [OF record_submission_wp])
  show ?thesis
    unfolding backend_resume_def on_net_def
    using c
    by (auto intro!: wp_mono [OF submit_resume_wp] wp_mono [OF wait_for_run_wp] wp_mono [OF rec] simp: one_more_def)
qed

section \<open>The response, step by step\<close>

definition response_key_of :: "response_request \<Rightarrow> interrupt_key" where
  "response_key_of q = Interrupt_Key (q_deployment q) (q_thread_id q) (q_interrupt_id q)"

definition response_outcome :: "response_request \<Rightarrow> world \<Rightarrow> string option option" where
  "response_outcome q w = outcome_of (w_responses w) (response_key_of q)"

lemma few_refl [simp]: "few_submissions n w w"
  by (simp add: few_submissions_def)

lemma few_trans: "few_submissions m u v \<Longrightarrow> few_submissions n v w \<Longrightarrow> m + n \<le> k \<Longrightarrow> few_submissions k u w"
  by (force simp: few_submissions_def)

lemma few_0: "few_submissions 0 w w' = (subs w' = subs w)"
  by (simp add: few_submissions_def)

lemma few_same: "subs w' = subs w \<Longrightarrow> few_submissions n w w'"
  by (simp add: few_submissions_def)

lemma record_response_wp:
  assumes w: "world_ok w" and out: "out \<in> set OUTCOMES"
  shows "wp (record_response q out now) (\<lambda>r w'. world_ok w' \<and> subs w' = subs w \<and>
    (response_outcome q w = Some None \<longrightarrow> r = Inr () \<and> response_outcome q w' = Some (Some out))) w"
proof -
  have "file_ok (w_responses w)" using w by (simp add: world_ok_def)
  note rec = record_outcome_wp [OF this out]
  show ?thesis
    unfolding record_response_def on_responses_def
    by (auto intro!: wp_mono [OF rec] simp: response_outcome_def response_key_of_def)
      (use w in \<open>auto simp: world_ok_def subs_def\<close>)
qed

lemma keep_deployment_wp [simp]: "wp keep_deployment Q s = Q (Inr ()) (s\<lparr>r_retain_deployment := True\<rparr>)"
  by (simp add: keep_deployment_def)

lemma track_resumed_wp:
  assumes w: "world_ok (r_world s)"
  shows "wp (track_resumed q a sub n res dh now) (\<lambda>r s'. world_ok (r_world s') \<and>
    subs (r_world s') = subs (r_world s) \<and> w_responses (r_world s') = w_responses (r_world s)) s"
proof -
  have "pending_inv (w_pending (r_world s))" using w by (simp add: world_ok_def)
  note rec = record_pending_wp [OF this]
  show ?thesis
    unfolding track_resumed_def in_world_def on_pending_def
    by (auto intro!: wp_mono [OF rec]) (use w in \<open>auto simp: world_ok_def subs_def\<close>)
qed

lemma route_signal_wp:
  assumes w: "world_ok w" and f: "run_finished_signal r s c a st n = Inr sg"
  shows "wp (route_signal e timeout now sg) (\<lambda>r w'. world_ok w' \<and> few_submissions 5 w w' \<and>
    w_responses w' = w_responses w) w"
  using route_signal_frame [OF w, of now e timeout sg] route_signal_submissions [OF w, of e timeout now sg]
    finished_cascade_left [OF f]
  by (auto simp: wp_fst_snd few_submissions_def board_frame_def same_stores_def intro: order_trans)

lemma settle_resumed_wp:
  assumes w: "world_ok (r_world s)"
  shows "wp (settle_resumed e timeout now q a sub n res) (\<lambda>r s'. world_ok (r_world s') \<and>
    few_submissions 5 (r_world s) (r_world s') \<and> w_responses (r_world s') = w_responses (r_world s)) s"
proof -
  have pi: "pending_inv (w_pending (r_world s))" using w by (simp add: world_ok_def)
  have res: "wp (resolve_pending d t) (\<lambda>r f. pending_inv f) (w_pending (r_world s))" for d t
    using resolve_pending_inv [OF pi] by (simp add: wp_fst_snd)
  have route: "wp (in_world (discard (route_signal e timeout now sg))) (\<lambda>r s'. world_ok (r_world s') \<and>
      few_submissions 5 (r_world s) (r_world s') \<and> w_responses (r_world s') = w_responses (r_world s)) v"
    if f: "run_finished_signal r su c as st m = Inr sg" and v: "r_world v = (r_world s)\<lparr>w_pending := f\<rparr>" "pending_inv f"
    for r su c as st m sg v f
  proof -
    have ok: "world_ok (r_world v)" using w v by (simp add: world_ok_def)
    show ?thesis
      unfolding in_world_def
      by (auto intro!: wp_mono [OF route_signal_wp [OF ok f]]) (simp_all add: v few_submissions_def subs_def)
  qed
  have ok: "world_ok ((r_world s)\<lparr>w_pending := f\<rparr>)" "subs ((r_world s)\<lparr>w_pending := f\<rparr>) = subs (r_world s)"
    if "pending_inv f" for f using w that by (simp_all add: world_ok_def subs_def)
  have track: "wp (track_resumed q a' sub' n' res' dh now) (\<lambda>r s'. world_ok (r_world s') \<and>
      few_submissions 5 (r_world s) (r_world s') \<and> w_responses (r_world s') = w_responses (r_world s)) v"
    if "r_world v = r_world s" for a' sub' n' res' dh v
    by (rule wp_mono [OF track_resumed_wp]) (use w that in \<open>auto intro: few_same\<close>)
  have fst_step: "wp (in_world (on_pending (discard (resolve_pending d t)))) (\<lambda>r v. \<exists>f. r_world v = (r_world s)\<lparr>w_pending := f\<rparr> \<and> pending_inv f) s"
    for d t
    unfolding in_world_def on_pending_def by (auto intro!: wp_mono [OF res])
  show ?thesis
    unfolding settle_resumed_def
    using w
    by (auto intro!: wp_mono [OF fst_step] track route few_same simp: ok split: option.splits)
qed

text \<open>The durable outcome each answer of the call stands for.\<close>

definition answered :: "response_request \<Rightarrow> exn + submission_result \<Rightarrow> world \<Rightarrow> bool" where
  "answered q r w =
     (\<forall>st why. r = Inr (Submission_Result st why) \<longrightarrow>
        (st = ''rejected'' \<and> response_outcome q w = Some (Some REJECTED)) \<or>
        (st = ''unknown'' \<and> response_outcome q w = Some (Some UNKNOWN)) \<or>
        (st = ''resumed'' \<and> response_outcome q w = Some (Some RESUMED)))"

definition undecided :: "response_request \<Rightarrow> routing \<Rightarrow> bool" where
  "undecided q s = (world_ok (r_world s) \<and> response_outcome q (r_world s) = Some None)"

lemma outcome_strings [simp]: "REJECTED \<in> set OUTCOMES" "RESUMED \<in> set OUTCOMES" "UNKNOWN \<in> set OUTCOMES"
  by (simp_all add: OUTCOMES_def)

lemma response_outcome_same: "w_responses w' = w_responses w \<Longrightarrow> response_outcome q w' = response_outcome q w"
  by (simp add: response_outcome_def)

lemma resume_tail_wp:
  assumes u: "undecided q s"
  shows "wp (andthen (in_world (record_response q RESUMED now)) (\<lambda>_.
         andthen (discard (tried is_unknown_approval (in_world (on_approvals
           (resolve_approved (q_deployment q) (q_thread_id q) now))))) (\<lambda>_.
         andthen (settle_resumed e timeout now q a sub n res) (\<lambda>_.
         ret (Submission_Result ''resumed'' None))))) (\<lambda>r s'. world_ok (r_world s') \<and>
           few_submissions 5 (r_world s) (r_world s') \<and> answered q r (r_world s')) s"
proof -
  let ?I = "\<lambda>v. world_ok (r_world v) \<and> subs (r_world v) = subs (r_world s) \<and>
      response_outcome q (r_world v) = Some (Some RESUMED)"
  have rec: "wp (in_world (record_response q RESUMED now)) (\<lambda>r v. r = Inr () \<and> ?I v) s"
    unfolding in_world_def wp_zoom
    by (rule wp_mono [OF record_response_wp]) (use u in \<open>auto simp: undecided_def\<close>)
  have app: "wp (in_world (on_approvals (resolve_approved d t now)))
      (\<lambda>r v'. ?I v' \<and> (\<forall>x. r = Inl x \<longrightarrow> is_unknown_approval (exn_class x))) v" if "?I v" for d t v
  proof -
    have "nested_ok (w_expiry (r_world v))" using that by (simp add: world_ok_def)
    from resolve_approved_wp [OF this] show ?thesis
      unfolding in_world_def on_approvals_def wp_zoom
      by (rule wp_mono) (use that in \<open>auto simp: world_ok_def subs_def response_outcome_def is_unknown_approval_def\<close>)
  qed
  have settle: "wp (settle_resumed e timeout now q a sub n res) (\<lambda>r v'. world_ok (r_world v') \<and>
      few_submissions 5 (r_world s) (r_world v') \<and> response_outcome q (r_world v') = Some (Some RESUMED)) v"
    if "?I v" for v
    by (rule wp_mono [OF settle_resumed_wp])
      (use that in \<open>auto simp: few_submissions_def response_outcome_def\<close>)
  show ?thesis
    by (auto intro!: wp_mono [OF rec] wp_mono [OF app] wp_mono [OF settle] simp: answered_def few_same)
qed

lemma resume_authorized_wp:
  assumes u: "undecided q s"
  shows "wp (resume_authorized e timeout now q conn a sub0) (\<lambda>r s'. world_ok (r_world s') \<and>
    few_submissions 6 (r_world s) (r_world s') \<and> answered q r (r_world s')) s"
proof -
  let ?w = "r_world s"
  have ok: "world_ok ?w" using u by (simp add: undecided_def)
  have ci: "continuity_inv (fst (w_cont ?w, w_out ?w))" using ok by (simp add: world_ok_def)
  let ?J = "\<lambda>v. undecided q v \<and> few_submissions 1 ?w (r_world v)"
  have pend: "wp (in_world (on_pending (get_pending d t))) (\<lambda>r v. v = s) s" for d t
    by (auto simp: in_world_def on_pending_def get_pending_def)
  have net: "wp (in_world (on_backend (backend_resume e b ep t a v timeout))) (\<lambda>r v. ?J v) s" for b ep t a v
    unfolding in_world_def on_backend_def wp_zoom
  proof (rule wp_mono [OF backend_resume_wp [OF ci]], goal_cases)
    case (1 r b)
    with u show ?case
      by (auto simp: undecided_def world_ok_def one_more_def few_submissions_def subs_def response_outcome_def)
  qed
  have unk: "wp (in_world (record_response q UNKNOWN now)) (\<lambda>r v'. r = Inr () \<and> world_ok (r_world v') \<and>
      few_submissions 6 ?w (r_world v') \<and> response_outcome q (r_world v') = Some (Some UNKNOWN)) v" if "?J v" for v
    unfolding in_world_def wp_zoom
    by (rule wp_mono [OF record_response_wp]) (use that in \<open>auto simp: undecided_def few_submissions_def\<close>)
  have unk2: "wp (andthen (in_world (record_response q UNKNOWN now)) (\<lambda>_.
         andthen keep_deployment (\<lambda>_. ret (Submission_Result ''unknown'' x)))) (\<lambda>r s'. world_ok (r_world s') \<and>
           few_submissions 6 ?w (r_world s') \<and> answered q r (r_world s')) v" if "?J v" for x v
    using that by (auto intro!: wp_mono [OF unk] simp: answered_def)
  have tail: "wp (andthen (in_world (record_response q RESUMED now)) (\<lambda>_.
         andthen (discard (tried is_unknown_approval (in_world (on_approvals
           (resolve_approved (q_deployment q) (q_thread_id q) now))))) (\<lambda>_.
         andthen (settle_resumed e timeout now q a sub n res) (\<lambda>_.
         ret (Submission_Result ''resumed'' None))))) (\<lambda>r s'. world_ok (r_world s') \<and>
           few_submissions 6 ?w (r_world s') \<and> answered q r (r_world s')) v" if "?J v" for sub n res v
    by (rule wp_mono [OF resume_tail_wp]) (use that in \<open>auto intro: few_trans\<close>)
  show ?thesis
    unfolding resume_authorized_def Let_def
    unfolding wp_andthen [of "in_world (on_pending _)"] wp_andthen [of "tried _ _"] wp_tried
    apply (rule wp_mono [OF pend])
    apply (auto simp del: wp_andthen simp: ok answered_def [of q "Inl _"] intro!: wp_mono [OF net] tail unk2)
    by (auto simp: undecided_def few_submissions_def)
qed

lemma response_identity_wp: "wp (response_identity e conn q p) (\<lambda>r w'. w' = w\<lparr>w_out := w_out w'\<rparr> \<and> subs w' = subs w) w"
proof -
  have cont: "wp (on_continuity (logical_run d t)) (\<lambda>r w'. w' = w) w" for d t
    using logical_run_state [of d t "w_cont w"]
    by (simp add: on_continuity_def wp_fst_snd [of "logical_run d t"])
  have run: "wp (on_out (get_run e ep t i)) (\<lambda>r w'. w' = w\<lparr>w_out := w_out w'\<rparr> \<and> subs w' = subs w) w" for ep t i
  proof -
    have "wp (get_run e ep t i) (\<lambda>r u'. submissions u' = submissions (w_out w)) (w_out w)"
      by (simp add: wp_fst_snd)
    then show ?thesis unfolding on_out_def wp_zoom by (rule wp_mono) (simp add: subs_def)
  qed
  show ?thesis
    unfolding response_identity_def
    by (auto intro!: wp_mono [OF cont] wp_mono [OF run] split: sum.splits)
qed

text \<open>
  Authorization comes before the resume: a response to an interrupt that is no longer pending, or at
  another revision than the Thread's, submits nothing.
\<close>

definition admissible_response :: "response_request \<Rightarrow> json \<Rightarrow> bool" where
  "admissible_response q st =
     (\<exists>rv. is_pending st (q_interrupt_id q) = Inr True \<and> revision_of st = Inr rv \<and> py_eq (q_revision q) rv)"

definition already_claimed :: "response_request \<Rightarrow> world \<Rightarrow> bool" where
  "already_claimed q w = response_claimed (w_responses w) (response_key_of q)"

text \<open>What the call's answer says of the board before and after it.\<close>

definition answer_outcome :: "response_request \<Rightarrow> world \<Rightarrow> exn + submission_result \<Rightarrow> world \<Rightarrow> bool" where
  "answer_outcome q w r w' =
     (world_ok w' \<and> few_submissions 6 w w' \<and> (already_claimed q w \<longrightarrow> subs w' = subs w) \<and>
      (\<forall>st why. r = Inr (Submission_Result st why) \<longrightarrow>
         (st = ''deployment_unavailable'' \<and> w_responses w' = w_responses w \<and> subs w' = subs w) \<or>
         (st = ''duplicate'' \<and> already_claimed q w \<and> w_responses w' = w_responses w \<and> subs w' = subs w) \<or>
         (\<not> already_claimed q w \<and> answered q r w')))"

lemma get_state_wp: "wp (get_state e ep t) (\<lambda>r u'. submissions u' = submissions u) u"
  by (simp add: wp_fst_snd)

context entity_auth
begin

lemma ask_wp:
  "wp (ask_port authorize sub cur p) (\<lambda>r u'. \<exists>dec. r = Inr dec \<and> submissions u' = submissions u \<and>
     (accepted dec \<longrightarrow> p \<and> py_eq (as_revision sub) cur)) u"
  using submits_nothing [of sub cur p u] accepted_current [of sub cur p u]
  by (auto simp: wp_def ask_port_def split: prod.splits)

lemma authorize_response_wp:
  assumes u: "undecided q s"
  shows "wp (authorize_response e authorize timeout now q conn st) (\<lambda>r s'. world_ok (r_world s') \<and>
    few_submissions (if admissible_response q st then 6 else 0) (r_world s) (r_world s') \<and>
    answered q r (r_world s')) s"
proof -
  let ?w = "r_world s"
  let ?J = "\<lambda>v. undecided q v \<and> subs (r_world v) = subs ?w"
  have J: "?J s" using u by simp
  have moved: "undecided q (v\<lparr>r_world := (r_world v)\<lparr>w_out := x\<rparr>\<rparr>)" if "undecided q v" for v x
    using that by (simp add: undecided_def response_outcome_def)
  have ident: "wp (in_world (response_identity e conn q p)) (\<lambda>r v. ?J v) s" for p
    unfolding in_world_def wp_zoom
  proof (rule wp_mono [OF response_identity_wp], goal_cases)
    case (1 r w')
    then obtain x where "w' = ?w\<lparr>w_out := x\<rparr>" by metis
    with 1 moved [OF u, of x] show ?case by simp
  qed
  have dec: "wp (in_world (on_out (ask_port authorize sub cur p))) (\<lambda>r v'. \<exists>d. r = Inr d \<and> ?J v' \<and>
      (accepted d \<longrightarrow> p \<and> py_eq (as_revision sub) cur)) v" if "?J v" for sub cur p v
    unfolding in_world_def on_out_def wp_zoom
    by (rule wp_mono [OF ask_wp]) (use that moved [of v] in \<open>auto simp: subs_def\<close>)
  have rej: "wp (andthen (in_world (record_response q REJECTED now)) (\<lambda>_.
      ret (Submission_Result ''rejected'' x))) (\<lambda>r s'. world_ok (r_world s') \<and>
        few_submissions n ?w (r_world s') \<and> answered q r (r_world s')) v" if "?J v" for x n v
  proof -
    have rec: "wp (record_response q REJECTED now) (\<lambda>r w'. r = Inr () \<and> world_ok w' \<and> subs w' = subs ?w \<and>
        response_outcome q w' = Some (Some REJECTED)) (r_world v)"
      by (rule wp_mono [OF record_response_wp]) (use that in \<open>auto simp: undecided_def\<close>)
    show ?thesis
      unfolding in_world_def by (auto intro!: wp_mono [OF rec] simp: answered_def few_same)
  qed
  have go: "wp (resume_authorized e timeout now q conn a sub) (\<lambda>r s'. world_ok (r_world s') \<and>
      few_submissions 6 ?w (r_world s') \<and> answered q r (r_world s')) v" if "?J v" for a sub v
    by (rule wp_mono [OF resume_authorized_wp]) (use that in \<open>auto simp: few_submissions_def\<close>)
  have early: "world_ok (r_world v) \<and> few_submissions n ?w (r_world v) \<and> answered q (Inl x) (r_world v)"
    if "?J v" for v n x
    using that by (simp add: undecided_def answered_def few_same)
  have adm: "admissible_response q st"
    if "is_pending st (q_interrupt_id q) = Inr True" "revision_of st = Inr rv"
      "py_eq (as_revision (auth_submission_of q a)) rv" for rv a
    using that by (auto simp: admissible_response_def auth_submission_of_def)
  note early_s = early [OF J]
  let ?Q = "\<lambda>r s'. world_ok (r_world s') \<and>
    few_submissions (if admissible_response q st then 6 else 0) (r_world s) (r_world s') \<and>
    answered q r (r_world s')"
  have asked: "wp (andthen (in_world (on_out (ask_port authorize (auth_submission_of q a) rv p))) (\<lambda>decision.
       if \<not> accepted decision then
         andthen (in_world (record_response q REJECTED now)) (\<lambda>_.
         ret (Submission_Result ''rejected'' (Some (reason decision))))
       else resume_authorized e timeout now q conn a sub)) ?Q v"
    if v: "?J v" and p: "is_pending st (q_interrupt_id q) = Inr p" and r: "revision_of st = Inr rv" for a sub rv p v
    unfolding wp_andthen [of "in_world (on_out _)"]
    by (rule wp_mono [OF dec [OF v]])
      (use p r adm [of rv a] rej go in \<open>auto simp del: wp_andthen\<close>)
  show ?thesis
  proof (cases "is_pending st (q_interrupt_id q)")
    case (Inl x)
    then show ?thesis using early_s by (simp add: authorize_response_def)
  next
    case p: (Inr p)
    show ?thesis
    proof (cases "revision_of st")
      case (Inl x)
      then show ?thesis using early_s p by (simp add: authorize_response_def)
    next
      case r: (Inr rv)
      show ?thesis
        unfolding authorize_response_def p r andthen_attempt_Inr
          wp_andthen [of "in_world (response_identity _ _ _ _)"]
        by (rule wp_mono [OF ident])
          (use asked [OF _ p r] early in \<open>auto simp del: wp_andthen split: identity.splits\<close>)
    qed
  qed
qed

lemma respond_body_wp:
  assumes w: "world_ok (r_world s)"
  shows "wp (respond_body e authorize timeout now q conn)
    (\<lambda>r s'. answer_outcome q (r_world s) r (r_world s')) s"
proof -
  let ?w = "r_world s"
  let ?claim = "claim_response (q_deployment q) (q_thread_id q) (q_interrupt_id q) now"
  have f: "file_ok (w_responses ?w)" using w by (simp add: world_ok_def)
  have claim: "wp (in_world (on_responses ?claim)) (\<lambda>r v. world_ok (r_world v) \<and> subs (r_world v) = subs ?w \<and>
      (\<forall>b. r = Inr b \<longrightarrow> b = (\<not> already_claimed q ?w) \<and>
        (if b then undecided q v else w_responses (r_world v) = w_responses ?w))) s"
    unfolding in_world_def on_responses_def wp_zoom
    by (rule wp_mono [OF claim_response_wp [OF f]])
      (use w in \<open>auto simp: world_ok_def subs_def already_claimed_def response_key_of_def undecided_def
        response_outcome_def\<close>)
  let ?Q = "\<lambda>r s'. answer_outcome q ?w r (r_world s')"
  have get: "wp (in_world (on_out (get_state e ep t))) (\<lambda>r v'. undecided q v' \<and> subs (r_world v') = subs ?w) v"
    if "undecided q v" "subs (r_world v) = subs ?w" for ep t v
    unfolding in_world_def on_out_def wp_zoom
    by (rule wp_mono [OF get_state_wp]) (use that in \<open>auto simp: subs_def undecided_def response_outcome_def\<close>)
  have unk: "wp (andthen (in_world (record_response q UNKNOWN now)) (\<lambda>_. ret (Submission_Result ''unknown'' x))) ?Q v"
    if v: "undecided q v" "subs (r_world v) = subs ?w" and new: "\<not> already_claimed q ?w" for x v
  proof -
    have rec: "wp (record_response q UNKNOWN now) (\<lambda>r w'. r = Inr () \<and> world_ok w' \<and> subs w' = subs ?w \<and>
        response_outcome q w' = Some (Some UNKNOWN)) (r_world v)"
      by (rule wp_mono [OF record_response_wp]) (use v in \<open>auto simp: undecided_def\<close>)
    show ?thesis
      unfolding in_world_def
      by (auto intro!: wp_mono [OF rec] simp: answered_def answer_outcome_def new few_same)
  qed
  have auth: "wp (authorize_response e authorize timeout now q conn st) ?Q v"
    if v: "undecided q v" "subs (r_world v) = subs ?w" and new: "\<not> already_claimed q ?w" for st v
    by (rule wp_mono [OF authorize_response_wp [OF v(1)]])
      (use v new in \<open>auto simp: answer_outcome_def few_submissions_def split: if_splits\<close>)
  have raised: "answer_outcome q ?w (Inl x) (r_world v)" if "world_ok (r_world v)" "subs (r_world v) = subs ?w" for x v
    using that by (simp add: answer_outcome_def few_same)
  have dup: "?Q (Inr (Submission_Result ''duplicate'' why)) v"
    if "world_ok (r_world v)" "subs (r_world v) = subs ?w" "already_claimed q ?w" "w_responses (r_world v) = w_responses ?w"
    for why v
    using that by (simp add: answer_outcome_def few_same)
  have tail: "wp (andthen (tried is_transport_failure (in_world (on_out (get_state e ep t)))) (\<lambda>r.
      case r of
        Inl _ \<Rightarrow> andthen (in_world (record_response q UNKNOWN now)) (\<lambda>_. ret (Submission_Result ''unknown'' x))
      | Inr st \<Rightarrow> authorize_response e authorize timeout now q conn st)) ?Q v"
    if v: "undecided q v" "subs (r_world v) = subs ?w" "\<not> already_claimed q ?w" for ep t x v
    unfolding wp_andthen [of "tried _ _"] wp_tried
    by (rule wp_mono [OF get [OF v(1,2)]])
      (use v(3) raised unk auth in \<open>auto simp del: wp_andthen simp: undecided_def\<close>)
  show ?thesis
    unfolding respond_body_def wp_andthen [of "in_world (on_responses _)"]
  proof (rule wp_mono [OF claim], goal_cases)
    case (1 r v)
    show ?case
    proof (cases r)
      case (Inl x)
      with 1 raised [of v x] show ?thesis by simp
    next
      case (Inr b)
      show ?thesis
      proof (cases b)
        case True
        with 1 Inr tail [of v] show ?thesis by (simp del: wp_andthen)
      next
        case False
        with 1 Inr dup [of v] show ?thesis by simp
      qed
    qed
  qed
qed

lemma guarded_response_wp:
  assumes w: "world_ok w"
  shows "wp (guarded_response e authorize timeout now q conn) (\<lambda>r w'. answer_outcome q w r w') w"
proof -
  let ?s = "\<lparr>r_world = w, r_retain_deployment = False, r_retain_concurrency = False\<rparr>"
  have wg: "wp (guarded_response e authorize timeout now q conn) Q w \<longleftrightarrow>
      wp (ensuring (respond_body e authorize timeout now q conn) (release_response now q conn))
        (\<lambda>r s. Q r (r_world s)) ?s" for Q
    by (simp add: wp_def guarded_response_def split: prod.splits)
  have fin: "wp (release_response now q conn) (\<lambda>rf s''. (\<exists>u. rf = Inr u) \<and> answer_outcome q w r (r_world s'')) s'"
    if a: "answer_outcome q w r (r_world s')" for r s'
  proof -
    have fl: "file_ok (w_life (r_world s'))" using a by (simp add: answer_outcome_def world_ok_def)
    note rel = release_active_wp [OF fl, of "q_deployment q" conn now]
    have eq: "wp (release_response now q conn) Q s' = wp (only_if (\<not> r_retain_deployment s')
       (in_world (on_life (release_active (q_deployment q) conn now)))) Q s'" for Q
      by (rule wp_same) (simp add: release_response_def)
    have keep: "answer_outcome q w r ((r_world s')\<lparr>w_life := f\<rparr>)" if "file_ok f" for f
      using a that by (auto simp: answer_outcome_def world_ok_def few_submissions_def subs_def answered_def
          response_outcome_def)
    show ?thesis
      unfolding eq in_world_def on_life_def
      using a by (auto intro!: wp_mono [OF rel] keep)
  qed
  show ?thesis
    unfolding wg wp_ensuring
  proof (rule wp_mono [OF respond_body_wp], goal_cases)
    case (2 r s')
    then have "answer_outcome q w r (r_world s')" by simp
    then show ?case by (rule wp_mono [OF fin]) auto
  qed (use w in simp)
qed

lemma submit_response_wp:
  assumes w: "world_ok w"
  shows "wp (submit_response e authorize timeout now q) (\<lambda>r w'. answer_outcome q w r w') w"
proof -
  have rd: "readable (w_conns w)" using w by (auto simp: world_ok_def)
  have fl: "file_ok (fst (w_life w, w_out w))" using w by (simp add: world_ok_def)
  note start = ensure_started_wp [OF fl, of e "q_deployment q" _ now HEALTH_TIMEOUT]
  have moved: "world_ok (w\<lparr>w_life := fst h, w_out := snd h\<rparr>) \<and> subs (w\<lparr>w_life := fst h, w_out := snd h\<rparr>) = subs w"
    if "file_ok (fst h)" "submissions (snd h) = submissions (w_out w)" for h
    using w that by (simp add: world_ok_def subs_def)
  have go: "wp (guarded_response e authorize timeout now q conn) (\<lambda>r w'. answer_outcome q w r w')
      (w\<lparr>w_life := fst h, w_out := snd h\<rparr>)"
    if "file_ok (fst h)" "submissions (snd h) = submissions (w_out w)" for conn h
    by (rule wp_mono [OF guarded_response_wp])
      (use moved [OF that] in \<open>auto simp: answer_outcome_def few_submissions_def already_claimed_def\<close>)
  have down: "answer_outcome q w (Inr (Submission_Result ''deployment_unavailable'' (Some m)))
      (w\<lparr>w_life := fst h, w_out := snd h\<rparr>)"
    if "file_ok (fst h)" "submissions (snd h) = submissions (w_out w)" for m h
    using moved [OF that] by (simp add: answer_outcome_def few_same)
  have raised: "answer_outcome q w (Inl x) v" if "world_ok v" "subs v = subs w" for x v
    using that by (simp add: answer_outcome_def few_same)
  show ?thesis
    unfolding submit_response_def on_conns_def on_host_def
    using rd w
    by (auto simp: load_connections_def raised split: option.splits started.splits intro!: wp_mono [OF start] go down)
qed

end

context entity_auth
begin

lemma authorize_stale_wp:
  assumes "\<not> admissible_response q st"
  shows "wp (authorize_response e authorize timeout now q conn st) (\<lambda>r s'. \<forall>res. r = Inr res \<longrightarrow> sr_status res = ''rejected'') s"
proof -
  have rej: "wp (andthen (in_world (record_response q REJECTED now)) (\<lambda>_. ret (Submission_Result ''rejected'' x)))
      (\<lambda>r s'. \<forall>res. r = Inr res \<longrightarrow> sr_status res = ''rejected'') v" for x v
    by (auto intro!: wpI)
  have dec: "wp (in_world (on_out (ask_port authorize sub cur p)))
      (\<lambda>r v'. \<exists>d. r = Inr d \<and> (accepted d \<longrightarrow> p \<and> py_eq (as_revision sub) cur)) v" for sub cur p v
    unfolding in_world_def on_out_def wp_zoom by (rule wp_mono [OF ask_wp]) auto
  have ident: "wp (in_world (response_identity e conn q p)) (\<lambda>r v. True) v" for p v
    by simp
  show ?thesis
  proof (cases "\<exists>p rv. is_pending st (q_interrupt_id q) = Inr p \<and> revision_of st = Inr rv")
    case False
    then show ?thesis
      by (cases "is_pending st (q_interrupt_id q)"; cases "revision_of st") (auto simp: authorize_response_def)
  next
    case True
    then obtain p rv where p: "is_pending st (q_interrupt_id q) = Inr p" "revision_of st = Inr rv" by blast
    then have no: "\<not> (p \<and> py_eq (q_revision q) rv)" using assms by (auto simp: admissible_response_def)
    have asked: "wp (andthen (in_world (on_out (ask_port authorize (auth_submission_of q a) rv p))) (\<lambda>decision.
       if \<not> accepted decision then
         andthen (in_world (record_response q REJECTED now)) (\<lambda>_.
         ret (Submission_Result ''rejected'' (Some (reason decision))))
       else resume_authorized e timeout now q conn a sub))
      (\<lambda>r s'. \<forall>res. r = Inr res \<longrightarrow> sr_status res = ''rejected'') v" for a sub v
      unfolding wp_andthen [of "in_world (on_out _)"]
      by (rule wp_mono [OF dec]) (use no rej in \<open>auto simp del: wp_andthen simp: auth_submission_of_def\<close>)
    show ?thesis
      unfolding authorize_response_def p andthen_attempt_Inr wp_andthen [of "in_world (response_identity _ _ _ _)"]
      by (rule wp_mono [OF ident]) (use asked in \<open>auto simp del: wp_andthen split: identity.splits\<close>)
  qed
qed

end

section \<open>Discovery\<close>

lemma probe_thread_wp: "wp (probe_thread e ep t i) (\<lambda>r u'. submissions u' = submissions u) u"
proof -
  have st: "wp (run_status e ep t i) (\<lambda>r u'. submissions u' = submissions u) v"
    if "submissions v = submissions u" for v using that by (simp add: wp_fst_snd)
  have run: "wp (get_run e ep t i) (\<lambda>r u'. submissions u' = submissions u) v"
    if "submissions v = submissions u" for v using that by (simp add: wp_fst_snd)
  have state: "wp (get_state e ep t) (\<lambda>r u'. submissions u' = submissions u) v"
    if "submissions v = submissions u" for v using that by (simp add: wp_fst_snd)
  show ?thesis
    unfolding probe_thread_def
    by (auto intro!: wp_mono [OF st] wp_mono [OF run] wp_mono [OF state])
qed

lemma record_waiting_wp:
  assumes "nested_ok f"
  shows "wp (record_waiting d t r now ra ta) (\<lambda>res f'. nested_ok f') f"
  using assms nested_ok_write [OF assms]
  by (auto simp: wp_fst_snd record_waiting_def Let_def split: sum.splits option.splits)

lemma discover_thread_wp:
  assumes w: "world_ok w"
  shows "wp (discover_thread e d conn t rec ra ta now) (\<lambda>r w'. world_ok w' \<and> subs w' = subs w) w"
proof -
  have probe: "wp (on_out (probe_thread e ep t i)) (\<lambda>r w'. world_ok w' \<and> subs w' = subs w) w" for ep i
    unfolding on_out_def wp_zoom
    by (rule wp_mono [OF probe_thread_wp]) (use w in \<open>simp add: subs_def\<close>)
  have wait: "wp (on_approvals (record_waiting d t r now ra ta)) (\<lambda>r w'. world_ok w' \<and> subs w' = subs w) v"
    if "world_ok v" "subs v = subs w" for r v
  proof -
    have "nested_ok (w_expiry v)" using that by (simp add: world_ok_def)
    from record_waiting_wp [OF this] show ?thesis
      unfolding on_approvals_def wp_zoom by (rule wp_mono) (use that in \<open>simp add: world_ok_def subs_def\<close>)
  qed
  show ?thesis
    unfolding discover_thread_def
    using w by (auto intro!: wp_mono [OF probe] wp_mono [OF wait] split: option.splits probe.splits)
qed

lemma discover_waiting_wp:
  assumes w: "world_ok w"
  shows "wp (discover_waiting e ra ta now) (\<lambda>r w'. world_ok w' \<and> subs w' = subs w) w"
proof -
  let ?I = "\<lambda>v. world_ok v \<and> subs v = subs w"
  have one: "wp (discover_thread e d conn t rec ra ta now) (\<lambda>r v. ?I v) s" if "?I s" for d conn t rec s
    by (rule wp_mono [OF discover_thread_wp]) (use that in auto)
  have inner: "wp (for_collect threads (\<lambda>tr. discover_thread e d conn (fst tr) (snd tr) ra ta now)) (\<lambda>r v. ?I v) v"
    if "?I v" for threads d conn v
    by (rule wp_for_collect [where I = ?I]) (use that one in auto)
  have outer: "wp (for_collect cont (\<lambda>dt. case map_of conns (fst dt) of None \<Rightarrow> ret [] | Some conn \<Rightarrow>
      for_collect (snd dt) (\<lambda>tr. discover_thread e (fst dt) conn (fst tr) (snd tr) ra ta now))) (\<lambda>r v. ?I v) w"
    for cont :: "continuity dict dict" and conns
    by (rule wp_for_collect [where I = ?I]) (use w inner in \<open>auto split: option.splits\<close>)
  show ?thesis
    unfolding discover_waiting_def on_conns_def on_continuity_def
    using w outer by auto
qed

section \<open>Properties\<close>

text \<open>
  Looking for waiting interrupts never acts: whatever the Deployments answer, discovery over the
  whole board submits nothing and keeps every store well formed.
\<close>

theorem discovery_submits_nothing:
  assumes "world_ok w"
  shows "subs (snd (discover_waiting e reminder_after timeout_after now w)) = subs w \<and>
    world_ok (snd (discover_waiting e reminder_after timeout_after now w))"
  using discover_waiting_wp [OF assms] by (simp add: wp_fst_snd)

theorem discovery_submits_nothing_witness:
  "subs (snd (discover_waiting (status_env ''interrupted'') 1 2 0 tracking_world)) = subs tracking_world"
  using discovery_submits_nothing [OF tracking_world_ok] by blast

text \<open>
  C4. An interrupt is answered at most once and its answer is durable, with the entity's HTTP port as
  the authority: a call for an interrupt already claimed submits nothing; any other answer the caller
  gets (rejected, unknown, resumed) is the outcome recorded for exactly that interrupt; and a call with
  its cascade submits at most six times.
\<close>

theorem response_answered_once:
  assumes "world_ok w" and "submit_response e (http_authorize e auth_ep) timeout now q w = (Inr (Submission_Result st why), w')"
  shows "world_ok w' \<and> (\<exists>rqs. subs w' = rqs @ subs w \<and> length rqs \<le> 6) \<and>
    (if already_claimed q w
     then st \<in> {''duplicate'', ''deployment_unavailable''} \<and> subs w' = subs w \<and> w_responses w' = w_responses w
     else (st, response_outcome q w') \<in>
       {(''rejected'', Some (Some REJECTED)), (''unknown'', Some (Some UNKNOWN)), (''resumed'', Some (Some RESUMED)),
        (''deployment_unavailable'', response_outcome q w)})"
proof -
  have a: "answer_outcome q w (Inr (Submission_Result st why)) w'"
    by (rule wpD [OF http_auth.submit_response_wp [OF assms(1)] assms(2)])
  then have w': "world_ok w'" "\<exists>rqs. subs w' = rqs @ subs w \<and> length rqs \<le> 6"
    and seen: "already_claimed q w \<Longrightarrow> subs w' = subs w"
    by (simp_all add: answer_outcome_def few_submissions_def)
  from a consider (down) "st = ''deployment_unavailable''" "w_responses w' = w_responses w"
    | (dup) "st = ''duplicate''" "already_claimed q w" "w_responses w' = w_responses w"
    | (new) "\<not> already_claimed q w" "answered q (Inr (Submission_Result st why)) w'"
    unfolding answer_outcome_def by blast
  then show ?thesis
  proof cases
    case down
    with w' seen response_outcome_same [of w' w q] show ?thesis by auto
  next
    case dup
    with w' seen show ?thesis by auto
  next
    case new
    then have "(st = ''rejected'' \<and> response_outcome q w' = Some (Some REJECTED)) \<or>
        (st = ''unknown'' \<and> response_outcome q w' = Some (Some UNKNOWN)) \<or>
        (st = ''resumed'' \<and> response_outcome q w' = Some (Some RESUMED))" by (simp add: answered_def)
    with w' new(1) show ?thesis by auto
  qed
qed

definition demo_response :: response_request where
  "demo_response = \<lparr>q_deployment = ''c'', q_thread_id = ''t'', q_interrupt_id = ''i'', q_approver = ''me'',
     q_value = JNull, q_revision = JNull\<rparr>"

lemma demo_response_rejected:
  "\<exists>w'. submit_response (status_env ''running'') (http_authorize (status_env ''running'') ''x'') 9 0 demo_response demo_world =
     (Inr (Submission_Result ''rejected'' (Some stale_reason)), w')"
  by (simp add: submit_response_def on_conns_def demo_world_def andthen_def zoom_def reading_def load_connections_def
      load_file_def demo_response_def on_host_def ensure_started_def demo_conn_def is_managed_def ret_def
      guarded_response_def ensuring_def respond_body_def in_world_def on_responses_def claim_response_def response_key_def
      attempt_def load_response_dedupe_def new_board_def write_atomic_def changing_def tried_def catching_def on_out_def
      get_state_def session_request_def http_def status_env_def authorize_response_def is_pending_def interrupts_of_def
      get_attr_def or_default_def iter_json_def revision_of_def response_identity_def ask_port_def http_authorize_def
      record_response_def discard_def record_outcome_def OUTCOMES_def sorted_keys_def Let_def release_response_def
      only_if_def on_life_def release_active_def)

theorem response_answered_once_witness:
  "\<exists>w'. submit_response (status_env ''running'') (http_authorize (status_env ''running'') ''x'') 9 0 demo_response demo_world =
     (Inr (Submission_Result ''rejected'' (Some stale_reason)), w') \<and>
   response_outcome demo_response w' = Some (Some REJECTED)"
proof -
  obtain w' where r: "submit_response (status_env ''running'') (http_authorize (status_env ''running'') ''x'') 9 0
      demo_response demo_world = (Inr (Submission_Result ''rejected'' (Some stale_reason)), w')"
    using demo_response_rejected by blast
  have "\<not> already_claimed demo_response demo_world"
    by (simp add: already_claimed_def response_claimed_def demo_world_def new_board_def)
  with response_answered_once [OF demo_world_ok r] r show ?thesis by auto
qed

text \<open>
  C29. A stale answer is never resumed: when the interrupt is no longer pending in the Thread's state, or
  the Thread has moved past the revision the approver saw, authorization by either boundary submits
  nothing, and the answer the caller gets is a recorded rejection.
\<close>

theorem stale_response_not_resumed:
  assumes "undecided q s" and "\<not> admissible_response q st"
    and "auth = http_authorize e' auth_ep \<or> auth = synthetic_authorize grants"
    and "authorize_response e auth timeout now q conn st s = (r, s')"
  shows "subs (r_world s') = subs (r_world s) \<and>
    (\<forall>res. r = Inr res \<longrightarrow> sr_status res = ''rejected'' \<and> response_outcome q (r_world s') = Some (Some REJECTED))"
proof -
  have "few_submissions 0 (r_world s) (r_world s') \<and> answered q r (r_world s')"
    using assms(3) wpD [OF http_auth.authorize_response_wp [OF assms(1)]] wpD [OF synthetic.authorize_response_wp [OF assms(1)]]
      assms(2,4) by fastforce
  then have few: "subs (r_world s') = subs (r_world s)" and ans: "answered q r (r_world s')" by (simp_all add: few_0)
  have rej: "sr_status res = ''rejected''" if "r = Inr res" for res
    using assms(3) wpD [OF http_auth.authorize_stale_wp [OF assms(2)]] wpD [OF synthetic.authorize_stale_wp [OF assms(2)]]
      assms(4) that by fastforce
  have "response_outcome q (r_world s') = Some (Some REJECTED)" if "r = Inr res" for res
    using rej [OF that] ans that by (cases res) (simp add: answered_def)
  with few rej show ?thesis by blast
qed

theorem stale_response_not_resumed_witness:
  "\<exists>r s'. authorize_response demo_env (synthetic_authorize []) 9 0 demo_response demo_conn (JObj [])
      \<lparr>r_world = demo_world\<lparr>w_responses := snd (claim_response ''c'' ''t'' ''i'' 0 Absent)\<rparr>,
       r_retain_deployment = False, r_retain_concurrency = False\<rparr> = (r, s') \<and> subs (r_world s') = []"
proof -
  let ?s = "\<lparr>r_world = demo_world\<lparr>w_responses := snd (claim_response ''c'' ''t'' ''i'' 0 Absent)\<rparr>,
       r_retain_deployment = False, r_retain_concurrency = False\<rparr>"
  obtain r s' where o: "authorize_response demo_env (synthetic_authorize []) 9 0 demo_response demo_conn (JObj []) ?s = (r, s')"
    by (metis prod.collapse)
  have "undecided demo_response ?s"
    using demo_world_ok
    by (simp add: undecided_def world_ok_def response_outcome_def response_key_of_def demo_response_def claim_response_def
        response_key_def load_response_dedupe_def load_file_def sorted_keys_def outcome_of_def dict_ok_def)
  moreover have "\<not> admissible_response demo_response (JObj [])"
    by (simp add: admissible_response_def is_pending_def interrupts_of_def get_attr_def or_default_def iter_json_def)
  ultimately have "subs (r_world s') = subs (r_world ?s)"
    using stale_response_not_resumed [OF _ _ _ o] by blast
  then show ?thesis using o by (intro exI [of _ r] exI [of _ s'])
    (simp add: subs_def demo_world_def new_board_def at_zero_def submissions_def)
qed

text \<open>
  C5. An approval is never implied: the HTTP boundary accepts only for a pending interrupt at the
  approver's revision, and only when the entity's port answered this very submission with status 200 and
  the JSON value \<open>true\<close> under \<open>accepted\<close>; a timeout, a redirect or a malformed answer is a rejection.
\<close>

theorem approval_never_implied:
  assumes "accepted (fst (http_authorize e auth_ep sub cur pending u))"
  shows "pending \<and> py_eq (as_revision sub) cur \<and>
    (\<exists>f. server e (trace u) (Request ''POST'' (rstrip_slash auth_ep @ ''/authorize'') (Some (auth_body sub))) =
       Reply 200 (Some (JObj f)) \<and> map_of f ''accepted'' = Some (JBool True))"
  using http_auth.accepted_current [OF assms] http_authorize_accepted [OF assms] by blast

definition granting_env :: env where
  "granting_env = demo_env\<lparr>server := (\<lambda>_ _. Reply 200 (Some (JObj [(''accepted'', JBool True)])))\<rparr>"

theorem approval_never_implied_witness:
  "accepted (fst (http_authorize granting_env ''x'' (auth_submission_of demo_response ''a'') JNull True at_zero)) \<and>
   py_eq (as_revision (auth_submission_of demo_response ''a'')) JNull"
proof -
  have "accepted (fst (http_authorize granting_env ''x'' (auth_submission_of demo_response ''a'') JNull True at_zero))"
    by (simp add: http_authorize_def auth_submission_of_def demo_response_def http_def granting_env_def parse_decision_def)
  with approval_never_implied [OF this] show ?thesis by blast
qed

end
