(* ===== verification/Web_Server.thy ===== *)
theory Web_Server
  imports Web_Urls Inbox_Facts
begin

text \<open>
  The controls of \<^verbatim>\<open>web/server.py\<close>: a POST that starts an execution or answers an approval. It needs the
  form's origin and token, a form to execute is spent by its nonce, and the rest is the domain operations.

  A request is what \<^verbatim>\<open>http.server\<close>, \<^verbatim>\<open>urlsplit\<close>, \<^verbatim>\<open>parse_qs\<close> and the cookie parser give; \<^verbatim>\<open>json.loads\<close> is a
  parameter. An answer \<open>Execute_Page\<close> or \<open>Approval_Page\<close> asks for that page with a status and a message. What
  rendering a page reads (the catalog, the waiting approvals) and caches is not modelled. \<open>do_post\<close> is one POST run by
  itself; requests that are served at the same time are \<^theory_text>\<open>Web_Threads\<close>.
\<close>

section \<open>Requests and answers\<close>

definition MAX_BODY :: int where "MAX_BODY = 1000000"

record post_request =
  pq_path :: string
  pq_json :: bool
  pq_urlencoded :: bool
  pq_length :: "int option"
  pq_form :: "(string \<times> string list) list option"
  pq_origin :: "string option"
  pq_cookie :: "string option"

record web_config =
  wc_origin :: string
  wc_csrf :: string
  wc_scope :: "string option"

record web_state =
  ws_nonces :: "string list"
  ws_board :: world

datatype answer =
    Error_Answer int string
  | Execute_Page int "string option"
  | Approval_Page int "string option" "submission_result option"
  | Executed exec_result
  | See_Other string
  | Responded submission_result

type_synonym form = "string dict"

definition form_text :: "form \<Rightarrow> string \<Rightarrow> string" where
  "form_text form key = (case map_of form key of None \<Rightarrow> [] | Some v \<Rightarrow> v)"

text \<open>\<open>None\<close> is a ValueError; a field that is sent has a value.\<close>

definition read_form :: "post_request \<Rightarrow> form option" where
  "read_form q =
     (if \<not> pq_urlencoded q then None
      else
        (case pq_length q of
           None \<Rightarrow> None
         | Some n \<Rightarrow> if n \<le> 0 \<or> MAX_BODY < n then None
                     else map_option (map (\<lambda>(key, values). (key, hd values))) (pq_form q)))"

definition origin_and_csrf_ok :: "web_config \<Rightarrow> post_request \<Rightarrow> form \<Rightarrow> bool" where
  "origin_and_csrf_ok cfg q form =
     (pq_origin q = Some (wc_origin cfg) \<and>
      (let cookie_token = (case pq_cookie q of None \<Rightarrow> [] | Some t \<Rightarrow> t); form_token = form_text form ''csrf_token'' in
       cookie_token \<noteq> [] \<and> form_token \<noteq> [] \<and> cookie_token = wc_csrf cfg \<and> form_token = wc_csrf cfg))"

section \<open>Nonces\<close>

definition consume_nonce :: "string \<Rightarrow> (web_state, bool) prog" where
  "consume_nonce nonce s =
     (if nonce \<in> set (ws_nonces s) then (Inr True, s\<lparr>ws_nonces := removeAll nonce (ws_nonces s)\<rparr>) else (Inr False, s))"

section \<open>The board\<close>

definition on_board :: "(world, 'a) prog \<Rightarrow> (web_state, 'a) prog" where
  "on_board m = zoom ws_board (\<lambda>w s. s\<lparr>ws_board := w\<rparr>) m"

definition scoped_connections :: "web_config \<Rightarrow> (web_state, connection dict) prog" where
  "scoped_connections cfg =
     andthen (on_board (on_conns (reading load_connections))) (\<lambda>conns.
       case wc_scope cfg of
         None \<Rightarrow> ret conns
       | Some alias \<Rightarrow> if map_of conns alias = None then throw PyValueError ''Unknown connection alias'' else ret conns)"

section \<open>Executing\<close>

definition same_as_form :: "json option \<Rightarrow> string option \<Rightarrow> bool" where
  "same_as_form j v =
     (case v of
        None \<Rightarrow> j = None \<or> j = Some JNull
      | Some s \<Rightarrow> j = Some (JStr s))"

fun offers_assistant :: "form \<Rightarrow> string \<Rightarrow> json list \<Rightarrow> exn + bool" where
  "offers_assistant form graph_id [] = Inr False"
| "offers_assistant form graph_id (item # items) =
     follow (get_attr item ''assistant_id'') (\<lambda>a.
       if same_as_form a (map_of form ''assistant'') then
         follow (get_attr item ''graph_id'') (\<lambda>g.
           if g = Some (JStr graph_id) then Inr True else offers_assistant form graph_id items)
       else offers_assistant form graph_id items)"

text \<open>The input and the context of the form; \<^verbatim>\<open>None\<close> when one of them is no JSON.\<close>

definition form_payload :: "(string \<Rightarrow> json option) \<Rightarrow> form \<Rightarrow> (json \<times> json option) option" where
  "form_payload loads form =
     (let input = form_text form ''input''; context_raw = strip (form_text form ''context'') in
      case loads (if input = [] then ''{}'' else input) of
        None \<Rightarrow> None
      | Some graph_input \<Rightarrow>
          if context_raw = [] then Some (graph_input, None)
          else (case loads context_raw of
                  None \<Rightarrow> None
                | Some c \<Rightarrow> Some (graph_input, if c = JNull then None else Some c)))"

definition executed_url :: "string \<Rightarrow> string \<Rightarrow> exec_result \<Rightarrow> string" where
  "executed_url alias graph_id res =
     ''/connections/'' @ quote alias @ ''/graphs/'' @ quote graph_id @ ''/runs/'' @ quote (er_run_id res)"

definition start_execution ::
  "env \<Rightarrow> (string \<Rightarrow> json option) \<Rightarrow> post_request \<Rightarrow> connection \<Rightarrow> string \<Rightarrow> string \<Rightarrow> form \<Rightarrow> (web_state, answer) prog" where
  "start_execution e loads q conn alias graph_id form =
     (case form_payload loads form of
        None \<Rightarrow> ret (Execute_Page 400 (Some ''Input/context must be valid JSON''))
      | Some (graph_input, ctx) \<Rightarrow>
          andthen (tried (\<lambda>c. is_value_error c \<or> c = PyRuntimeError)
            (on_board (on_out (execute e (endpoint conn) (form_text form ''assistant'') (form_text form ''subject'')
               graph_input ctx 120 None 0)))) (\<lambda>r.
          case r of
            Inl x \<Rightarrow>
              if is_value_error (exn_class x) then ret (Execute_Page 400 (Some (exn_msg x)))
              else ret (Execute_Page 200 (Some ''unknown: submission outcome could not be confirmed. Check the deployment or the Run list before submitting again.''))
          | Inr res \<Rightarrow>
              andthen (only_if (has_ids res) (on_board (on_continuity
                (discard (record_submission alias (er_thread_id res) (er_run_id res)))))) (\<lambda>_.
              ret (if pq_json q then Executed res else See_Other (executed_url alias graph_id res)))))"

text \<open>Whether the Deployment lists the form's Assistant for this graph.\<close>

definition chosen_assistant :: "env \<Rightarrow> connection \<Rightarrow> string \<Rightarrow> form \<Rightarrow> (web_state, bool) prog" where
  "chosen_assistant e conn graph_id form =
     andthen (on_board (on_out (list_assistants e (endpoint conn)))) (\<lambda>listed.
       attempt (follow (iter_json listed) (offers_assistant form graph_id)))"

definition handle_execute_post ::
  "env \<Rightarrow> (string \<Rightarrow> json option) \<Rightarrow> web_config \<Rightarrow> post_request \<Rightarrow> string \<Rightarrow> string \<Rightarrow> form \<Rightarrow> (web_state, answer) prog" where
  "handle_execute_post e loads cfg q alias graph_id form =
     andthen (scoped_connections cfg) (\<lambda>conns.
       case map_of conns alias of
         None \<Rightarrow> ret (Error_Answer 404 ''Unknown deployment'')
       | Some conn \<Rightarrow>
           andthen (if form_text form ''nonce'' = [] then ret False else consume_nonce (form_text form ''nonce'')) (\<lambda>fresh.
           if \<not> fresh then ret (Execute_Page 409 (Some ''Already submitted, or this form expired. Reload the page to get a fresh submission token.''))
           else
             andthen (chosen_assistant e conn graph_id form) (\<lambda>offered.
             if \<not> offered then ret (Execute_Page 400 (Some ''Select an Assistant belonging to this graph''))
             else start_execution e loads q conn alias graph_id form)))"

section \<open>Answering an approval\<close>

definition response_of :: "string \<Rightarrow> string \<Rightarrow> string \<Rightarrow> form \<Rightarrow> json \<Rightarrow> response_request" where
  "response_of alias thread_id interrupt_id form v =
     \<lparr>q_deployment = alias, q_thread_id = thread_id, q_interrupt_id = interrupt_id, q_approver = form_text form ''approver'',
      q_value = v, q_revision = (if form_text form ''revision'' = [] then JNull else JStr (form_text form ''revision''))\<rparr>"

definition handle_respond_post ::
  "env \<Rightarrow> (string \<Rightarrow> json option) \<Rightarrow> web_config \<Rightarrow> post_request \<Rightarrow> string \<Rightarrow> string \<Rightarrow> string \<Rightarrow> seconds \<Rightarrow> form \<Rightarrow>
   (web_state, answer) prog" where
  "handle_respond_post e loads cfg q alias thread_id interrupt_id now form =
     andthen (scoped_connections cfg) (\<lambda>conns.
       case map_of conns alias of
         None \<Rightarrow> ret (Error_Answer 404 ''Unknown deployment'')
       | Some conn \<Rightarrow>
           (case loads (if form_text form ''response_value'' = [] then ''null'' else form_text form ''response_value'') of
              None \<Rightarrow> ret (Approval_Page 400 (Some ''response_value must be valid JSON'') None)
            | Some v \<Rightarrow>
                (case auth_endpoint conn of
                   Some (c # cs) \<Rightarrow>
                     andthen (tried (\<lambda>c. c = ApprovalInboxError) (on_board (submit_response e (http_authorize e (c # cs)) 120 now
                       (response_of alias thread_id interrupt_id form v)))) (\<lambda>r.
                     case r of
                       Inl x \<Rightarrow> ret (Approval_Page 404 (Some (exn_msg x)) None)
                     | Inr res \<Rightarrow>
                         ret (if pq_json q then Responded res
                              else Approval_Page (if sr_status res = ''resumed'' then 200 else 409) None (Some res)))
                 | _ \<Rightarrow> ret (Approval_Page 409 (Some ''no authority configured for this deployment; approval is refused by default'') None))))"

section \<open>A POST\<close>

datatype post_target = Execute_Target string string | Respond_Target string string string

definition post_target :: "post_request \<Rightarrow> post_target option" where
  "post_target q =
     (case match_execute (pq_path q) of
        Some (alias, graph_id) \<Rightarrow> Some (Execute_Target alias graph_id)
      | None \<Rightarrow>
          (case match_approvals (pq_path q) of
             Some (Approval_Detail alias thread_id interrupt_id) \<Rightarrow> Some (Respond_Target alias thread_id interrupt_id)
           | _ \<Rightarrow> None))"

definition unavailable_error :: "exc_class \<Rightarrow> bool" where
  "unavailable_error c = (is_value_error c \<or> c = PyOSError \<or> c = PyRuntimeError)"

text \<open>The checks before anything is done: the route, the body, the origin and the token.\<close>

definition admitted :: "web_config \<Rightarrow> post_request \<Rightarrow> answer + post_target \<times> form" where
  "admitted cfg q =
     (case post_target q of
        None \<Rightarrow> Inl (Error_Answer 404 ''View not found'')
      | Some target \<Rightarrow>
          (case read_form q of
             None \<Rightarrow> Inl (Error_Answer 400 ''Malformed request body'')
           | Some form \<Rightarrow>
               if \<not> origin_and_csrf_ok cfg q form then Inl (Error_Answer 403 ''Cross-origin or missing/invalid CSRF token'')
               else Inr (target, form)))"

definition do_post ::
  "env \<Rightarrow> (string \<Rightarrow> json option) \<Rightarrow> web_config \<Rightarrow> seconds \<Rightarrow> post_request \<Rightarrow> (web_state, answer) prog" where
  "do_post e loads cfg now q =
     (case admitted cfg q of
        Inl refusal \<Rightarrow> ret refusal
      | Inr (target, form) \<Rightarrow>
          catching unavailable_error
            (case target of
               Execute_Target alias graph_id \<Rightarrow> handle_execute_post e loads cfg q alias graph_id form
             | Respond_Target alias thread_id interrupt_id \<Rightarrow>
                 handle_respond_post e loads cfg q alias thread_id interrupt_id now form)
            (\<lambda>_. ret (Error_Answer 503 ''Observation unavailable. Check connections and archive; retry.'')))"

section \<open>What a POST can do\<close>

lemma wp_on_board [simp, wp_simps]:
  "wp (on_board m) Q s = wp m (\<lambda>r w. Q r (s\<lparr>ws_board := w\<rparr>)) (ws_board s)"
  by (simp add: on_board_def)

lemma wp_always: "(\<And>r s'. Q r s') \<Longrightarrow> wp m Q s"
  by (simp add: wp_fst_snd)

lemma execute_one_more: "wp (execute e ep a sub inp ctx timeout cb n) (\<lambda>r u'. one_more u u') u"
proof (cases rule: execute_cases [of e ep a sub inp ctx timeout cb n u])
  case (not_sent x u')
  then show ?thesis by (simp add: wp_fst_snd one_more_def)
next
  case (sent t res u')
  then show ?thesis by (auto simp: wp_fst_snd one_more_def)
qed

lemma list_assistants_quiet: "wp (list_assistants e ep) (\<lambda>r u'. submissions u' = submissions u) u"
proof -
  obtain r u' where s: "session_request e ep ''GET'' ''/assistants'' None u = (r, u')" by fastforce
  have "submissions u' = submissions u"
    using submissions_request [of e ep "''GET''" "''/assistants''" None u] s by simp
  then show ?thesis using s by (cases r) (simp_all add: wp_fst_snd list_assistants_def andthen_def)
qed

definition outside_of :: "web_state \<Rightarrow> outside" where
  "outside_of s = w_out (ws_board s)"

lemma scoped_connections_quiet: "wp (scoped_connections cfg) (\<lambda>r s'. s' = s) s"
  unfolding scoped_connections_def
  by (auto simp: on_conns_def split: option.split)

lemma start_execution_spends:
  "wp (start_execution e loads q conn alias graph_id form)
     (\<lambda>r s'. ws_nonces s' = ws_nonces s \<and> one_more (outside_of s) (outside_of s')) s"
proof (cases "form_payload loads form")
  case None
  then show ?thesis by (simp add: start_execution_def one_more_def)
next
  case (Some p)
  obtain graph_input ctx where p: "p = (graph_input, ctx)" by fastforce
  show ?thesis
    using Some p unfolding start_execution_def on_out_def on_continuity_def
    apply (simp add: outside_of_def)
    apply (rule wp_mono [OF execute_one_more])
    apply (auto simp: only_if_def intro!: wp_always)
    done
qed

lemma chosen_assistant_quiet:
  "wp (chosen_assistant e conn graph_id form) (\<lambda>r s'. ws_nonces s' = ws_nonces s \<and>
     submissions (outside_of s') = submissions (outside_of s)) s"
  unfolding chosen_assistant_def on_out_def
  by (simp add: outside_of_def) (rule wp_mono [OF list_assistants_quiet], simp split: sum.split)

section \<open>Properties\<close>

definition demo_config :: web_config where
  "demo_config = \<lparr>wc_origin = ''o'', wc_csrf = ''t'', wc_scope = None\<rparr>"

definition demo_post :: "string option \<Rightarrow> post_request" where
  "demo_post origin =
     \<lparr>pq_path = ''/connections/c/graphs/g/execute'', pq_json = False, pq_urlencoded = True, pq_length = Some 9,
      pq_form = Some [(''csrf_token'', [''t'']), (''nonce'', [''n'']), (''assistant'', [''a'']), (''subject'', [''x''])],
      pq_origin = origin, pq_cookie = Some ''t''\<rparr>"

definition demo_web :: web_state where
  "demo_web = \<lparr>ws_nonces = [], ws_board = demo_world\<rparr>"

definition authentic :: "web_config \<Rightarrow> post_request \<Rightarrow> bool" where
  "authentic cfg q \<longleftrightarrow> pq_origin q = Some (wc_origin cfg) \<and> pq_cookie q = Some (wc_csrf cfg) \<and> wc_csrf cfg \<noteq> [] \<and>
     (\<exists>form. read_form q = Some form \<and> map_of form ''csrf_token'' = Some (wc_csrf cfg))"

text \<open>
  C33. No forged POST acts: a request whose Origin is not the viewer's own, or whose cookie or form lacks the
  viewer's token, is answered 403, 400 or 404 and leaves the board, the outside and the nonces as they were.
\<close>

theorem forged_post_does_nothing:
  assumes "\<not> authentic cfg q"
  shows "\<exists>code message. do_post e loads cfg now q s = (Inr (Error_Answer code message), s) \<and> code \<in> {400, 403, 404}"
proof -
  have "\<not> origin_and_csrf_ok cfg q form" if "read_form q = Some form" for form
    using assms that by (auto simp: authentic_def origin_and_csrf_ok_def form_text_def split: option.splits)
  then show ?thesis by (cases "post_target q"; cases "read_form q") (simp_all add: do_post_def admitted_def)
qed

theorem forged_post_does_nothing_witness:
  "\<exists>code message. do_post demo_env (\<lambda>_. Some (JObj [])) demo_config 0 (demo_post (Some ''evil'')) demo_web =
     (Inr (Error_Answer code message), demo_web) \<and> code \<in> {400, 403, 404}"
proof -
  have "\<not> authentic demo_config (demo_post (Some ''evil''))"
    by (simp add: authentic_def demo_post_def demo_config_def)
  then show ?thesis by (rule forged_post_does_nothing)
qed

end
