(* ===== verification/Web_Threads.thy ===== *)
theory Web_Threads
  imports Web_Server "HOL-Library.Multiset"
begin

text \<open>
  \<^verbatim>\<open>web/server.py\<close> as it runs: a \<^verbatim>\<open>ThreadingHTTPServer\<close> serves every request in a thread of its own. A thread is
  where it stands in the handler; a step is one of its actions, and the threads take steps in any order. Only
  \<^verbatim>\<open>nonces\<close> and \<^verbatim>\<open>nonces_lock\<close> are memory the threads share. The board and the outside are files and services that
  everybody else writes to meanwhile: every action finds them in any state whatever, and any answers. Of an action
  that asks a service several times the machine keeps what it submitted; the answers in between may be anything,
  which covers what other threads do in between.
\<close>

section \<open>Threads\<close>

record post_job =
  pj_request :: post_request
  pj_conn :: connection
  pj_alias :: string
  pj_graph :: string
  pj_form :: form

definition job_nonce :: "post_job \<Rightarrow> string" where
  "job_nonce j = form_text (pj_form j) ''nonce''"

text \<open>
  \<open>At_Nonce\<close> is before \<^verbatim>\<open>consume_nonce\<close>; \<open>Testing\<close> and \<open>Discarding\<close> are inside its \<^verbatim>\<open>with nonces_lock\<close>, before the
  membership test and before the \<^verbatim>\<open>discard\<close>; \<open>Spent\<close> and \<open>Chosen\<close> are before the Assistants are listed and before the
  execution. \<open>Rendering\<close> is before a page that may hold an execute form (a GET, or the answer to a POST), \<open>Adding\<close>
  inside the \<^verbatim>\<open>with nonces_lock\<close> of \<^verbatim>\<open>new_nonce\<close>.
\<close>

datatype thread_phase =
    Arrived post_request
  | At_Nonce post_job
  | Testing post_job
  | Discarding post_job
  | Spent post_job
  | Chosen post_job
  | Rendering
  | Adding string
  | Replied

text \<open>The shared memory, the threads, and what happened: the nonces issued, and the executions with the nonce of each.\<close>

record web_machine =
  wm_nonces :: "string list"
  wm_lock :: "nat option"
  wm_threads :: "thread_phase list"
  wm_issued :: "string list"
  wm_executed :: "(string \<times> event) list"

definition server_started :: web_machine where
  "server_started = \<lparr>wm_nonces = [], wm_lock = None, wm_threads = [], wm_issued = [], wm_executed = []\<rparr>"

definition goes_to :: "web_machine \<Rightarrow> nat \<Rightarrow> thread_phase \<Rightarrow> web_machine" where
  "goes_to m i p = m\<lparr>wm_threads := (wm_threads m)[i := p]\<rparr>"

definition stands_at :: "web_machine \<Rightarrow> nat \<Rightarrow> thread_phase \<Rightarrow> bool" where
  "stands_at m i p \<longleftrightarrow> i < length (wm_threads m) \<and> wm_threads m ! i = p"

text \<open>
  From the request to \<^verbatim>\<open>consume_nonce\<close>. A refused request is answered; so is, in one go, the answer to an approval,
  which reads and writes no nonce and starts no execution.
\<close>

definition after_admission :: "web_config \<Rightarrow> post_request \<Rightarrow> web_state \<Rightarrow> thread_phase" where
  "after_admission cfg q s =
     (case admitted cfg q of
        Inr (Execute_Target alias graph_id, form) \<Rightarrow>
          (case fst (scoped_connections cfg s) of
             Inl x \<Rightarrow> Replied
           | Inr conns \<Rightarrow>
               (case map_of conns alias of
                  None \<Rightarrow> Replied
                | Some conn \<Rightarrow>
                    if form_text form ''nonce'' = [] then Rendering
                    else At_Nonce \<lparr>pj_request = q, pj_conn = conn, pj_alias = alias, pj_graph = graph_id, pj_form = form\<rparr>))
      | _ \<Rightarrow> Replied)"

text \<open>A thread that answers with a page renders it; any other answer is sent.\<close>

definition after_answer :: "exn + answer \<Rightarrow> thread_phase" where
  "after_answer r = (case r of Inr (Execute_Page status message) \<Rightarrow> Rendering | _ \<Rightarrow> Replied)"

definition after_choice :: "exn + bool \<Rightarrow> post_job \<Rightarrow> thread_phase" where
  "after_choice r j = (case r of Inl x \<Rightarrow> Replied | Inr listed \<Rightarrow> if listed then Chosen j else Rendering)"

inductive web_step :: "(string \<Rightarrow> json option) \<Rightarrow> web_config \<Rightarrow> web_machine \<Rightarrow> web_machine \<Rightarrow> bool" for loads cfg where
  posted: "web_step loads cfg m (m\<lparr>wm_threads := wm_threads m @ [Arrived q]\<rparr>)"
| asked_page: "web_step loads cfg m (m\<lparr>wm_threads := wm_threads m @ [Rendering]\<rparr>)"
| admit: "stands_at m i (Arrived q) \<Longrightarrow> web_step loads cfg m (goes_to m i (after_admission cfg q s))"
| lock_to_consume: "stands_at m i (At_Nonce j) \<Longrightarrow> wm_lock m = None \<Longrightarrow>
    web_step loads cfg m (goes_to (m\<lparr>wm_lock := Some i\<rparr>) i (Testing j))"
| known: "stands_at m i (Testing j) \<Longrightarrow> job_nonce j \<in> set (wm_nonces m) \<Longrightarrow>
    web_step loads cfg m (goes_to m i (Discarding j))"
| unknown: "stands_at m i (Testing j) \<Longrightarrow> job_nonce j \<notin> set (wm_nonces m) \<Longrightarrow>
    web_step loads cfg m (goes_to (m\<lparr>wm_lock := None\<rparr>) i Rendering)"
| discard: "stands_at m i (Discarding j) \<Longrightarrow>
    web_step loads cfg m (goes_to (m\<lparr>wm_nonces := removeAll (job_nonce j) (wm_nonces m), wm_lock := None\<rparr>) i (Spent j))"
| choose: "stands_at m i (Spent j) \<Longrightarrow> chosen_assistant e (pj_conn j) (pj_graph j) (pj_form j) s = (r, s') \<Longrightarrow>
    web_step loads cfg m (goes_to m i (after_choice r j))"
| execution: "stands_at m i (Chosen j) \<Longrightarrow>
    start_execution e loads (pj_request j) (pj_conn j) (pj_alias j) (pj_graph j) (pj_form j) s = (r, s') \<Longrightarrow>
    submissions (outside_of s') = new @ submissions (outside_of s) \<Longrightarrow>
    web_step loads cfg m (goes_to (m\<lparr>wm_executed := map (Pair (job_nonce j)) new @ wm_executed m\<rparr>) i (after_answer r))"
| lock_to_issue: "stands_at m i Rendering \<Longrightarrow> wm_lock m = None \<Longrightarrow>
    web_step loads cfg m (goes_to (m\<lparr>wm_lock := Some i\<rparr>) i (Adding n))"
| issue: "stands_at m i (Adding n) \<Longrightarrow>
    web_step loads cfg m (goes_to (m\<lparr>wm_nonces := List.insert n (wm_nonces m), wm_lock := None,
      wm_issued := n # wm_issued m\<rparr>) i Replied)"
| no_form: "stands_at m i Rendering \<Longrightarrow> web_step loads cfg m (goes_to m i Replied)"

section \<open>What every step keeps\<close>

primrec in_lock :: "thread_phase \<Rightarrow> bool" where
  "in_lock (Arrived q) = False"
| "in_lock (At_Nonce j) = False"
| "in_lock (Testing j) = True"
| "in_lock (Discarding j) = True"
| "in_lock (Spent j) = False"
| "in_lock (Chosen j) = False"
| "in_lock Rendering = False"
| "in_lock (Adding n) = True"
| "in_lock Replied = False"

text \<open>A thread that spent a nonce and has not executed yet.\<close>

definition may_execute :: "string \<Rightarrow> thread_phase \<Rightarrow> bool" where
  "may_execute n p \<longleftrightarrow> (\<exists>j. (p = Spent j \<or> p = Chosen j) \<and> job_nonce j = n)"

lemma may_execute_simps [simp]:
  "may_execute n (Spent j) \<longleftrightarrow> job_nonce j = n" "may_execute n (Chosen j) \<longleftrightarrow> job_nonce j = n"
  "\<not> may_execute n (Arrived q)" "\<not> may_execute n (At_Nonce j)" "\<not> may_execute n (Testing j)" "\<not> may_execute n (Discarding j)"
  "\<not> may_execute n Rendering" "\<not> may_execute n (Adding t)" "\<not> may_execute n Replied"
  by (auto simp: may_execute_def)

definition spendable :: "web_machine \<Rightarrow> string \<Rightarrow> nat" where
  "spendable m n = (if n \<in> set (wm_nonces m) then 1 else 0)"

definition executions_of :: "web_machine \<Rightarrow> string \<Rightarrow> nat" where
  "executions_of m n = count (mset (map fst (wm_executed m))) n"

definition threads_for :: "web_machine \<Rightarrow> string \<Rightarrow> nat" where
  "threads_for m n = length (filter (may_execute n) (wm_threads m))"

text \<open>
  A thread inside the lock holds it, a thread about to discard a nonce finds it there, and every nonce was issued as
  often as it is spendable, spent or executed.
\<close>

definition machine_ok :: "web_machine \<Rightarrow> bool" where
  "machine_ok m \<longleftrightarrow>
     (\<forall>i p. stands_at m i p \<longrightarrow> in_lock p \<longrightarrow> wm_lock m = Some i) \<and>
     (\<forall>i j. stands_at m i (Discarding j) \<longrightarrow> job_nonce j \<in> set (wm_nonces m)) \<and>
     (\<forall>n. executions_of m n + threads_for m n + spendable m n \<le> count (mset (wm_issued m)) n)"

lemma filter_update_count:
  "i < length xs \<Longrightarrow> length (filter P (xs[i := y])) + (if P (xs ! i) then 1 else 0) =
     length (filter P xs) + (if P y then 1 else 0)"
proof (induction xs arbitrary: i)
  case (Cons x xs)
  then show ?case by (cases i) fastforce+
qed simp

lemma goes_to_threads:
  assumes "stands_at m i p"
  shows "threads_for (goes_to m i p') n + (if may_execute n p then 1 else 0) =
    threads_for m n + (if may_execute n p' then 1 else 0)"
  using assms filter_update_count [of i "wm_threads m" "may_execute n" p']
  by (simp add: threads_for_def goes_to_def stands_at_def)

lemma goes_to_fields [simp]:
  "wm_nonces (goes_to m i p) = wm_nonces m" "wm_lock (goes_to m i p) = wm_lock m"
  "wm_issued (goes_to m i p) = wm_issued m" "wm_executed (goes_to m i p) = wm_executed m"
  "spendable (goes_to m i p) = spendable m" "executions_of (goes_to m i p) = executions_of m"
  by (simp_all add: goes_to_def spendable_def executions_of_def fun_eq_iff)

lemma stands_at_goes [simp]:
  "stands_at (goes_to m i p) i' p' \<longleftrightarrow> (if i' = i then i < length (wm_threads m) \<and> p' = p else stands_at m i' p')"
  by (auto simp: stands_at_def goes_to_def)

lemma after_phases [simp]:
  "\<not> in_lock (after_admission cfg q s)" "\<not> in_lock (after_answer r)" "\<not> in_lock (after_choice r' j)"
  "\<not> may_execute n (after_admission cfg q s)" "\<not> may_execute n (after_answer r)"
  "may_execute n (after_choice r' j) \<Longrightarrow> job_nonce j = n"
  "after_admission cfg q s \<noteq> Discarding j'" "after_answer r \<noteq> Discarding j'" "after_choice r' j \<noteq> Discarding j'"
  by (auto simp: after_admission_def after_answer_def after_choice_def
      split: sum.splits post_target.splits option.splits answer.splits if_splits)

text \<open>A step that leaves the shared memory alone.\<close>

lemma ok_moves:
  assumes "machine_ok m" "stands_at m i p" "\<not> in_lock p'" "\<And>n. may_execute n p' \<Longrightarrow> may_execute n p"
    "\<And>j. p' \<noteq> Discarding j"
  shows "machine_ok (goes_to m i p')"
proof -
  have "threads_for (goes_to m i p') n \<le> threads_for m n" for n
    using goes_to_threads [OF assms(2), of p' n] assms(4) [of n] by (auto split: if_splits)
  then have "executions_of m n + threads_for (goes_to m i p') n + spendable m n \<le> count (mset (wm_issued m)) n" for n
    using assms(1) unfolding machine_ok_def by (meson add_le_mono le_refl le_trans)
  moreover have "\<forall>i' q. stands_at (goes_to m i p') i' q \<longrightarrow> in_lock q \<longrightarrow> wm_lock m = Some i'"
    "\<forall>i' j. stands_at (goes_to m i p') i' (Discarding j) \<longrightarrow> job_nonce j \<in> set (wm_nonces m)"
    using assms by (auto simp: machine_ok_def)
  ultimately show ?thesis by (simp add: machine_ok_def)
qed

lemma ok_grows:
  assumes "machine_ok m" "\<not> in_lock p" "\<And>n. \<not> may_execute n p" "\<And>j. p \<noteq> Discarding j"
  shows "machine_ok (m\<lparr>wm_threads := wm_threads m @ [p]\<rparr>)"
proof -
  let ?m = "m\<lparr>wm_threads := wm_threads m @ [p]\<rparr>"
  have "stands_at m i q \<or> q = p" if "stands_at ?m i q" for i q
    using that by (auto simp: stands_at_def nth_append split: if_splits)
  moreover have "threads_for ?m n = threads_for m n" "spendable ?m n = spendable m n" "executions_of ?m n = executions_of m n" for n
    using assms(3) by (simp_all add: threads_for_def spendable_def executions_of_def)
  ultimately show ?thesis using assms unfolding machine_ok_def by (simp, blast)
qed

lemma alone_in_lock:
  assumes "machine_ok m" "stands_at m i p" "in_lock p" "stands_at m i' p'" "in_lock p'"
  shows "i' = i"
  using assms unfolding machine_ok_def by (metis option.inject)

text \<open>
  A step that enters or leaves the lock. Inside it there is no other thread, so it may do what it wants to the shared
  memory, as long as its own account stays balanced.
\<close>

lemma ok_enters:
  assumes "machine_ok m" "stands_at m i p" "wm_lock m = None" "\<And>n. may_execute n p' \<Longrightarrow> may_execute n p"
    "\<And>j. p' \<noteq> Discarding j"
  shows "machine_ok (goes_to (m\<lparr>wm_lock := Some i\<rparr>) i p')"
proof -
  let ?m = "m\<lparr>wm_lock := Some i\<rparr>"
  have m: "stands_at ?m = stands_at m" "threads_for ?m = threads_for m" "spendable ?m = spendable m" "executions_of ?m = executions_of m"
    by (auto simp: fun_eq_iff stands_at_def threads_for_def spendable_def executions_of_def)
  have st: "stands_at ?m i p" using assms(2) by (simp add: m)
  have "threads_for (goes_to ?m i p') n \<le> threads_for m n" for n
    using goes_to_threads [OF st, of p' n] assms(4) [of n] by (auto simp: m split: if_splits)
  then have "executions_of m n + threads_for (goes_to ?m i p') n + spendable m n \<le> count (mset (wm_issued m)) n" for n
    using assms(1) unfolding machine_ok_def by (meson add_le_mono le_refl le_trans)
  then show ?thesis using assms unfolding machine_ok_def by (auto simp: m)
qed

lemma ok_leaves:
  assumes ok: "machine_ok m" and st: "stands_at m i p" "in_lock p" "\<not> in_lock p'"
    and m': "wm_threads m' = wm_threads m" "wm_lock m' = None" "wm_executed m' = wm_executed m"
    and bal: "\<And>n. (if may_execute n p' then 1 else 0) + spendable m' n + count (mset (wm_issued m)) n \<le>
      (if may_execute n p then 1 else 0) + spendable m n + count (mset (wm_issued m')) n"
  shows "machine_ok (goes_to m' i p')"
proof -
  have sa: "stands_at m' = stands_at m" "threads_for m' = threads_for m" "executions_of m' = executions_of m"
    using m' by (auto simp: fun_eq_iff stands_at_def threads_for_def executions_of_def)
  have st': "stands_at m' i p" using st(1) by (simp add: sa)
  have out: "\<not> in_lock q" if "stands_at m i' q" "i' \<noteq> i" for i' q
    using alone_in_lock [OF ok st(1,2) that(1)] that(2) by blast
  have "executions_of m n + threads_for (goes_to m' i p') n + spendable m' n \<le> count (mset (wm_issued m')) n" for n
  proof -
    have "executions_of m n + threads_for m n + spendable m n \<le> count (mset (wm_issued m)) n"
      using ok by (simp add: machine_ok_def)
    then show ?thesis using goes_to_threads [OF st', of p' n] bal [of n] by (simp add: sa split: if_splits)
  qed
  moreover have "\<not> stands_at m i' (Discarding j)" if "i' \<noteq> i" for i' j
    using out [of i' "Discarding j"] that by auto
  moreover have "p' \<noteq> Discarding j" for j using st(3) by auto
  ultimately show ?thesis using out st(3) unfolding machine_ok_def by (auto simp: sa)
qed

lemma execution_submits_once:
  assumes "start_execution e loads q conn al gid fm s = (r, s')" "submissions (outside_of s') = new @ submissions (outside_of s)"
  shows "length new \<le> 1"
proof -
  have "one_more (outside_of s) (outside_of s')" using wpD [OF start_execution_spends assms(1)] by simp
  then show ?thesis using assms(2) by (auto simp: one_more_def)
qed

lemma web_step_keeps:
  assumes "web_step loads cfg m m'" and ok: "machine_ok m"
  shows "machine_ok m'"
  using assms(1)
proof (cases rule: web_step.cases)
  case (posted q)
  then show ?thesis using ok_grows [OF ok, of "Arrived q"] by simp
next
  case asked_page
  then show ?thesis using ok_grows [OF ok, of Rendering] by simp
next
  case (admit i q s)
  then show ?thesis using ok_moves [OF ok admit(2), of "after_admission cfg q s"] by simp
next
  case (lock_to_consume i j)
  then show ?thesis using ok_enters [OF ok lock_to_consume(2,3), of "Testing j"] by simp
next
  case (known i j)
  have held: "wm_lock m = Some i" using ok known(2) by (auto simp: machine_ok_def)
  have "threads_for (goes_to m i (Discarding j)) n = threads_for m n" for n
    using goes_to_threads [OF known(2), of "Discarding j" n] by simp
  then show ?thesis unfolding known(1) machine_ok_def using ok [unfolded machine_ok_def] known(3) held by auto
next
  case (unknown i j)
  have "machine_ok (goes_to (m\<lparr>wm_lock := None\<rparr>) i Rendering)"
    by (rule ok_leaves [OF ok unknown(2)]) (simp_all add: spendable_def)
  then show ?thesis using unknown(1) by simp
next
  case (discard i j)
  have mem: "job_nonce j \<in> set (wm_nonces m)" using ok discard(2) by (auto simp: machine_ok_def)
  have "machine_ok (goes_to (m\<lparr>wm_nonces := removeAll (job_nonce j) (wm_nonces m), wm_lock := None\<rparr>) i (Spent j))"
    by (rule ok_leaves [OF ok discard(2)]) (use mem in \<open>auto simp: spendable_def\<close>)
  then show ?thesis using discard(1) by simp
next
  case (choose i j e s r s')
  then show ?thesis using ok_moves [OF ok choose(2), of "after_choice r j"] after_phases(6) by simp
next
  case (execution i j e s r s' new)
  have new: "length new \<le> 1" by (rule execution_submits_once [OF execution(3,4)])
  let ?m = "m\<lparr>wm_executed := map (Pair (job_nonce j)) new @ wm_executed m\<rparr>"
  have m: "stands_at ?m = stands_at m" "threads_for ?m = threads_for m" "spendable ?m = spendable m"
    by (auto simp: fun_eq_iff stands_at_def threads_for_def spendable_def)
  have ex: "executions_of ?m n = executions_of m n + (if n = job_nonce j then length new else 0)" for n
    using new by (cases new) (auto simp: executions_of_def)
  have st: "stands_at ?m i (Chosen j)" using execution(2) by (simp add: m)
  have "executions_of ?m n + threads_for (goes_to ?m i (after_answer r)) n + spendable m n \<le> count (mset (wm_issued m)) n" for n
  proof -
    have "executions_of m n + threads_for m n + spendable m n \<le> count (mset (wm_issued m)) n"
      using ok by (simp add: machine_ok_def)
    then show ?thesis using goes_to_threads [OF st, of "after_answer r" n] new by (simp add: m ex split: if_splits)
  qed
  then show ?thesis using execution(1,2) ok unfolding machine_ok_def by (auto simp: m after_phases(8) [symmetric])
next
  case (lock_to_issue i n)
  then show ?thesis using ok_enters [OF ok lock_to_issue(2,3), of "Adding n"] by simp
next
  case (issue i n)
  have "machine_ok (goes_to (m\<lparr>wm_nonces := List.insert n (wm_nonces m), wm_lock := None, wm_issued := n # wm_issued m\<rparr>) i Replied)"
    by (rule ok_leaves [OF ok issue(2)]) (auto simp: spendable_def)
  then show ?thesis using issue(1) by simp
next
  case (no_form i)
  then show ?thesis using ok_moves [OF ok no_form(2), of Replied] by simp
qed

lemma server_started_ok: "machine_ok server_started"
  by (simp add: machine_ok_def server_started_def stands_at_def threads_for_def executions_of_def spendable_def)

lemma served_ok: "(web_step loads cfg)\<^sup>*\<^sup>* server_started m \<Longrightarrow> machine_ok m"
  by (induction rule: rtranclp_induct) (auto intro: web_step_keeps server_started_ok)

section \<open>A thread by itself\<close>

text \<open>
  A POST that no other thread disturbs is \<^const>\<open>do_post\<close>: the machine can run it to the same nonces, with the same
  submissions. (What \<^const>\<open>handle_execute_post\<close> does alone is one order of the steps.)
\<close>

lemma web_step_to: "web_step loads cfg m m1 \<Longrightarrow> m1 = m' \<Longrightarrow> web_step loads cfg m m'"
  by simp

lemma handled_alone:
  assumes a: "admitted cfg q = Inr (Execute_Target al gid, fm)" and h: "handle_execute_post e loads cfg q al gid fm s = (r, s')"
  shows "\<exists>m' new. (web_step loads cfg)\<^sup>*\<^sup>* \<lparr>wm_nonces = ws_nonces s, wm_lock = None, wm_threads = [Arrived q], wm_issued = is, wm_executed = xs\<rparr> m' \<and>
    wm_nonces m' = ws_nonces s' \<and> wm_lock m' = None \<and> wm_executed m' = map (Pair (form_text fm ''nonce'')) new @ xs \<and>
    submissions (outside_of s') = new @ submissions (outside_of s)"
proof -
  let ?m = "\<lambda>ns l p xs. \<lparr>wm_nonces = ns, wm_lock = l, wm_threads = [p], wm_issued = is, wm_executed = xs\<rparr>"
  let ?n = "form_text fm ''nonce''" and ?ns = "ws_nonces s"
  have at: "stands_at (?m ns l p xs) 0 p" for ns l p xs by (simp add: stands_at_def)
  have goes: "goes_to (?m ns l p xs) 0 p' = ?m ns l p' xs" for ns l p p' xs by (simp add: goes_to_def)
  obtain rc s0 where sc: "scoped_connections cfg s = (rc, s0)" by fastforce
  have s0: "s0 = s" using wpD [OF scoped_connections_quiet sc] .
  have first: "web_step loads cfg (?m ?ns None (Arrived q) xs) (?m ?ns None (after_admission cfg q s) xs)"
    by (rule web_step_to [OF web_step.admit [where s = s, OF at]]) (simp add: goes)
  show ?thesis
  proof (cases "\<exists>conns conn. rc = Inr conns \<and> map_of conns al = Some conn \<and> ?n \<noteq> []")
    case False
    then have "s' = s" using h sc s0
      by (auto simp: handle_execute_post_def andthen_def ret_def split: sum.splits option.splits)
    then show ?thesis using first
      by (intro exI [of _ "?m ?ns None (after_admission cfg q s) xs"] exI [of _ "[]"]) auto
  next
    case True
    then obtain conns conn where c: "rc = Inr conns" "map_of conns al = Some conn" "?n \<noteq> []" by blast
    let ?j = "\<lparr>pj_request = q, pj_conn = conn, pj_alias = al, pj_graph = gid, pj_form = fm\<rparr>"
    have adm: "after_admission cfg q s = At_Nonce ?j" using c sc by (simp add: after_admission_def a)
    have n: "job_nonce ?j = ?n" by (simp add: job_nonce_def)
    have "web_step loads cfg (?m ?ns None (At_Nonce ?j) xs) (?m ?ns (Some 0) (Testing ?j) xs)"
      by (rule web_step_to [OF web_step.lock_to_consume [OF at]]) (simp_all add: goes)
    then have testing: "(web_step loads cfg)\<^sup>*\<^sup>* (?m ?ns None (Arrived q) xs) (?m ?ns (Some 0) (Testing ?j) xs)"
      using first adm by (simp add: rtranclp.rtrancl_into_rtrancl)
    show ?thesis
    proof (cases "?n \<in> set ?ns")
      case False
      then have "s' = s" using h sc s0 c
        by (simp add: handle_execute_post_def andthen_def consume_nonce_def ret_def)
      moreover have "web_step loads cfg (?m ?ns (Some 0) (Testing ?j) xs) (?m ?ns None Rendering xs)"
        by (rule web_step_to [OF web_step.unknown [OF at]]) (use False in \<open>simp_all add: goes n\<close>)
      ultimately show ?thesis using testing
        by (intro exI [of _ "?m ?ns None Rendering xs"] exI [of _ "[]"]) (simp add: rtranclp.rtrancl_into_rtrancl)
    next
      case fresh: True
      let ?s1 = "s\<lparr>ws_nonces := removeAll ?n ?ns\<rparr>" and ?ns1 = "removeAll ?n ?ns"
      have "web_step loads cfg (?m ?ns (Some 0) (Testing ?j) xs) (?m ?ns (Some 0) (Discarding ?j) xs)"
        by (rule web_step_to [OF web_step.known [OF at]]) (use fresh in \<open>simp_all add: goes n\<close>)
      moreover have "web_step loads cfg (?m ?ns (Some 0) (Discarding ?j) xs) (?m ?ns1 None (Spent ?j) xs)"
        by (rule web_step_to [OF web_step.discard [OF at]]) (simp add: goes n)
      ultimately have spent: "(web_step loads cfg)\<^sup>*\<^sup>* (?m ?ns None (Arrived q) xs) (?m ?ns1 None (Spent ?j) xs)"
        using testing by (meson rtranclp.rtrancl_into_rtrancl)
      obtain rb s2 where ch: "chosen_assistant e conn gid fm ?s1 = (rb, s2)" by fastforce
      have "web_step loads cfg (?m ?ns1 None (Spent ?j) xs) (?m ?ns1 None (after_choice rb ?j) xs)"
        by (rule web_step_to [OF web_step.choose [where s = ?s1 and e = e and r = rb and s' = s2, OF at]]) (use ch in \<open>simp_all add: goes\<close>)
      then have chosen: "(web_step loads cfg)\<^sup>*\<^sup>* (?m ?ns None (Arrived q) xs) (?m ?ns1 None (after_choice rb ?j) xs)"
        using spent by (meson rtranclp.rtrancl_into_rtrancl)
      have q2: "ws_nonces s2 = ?ns1 \<and> submissions (outside_of s2) = submissions (outside_of s)"
        using wpD [OF chosen_assistant_quiet ch] by (simp add: outside_of_def)
      have cont: "(r, s') = (case rb of Inl x \<Rightarrow> (Inl x, s2) | Inr listed \<Rightarrow>
          if \<not> listed then (Inr (Execute_Page 400 (Some ''Select an Assistant belonging to this graph'')), s2)
          else start_execution e loads q conn al gid fm s2)"
        using h sc s0 c fresh ch
        by (auto simp: handle_execute_post_def andthen_def consume_nonce_def ret_def split: sum.splits)
      show ?thesis
      proof (cases "rb = Inr True")
        case False
        then have "s' = s2" using cont by (cases rb) auto
        then show ?thesis using chosen q2
          by (intro exI [of _ "?m ?ns1 None (after_choice rb ?j) xs"] exI [of _ "[]"]) simp
      next
        case True
        then have st: "start_execution e loads q conn al gid fm s2 = (r, s')" using cont by simp
        have sp: "ws_nonces s' = ws_nonces s2 \<and> one_more (outside_of s2) (outside_of s')"
          using wpD [OF start_execution_spends st] .
        then obtain new where new: "submissions (outside_of s') = new @ submissions (outside_of s2)"
          by (auto simp: one_more_def intro: that [of "[]"] that [of "[_]"])
        have "web_step loads cfg (?m ?ns1 None (Chosen ?j) xs) (?m ?ns1 None (after_answer r) (map (Pair ?n) new @ xs))"
          by (rule web_step_to [OF web_step.execution [where s = s2 and s' = s' and e = e and r = r and new = new, OF at]])
            (use st new in \<open>simp_all add: goes n\<close>)
        then have "(web_step loads cfg)\<^sup>*\<^sup>* (?m ?ns None (Arrived q) xs) (?m ?ns1 None (after_answer r) (map (Pair ?n) new @ xs))"
          using chosen True by (simp add: after_choice_def rtranclp.rtrancl_into_rtrancl)
        then show ?thesis using sp q2 new
          by (intro exI [of _ "?m ?ns1 None (after_answer r) (map (Pair ?n) new @ xs)"] exI [of _ new]) simp
      qed
    qed
  qed
qed

section \<open>Properties\<close>

text \<open>
  C32. Forms outnumber executions: requests are served by threads that run together, and however execute pages are shown
  and forms are sent, forged, repeated or raced against each other, every submitted execution has an issued nonce of its
  own. So a form executes at most once, and there are no more executions than forms.
\<close>

theorem forms_outnumber_executions:
  assumes "(web_step loads cfg)\<^sup>*\<^sup>* server_started m"
  shows "mset (map fst (wm_executed m)) \<subseteq># mset (wm_issued m) \<and> length (wm_executed m) \<le> length (wm_issued m)"
proof -
  have "machine_ok m" using assms by (rule served_ok)
  then have "count (mset (map fst (wm_executed m))) n \<le> count (mset (wm_issued m)) n" for n
    unfolding machine_ok_def executions_of_def by (metis add_leD1)
  then have sub: "mset (map fst (wm_executed m)) \<subseteq># mset (wm_issued m)" by (rule mset_subset_eqI)
  then show ?thesis using size_mset_mono [OF sub] by simp
qed

text \<open>On a board with one Deployment, one form is sent twice at the same time: one of the two executes.\<close>

definition executing_env :: env where
  "executing_env = demo_env\<lparr>server := (\<lambda>_ r.
     if ends_with ''/assistants'' (req_url r) then
       Reply 200 (Some (JObj [(''assistants'', JArr [JObj [(''assistant_id'', JStr ''a''), (''graph_id'', JStr ''g'')]])]))
     else if ends_with ''/threads'' (req_url r) then Reply 200 (Some (JObj [(''thread_id'', JStr ''t'')]))
     else TimedOut)\<rparr>"

lemma demo_target_path: "match_execute (pq_path (demo_post v)) = Some (''c'', ''g'')"
  by (simp add: demo_post_def) code_simp

lemma demo_form: "read_form (demo_post v) =
    Some [(''csrf_token'', ''t''), (''nonce'', ''n''), (''assistant'', ''a''), (''subject'', ''x'')]"
  by (simp add: read_form_def demo_post_def MAX_BODY_def)

lemma demo_accepted: "origin_and_csrf_ok demo_config (demo_post (Some ''o''))
    [(''csrf_token'', ''t''), (''nonce'', ''n''), (''assistant'', ''a''), (''subject'', ''x'')]"
  by (simp add: origin_and_csrf_ok_def demo_config_def form_text_def demo_post_def)

lemma executing_assistants:
  "\<exists>u. list_assistants executing_env ''e'' at_zero = (Inr (JArr [JObj [(''assistant_id'', JStr ''a''), (''graph_id'', JStr ''g'')]]), u) \<and>
     submissions u = []"
  by (simp add: list_assistants_def session_request_def http_def executing_env_def demo_env_def andthen_def at_zero_def
      ends_with_def rstrip_slash_def get_attr_def attempt_def submissions_def)

lemma executing_times_out:
  assumes "submissions u = []"
  shows "\<exists>x u'. execute executing_env ''e'' ''a'' ''x'' (JObj []) None 120 None 0 u = (Inl (Exn PyRuntimeError x), u') \<and>
     length (submissions u') = 1"
  using assms
  by (simp add: execute_def blank_def py_space_def Let_def andthen_def session_request_def http_def executing_env_def
      demo_env_def ends_with_def rstrip_slash_def str_field_def field_def runs_path_def attempt_def submissions_def
      api_failed_def)


definition demo_pairs :: form where
  "demo_pairs = [(''csrf_token'', ''t''), (''nonce'', ''n''), (''assistant'', ''a''), (''subject'', ''x'')]"

definition demo_job :: post_job where
  "demo_job = \<lparr>pj_request = demo_post (Some ''o''), pj_conn = demo_conn, pj_alias = ''c'', pj_graph = ''g'', pj_form = demo_pairs\<rparr>"

lemma demo_nonce: "job_nonce demo_job = ''n''"
  by (simp add: job_nonce_def demo_job_def demo_pairs_def form_text_def)

lemma demo_admission: "after_admission demo_config (demo_post (Some ''o'')) demo_web = At_Nonce demo_job"
proof -
  have "scoped_connections demo_config demo_web = (Inr [(''c'', demo_conn)], demo_web)"
    by (simp add: scoped_connections_def on_board_def on_conns_def zoom_def reading_def load_connections_def load_file_def
        andthen_def demo_config_def demo_web_def demo_world_def new_board_def)
  moreover have "admitted demo_config (demo_post (Some ''o'')) = Inr (Execute_Target ''c'' ''g'', demo_pairs)"
    by (simp add: admitted_def post_target_def demo_target_path demo_form demo_accepted demo_pairs_def)
  ultimately show ?thesis by (simp add: after_admission_def demo_job_def demo_pairs_def form_text_def)
qed

lemma demo_out: "w_out (ws_board demo_web) = at_zero" "endpoint demo_conn = ''e''"
  by (simp_all add: demo_web_def demo_world_def new_board_def demo_conn_def)

lemma demo_choice:
  "\<exists>s. chosen_assistant executing_env demo_conn ''g'' demo_pairs demo_web = (Inr True, s)"
proof -
  obtain u where l: "list_assistants executing_env ''e'' at_zero =
      (Inr (JArr [JObj [(''assistant_id'', JStr ''a''), (''graph_id'', JStr ''g'')]]), u)"
    using executing_assistants by blast
  have "follow (iter_json (JArr [JObj [(''assistant_id'', JStr ''a''), (''graph_id'', JStr ''g'')]]))
      (offers_assistant demo_pairs ''g'') = Inr True"
    by (simp add: iter_json_def get_attr_def same_as_form_def demo_pairs_def)
  then show ?thesis
    by (simp add: chosen_assistant_def andthen_def on_board_def on_out_def zoom_def demo_out l attempt_def)
qed

lemma demo_execution:
  "\<exists>message s ev. start_execution executing_env (\<lambda>_. Some (JObj [])) (demo_post (Some ''o'')) demo_conn ''c'' ''g'' demo_pairs demo_web =
     (Inr (Execute_Page 200 message), s) \<and> submissions (outside_of s) = [ev] @ submissions (outside_of demo_web)"
proof -
  have quiet: "submissions at_zero = []" by (simp add: at_zero_def submissions_def)
  obtain x u' where x: "execute executing_env ''e'' ''a'' ''x'' (JObj []) None 120 None 0 at_zero = (Inl (Exn PyRuntimeError x), u')"
      "length (submissions u') = 1"
    using executing_times_out [OF quiet] by blast
  obtain ev where "submissions u' = [ev]" using x(2) by (cases "submissions u'") auto
  then show ?thesis
    by (simp add: start_execution_def form_payload_def form_text_def strip_def demo_pairs_def andthen_def on_board_def on_out_def
        zoom_def demo_out x(1) tried_def catching_def outside_of_def ret_def quiet)
qed

definition raced :: "thread_phase \<Rightarrow> thread_phase \<Rightarrow> nat option \<Rightarrow> string list \<Rightarrow> (string \<times> event) list \<Rightarrow> web_machine" where
  "raced p p' l ns xs = \<lparr>wm_nonces = ns, wm_lock = l, wm_threads = [Replied, p, p'], wm_issued = [''n''], wm_executed = xs\<rparr>"

lemma raced_stands [simp]:
  "stands_at (raced p p' l ns xs) 1 q \<longleftrightarrow> p = q" "stands_at (raced p p' l ns xs) (Suc 0) q \<longleftrightarrow> p = q"
  "stands_at (raced p p' l ns xs) 2 q \<longleftrightarrow> p' = q"
  by (simp_all add: stands_at_def raced_def)

lemma raced_goes [simp]:
  "goes_to (raced p p' l ns xs) (Suc 0) q = raced q p' l ns xs" "goes_to (raced p p' l ns xs) 2 q = raced p q l ns xs"
  "(raced p p' l ns xs)\<lparr>wm_lock := l'\<rparr> = raced p p' l' ns xs"
  "(raced p p' l ns xs)\<lparr>wm_nonces := ns', wm_lock := l'\<rparr> = raced p p' l' ns' xs"
  "(raced p p' l ns xs)\<lparr>wm_executed := xs'\<rparr> = raced p p' l ns xs'"
  "wm_lock (raced p p' l ns xs) = l" "wm_nonces (raced p p' l ns xs) = ns" "wm_executed (raced p p' l ns xs) = xs"
  "wm_issued (raced p p' l ns xs) = [''n'']"
  by (simp_all add: goes_to_def raced_def)

abbreviation demo_step :: "web_machine \<Rightarrow> web_machine \<Rightarrow> bool" where
  "demo_step \<equiv> web_step (\<lambda>_. Some (JObj [])) demo_config"

lemma web_steps_to: "web_step loads cfg m m1 \<Longrightarrow> m1 = m' \<Longrightarrow> (web_step loads cfg)\<^sup>*\<^sup>* m m'"
  by (simp add: r_into_rtranclp)

lemma demo_form_shown:
  "demo_step\<^sup>*\<^sup>* server_started
     (raced (Arrived (demo_post (Some ''o''))) (Arrived (demo_post (Some ''o''))) None [''n''] [])"
proof -
  let ?m = "\<lambda>l ts ns is. \<lparr>wm_nonces = ns, wm_lock = l, wm_threads = ts, wm_issued = is, wm_executed = []\<rparr>"
  have s1: "demo_step\<^sup>*\<^sup>* server_started (?m None [Rendering] [] [])"
    by (rule web_steps_to [OF web_step.asked_page]) (simp add: server_started_def)
  have s2: "demo_step\<^sup>*\<^sup>* (?m None [Rendering] [] []) (?m (Some 0) [Adding ''n''] [] [])"
    by (rule web_steps_to [OF web_step.lock_to_issue [where i = 0 and n = "''n''"]]) (simp_all add: stands_at_def goes_to_def)
  have s3: "demo_step\<^sup>*\<^sup>* (?m (Some 0) [Adding ''n''] [] []) (?m None [Replied] [''n''] [''n''])"
    by (rule web_steps_to [OF web_step.issue [where i = 0 and n = "''n''"]]) (simp_all add: stands_at_def goes_to_def)
  have s4: "demo_step\<^sup>*\<^sup>* (?m None [Replied] [''n''] [''n'']) (?m None [Replied, Arrived (demo_post (Some ''o''))] [''n''] [''n''])"
    by (rule web_steps_to [OF web_step.posted]) simp
  have s5: "demo_step\<^sup>*\<^sup>* (?m None [Replied, Arrived (demo_post (Some ''o''))] [''n''] [''n'']) (raced (Arrived (demo_post (Some ''o''))) (Arrived (demo_post (Some ''o''))) None [''n''] [])"
    by (rule web_steps_to [OF web_step.posted]) (simp add: raced_def)
  show ?thesis by (rule rtranclp_trans [OF s1 rtranclp_trans [OF s2 rtranclp_trans [OF s3 rtranclp_trans [OF s4 s5]]]])
qed

lemma demo_race:
  "\<exists>ev. demo_step\<^sup>*\<^sup>* (raced (Arrived (demo_post (Some ''o''))) (Arrived (demo_post (Some ''o''))) None [''n''] [])
     (raced Rendering Rendering None [] [(''n'', ev)])"
proof -
  obtain s where c: "chosen_assistant executing_env demo_conn ''g'' demo_pairs demo_web = (Inr True, s)"
    using demo_choice by blast
  obtain message s' ev where x: "start_execution executing_env (\<lambda>_. Some (JObj [])) (demo_post (Some ''o'')) demo_conn ''c'' ''g''
      demo_pairs demo_web = (Inr (Execute_Page 200 message), s')" "submissions (outside_of s') = [ev] @ submissions (outside_of demo_web)"
    using demo_execution by blast
  let ?a = "Arrived (demo_post (Some ''o''))" and ?j = demo_job
  have s1: "demo_step\<^sup>*\<^sup>* (raced ?a ?a None [''n''] []) (raced (At_Nonce ?j) ?a None [''n''] [])"
    by (rule web_steps_to [OF web_step.admit [where i = 1 and q = "demo_post (Some ''o'')" and s = demo_web]]) (simp_all add: demo_admission)
  have s2: "demo_step\<^sup>*\<^sup>* (raced (At_Nonce ?j) ?a None [''n''] []) (raced (At_Nonce ?j) (At_Nonce ?j) None [''n''] [])"
    by (rule web_steps_to [OF web_step.admit [where i = 2 and q = "demo_post (Some ''o'')" and s = demo_web]]) (simp_all add: demo_admission)
  have s3: "demo_step\<^sup>*\<^sup>* (raced (At_Nonce ?j) (At_Nonce ?j) None [''n''] []) (raced (Testing ?j) (At_Nonce ?j) (Some 1) [''n''] [])"
    by (rule web_steps_to [OF web_step.lock_to_consume [where i = 1 and j = demo_job]]) simp_all
  have s4: "demo_step\<^sup>*\<^sup>* (raced (Testing ?j) (At_Nonce ?j) (Some 1) [''n''] []) (raced (Discarding ?j) (At_Nonce ?j) (Some 1) [''n''] [])"
    by (rule web_steps_to [OF web_step.known [where i = 1 and j = demo_job]]) (simp_all add: demo_nonce)
  have s5: "demo_step\<^sup>*\<^sup>* (raced (Discarding ?j) (At_Nonce ?j) (Some 1) [''n''] []) (raced (Spent ?j) (At_Nonce ?j) None [] [])"
    by (rule web_steps_to [OF web_step.discard [where i = 1 and j = demo_job]]) (simp_all add: demo_nonce)
  have s6: "demo_step\<^sup>*\<^sup>* (raced (Spent ?j) (At_Nonce ?j) None [] []) (raced (Spent ?j) (Testing ?j) (Some 2) [] [])"
    by (rule web_steps_to [OF web_step.lock_to_consume [where i = 2 and j = demo_job]]) simp_all
  have s7: "demo_step\<^sup>*\<^sup>* (raced (Spent ?j) (Testing ?j) (Some 2) [] []) (raced (Spent ?j) Rendering None [] [])"
    by (rule web_steps_to [OF web_step.unknown [where i = 2 and j = demo_job]]) (simp_all add: demo_nonce)
  have s8: "demo_step\<^sup>*\<^sup>* (raced (Spent ?j) Rendering None [] []) (raced (Chosen ?j) Rendering None [] [])"
    by (rule web_steps_to [OF web_step.choose [where i = 1 and j = demo_job and e = executing_env and s = demo_web and r = "Inr True" and s' = s]])
      (simp_all add: c demo_job_def after_choice_def)
  have s9: "demo_step\<^sup>*\<^sup>* (raced (Chosen ?j) Rendering None [] []) (raced Rendering Rendering None [] [(''n'', ev)])"
    by (rule web_steps_to [OF web_step.execution [where i = 1 and j = demo_job and e = executing_env and s = demo_web and r = "Inr (Execute_Page 200 message)" and s' = s' and new = "[ev]"]])
      (simp_all add: x demo_job_def after_answer_def demo_nonce [unfolded demo_job_def])
  show ?thesis by (rule exI [of _ ev]) (rule rtranclp_trans [OF s1 rtranclp_trans [OF s2 rtranclp_trans [OF s3 rtranclp_trans [OF s4 rtranclp_trans [OF s5 rtranclp_trans [OF s6 rtranclp_trans [OF s7 rtranclp_trans [OF s8 s9]]]]]]]])
qed

theorem forms_outnumber_executions_witness:
  "\<exists>m. demo_step\<^sup>*\<^sup>* server_started m \<and> length (wm_executed m) = 1 \<and> set (map fst (wm_executed m)) \<subseteq> set (wm_issued m)"
proof -
  obtain ev where r: "demo_step\<^sup>*\<^sup>* server_started (raced Rendering Rendering None [] [(''n'', ev)])"
    using demo_form_shown demo_race by (meson rtranclp_trans)
  from forms_outnumber_executions [OF r] have "mset (map fst [(''n'', ev)]) \<subseteq># mset [''n'']" by simp
  then have "set (map fst [(''n'', ev)]) \<subseteq> set [''n'']" by (metis set_mset_mono set_mset_mset)
  then show ?thesis using r by (intro exI [of _ "raced Rendering Rendering None [] [(''n'', ev)]"]) simp
qed

end
