(* ===== verification/Web_Layout.thy ===== *)
theory Web_Layout
  imports Viewer_Catalog
begin

text \<open>
  The picture of a Graph's structure (\<^verbatim>\<open>layout\<close> of \<^verbatim>\<open>web/presentation.py\<close>): Nodes in rows by breadth-first
  depth, edges between their positions. A structure has passed the schema's validator and its ids are strings;
  the join edges derived from it are a parameter. Coordinates are rationals.
\<close>

section \<open>The structure\<close>

record link =
  li_source :: string
  li_target :: string
  li_edge :: json

record graph_shape =
  sn_nodes :: "(string \<times> string option) list"
  sn_links :: "link list"
  sn_entries :: "string list"

text \<open>\<^verbatim>\<open>node["id"]\<close> and \<^verbatim>\<open>node.get("subgraphId")\<close>\<close>

definition node_of :: "json \<Rightarrow> exn + string \<times> string option" where
  "node_of node =
     follow (str_field node ''id'') (\<lambda>i.
     follow (get_attr node ''subgraphId'') (\<lambda>a.
       case a of
         None \<Rightarrow> Inr (i, None)
       | Some JNull \<Rightarrow> Inr (i, None)
       | Some (JStr s) \<Rightarrow> Inr (i, Some s)
       | _ \<Rightarrow> Inl (Exn PyTypeError ''string expected'')))"

definition link_of :: "json \<Rightarrow> exn + link" where
  "link_of e =
     follow (str_field e ''source'') (\<lambda>s.
     follow (str_field e ''target'') (\<lambda>t.
       Inr \<lparr>li_source = s, li_target = t, li_edge = e\<rparr>))"

text \<open>\<^verbatim>\<open>{**edge, "kind": "AND join"}\<close>\<close>

definition and_join :: "json \<Rightarrow> json" where
  "and_join e = (case e of JObj d \<Rightarrow> JObj (AList.update ''kind'' (JStr ''AND join'') d) | _ \<Rightarrow> e)"

definition entry_of :: "json \<Rightarrow> exn + string" where
  "entry_of j = (case j of JStr s \<Rightarrow> Inr s | _ \<Rightarrow> Inl (Exn PyTypeError ''string expected''))"

definition structure_of :: "(json \<Rightarrow> json list) \<Rightarrow> json \<Rightarrow> exn + graph_shape" where
  "structure_of joins s =
     follow (follow (items_of s ''nodes'') (map_all node_of)) (\<lambda>nodes.
     follow (items_of s ''edges'') (\<lambda>edges.
     follow (map_all link_of (edges @ map and_join (joins s))) (\<lambda>links.
     follow (follow (items_of s ''entryNodeIds'') (map_all entry_of)) (\<lambda>entries.
       Inr \<lparr>sn_nodes = nodes, sn_links = links, sn_entries = entries\<rparr>))))"

definition node_ids :: "graph_shape \<Rightarrow> string list" where
  "node_ids st = map fst (sn_nodes st)"

section \<open>Depths\<close>

type_synonym depths = "(string \<times> nat) list"

text \<open>\<^verbatim>\<open>adjacency[node]\<close>\<close>

definition adjacent :: "graph_shape \<Rightarrow> string \<Rightarrow> exn + string list" where
  "adjacent st n =
     (if n \<in> set (node_ids st) then Inr (map li_target (filter (\<lambda>l. li_source l = n) (sn_links st)))
      else Inl (Exn PyKeyError (quoted n)))"

definition depth_of :: "depths \<Rightarrow> string \<Rightarrow> nat" where
  "depth_of depths n = (case map_of depths n of None \<Rightarrow> 0 | Some d \<Rightarrow> d)"

fun spread :: "nat \<Rightarrow> string list \<Rightarrow> depths \<Rightarrow> string list \<Rightarrow> depths \<times> string list" where
  "spread d [] depths queue = (depths, queue)"
| "spread d (t # ts) depths queue =
     (if map_of depths t = None then spread d ts (depths @ [(t, d)]) (queue @ [t]) else spread d ts depths queue)"

definition unplaced :: "graph_shape \<Rightarrow> depths \<Rightarrow> nat" where
  "unplaced st depths = card (li_target ` set (sn_links st) - fst ` set depths)"

lemma spread_unplaced:
  "spread d ts depths queue = (depths', queue') \<Longrightarrow> set ts \<subseteq> li_target ` set (sn_links st) \<Longrightarrow>
   unplaced st depths' + length queue' = unplaced st depths + length queue"
proof (induction d ts depths queue rule: spread.induct)
  case (2 d t ts depths queue)
  show ?case
  proof (cases "map_of depths t = None")
    case True
    then have "t \<in> li_target ` set (sn_links st) - fst ` set depths" using "2.prems" by (simp add: map_of_eq_None_iff)
    moreover have "li_target ` set (sn_links st) - fst ` set (depths @ [(t, d)]) =
        (li_target ` set (sn_links st) - fst ` set depths) - {t}" by auto
    ultimately have "unplaced st depths = Suc (unplaced st (depths @ [(t, d)]))"
      unfolding unplaced_def by (metis card_Suc_Diff1 finite_Diff finite_imageI finite_set)
    then show ?thesis using 2 True by simp
  next
    case False
    then show ?thesis using "2.IH"(2) "2.prems" by auto
  qed
qed simp

lemma adjacent_Inr: "adjacent st n = Inr ts \<Longrightarrow> set ts \<subseteq> li_target ` set (sn_links st)"
  by (auto simp: adjacent_def split: if_splits)

function walk :: "graph_shape \<Rightarrow> depths \<Rightarrow> string list \<Rightarrow> exn + depths" where
  "walk st depths [] = Inr depths"
| "walk st depths (n # queue) =
     (case adjacent st n of
        Inl x \<Rightarrow> Inl x
      | Inr ts \<Rightarrow>
          (case spread (Suc (depth_of depths n)) ts depths queue of
             (depths', queue') \<Rightarrow> walk st depths' queue'))"
  by pat_completeness auto
termination
  by (relation "measure (\<lambda>(st, depths, queue). unplaced st depths + length queue)")
    (auto dest!: adjacent_Inr simp: less_Suc_eq_le split: prod.split, metis order_refl spread_unplaced)

definition next_row :: "depths \<Rightarrow> nat" where
  "next_row depths = (if depths = [] then 0 else Suc (foldr max (map snd depths) 0))"

fun place_roots :: "graph_shape \<Rightarrow> string list \<Rightarrow> depths \<Rightarrow> exn + depths" where
  "place_roots st [] depths = Inr depths"
| "place_roots st (r # rs) depths =
     (if map_of depths r \<noteq> None then place_roots st rs depths
      else follow (walk st (depths @ [(r, next_row depths)]) [r]) (place_roots st rs))"

section \<open>Positions\<close>

type_synonym position = "rat \<times> rat"

definition rows_of :: "depths \<Rightarrow> string list \<Rightarrow> (nat \<times> string list) list" where
  "rows_of depths nodes = fold (\<lambda>n. append_at (depth_of depths n) n) nodes []"

definition width_of :: "(nat \<times> string list) list \<Rightarrow> rat" where
  "width_of rows = of_nat (if rows = [] then 1 else foldr max (map (length \<circ> snd) rows) 0) * 240"

definition placements :: "rat \<Rightarrow> (nat \<times> string list) list \<Rightarrow> (string \<times> position) list" where
  "placements width rows =
     concat (map (\<lambda>(d, row). map (\<lambda>(col, n). (n, (width * (of_nat col + 1 / 2) / of_nat (length row), of_nat d * 100 + 40)))
       (enumerate 0 row)) rows)"

definition positions_of :: "rat \<Rightarrow> (nat \<times> string list) list \<Rightarrow> (string \<times> position) list" where
  "positions_of width rows = fold (\<lambda>(n, p). AList.update n p) (placements width rows) []"

definition position :: "(string \<times> position) list \<Rightarrow> string \<Rightarrow> exn + position" where
  "position ps n = (case map_of ps n of None \<Rightarrow> Inl (Exn PyKeyError (quoted n)) | Some p \<Rightarrow> Inr p)"

record diagram =
  dg_width :: rat
  dg_height :: rat
  dg_nodes :: "(string \<times> position) list"
  dg_links :: "(link \<times> position \<times> position) list"

definition draw :: "graph_shape \<Rightarrow> depths \<Rightarrow> exn + diagram" where
  "draw st depths =
     (let rows = rows_of depths (node_ids st); width = width_of rows; ps = positions_of width rows in
      follow (map_all (\<lambda>n. follow (position ps n) (\<lambda>p. Inr (n, p))) (node_ids st)) (\<lambda>nodes.
      follow (map_all (\<lambda>l. follow (position ps (li_source l)) (\<lambda>s. follow (position ps (li_target l)) (\<lambda>t. Inr (l, s, t))))
        (sn_links st)) (\<lambda>links.
        Inr \<lparr>dg_width = width, dg_height = of_nat (foldr max (map fst rows) 0 + 1) * 100, dg_nodes = nodes, dg_links = links\<rparr>)))"

definition layout_structure :: "graph_shape \<Rightarrow> exn + diagram" where
  "layout_structure st =
     (case find (\<lambda>l. li_source l \<notin> set (node_ids st)) (sn_links st) of
        Some l \<Rightarrow> Inl (Exn PyKeyError (quoted (li_source l)))
      | None \<Rightarrow> follow (place_roots st (sn_entries st @ node_ids st) []) (draw st))"

definition layout :: "(json \<Rightarrow> json list) \<Rightarrow> json option \<Rightarrow> exn + diagram option" where
  "layout joins s =
     (case s of
        None \<Rightarrow> Inr None
      | Some j \<Rightarrow> if \<not> truthy j then Inr None
                  else follow (structure_of joins j) (\<lambda>st. follow (layout_structure st) (\<lambda>d. Inr (Some d))))"

section \<open>Breadth-first rows\<close>

definition closed_shape :: "graph_shape \<Rightarrow> bool" where
  "closed_shape st \<longleftrightarrow> li_source ` set (sn_links st) \<union> li_target ` set (sn_links st) \<union> set (sn_entries st) \<subseteq> set (node_ids st)"

text \<open>
  The search's invariant: the queue is in the order of its rows, no row is more than one below that of a queued
  Node, and the links of the Nodes that have been visited lead at most one row down.
\<close>

definition graded :: "graph_shape \<Rightarrow> depths \<Rightarrow> string list \<Rightarrow> bool" where
  "graded st depths queue \<longleftrightarrow>
     distinct (map fst depths) \<and> fst ` set depths \<subseteq> set (node_ids st) \<and> set queue \<subseteq> fst ` set depths \<and>
     sorted (map (depth_of depths) queue) \<and>
     (\<forall>q \<in> set queue. \<forall>d \<in> snd ` set depths. d \<le> Suc (depth_of depths q)) \<and>
     (\<forall>l \<in> set (sn_links st). li_source l \<in> fst ` set depths - set queue \<longrightarrow>
        li_target l \<in> fst ` set depths \<and> depth_of depths (li_target l) \<le> Suc (depth_of depths (li_source l)))"

lemma depth_of_mem: "distinct (map fst depths) \<Longrightarrow> (n, d) \<in> set depths \<Longrightarrow> depth_of depths n = d"
  by (simp add: depth_of_def)

lemma depth_of_known: "n \<in> fst ` set depths \<Longrightarrow> depth_of (depths @ ext) n = depth_of depths n"
  by (auto simp: depth_of_def map_add_def map_of_eq_None_iff split: option.split)

lemma depth_of_new:
  assumes "n \<notin> fst ` set depths" "n \<in> set new"
  shows "depth_of (depths @ map (\<lambda>t. (t, d)) new) n = d"
proof -
  have none: "map_of depths n = None" using assms(1) by (simp add: map_of_eq_None_iff)
  have "map_of (map (\<lambda>t. (t, d)) new) n = Some d" using assms(2) by (induction new) auto
  then show ?thesis using none by (simp add: depth_of_def map_add_def)
qed

lemma depth_in:
  assumes "n \<in> fst ` set depths"
  shows "depth_of depths n \<in> snd ` set depths"
proof -
  obtain d where d: "map_of depths n = Some d" using assms by (metis map_of_eq_None_iff not_None_eq)
  then have "(n, d) \<in> set depths" by (rule map_of_SomeD)
  then show ?thesis using d by (force simp: depth_of_def)
qed

lemma spread_adds:
  "spread d ts depths queue = (depths', queue') \<Longrightarrow>
   \<exists>new. depths' = depths @ map (\<lambda>t. (t, d)) new \<and> queue' = queue @ new \<and> distinct new \<and> set new \<subseteq> set ts \<and>
     set new \<inter> fst ` set depths = {} \<and> set ts \<subseteq> fst ` set depths'"
proof (induction d ts depths queue rule: spread.induct)
  case (2 d t ts depths queue)
  show ?case
  proof (cases "map_of depths t = None")
    case True
    then obtain new where "depths' = (depths @ [(t, d)]) @ map (\<lambda>t. (t, d)) new" "queue' = (queue @ [t]) @ new" "distinct new"
        "set new \<subseteq> set ts" "set new \<inter> fst ` set (depths @ [(t, d)]) = {}" "set ts \<subseteq> fst ` set depths'"
      using 2 by (auto simp: )
    then show ?thesis using True by (intro exI [of _ "t # new"]) (auto simp: map_of_eq_None_iff)
  next
    case False
    then obtain new where "depths' = depths @ map (\<lambda>t. (t, d)) new" "queue' = queue @ new" "distinct new"
        "set new \<subseteq> set ts" "set new \<inter> fst ` set depths = {}" "set ts \<subseteq> fst ` set depths'"
      using 2 by auto
    then show ?thesis using False by (intro exI [of _ new]) (auto simp: map_of_eq_None_iff)
  qed
qed simp

lemma graded_step:
  assumes g: "graded st depths (n # queue)" and c: "closed_shape st"
    and sp: "spread (Suc (depth_of depths n)) (map li_target (filter (\<lambda>l. li_source l = n) (sn_links st))) depths queue = (depths', queue')"
  shows "graded st depths' queue' \<and> (\<exists>ext. depths' = depths @ ext)"
proof -
  let ?d = "Suc (depth_of depths n)" and ?ts = "map li_target (filter (\<lambda>l. li_source l = n) (sn_links st))"
  obtain new where new: "depths' = depths @ map (\<lambda>t. (t, ?d)) new" "queue' = queue @ new" "distinct new"
      "set new \<subseteq> set ?ts" "set new \<inter> fst ` set depths = {}" "set ?ts \<subseteq> fst ` set depths'"
    using spread_adds [OF sp] by blast
  have old: "depth_of depths' m = depth_of depths m" if "m \<in> fst ` set depths" for m
    using that new(1) by (simp add: depth_of_known)
  have fresh: "depth_of depths' m = ?d" if "m \<in> set new" for m
    using that new(1,5) depth_of_new [of m depths new ?d] by blast
  have q: "set (n # queue) \<subseteq> fst ` set depths" and rows: "\<forall>q \<in> set (n # queue). \<forall>d \<in> snd ` set depths. d \<le> Suc (depth_of depths q)"
    and srt: "sorted (map (depth_of depths) (n # queue))"
    and links: "\<And>l. l \<in> set (sn_links st) \<Longrightarrow> li_source l \<in> fst ` set depths - set (n # queue) \<Longrightarrow>
        li_target l \<in> fst ` set depths \<and> depth_of depths (li_target l) \<le> Suc (depth_of depths (li_source l))"
    using g by (auto simp: graded_def)
  have dom: "fst ` set depths' = fst ` set depths \<union> set new" using new(1) by (simp add: image_Un image_image)
  have top: "depth_of depths m \<le> ?d" if "m \<in> fst ` set depths" for m
    using rows depth_in [OF that] by auto
  have after: "depth_of depths n \<le> depth_of depths m" if "m \<in> set queue" for m using srt that by simp
  have old_q: "depth_of depths' m = depth_of depths m" if "m \<in> set queue" for m
    using that q by (intro old) auto
  have top_q: "depth_of depths m \<le> ?d" if "m \<in> set queue" for m
    using that q by (intro top) auto
  have queue': "map (depth_of depths') queue' = map (depth_of depths) queue @ map (\<lambda>_. ?d) new"
    using new(2) old_q fresh by simp
  have "sorted (map (depth_of depths') queue')"
    using srt top_q unfolding queue' by (auto simp: sorted_append map_replicate_const)
  moreover have "\<forall>m \<in> set queue'. \<forall>d \<in> snd ` set depths'. d \<le> Suc (depth_of depths' m)"
  proof (intro ballI)
    fix m d assume m: "m \<in> set queue'" and d: "d \<in> snd ` set depths'"
    have "d \<le> ?d" using d new(1) rows by auto
    moreover have "depth_of depths n \<le> depth_of depths' m" using m new(2) old_q fresh after by fastforce
    ultimately show "d \<le> Suc (depth_of depths' m)" by simp
  qed
  moreover have "li_target l \<in> fst ` set depths' \<and> depth_of depths' (li_target l) \<le> Suc (depth_of depths' (li_source l))"
    if l: "l \<in> set (sn_links st)" "li_source l \<in> fst ` set depths' - set queue'" for l
  proof (cases "li_source l = n")
    case True
    have t: "li_target l \<in> fst ` set depths'" using new(6) l(1) True by auto
    have "depth_of depths' (li_target l) \<le> ?d"
      using t top old fresh unfolding dom by (metis Un_iff order_refl)
    moreover have "depth_of depths' n = depth_of depths n" using q old [of n] by simp
    ultimately show ?thesis using True t by simp
  next
    case False
    then have s: "li_source l \<in> fst ` set depths - set (n # queue)" using l(2) dom new(2) by auto
    then show ?thesis using links [OF l(1) s] old [of "li_target l"] old [of "li_source l"] dom by simp
  qed
  moreover have "fst ` set depths' \<subseteq> set (node_ids st)"
  proof -
    have "set new \<subseteq> li_target ` set (sn_links st)" using new(4) by auto
    moreover have "fst ` set depths \<subseteq> set (node_ids st)" using g by (simp add: graded_def)
    moreover have "li_target ` set (sn_links st) \<subseteq> set (node_ids st)" using c by (simp add: closed_shape_def)
    ultimately show ?thesis using dom by (simp only: Un_subset_iff) (meson subset_trans)
  qed
  moreover have "distinct (map fst depths')" using g new(1,3,5) by (auto simp: graded_def comp_def)
  moreover have "set queue' \<subseteq> fst ` set depths'" using new(2) q dom by auto
  ultimately show ?thesis unfolding graded_def using new(1) by blast
qed

lemma walk_graded:
  "graded st depths queue \<Longrightarrow> closed_shape st \<Longrightarrow>
   \<exists>depths'. walk st depths queue = Inr depths' \<and> graded st depths' [] \<and> (\<exists>ext. depths' = depths @ ext)"
proof (induction st depths queue rule: walk.induct)
  case (2 st depths n queue)
  let ?ts = "map li_target (filter (\<lambda>l. li_source l = n) (sn_links st))"
  have n: "adjacent st n = Inr ?ts" using "2.prems"(1) by (auto simp: adjacent_def graded_def)
  obtain depths1 queue1 where sp: "spread (Suc (depth_of depths n)) ?ts depths queue = (depths1, queue1)" by fastforce
  from graded_step [OF "2.prems" sp] obtain ext where g: "graded st depths1 queue1" "depths1 = depths @ ext" by blast
  from "2.IH" [OF n sp [symmetric] g(1) "2.prems"(2)] show ?case using n sp g(2) by auto
qed simp

lemma foldr_max_ge: "x \<in> set xs \<Longrightarrow> x \<le> foldr max xs (0 :: nat)"
  by (induction xs) auto

lemma place_roots_graded:
  "graded st depths [] \<Longrightarrow> closed_shape st \<Longrightarrow> set roots \<subseteq> set (node_ids st) \<Longrightarrow>
   \<exists>depths'. place_roots st roots depths = Inr depths' \<and> graded st depths' [] \<and>
     fst ` set depths \<union> set roots \<subseteq> fst ` set depths'"
proof (induction roots arbitrary: depths)
  case (Cons r rs)
  show ?case
  proof (cases "map_of depths r = None")
    case False
    then have "r \<in> fst ` set depths" by (metis map_of_eq_None_iff)
    moreover obtain depths' where "place_roots st rs depths = Inr depths'" "graded st depths' []"
        "fst ` set depths \<union> set rs \<subseteq> fst ` set depths'"
      using Cons.IH [OF Cons.prems(1,2)] Cons.prems(3) by auto
    ultimately show ?thesis using False by (intro exI [of _ depths']) auto
  next
    case True
    then have r: "r \<notin> fst ` set depths" by (simp add: map_of_eq_None_iff)
    let ?d = "depths @ [(r, next_row depths)]"
    have at_r: "depth_of ?d r = next_row depths" using depth_of_new [of r depths "[r]"] r by simp
    have below: "d \<le> Suc (next_row depths)" if d: "d \<in> snd ` set ?d" for d
    proof (cases "d \<in> snd ` set depths")
      case True
      then have "d \<le> foldr max (map snd depths) 0" by (intro foldr_max_ge) simp
      then show ?thesis using True by (auto simp: next_row_def)
    next
      case False
      then show ?thesis using d by auto
    qed
    have "graded st ?d [r]"
      using Cons.prems r at_r below by (auto simp: graded_def depth_of_known)
    from walk_graded [OF this Cons.prems(2)] obtain depths1 ext where
      w: "walk st ?d [r] = Inr depths1" "graded st depths1 []" "depths1 = ?d @ ext" by blast
    obtain depths' where d: "place_roots st rs depths1 = Inr depths'" "graded st depths' []"
        "fst ` set depths1 \<union> set rs \<subseteq> fst ` set depths'"
      using Cons.IH [OF w(2) Cons.prems(2)] Cons.prems(3) by auto
    have "place_roots st (r # rs) depths = Inr depths'" using True w(1) d(1) by simp
    moreover have "fst ` set depths \<union> set (r # rs) \<subseteq> fst ` set depths'" using d(3) w(3) by auto
    ultimately show ?thesis using d(2) by blast
  qed
qed auto

section \<open>Where a Node is drawn\<close>

lemma append_at_distinct: "distinct (map fst d) \<Longrightarrow> distinct (map fst (append_at k x d))"
  by (simp add: append_at_def distinct_update)

lemma grouped_distinct: "distinct (map fst d) \<Longrightarrow> distinct (map fst (fold (\<lambda>x. append_at (f x) (h x)) xs d))"
  by (induction xs arbitrary: d) (simp_all add: append_at_distinct)

lemma row_is: "(d, row) \<in> set (rows_of depths ns) \<Longrightarrow> row = filter (\<lambda>n. depth_of depths n = d) ns"
proof -
  assume r: "(d, row) \<in> set (rows_of depths ns)"
  have "distinct (map fst (rows_of depths ns))" unfolding rows_of_def by (rule grouped_distinct) simp
  then have "get_list (rows_of depths ns) d = row" using r by (simp add: get_list_def)
  then show ?thesis by (simp add: rows_of_def get_list_grouped)
qed

lemma row_of_node: "n \<in> set ns \<Longrightarrow> (depth_of depths n, filter (\<lambda>m. depth_of depths m = depth_of depths n) ns) \<in> set (rows_of depths ns)"
proof -
  assume n: "n \<in> set ns"
  have "depth_of depths n \<in> fst ` set (rows_of depths ns)" using n by (simp add: rows_of_def grouped_keys)
  then obtain row where "(depth_of depths n, row) \<in> set (rows_of depths ns)" by fastforce
  then show ?thesis using row_is by fastforce
qed

lemma map_of_updates:
  "map_of (fold (\<lambda>(n, p). AList.update n p) xs d) n = (case map_of (rev xs) n of None \<Rightarrow> map_of d n | Some p \<Rightarrow> Some p)"
  by (induction xs arbitrary: d) (auto simp: update_conv' map_add_def split: option.split)

definition drawn_at :: "depths \<Rightarrow> string list \<Rightarrow> string \<Rightarrow> nat \<Rightarrow> nat \<Rightarrow> bool" where
  "drawn_at depths ns n col len \<longleftrightarrow>
     (let row = filter (\<lambda>m. depth_of depths m = depth_of depths n) ns in col < length row \<and> row ! col = n \<and> len = length row)"

lemma placements_mem:
  "(n, p) \<in> set (placements w rows) \<longleftrightarrow>
     (\<exists>d row c. (d, row) \<in> set rows \<and> c < length row \<and> row ! c = n \<and>
        p = (w * (of_nat c + 1 / 2) / of_nat (length row), of_nat d * 100 + 40))"
  by (force simp: placements_def in_set_enumerate_eq)

lemma map_of_rev_unique:
  assumes "(n, p) \<in> set xs" "\<And>q. (n, q) \<in> set xs \<Longrightarrow> q = p"
  shows "map_of (rev xs) n = Some p"
proof (cases "map_of (rev xs) n")
  case None
  then show ?thesis using assms(1) by (force simp: map_of_eq_None_iff)
next
  case (Some q)
  then show ?thesis using assms(2) map_of_SomeD [OF Some] by simp
qed

lemma position_is:
  assumes "distinct ns" "n \<in> set ns"
  shows "\<exists>col len. drawn_at depths ns n col len \<and>
    position (positions_of w (rows_of depths ns)) n =
      Inr (w * (of_nat col + 1 / 2) / of_nat len, of_nat (depth_of depths n) * 100 + 40)"
proof -
  let ?row = "filter (\<lambda>m. depth_of depths m = depth_of depths n) ns"
  obtain col where col: "col < length ?row" "?row ! col = n"
    using assms(2) by (metis (mono_tags, lifting) in_set_conv_nth mem_Collect_eq set_filter)
  let ?p = "(w * (of_nat col + 1 / 2) / of_nat (length ?row), of_nat (depth_of depths n) * 100 + 40)"
  have "(n, ?p) \<in> set (placements w (rows_of depths ns))"
    using row_of_node [OF assms(2), of depths] col unfolding placements_mem by blast
  moreover have "q = ?p" if mem: "(n, q) \<in> set (placements w (rows_of depths ns))" for q
  proof -
    obtain d row c where m: "(d, row) \<in> set (rows_of depths ns)" "c < length row" "row ! c = n"
        "q = (w * (of_nat c + 1 / 2) / of_nat (length row), of_nat d * 100 + 40)" using mem unfolding placements_mem by blast
    have row: "row = filter (\<lambda>m. depth_of depths m = d) ns" using row_is [OF m(1)] .
    then have "n \<in> set (filter (\<lambda>m. depth_of depths m = d) ns)" using m(2,3) nth_mem by metis
    then have d: "row = ?row" "d = depth_of depths n" using row by auto
    have "distinct ?row" using assms(1) by simp
    moreover have "c < length ?row" "?row ! c = ?row ! col" using col m(2,3) d(1) by simp_all
    ultimately have "c = col" using col(1) nth_eq_iff_index_eq by blast
    then show ?thesis using m(4) d by simp
  qed
  ultimately have "map_of (rev (placements w (rows_of depths ns))) n = Some ?p" by (rule map_of_rev_unique)
  then show ?thesis using col
    by (intro exI [of _ col] exI [of _ "length ?row"]) (simp add: position_def positions_of_def map_of_updates drawn_at_def)
qed

lemma width_ge:
  assumes "(d, row) \<in> set rows"
  shows "240 * of_nat (length row) \<le> width_of rows"
proof -
  have "length row \<le> foldr max (map (length \<circ> snd) rows) 0" using assms by (intro foldr_max_ge) force
  moreover have "rows \<noteq> []" using assms by auto
  ultimately show ?thesis by (simp add: width_of_def)
qed

lemma slot_ge:
  assumes "(d, row) \<in> set rows" "len = length row" "0 < len"
  shows "240 \<le> width_of rows / of_nat len"
  using width_ge [OF assms(1)] assms(2,3) by (simp add: pos_le_divide_eq)

lemma map_all_map: "(\<And>x. x \<in> set xs \<Longrightarrow> f x = Inr (g x)) \<Longrightarrow> map_all f xs = Inr (map g xs)"
  by (induction xs) simp_all

text \<open>A Node's place in its row, with room to the borders and to its neighbours.\<close>

lemma drawn_at_room:
  assumes "drawn_at depths ns n col len" "n \<in> set ns"
  defines "w \<equiv> width_of (rows_of depths ns)"
  defines "x \<equiv> w * (of_nat col + 1 / 2) / of_nat len"
  shows "120 \<le> x" "x \<le> w - 120"
    "depth_of depths n \<le> foldr max (map fst (rows_of depths ns)) 0"
proof -
  have row: "(depth_of depths n, filter (\<lambda>m. depth_of depths m = depth_of depths n) ns) \<in> set (rows_of depths ns)"
    using row_of_node [OF assms(2)] .
  have len: "col < len" "len = length (filter (\<lambda>m. depth_of depths m = depth_of depths n) ns)"
    using assms(1) by (auto simp: drawn_at_def Let_def)
  have slot: "240 \<le> w / of_nat len" using slot_ge [OF row len(2)] len(1) by (simp add: w_def)
  have pos: "0 < (of_nat len :: rat)" using len(1) by simp
  have x: "x = w / of_nat len * (of_nat col + 1 / 2)" by (simp add: x_def)
  have "240 * (1 / 2) \<le> w / of_nat len * (of_nat col + 1 / 2)" using slot by (intro mult_mono) simp_all
  then show "120 \<le> x" using x by simp
  have "w - x = w / of_nat len * (of_nat len - of_nat col - 1 / 2)" using pos by (simp add: x field_simps)
  moreover have "240 * (1 / 2) \<le> w / of_nat len * (of_nat len - of_nat col - 1 / 2)"
  proof (intro mult_mono slot)
    have "of_nat (Suc col) \<le> (of_nat len :: rat)" using len(1) by (intro of_nat_mono) simp
    then show "1 / 2 \<le> (of_nat len - of_nat col - 1 / 2 :: rat)" by simp
  qed (use slot in simp_all)
  ultimately show "x \<le> w - 120" by simp
  show "depth_of depths n \<le> foldr max (map fst (rows_of depths ns)) 0"
    using row by (intro foldr_max_ge) force
qed

lemma drawn_at_apart:
  assumes "drawn_at depths ns n c len" "drawn_at depths ns m c' len'" "n \<noteq> m" "depth_of depths n = depth_of depths m" "n \<in> set ns"
  defines "w \<equiv> width_of (rows_of depths ns)"
  shows "240 \<le> \<bar>w * (of_nat c + 1 / 2) / of_nat len - w * (of_nat c' + 1 / 2) / of_nat len'\<bar>"
proof -
  let ?row = "filter (\<lambda>k. depth_of depths k = depth_of depths m) ns"
  have row: "(depth_of depths m, ?row) \<in> set (rows_of depths ns)"
    using row_of_node [OF assms(5), of depths] assms(4) by simp
  have c: "c < length ?row" "?row ! c = n" "len = length ?row" "c' < length ?row" "?row ! c' = m" "len' = length ?row"
    using assms(1,2,4) by (auto simp: drawn_at_def Let_def)
  have slot: "240 \<le> w / of_nat len" unfolding w_def by (rule slot_ge [OF row c(3)]) (use c(1,3) in linarith)
  have "c \<noteq> c'" using c assms(3) by auto
  then have "1 \<le> \<bar>int c - int c'\<bar>" by simp
  then have "1 \<le> \<bar>of_int (int c - int c') :: rat\<bar>" by linarith
  then have gap: "1 \<le> \<bar>of_nat c - of_nat c' :: rat\<bar>" by simp
  have "240 * 1 \<le> w / of_nat len * \<bar>of_nat c - of_nat c'\<bar>" using slot gap by (intro mult_mono) simp_all
  also have "\<dots> = \<bar>w / of_nat len * (of_nat c - of_nat c')\<bar>"
    using abs_of_nonneg [of "w / of_nat len"] slot unfolding abs_mult by linarith
  also have "w / of_nat len * (of_nat c - of_nat c') = w * (of_nat c + 1 / 2) / of_nat len - w * (of_nat c' + 1 / 2) / of_nat len'"
    using c(3,6) by (simp add: diff_divide_distrib [symmetric] right_diff_distrib [symmetric])
  finally show ?thesis by simp
qed

section \<open>Properties\<close>

lemma draw_positions:
  assumes "distinct (node_ids st)" "closed_shape st"
  shows "\<exists>P. draw st depths = Inr \<lparr>dg_width = width_of (rows_of depths (node_ids st)),
      dg_height = of_nat (foldr max (map fst (rows_of depths (node_ids st))) 0 + 1) * 100,
      dg_nodes = map (\<lambda>n. (n, P n)) (node_ids st),
      dg_links = map (\<lambda>l. (l, P (li_source l), P (li_target l))) (sn_links st)\<rparr> \<and>
    (\<forall>n \<in> set (node_ids st). \<exists>col len. drawn_at depths (node_ids st) n col len \<and>
      P n = (width_of (rows_of depths (node_ids st)) * (of_nat col + 1 / 2) / of_nat len, of_nat (depth_of depths n) * 100 + 40))"
proof -
  let ?ns = "node_ids st"
  let ?w = "width_of (rows_of depths ?ns)"
  let ?ps = "positions_of ?w (rows_of depths ?ns)"
  define P where "P n = (case position ?ps n of Inr p \<Rightarrow> p)" for n
  have P: "position ?ps n = Inr (P n)" if "n \<in> set ?ns" for n
    using position_is [OF assms(1) that, of depths ?w] by (auto simp: P_def)
  have nodes: "map_all (\<lambda>n. follow (position ?ps n) (\<lambda>p. Inr (n, p))) ?ns = Inr (map (\<lambda>n. (n, P n)) ?ns)"
    by (rule map_all_map) (simp add: P)
  have links: "map_all (\<lambda>l. follow (position ?ps (li_source l)) (\<lambda>s. follow (position ?ps (li_target l)) (\<lambda>t. Inr (l, s, t)))) (sn_links st) =
      Inr (map (\<lambda>l. (l, P (li_source l), P (li_target l))) (sn_links st))"
  proof (rule map_all_map)
    fix l assume "l \<in> set (sn_links st)"
    then have "li_source l \<in> set ?ns" "li_target l \<in> set ?ns" using assms(2) by (auto simp: closed_shape_def)
    then show "follow (position ?ps (li_source l)) (\<lambda>s. follow (position ?ps (li_target l)) (\<lambda>t. Inr (l, s, t))) =
        Inr (l, P (li_source l), P (li_target l))" by (simp add: P)
  qed
  have "\<exists>col len. drawn_at depths ?ns n col len \<and> P n = (?w * (of_nat col + 1 / 2) / of_nat len, of_nat (depth_of depths n) * 100 + 40)"
    if "n \<in> set ?ns" for n
    using position_is [OF assms(1) that, of depths ?w] P [OF that] by auto
  then show ?thesis using nodes links by (intro exI [of _ P]) (simp add: draw_def Let_def)
qed

lemma layout_depths:
  assumes "closed_shape st"
  shows "\<exists>depths. layout_structure st = draw st depths \<and> graded st depths [] \<and> set (node_ids st) \<subseteq> fst ` set depths"
proof -
  have "graded st [] []" by (simp add: graded_def)
  from place_roots_graded [OF this assms, of "sn_entries st @ node_ids st"]
  obtain depths where "place_roots st (sn_entries st @ node_ids st) [] = Inr depths" "graded st depths []"
      "set (node_ids st) \<subseteq> fst ` set depths"
    using assms by (auto simp: closed_shape_def)
  moreover have "find (\<lambda>l. li_source l \<notin> set (node_ids st)) (sn_links st) = None"
    using assms by (auto simp: closed_shape_def find_None_iff)
  ultimately show ?thesis by (auto simp: layout_structure_def)
qed

text \<open>Where the drawing puts the Nodes, read off their depths and their places in a row.\<close>

definition drawn_by :: "(string \<times> nat) list \<Rightarrow> string list \<Rightarrow> (string \<Rightarrow> rat \<times> rat) \<Rightarrow> bool" where
  "drawn_by depths ns P \<longleftrightarrow> (\<forall>n \<in> set ns. \<exists>col len. drawn_at depths ns n col len \<and>
     P n = (width_of (rows_of depths ns) * (of_nat col + 1 / 2) / of_nat len, of_nat (depth_of depths n) * 100 + 40))"

lemma drawn_row: "drawn_by depths ns P \<Longrightarrow> n \<in> set ns \<Longrightarrow> snd (P n) = of_nat (depth_of depths n) * 100 + 40"
  by (fastforce simp: drawn_by_def)

lemma drawn_inside:
  assumes "drawn_by depths ns P" "n \<in> set ns"
  shows "120 \<le> fst (P n) \<and> fst (P n) \<le> width_of (rows_of depths ns) - 120 \<and> 40 \<le> snd (P n) \<and>
    snd (P n) \<le> of_nat (foldr max (map fst (rows_of depths ns)) 0 + 1) * 100 - 60"
proof -
  obtain col len where at: "drawn_at depths ns n col len" "fst (P n) = width_of (rows_of depths ns) * (of_nat col + 1 / 2) / of_nat len"
    using assms by (fastforce simp: drawn_by_def)
  have "of_nat (depth_of depths n) \<le> (of_nat (foldr max (map fst (rows_of depths ns)) 0) :: rat)"
    using drawn_at_room(3) [OF at(1) assms(2)] by (rule of_nat_mono)
  then show ?thesis using drawn_at_room(1,2) [OF at(1) assms(2)] at(2) drawn_row [OF assms] by simp
qed

lemma drawn_apart:
  assumes "drawn_by depths ns P" "n \<in> set ns" "m \<in> set ns" "n \<noteq> m"
  shows "240 \<le> \<bar>fst (P n) - fst (P m)\<bar> \<or> 100 \<le> \<bar>snd (P n) - snd (P m)\<bar>"
proof (cases "depth_of depths n = depth_of depths m")
  case True
  have at: "\<exists>col len. drawn_at depths ns k col len \<and> fst (P k) = width_of (rows_of depths ns) * (of_nat col + 1 / 2) / of_nat len"
    if "k \<in> set ns" for k using assms(1) that by (fastforce simp: drawn_by_def)
  then show ?thesis using at [OF assms(2)] at [OF assms(3)] drawn_at_apart [OF _ _ assms(4) True assms(2)] by fastforce
next
  case False
  then have "1 \<le> \<bar>of_int (int (depth_of depths n) - int (depth_of depths m)) :: rat\<bar>" by linarith
  then have "100 * 1 \<le> 100 * \<bar>of_nat (depth_of depths n) - of_nat (depth_of depths m) :: rat\<bar>" by simp
  also have "\<dots> = \<bar>snd (P n) - snd (P m)\<bar>" using drawn_row [OF assms(1,2)] drawn_row [OF assms(1,3)] by (simp add: abs_if)
  finally show ?thesis by simp
qed

text \<open>A link leads to a Node no more than one row below its source.\<close>

lemma drawn_down:
  assumes "drawn_by depths (node_ids st) P" "graded st depths []" "closed_shape st" "set (node_ids st) \<subseteq> fst ` set depths"
    and "l \<in> set (sn_links st)"
  shows "li_source l \<in> set (node_ids st)" "li_target l \<in> set (node_ids st)" "snd (P (li_target l)) \<le> snd (P (li_source l)) + 100"
proof -
  show ends: "li_source l \<in> set (node_ids st)" "li_target l \<in> set (node_ids st)"
    using assms(3,5) by (auto simp: closed_shape_def)
  have "depth_of depths (li_target l) \<le> Suc (depth_of depths (li_source l))" using assms(2,4,5) ends(1) by (auto simp: graded_def)
  then have "of_nat (depth_of depths (li_target l)) \<le> (of_nat (Suc (depth_of depths (li_source l))) :: rat)" by (rule of_nat_mono)
  then show "snd (P (li_target l)) \<le> snd (P (li_source l)) + 100"
    using drawn_row [OF assms(1) ends(1)] drawn_row [OF assms(1) ends(2)] by simp
qed

text \<open>
  C11. A Graph is drawn readably: when a structure's edges and entries name its Nodes, each Node is drawn exactly
  once, with room to the borders of the picture and to every other Node; each edge, the derived joins included,
  is drawn from its source to its target, and leads down by one row at most.
\<close>

theorem layout_is_readable:
  assumes "structure_of joins s = Inr st" "truthy s" "closed_shape st" "distinct (node_ids st)"
  shows "\<exists>d. layout joins (Some s) = Inr (Some d) \<and> map fst (dg_nodes d) = node_ids st \<and> map fst (dg_links d) = sn_links st \<and>
    (\<forall>(n, x, y) \<in> set (dg_nodes d). 120 \<le> x \<and> x \<le> dg_width d - 120 \<and> 40 \<le> y \<and> y \<le> dg_height d - 60) \<and>
    (\<forall>(n, x, y) \<in> set (dg_nodes d). \<forall>(m, x', y') \<in> set (dg_nodes d). n \<noteq> m \<longrightarrow> 240 \<le> \<bar>x - x'\<bar> \<or> 100 \<le> \<bar>y - y'\<bar>) \<and>
    (\<forall>(l, p, q) \<in> set (dg_links d). (li_source l, p) \<in> set (dg_nodes d) \<and> (li_target l, q) \<in> set (dg_nodes d) \<and> snd q \<le> snd p + 100)"
proof -
  let ?ns = "node_ids st"
  obtain depths where lay: "layout_structure st = draw st depths" and g: "graded st depths []" and all: "set ?ns \<subseteq> fst ` set depths"
    using layout_depths [OF assms(3)] by blast
  let ?w = "width_of (rows_of depths ?ns)" and ?m = "foldr max (map fst (rows_of depths ?ns)) 0"
  obtain P where d: "draw st depths = Inr \<lparr>dg_width = ?w, dg_height = of_nat (?m + 1) * 100, dg_nodes = map (\<lambda>n. (n, P n)) ?ns,
        dg_links = map (\<lambda>l. (l, P (li_source l), P (li_target l))) (sn_links st)\<rparr>" and P: "drawn_by depths ?ns P"
    using draw_positions [OF assms(4,3), of depths] unfolding drawn_by_def by blast
  note down = drawn_down [OF P g assms(3) all]
  let ?d = "\<lparr>dg_width = ?w, dg_height = of_nat (?m + 1) * 100, dg_nodes = map (\<lambda>n. (n, P n)) ?ns,
        dg_links = map (\<lambda>l. (l, P (li_source l), P (li_target l))) (sn_links st)\<rparr>"
  show ?thesis
  proof (intro exI [of _ ?d] conjI)
    show "layout joins (Some s) = Inr (Some ?d)" using assms(1,2) lay d by (simp add: layout_def)
    show "map fst (dg_nodes ?d) = ?ns" "map fst (dg_links ?d) = sn_links st" by (simp_all add: comp_def)
    show "\<forall>(n, x, y) \<in> set (dg_nodes ?d). 120 \<le> x \<and> x \<le> dg_width ?d - 120 \<and> 40 \<le> y \<and> y \<le> dg_height ?d - 60"
    proof clarify
      fix n x y assume "(n, x, y) \<in> set (dg_nodes ?d)"
      then have n: "n \<in> set ?ns" "P n = (x, y)" by auto
      then show "120 \<le> x \<and> x \<le> dg_width ?d - 120 \<and> 40 \<le> y \<and> y \<le> dg_height ?d - 60" using drawn_inside [OF P n(1)] by simp
    qed
    show "\<forall>(n, x, y) \<in> set (dg_nodes ?d). \<forall>(m, x', y') \<in> set (dg_nodes ?d). n \<noteq> m \<longrightarrow> 240 \<le> \<bar>x - x'\<bar> \<or> 100 \<le> \<bar>y - y'\<bar>"
    proof clarify
      fix n x y m x' y' assume "(n, x, y) \<in> set (dg_nodes ?d)" "(m, x', y') \<in> set (dg_nodes ?d)" and ne: "n \<noteq> m" and "\<not> 100 \<le> \<bar>y - y'\<bar>"
      then have "n \<in> set ?ns" "P n = (x, y)" "m \<in> set ?ns" "P m = (x', y')" "\<not> 100 \<le> \<bar>y - y'\<bar>" by auto
      then show "240 \<le> \<bar>x - x'\<bar>" using drawn_apart [OF P, of n m] ne by simp
    qed
    show "\<forall>(l, p, q) \<in> set (dg_links ?d). (li_source l, p) \<in> set (dg_nodes ?d) \<and> (li_target l, q) \<in> set (dg_nodes ?d) \<and> snd q \<le> snd p + 100"
    proof clarify
      fix l px py qx qy assume "(l, (px, py), qx, qy) \<in> set (dg_links ?d)"
      then have l: "l \<in> set (sn_links st)" "P (li_source l) = (px, py)" "P (li_target l) = (qx, qy)" by auto
      then show "(li_source l, px, py) \<in> set (dg_nodes ?d) \<and> (li_target l, qx, qy) \<in> set (dg_nodes ?d) \<and> snd (qx, qy) \<le> snd (px, py) + 100"
        using down [OF l(1)] by force
    qed
  qed
qed

definition demo_structure :: json where
  "demo_structure = JObj [(''nodes'', JArr [JObj [(''id'', JStr ''a'')], JObj [(''id'', JStr ''b'')], JObj [(''id'', JStr ''c'')]]),
     (''edges'', JArr [JObj [(''source'', JStr ''a''), (''target'', JStr ''b'')], JObj [(''source'', JStr ''a''), (''target'', JStr ''c'')],
        JObj [(''source'', JStr ''c''), (''target'', JStr ''a'')]]),
     (''entryNodeIds'', JArr [JStr ''a''])]"

theorem layout_is_readable_witness:
  "\<exists>d. layout (\<lambda>_. []) (Some demo_structure) = Inr (Some d) \<and> map fst (dg_nodes d) = [''a'', ''b'', ''c'']"
proof -
  obtain st where st: "structure_of (\<lambda>_. []) demo_structure = Inr st" "closed_shape st" "node_ids st = [''a'', ''b'', ''c'']"
    by (auto simp: structure_of_def demo_structure_def items_of_def field_def iter_json_def node_of_def str_field_def get_attr_def
        link_of_def entry_of_def closed_shape_def node_ids_def)
  have "truthy demo_structure" by (simp add: demo_structure_def)
  then show ?thesis using layout_is_readable [OF st(1) _ st(2)] st(3) by auto
qed

end
