(* ===== verification/Web_Expansions.thy ===== *)
theory Web_Expansions
  imports Web_Layout
begin

text \<open>
  The child structures of a Graph, opened at every call site (\<^verbatim>\<open>expansions\<close> of \<^verbatim>\<open>web/presentation.py\<close>). Each
  entry has a key, the identity of its element in the page.
\<close>

datatype call_status = Resolved | Cyclic | Unresolved | Undeclared

definition call_text :: "call_status \<Rightarrow> string" where
  "call_text st = (case st of Resolved \<Rightarrow> ''resolved'' | Cyclic \<Rightarrow> ''cyclic'' | Unresolved \<Rightarrow> ''unresolved'' | Undeclared \<Rightarrow> ''undeclared'')"

datatype expansion = Expansion (ex_node: string) (ex_address: string) (ex_key: string) (ex_status: call_status)
  (ex_diagram: "diagram option") (ex_children: "expansion list")

text \<open>\<^verbatim>\<open>"subgraph-" + "-".join(map(str, path + (index,)))\<close>\<close>

definition site_key :: "nat list \<Rightarrow> string" where
  "site_key path = ''subgraph-'' @ join_with ''-'' (map show_nat path)"

definition nodes_of :: "json \<Rightarrow> exn + (string \<times> string option) list" where
  "nodes_of s = follow (items_of s ''nodes'') (map_all node_of)"

definition shut :: "json dict \<Rightarrow> string list \<Rightarrow> nat" where
  "shut subgraphs ancestors = card (fst ` set subgraphs - set ancestors)"

lemma shut_less: "map_of subgraphs a = Some s \<Longrightarrow> a \<notin> set ancestors \<Longrightarrow> shut subgraphs (ancestors @ [a]) < shut subgraphs ancestors"
proof -
  assume m: "map_of subgraphs a = Some s" and a: "a \<notin> set ancestors"
  have "a \<in> fst ` set subgraphs" using m by (metis map_of_eq_None_iff option.distinct(1))
  then have "fst ` set subgraphs - set (ancestors @ [a]) \<subset> fst ` set subgraphs - set ancestors" using a by auto
  then show ?thesis unfolding shut_def by (intro psubset_card_mono) auto
qed

function expansions :: "(json \<Rightarrow> json list) \<Rightarrow> json dict \<Rightarrow> nat list \<Rightarrow> string list \<Rightarrow> json option \<Rightarrow> exn + expansion list"
and call_sites :: "(json \<Rightarrow> json list) \<Rightarrow> json dict \<Rightarrow> nat list \<Rightarrow> string list \<Rightarrow> nat \<Rightarrow> (string \<times> string option) list \<Rightarrow> exn + expansion list"
where
  "expansions joins subgraphs path ancestors s =
     (case s of
        None \<Rightarrow> Inr []
      | Some j \<Rightarrow> if \<not> truthy j then Inr []
                  else follow (nodes_of j) (call_sites joins subgraphs path ancestors 0))"
| "call_sites joins subgraphs path ancestors index [] = Inr []"
| "call_sites joins subgraphs path ancestors index ((n, address) # nodes) =
     (case address of
        None \<Rightarrow> call_sites joins subgraphs path ancestors (Suc index) nodes
      | Some a \<Rightarrow>
          follow
            (if a \<in> set ancestors then Inr (Expansion n a (site_key (path @ [index])) Cyclic None [])
             else
               (case map_of subgraphs a of
                  None \<Rightarrow> Inr (Expansion n a (site_key (path @ [index])) Unresolved None [])
                | Some child \<Rightarrow>
                    follow (layout joins (Some child)) (\<lambda>d.
                    follow (expansions joins subgraphs (path @ [index]) (ancestors @ [a]) (Some child)) (\<lambda>children.
                      Inr (Expansion n a (site_key (path @ [index])) Resolved d children))))) (\<lambda>entry.
          follow (call_sites joins subgraphs path ancestors (Suc index) nodes) (\<lambda>entries.
            Inr (entry # entries))))"
  by pat_completeness auto
termination
  by (relation "measures [\<lambda>x. case x of Inl (joins, subs, path, anc, s) \<Rightarrow> shut subs anc
        | Inr (joins, subs, path, anc, i, nodes) \<Rightarrow> shut subs anc,
      \<lambda>x. case x of Inl _ \<Rightarrow> 1 | Inr _ \<Rightarrow> 0,
      \<lambda>x. case x of Inl _ \<Rightarrow> 0 | Inr (joins, subs, path, anc, i, nodes) \<Rightarrow> length nodes]")
    (auto simp: shut_less)

section \<open>Keys\<close>

fun keys_below :: "expansion \<Rightarrow> string list" where
  "keys_below (Expansion n a k st d children) = k # concat (map keys_below children)"

definition all_keys :: "expansion list \<Rightarrow> string list" where
  "all_keys es = concat (map keys_below es)"

lemma show_nat_digits: "set (show_nat n) \<subseteq> char_of ` {48 :: nat..57}"
proof (induction n rule: show_nat.induct)
  case (1 n)
  have "char_of (48 + n mod 10) \<in> char_of ` {48 :: nat..57}" by (rule imageI) simp
  then show ?case using 1 by (subst show_nat.simps) auto
qed

lemma show_nat_no_dash: "CHR ''-'' \<notin> set (show_nat n)"
proof
  assume "CHR ''-'' \<in> set (show_nat n)"
  then obtain m where "m \<in> {48 :: nat..57}" "CHR ''-'' = char_of m" using show_nat_digits by blast
  then have "of_char (CHR ''-'') = m mod 256" by simp
  then show False using \<open>m \<in> _\<close> by simp
qed

lemma show_nat_not_Nil [simp]: "show_nat n \<noteq> []" "[] \<noteq> show_nat n"
  by (subst show_nat.simps, simp)+

lemma digit_char_inj:
  assumes "m < 10" "n < 10" "(char_of (48 + m) :: char) = char_of (48 + n :: nat)"
  shows "m = n"
proof -
  have "of_char (char_of (48 + m) :: char) = (of_char (char_of (48 + n) :: char) :: nat)" using assms(3) by (rule arg_cong)
  then show ?thesis using assms(1,2) by (simp add: of_char_of take_bit_eq_mod)
qed

lemma show_nat_inj: "show_nat m = show_nat n \<Longrightarrow> m = n"
proof (induction m arbitrary: n rule: show_nat.induct)
  case (1 m)
  show ?case
  proof (cases "m < 10 \<or> n < 10")
    case True
    then have "m < 10 \<and> n < 10" using 1(2) by (auto simp: show_nat.simps [of m] show_nat.simps [of n] split: if_splits)
    then show ?thesis using 1(2) digit_char_inj by (simp add: show_nat.simps [of m] show_nat.simps [of n])
  next
    case False
    then have "show_nat (m div 10) = show_nat (n div 10)" "(char_of (48 + m mod 10) :: char) = char_of (48 + n mod 10)"
      using 1(2) by (simp_all add: show_nat.simps [of m] show_nat.simps [of n])
    then have "m div 10 = n div 10" "m mod 10 = n mod 10" using 1(1) False digit_char_inj by simp_all
    then show ?thesis by (metis div_mult_mod_eq)
  qed
qed

lemma split_on_join: "ps \<noteq> [] \<Longrightarrow> \<forall>p \<in> set ps. c \<notin> set p \<Longrightarrow> split_on c (join_with [c] ps) = ps"
proof (induction ps rule: induct_list012)
  case (3 p q ps)
  then show ?case using split_on_append [of c p "join_with [c] (q # ps)"] by simp
qed (simp_all add: split_on_no_sep)

lemma site_key_inj:
  assumes "site_key p = site_key q" "p \<noteq> []" "q \<noteq> []"
  shows "p = q"
proof -
  have "map show_nat r = split_on (CHR ''-'') (join_with ''-'' (map show_nat r))" if "r \<noteq> []" for r
    using that by (intro split_on_join [symmetric]) (auto simp: show_nat_no_dash)
  then have "map show_nat p = map show_nat q" using assms by (metis same_append_eq site_key_def)
  then show ?thesis by (rule map_injective [OF _ injI]) (rule show_nat_inj)
qed

text \<open>The keys of the entries below a call site extend its path.\<close>

definition keyed :: "nat list \<Rightarrow> nat \<Rightarrow> expansion list \<Rightarrow> bool" where
  "keyed path index es \<longleftrightarrow>
     (\<exists>qs. all_keys es = map site_key qs \<and> distinct qs \<and> (\<forall>q \<in> set qs. \<exists>i rest. index \<le> i \<and> q = path @ i # rest))"

lemma keyed_Nil [simp]: "keyed path index []"
  by (simp add: keyed_def all_keys_def)

lemma keyed_later: "keyed path (Suc index) es \<Longrightarrow> keyed path index es"
  unfolding keyed_def by (meson Suc_leD)

lemma keyed_Cons:
  assumes "keyed (path @ [index]) 0 children" "keyed path (Suc index) es"
  shows "keyed path index (Expansion n a (site_key (path @ [index])) st d children # es)"
proof -
  obtain qs where qs: "all_keys children = map site_key qs" "distinct qs" "\<forall>q \<in> set qs. \<exists>i rest. q = (path @ [index]) @ i # rest"
    using assms(1) unfolding keyed_def by auto
  obtain rs where rs: "all_keys es = map site_key rs" "distinct rs" "\<forall>q \<in> set rs. \<exists>i rest. Suc index \<le> i \<and> q = path @ i # rest"
    using assms(2) unfolding keyed_def by auto
  have "path @ [index] \<notin> set qs" using qs(3) by auto
  moreover have "path @ [index] \<notin> set rs" using rs(3) by auto
  moreover have "set qs \<inter> set rs = {}"
  proof (rule equals0I)
    fix q assume "q \<in> set qs \<inter> set rs"
    then obtain i r i' r' where "q = (path @ [index]) @ i # r" "Suc index \<le> i'" "q = path @ i' # r'" using qs(3) rs(3) by blast
    then show False by simp
  qed
  ultimately have "distinct ((path @ [index]) # qs @ rs)" using qs(2) rs(2) by simp
  moreover have "\<forall>q \<in> set ((path @ [index]) # qs @ rs). \<exists>i rest. index \<le> i \<and> q = path @ i # rest"
  proof (intro ballI)
    fix q assume "q \<in> set ((path @ [index]) # qs @ rs)"
    then consider "q = path @ [index]" | "q \<in> set qs" | "q \<in> set rs" by auto
    then show "\<exists>i rest. index \<le> i \<and> q = path @ i # rest"
    proof cases
      case 2
      then show ?thesis using qs(3) by auto
    next
      case 3
      then show ?thesis using rs(3) Suc_leD by blast
    qed auto
  qed
  moreover have "all_keys (Expansion n a (site_key (path @ [index])) st d children # es) = map site_key ((path @ [index]) # qs @ rs)"
    using qs(1) rs(1) by (simp add: all_keys_def)
  ultimately show ?thesis unfolding keyed_def by blast
qed

lemma keys_extend:
  "expansions joins subgraphs path ancestors s = Inr es \<Longrightarrow> keyed path 0 es"
  "call_sites joins subgraphs path ancestors index nodes = Inr es \<Longrightarrow> keyed path index es"
proof (induction joins subgraphs path ancestors s and joins subgraphs path ancestors index nodes
    arbitrary: es and es rule: expansions_call_sites.induct)
  case (1 joins subgraphs path ancestors s)
  then show ?case by (auto simp: expansions.simps [of joins subgraphs path ancestors s] follow_Inr split: option.splits if_splits simp del: expansions.simps)
next
  case (2 joins subgraphs path ancestors index)
  then show ?case by simp
next
  case (3 joins subgraphs path ancestors index n address nodes)
  show ?case
  proof (cases address)
    case None
    then show ?thesis using 3 keyed_later by simp
  next
    case (Some a)
    then obtain entry rest where e: "es = entry # rest" "call_sites joins subgraphs path ancestors (Suc index) nodes = Inr rest"
        "(if a \<in> set ancestors then Inr (Expansion n a (site_key (path @ [index])) Cyclic None [])
             else
               (case map_of subgraphs a of
                  None \<Rightarrow> Inr (Expansion n a (site_key (path @ [index])) Unresolved None [])
                | Some child \<Rightarrow>
                    follow (layout joins (Some child)) (\<lambda>d.
                    follow (expansions joins subgraphs (path @ [index]) (ancestors @ [a]) (Some child)) (\<lambda>children.
                      Inr (Expansion n a (site_key (path @ [index])) Resolved d children))))) = Inr entry"
      using "3.prems" by (auto simp: follow_Inr simp del: expansions.simps)
    have rest: "keyed path (Suc index) rest" using "3.IH" e(2,3) Some by blast
    obtain st d children where "entry = Expansion n a (site_key (path @ [index])) st d children" "keyed (path @ [index]) 0 children"
      using e(3) "3.IH"(2) [OF Some] by (auto simp: follow_Inr split: if_splits option.splits simp del: expansions.simps)
    then show ?thesis using keyed_Cons rest e(1) by blast
  qed
qed

section \<open>Properties\<close>

lemma call_sites_entries:
  "call_sites joins subgraphs path ancestors index nodes = Inr es \<Longrightarrow>
   map (\<lambda>e. (ex_node e, Some (ex_address e))) es = filter (\<lambda>(n, a). a \<noteq> None) nodes"
proof (induction nodes arbitrary: index es)
  case (Cons node nodes)
  obtain n address where node: "node = (n, address)" by fastforce
  show ?case
  proof (cases address)
    case None
    then show ?thesis using Cons node by simp
  next
    case (Some a)
    then obtain entry rest where "es = entry # rest" "call_sites joins subgraphs path ancestors (Suc index) nodes = Inr rest"
        "ex_node entry = n" "ex_address entry = a"
      using Cons.prems node by (auto simp: follow_Inr split: if_splits option.splits simp del: expansions.simps)
    then show ?thesis using Cons.IH node Some by simp
  qed
qed simp

text \<open>
  C12. Each call site of a child structure can be opened on its own: the entries of a structure are its Nodes
  with a reference, in order, two references to one child staying two, and no two entries at any depth, cycles of
  references included, share the key that identifies them in the page.
\<close>

theorem call_sites_stay_apart:
  assumes "expansions joins subgraphs [] [] (Some j) = Inr es" "truthy j"
  shows "distinct (all_keys es) \<and>
    (\<exists>nodes. nodes_of j = Inr nodes \<and> map (\<lambda>e. (ex_node e, Some (ex_address e))) es = filter (\<lambda>(n, a). a \<noteq> None) nodes)"
proof -
  obtain qs :: "nat list list" where qs: "all_keys es = map site_key qs" "distinct qs" "\<forall>q \<in> set qs. q \<noteq> []"
    using keys_extend(1) [OF assms(1)] unfolding keyed_def by auto
  have "inj_on site_key (set qs)" using qs(3) by (auto intro!: inj_onI dest: site_key_inj)
  then have "distinct (all_keys es)" using qs(1,2) by (simp add: distinct_map)
  moreover obtain nodes where "nodes_of j = Inr nodes" "call_sites joins subgraphs [] [] 0 nodes = Inr es"
    using assms by (auto simp: expansions.simps [of joins subgraphs "[]" "[]" "Some j"] follow_Inr simp del: expansions.simps)
  ultimately show ?thesis using call_sites_entries by blast
qed

definition looping :: json where
  "looping = JObj [(''nodes'', JArr [JObj [(''id'', JStr ''a''), (''subgraphId'', JStr ''A'')], JObj [(''id'', JStr ''b''), (''subgraphId'', JStr ''A'')]]),
     (''edges'', JArr []), (''entryNodeIds'', JArr [JStr ''a''])]"

lemma looping_keys:
  "map_sum id all_keys (expansions (\<lambda>_. []) [(''A'', looping)] [] [] (Some looping)) =
   Inr [''subgraph-0'', ''subgraph-0-0'', ''subgraph-0-1'', ''subgraph-1'', ''subgraph-1-0'', ''subgraph-1-1'']"
  by code_simp

theorem call_sites_stay_apart_witness:
  "\<exists>es. all_keys es = [''subgraph-0'', ''subgraph-0-0'', ''subgraph-0-1'', ''subgraph-1'', ''subgraph-1-0'', ''subgraph-1-1''] \<and>
     distinct (all_keys es)"
proof -
  obtain es where es: "expansions (\<lambda>_. []) [(''A'', looping)] [] [] (Some looping) = Inr es"
      "all_keys es = [''subgraph-0'', ''subgraph-0-0'', ''subgraph-0-1'', ''subgraph-1'', ''subgraph-1-0'', ''subgraph-1-1'']"
    using looping_keys by (cases "expansions (\<lambda>_. []) [(''A'', looping)] [] [] (Some looping)") (auto simp del: expansions.simps)
  have "truthy looping" by (simp add: looping_def)
  then show ?thesis using call_sites_stay_apart [OF es(1)] es(2) by blast
qed

end
