(* ===== verification/Web_Overlay.thy ===== *)
theory Web_Overlay
  imports Web_Expansions Web_Urls "HOL-Library.Sublist"
begin

text \<open>
  One Run on its Graph's picture (\<^verbatim>\<open>run_topology\<close>), its timeline, its summary and the filter of the list of Runs
  (\<^verbatim>\<open>web/presentation.py\<close>). \<^verbatim>\<open>str\<close> of a JSON value is a parameter.
\<close>

section \<open>Steps with their nested Steps\<close>

datatype shown_step = Shown_Step (ss_step: step_rec) (ss_children: "shown_step list")

text \<open>The records of a Step and the Steps below it as one value; the fuel bounds the depth of the nesting.\<close>

primrec nest :: "nat \<Rightarrow> step_rec dict \<Rightarrow> step_rec \<Rightarrow> shown_step" where
  "nest 0 steps s = Shown_Step s []"
| "nest (Suc n) steps s = Shown_Step s (map (nest n steps) (List.map_filter (map_of steps) (sr_children s)))"

definition run_steps :: "step_rec dict \<Rightarrow> run_entry \<Rightarrow> shown_step list" where
  "run_steps steps r = map (nest (length steps) steps) (top_steps steps r)"

section \<open>The overlay\<close>

datatype node_status = Not_Observed | Paused | Repeated | Failed_Node | Passed_Node

definition node_status :: "shown_step list \<Rightarrow> node_status" where
  "node_status node_steps =
     (case node_steps of
        [] \<Rightarrow> Not_Observed
      | s # rest \<Rightarrow>
          if list_ex (\<lambda>s. sr_awaiting (ss_step s)) node_steps then Paused
          else if rest \<noteq> [] then Repeated
          else if sr_outcome (ss_step s) \<in> {JStr ''failed'', JStr ''halted''} then Failed_Node else Passed_Node)"

record overlay_node =
  on_id :: string
  on_at :: position
  on_steps :: "shown_step list"
  on_status :: node_status

datatype overlay = Overlay (ov_diagram: diagram) (ov_nodes: "overlay_node list") (ov_unmatched: "shown_step list")
  (ov_calls: "child_call list")
and child_call = Child_Call (cc_node: string) (cc_occurrence: nat) (cc_key: string) (cc_address: "string option")
  (cc_status: call_status) (cc_diagram: "overlay option") (cc_calls: "child_call list")

text \<open>\<^verbatim>\<open>"run-subgraph-" + "-".join(map(str, path + (node["id"], occurrence)))\<close>\<close>

definition call_key :: "string list \<Rightarrow> string" where
  "call_key path = ''run-subgraph-'' @ join_with ''-'' path"

definition step_name :: "shown_step \<Rightarrow> json" where
  "step_name s = sr_node (ss_step s)"

definition by_node :: "shown_step list \<Rightarrow> (json \<times> shown_step list) list" where
  "by_node steps = fold (\<lambda>s. append_at (step_name s) s) steps []"

text \<open>\<^verbatim>\<open>subgraph_by_node.get(node["id"])\<close>\<close>

definition address_of :: "(string \<times> string option) list \<Rightarrow> string \<Rightarrow> string option" where
  "address_of nodes n = (case map_of (rev nodes) n of Some (Some a) \<Rightarrow> Some a | _ \<Rightarrow> None)"

text \<open>The occurrences of a Node that carry nested Steps, in order.\<close>

definition nested_calls :: "shown_step list \<Rightarrow> string list \<Rightarrow> (string \<times> nat \<times> shown_step) list" where
  "nested_calls steps ids =
     concat (map (\<lambda>n. map (\<lambda>(k, s). (n, k, s)) (filter (\<lambda>(k, s). ss_children s \<noteq> []) (enumerate 0 (get_list (by_node steps) (JStr n))))) ids)"

definition overlay_nodes :: "shown_step list \<Rightarrow> (string \<times> position) list \<Rightarrow> overlay_node list" where
  "overlay_nodes steps nodes =
     map (\<lambda>(n, p). let s = get_list (by_node steps) (JStr n) in
       \<lparr>on_id = n, on_at = p, on_steps = s, on_status = node_status s\<rparr>) nodes"

definition unmatched_steps :: "shown_step list \<Rightarrow> string list \<Rightarrow> shown_step list" where
  "unmatched_steps steps ids = concat (map snd (filter (\<lambda>ng. fst ng \<notin> JStr ` set ids) (by_node steps)))"

lemma map_all_cong [fundef_cong]: "xs = ys \<Longrightarrow> (\<And>x. x \<in> set ys \<Longrightarrow> f x = g x) \<Longrightarrow> map_all f xs = map_all g ys"
  by (induction ys arbitrary: xs) auto

lemma get_by_node: "get_list (by_node steps) name = filter (\<lambda>s. step_name s = name) steps"
  by (simp add: by_node_def get_list_grouped)

lemma nested_calls_smaller:
  assumes "(n, k, s) \<in> set (nested_calls steps ids)"
  shows "size_list size (ss_children s) < size_list size steps"
proof -
  have "s \<in> set steps" using assms by (auto simp: nested_calls_def get_by_node in_set_enumerate_eq dest!: nth_mem)
  then have "size s \<le> size_list size steps" by (rule size_list_estimation') simp
  moreover have "size_list size (ss_children s) < size s" by (cases s) simp
  ultimately show ?thesis by simp
qed

function run_topology ::
  "(json \<Rightarrow> json list) \<Rightarrow> json dict \<Rightarrow> string list \<Rightarrow> json option \<Rightarrow> shown_step list \<Rightarrow> exn + overlay option" where
  "run_topology joins subgraphs path s steps =
     (case s of
        None \<Rightarrow> Inr None
      | Some j \<Rightarrow>
          follow (layout joins (Some j)) (\<lambda>d.
          case d of
            None \<Rightarrow> Inr None
          | Some dg \<Rightarrow>
              follow (nodes_of j) (\<lambda>nodes.
              follow
                (map_all (\<lambda>(n, k, st).
                   let key = call_key (path @ [n, show_nat k]); address = address_of nodes n in
                   case address of
                     None \<Rightarrow> Inr (Child_Call n k key address Undeclared None [])
                   | Some a \<Rightarrow>
                       (case map_of subgraphs a of
                          None \<Rightarrow> Inr (Child_Call n k key address Unresolved None [])
                        | Some child \<Rightarrow>
                            follow (run_topology joins subgraphs (path @ [n, show_nat k]) (Some child) (ss_children st)) (\<lambda>nested.
                              Inr (Child_Call n k key address Resolved nested
                                (case nested of None \<Rightarrow> [] | Some ov \<Rightarrow> ov_calls ov)))))
                  (nested_calls steps (map fst (dg_nodes dg)))) (\<lambda>calls.
                Inr (Some (Overlay dg (overlay_nodes steps (dg_nodes dg)) (unmatched_steps steps (map fst nodes)) calls))))))"
  by pat_completeness auto
termination
  by (relation "measure (\<lambda>(joins, subgraphs, path, s, steps). size_list size steps)") (auto dest: nested_calls_smaller)

section \<open>The timeline\<close>

record bar =
  ba_label :: string
  ba_kind :: string
  ba_start :: int
  ba_end :: int
  ba_duration :: int
  ba_left :: rat
  ba_width :: rat

definition bar_of :: "run_rec \<Rightarrow> string \<Rightarrow> string \<Rightarrow> int \<Rightarrow> int \<Rightarrow> bar" where
  "bar_of r label kind start stop =
     (let extent = rr_end r - rr_start r; share = (\<lambda>n. if extent = 0 then 0 else of_int (100 * n) / of_int extent) in
      \<lparr>ba_label = label, ba_kind = kind, ba_start = start, ba_end = stop, ba_duration = stop - start, ba_left = share (start - rr_start r),
       ba_width = share (stop - start)\<rparr>)"

definition step_bars :: "(json \<Rightarrow> string) \<Rightarrow> run_rec \<Rightarrow> step_rec \<Rightarrow> exn + bar list" where
  "step_bars str r s =
     follow (text_of (sr_node s)) (\<lambda>node.
       Inr ((case sr_wait s of None \<Rightarrow> [] | Some w \<Rightarrow> [bar_of r ''Approval wait'' ''wait'' (sr_start s - w) (sr_start s)]) @
         bar_of r (''Step '' @ node) ''step'' (sr_start s) (sr_end s) #
         map (\<lambda>a. bar_of r (''Attempt '' @ str (ar_number a)) ''attempt'' (ar_start a) (ar_end a)) (sr_attempts s)))"

definition timeline :: "(json \<Rightarrow> string) \<Rightarrow> step_rec dict \<Rightarrow> web_run \<Rightarrow> exn + bar list" where
  "timeline str steps run =
     (case run of
        Live v \<Rightarrow> Inr []
      | Recorded r \<Rightarrow>
          follow (collect_all (step_bars str (re_rec r)) (top_steps steps r)) (\<lambda>bars.
            Inr (bar_of (re_rec r) ''Run'' ''run'' (rr_start (re_rec r)) (rr_end (re_rec r)) # bars)))"

section \<open>The summary and the filter\<close>

definition LIVE_STATUS_PURPOSE :: "string dict" where
  "LIVE_STATUS_PURPOSE =
     [(''pending'', ''queued''), (''running'', ''in progress''), (''interrupted'', ''waiting on approval''),
      (''success'', ''finished successfully''), (''error'', ''failed''), (''timeout'', ''timed out'')]"

definition live_purpose :: "(json \<Rightarrow> string) \<Rightarrow> json \<Rightarrow> string" where
  "live_purpose str status =
     (case (case status of JStr s \<Rightarrow> map_of LIVE_STATUS_PURPOSE s | _ \<Rightarrow> None) of
        Some p \<Rightarrow> p
      | None \<Rightarrow> if truthy status then str status else ''unknown status'')"

definition scenario_summary :: "(json \<Rightarrow> string) \<Rightarrow> step_rec dict \<Rightarrow> web_run \<Rightarrow> exn + string" where
  "scenario_summary str steps run =
     (case run of
        Live v \<Rightarrow> Inr (''Run: '' @ live_purpose str (lv_status v))
      | Recorded r \<Rightarrow>
          let top = top_steps steps r; attempts = concat (map (\<lambda>s. map ar_outcome (sr_attempts s)) top) in
          if list_ex (\<lambda>s. sr_outcome s = JStr ''awaiting_approval'' \<or> sr_awaiting s) top
          then Inr ''Recorded Run: paused, awaiting approval''
          else
            (case attempts of
               [] \<Rightarrow> Inr ''Recorded Run: no declared Step outcomes''
             | [a] \<Rightarrow> Inr (''Recorded Run: '' @ str a)
             | _ \<Rightarrow> follow (map_all text_of attempts) (\<lambda>texts.
                 Inr (''Recorded Run: '' @ show_nat (length attempts) @ '' Attempts ('' @ join_with '', '' texts @ '')''))))"

definition run_subject :: "web_run \<Rightarrow> string" where
  "run_subject run =
     (case run of Recorded r \<Rightarrow> re_subject_id r | Live v \<Rightarrow> (case lv_subject v of None \<Rightarrow> [] | Some s \<Rightarrow> s))"

definition run_outcomes :: "step_rec dict \<Rightarrow> web_run \<Rightarrow> json list" where
  "run_outcomes steps run =
     (case run of
        Live v \<Rightarrow> []
      | Recorded r \<Rightarrow> map sr_outcome (top_steps steps r) @ concat (map (\<lambda>s. map ar_outcome (sr_attempts s)) (top_steps steps r)))"

definition run_matches :: "step_rec dict \<Rightarrow> web_run \<Rightarrow> string \<Rightarrow> string \<Rightarrow> bool" where
  "run_matches steps run subject status =
     ((subject = [] \<or> sublist subject (run_subject run)) \<and>
      (status = [] \<or> (case run of Live v \<Rightarrow> lv_status v = JStr status | Recorded r \<Rightarrow> False) \<or>
       JStr status \<in> set (run_outcomes steps run)))"

section \<open>What an overlay shows\<close>

lemma nodes_same: "structure_of joins j = Inr st \<Longrightarrow> nodes_of j = Inr (sn_nodes st)"
  by (auto simp: structure_of_def nodes_of_def follow_Inr)

lemma layout_nodes:
  assumes "layout joins (Some j) = Inr (Some d)"
  shows "\<exists>st. structure_of joins j = Inr st \<and> map fst (dg_nodes d) = node_ids st"
proof -
  obtain st where st: "structure_of joins j = Inr st" "layout_structure st = Inr d"
    using assms by (auto simp: layout_def follow_Inr split: if_splits)
  obtain depths where dr: "draw st depths = Inr d"
    using st(2) by (auto simp: layout_structure_def follow_Inr split: option.splits)
  then have "list_all2 (\<lambda>n np. fst np = n) (node_ids st) (dg_nodes d)"
    by (auto simp: draw_def Let_def follow_Inr map_all_Inr elim!: list_all2_mono)
  then have "map fst (dg_nodes d) = node_ids st" by (induction rule: list_all2_induct) simp_all
  then show ?thesis using st(1) by blast
qed

lemma by_node_distinct: "distinct (map fst (by_node steps))"
  unfolding by_node_def by (rule grouped_distinct) simp

lemma unmatched_filter:
  "unmatched_steps steps ids = concat (map (\<lambda>name. filter (\<lambda>s. step_name s = name) steps) (filter (\<lambda>name. name \<notin> JStr ` set ids) (map fst (by_node steps))))"
proof -
  have group: "snd ng = filter (\<lambda>s. step_name s = fst ng) steps" if "ng \<in> set (by_node steps)" for ng
  proof -
    have "map_of (by_node steps) (fst ng) = Some (snd ng)" using that by_node_distinct by (intro map_of_is_SomeI) simp_all
    then show ?thesis using get_by_node [of steps "fst ng"] by (simp add: get_list_def)
  qed
  have "map snd (filter (\<lambda>ng. fst ng \<notin> JStr ` set ids) (by_node steps)) =
      map (\<lambda>ng. filter (\<lambda>s. step_name s = fst ng) steps) (filter (\<lambda>ng. fst ng \<notin> JStr ` set ids) (by_node steps))"
    using group by (intro map_cong) auto
  from arg_cong [OF this, of concat] show ?thesis unfolding unmatched_steps_def filter_map by (simp add: comp_def)
qed

lemma overlay_partition:
  assumes "distinct ids"
  shows "mset (concat (map (\<lambda>n. filter (\<lambda>s. step_name s = JStr n) steps) ids) @ unmatched_steps steps ids) = mset steps"
proof -
  let ?rest = "filter (\<lambda>name. name \<notin> JStr ` set ids) (map fst (by_node steps))"
  have names: "step_name ` set steps = fst ` set (by_node steps)" by (simp add: by_node_def grouped_keys)
  have "mset (concat (map (\<lambda>k. filter (\<lambda>s. step_name s = k) steps) (map JStr ids @ ?rest))) = mset steps"
  proof (rule mset_by_key)
    show "distinct (map JStr ids @ ?rest)" using assms by_node_distinct [of steps] by (auto simp: distinct_map inj_on_def)
    show "step_name ` set steps \<subseteq> set (map JStr ids @ ?rest)" unfolding names by auto
  qed
  then show ?thesis by (simp add: unmatched_filter comp_def)
qed

text \<open>
  What a call's entry shows: when the reference is resolved, the overlay of just the Step's nested Steps on the
  referenced structure.
\<close>

definition call_shows :: "(json \<Rightarrow> json list) \<Rightarrow> json dict \<Rightarrow> string list \<Rightarrow> shown_step \<Rightarrow> child_call \<Rightarrow> bool" where
  "call_shows joins subgraphs path st c \<longleftrightarrow> cc_key c = call_key (path @ [cc_node c, show_nat (cc_occurrence c)]) \<and>
     (if cc_status c = Resolved
      then \<exists>a child. cc_address c = Some a \<and> map_of subgraphs a = Some child \<and>
        run_topology joins subgraphs (path @ [cc_node c, show_nat (cc_occurrence c)]) (Some child) (ss_children st) = Inr (cc_diagram c)
      else cc_diagram c = None)"

lemma run_topology_Some:
  assumes "run_topology joins subgraphs path (Some j) steps = Inr (Some ov)"
  shows "\<exists>dg nodes calls. layout joins (Some j) = Inr (Some dg) \<and> nodes_of j = Inr nodes \<and>
    ov = Overlay dg (overlay_nodes steps (dg_nodes dg)) (unmatched_steps steps (map fst nodes)) calls \<and>
    list_all2 (\<lambda>(n, k, st) c. cc_node c = n \<and> cc_occurrence c = k \<and> call_shows joins subgraphs path st c)
      (nested_calls steps (map fst (dg_nodes dg))) calls"
  using assms
  by (auto simp: run_topology.simps [of joins subgraphs path "Some j" steps] follow_Inr map_all_Inr Let_def
      call_shows_def simp del: run_topology.simps split: option.splits elim!: list_all2_mono)

text \<open>
  C10. A Run on its Graph's picture shows every Step once and guesses none: each Node lists the Steps recorded with
  its very name, in their order, and the others are listed as unmatched, so nothing is lost or doubled; each
  listed Step with nested Steps has one entry of its own, which, when the Node's reference is resolved, is the
  overlay of just those nested Steps on the referenced structure, and has no picture otherwise.
\<close>

theorem every_step_overlaid:
  assumes "run_topology joins subgraphs path (Some j) steps = Inr (Some ov)" "structure_of joins j = Inr st" "distinct (node_ids st)"
  shows "map on_id (ov_nodes ov) = node_ids st \<and>
    mset (concat (map on_steps (ov_nodes ov)) @ ov_unmatched ov) = mset steps \<and>
    (\<forall>v \<in> set (ov_nodes ov). on_steps v = filter (\<lambda>s. step_name s = JStr (on_id v)) steps) \<and>
    map (\<lambda>c. (cc_node c, cc_occurrence c)) (ov_calls ov) =
      concat (map (\<lambda>v. map (Pair (on_id v)) (filter (\<lambda>k. ss_children (on_steps v ! k) \<noteq> []) [0..<length (on_steps v)])) (ov_nodes ov)) \<and>
    (\<forall>c \<in> set (ov_calls ov). \<exists>v \<in> set (ov_nodes ov). on_id v = cc_node c \<and> cc_occurrence c < length (on_steps v) \<and>
       call_shows joins subgraphs path (on_steps v ! cc_occurrence c) c)"
proof -
  obtain dg nodes calls where dg: "layout joins (Some j) = Inr (Some dg)" and nodes: "nodes_of j = Inr nodes"
    and ov: "ov = Overlay dg (overlay_nodes steps (dg_nodes dg)) (unmatched_steps steps (map fst nodes)) calls"
    and calls: "list_all2 (\<lambda>(n, k, st) c. cc_node c = n \<and> cc_occurrence c = k \<and> call_shows joins subgraphs path st c)
      (nested_calls steps (map fst (dg_nodes dg))) calls"
    using run_topology_Some [OF assms(1)] by blast
  have ids: "map fst (dg_nodes dg) = node_ids st" "map fst nodes = node_ids st"
    using layout_nodes [OF dg] assms(2) nodes_same [OF assms(2)] nodes by (auto simp: node_ids_def)
  have each: "map on_id (ov_nodes ov) = node_ids st"
    "map on_steps (ov_nodes ov) = map (\<lambda>n. filter (\<lambda>s. step_name s = JStr n) steps) (node_ids st)"
    unfolding ids(1) [symmetric] by (simp_all add: ov overlay_nodes_def Let_def comp_def case_prod_beta get_by_node)
  have lists: "on_steps v = filter (\<lambda>s. step_name s = JStr (on_id v)) steps" if "v \<in> set (ov_nodes ov)" for v
    using that by (auto simp: ov overlay_nodes_def Let_def get_by_node)
  have enum: "enumerate 0 xs = map (\<lambda>k. (k, xs ! k)) [0..<length xs]" for xs :: "shown_step list"
    by (rule nth_equalityI) (simp_all add: nth_enumerate_eq)
  have sites: "nested_calls steps (node_ids st) =
      concat (map (\<lambda>v. map (\<lambda>k. (on_id v, k, on_steps v ! k)) (filter (\<lambda>k. ss_children (on_steps v ! k) \<noteq> []) [0..<length (on_steps v)])) (ov_nodes ov))"
    unfolding ids(1) [symmetric] nested_calls_def ov
    by (simp add: overlay_nodes_def Let_def comp_def case_prod_beta enum filter_map)
  have "map (\<lambda>c. (cc_node c, cc_occurrence c)) calls = map (\<lambda>(n, k, st). (n, k)) (nested_calls steps (map fst (dg_nodes dg)))"
    using calls by (induction rule: list_all2_induct) auto
  then have "map (\<lambda>c. (cc_node c, cc_occurrence c)) (ov_calls ov) =
      concat (map (\<lambda>v. map (Pair (on_id v)) (filter (\<lambda>k. ss_children (on_steps v ! k) \<noteq> []) [0..<length (on_steps v)])) (ov_nodes ov))"
    unfolding ids(1) sites by (simp add: ov map_concat comp_def)
  moreover have "mset (concat (map on_steps (ov_nodes ov)) @ ov_unmatched ov) = mset steps"
    using overlay_partition [OF assms(3), of steps] unfolding each(2) by (simp add: ov ids(2))
  moreover have "\<exists>v \<in> set (ov_nodes ov). on_id v = cc_node c \<and> cc_occurrence c < length (on_steps v) \<and>
       call_shows joins subgraphs path (on_steps v ! cc_occurrence c) c" if c: "c \<in> set (ov_calls ov)" for c
  proof -
    have "c \<in> set calls" using c by (simp add: ov)
    then obtain i where i: "i < length calls" "c = calls ! i" by (auto simp: in_set_conv_nth)
    let ?site = "nested_calls steps (node_ids st) ! i"
    have R: "case ?site of (n, k, st) \<Rightarrow> cc_node c = n \<and> cc_occurrence c = k \<and> call_shows joins subgraphs path st c"
      using list_all2_nthD2 [OF calls i(1)] unfolding ids(1) i(2) by (simp add: case_prod_beta)
    have "?site \<in> set (nested_calls steps (node_ids st))"
      using i(1) list_all2_lengthD [OF calls] unfolding ids(1) by (intro nth_mem) simp
    then obtain v k where "v \<in> set (ov_nodes ov)" "k < length (on_steps v)" "?site = (on_id v, k, on_steps v ! k)"
      unfolding sites by auto
    then show ?thesis using R by (intro bexI [of _ v]) (simp_all del: run_topology.simps)
  qed
  ultimately show ?thesis using each(1) lists by blast
qed

text \<open>A Run with two Steps of one Node and one of no Node; nested Steps for the keys of call sites.\<close>

definition demo_step :: "string \<Rightarrow> shown_step list \<Rightarrow> shown_step" where
  "demo_step node inner = Shown_Step \<lparr>sr_span_id = [], sr_node = JStr node, sr_outcome = JStr ''passed'', sr_start = 1, sr_end = 2,
     sr_resumed_from = None, sr_repeated = False, sr_attempts = [], sr_children = [], sr_wait = None, sr_awaiting = False\<rparr> inner"

definition demo_shown :: "shown_step list" where
  "demo_shown = [demo_step ''b'' [], demo_step ''z'' [], demo_step ''b'' [demo_step ''c'' []]]"

lemma demo_overlay:
  "map_sum id (map_option (\<lambda>ov. (map (length \<circ> on_steps) (ov_nodes ov), length (ov_unmatched ov), map cc_status (ov_calls ov))))
     (run_topology (\<lambda>_. []) [] [] (Some demo_structure) demo_shown) = Inr (Some ([0, 2, 0], 1, [Undeclared]))"
  by code_simp

theorem every_step_overlaid_witness:
  "\<exists>ov. run_topology (\<lambda>_. []) [] [] (Some demo_structure) demo_shown = Inr (Some ov) \<and> map on_id (ov_nodes ov) = [''a'', ''b'', ''c''] \<and>
     mset (concat (map on_steps (ov_nodes ov)) @ ov_unmatched ov) = mset demo_shown"
proof -
  obtain ov where ov: "run_topology (\<lambda>_. []) [] [] (Some demo_structure) demo_shown = Inr (Some ov)"
    using demo_overlay by (cases "run_topology (\<lambda>_. []) [] [] (Some demo_structure) demo_shown") (auto simp del: run_topology.simps)
  obtain st where st: "structure_of (\<lambda>_. []) demo_structure = Inr st" "node_ids st = [''a'', ''b'', ''c'']"
    by (auto simp: structure_of_def demo_structure_def items_of_def field_def iter_json_def node_of_def str_field_def get_attr_def
        link_of_def entry_of_def node_ids_def)
  show ?thesis using every_step_overlaid [OF ov st(1)] ov st(2) by (auto simp del: run_topology.simps)
qed

text \<open>
  The key of a nested call site can be that of another one, since a Node id may hold dashes: on the structure
  below, the second visit of Node \<^verbatim>\<open>a-0-b\<close> and the second visit of the child's Node \<^verbatim>\<open>b\<close> in the first of \<^verbatim>\<open>a\<close>.
\<close>

definition dashed :: json where
  "dashed = JObj [(''nodes'', JArr [JObj [(''id'', JStr ''a''), (''subgraphId'', JStr ''A'')], JObj [(''id'', JStr ''a-0-b'')]]),
     (''edges'', JArr []), (''entryNodeIds'', JArr [])]"

definition dashed_child :: json where
  "dashed_child = JObj [(''nodes'', JArr [JObj [(''id'', JStr ''b'')]]), (''edges'', JArr []), (''entryNodeIds'', JArr [])]"

lemma call_keys_collide:
  "map_sum id (map_option (\<lambda>ov. map (\<lambda>c. (cc_key c, map cc_key (cc_calls c))) (ov_calls ov)))
     (run_topology (\<lambda>_. []) [(''A'', dashed_child)] [] (Some dashed)
       [demo_step ''a'' [demo_step ''b'' [], demo_step ''b'' [demo_step ''c'' []]], demo_step ''a-0-b'' [], demo_step ''a-0-b'' [demo_step ''c'' []]]) =
   Inr (Some [(''run-subgraph-a-0'', [''run-subgraph-a-0-b-1'']), (''run-subgraph-a-0-b-1'', [])])"
  by code_simp

lemma step_bars_of:
  assumes "step_bars str r c = Inr bs" "b \<in> set bs"
  shows "\<exists>label kind start stop. b = bar_of r label kind start stop \<and>
    (stop = sr_start c \<or> stop = sr_end c \<or> stop \<in> ar_end ` set (sr_attempts c))"
proof -
  obtain node where bs: "bs = (case sr_wait c of None \<Rightarrow> [] | Some w \<Rightarrow> [bar_of r ''Approval wait'' ''wait'' (sr_start c - w) (sr_start c)]) @
         bar_of r (''Step '' @ node) ''step'' (sr_start c) (sr_end c) #
         map (\<lambda>a. bar_of r (''Attempt '' @ str (ar_number a)) ''attempt'' (ar_start a) (ar_end a)) (sr_attempts c)"
    using assms(1) by (auto simp: step_bars_def follow_Inr)
  then consider w where "b = bar_of r ''Approval wait'' ''wait'' (sr_start c - w) (sr_start c)"
    | "b = bar_of r (''Step '' @ node) ''step'' (sr_start c) (sr_end c)"
    | a where "a \<in> set (sr_attempts c)" "b = bar_of r (''Attempt '' @ str (ar_number a)) ''attempt'' (ar_start a) (ar_end a)"
    using assms(2) by (cases "sr_wait c") auto
  then show ?thesis by cases blast+
qed

lemma top_step_ends:
  assumes "read_spans paths = Inr spans" "build_execution_tree spans = Inr t" "(i, r) \<in> set (tr_runs t)"
    "re_rec e = r" "c \<in> set (top_steps (tr_steps t) e)"
  shows "sr_end c \<le> rr_end r \<and> sr_start c \<le> sr_end c \<and> (\<forall>a \<in> set (sr_attempts c). ar_end a \<le> rr_end r)"
proof -
  have idx: "index_ok spans" by (rule read_spans_ok [OF assms(1)])
  obtain t0 where p: "placed spans {} t0" and t: "t = finish_tree t0" using placed_tree [OF idx assms(2)] by blast
  obtain r0 where fin: "(i, r) = finish_run (tr_steps t) (i, r0\<lparr>rr_steps := rr_steps r\<rparr>)"
    using finish_tree_run assms(3) t by metis
  let ?q = "r0\<lparr>rr_steps := rr_steps r\<rparr>"
  obtain k where k: "k \<in> set (rr_steps r)" "map_of (tr_steps t) k = Some c"
    using assms(4,5) by (auto simp: top_steps_def map_filter_def)
  then have "(k, c) \<in> set (tr_steps t)" by (simp add: map_of_SomeD)
  then obtain c0 where c0: "(k, c0) \<in> set (tr_steps t0)" "sr_start c = sr_start c0" "sr_end c = sr_end c0"
    using finish_tree_step t by metis
  then have "step_of spans k c0" using p by (auto simp: placed_def)
  then obtain s where s: "span_at spans k s Step_Role" "sr_start c = span_start s" "sr_end c = span_end s"
    using c0 by (auto simp: step_of_def)
  obtain l where "(k, (s, l)) \<in> set spans" using s(1) by (auto simp: span_at_def dest: map_of_SomeD)
  then have "normal_span k s" using idx by (auto simp: index_ok_def)
  then have start: "sr_start c \<le> sr_end c" using s by (auto simp: normal_span_def span_start_def span_end_def)
  obtain n where n: "length (tr_steps t) = Suc n" using k(2) by (cases "tr_steps t") auto
  have "c \<in> set (steps_below (tr_steps t) ?q)"
    using k n by (force simp: steps_below_def map_filter_def)
  then have "sr_end c \<le> Max (set (rr_end ?q # map sr_end (steps_below (tr_steps t) ?q) @
      concat (map (\<lambda>s. map ar_end (sr_attempts s)) (steps_below (tr_steps t) ?q)))) \<and>
    (\<forall>a \<in> set (sr_attempts c). ar_end a \<le> Max (set (rr_end ?q # map sr_end (steps_below (tr_steps t) ?q) @
      concat (map (\<lambda>s. map ar_end (sr_attempts s)) (steps_below (tr_steps t) ?q)))))"
    by (intro conjI ballI Max_ge) auto
  then show ?thesis using start finish_run_simps(1) [of "tr_steps t" i ?q] fin [symmetric] by simp
qed

text \<open>
  C13. No bar of a Run's timeline runs past its right edge: everything drawn for a recorded Run, its approval
  waits included, ends with the Run's bar at the latest.
\<close>

theorem no_bar_outruns_its_run:
  assumes "read_spans paths = Inr spans" "build_execution_tree spans = Inr t" "(i, r) \<in> set (tr_runs t)"
    "run_entry_of (i, r) = Inr e" "timeline str (tr_steps t) (Recorded e) = Inr bars"
  shows "\<forall>b \<in> set bars. ba_end b \<le> rr_end r \<and> (rr_start r < rr_end r \<longrightarrow> ba_left b + ba_width b \<le> 100)"
proof -
  have e: "re_rec e = r" using assms(4) by (auto simp: run_entry_of_def Let_def follow_Inr)
  have inside: "ba_end b \<le> rr_end r \<and> (rr_start r < rr_end r \<longrightarrow> ba_left b + ba_width b \<le> 100)"
    if b: "b = bar_of r label kind start stop" "stop \<le> rr_end r" for b label kind start stop
  proof -
    have "ba_left b + ba_width b \<le> 100" if pos: "rr_start r < rr_end r"
    proof -
      have "ba_left b + ba_width b = of_int (100 * (stop - rr_start r)) / of_int (rr_end r - rr_start r)"
        using pos b(1) by (simp add: bar_of_def Let_def add_divide_distrib [symmetric] algebra_simps)
      moreover have "(of_int (100 * (stop - rr_start r)) :: rat) \<le> of_int (100 * (rr_end r - rr_start r))" unfolding of_int_le_iff by (rule mult_left_mono) (use b(2) in auto)
      moreover have "(0 :: rat) < of_int (rr_end r - rr_start r)" using pos by simp
      ultimately show ?thesis by (simp add: pos_divide_le_eq)
    qed
    then show ?thesis using b by (simp add: bar_of_def Let_def)
  qed
  have steps: "sr_end c \<le> rr_end r" "sr_start c \<le> sr_end c" "a \<in> set (sr_attempts c) \<Longrightarrow> ar_end a \<le> rr_end r"
    if "c \<in> set (top_steps (tr_steps t) e)" for c a
    using top_step_ends [OF assms(1-3) e that] by blast+
  obtain rest where rest: "collect_all (step_bars str r) (top_steps (tr_steps t) e) = Inr rest"
      "bars = bar_of r ''Run'' ''run'' (rr_start r) (rr_end r) # rest"
    using assms(5) e by (auto simp: timeline_def follow_Inr)
  have "ba_end b \<le> rr_end r \<and> (rr_start r < rr_end r \<longrightarrow> ba_left b + ba_width b \<le> 100)" if b: "b \<in> set rest" for b
  proof -
    obtain c bs where c: "c \<in> set (top_steps (tr_steps t) e)" "step_bars str r c = Inr bs" "b \<in> set bs"
      using b unfolding collect_all_mem [OF rest(1)] by blast
    then obtain label kind start stop where b: "b = bar_of r label kind start stop" and
        stop: "stop = sr_start c \<or> stop = sr_end c \<or> stop \<in> ar_end ` set (sr_attempts c)"
      using step_bars_of by blast
    have "stop \<le> rr_end r" using stop steps(1,2) [OF c(1)] steps(3) [OF c(1)] by auto
    then show ?thesis using inside [OF b] by blast
  qed
  moreover have "ba_end b \<le> rr_end r \<and> (rr_start r < rr_end r \<longrightarrow> ba_left b + ba_width b \<le> 100)"
    if "b = bar_of r ''Run'' ''run'' (rr_start r) (rr_end r)" for b using inside [OF that] by simp
  ultimately show ?thesis using rest(2) by auto
qed

lemma demo_bars:
  "map_sum id (\<lambda>t. map (\<lambda>ir. map_sum id (\<lambda>e. map_sum id (map (\<lambda>b. (ba_start b, ba_end b))) (timeline (\<lambda>_. []) (tr_steps t) (Recorded e)))
     (run_entry_of ir)) (tr_runs t)) (build_execution_tree demo_spans) = Inr [Inr (Inr [(5, 9), (5, 9), (5, 9)])]"
  by code_simp

theorem no_bar_outruns_its_run_witness:
  "\<exists>(t :: tree) e (r :: run_rec) bars. timeline (\<lambda>_. []) (tr_steps t) (Recorded e) = Inr bars \<and> map (\<lambda>b. (ba_start b, ba_end b)) bars = [(5, 9), (5, 9), (5, 9)] \<and>
     (\<forall>b \<in> set bars. ba_end b \<le> rr_end r)"
proof -
  obtain t where t: "build_execution_tree demo_spans = Inr t"
    using demo_bars by (cases "build_execution_tree demo_spans") auto
  then obtain i r where r: "tr_runs t = [(i, r)]" using demo_bars by auto
  obtain e where e: "run_entry_of (i, r) = Inr e" using demo_bars t r by (cases "run_entry_of (i, r)") auto
  obtain bars where bars: "timeline (\<lambda>_. []) (tr_steps t) (Recorded e) = Inr bars" "map (\<lambda>b. (ba_start b, ba_end b)) bars = [(5, 9), (5, 9), (5, 9)]"
    using demo_bars t r e by (cases "timeline (\<lambda>_. []) (tr_steps t) (Recorded e)") auto
  have "(i, r) \<in> set (tr_runs t)" using r by simp
  from no_bar_outruns_its_run [OF demo_read t this e bars(1)] have "\<forall>b \<in> set bars. ba_end b \<le> rr_end r" by auto
  then show ?thesis using bars by (intro exI conjI)
qed

end
