(* ===== verification/Callback_Handler.thy ===== *)
theory Callback_Handler
  imports Py_Text
begin

text \<open>
  \<^verbatim>\<open>cord_langgraph_callbacks/handler.py\<close>: the LangChain callback handler that records the Run and the
  Steps of one invocation as spans. The tracer is a third party; its spans are numbered in the order the
  handler starts them, and what the handler asks of it is the list of calls, latest first. The trace and
  span ids a tracer gives are the parameter \<open>ids\<close>, the result of \<^verbatim>\<open>uuid4\<close> the parameter \<open>uuid\<close>, and
  whether an exception is LangGraph's \<^verbatim>\<open>GraphInterrupt\<close> is a flag of the error event. Every callback
  runs its bookkeeping under the handler's lock, so a callback is one step.
\<close>

definition SEMCONV_VERSION :: string where "SEMCONV_VERSION = ''0.4.0''"

definition NS_SEP :: string where "NS_SEP = ''|''"

record run_continuation =
  rc_trace_id :: string
  rc_run_span_id :: string
  rc_run_id :: string
  rc_subject :: string
  rc_subject_type :: string
  rc_graph_id :: string

record awaiting_approval =
  aa_span_id :: string
  aa_node :: string
  aa_checkpoint_ns :: string

section \<open>The tracer's interface\<close>

text \<open>The Run's span: started here, or the non-recording stand-in of a resumed Run with its context.\<close>

datatype run_span = Recording nat | Non_Recording int int

datatype span_parent = Root | Under run_span

datatype span_call =
    Start_Span nat string span_parent "string dict"
  | Set_Attribute nat string string
  | Set_Error nat
  | End_Span nat

record tracer =
  tr_calls :: "span_call list"
  tr_started :: nat

definition tell :: "span_call \<Rightarrow> tracer \<Rightarrow> tracer" where
  "tell c t = t\<lparr>tr_calls := c # tr_calls t\<rparr>"

definition start_span :: "string \<Rightarrow> span_parent \<Rightarrow> string dict \<Rightarrow> tracer \<Rightarrow> tracer" where
  "start_span name parent attrs t =
     t\<lparr>tr_calls := Start_Span (tr_started t) name parent attrs # tr_calls t, tr_started := Suc (tr_started t)\<rparr>"

text \<open>Ending a non-recording span does nothing.\<close>

definition end_run_span :: "run_span \<Rightarrow> tracer \<Rightarrow> tracer" where
  "end_run_span s t = (case s of Recording n \<Rightarrow> tell (End_Span n) t | Non_Recording _ _ \<Rightarrow> t)"

section \<open>The handler\<close>

record open_step =
  os_span :: nat
  os_attributes :: "string dict"
  os_checkpoint_ns :: string

record handler =
  h_graph_id :: "string option"
  h_subject :: "string option"
  h_subject_type :: "string option"
  h_run_id :: "string option"
  h_resume :: "run_continuation option"
  h_pending_resumed_from :: "string option"
  h_closed :: bool
  h_run_span :: "run_span option"
  h_run_attributes :: "string dict"
  h_by_run_id :: "open_step dict"
  h_by_checkpoint_ns :: "open_step dict"
  h_awaiting :: "awaiting_approval list"
  h_tracer :: tracer

definition new_handler ::
  "string option \<Rightarrow> string option \<Rightarrow> string option \<Rightarrow> string option \<Rightarrow> run_continuation option \<Rightarrow>
   string option \<Rightarrow> exn + handler" where
  "new_handler graph_id subject subject_type run_id resume resumed_from =
     (let h = \<lparr>h_graph_id = graph_id, h_subject = subject, h_subject_type = subject_type, h_run_id = run_id,
               h_resume = resume, h_pending_resumed_from = resumed_from, h_closed = False, h_run_span = None,
               h_run_attributes = [], h_by_run_id = [], h_by_checkpoint_ns = [], h_awaiting = [],
               h_tracer = \<lparr>tr_calls = [], tr_started = 0\<rparr>\<rparr>
      in if resume \<noteq> None then
           (if graph_id \<noteq> None \<or> subject \<noteq> None \<or> subject_type \<noteq> None \<or> run_id \<noteq> None
            then Inl (Exn PyValueError ''resume= reopens an existing Run; it replaces graph_id/subject/subject_type/run_id'')
            else Inr h)
         else if graph_id = None \<or> graph_id = Some []
         then Inl (Exn PyValueError ''graph_id is required unless resume= is supplied'')
         else if subject = None \<or> subject = Some []
         then Inl (Exn PyValueError ''subject is required unless resume= is supplied'')
         else if subject_type = None \<or> subject_type = Some []
         then Inl (Exn PyValueError ''subject_type is required unless resume= is supplied'')
         else Inr h)"

definition run_attributes :: "string \<Rightarrow> string \<Rightarrow> string \<Rightarrow> string \<Rightarrow> string dict" where
  "run_attributes graph_id run_id subject subject_type =
     [(''cord.graph.id'', graph_id), (''cord.run.id'', run_id), (''cord.subject.id'', subject),
      (''cord.subject.type'', subject_type)]"

text \<open>\<^verbatim>\<open>_ensure_run_locked\<close>\<close>

definition ensure_run :: "string \<Rightarrow> (handler, unit) prog" where
  "ensure_run uuid h =
     (if h_run_span h \<noteq> None then (Inr (), h)
      else case h_resume h of
        Some c \<Rightarrow>
          (case (int_of_str 16 (rc_trace_id c), int_of_str 16 (rc_run_span_id c)) of
             (Some t, Some s) \<Rightarrow>
               (Inr (), h\<lparr>h_run_span := Some (Non_Recording t s),
                          h_run_attributes := run_attributes (rc_graph_id c) (rc_run_id c) (rc_subject c) (rc_subject_type c)\<rparr>)
           | _ \<Rightarrow> (Inl (Exn PyValueError ''invalid literal for int() with base 16''), h))
      | None \<Rightarrow>
          (let attrs = run_attributes (the (h_graph_id h))
                 (case h_run_id h of None \<Rightarrow> uuid | Some r \<Rightarrow> if r = [] then uuid else r)
                 (the (h_subject h)) (the (h_subject_type h))
           in (Inr (), h\<lparr>h_run_span := Some (Recording (tr_started (h_tracer h))),
                         h_tracer := start_span ''run'' Root (attrs @ [(''cord.semconv.version'', SEMCONV_VERSION)]) (h_tracer h),
                         h_run_attributes := attrs\<rparr>)))"

text \<open>
  \<^verbatim>\<open>^graph:step:\d+$\<close> with \<^verbatim>\<open>match\<close>; the pattern's \<open>$\<close> also holds before a final line feed.
\<close>

definition is_step_tag :: "string \<Rightarrow> bool" where
  "is_step_tag tag =
     (starts_with ''graph:step:'' tag \<and>
      (let rest = drop 11 tag;
           digits = takeWhile (\<lambda>c. digit_value 10 c \<noteq> None) rest;
           tail = dropWhile (\<lambda>c. digit_value 10 c \<noteq> None) rest
       in digits \<noteq> [] \<and> (tail = [] \<or> tail = [char_of (10::nat)])))"

definition step_tagged :: "string list option \<Rightarrow> bool" where
  "step_tagged tags = (\<exists>tag \<in> set (case tags of None \<Rightarrow> [] | Some ts \<Rightarrow> ts). is_step_tag tag)"

text \<open>The span a new Step nests under: the open Step of the enclosing namespace, or the Run.\<close>

definition parent_of :: "string \<Rightarrow> handler \<Rightarrow> span_parent" where
  "parent_of ns h =
     (case rsplit1 NS_SEP ns of
        Some (outer, _) \<Rightarrow>
          (case map_of (h_by_checkpoint_ns h) outer of
             Some st \<Rightarrow> Under (Recording (os_span st))
           | None \<Rightarrow> Under (the (h_run_span h)))
      | None \<Rightarrow> Under (the (h_run_span h)))"

definition open_new_step :: "string \<Rightarrow> string \<Rightarrow> string \<Rightarrow> handler \<Rightarrow> handler" where
  "open_new_step run_id node ns h =
     (let attrs = AList.update ''cord.node.name'' node (h_run_attributes h) @
                    (case h_pending_resumed_from h of None \<Rightarrow> [] | Some s \<Rightarrow> [(''cord.resumed_from'', s)]);
          st = \<lparr>os_span = tr_started (h_tracer h), os_attributes = attrs, os_checkpoint_ns = ns\<rparr>
      in h\<lparr>h_pending_resumed_from := None,
           h_tracer := start_span (''step:'' @ node) (parent_of ns h) (attrs @ [(''cord.outcome'', ''passed'')]) (h_tracer h),
           h_by_run_id := AList.update run_id st (h_by_run_id h),
           h_by_checkpoint_ns := AList.update ns st (h_by_checkpoint_ns h)\<rparr>)"

definition on_chain_start ::
  "string \<Rightarrow> string \<Rightarrow> string list option \<Rightarrow> string option \<Rightarrow> string option \<Rightarrow> (handler, unit) prog" where
  "on_chain_start uuid run_id tags node ns h =
     (if \<not> step_tagged tags then (Inr (), h)
      else if node = None \<or> node = Some [] \<or> ns = None \<or> ns = Some [] then (Inr (), h)
      else if h_closed h then (Inr (), h)
      else andthen (ensure_run uuid) (\<lambda>_. changing (open_new_step run_id (the node) (the ns))) h)"

definition forget_step :: "string \<Rightarrow> open_step \<Rightarrow> handler \<Rightarrow> handler" where
  "forget_step run_id st h =
     h\<lparr>h_by_run_id := AList.delete run_id (h_by_run_id h),
       h_by_checkpoint_ns := AList.delete (os_checkpoint_ns st) (h_by_checkpoint_ns h)\<rparr>"

definition on_chain_end :: "string \<Rightarrow> handler \<Rightarrow> handler" where
  "on_chain_end run_id h =
     (case map_of (h_by_run_id h) run_id of
        None \<Rightarrow> h
      | Some st \<Rightarrow> (forget_step run_id st h)\<lparr>h_tracer := tell (End_Span (os_span st)) (h_tracer h)\<rparr>)"

definition fail_step :: "nat \<Rightarrow> tracer \<Rightarrow> tracer" where
  "fail_step n t = tell (Set_Error n) (tell (Set_Attribute n ''cord.outcome'' ''failed'') t)"

definition span_id_text :: "(nat \<Rightarrow> nat \<times> nat) \<Rightarrow> nat \<Rightarrow> string" where
  "span_id_text ids n = format_hex 16 (snd (ids n))"

definition awaiting_of :: "(nat \<Rightarrow> nat \<times> nat) \<Rightarrow> open_step \<Rightarrow> awaiting_approval" where
  "awaiting_of ids st =
     \<lparr>aa_span_id = span_id_text ids (os_span st), aa_node = the (map_of (os_attributes st) ''cord.node.name''),
      aa_checkpoint_ns = os_checkpoint_ns st\<rparr>"

definition on_chain_error :: "(nat \<Rightarrow> nat \<times> nat) \<Rightarrow> string \<Rightarrow> bool \<Rightarrow> handler \<Rightarrow> handler" where
  "on_chain_error ids run_id graph_interrupt h =
     (case map_of (h_by_run_id h) run_id of
        None \<Rightarrow> h
      | Some st \<Rightarrow>
          (let h' = forget_step run_id st h in
           if graph_interrupt
           then h'\<lparr>h_awaiting := h_awaiting h @ [awaiting_of ids st],
                   h_tracer := tell (End_Span (os_span st))
                     (tell (Set_Attribute (os_span st) ''cord.outcome'' ''awaiting_approval'') (h_tracer h))\<rparr>
           else h'\<lparr>h_tracer := tell (End_Span (os_span st)) (fail_step (os_span st) (h_tracer h))\<rparr>))"

text \<open>\<^verbatim>\<open>close\<close>: Steps that never ended are failed and ended, then the Run's span.\<close>

definition end_leaked :: "open_step dict \<Rightarrow> tracer \<Rightarrow> tracer" where
  "end_leaked leaked t = fold (\<lambda>(i, st) t. tell (End_Span (os_span st)) (fail_step (os_span st) t)) leaked t"

definition close_handler :: "handler \<Rightarrow> handler" where
  "close_handler h =
     (if h_closed h then h
      else
        (let t = end_leaked (h_by_run_id h) (h_tracer h)
         in h\<lparr>h_closed := True, h_by_run_id := [], h_by_checkpoint_ns := [],
              h_tracer := (case h_run_span h of None \<Rightarrow> t | Some s \<Rightarrow> end_run_span s t)\<rparr>))"

text \<open>The property \<^verbatim>\<open>continuation\<close>.\<close>

definition format_hex_int :: "nat \<Rightarrow> int \<Rightarrow> string" where
  "format_hex_int w i = (if i < 0 then CHR ''-'' # format_hex (w - 1) (nat (- i)) else format_hex w (nat i))"

definition span_context :: "(nat \<Rightarrow> nat \<times> nat) \<Rightarrow> run_span \<Rightarrow> int \<times> int" where
  "span_context ids s = (case s of Recording n \<Rightarrow> map_prod int int (ids n) | Non_Recording t i \<Rightarrow> (t, i))"

definition continuation :: "(nat \<Rightarrow> nat \<times> nat) \<Rightarrow> handler \<Rightarrow> exn + run_continuation" where
  "continuation ids h =
     (case h_run_span h of
        None \<Rightarrow> Inl (Exn PyRuntimeError ''no Step has opened yet; this Run has no continuation to persist'')
      | Some s \<Rightarrow>
          (let attr = (\<lambda>k. the (map_of (h_run_attributes h) k)) in
           Inr \<lparr>rc_trace_id = format_hex_int 32 (fst (span_context ids s)),
                rc_run_span_id = format_hex_int 16 (snd (span_context ids s)),
                rc_run_id = attr ''cord.run.id'', rc_subject = attr ''cord.subject.id'',
                rc_subject_type = attr ''cord.subject.type'', rc_graph_id = attr ''cord.graph.id''\<rparr>))"

section \<open>The handler as a machine\<close>

text \<open>
  The callbacks LangChain makes. Each run of a chain has a UUID of its own, so a start never names a run
  that is still open; ends and errors may name any run, seen or not.
\<close>

datatype callback =
    Chain_Start string "string list option" "string option" "string option"
  | Chain_End string
  | Chain_Error string bool
  | Close

fun handle :: "string \<Rightarrow> (nat \<Rightarrow> nat \<times> nat) \<Rightarrow> callback \<Rightarrow> (handler, unit) prog" where
  "handle uuid ids (Chain_Start i tags node ns) = on_chain_start uuid i tags node ns"
| "handle uuid ids (Chain_End i) = changing (on_chain_end i)"
| "handle uuid ids (Chain_Error i g) = changing (on_chain_error ids i g)"
| "handle uuid ids Close = changing close_handler"

text \<open>
  The callbacks LangChain sends: a run id is its own fresh UUID, so no start names one that is still open.
\<close>

fun expected :: "callback \<Rightarrow> handler \<Rightarrow> bool" where
  "expected (Chain_Start i tags node ns) h = (map_of (h_by_run_id h) i = None)"
| "expected _ h = True"

inductive handler_reachable :: "string \<Rightarrow> (nat \<Rightarrow> nat \<times> nat) \<Rightarrow> handler \<Rightarrow> bool" for uuid ids where
  handler_new: "new_handler g s st r c rf = Inr h \<Longrightarrow> handler_reachable uuid ids h"
| handler_call: "handler_reachable uuid ids h \<Longrightarrow> expected ev h \<Longrightarrow> handle uuid ids ev h = (res, h') \<Longrightarrow>
    handler_reachable uuid ids h'"

section \<open>What the callbacks do to the spans\<close>

definition ends_of :: "nat \<Rightarrow> tracer \<Rightarrow> nat" where
  "ends_of n t = count_list (tr_calls t) (End_Span n)"

definition told :: "span_call \<Rightarrow> tracer \<Rightarrow> bool" where
  "told c t \<longleftrightarrow> c \<in> set (tr_calls t)"

lemma tell_simps [simp]:
  "tr_started (tell c t) = tr_started t"
  "ends_of n (tell c t) = (if c = End_Span n then Suc (ends_of n t) else ends_of n t)"
  "told c (tell c' t) \<longleftrightarrow> c = c' \<or> told c t"
  by (simp_all add: tell_def ends_of_def told_def)

lemma start_span_simps [simp]:
  "tr_started (start_span name p as t) = Suc (tr_started t)"
  "ends_of n (start_span name p as t) = ends_of n t"
  "told c (start_span name p as t) \<longleftrightarrow> c = Start_Span (tr_started t) name p as \<or> told c t"
  by (simp_all add: start_span_def ends_of_def told_def)

lemma fail_step_simps [simp]:
  "tr_started (fail_step n t) = tr_started t"
  "ends_of m (fail_step n t) = ends_of m t"
  "told c (fail_step n t) \<longleftrightarrow> c = Set_Error n \<or> c = Set_Attribute n ''cord.outcome'' ''failed'' \<or> told c t"
  by (simp_all add: fail_step_def)

text \<open>The spans the handler has started and not ended yet.\<close>

definition own_run_span :: "handler \<Rightarrow> nat list" where
  "own_run_span h = (case h_run_span h of Some (Recording n) \<Rightarrow> if h_closed h then [] else [n] | _ \<Rightarrow> [])"

definition live_spans :: "handler \<Rightarrow> nat list" where
  "live_spans h = map (os_span \<circ> snd) (h_by_run_id h) @ own_run_span h"

lemma own_run_span_closed [simp]: "h_closed h \<Longrightarrow> own_run_span h = []"
  by (simp add: own_run_span_def split: option.split run_span.split)

lemma own_run_span_same:
  "h_run_span h' = h_run_span h \<Longrightarrow> h_closed h' = h_closed h \<Longrightarrow> own_run_span h' = own_run_span h"
  by (simp add: own_run_span_def split: option.split run_span.split)

definition spans_inv :: "handler \<Rightarrow> bool" where
  "spans_inv h \<longleftrightarrow> dict_ok (h_by_run_id h) \<and> distinct (live_spans h) \<and>
     (h_closed h \<longrightarrow> h_by_run_id h = []) \<and>
     (\<forall>n \<in> set (live_spans h). n < tr_started (h_tracer h)) \<and>
     (\<forall>n. ends_of n (h_tracer h) =
        (if n < tr_started (h_tracer h) \<and> n \<notin> set (live_spans h) then 1 else 0))"

lemma spans_inv_new: "new_handler g s st r c rf = Inr h \<Longrightarrow> spans_inv h"
  by (auto simp: new_handler_def Let_def spans_inv_def live_spans_def dict_ok_def ends_of_def own_run_span_def split: if_splits)

lemma live_spans_closed: "h_closed h \<Longrightarrow> spans_inv h \<Longrightarrow> live_spans h = []"
  by (simp add: spans_inv_def live_spans_def)

text \<open>Opening a span adds it to the live ones.\<close>

lemma spans_inv_started:
  assumes "spans_inv h" "dict_ok (h_by_run_id h')" "\<not> h_closed h'"
    and "set (live_spans h') = insert (tr_started (h_tracer h)) (set (live_spans h))"
    and "distinct (live_spans h')"
    and "h_tracer h' = start_span name p as (h_tracer h)"
  shows "spans_inv h'"
  using assms unfolding spans_inv_def
  by (auto simp: less_Suc_eq)

lemma ensure_run_inv:
  assumes "spans_inv h" "\<not> h_closed h"
  shows "spans_inv (snd (ensure_run uuid h))" "h_closed (snd (ensure_run uuid h)) = h_closed h"
    "h_by_run_id (snd (ensure_run uuid h)) = h_by_run_id h"
proof -
  show "h_closed (snd (ensure_run uuid h)) = h_closed h" "h_by_run_id (snd (ensure_run uuid h)) = h_by_run_id h"
    by (auto simp: ensure_run_def Let_def split: option.split)
  show "spans_inv (snd (ensure_run uuid h))"
  proof (cases "h_run_span h")
    case None
    show ?thesis
    proof (cases "h_resume h")
      case None
      have "tr_started (h_tracer h) \<notin> set (live_spans h)" using assms(1) by (auto simp: spans_inv_def)
      then show ?thesis
        using assms \<open>h_run_span h = None\<close> None
        by (intro spans_inv_started [OF assms(1)]) (auto simp: ensure_run_def Let_def live_spans_def own_run_span_def spans_inv_def)
    next
      case (Some c)
      then show ?thesis using assms None
        by (auto simp: ensure_run_def spans_inv_def live_spans_def own_run_span_def split: option.split)
    qed
  next
    case (Some s)
    then show ?thesis using assms(1) by (simp add: ensure_run_def)
  qed
qed

lemma update_new: "map_of d k = None \<Longrightarrow> AList.update k v d = d @ [(k, v)]"
  by (induction d) auto

lemma open_new_step_simps [simp]:
  "h_closed (open_new_step i node ns h) = h_closed h"
  "own_run_span (open_new_step i node ns h) = own_run_span h"
  "\<exists>name p as. h_tracer (open_new_step i node ns h) = start_span name p as (h_tracer h)"
  by (auto simp: open_new_step_def Let_def intro: own_run_span_same)

lemma open_new_step_live:
  assumes "map_of (h_by_run_id h) i = None"
  shows "map fst (h_by_run_id (open_new_step i node ns h)) = map fst (h_by_run_id h) @ [i]"
    "map (os_span \<circ> snd) (h_by_run_id (open_new_step i node ns h)) =
     map (os_span \<circ> snd) (h_by_run_id h) @ [tr_started (h_tracer h)]"
  using assms by (simp_all add: open_new_step_def Let_def update_new)

lemma open_new_step_inv:
  assumes "spans_inv h" "\<not> h_closed h" "map_of (h_by_run_id h) i = None"
  shows "spans_inv (open_new_step i node ns h)"
proof -
  have new: "tr_started (h_tracer h) \<notin> set (live_spans h)" using assms(1) by (auto simp: spans_inv_def)
  obtain name p as where t: "h_tracer (open_new_step i node ns h) = start_span name p as (h_tracer h)"
    using open_new_step_simps(3) by blast
  show ?thesis
  proof (rule spans_inv_started [OF assms(1) _ _ _ _ t])
    show "dict_ok (h_by_run_id (open_new_step i node ns h))"
      using assms by (simp add: dict_ok_def open_new_step_live spans_inv_def map_of_eq_None_iff)
    show "distinct (live_spans (open_new_step i node ns h))"
      using assms(1) new by (auto simp: live_spans_def open_new_step_live [OF assms(3)] spans_inv_def)
    show "set (live_spans (open_new_step i node ns h)) = insert (tr_started (h_tracer h)) (set (live_spans h))"
      unfolding live_spans_def open_new_step_live [OF assms(3)] by auto
  qed (simp add: assms(2))
qed

lemma on_chain_start_inv:
  assumes "spans_inv h" "map_of (h_by_run_id h) i = None"
  shows "spans_inv (snd (on_chain_start uuid i tags node ns h))"
proof (cases "h_closed h")
  case False
  then have "spans_inv (snd (andthen (ensure_run uuid) (\<lambda>_. changing (open_new_step i (the node) (the ns))) h))"
    using ensure_run_inv [OF assms(1)] assms(2)
    by (auto simp: andthen_def changing_def open_new_step_inv split: prod.split sum.split)
      (metis open_new_step_inv snd_conv)+
  then show ?thesis using assms(1) by (simp add: on_chain_start_def)
qed (use assms in \<open>simp add: on_chain_start_def\<close>)

lemma delete_by_run_id:
  assumes "dict_ok d" "map_of d i = Some st" "distinct (map (os_span \<circ> snd) d)"
  shows "map (os_span \<circ> snd) (AList.delete i d) = filter (\<lambda>n. n \<noteq> os_span st) (map (os_span \<circ> snd) d)"
  using assms
proof (induction d)
  case (Cons x d)
  obtain j s where x: "x = (j, s)" by fastforce
  show ?case
  proof (cases "j = i")
    case True
    then have "st = s" "map_of d i = None" using Cons.prems x by (auto simp: dict_ok_def map_of_eq_None_iff)
    moreover from this have "AList.delete i d = d" by (simp add: delete_conv map_of_eq_None_iff filter_id_conv image_def)
    moreover have "filter (\<lambda>n. n \<noteq> os_span s) (map (os_span \<circ> snd) d) = map (os_span \<circ> snd) d"
      using Cons.prems(3) x by (force simp: filter_id_conv)
    ultimately show ?thesis using x True by (simp add: comp_def)
  next
    case False
    then have "map_of d i = Some st" using Cons.prems x by simp
    then have "os_span st \<in> set (map (os_span \<circ> snd) d)" by (force dest: map_of_SomeD)
    then have "os_span s \<noteq> os_span st" using Cons.prems(3) x by force
    then show ?thesis using Cons False x by (simp add: dict_ok_def)
  qed
qed simp

lemma spans_inv_ended:
  assumes inv: "spans_inv h" and st: "map_of (h_by_run_id h) i = Some st"
    and h': "h_by_run_id h' = AList.delete i (h_by_run_id h)" "h_run_span h' = h_run_span h" "h_closed h' = h_closed h"
      "tr_started (h_tracer h') = tr_started (h_tracer h)"
    and ends: "\<And>n. ends_of n (h_tracer h') = (if n = os_span st then Suc (ends_of n (h_tracer h)) else ends_of n (h_tracer h))"
  shows "spans_inv h'"
proof -
  have d: "dict_ok (h_by_run_id h)" "distinct (map (os_span \<circ> snd) (h_by_run_id h))"
    using inv by (simp_all add: spans_inv_def live_spans_def)
  have live: "os_span st \<in> set (map (os_span \<circ> snd) (h_by_run_id h))" using st by (force dest: map_of_SomeD)
  then have other: "os_span st \<notin> set (own_run_span h)" using inv by (auto simp: spans_inv_def live_spans_def)
  then have "filter (\<lambda>n. n \<noteq> os_span st) (own_run_span h) = own_run_span h" by (auto simp: filter_id_conv)
  then have "live_spans h' = filter (\<lambda>n. n \<noteq> os_span st) (live_spans h)"
    using delete_by_run_id [OF d(1) st d(2)] own_run_span_same [OF h'(2,3)]
    by (simp add: live_spans_def h'(1))
  moreover have "dict_ok (h_by_run_id h')" using d(1) by (simp add: h'(1) dict_ok_def distinct_delete)
  moreover have "h_closed h \<Longrightarrow> False" using inv st by (simp add: spans_inv_def)
  moreover have "os_span st \<in> set (live_spans h)" using live by (simp add: live_spans_def)
  ultimately show ?thesis
    using inv h' unfolding spans_inv_def ends by auto
qed

lemma on_chain_end_inv: "spans_inv h \<Longrightarrow> spans_inv (on_chain_end i h)"
  by (cases "map_of (h_by_run_id h) i")
    (auto simp: on_chain_end_def forget_step_def intro: spans_inv_ended)

lemma on_chain_error_inv: "spans_inv h \<Longrightarrow> spans_inv (on_chain_error ids i g h)"
  by (cases "map_of (h_by_run_id h) i")
    (auto simp: on_chain_error_def forget_step_def Let_def intro: spans_inv_ended)

lemma end_leaked_simps [simp]:
  "tr_started (end_leaked ds t) = tr_started t"
  "ends_of n (end_leaked ds t) = ends_of n t + count_list (map (os_span \<circ> snd) ds) n"
  by (induction ds arbitrary: t) (auto simp: end_leaked_def)

lemma count_distinct: "distinct xs \<Longrightarrow> count_list xs x = (if x \<in> set xs then 1 else 0)"
  by (induction xs) auto

lemma close_handler_inv:
  assumes "spans_inv h"
  shows "spans_inv (close_handler h)"
proof (cases "h_closed h")
  case False
  let ?h = "close_handler h"
  have empty: "h_by_run_id ?h = []" "h_closed ?h" "live_spans ?h = []"
    using False by (simp_all add: close_handler_def Let_def live_spans_def)
  have "ends_of n (h_tracer ?h) = ends_of n (h_tracer h) + count_list (live_spans h) n" for n
    using False
    by (auto simp: close_handler_def Let_def live_spans_def own_run_span_def end_run_span_def split: option.split run_span.split)
  moreover have "tr_started (h_tracer ?h) = tr_started (h_tracer h)"
    using False by (simp add: close_handler_def Let_def end_run_span_def split: option.split run_span.split)
  ultimately show ?thesis
    using assms empty by (auto simp: spans_inv_def dict_ok_def count_distinct)
qed (use assms in \<open>simp add: close_handler_def\<close>)

lemma handle_inv:
  assumes "spans_inv h" "expected ev h" "handle uuid ids ev h = (res, h')"
  shows "spans_inv h'"
proof (cases ev)
  case (Chain_Start i tags node ns)
  then show ?thesis using on_chain_start_inv [OF assms(1), of i uuid tags node ns] assms by simp
qed (use assms in \<open>auto simp: on_chain_end_inv on_chain_error_inv close_handler_inv\<close>)

lemma reachable_spans_inv: "handler_reachable uuid ids h \<Longrightarrow> spans_inv h"
  by (induction rule: handler_reachable.induct) (auto intro: spans_inv_new handle_inv)

section \<open>How Steps are recorded to have ended\<close>

definition awaiting_told :: "nat \<Rightarrow> tracer \<Rightarrow> bool" where
  "awaiting_told n t = told (Set_Attribute n ''cord.outcome'' ''awaiting_approval'') t"

definition failed_told :: "nat \<Rightarrow> tracer \<Rightarrow> bool" where
  "failed_told n t = told (Set_Attribute n ''cord.outcome'' ''failed'') t"

definition outcome_inv :: "(nat \<Rightarrow> nat \<times> nat) \<Rightarrow> handler \<Rightarrow> bool" where
  "outcome_inv ids h \<longleftrightarrow>
     (\<forall>n. told (Set_Error n) (h_tracer h) \<longleftrightarrow> failed_told n (h_tracer h)) \<and>
     (\<forall>n. failed_told n (h_tracer h) \<or> awaiting_told n (h_tracer h) \<longrightarrow> 0 < ends_of n (h_tracer h)) \<and>
     (\<forall>n. \<not> (failed_told n (h_tracer h) \<and> awaiting_told n (h_tracer h))) \<and>
     (\<exists>ns. distinct ns \<and> map aa_span_id (h_awaiting h) = map (span_id_text ids) ns \<and>
        set ns = {n. awaiting_told n (h_tracer h)})"

lemma outcome_inv_new: "new_handler g s st r c rf = Inr h \<Longrightarrow> outcome_inv ids h"
  by (auto simp: new_handler_def Let_def outcome_inv_def told_def failed_told_def awaiting_told_def split: if_splits)

lemma told_end_leaked:
  "told c (end_leaked ds t) \<longleftrightarrow> told c t \<or>
     (\<exists>n \<in> set (map (os_span \<circ> snd) ds). c \<in> {Set_Error n, Set_Attribute n ''cord.outcome'' ''failed'', End_Span n})"
  by (induction ds arbitrary: t) (auto simp: end_leaked_def)

text \<open>Starting spans changes nothing these facts speak of.\<close>

lemma outcome_inv_started:
  assumes "outcome_inv ids h" "h_awaiting h' = h_awaiting h"
    "h_tracer h' = h_tracer h \<or> (\<exists>name p as. h_tracer h' = start_span name p as (h_tracer h))"
  shows "outcome_inv ids h'"
  using assms by (auto simp: outcome_inv_def failed_told_def awaiting_told_def)

lemma ensure_run_outcome:
  assumes "outcome_inv ids h"
  shows "outcome_inv ids (snd (ensure_run uuid h))"
  by (rule outcome_inv_started [OF assms])
    (auto simp: ensure_run_def Let_def split: option.split)

lemma on_chain_start_outcome:
  assumes "outcome_inv ids h"
  shows "outcome_inv ids (snd (on_chain_start uuid i tags node ns h))"
proof -
  have "outcome_inv ids (open_new_step i m k h')" if "outcome_inv ids h'" for m k h'
    by (rule outcome_inv_started [OF that]) (auto simp: open_new_step_def Let_def)
  then have "outcome_inv ids (snd (andthen (ensure_run uuid) (\<lambda>_. changing (open_new_step i (the node) (the ns))) h))"
    using ensure_run_outcome [OF assms, of uuid]
    by (auto simp: andthen_def changing_def split: prod.splits sum.splits)
  then show ?thesis using assms by (simp add: on_chain_start_def)
qed

lemma live_not_ended:
  assumes "spans_inv h" "n \<in> set (live_spans h)"
  shows "ends_of n (h_tracer h) = 0"
  using assms by (simp add: spans_inv_def)

lemma open_step_live: "map_of (h_by_run_id h) i = Some st \<Longrightarrow> os_span st \<in> set (live_spans h)"
  by (force simp: live_spans_def dest: map_of_SomeD)

lemma outcome_inv_failed:
  assumes inv: "outcome_inv ids h" and "ns \<subseteq> {n. ends_of n (h_tracer h) = 0}" "h_awaiting h' = h_awaiting h"
    and t: "\<And>n. told (Set_Error n) (h_tracer h') \<longleftrightarrow> told (Set_Error n) (h_tracer h) \<or> n \<in> ns"
      "\<And>n. failed_told n (h_tracer h') \<longleftrightarrow> failed_told n (h_tracer h) \<or> n \<in> ns"
      "\<And>n. awaiting_told n (h_tracer h') \<longleftrightarrow> awaiting_told n (h_tracer h)"
      "\<And>n. ends_of n (h_tracer h) \<le> ends_of n (h_tracer h')" "\<And>n. n \<in> ns \<Longrightarrow> 0 < ends_of n (h_tracer h')"
  shows "outcome_inv ids h'"
proof -
  have fresh: "\<not> failed_told n (h_tracer h) \<and> \<not> awaiting_told n (h_tracer h)" if "n \<in> ns" for n
  proof -
    have "ends_of n (h_tracer h) = 0" using assms(2) that by blast
    then show ?thesis using inv unfolding outcome_inv_def by (metis less_irrefl)
  qed
  have pos: "0 < ends_of n (h_tracer h')" if "failed_told n (h_tracer h) \<or> awaiting_told n (h_tracer h)" for n
    using inv that t(4) [of n] unfolding outcome_inv_def by (metis order_less_le_trans)
  show ?thesis
    using inv fresh pos t(5) unfolding outcome_inv_def t assms(3) by blast
qed

lemma on_chain_error_outcome:
  assumes inv: "outcome_inv ids h" and spans: "spans_inv h"
  shows "outcome_inv ids (on_chain_error ids i g h)"
proof (cases "map_of (h_by_run_id h) i")
  case None
  then show ?thesis using inv by (simp add: on_chain_error_def)
next
  case (Some st)
  let ?n = "os_span st" and ?h = "on_chain_error ids i g h"
  have zero: "ends_of ?n (h_tracer h) = 0" by (rule live_not_ended [OF spans open_step_live [OF Some]])
  show ?thesis
  proof (cases g)
    case False
    then show ?thesis using Some zero
      by (intro outcome_inv_failed [OF inv, of "{?n}"])
        (auto simp: on_chain_error_def forget_step_def Let_def failed_told_def awaiting_told_def)
  next
    case True
    have fresh: "\<not> failed_told ?n (h_tracer h)" "\<not> awaiting_told ?n (h_tracer h)"
      using inv zero by (auto simp: outcome_inv_def)
    obtain ns where ns: "distinct ns" "map aa_span_id (h_awaiting h) = map (span_id_text ids) ns"
      "set ns = {n. awaiting_told n (h_tracer h)}" using inv unfolding outcome_inv_def by blast
    have t: "told (Set_Error n) (h_tracer ?h) = told (Set_Error n) (h_tracer h)"
      "failed_told n (h_tracer ?h) = failed_told n (h_tracer h)"
      "awaiting_told n (h_tracer ?h) \<longleftrightarrow> n = ?n \<or> awaiting_told n (h_tracer h)"
      "ends_of n (h_tracer ?h) = (if n = ?n then Suc (ends_of n (h_tracer h)) else ends_of n (h_tracer h))" for n
      using Some True by (auto simp: on_chain_error_def Let_def failed_told_def awaiting_told_def)
    have a: "h_awaiting ?h = h_awaiting h @ [awaiting_of ids st]"
      using Some True by (simp add: on_chain_error_def Let_def)
    have "\<exists>ns. distinct ns \<and> map aa_span_id (h_awaiting ?h) = map (span_id_text ids) ns \<and>
        set ns = {n. awaiting_told n (h_tracer ?h)}"
      using ns fresh(2) by (intro exI [of _ "ns @ [?n]"]) (auto simp: a t awaiting_of_def)
    then show ?thesis using inv fresh unfolding outcome_inv_def t by fastforce
  qed
qed

lemma on_chain_end_outcome:
  assumes "outcome_inv ids h"
  shows "outcome_inv ids (on_chain_end i h)"
proof (cases "map_of (h_by_run_id h) i")
  case None
  then show ?thesis using assms by (simp add: on_chain_end_def)
next
  case (Some st)
  then show ?thesis
    by (intro outcome_inv_failed [OF assms, of "{}"])
      (auto simp: on_chain_end_def forget_step_def failed_told_def awaiting_told_def)
qed

lemma close_handler_outcome:
  assumes inv: "outcome_inv ids h" and spans: "spans_inv h"
  shows "outcome_inv ids (close_handler h)"
proof (cases "h_closed h")
  case False
  let ?ns = "set (map (os_span \<circ> snd) (h_by_run_id h))"
  have zero: "?ns \<subseteq> {n. ends_of n (h_tracer h) = 0}"
    using live_not_ended [OF spans] by (auto simp: live_spans_def)
  define t where "t = end_leaked (h_by_run_id h) (h_tracer h)"
  have close: "ends_of n t \<le> ends_of n (h_tracer (close_handler h))"
    "told (Set_Error n) (h_tracer (close_handler h)) = told (Set_Error n) t"
    "failed_told n (h_tracer (close_handler h)) = failed_told n t"
    "awaiting_told n (h_tracer (close_handler h)) = awaiting_told n t" for n
    using False by (auto simp: close_handler_def Let_def t_def [symmetric] end_run_span_def failed_told_def awaiting_told_def
        split: option.split run_span.split)
  have leak: "ends_of n (h_tracer h) \<le> ends_of n t" "n \<in> ?ns \<Longrightarrow> 0 < ends_of n t"
    "told (Set_Error n) t \<longleftrightarrow> told (Set_Error n) (h_tracer h) \<or> n \<in> ?ns"
    "failed_told n t \<longleftrightarrow> failed_told n (h_tracer h) \<or> n \<in> ?ns"
    "awaiting_told n t \<longleftrightarrow> awaiting_told n (h_tracer h)" for n
    by (auto simp: t_def told_end_leaked failed_told_def awaiting_told_def count_list_0_iff simp flip: neq0_conv)
  show ?thesis
  proof (rule outcome_inv_failed [OF inv zero])
    show "h_awaiting (close_handler h) = h_awaiting h" by (simp add: close_handler_def Let_def)
    show "ends_of n (h_tracer h) \<le> ends_of n (h_tracer (close_handler h))" for n
      using leak(1) close(1) by (rule order_trans)
    show "n \<in> ?ns \<Longrightarrow> 0 < ends_of n (h_tracer (close_handler h))" for n
      using leak(2) close(1) by (rule order_less_le_trans)
  qed (simp_all only: close leak)
qed (use inv in \<open>simp add: close_handler_def\<close>)

lemma handle_outcome:
  assumes "outcome_inv ids h" "spans_inv h" "handle uuid ids ev h = (res, h')"
  shows "outcome_inv ids h'"
proof (cases ev)
  case (Chain_Start i tags node ns)
  then show ?thesis using on_chain_start_outcome [OF assms(1), of uuid i tags node ns] assms by simp
qed (use assms in \<open>auto simp: on_chain_end_outcome on_chain_error_outcome close_handler_outcome\<close>)

lemma reachable_outcome_inv: "handler_reachable uuid ids h \<Longrightarrow> outcome_inv ids h"
  by (induction rule: handler_reachable.induct) (auto intro: outcome_inv_new handle_outcome reachable_spans_inv)

section \<open>The identity of a resumed Run\<close>

text \<open>Once the Run's span exists, no callback changes it or the Run's attributes.\<close>

lemma handle_keeps_run:
  assumes "h_run_span h \<noteq> None" "handle uuid ids ev h = (res, h')"
  shows "h_run_span h' = h_run_span h \<and> h_run_attributes h' = h_run_attributes h"
  using assms
  by (cases ev) (auto simp: on_chain_start_def ensure_run_def andthen_def changing_def open_new_step_def Let_def
      on_chain_end_def on_chain_error_def forget_step_def close_handler_def split: option.splits if_splits prod.splits sum.splits)

text \<open>Until then, a callback that opens it does so from the Run the handler was made to resume.\<close>

lemma handle_resume:
  assumes "h_run_span h = None" "handle uuid ids ev h = (res, h')"
  shows "h_resume h' = h_resume h \<and>
    (\<forall>c. h_resume h = Some c \<and> h_run_span h' \<noteq> None \<longrightarrow> (\<exists>t s. int_of_str 16 (rc_trace_id c) = Some t \<and>
      int_of_str 16 (rc_run_span_id c) = Some s \<and> h_run_span h' = Some (Non_Recording t s) \<and>
      h_run_attributes h' = run_attributes (rc_graph_id c) (rc_run_id c) (rc_subject c) (rc_subject_type c)))"
  using assms
  by (cases ev) (auto simp: on_chain_start_def ensure_run_def andthen_def changing_def open_new_step_def Let_def
      on_chain_end_def on_chain_error_def forget_step_def close_handler_def split: option.splits if_splits prod.splits sum.splits)

lemma handle_same_resume: "handle uuid ids ev h = (res, h') \<Longrightarrow> h_resume h' = h_resume h"
  by (cases ev) (auto simp: on_chain_start_def ensure_run_def andthen_def changing_def open_new_step_def Let_def
      on_chain_end_def on_chain_error_def forget_step_def close_handler_def split: option.splits if_splits prod.splits sum.splits)

definition resumed_inv :: "run_continuation \<Rightarrow> handler \<Rightarrow> bool" where
  "resumed_inv c h \<longleftrightarrow> h_resume h = Some c \<and> (h_run_span h \<noteq> None \<longrightarrow>
     (\<exists>t s. int_of_str 16 (rc_trace_id c) = Some t \<and> int_of_str 16 (rc_run_span_id c) = Some s \<and>
       h_run_span h = Some (Non_Recording t s) \<and>
       h_run_attributes h = run_attributes (rc_graph_id c) (rc_run_id c) (rc_subject c) (rc_subject_type c)))"

lemma reachable_resumed:
  assumes "handler_reachable uuid ids h" "h_resume h = Some c"
  shows "resumed_inv c h"
  using assms
proof (induction rule: handler_reachable.induct)
  case (handler_new g s st r c' rf h)
  then show ?case by (auto simp: new_handler_def Let_def resumed_inv_def split: if_splits)
next
  case (handler_call h ev res h')
  have same: "h_resume h = Some c" using handle_same_resume [OF handler_call(3)] handler_call.prems by simp
  then have inv: "resumed_inv c h" by (rule handler_call.IH)
  show ?case
  proof (cases "h_run_span h")
    case None
    then show ?thesis using handle_resume [OF None handler_call(3)] same by (auto simp: resumed_inv_def)
  next
    case (Some x)
    then show ?thesis using handle_keeps_run [OF _ handler_call(3)] inv handler_call.prems by (simp add: resumed_inv_def)
  qed
qed

section \<open>Properties\<close>

text \<open>
  C26. No span leaks and none is ended twice: whatever callbacks arrive, in whatever order, every span the
  handler started has been ended at most once; and once the handler is closed, every span it ever started
  has been ended exactly once.
\<close>

theorem every_span_ends_once:
  assumes "handler_reachable uuid ids h"
  shows "ends_of n (h_tracer h) \<le> 1 \<and>
    (h_closed h \<longrightarrow> ends_of n (h_tracer h) = (if n < tr_started (h_tracer h) then 1 else 0))"
  using reachable_spans_inv [OF assms] live_spans_closed [of h] by (auto simp: spans_inv_def)

definition demo_handler :: handler where
  "demo_handler = \<lparr>h_graph_id = Some ''g'', h_subject = Some ''s'', h_subject_type = Some ''t'', h_run_id = Some ''r'',
     h_resume = None, h_pending_resumed_from = None, h_closed = False, h_run_span = None, h_run_attributes = [],
     h_by_run_id = [], h_by_checkpoint_ns = [], h_awaiting = [], h_tracer = \<lparr>tr_calls = [], tr_started = 0\<rparr>\<rparr>"

definition demo_steps :: "callback list" where
  "demo_steps = [Chain_Start ''a'' (Some [''graph:step:1'']) (Some ''n'') (Some ''n:1''),
     Chain_Start ''b'' (Some [''graph:step:2'']) (Some ''m'') (Some ''n:1|m:2''), Chain_Error ''b'' True, Close]"

definition run_callbacks :: "string \<Rightarrow> (nat \<Rightarrow> nat \<times> nat) \<Rightarrow> callback list \<Rightarrow> handler \<Rightarrow> handler" where
  "run_callbacks uuid ids evs h = fold (\<lambda>ev h. snd (handle uuid ids ev h)) evs h"

lemma demo_new: "new_handler (Some ''g'') (Some ''s'') (Some ''t'') (Some ''r'') None None = Inr demo_handler"
  by (simp add: new_handler_def demo_handler_def)

lemma demo_tags: "step_tagged (Some [''graph:step:1''])" "step_tagged (Some [''graph:step:2''])"
  by code_simp+

lemma demo_parent: "rsplit1 ''|'' ''n:1|m:2'' = Some (''n:1'', ''m:2'')" "rsplit1 ''|'' ''n:1'' = None"
  by code_simp+

lemmas demo_run_simps = demo_steps_def run_callbacks_def demo_handler_def on_chain_start_def on_chain_error_def
  demo_tags demo_parent ensure_run_def andthen_def changing_def open_new_step_def Let_def run_attributes_def parent_of_def
  NS_SEP_def forget_step_def close_handler_def end_leaked_def end_run_span_def start_span_def awaiting_of_def

lemma reachable_call:
  "handler_reachable u ids h \<Longrightarrow> expected ev h \<Longrightarrow> handler_reachable u ids (snd (handle u ids ev h))"
  by (rule handler_call [of u ids h ev "fst (handle u ids ev h)"]) simp_all

lemma demo_reachable: "handler_reachable u ids (run_callbacks u ids demo_steps demo_handler)"
proof -
  show ?thesis
    unfolding run_callbacks_def demo_steps_def fold_simps comp_apply id_apply
    by (intro reachable_call handler_new [OF demo_new]) (simp_all add: demo_run_simps)
qed

theorem every_span_ends_once_witness:
  "ends_of 2 (h_tracer (run_callbacks ''u'' (\<lambda>n. (1, n)) demo_steps demo_handler)) = 1 \<and>
   tr_started (h_tracer (run_callbacks ''u'' (\<lambda>n. (1, n)) demo_steps demo_handler)) = 3"
proof -
  let ?h = "run_callbacks ''u'' (\<lambda>n. (1, n)) demo_steps demo_handler"
  have "h_closed ?h" "tr_started (h_tracer ?h) = 3" by (simp_all add: demo_run_simps tell_def fail_step_def)
  then show ?thesis using every_span_ends_once [OF demo_reachable, of 2 "''u''" "\<lambda>n. (1, n)"] by simp
qed

text \<open>
  A controlled pause is never recorded as a failure: a span carries the error status exactly when its
  outcome is failed, no span is both failed and awaiting approval, only ended spans have either outcome,
  and the handler reports as awaiting approval the ids of exactly the spans it closed that way, one each.
\<close>

theorem pause_is_no_failure:
  assumes "handler_reachable uuid ids h"
  shows "(told (Set_Error n) (h_tracer h) \<longleftrightarrow> failed_told n (h_tracer h)) \<and>
    (failed_told n (h_tracer h) \<or> awaiting_told n (h_tracer h) \<longrightarrow> ends_of n (h_tracer h) = 1) \<and>
    \<not> (failed_told n (h_tracer h) \<and> awaiting_told n (h_tracer h)) \<and>
    (\<exists>ns. distinct ns \<and> set ns = {n. awaiting_told n (h_tracer h)} \<and>
       map aa_span_id (h_awaiting h) = map (span_id_text ids) ns)"
proof -
  have "ends_of n (h_tracer h) \<le> 1" using reachable_spans_inv [OF assms] by (simp add: spans_inv_def)
  moreover have "failed_told n (h_tracer h) \<or> awaiting_told n (h_tracer h) \<Longrightarrow> 0 < ends_of n (h_tracer h)"
    using reachable_outcome_inv [OF assms] unfolding outcome_inv_def by blast
  ultimately have "failed_told n (h_tracer h) \<or> awaiting_told n (h_tracer h) \<longrightarrow> ends_of n (h_tracer h) = 1" by fastforce
  then show ?thesis using reachable_outcome_inv [OF assms] unfolding outcome_inv_def by blast
qed

theorem pause_is_no_failure_witness:
  "awaiting_told 2 (h_tracer (run_callbacks ''u'' (\<lambda>n. (1, n)) demo_steps demo_handler)) \<and>
   \<not> told (Set_Error 2) (h_tracer (run_callbacks ''u'' (\<lambda>n. (1, n)) demo_steps demo_handler))"
proof -
  let ?h = "run_callbacks ''u'' (\<lambda>n. (1, n)) demo_steps demo_handler"
  have "awaiting_told 2 (h_tracer ?h)" by (simp add: demo_run_simps tell_def fail_step_def awaiting_told_def told_def)
  then show ?thesis using pause_is_no_failure [OF demo_reachable, of 2 "''u''" "\<lambda>n. (1, n)"] by blast
qed

text \<open>
  A Run reopened from its continuation is the same Run: when the ids are in the format a continuation
  has, the continuation of the resuming handler, once it has opened a Step, is the one it was given.
\<close>

theorem resume_keeps_identity:
  assumes "handler_reachable uuid ids h" "h_resume h = Some c" "h_run_span h \<noteq> None"
    and "rc_trace_id c = format_hex 32 t" "rc_run_span_id c = format_hex 16 s"
  shows "continuation ids h = Inr c"
proof -
  have "h_run_span h = Some (Non_Recording (int t) (int s))"
    "h_run_attributes h = run_attributes (rc_graph_id c) (rc_run_id c) (rc_subject c) (rc_subject_type c)"
    using reachable_resumed [OF assms(1,2)] assms(3-5) by (auto simp: resumed_inv_def int_of_format_hex)
  then show ?thesis
    using assms(4,5) by (simp add: continuation_def span_context_def Let_def format_hex_int_def run_attributes_def)
qed

definition demo_continuation :: run_continuation where
  "demo_continuation = \<lparr>rc_trace_id = format_hex 32 171, rc_run_span_id = format_hex 16 205, rc_run_id = ''r'',
     rc_subject = ''s'', rc_subject_type = ''t'', rc_graph_id = ''g''\<rparr>"

theorem resume_keeps_identity_witness:
  "continuation (\<lambda>n. (1, n)) (snd (handle ''u'' (\<lambda>n. (1, n)) (Chain_Start ''a'' (Some [''graph:step:1'']) (Some ''n'') (Some ''n:1''))
     (demo_handler\<lparr>h_graph_id := None, h_subject := None, h_subject_type := None, h_run_id := None,
        h_resume := Some demo_continuation\<rparr>))) = Inr demo_continuation"
proof -
  let ?h = "demo_handler\<lparr>h_graph_id := None, h_subject := None, h_subject_type := None, h_run_id := None,
        h_resume := Some demo_continuation\<rparr>"
  let ?ev = "Chain_Start ''a'' (Some [''graph:step:1'']) (Some ''n'') (Some ''n:1'')"
  have new: "new_handler None None None None (Some demo_continuation) None = Inr ?h"
    by (simp add: new_handler_def demo_handler_def)
  have r: "handler_reachable ''u'' (\<lambda>n. (1, n)) (snd (handle ''u'' (\<lambda>n. (1, n)) ?ev ?h))"
    by (rule reachable_call [OF handler_new [OF new]]) (simp add: demo_handler_def)
  show ?thesis
    by (rule resume_keeps_identity [OF r, of demo_continuation 171 205])
      (simp_all add: demo_run_simps demo_continuation_def int_of_format_hex)
qed

end
