(* ===== verification/Collector_Health.thy ===== *)
theory Collector_Health
  imports Outside
begin

text \<open>
  \<^verbatim>\<open>collector_health.py\<close>: one bounded probe of the Collector's health endpoint, and the wait for it to
  come back. The wait is \<open>None\<close> when it never returns.
\<close>

datatype reachability = REACHABLE | UNAVAILABLE

definition DEFAULT_RECOVERY_TIMEOUT :: seconds where "DEFAULT_RECOVERY_TIMEOUT = 30"
definition DEFAULT_POLL_INTERVAL :: seconds where "DEFAULT_POLL_INTERVAL = 1 / 2"

definition reachability_of :: "reply \<Rightarrow> reachability" where
  "reachability_of r = (case r of Reply code _ \<Rightarrow> if code = 200 then REACHABLE else UNAVAILABLE | _ \<Rightarrow> UNAVAILABLE)"

definition check_collector_health :: "env \<Rightarrow> string \<Rightarrow> outside \<Rightarrow> reachability \<times> outside" where
  "check_collector_health e ep u =
     (case http e (Request ''GET'' ep None) u of (r, u') \<Rightarrow> (reachability_of r, u'))"

text \<open>A negative sleep is a ValueError.\<close>

partial_function (option) recovery_loop ::
  "env \<Rightarrow> string \<Rightarrow> seconds \<Rightarrow> seconds \<Rightarrow> outside \<Rightarrow> ((exn + bool) \<times> outside) option" where
  "recovery_loop e ep poll_interval deadline u =
     (case check_collector_health e ep u of
        (h, u1) \<Rightarrow>
          if h = REACHABLE then Some (Inr True, u1)
          else
            (case monotonic e u1 of
               (t, u2) \<Rightarrow>
                 if deadline \<le> t then Some (Inr False, u2)
                 else if poll_interval < 0
                 then Some (Inl (Exn PyValueError ''sleep length must be non-negative''), u2)
                 else recovery_loop e ep poll_interval deadline (sleep poll_interval u2)))"

definition wait_for_collector_recovery ::
  "env \<Rightarrow> string \<Rightarrow> seconds \<Rightarrow> seconds \<Rightarrow> outside \<Rightarrow> ((exn + bool) \<times> outside) option" where
  "wait_for_collector_recovery e ep timeout poll_interval u =
     (case monotonic e u of (t, u') \<Rightarrow> recovery_loop e ep poll_interval (t + timeout) u')"

declare recovery_loop.simps [code]

section \<open>The wait\<close>

lemma check_collector_health_simps [simp]:
  "mono_now (snd (check_collector_health e ep u)) = mono_now u"
  "trace (snd (check_collector_health e ep u)) = Http (Request ''GET'' ep None) # trace u"
  by (simp_all add: check_collector_health_def http_def)

definition probes :: "string \<Rightarrow> nat \<Rightarrow> event list" where
  "probes ep n = replicate n (Http (Request ''GET'' ep None))"

text \<open>
  What a wait that returns has done: it probed, and nothing else, at most once more than it could sleep
  within the budget; it says True only on a reachable last answer, and False only at the deadline.
\<close>

definition waited :: "env \<Rightarrow> string \<Rightarrow> seconds \<Rightarrow> outside \<Rightarrow> nat \<Rightarrow> bool \<Rightarrow> outside \<Rightarrow> bool" where
  "waited e ep deadline u n b u' \<longleftrightarrow> trace u' = probes ep n @ trace u \<and> 0 < n \<and>
     (if b then reachability_of (server e (tl (trace u')) (Request ''GET'' ep None)) = REACHABLE
      else deadline \<le> mono_now u')"

lemma probes_Suc: "probes ep n @ Http (Request ''GET'' ep None) # t = probes ep (Suc n) @ t"
  by (simp add: probes_def replicate_app_Cons_same)

lemma recovery_returns:
  assumes "0 < poll_interval"
  shows "\<exists>n b u'. recovery_loop e ep poll_interval deadline u = Some (Inr b, u') \<and> waited e ep deadline u n b u' \<and>
    n \<le> Suc (rounds_left poll_interval deadline u)"
proof (induction "rounds_left poll_interval deadline u" arbitrary: u rule: less_induct)
  case less
  obtain h u1 where c: "check_collector_health e ep u = (h, u1)" by fastforce
  obtain t u2 where m: "monotonic e u1 = (t, u2)" by fastforce
  have u1: "mono_now u1 = mono_now u" "trace u1 = Http (Request ''GET'' ep None) # trace u"
    using check_collector_health_simps [of e ep u] c by simp_all
  have u2: "trace u2 = trace u1" "mono_now u2 = t"
    using monotonic_trace [of e u1] monotonic_now [of e u1] m by simp_all
  have h: "h = reachability_of (server e (trace u) (Request ''GET'' ep None))"
    using c by (simp add: check_collector_health_def http_def)
  show ?case
  proof (cases "h = REACHABLE")
    case True
    then have "recovery_loop e ep poll_interval deadline u = Some (Inr True, u1)"
      by (subst recovery_loop.simps) (simp add: c)
    moreover have "waited e ep deadline u 1 True u1" using True h u1 by (simp add: waited_def probes_def)
    ultimately show ?thesis by fastforce
  next
    case False
    show ?thesis
    proof (cases "deadline \<le> t")
      case True
      then have "recovery_loop e ep poll_interval deadline u = Some (Inr False, u2)"
        using False by (subst recovery_loop.simps) (simp add: c m)
      moreover have "waited e ep deadline u 1 False u2" using True u1 u2 by (simp add: waited_def probes_def)
      ultimately show ?thesis by fastforce
    next
      case late: False
      let ?v = "sleep poll_interval u2"
      have fewer: "rounds_left poll_interval deadline ?v < rounds_left poll_interval deadline u"
        by (rule poll_round_decreases [OF assms u1(1) m late])
      from less [OF fewer] obtain n b u' where rest: "recovery_loop e ep poll_interval deadline ?v = Some (Inr b, u')"
        "waited e ep deadline ?v n b u'" "n \<le> Suc (rounds_left poll_interval deadline ?v)" by blast
      have "recovery_loop e ep poll_interval deadline u = Some (Inr b, u')"
        using False late assms rest(1) by (subst recovery_loop.simps) (simp add: c m)
      moreover have "waited e ep deadline u (Suc n) b u'"
        using rest(2) u1 u2 by (auto simp: waited_def probes_Suc)
      ultimately show ?thesis using rest(3) fewer by (meson Suc_leI Suc_le_mono le_trans)
    qed
  qed
qed

section \<open>Properties\<close>

text \<open>
  The wait for the Collector always returns: with a positive interval and budget it ends after at
  most \<open>\<lceil>timeout / interval\<rceil> + 1\<close> probes, all of them GETs of the health endpoint; it reports recovery
  only when its last probe was answered with 200, and gives up only after the whole budget has passed.
\<close>

theorem recovery_wait_ends:
  assumes "0 < poll_interval" "monotonic e u = (t, u0)"
  shows "\<exists>n b u'. wait_for_collector_recovery e ep timeout poll_interval u = Some (Inr b, u') \<and>
    n \<le> Suc (nat \<lceil>timeout / poll_interval\<rceil>) \<and> waited e ep (t + timeout) u n b u'"
proof -
  have now: "mono_now u0 = t" "trace u0 = trace u"
    using monotonic_now [of e u] monotonic_trace [of e u] assms(2) by simp_all
  then have "rounds_left poll_interval (t + timeout) u0 = nat \<lceil>timeout / poll_interval\<rceil>"
    by (simp add: rounds_left_def)
  then obtain n b u' where "recovery_loop e ep poll_interval (t + timeout) u0 = Some (Inr b, u')"
    "waited e ep (t + timeout) u0 n b u'" "n \<le> Suc (nat \<lceil>timeout / poll_interval\<rceil>)"
    using recovery_returns [OF assms(1), of e ep "t + timeout" u0] by auto
  then have "wait_for_collector_recovery e ep timeout poll_interval u = Some (Inr b, u')"
    "waited e ep (t + timeout) u n b u'" "n \<le> Suc (nat \<lceil>timeout / poll_interval\<rceil>)"
    using now(2) assms(2) by (auto simp: wait_for_collector_recovery_def waited_def split: if_splits)
  then show ?thesis by blast
qed

definition down_env :: env where
  "down_env = \<lparr>server = (\<lambda>_ _. Refused), start_process = (\<lambda>_ _ _. Inr 1), clock_drift = (\<lambda>_. 0),
     format_number = (\<lambda>_. [])\<rparr>"

theorem recovery_wait_ends_witness:
  "\<exists>b u'. wait_for_collector_recovery down_env ''http://c'' DEFAULT_RECOVERY_TIMEOUT DEFAULT_POLL_INTERVAL
     \<lparr>trace = [], mono_now = 0, clock_reads = 0\<rparr> = Some (Inr b, u') \<and> length (trace u') \<le> 61"
proof -
  let ?u = "\<lparr>trace = [], mono_now = 0, clock_reads = 0\<rparr>"
  have "0 < DEFAULT_POLL_INTERVAL" "monotonic down_env ?u = (0, ?u\<lparr>clock_reads := 1\<rparr>)"
    by (simp_all add: DEFAULT_POLL_INTERVAL_def monotonic_def down_env_def)
  from recovery_wait_ends [OF this, of "''http://c''" DEFAULT_RECOVERY_TIMEOUT] show ?thesis
    by (auto simp: waited_def probes_def DEFAULT_RECOVERY_TIMEOUT_def DEFAULT_POLL_INTERVAL_def)
qed

end
