(* ===== verification/Spec2Isabelle.thy ===== *)
theory Spec2Isabelle
  imports Cli Cli_Watch Recording_Archive Langfuse_Facts Telemetry_Export Archive_Check Web_Threads Web_Overlay Inbox_Facts Live_Reconciliation Aegra_Stream Callback_Handler Archive_Health Collector_Health Connection_Diagnostics
begin

text \<open>
  A model of Cordboard (\<^verbatim>\<open>src/cord_runtime\<close> and \<^verbatim>\<open>cord-langgraph-callbacks\<close>) and what it
  guarantees. Cordboard connects Signals to agent graphs that run on Deployments (servers with the public
  Aegra API), records what they execute as spans of an OTLP archive, and shows both to an operator.

  \<^bold>\<open>The parts and how they interact.\<close> A Signal (\<^verbatim>\<open>signals.py\<close>) is matched by the Rules
  (\<^verbatim>\<open>rules.py\<close>); the router (\<^verbatim>\<open>router.py\<close>) claims the Signal id (\<^verbatim>\<open>signal_dedupe.py\<close>) and the
  (Assistant, Subject) pair (\<^verbatim>\<open>concurrency.py\<close>), starts the Deployment (\<^verbatim>\<open>deployment_lifecycle.py\<close>), executes
  through the client (\<^verbatim>\<open>aegra_client.py\<close>), records the submission (\<^verbatim>\<open>run_continuity.py\<close>) and routes the
  follow-up Signal, to a bounded depth. A Run that does not settle is left in \<^verbatim>\<open>pending_completions.py\<close> for the
  sweep; one that waits for an approval is found and answered by \<^verbatim>\<open>approval_inbox.py\<close>, with the claims of
  \<^verbatim>\<open>response_dedupe.py\<close>, the clock of \<^verbatim>\<open>approval_expiry.py\<close>, the boundary of \<^verbatim>\<open>entity_auth.py\<close> and
  the backend of \<^verbatim>\<open>backends/\<close>. On the other side \<^verbatim>\<open>execution.py\<close> and the LangGraph callback handler record
  Runs, Steps and Attempts as spans, \<^verbatim>\<open>telemetry.py\<close> sanitizes and exports them, \<^verbatim>\<open>archive_query.py\<close> and
  \<^verbatim>\<open>archive_health.py\<close> read them, \<^verbatim>\<open>langfuse_query.py\<close> compares them with a second store,
  \<^verbatim>\<open>live_reconciliation.py\<close> joins them with live lifecycle events, \<^verbatim>\<open>topology.py\<close> fetches the published
  structure, and \<^verbatim>\<open>viewer.py\<close> and \<^verbatim>\<open>connection_diagnostics.py\<close> put it all before the operator.

  \<^bold>\<open>Shared theories.\<close> \<^theory_text>\<open>Prelude\<close>: Python strings, the exception classes as a datatype, programs
  \<open>('s, 'a) prog\<close> that change a state and return or raise, dictionaries as association lists in insertion
  order, and store files (absent, unreadable, of another shape, or holding data). \<^theory_text>\<open>Wp\<close>: their weakest
  preconditions. \<^theory_text>\<open>Json\<close>: JSON values, Python's equality and truth value on them, attribute and item
  access with its exceptions, loops over items. \<^theory_text>\<open>Py_Text\<close>: \<^verbatim>\<open>strip\<close>, \<^verbatim>\<open>rsplit\<close>,
  \<^verbatim>\<open>int(text, base)\<close> and fixed-width hexadecimal. \<^theory_text>\<open>Outside\<close>: HTTP servers, processes and the
  clock. \<^theory_text>\<open>Claims\<close>: the contracts \<open>claim_store\<close> and \<open>first_writer\<close> of the stores, as locales
  that \<^theory_text>\<open>Concurrency\<close>, \<^theory_text>\<open>Signal_Dedupe\<close>, \<^theory_text>\<open>Response_Dedupe\<close> and \<^theory_text>\<open>Approval_Expiry\<close>
  interpret. \<^theory_text>\<open>World\<close>: the whole board directory as one state.

  \<^bold>\<open>Routing.\<close> \<^theory_text>\<open>Signals\<close>, \<^theory_text>\<open>Rules\<close>, \<^theory_text>\<open>Connections\<close>, \<^theory_text>\<open>Concurrency\<close> (also a machine of
  several processes racing for one pair), \<^theory_text>\<open>Signal_Dedupe\<close>, \<^theory_text>\<open>Run_Continuity\<close>,
  \<^theory_text>\<open>Pending_Completions\<close>, \<^theory_text>\<open>Deployment_Lifecycle\<close>, \<^theory_text>\<open>Aegra_Client\<close>, \<^theory_text>\<open>Aegra_Backend\<close> and
  \<^theory_text>\<open>Router\<close> model the files of the same names, one definition per function, the state the store file.
  \<^theory_text>\<open>Router_Facts\<close> shows that a cascade ends at the maximum depth, a redelivered Signal submits nothing, a
  call leaves no claim behind that nobody tracks, and every store keeps its invariant; \<^theory_text>\<open>Sweep\<close> shows what
  the sweep does with each observed status.

  \<^bold>\<open>Approvals.\<close> \<^theory_text>\<open>Response_Dedupe\<close>, \<^theory_text>\<open>Approval_Expiry\<close>, \<^theory_text>\<open>Entity_Auth\<close> (the authorization
  port is a locale, the synthetic and the HTTP boundary its interpretations) and \<^theory_text>\<open>Approval_Inbox\<close>;
  \<^theory_text>\<open>Inbox_Facts\<close> shows that an interrupt is resumed at most once and only on an explicit approval of the
  current revision.

  \<^bold>\<open>Recording and archive.\<close> \<^theory_text>\<open>Execution_Recording\<close> models \<^verbatim>\<open>execution.py\<close> as programs over
  the recorder's spans; \<^theory_text>\<open>Recording_Facts\<close> shows what any instrumented code keeps of them, and
  \<^theory_text>\<open>Recording_Export\<close> states the OTLP encoding the reader relies on and reads an encoded archive back;
  \<^theory_text>\<open>Recording_Archive\<close> shows that the query accepts all of what was recorded and counts it truly. \<^theory_text>\<open>Telemetry_Export\<close> models the scan, the
  stamp and the export of spans: nothing unscanned leaves. \<^theory_text>\<open>Callback_Handler\<close>: the callback handler as a machine over its open Steps.
  \<^theory_text>\<open>Archive_Query\<close> (the strict reader of OTLP lines) and \<^theory_text>\<open>Archive_Escalations\<close> (parents, Run roots,
  the contract of a span, ranked counts) model \<^verbatim>\<open>archive_query.py\<close>; \<^theory_text>\<open>Archive_Health\<close> the tolerant reader,
  with what it does set aside and what, against its documentation, it does not tell apart;
  \<^theory_text>\<open>Collector_Health\<close> the bounded wait for the Collector. \<^theory_text>\<open>Archive_Check\<close>: the check of an archive
  with the scanner's command line and its exit code. \<^theory_text>\<open>Langfuse_Query\<close>: the paged public reader and the comparison
  loop; \<^theory_text>\<open>Langfuse_Facts\<close> shows that a match is an agreement and that the comparison ends.

  \<^bold>\<open>Observation.\<close> \<^theory_text>\<open>Live_Reconciliation\<close> and \<^theory_text>\<open>Aegra_Stream\<close> (the event-stream parser and the
  reconnecting watch); \<^theory_text>\<open>Topology\<close>; \<^theory_text>\<open>Execution_Tree\<close>, \<^theory_text>\<open>Viewer_Topology\<close>,
  \<^theory_text>\<open>Viewer_Catalog\<close> and \<^theory_text>\<open>Viewer_Text\<close> model \<^verbatim>\<open>viewer.py\<close>, with the placement invariant in
  \<^theory_text>\<open>Tree_Placing\<close> and its consequences in \<^theory_text>\<open>Tree_Facts\<close>: each Step stands once, in its own Run, a Run's
  timeline is that of its spans, and the catalog neither loses nor guesses a Run. \<^theory_text>\<open>Connection_Diagnostics\<close>
  models the diagnostics with the probe of \<^verbatim>\<open>cli.py\<close>.
  \<^theory_text>\<open>Web_Urls\<close> (addresses and routing), \<^theory_text>\<open>Web_Layout\<close> (the picture of a structure, by breadth-first rows),
  \<^theory_text>\<open>Web_Expansions\<close> (its call sites) and \<^theory_text>\<open>Web_Overlay\<close> (a Run on the picture, its timeline and summary) model
  \<^verbatim>\<open>web/presentation.py\<close>; \<^theory_text>\<open>Web_Server\<close> models the POST controls of \<^verbatim>\<open>web/server.py\<close> on the domain operations,
  one request at a time: a forged form does nothing; \<^theory_text>\<open>Web_Threads\<close> runs them in threads that share the nonces under their
  lock and take steps in any order: forms outnumber executions. \<^theory_text>\<open>Cli_Console\<close> (console, exit statuses, input
  files), \<^theory_text>\<open>Cli\<close> (the commands as programs on the console: a usage error changes nothing, the success of
  \<^verbatim>\<open>cord run\<close> is recorded) and \<^theory_text>\<open>Cli_Watch\<close> (\<^verbatim>\<open>cord view\<close>: the watching threads as the messages they put
  on the queue, in any order that keeps each thread's own, and the consumer: it comes back, and shows every Run from
  its own events) model \<^verbatim>\<open>cli.py\<close>.

  \<^bold>\<open>Bounds, fuel and termination.\<close> Loops are structural recursions or functions with a measure: the cascade
  by the depth left, polling loops by the time budget left (\<open>rounds_left\<close>: every round sleeps a positive
  time), the walk to a Run root and the placing of Steps by the span ids not yet seen, the search for child
  structures by the structures not yet found. \<open>flatten\<close> and \<open>view_step\<close> take the number of Steps as fuel,
  which is enough because a Step is attached once (\<^theory_text>\<open>Tree_Facts\<close>), and so does \<open>nest\<close>. The search of a picture ends by
  the link targets not yet in a row, the opening of call sites by the structures not yet open above. The loops that may not end (waiting for
  the archive, the Collector, a lifecycle stream) are partial functions into option; that they return under a
  positive interval is proved.

  \<^bold>\<open>What the model assumes.\<close> Python's integers are \<open>int\<close>; seconds are rationals; characters have code points
  below 256; messages that contain a file path omit it. A store file holds records of its writer's shape, and
  writing it does not fail. A store that the code does not lock is used by one process, apart from the racing
  machine of \<^theory_text>\<open>Concurrency\<close> and the threads of \<^theory_text>\<open>Web_Threads\<close>. Ids that an Aegra server or a topology
  document gives are strings, as their documentation says; for any other type the model stops with a TypeError,
  where the code may pass the value on. A cascade depth in a payload is an integer. Parameters stand for what is outside the
  repository: the server's answers, processes, \<^verbatim>\<open>urlsplit\<close>, \<^verbatim>\<open>json.loads\<close>, SHA-256, the topology schema's
  validator, the tracer's ids, \<^verbatim>\<open>uuid4\<close>, formatting of numbers and times. Ids drawn by the tracing SDK are
  distinct and in the ranges OpenTelemetry gives; that its wall clock does not go backwards is a hypothesis of the
  property that needs it. The monotonic clock does not go backwards and a sleep lasts at least as long as asked. A \<^verbatim>\<open>try/finally\<close> block's local flags are part of the
  state of the block; a generator is the list of what it yields with the exception that ends it. Callbacks are
  atomic under the handler's lock and the ids of open LangChain runs are distinct, being fresh UUIDs. The records that the viewer
  shares by reference are a store keyed by span id. A directory listing does not change between two looks of
  one health check.

  \<^bold>\<open>Not modelled.\<close> The templates, the catalog of state descriptions, the response headers, the pages that
  only read and the observation threads under \<^verbatim>\<open>web/\<close>; the \<^verbatim>\<open>argparse\<close> declarations and the diagnostics table of \<^verbatim>\<open>cli.py\<close> and the printing of the
  modules' own \<^verbatim>\<open>main\<close> functions; the examples and scripts: they call what is modelled and add no logic of their
  own. Protocol buffers and the redaction rules are third-party.
\<close>

end
